(* ===== verification/Prelude.thy ===== *)
theory Prelude
  imports Main "HOL-Library.Word"
begin

text \<open>
  Shared vocabulary of the development: the machine integer types of the kernel, the
  theorem collections that component proofs feed to the simplifier, and generic facts
  on words, lists and function updates.
\<close>

unbundle bit_operations_syntax

section \<open>Machine types\<close>

type_synonym u8 = "8 word"
type_synonym u16 = "16 word"
type_synonym u32 = "32 word"

text \<open>A kernel pointer is a 32-bit address; \<open>NULL\<close> is address 0.\<close>

type_synonym ptr = u32

text \<open>Characters and string literals of the source, as bytes.\<close>

abbreviation ch :: "char \<Rightarrow> u8" where "ch c \<equiv> of_char c"
abbreviation lit :: "string \<Rightarrow> u8 list" where "lit s \<equiv> map of_char s"

section \<open>Theorem collections\<close>

named_theorems frame_simps \<open>a component's operations leave the other fields alone\<close>
named_theorems inv_intros \<open>operations preserve the invariant of their component\<close>

section \<open>Words\<close>

lemma unat_lt_two_power_32 [simp]: "unat (w :: u32) < 4294967296"
  using unsigned_less [of w] by simp

lemma unat_of_nat_u32:
  assumes "n < 4294967296" shows "unat (of_nat n :: u32) = n"
  using assms by (simp add: unat_of_nat)

lemma unat_add_u32:
  fixes a b :: u32
  assumes "unat a + unat b < 4294967296"
  shows "unat (a + b) = unat a + unat b"
  using assms by (simp add: unat_word_ariths)

lemma unat_add_of_nat: "unat p + n < 4294967296 \<Longrightarrow> unat (p + of_nat n :: u32) = unat p + n"
  using unat_add_u32 [of p "of_nat n"] unat_of_nat_u32 [of n] by simp

lemma unat_diff_u32:
  fixes a b :: u32
  assumes "b \<le> a"
  shows "unat (a - b) = unat a - unat b"
  using assms by (rule unat_sub)

lemma word_bits_all_ones: "(0xFFFFFFFF :: u32) = - 1"
  by simp

lemma unat_minus_one_u32 [simp]: "unat (- 1 :: u32) = 4294967295"
proof -
  have "unat (0xFFFFFFFF :: u32) = 4294967295" by (simp only: unat_numeral) simp
  then show ?thesis by (simp only: word_bits_all_ones)
qed

lemma lt_unat_u32: "n < unat (w :: u32) \<Longrightarrow> n < 4294967295"
  using unat_lt_two_power_32 [of w] by linarith

lemma unat_neg_of_nat_u32:
  assumes "0 < n" "n \<le> 4294967296" shows "unat (- of_nat n :: u32) = 4294967296 - n"
proof -
  have "- of_nat n = (of_nat (4294967296 - n) :: u32)" using assms(2) by (simp add: of_nat_diff)
  moreover have "unat (of_nat (4294967296 - n) :: u32) = 4294967296 - n"
    by (rule unat_of_nat_u32) (use assms in simp)
  ultimately show ?thesis by (simp only:)
qed

lemma sint_u32:
  "sint (w :: u32) = (if unat w < 2147483648 then int (unat w) else int (unat w) - 4294967296)"
proof -
  have lt: "uint w < 4294967296" "0 \<le> uint w" using uint_lt2p [of w] by simp_all
  have "sint w = take_bit (Suc 31) (uint w) - 2 ^ Suc 31 * of_bool (bit (uint w) 31)"
    by (simp add: sint_uint signed_take_bit_eq_take_bit_minus)
  also have "take_bit (Suc 31) (uint w) = uint w" using lt by (intro take_bit_int_eq_self) simp_all
  also have "bit (uint w) 31 \<longleftrightarrow> 2147483648 \<le> uint w"
  proof (cases "2147483648 \<le> uint w")
    case True
    then have "uint w div 2147483648 = 1" using lt by (intro int_div_pos_eq [of _ _ _ "uint w - 2147483648"]) simp_all
    then show ?thesis using True by (simp add: bit_iff_odd)
  next
    case False
    then have "uint w div 2147483648 = 0" using lt by simp
    then show ?thesis using False by (simp add: bit_iff_odd)
  qed
  finally have "sint w = uint w - 2 ^ Suc 31 * of_bool (2147483648 \<le> uint w)" .
  moreover obtain n where "unat w = n" "uint w = int n"
  proof -
    have "uint w = int (unat w)" by simp
    then show ?thesis using that by blast
  qed
  ultimately show ?thesis by auto
qed

text \<open>Clearing the low bits rounds down to a multiple of a power of two; masking takes the rest.\<close>

lemma and_not_mask_u32: "(w :: u32) AND NOT (mask n) = push_bit n (drop_bit n w)"
  by (rule bit_word_eqI) (auto simp: bit_simps)

lemma unat_and_not_mask: "unat ((w :: u32) AND NOT (mask n)) = unat w div 2 ^ n * 2 ^ n"
proof -
  have "unat w div 2 ^ n * 2 ^ n \<le> unat w" by simp
  then have "unat w div 2 ^ n * 2 ^ n < 4294967296"
    using unat_lt_two_power_32 [of w] by (rule le_less_trans)
  then have "take_bit 32 (unat w div 2 ^ n * 2 ^ n) = unat w div 2 ^ n * 2 ^ n"
    by (simp add: take_bit_nat_eq_self)
  moreover have "unat (push_bit n (drop_bit n w)) = take_bit 32 (push_bit n (drop_bit n (unat w)))"
    by (simp only: unsigned_push_bit_eq unat_drop_bit_eq) simp
  ultimately show ?thesis
    by (simp only: and_not_mask_u32 push_bit_eq_mult drop_bit_eq_div)
qed

lemma unat_and_mask: "unat ((w :: u32) AND mask n) = unat w mod 2 ^ n"
  by (simp add: take_bit_eq_mask [symmetric] unsigned_take_bit_eq take_bit_nat_def)

section \<open>Lists\<close>

lemma find_append:
  "find P (xs @ ys) = (case find P xs of None \<Rightarrow> find P ys | Some x \<Rightarrow> Some x)"
  by (induction xs) auto

lemma find_upt_None_iff: "find P [a..<b] = None \<longleftrightarrow> (\<forall>i. a \<le> i \<and> i < b \<longrightarrow> \<not> P i)"
  by (auto simp: find_None_iff)

lemma find_upt_Some_iff:
  "find P [a..<b] = Some i \<longleftrightarrow> a \<le> i \<and> i < b \<and> P i \<and> (\<forall>j. a \<le> j \<and> j < i \<longrightarrow> \<not> P j)"
proof (induction "b - a" arbitrary: a)
  case 0
  then show ?case by auto
next
  case (Suc n)
  then have ab: "a < b" and n: "n = b - Suc a" by auto
  show ?case
  proof (cases "P a")
    case True
    then show ?thesis using ab by (auto simp: upt_conv_Cons)
  next
    case False
    have "find P [a..<b] = find P [Suc a..<b]"
      using ab False by (simp add: upt_conv_Cons)
    then show ?thesis
      using Suc.hyps(1) [OF n] False
      by (metis Suc_leD Suc_le_eq le_neq_implies_less)
  qed
qed

text \<open>A search over an interval moves its start past elements that do not qualify.\<close>

lemma find_upt_skip:
  assumes "a \<le> c" and "\<And>i. a \<le> i \<Longrightarrow> i < c \<Longrightarrow> i < b \<Longrightarrow> \<not> P i"
  shows "find P [a..<b] = find P [c..<b]"
proof (cases "c \<le> b")
  case True
  then have "[a..<b] = [a..<c] @ [c..<b]" using assms(1) by (metis le_Suc_ex upt_add_eq_append)
  moreover have "find P [a..<c] = None" using assms(2) True by (auto simp: find_None_iff)
  ultimately show ?thesis by (simp add: find_append)
next
  case False
  then have "find P [a..<b] = None" using assms(2) by (auto simp: find_None_iff)
  then show ?thesis using False by simp
qed

lemma find_upt_Cons: "a < b \<Longrightarrow> find P [a..<b] = (if P a then Some a else find P [Suc a..<b])"
  by (simp add: upt_conv_Cons)

lemma distinct_append_Cons_remove1:
  "distinct (ys @ x # zs) \<Longrightarrow> remove1 x (ys @ x # zs) = ys @ zs"
  by (simp add: remove1_append)

section \<open>Loops over arrays\<close>

text \<open>Two nested counting loops over a table are one loop over its cells.\<close>

lemma upt_rows: "[0..<Suc h * w] = [0..<h * w] @ map (\<lambda>x. h * w + x) [0..<w]"
  by (rule nth_equalityI) (auto simp: nth_append)

lemma nested_fold: "fold (\<lambda>y. fold (\<lambda>x. f (y * w + x)) [0..<w]) [0..<h] s = fold f [0..<h * w] s"
proof (induction h)
  case 0
  then show ?case by simp
next
  case (Suc h)
  have "fold (\<lambda>x. f (h * w + x)) [0..<w] t = fold f (map (\<lambda>x. h * w + x) [0..<w]) t" for t
    by (simp add: fold_map comp_def)
  then show ?case using Suc unfolding upt_rows by simp
qed

lemma fold_fill: "fold (\<lambda>i c. c(i := v)) [a..<b] c = (\<lambda>j. if a \<le> j \<and> j < b then v else c j)"
proof (induction b)
  case 0
  then show ?case by auto
next
  case (Suc b)
  then show ?case by (cases "a \<le> b") (auto simp: fun_eq_iff less_Suc_eq)
qed

lemma fold_shift: "fold (\<lambda>i c. c(i := c (i + k))) [0..<n] c = (\<lambda>j. if j < n then c (j + k) else c j)"
  by (induction n) (auto simp: fun_eq_iff less_Suc_eq)

lemma fold_fill_row: "fold (\<lambda>x c. c(a + x := v)) [0..<n] c = (\<lambda>j. if a \<le> j \<and> j < a + n then v else c j)"
  by (induction n) (auto simp: fun_eq_iff less_Suc_eq)

end
