(* ===== verification/ListHead.thy ===== *)
theory ListHead
  imports Prelude
begin

text \<open>
  The intrusive circular lists of \<^verbatim>\<open>include/list.h\<close>. A \<^verbatim>\<open>struct list_head\<close> is
  a pair of cells \<open>next\<close>/\<open>prev\<close> at an address; the two fields of all nodes are the
  two maps of the record \<open>links\<close>, so an operation is a sequence of map updates in the
  order of the C assignments and two list heads may share nodes as they do in C.
  Page 0 is identity mapped by the kernel, so a store through a NULL link is a store to the
  cells of address 0 and not a fault. \<open>dlist l h xs\<close> is the representation predicate:
  the ring of head \<open>h\<close> holds exactly the nodes \<open>xs\<close>, in order.
\<close>

section \<open>Nodes and operations\<close>

record links =
  lnext :: "ptr \<Rightarrow> ptr"
  lprev :: "ptr \<Rightarrow> ptr"

definition set_next :: "ptr \<Rightarrow> ptr \<Rightarrow> links \<Rightarrow> links" where
  "set_next p v l = l\<lparr>lnext := (lnext l)(p := v)\<rparr>"

definition set_prev :: "ptr \<Rightarrow> ptr \<Rightarrow> links \<Rightarrow> links" where
  "set_prev p v l = l\<lparr>lprev := (lprev l)(p := v)\<rparr>"

definition init_list_head :: "ptr \<Rightarrow> links \<Rightarrow> links" where
  "init_list_head p l = set_prev p p (set_next p p l)"

text \<open>\<open>list_add_between\<close> is \<^verbatim>\<open>__list_add\<close>, \<open>list_del_between\<close> is \<^verbatim>\<open>__list_del\<close>.\<close>

definition list_add_between :: "ptr \<Rightarrow> ptr \<Rightarrow> ptr \<Rightarrow> links \<Rightarrow> links" where
  "list_add_between new prev next l =
     (let l1 = set_prev next new l;
          l2 = set_next new next l1;
          l3 = set_prev new prev l2
      in set_next prev new l3)"

definition list_add :: "ptr \<Rightarrow> ptr \<Rightarrow> links \<Rightarrow> links" where
  "list_add new head l = list_add_between new head (lnext l head) l"

definition list_add_tail :: "ptr \<Rightarrow> ptr \<Rightarrow> links \<Rightarrow> links" where
  "list_add_tail new head l = list_add_between new (lprev l head) head l"

definition list_del_between :: "ptr \<Rightarrow> ptr \<Rightarrow> links \<Rightarrow> links" where
  "list_del_between prev next l = set_next prev next (set_prev next prev l)"

definition list_del :: "ptr \<Rightarrow> links \<Rightarrow> links" where
  "list_del entry l =
     (let l1 = list_del_between (lprev l entry) (lnext l entry) l
      in set_prev entry 0 (set_next entry 0 l1))"

definition list_replace :: "ptr \<Rightarrow> ptr \<Rightarrow> links \<Rightarrow> links" where
  "list_replace old new l =
     (let l1 = set_next new (lnext l old) l;
          l2 = set_prev (lnext l1 new) new l1;
          l3 = set_prev new (lprev l2 old) l2
      in set_next (lprev l3 new) new l3)"

definition list_move :: "ptr \<Rightarrow> ptr \<Rightarrow> links \<Rightarrow> links" where
  "list_move entry head l =
     list_add entry head (list_del_between (lprev l entry) (lnext l entry) l)"

definition list_move_tail :: "ptr \<Rightarrow> ptr \<Rightarrow> links \<Rightarrow> links" where
  "list_move_tail entry head l =
     list_add_tail entry head (list_del_between (lprev l entry) (lnext l entry) l)"

definition list_empty :: "ptr \<Rightarrow> links \<Rightarrow> bool" where
  "list_empty head l \<longleftrightarrow> lnext l head = head"

definition list_is_singular :: "ptr \<Rightarrow> links \<Rightarrow> bool" where
  "list_is_singular head l \<longleftrightarrow> \<not> list_empty head l \<and> lnext l head = lprev l head"

text \<open>
  The loop of \<^verbatim>\<open>list_for_each_entry\<close> from a cursor, left by a \<^verbatim>\<open>break\<close> (or return)
  at the first node that satisfies the body's test: the outer option is the loop's
  termination, the inner one whether it was left early. \<open>list_nodes\<close> is the sequence of
  nodes a full traversal visits, forwards or backwards.
\<close>

partial_function (option) list_search :: "(ptr \<Rightarrow> bool) \<Rightarrow> ptr \<Rightarrow> ptr \<Rightarrow> links \<Rightarrow> ptr option option" where
  "list_search P head pos l =
     (if pos = head then Some None
      else if P pos then Some (Some pos)
      else list_search P head (lnext l pos) l)"

partial_function (option) list_nodes :: "ptr \<Rightarrow> ptr \<Rightarrow> links \<Rightarrow> ptr list option" where
  "list_nodes head pos l =
     (if pos = head then Some []
      else Option.bind (list_nodes head (lnext l pos) l) (\<lambda>ps. Some (pos # ps)))"

partial_function (option) list_nodes_reverse :: "ptr \<Rightarrow> ptr \<Rightarrow> links \<Rightarrow> ptr list option" where
  "list_nodes_reverse head pos l =
     (if pos = head then Some []
      else Option.bind (list_nodes_reverse head (lprev l pos) l) (\<lambda>ps. Some (pos # ps)))"

lemma set_next_sel [simp]:
  "lnext (set_next p v l) = (lnext l)(p := v)" "lprev (set_next p v l) = lprev l"
  by (simp_all add: set_next_def)

lemma set_prev_sel [simp]:
  "lprev (set_prev p v l) = (lprev l)(p := v)" "lnext (set_prev p v l) = lnext l"
  by (simp_all add: set_prev_def)

lemmas list_op_defs =
  init_list_head_def list_add_between_def list_add_def list_add_tail_def list_del_between_def
  list_del_def list_replace_def list_move_def list_move_tail_def Let_def

section \<open>Chains and rings\<close>

fun chain :: "links \<Rightarrow> ptr \<Rightarrow> ptr list \<Rightarrow> ptr \<Rightarrow> bool" where
  "chain l a [] b \<longleftrightarrow> lnext l a = b \<and> lprev l b = a"
| "chain l a (x # xs) b \<longleftrightarrow> lnext l a = x \<and> lprev l x = a \<and> chain l x xs b"

definition dlist :: "links \<Rightarrow> ptr \<Rightarrow> ptr list \<Rightarrow> bool" where
  "dlist l h xs \<longleftrightarrow> chain l h xs h \<and> distinct (h # xs) \<and> 0 \<notin> set (h # xs)"

lemma chain_append [simp]:
  "chain l a (xs @ x # ys) b \<longleftrightarrow> chain l a xs x \<and> chain l x ys b"
  by (induction xs arbitrary: a) auto

lemma chain_cong:
  assumes "\<And>p. p \<in> set (a # xs) \<Longrightarrow> lnext l' p = lnext l p"
    and "\<And>p. p \<in> set (xs @ [b]) \<Longrightarrow> lprev l' p = lprev l p"
  shows "chain l' a xs b = chain l a xs b"
  using assms by (induction xs arbitrary: a) auto

lemma chain_last_next: "chain l a xs b \<Longrightarrow> lprev l b = last (a # xs)"
  by (induction xs arbitrary: a) auto

lemma chain_first_next: "chain l a xs b \<Longrightarrow> lnext l a = hd (xs @ [b])"
  by (cases xs) auto

lemma chain_last_in: "chain l a xs b \<Longrightarrow> lprev l b \<in> set (a # xs)"
  using chain_last_next [of l a xs b] last_in_set [of "a # xs"] by simp

lemma chain_first_in: "chain l a xs b \<Longrightarrow> lnext l a \<in> set (xs @ [b])"
  by (cases xs) auto

lemma dlist_cong:
  assumes "\<And>p. p \<in> set (h # xs) \<Longrightarrow> lnext l' p = lnext l p \<and> lprev l' p = lprev l p"
  shows "dlist l' h xs = dlist l h xs"
proof -
  have "chain l' h xs h = chain l h xs h"
    by (rule chain_cong) (use assms in auto)
  then show ?thesis by (simp add: dlist_def)
qed

lemma dlist_distinct: "dlist l h xs \<Longrightarrow> distinct (h # xs)"
  and dlist_nonnull: "dlist l h xs \<Longrightarrow> 0 \<notin> set (h # xs)"
  by (simp_all add: dlist_def)

lemma dlist_empty_iff: "dlist l h xs \<Longrightarrow> list_empty h l \<longleftrightarrow> xs = []"
  by (cases xs) (auto simp: dlist_def list_empty_def)

lemma dlist_first: "dlist l h (x # xs) \<Longrightarrow> lnext l h = x"
  by (simp add: dlist_def)

lemma dlist_last: "dlist l h (xs @ [x]) \<Longrightarrow> lprev l h = x"
  by (simp add: dlist_def)

lemma dlist_unique: "dlist l h xs \<Longrightarrow> dlist l h ys \<Longrightarrow> xs = ys"
proof -
  have "chain l a xs h \<Longrightarrow> chain l a ys h \<Longrightarrow> h \<notin> set xs \<Longrightarrow> h \<notin> set ys \<Longrightarrow> xs = ys" for a
  proof (induction xs arbitrary: a ys)
    case Nil
    then show ?case by (cases ys) auto
  next
    case (Cons x xs)
    then show ?case by (cases ys) auto
  qed
  then show "dlist l h xs \<Longrightarrow> dlist l h ys \<Longrightarrow> xs = ys"
    by (auto simp: dlist_def)
qed

section \<open>The operations on rings\<close>

lemma dlist_init: "h \<noteq> 0 \<Longrightarrow> dlist (init_list_head h l) h []"
  by (simp add: dlist_def init_list_head_def)

text \<open>Where an operation on one ring leaves the cells of another alone, the other is unchanged.\<close>

lemma init_list_head_frame:
  "p \<noteq> q \<Longrightarrow> lnext (init_list_head p l) q = lnext l q \<and> lprev (init_list_head p l) q = lprev l q"
  by (simp add: init_list_head_def)

lemma dlist_init_other: "p \<notin> set (h # xs) \<Longrightarrow> dlist (init_list_head p l) h xs = dlist l h xs"
  by (rule dlist_cong) (metis init_list_head_frame)

lemma chain_frame_next: "p \<notin> set (a # xs) \<Longrightarrow> chain (set_next p v l) a xs b = chain l a xs b"
  by (rule chain_cong) auto

lemma chain_frame_prev: "p \<notin> set (xs @ [b]) \<Longrightarrow> chain (set_prev p v l) a xs b = chain l a xs b"
  by (rule chain_cong) auto

lemma dlist_add:
  assumes d: "dlist l h xs" and n: "n \<notin> set (h # xs)" "n \<noteq> 0"
  shows "dlist (list_add n h l) h (n # xs)"
proof (cases xs)
  case Nil
  then show ?thesis using assms by (auto simp: dlist_def list_op_defs)
next
  case (Cons y ys)
  have "chain (list_add n h l) y ys h"
    using d n unfolding Cons dlist_def
    by (subst chain_cong [of y ys _ l h]) (auto simp: list_op_defs)
  then show ?thesis using d n Cons by (auto simp: dlist_def list_op_defs)
qed


lemma dlist_split:
  "dlist l h (ys @ x # zs) \<longleftrightarrow>
     chain l h ys x \<and> chain l x zs h \<and> distinct (h # ys @ x # zs) \<and> 0 \<notin> set (h # ys @ x # zs)"
  by (auto simp: dlist_def)

lemma dlist_add_tail:
  assumes d: "dlist l h xs" and n: "n \<notin> set (h # xs)" "n \<noteq> 0"
  shows "dlist (list_add_tail n h l) h (xs @ [n])"
proof (cases xs rule: rev_cases)
  case Nil
  then show ?thesis using assms by (auto simp: dlist_def list_op_defs)
next
  case (snoc ys y)
  have "chain (list_add_tail n h l) h ys y"
    using d n unfolding snoc dlist_def
    by (subst chain_cong [of h ys _ l y]) (auto simp: list_op_defs)
  then show ?thesis using d n snoc by (auto simp: dlist_def list_op_defs)
qed

lemma list_add_frame:
  assumes "dlist l h xs" and "q \<notin> set (h # xs)" and "q \<noteq> n"
  shows "lnext (list_add n h l) q = lnext l q" "lprev (list_add n h l) q = lprev l q"
  using assms by (cases xs; auto simp: dlist_def list_op_defs)+

lemma list_add_tail_frame:
  assumes "dlist l h xs" and "q \<notin> set (h # xs)" and "q \<noteq> n"
  shows "lnext (list_add_tail n h l) q = lnext l q" "lprev (list_add_tail n h l) q = lprev l q"
  using assms by (cases xs rule: rev_cases; auto simp: dlist_def list_op_defs)+

text \<open>The neighbours of a node of a ring: the last node before it and the first one after it.\<close>

lemma dlist_neighbours:
  assumes "dlist l h (ys @ x # zs)"
  shows "lprev l x = last (h # ys)" "lnext l x = hd (zs @ [h])"
  using assms by (auto simp: dlist_split chain_last_next dest: chain_first_next)

lemma chain_del_between:
  assumes "chain l a ys x" and "chain l x zs b"
    and "distinct (a # ys @ x # zs)" and "b \<notin> set (ys @ x # zs)"
  shows "chain (list_del_between (lprev l x) (lnext l x) l) a (ys @ zs) b"
  using assms
proof (induction ys arbitrary: a)
  case Nil
  show ?case
  proof (cases zs)
    case Nil
    then show ?thesis using Nil.prems by (auto simp: list_op_defs)
  next
    case (Cons z zs')
    have "chain (list_del_between (lprev l x) (lnext l x) l) z zs' b"
      using Nil.prems Cons by (subst chain_cong [of z zs' _ l b]) (auto simp: list_op_defs)
    then show ?thesis using Nil.prems Cons by (auto simp: list_op_defs)
  qed
next
  case (Cons y ys)
  have "chain (list_del_between (lprev l x) (lnext l x) l) y (ys @ zs) b"
    by (rule Cons.IH) (use Cons.prems in auto)
  moreover have "lprev l x \<in> set (y # ys)" and "lnext l x \<in> set (zs @ [b])"
    using Cons.prems chain_last_in [of l y ys x] chain_first_in [of l x zs b] by auto
  then have "lprev l x \<noteq> a" and "lnext l x \<noteq> y"
    using Cons.prems by auto
  ultimately show ?case using Cons.prems by (auto simp: list_op_defs)
qed

lemma list_del_between_frame:
  assumes "dlist l h (ys @ x # zs)" and "q \<notin> set (h # ys @ zs)"
  shows "lnext (list_del_between (lprev l x) (lnext l x) l) q = lnext l q"
    "lprev (list_del_between (lprev l x) (lnext l x) l) q = lprev l q"
proof -
  have "lprev l x \<in> set (h # ys)" "lnext l x \<in> set (zs @ [h])"
    using assms chain_last_in [of l h ys x] chain_first_in [of l x zs h]
    by (simp_all add: dlist_split)
  then show "lnext (list_del_between (lprev l x) (lnext l x) l) q = lnext l q"
    "lprev (list_del_between (lprev l x) (lnext l x) l) q = lprev l q"
    using assms(2) by (auto simp: list_op_defs)
qed

lemma dlist_del_between:
  assumes "dlist l h (ys @ x # zs)"
  shows "dlist (list_del_between (lprev l x) (lnext l x) l) h (ys @ zs)"
  using assms by (auto simp: dlist_split dlist_def intro!: chain_del_between)

lemma list_del_frame:
  assumes "dlist l h (ys @ x # zs)" and "q \<notin> set (h # ys @ x # zs)"
  shows "lnext (list_del x l) q = lnext l q" "lprev (list_del x l) q = lprev l q"
  using assms list_del_between_frame [OF assms(1), of q]
  by (auto simp: list_del_def Let_def)

lemma list_del_poisons: "lnext (list_del x l) x = 0" "lprev (list_del x l) x = 0"
  by (simp_all add: list_del_def Let_def)

lemma dlist_del:
  assumes d: "dlist l h (ys @ x # zs)"
  shows "dlist (list_del x l) h (ys @ zs)"
proof -
  let ?l = "list_del_between (lprev l x) (lnext l x) l"
  have "dlist ?l h (ys @ zs)" using d by (rule dlist_del_between)
  moreover have "dlist (list_del x l) h (ys @ zs) = dlist ?l h (ys @ zs)"
    by (rule dlist_cong) (use d in \<open>auto simp: list_del_def Let_def dlist_split\<close>)
  ultimately show ?thesis by simp
qed

lemma dlist_del_remove1:
  assumes "dlist l h xs" and "x \<in> set xs"
  shows "dlist (list_del x l) h (remove1 x xs)"
proof -
  obtain ys zs where "xs = ys @ x # zs" and "x \<notin> set ys"
    using split_list_first [OF assms(2)] by blast
  then show ?thesis using assms(1) dlist_del by (simp add: remove1_append)
qed

lemma list_move_eq:
  assumes "dlist l h (ys @ x # zs)"
  shows "dlist (list_move x h l) h (x # ys @ zs)"
    and "dlist (list_move_tail x h l) h (ys @ zs @ [x])"
proof -
  have d: "dlist (list_del_between (lprev l x) (lnext l x) l) h (ys @ zs)"
    using assms by (rule dlist_del_between)
  have x: "x \<notin> set (h # ys @ zs)" "x \<noteq> 0"
    using assms by (auto simp: dlist_split)
  show "dlist (list_move x h l) h (x # ys @ zs)"
    unfolding list_move_def by (rule dlist_add [OF d x])
  show "dlist (list_move_tail x h l) h (ys @ zs @ [x])"
    unfolding list_move_tail_def using dlist_add_tail [OF d x] by simp
qed

lemma dlist_replace:
  assumes d: "dlist l h (ys @ x # zs)" and n: "n \<notin> set (h # ys @ x # zs)" "n \<noteq> 0"
  shows "dlist (list_replace x n l) h (ys @ n # zs)"
proof -
  let ?l = "list_replace x n l"
  have nb: "lprev l x \<in> set (h # ys)" "lnext l x \<in> set (zs @ [h])"
    using d chain_last_in [of l h ys x] chain_first_in [of l x zs h]
    by (simp_all add: dlist_split)
  have eqs: "lnext ?l = (lnext l)(n := lnext l x, lprev l x := n)"
    "lprev ?l = (lprev l)(lnext l x := n, n := lprev l x)"
    using d n nb by (auto simp: list_op_defs dlist_split fun_eq_iff)
  have c: "chain l h ys x" "chain l x zs h" using d by (simp_all add: dlist_split)
  have "chain ?l h ys n"
  proof (cases ys rule: rev_cases)
    case Nil
    then show ?thesis using c n nb d by (auto simp: eqs)
  next
    case (snoc ys' y)
    have y: "lprev l x = y" and cy: "chain l h ys' y" using c(1) snoc by auto
    have "chain ?l h ys' y = chain l h ys' y"
      by (rule chain_cong) (use d n nb y snoc in \<open>auto simp: eqs dlist_split\<close>)
    then show ?thesis using y cy snoc n by (auto simp: eqs)
  qed
  moreover have "chain ?l n zs h"
  proof (cases zs)
    case Nil
    then show ?thesis using c n nb d by (auto simp: eqs dlist_split)
  next
    case (Cons z zs')
    have z: "lnext l x = z" and cz: "chain l z zs' h" using c(2) Cons by auto
    have "chain ?l z zs' h = chain l z zs' h"
      by (rule chain_cong) (use d n nb z Cons in \<open>auto simp: eqs dlist_split\<close>)
    then show ?thesis using z cz Cons n nb d by (auto simp: eqs dlist_split)
  qed
  ultimately show ?thesis using d n by (auto simp: dlist_split)
qed

section \<open>Traversals\<close>

lemma list_search_chain:
  assumes "chain l a xs h" and "h \<notin> set xs"
  shows "list_search P h (lnext l a) l = Some (find P xs)"
  using assms
proof (induction xs arbitrary: a)
  case Nil
  then show ?case by (subst list_search.simps) auto
next
  case (Cons x xs)
  then have "lnext l a = x" "list_search P h (lnext l x) l = Some (find P xs)" by auto
  then show ?case using Cons.prems by (subst list_search.simps) auto
qed

lemma list_search_dlist:
  "dlist l h xs \<Longrightarrow> list_search P h (lnext l h) l = Some (find P xs)"
  by (rule list_search_chain) (auto simp: dlist_def)

lemma list_search_from:
  "dlist l h (ys @ x # zs) \<Longrightarrow> list_search P h (lnext l x) l = Some (find P zs)"
  by (rule list_search_chain) (auto simp: dlist_split)

lemma list_nodes_chain:
  assumes "chain l a xs h" and "h \<notin> set xs"
  shows "list_nodes h (lnext l a) l = Some xs"
  using assms
proof (induction xs arbitrary: a)
  case Nil
  then show ?case by (subst list_nodes.simps) auto
next
  case (Cons x xs)
  then have "lnext l a = x" "list_nodes h (lnext l x) l = Some xs" by auto
  then show ?case using Cons.prems by (subst list_nodes.simps) auto
qed

lemma list_nodes_dlist: "dlist l h xs \<Longrightarrow> list_nodes h (lnext l h) l = Some xs"
  by (rule list_nodes_chain) (auto simp: dlist_def)

lemma list_nodes_reverse_chain:
  assumes "chain l h xs b" and "h \<notin> set xs"
  shows "list_nodes_reverse h (lprev l b) l = Some (rev xs)"
  using assms
proof (induction xs arbitrary: b rule: rev_induct)
  case Nil
  then show ?case by (subst list_nodes_reverse.simps) auto
next
  case (snoc x xs)
  then have "lprev l b = x" "list_nodes_reverse h (lprev l x) l = Some (rev xs)" by auto
  then show ?case using snoc.prems by (subst list_nodes_reverse.simps) auto
qed

lemma list_nodes_reverse_dlist:
  "dlist l h xs \<Longrightarrow> list_nodes_reverse h (lprev l h) l = Some (rev xs)"
  by (rule list_nodes_reverse_chain) (auto simp: dlist_def)

lemma list_is_singular_iff:
  assumes d: "dlist l h xs"
  shows "list_is_singular h l \<longleftrightarrow> length xs = 1"
proof (cases xs)
  case Nil
  then show ?thesis using d by (simp add: list_is_singular_def dlist_empty_iff)
next
  case (Cons x ys)
  have n: "lnext l h = x" using d Cons by (simp add: dlist_first)
  have p: "lprev l h = last xs"
    using d Cons chain_last_next [of l h xs h] by (simp add: dlist_def)
  have "last (x # ys) = x \<longleftrightarrow> ys = []"
    using dlist_distinct [OF d] Cons last_in_set [of ys] by (cases "ys = []") auto
  then show ?thesis using d Cons n p by (auto simp: list_is_singular_def dlist_empty_iff)
qed

section \<open>Rings that share no node\<close>

lemma dlist_add_other:
  assumes "dlist l h xs" and "set (h # xs) \<inter> set (h' # ys) = {}" and "n \<notin> set (h' # ys)"
  shows "dlist (list_add n h l) h' ys = dlist l h' ys"
  by (rule dlist_cong) (metis assms list_add_frame disjoint_iff)

lemma dlist_add_tail_other:
  assumes "dlist l h xs" and "set (h # xs) \<inter> set (h' # ys) = {}" and "n \<notin> set (h' # ys)"
  shows "dlist (list_add_tail n h l) h' ys = dlist l h' ys"
  by (rule dlist_cong) (metis assms list_add_tail_frame disjoint_iff)

lemma dlist_del_other:
  assumes "dlist l h xs" and "x \<in> set xs" and "set (h # xs) \<inter> set (h' # ys) = {}"
  shows "dlist (list_del x l) h' ys = dlist l h' ys"
proof (rule dlist_cong)
  fix p
  assume "p \<in> set (h' # ys)"
  then have "p \<notin> set (h # xs)" using assms(3) by auto
  moreover obtain as bs where "xs = as @ x # bs" using split_list [OF assms(2)] by blast
  ultimately show "lnext (list_del x l) p = lnext l p \<and> lprev (list_del x l) p = lprev l p"
    using assms(1) list_del_frame [of l h as x bs p] by simp
qed

section \<open>Several rings\<close>

text \<open>
  \<open>rings l H f\<close>: every head of \<open>H\<close> has its ring, with the nodes \<open>f\<close> gives, and no two
  rings share a cell. Moving a node between the rings is updating \<open>f\<close>.
\<close>

definition rings :: "links \<Rightarrow> ptr set \<Rightarrow> (ptr \<Rightarrow> ptr list) \<Rightarrow> bool" where
  "rings l H f \<longleftrightarrow> (\<forall>h \<in> H. dlist l h (f h)) \<and>
     (\<forall>h \<in> H. \<forall>h' \<in> H. h \<noteq> h' \<longrightarrow> set (h # f h) \<inter> set (h' # f h') = {})"

definition ring_nodes :: "ptr set \<Rightarrow> (ptr \<Rightarrow> ptr list) \<Rightarrow> ptr set" where
  "ring_nodes H f = (\<Union>h \<in> H. set (f h))"

lemma rings_dlist: "rings l H f \<Longrightarrow> h \<in> H \<Longrightarrow> dlist l h (f h)"
  by (simp add: rings_def)

lemma rings_disjoint: "rings l H f \<Longrightarrow> h \<in> H \<Longrightarrow> h' \<in> H \<Longrightarrow> h \<noteq> h' \<Longrightarrow> set (h # f h) \<inter> set (h' # f h') = {}"
  unfolding rings_def by blast

lemma rings_node_head: "rings l H f \<Longrightarrow> h \<in> H \<Longrightarrow> x \<in> set (f h) \<Longrightarrow> h' \<in> H \<Longrightarrow> x \<in> set (f h') \<longleftrightarrow> h' = h"
  using rings_disjoint [of l H f h h'] by auto

lemma rings_node: "rings l H f \<Longrightarrow> x \<in> ring_nodes H f \<Longrightarrow> x \<noteq> 0 \<and> x \<notin> H"
proof -
  assume r: "rings l H f" and "x \<in> ring_nodes H f"
  then obtain h where h: "h \<in> H" "x \<in> set (f h)" by (auto simp: ring_nodes_def)
  have "x \<noteq> h'" if "h' \<in> H" for h'
    using rings_disjoint [OF r h(1) that] dlist_distinct [OF rings_dlist [OF r h(1)]] h(2) by (cases "h = h'") auto
  then show ?thesis using dlist_nonnull [OF rings_dlist [OF r h(1)]] h(2) by auto
qed

lemma rings_init:
  assumes "rings l H f" and "x \<notin> ring_nodes H f" "x \<notin> H"
  shows "rings (init_list_head x l) H f"
proof -
  have "dlist (init_list_head x l) h (f h)" if "h \<in> H" for h
    using dlist_init_other [of x h "f h" l] rings_dlist [OF assms(1) that] assms(2,3) that
    by (auto simp: ring_nodes_def)
  then show ?thesis using assms(1) unfolding rings_def by blast
qed

lemma rings_del:
  assumes r: "rings l H f" and h: "h \<in> H" and x: "x \<in> set (f h)"
  shows "rings (list_del x l) H (f(h := remove1 x (f h)))"
    and "ring_nodes H (f(h := remove1 x (f h))) = ring_nodes H f - {x}"
proof -
  have d: "dlist l h (f h)" using r h by (rule rings_dlist)
  have set_rem: "set (remove1 x (f h)) = set (f h) - {x}" using dlist_distinct [OF d] by simp
  have other: "dlist (list_del x l) h' (f h')" if "h' \<in> H" "h' \<noteq> h" for h'
    using dlist_del_other [OF d x rings_disjoint [OF r h that(1)]] rings_dlist [OF r that(1)] that(2) by auto
  have "set (h1 # (f(h := remove1 x (f h))) h1) \<subseteq> set (h1 # f h1)" for h1 using set_rem by auto
  then have "set (h1 # (f(h := remove1 x (f h))) h1) \<inter> set (h2 # (f(h := remove1 x (f h))) h2) = {}"
    if "h1 \<in> H" "h2 \<in> H" "h1 \<noteq> h2" for h1 h2
    using rings_disjoint [OF r that] by blast
  moreover have "\<forall>h' \<in> H. dlist (list_del x l) h' ((f(h := remove1 x (f h))) h')"
    using other dlist_del_remove1 [OF d x] by auto
  ultimately show "rings (list_del x l) H (f(h := remove1 x (f h)))" unfolding rings_def by blast
  have "x \<notin> set (f h')" if "h' \<in> H" "h' \<noteq> h" for h' using rings_disjoint [OF r h that(1)] x that(2) by auto
  then show "ring_nodes H (f(h := remove1 x (f h))) = ring_nodes H f - {x}"
    using set_rem h by (auto simp: ring_nodes_def split: if_splits)
qed

lemma rings_add:
  assumes r: "rings l H f" and h: "h \<in> H" and x: "x \<notin> ring_nodes H f" "x \<notin> H" "x \<noteq> 0"
  shows "rings (list_add x h l) H (f(h := x # f h))"
    and "ring_nodes H (f(h := x # f h)) = insert x (ring_nodes H f)"
proof -
  have d: "dlist l h (f h)" using r h by (rule rings_dlist)
  have nin: "x \<notin> set (h' # f h')" if "h' \<in> H" for h' using x that by (auto simp: ring_nodes_def)
  have "dlist (list_add x h l) h' (f h')" if "h' \<in> H" "h' \<noteq> h" for h'
    using dlist_add_other [OF d rings_disjoint [OF r h that(1)] nin [OF that(1)]] rings_dlist [OF r that(1)] that(2)
    by auto
  moreover have "dlist (list_add x h l) h (x # f h)" by (rule dlist_add [OF d nin [OF h] x(3)])
  moreover have "set (h1 # (f(h := x # f h)) h1) \<inter> set (h2 # (f(h := x # f h)) h2) = {}"
    if "h1 \<in> H" "h2 \<in> H" "h1 \<noteq> h2" for h1 h2
    using rings_disjoint [OF r that] nin [OF that(1)] nin [OF that(2)] by auto
  ultimately show "rings (list_add x h l) H (f(h := x # f h))" unfolding rings_def by auto
  show "ring_nodes H (f(h := x # f h)) = insert x (ring_nodes H f)"
    using h by (auto simp: ring_nodes_def split: if_splits)
qed

section \<open>Properties\<close>

lemma map_replace_split:
  "x \<notin> set ys \<Longrightarrow> x \<notin> set zs \<Longrightarrow> map (\<lambda>y. if y = x then n else y) (ys @ x # zs) = ys @ n # zs"
  by (auto intro!: map_idI)

text \<open>C18: On a well-formed ring, the list operations are the operations on the sequence of its
  nodes: insertion at the head and at the tail, deletion, moving to either end and
  replacement, for every ring and every node; a deleted node is left with two null links.\<close>

theorem list_operations_refine_sequences:
  assumes d: "dlist l h xs" and n: "n \<notin> set (h # xs)" "n \<noteq> 0" and x: "x \<in> set xs"
  shows "dlist (list_add n h l) h (n # xs)
    \<and> dlist (list_add_tail n h l) h (xs @ [n])
    \<and> dlist (list_del x l) h (remove1 x xs)
    \<and> lnext (list_del x l) x = 0 \<and> lprev (list_del x l) x = 0
    \<and> dlist (list_move x h l) h (x # remove1 x xs)
    \<and> dlist (list_move_tail x h l) h (remove1 x xs @ [x])
    \<and> dlist (list_replace x n l) h (map (\<lambda>y. if y = x then n else y) xs)"
proof -
  obtain ys zs where xs: "xs = ys @ x # zs" using x by (auto dest: split_list)
  have nin: "x \<notin> set ys" "x \<notin> set zs" using dlist_distinct [OF d] xs by auto
  have r: "remove1 x xs = ys @ zs" using dlist_distinct [OF d] xs distinct_append_Cons_remove1 [of ys x zs] by simp
  show ?thesis
    using dlist_add [OF d n] dlist_add_tail [OF d n] dlist_del [OF d [unfolded xs]] list_del_poisons [of x l]
      list_move_eq [OF d [unfolded xs]] dlist_replace [OF d [unfolded xs]] n
    unfolding r unfolding xs map_replace_split [OF nin] by simp
qed

definition ring_of_two :: "links" where
  "ring_of_two = list_add_tail 0x3000 0x1000 (list_add_tail 0x2000 0x1000
     (init_list_head 0x1000 \<lparr>lnext = (\<lambda>_. 0), lprev = (\<lambda>_. 0)\<rparr>))"

lemma ring_of_two: "dlist ring_of_two 0x1000 [0x2000, 0x3000]"
proof -
  have "dlist (init_list_head 0x1000 \<lparr>lnext = (\<lambda>_. 0), lprev = (\<lambda>_. 0)\<rparr>) 0x1000 []"
    by (rule dlist_init) simp
  from dlist_add_tail [OF dlist_add_tail [OF this]] show ?thesis by (simp add: ring_of_two_def)
qed

theorem list_operations_refine_sequences_witness:
  "dlist (list_replace 0x2000 0x4000 ring_of_two) 0x1000 [0x4000, 0x3000]
    \<and> dlist (list_move_tail 0x2000 0x1000 ring_of_two) 0x1000 [0x3000, 0x2000]"
  using list_operations_refine_sequences [OF ring_of_two, of "0x4000" "0x2000"] by simp

text \<open>A traversal of a well-formed ring ends and visits every node exactly once, in order
  (\<^verbatim>\<open>list_for_each_entry\<close>) or in reverse order (\<^verbatim>\<open>list_for_each_entry_reverse\<close>); one that
  is left by a \<^verbatim>\<open>break\<close> stops at the first node that satisfies the test. \<^verbatim>\<open>list_empty\<close> and
  \<^verbatim>\<open>list_is_singular\<close> decide whether the sequence has no or one element.\<close>

theorem list_traversal_exact:
  assumes "dlist l h xs"
  shows "list_nodes h (lnext l h) l = Some xs
    \<and> list_nodes_reverse h (lprev l h) l = Some (rev xs)
    \<and> list_search P h (lnext l h) l = Some (find P xs)
    \<and> (list_empty h l \<longleftrightarrow> xs = []) \<and> (list_is_singular h l \<longleftrightarrow> length xs = 1)"
  using assms by (simp add: list_nodes_dlist list_nodes_reverse_dlist list_search_dlist
      dlist_empty_iff list_is_singular_iff)

theorem list_traversal_exact_witness:
  "list_nodes 0x1000 (lnext ring_of_two 0x1000) ring_of_two = Some [0x2000, 0x3000]
    \<and> list_search (\<lambda>p. p \<noteq> 0x2000) 0x1000 (lnext ring_of_two 0x1000) ring_of_two = Some (Some 0x3000)"
  using list_traversal_exact [OF ring_of_two, of "\<lambda>p. p \<noteq> 0x2000"] by simp

end
