(* ===== verification/Interfaces.thy ===== *)
theory Interfaces
  imports Prelude
begin

text \<open>
  The contracts the kernel's components rely on, as locales: what a client of a page
  allocator, of a queue and of a table of slots may assume. Each is interpreted on the
  model of the code that provides it, in that component's theory.
\<close>

section \<open>Page allocators\<close>

text \<open>
  \<open>alloc\<close> answers 0 when no page is left. \<open>owned\<close> is the set of pages in use, page 0
  among them, so 0 is never a page handed out.
\<close>

locale page_allocator =
  fixes alloc :: "'s \<Rightarrow> u32 \<times> 's"
    and free :: "u32 \<Rightarrow> 's \<Rightarrow> 's"
    and inv :: "'s \<Rightarrow> bool"
    and owned :: "'s \<Rightarrow> u32 set"
  assumes zero_owned: "inv s \<Longrightarrow> 0 \<in> owned s"
    and alloc_inv: "inv s \<Longrightarrow> inv (snd (alloc s))"
    and alloc_fail: "inv s \<Longrightarrow> fst (alloc s) = 0 \<Longrightarrow> snd (alloc s) = s"
    and alloc_fresh: "inv s \<Longrightarrow> fst (alloc s) \<noteq> 0 \<Longrightarrow> fst (alloc s) \<notin> owned s"
    and alloc_owned: "inv s \<Longrightarrow> fst (alloc s) \<noteq> 0 \<Longrightarrow>
      owned (snd (alloc s)) = insert (fst (alloc s)) (owned s)"
    and alloc_aligned: "inv s \<Longrightarrow> fst (alloc s) AND 0xFFF = 0"
    and free_inv: "inv s \<Longrightarrow> p \<in> owned s \<Longrightarrow> p \<noteq> 0 \<Longrightarrow> inv (free p s)"
    and free_owned: "inv s \<Longrightarrow> p \<in> owned s \<Longrightarrow> p \<noteq> 0 \<Longrightarrow> owned (free p s) = owned s - {p}"
begin

text \<open>The client's loop: allocate \<open>n\<close> pages one by one, stop at the first failure.\<close>

fun alloc_many :: "nat \<Rightarrow> 's \<Rightarrow> u32 list \<times> 's" where
  "alloc_many 0 s = ([], s)"
| "alloc_many (Suc n) s =
     (if fst (alloc s) = 0 then ([], snd (alloc s))
      else let (ps, s') = alloc_many n (snd (alloc s)) in (fst (alloc s) # ps, s'))"

lemma alloc_many_pages:
  assumes "inv s" and "alloc_many n s = (ps, s')"
  shows "inv s' \<and> distinct ps \<and> set ps \<inter> owned s = {} \<and> owned s' = owned s \<union> set ps
    \<and> 0 \<notin> set ps \<and> (\<forall>p \<in> set ps. p AND 0xFFF = 0) \<and> length ps \<le> n"
  using assms
proof (induction n arbitrary: s ps)
  case 0
  then show ?case by simp
next
  case (Suc n)
  show ?case
  proof (cases "fst (alloc s) = 0")
    case True
    then show ?thesis using Suc.prems alloc_fail [OF Suc.prems(1) True] by simp
  next
    case False
    then obtain qs where qs: "alloc_many n (snd (alloc s)) = (qs, s')" "ps = fst (alloc s) # qs"
      using Suc.prems(2) by (auto split: prod.splits)
    show ?thesis
      using Suc.IH [OF alloc_inv [OF Suc.prems(1)] qs(1)] qs(2) False Suc.prems(1)
        alloc_fresh alloc_owned alloc_aligned zero_owned by auto
  qed
qed

lemma alloc_then_free:
  assumes "inv s" and "fst (alloc s) \<noteq> 0"
  shows "owned (free (fst (alloc s)) (snd (alloc s))) = owned s"
  using assms free_owned [OF alloc_inv [OF assms(1)], of "fst (alloc s)"] alloc_owned alloc_fresh
  by auto

end

section \<open>Queues\<close>

text \<open>
  First in, first out: \<open>items\<close> is the queue's contents, \<open>can_enq\<close> says when an insertion
  is allowed (a bounded buffer with room, a node that is not queued yet).
\<close>

locale fifo =
  fixes items :: "'s \<Rightarrow> 'a list"
    and inv :: "'s \<Rightarrow> bool"
    and can_enq :: "'a \<Rightarrow> 's \<Rightarrow> bool"
    and enq :: "'a \<Rightarrow> 's \<Rightarrow> 's"
    and deq :: "'s \<Rightarrow> 'a option \<times> 's"
  assumes enq_items: "inv s \<Longrightarrow> can_enq x s \<Longrightarrow> items (enq x s) = items s @ [x]"
    and enq_inv: "inv s \<Longrightarrow> can_enq x s \<Longrightarrow> inv (enq x s)"
    and deq_empty: "inv s \<Longrightarrow> items s = [] \<Longrightarrow> deq s = (None, s)"
    and deq_first: "inv s \<Longrightarrow> items s = x # xs \<Longrightarrow> fst (deq s) = Some x"
    and deq_items: "inv s \<Longrightarrow> items s = x # xs \<Longrightarrow> items (snd (deq s)) = xs"
    and deq_inv: "inv s \<Longrightarrow> inv (snd (deq s))"
begin

fun enq_all :: "'a list \<Rightarrow> 's \<Rightarrow> 's" where
  "enq_all [] s = s"
| "enq_all (x # xs) s = enq_all xs (enq x s)"

fun can_enq_all :: "'a list \<Rightarrow> 's \<Rightarrow> bool" where
  "can_enq_all [] s = True"
| "can_enq_all (x # xs) s = (can_enq x s \<and> can_enq_all xs (enq x s))"

fun deq_n :: "nat \<Rightarrow> 's \<Rightarrow> 'a list \<times> 's" where
  "deq_n 0 s = ([], s)"
| "deq_n (Suc n) s =
     (case deq s of
        (None, s') \<Rightarrow> ([], s')
      | (Some x, s') \<Rightarrow> let (xs, s'') = deq_n n s' in (x # xs, s''))"

lemma enq_all_items: "inv s \<Longrightarrow> can_enq_all xs s \<Longrightarrow> items (enq_all xs s) = items s @ xs \<and> inv (enq_all xs s)"
  by (induction xs arbitrary: s) (auto simp: enq_items enq_inv)

lemma deq_n_items: "inv s \<Longrightarrow> fst (deq_n n s) = take n (items s) \<and> items (snd (deq_n n s)) = drop n (items s)"
proof (induction n arbitrary: s)
  case 0
  then show ?case by simp
next
  case (Suc n)
  show ?case
  proof (cases "items s")
    case Nil
    then show ?thesis using deq_empty [OF Suc.prems] by simp
  next
    case (Cons x xs)
    obtain s' where s': "deq s = (Some x, s')"
      using deq_first [OF Suc.prems Cons] by (cases "deq s") auto
    then have "items s' = xs" "inv s'"
      using deq_items [OF Suc.prems Cons] deq_inv [OF Suc.prems] by simp_all
    then show ?thesis using Suc.IH [of s'] s' Cons by (auto split: prod.splits)
  qed
qed

text \<open>What is put in comes out in the order it was put in, after what was there before.\<close>

lemma fifo_order:
  assumes "inv s" and "can_enq_all xs s"
  shows "fst (deq_n (length (items s) + length xs) (enq_all xs s)) = items s @ xs"
  using deq_n_items [of "enq_all xs s" "length (items s) + length xs"] enq_all_items [OF assms]
  by simp

end

section \<open>Heaps\<close>

text \<open>
  A client of \<open>malloc\<close>/\<open>free\<close>: it remembers the pointers it was given and frees only
  those. \<open>None\<close> is a call that does not return.
\<close>

datatype heap_call = Malloc u32 | Free ptr

fun run_heap :: "(u32 \<Rightarrow> 's \<Rightarrow> (ptr \<times> 's) option) \<Rightarrow> (ptr \<Rightarrow> 's \<Rightarrow> 's) \<Rightarrow>
    heap_call list \<Rightarrow> ptr set \<times> 's \<Rightarrow> (ptr set \<times> 's) option" where
  "run_heap alloc free [] st = Some st"
| "run_heap alloc free (Malloc n # cs) (ps, s) =
     Option.bind (alloc n s) (\<lambda>(p, s'). run_heap alloc free cs (if p = 0 then ps else insert p ps, s'))"
| "run_heap alloc free (Free p # cs) (ps, s) =
     run_heap alloc free cs (if p \<in> ps then (ps - {p}, free p s) else (ps, s))"

text \<open>
  \<open>repr\<close> relates a state to an abstract heap, \<open>blocks\<close> gives the address and size of the
  payloads in use. A request may be answered 0; otherwise the payload is new, does not
  overlap another and is as large as asked, unless the request is within 15 bytes of the
  largest number.
\<close>

locale heap_allocator =
  fixes alloc :: "u32 \<Rightarrow> 's \<Rightarrow> (ptr \<times> 's) option"
    and free :: "ptr \<Rightarrow> 's \<Rightarrow> 's"
    and repr :: "'s \<Rightarrow> 'a \<Rightarrow> bool"
    and blocks :: "'a \<Rightarrow> (nat \<times> nat) set"
  assumes alloc_total: "repr s a \<Longrightarrow> \<exists>p s' a'. alloc n s = Some (p, s') \<and> repr s' a' \<and>
      (if p = 0 then s' = s \<and> a' = a
       else \<exists>k. blocks a' = insert (unat p, k) (blocks a)
         \<and> (unat n < 2 ^ 32 - 15 \<longrightarrow> unat n \<le> k)
         \<and> (\<forall>(q, j) \<in> blocks a. q + j < unat p \<or> unat p + k < q))"
    and free_repr: "repr s a \<Longrightarrow> (unat p, k) \<in> blocks a \<Longrightarrow>
      \<exists>a'. repr (free p s) a' \<and> blocks a' = {(q, j) \<in> blocks a. q \<noteq> unat p}"
    and blocks_nonzero: "repr s a \<Longrightarrow> (q, j) \<in> blocks a \<Longrightarrow> 0 < q \<and> q < 2 ^ 32"
    and blocks_apart: "repr s a \<Longrightarrow> (q, j) \<in> blocks a \<Longrightarrow> (q', j') \<in> blocks a \<Longrightarrow>
      (q, j) = (q', j') \<or> q + j < q' \<or> q' + j' < q"
begin

lemma alloc_new_block:
  assumes "repr s a" and "alloc n s = Some (p, s')" and "p \<noteq> 0"
  shows "\<exists>a' k. repr s' a' \<and> blocks a' = insert (unat p, k) (blocks a) \<and> unat p \<notin> fst ` blocks a"
proof -
  obtain a' k where a': "repr s' a'" "blocks a' = insert (unat p, k) (blocks a)"
    "\<forall>(q, j) \<in> blocks a. q + j < unat p \<or> unat p + k < q"
    using alloc_total [OF assms(1), of n] assms(2,3) by auto
  then have "unat p \<notin> fst ` blocks a" by fastforce
  then show ?thesis using a'(1,2) by blast
qed

text \<open>Every run of the client returns, and what it holds at the end is what is in use.\<close>

lemma run_total:
  assumes "repr s a" and "unat ` ps = fst ` blocks a"
  shows "\<exists>ps' s' a'. run_heap alloc free cs (ps, s) = Some (ps', s') \<and> repr s' a'
    \<and> unat ` ps' = fst ` blocks a'"
  using assms
proof (induction cs arbitrary: ps s a)
  case Nil
  then show ?case by auto
next
  case (Cons c cs)
  show ?case
  proof (cases c)
    case (Malloc n)
    obtain p s' a' where r: "alloc n s = Some (p, s')" "repr s' a'"
      and r': "if p = 0 then s' = s \<and> a' = a
         else \<exists>k. blocks a' = insert (unat p, k) (blocks a)
           \<and> (unat n < 2 ^ 32 - 15 \<longrightarrow> unat n \<le> k)
           \<and> (\<forall>(q, j) \<in> blocks a. q + j < unat p \<or> unat p + k < q)"
      using alloc_total [OF Cons.prems(1), of n] by blast
    have "unat ` (if p = 0 then ps else insert p ps) = fst ` blocks a'"
      using r' Cons.prems(2) by (auto split: if_splits)
    then show ?thesis using Cons.IH [OF r(2)] r(1) Malloc by simp
  next
    case (Free p)
    show ?thesis
    proof (cases "p \<in> ps")
      case False
      then show ?thesis using Cons Free by simp
    next
      case True
      then obtain k where "(unat p, k) \<in> blocks a" using Cons.prems(2) by fastforce
      then obtain a' where a': "repr (free p s) a'" "blocks a' = {(q, j) \<in> blocks a. q \<noteq> unat p}"
        using free_repr [OF Cons.prems(1)] by blast
      have "unat ` (ps - {p}) = unat ` ps - {unat p}" by (auto simp: word_unat_eq_iff)
      also have "\<dots> = fst ` blocks a'" unfolding a'(2) Cons.prems(2) by force
      finally show ?thesis using Cons.IH [OF a'(1)] True Free by simp
    qed
  qed
qed

text \<open>
  The client that needs two payloads, an object and its buffer: it gives the first back when
  the second is refused.
\<close>

fun alloc_pair :: "u32 \<Rightarrow> u32 \<Rightarrow> 's \<Rightarrow> (ptr \<times> ptr \<times> 's) option" where
  "alloc_pair n m s =
     Option.bind (alloc n s) (\<lambda>(p, s1).
       if p = 0 then Some (0, 0, s1)
       else Option.bind (alloc m s1) (\<lambda>(q, s2). if q = 0 then Some (0, 0, free p s2) else Some (p, q, s2)))"

lemma alloc_pair_cases:
  assumes inv: "repr s a"
  obtains (fail) s' a' where "alloc_pair n m s = Some (0, 0, s')" "repr s' a'" "blocks a' = blocks a"
  | (got) p q s' a' k j where "alloc_pair n m s = Some (p, q, s')" "p \<noteq> 0" "q \<noteq> 0" "repr s' a'"
      "blocks a' = insert (unat q, j) (insert (unat p, k) (blocks a))"
      "unat n < 2 ^ 32 - 15 \<longrightarrow> unat n \<le> k" "unat m < 2 ^ 32 - 15 \<longrightarrow> unat m \<le> j"
      "unat p \<notin> fst ` blocks a" "unat q \<notin> insert (unat p) (fst ` blocks a)"
      "\<forall>(r, i) \<in> blocks a. r + i < unat p \<or> unat p + k < r"
proof -
  obtain p s1 a1 where p: "alloc n s = Some (p, s1)" "repr s1 a1"
    and p': "if p = 0 then s1 = s \<and> a1 = a else \<exists>k. blocks a1 = insert (unat p, k) (blocks a)
        \<and> (unat n < 2 ^ 32 - 15 \<longrightarrow> unat n \<le> k) \<and> (\<forall>(q, j) \<in> blocks a. q + j < unat p \<or> unat p + k < q)"
    using alloc_total [OF inv, of n] by blast
  show ?thesis
  proof (cases "p = 0")
    case True
    then show ?thesis using p p' by (intro fail [of s1 a1]) simp_all
  next
    case False
    then obtain k where k: "blocks a1 = insert (unat p, k) (blocks a)" "unat n < 2 ^ 32 - 15 \<longrightarrow> unat n \<le> k"
      "\<forall>(q, j) \<in> blocks a. q + j < unat p \<or> unat p + k < q" using p' by auto
    have p_new: "unat p \<notin> fst ` blocks a" using k(3) by fastforce
    obtain q s2 a2 where q: "alloc m s1 = Some (q, s2)" "repr s2 a2"
      and q': "if q = 0 then s2 = s1 \<and> a2 = a1 else \<exists>j. blocks a2 = insert (unat q, j) (blocks a1)
        \<and> (unat m < 2 ^ 32 - 15 \<longrightarrow> unat m \<le> j) \<and> (\<forall>(r, i) \<in> blocks a1. r + i < unat q \<or> unat q + j < r)"
      using alloc_total [OF p(2), of m] by blast
    show ?thesis
    proof (cases "q = 0")
      case True
      then have "(unat p, k) \<in> blocks a2" using q' k(1) by simp
      then obtain a3 where a3: "repr (free p s2) a3" "blocks a3 = {(r, i) \<in> blocks a2. r \<noteq> unat p}"
        using free_repr [OF q(2)] by blast
      have "blocks a3 = blocks a" using a3(2) q' True k(1) p_new by force
      then show ?thesis using p(1) q(1) False True a3(1) by (intro fail [of "free p s2" a3]) simp_all
    next
      case nz: False
      then obtain j where j: "blocks a2 = insert (unat q, j) (blocks a1)" "unat m < 2 ^ 32 - 15 \<longrightarrow> unat m \<le> j"
        "\<forall>(r, i) \<in> blocks a1. r + i < unat q \<or> unat q + j < r" using q' by auto
      have "unat q \<notin> fst ` blocks a1" using j(3) by fastforce
      then have "unat q \<notin> insert (unat p) (fst ` blocks a)" using k(1) by auto
      then show ?thesis
        using p(1) q(1) False nz k(3) by (intro got [OF _ False nz q(2) j(1) [unfolded k(1)] k(2) j(2) p_new]) simp_all
    qed
  qed
qed

lemma free_pair_blocks:
  assumes "repr s a" "(unat p, k) \<in> blocks a" "(unat q, j) \<in> blocks a" "p \<noteq> q"
  obtains a' where "repr (free p (free q s)) a'" "blocks a' = {(r, i) \<in> blocks a. r \<noteq> unat p \<and> r \<noteq> unat q}"
proof -
  obtain a1 where a1: "repr (free q s) a1" "blocks a1 = {(r, i) \<in> blocks a. r \<noteq> unat q}"
    using free_repr [OF assms(1,3)] by blast
  then have "(unat p, k) \<in> blocks a1" using assms(2,4) by (simp add: word_unat_eq_iff)
  then obtain a2 where "repr (free p (free q s)) a2" "blocks a2 = {(r, i) \<in> blocks a1. r \<noteq> unat p}"
    using free_repr [OF a1(1)] by blast
  then show ?thesis using a1(2) by (intro that) auto
qed

end

section \<open>Tables of slots\<close>

text \<open>
  A table of \<open>slots\<close> numbered places: an item goes to the lowest free one, whose number is the
  handle its owner gives back later. \<open>used\<close> are the places taken, None is a full table.
\<close>

locale slot_table =
  fixes acquire :: "'a \<Rightarrow> 's \<Rightarrow> (nat \<times> 's) option"
    and release :: "nat \<Rightarrow> 's \<Rightarrow> 's"
    and used :: "'s \<Rightarrow> nat set"
    and inv :: "'s \<Rightarrow> bool"
    and valid :: "'a \<Rightarrow> bool"
    and slots :: nat
  assumes acquire_full: "inv s \<Longrightarrow> valid a \<Longrightarrow> acquire a s = None \<Longrightarrow> {..<slots} \<subseteq> used s"
    and acquire_slot: "inv s \<Longrightarrow> valid a \<Longrightarrow> acquire a s = Some (i, s') \<Longrightarrow>
      inv s' \<and> used s' = insert i (used s) \<and> i < slots \<and> i \<notin> used s \<and> {..<i} \<subseteq> used s"
    and release_slot: "inv s \<Longrightarrow> i < slots \<Longrightarrow> inv (release i s) \<and> used (release i s) = used s - {i}"
begin

fun acquire_all :: "'a list \<Rightarrow> 's \<Rightarrow> (nat list \<times> 's) option" where
  "acquire_all [] s = Some ([], s)"
| "acquire_all (a # as) s =
     Option.bind (acquire a s) (\<lambda>(i, s'). Option.bind (acquire_all as s') (\<lambda>(is, s''). Some (i # is, s'')))"

lemma acquire_room:
  assumes "inv s" "valid a" "\<not> {..<slots} \<subseteq> used s"
  obtains i s' where "acquire a s = Some (i, s')" "inv s'" "used s' = insert i (used s)" "i < slots" "i \<notin> used s" "{..<i} \<subseteq> used s"
proof (cases "acquire a s")
  case None
  then show ?thesis using acquire_full [OF assms(1,2)] assms(3) by blast
next
  case (Some p)
  obtain i s' where p: "p = (i, s')" by (cases p)
  note slot = acquire_slot [OF assms(1,2) Some [unfolded p]]
  show ?thesis by (rule that [OF Some [unfolded p]]) (use slot in simp_all)
qed

text \<open>When the places below \<open>n\<close> are taken, the next ones are handed out in order.\<close>

lemma acquire_in_order:
  assumes "inv s" "used s = {..<n}" "\<forall>a \<in> set as. valid a" "n + length as \<le> slots"
  shows "\<exists>s'. acquire_all as s = Some ([n..<n + length as], s') \<and> inv s' \<and> used s' = {..<n + length as}"
  using assms
proof (induction as arbitrary: s n)
  case (Cons a as)
  have full: "\<not> {..<slots} \<subseteq> used s" 
  proof -
    have "n \<in> {..<slots}" "n \<notin> used s" using Cons.prems(2,4) by simp_all
    then show ?thesis by blast
  qed
  have "valid a" using Cons.prems(3) by simp
  then obtain i s' where i: "acquire a s = Some (i, s')" "inv s'" "used s' = insert i (used s)" "i \<notin> used s" "{..<i} \<subseteq> used s"
    by (rule acquire_room [OF Cons.prems(1) _ full])
  have "n \<notin> {..<i}" using i(5) Cons.prems(2) by blast
  then have "i = n" using i(4) Cons.prems(2) by simp
  then have "used s' = {..<Suc n}" using i(3) Cons.prems(2) by (simp add: lessThan_Suc)
  have "\<forall>a \<in> set as. valid a" "Suc n + length as \<le> slots" using Cons.prems(3,4) by simp_all
  then have "\<exists>s''. acquire_all as s' = Some ([Suc n..<Suc n + length as], s'') \<and> inv s'' \<and> used s'' = {..<Suc n + length as}"
    by (rule Cons.IH [OF i(2) \<open>used s' = {..<Suc n}\<close>])
  moreover have "n # [Suc n..<Suc n + length as] = [n..<n + length (a # as)]" by (simp add: upt_conv_Cons del: upt_Suc)
  ultimately show ?case using i(1) \<open>i = n\<close> by (force simp del: upt_Suc)
qed simp

text \<open>A place given back is the next to be handed out when all others are taken.\<close>

lemma release_acquire:
  assumes "inv s" "valid a" "{..<slots} \<subseteq> used s" "i < slots"
  shows "\<exists>s'. acquire a (release i s) = Some (i, s') \<and> used s' = used s"
proof -
  note r = release_slot [OF assms(1,4)]
  have "\<not> {..<slots} \<subseteq> used (release i s)" using r assms(4) by auto
  then obtain j s' where j: "acquire a (release i s) = Some (j, s')" "used s' = insert j (used (release i s))"
    "j < slots" "j \<notin> used (release i s)"
    by (rule acquire_room [OF conjunct1 [OF r] assms(2)])
  have "j \<in> used s" using j(3) assms(3) by blast
  then have "j = i" using j(4) conjunct2 [OF r] by blast
  moreover have "insert i (used s - {i}) = used s" using assms(3,4) by blast
  ultimately show ?thesis using j(1,2) conjunct2 [OF r] by simp
qed

end

section \<open>Address spaces\<close>

text \<open>
  Virtual memory as a client sees it: \<open>space s V\<close> says that the addresses \<open>V\<close> are backed, each by
  a byte of its own. \<open>extend\<close> backs one more page, one of those open to programs, which takes at most two of the
  \<open>room s\<close> frames left; None is a page fault on the way.
\<close>

locale address_space =
  fixes space :: "'s \<Rightarrow> u32 set \<Rightarrow> bool"
    and byte :: "'s \<Rightarrow> u32 \<Rightarrow> u8 option"
    and store :: "u32 \<Rightarrow> u8 \<Rightarrow> 's \<Rightarrow> 's option"
    and extend :: "u32 \<Rightarrow> 's \<Rightarrow> (bool \<times> 's) option"
    and user_page :: "u32 \<Rightarrow> bool"
    and room :: "'s \<Rightarrow> nat"
    and page :: "u32 \<Rightarrow> u32 set"
  assumes byte_backed: "space s V \<Longrightarrow> v \<in> V \<Longrightarrow> \<exists>b. byte s v = Some b"
    and store_backed: "space s V \<Longrightarrow> v \<in> V \<Longrightarrow> \<exists>t. store v b s = Some t \<and> space t V \<and> room t = room s
      \<and> (\<forall>w \<in> V. byte t w = (if w = v then Some b else byte s w))"
    and extend_page: "space s V \<Longrightarrow> p AND 0xFFF = 0 \<Longrightarrow> user_page p \<Longrightarrow> page p \<inter> V = {} \<Longrightarrow> 2 \<le> room s \<Longrightarrow>
      \<exists>t. extend p s = Some (True, t) \<and> space t (V \<union> page p) \<and> room s \<le> room t + 2 \<and> (\<forall>w \<in> V. byte t w = byte s w)"
begin

text \<open>Storing the bytes of a list at consecutive addresses.\<close>

fun store_list :: "u32 \<Rightarrow> u8 list \<Rightarrow> 's \<Rightarrow> 's option" where
  "store_list v [] s = Some s"
| "store_list v (b # bs) s = Option.bind (store v b s) (store_list (v + 1) bs)"

lemma store_list_backed:
  assumes "space s V" "\<forall>k < length bs. v + of_nat k \<in> V" "length bs < 4294967296"
  shows "\<exists>t. store_list v bs s = Some t \<and> space t V \<and> room t = room s
    \<and> (\<forall>w \<in> V. byte t w = (if unat (w - v) < length bs then Some (bs ! unat (w - v)) else byte s w))"
  using assms
proof (induction bs arbitrary: v s)
  case (Cons b bs)
  obtain s1 where s1: "store v b s = Some s1" "space s1 V" "room s1 = room s" "\<forall>w \<in> V. byte s1 w = (if w = v then Some b else byte s w)"
    using store_backed [OF Cons.prems(1), of v b] Cons.prems(2) by force
  have inside: "\<forall>k < length bs. v + 1 + of_nat k \<in> V"
    using Cons.prems(2) by (auto simp: add.assoc dest: spec [of _ "Suc k" for k])
  then obtain t where t: "store_list (v + 1) bs s1 = Some t" "space t V" "room t = room s1"
    "\<forall>w \<in> V. byte t w = (if unat (w - (v + 1)) < length bs then Some (bs ! unat (w - (v + 1))) else byte s1 w)"
    using Cons.IH [OF s1(2) inside] Cons.prems(3) by auto
  have "byte t w = (if unat (w - v) < length (b # bs) then Some ((b # bs) ! unat (w - v)) else byte s w)" if w: "w \<in> V" for w
  proof (cases "w = v")
    case True
    have "unat (v - (v + 1)) = 4294967295" by simp
    then show ?thesis using True w t(4) s1(4) Cons.prems(3) by simp
  next
    case False
    then have "w - v \<noteq> 0" by simp
    then have "0 < unat (w - v)" "unat (w - v - 1) = unat (w - v) - 1" by (simp_all add: unat_gt_0 unat_minus_one)
    then have "unat (w - v) = Suc (unat (w - (v + 1)))" by (simp add: diff_diff_eq)
    then show ?thesis using w t(4) s1(4) False by simp
  qed
  then show ?case using s1 t by auto
qed simp

text \<open>Backing the pages from \<open>p\<close> on.\<close>

fun extend_all :: "nat \<Rightarrow> u32 \<Rightarrow> 's \<Rightarrow> (bool \<times> 's) option" where
  "extend_all 0 p s = Some (True, s)"
| "extend_all (Suc n) p s =
     Option.bind (extend p s) (\<lambda>(ok, s1). if ok then extend_all n (p + 4096) s1 else Some (False, s1))"

lemma page_step: "p AND 0xFFF = 0 \<Longrightarrow> (p + 4096 :: u32) AND 0xFFF = 0"
proof -
  have "(0xFFF :: u32) = mask 12" by (simp add: mask_eq_exp_minus_1)
  moreover have "unat ((p + 4096) AND mask 12) = unat (p AND mask 12)"
    unfolding unat_and_mask by (simp add: unat_word_ariths mod_mod_cancel)
  ultimately show "p AND 0xFFF = 0 \<Longrightarrow> (p + 4096) AND 0xFFF = 0" by (metis unat_0 unat_eq_0)
qed

lemma extend_all_pages:
  assumes "space s V" "p AND 0xFFF = 0" "\<forall>k < n. user_page (p + of_nat k * 4096) \<and> page (p + of_nat k * 4096) \<inter> V = {}"
    "\<forall>j < n. \<forall>k < n. j \<noteq> k \<longrightarrow> page (p + of_nat j * 4096) \<inter> page (p + of_nat k * 4096) = {}" "2 * n \<le> room s"
  shows "\<exists>t. extend_all n p s = Some (True, t) \<and> space t (V \<union> (\<Union>k<n. page (p + of_nat k * 4096))) \<and> room s \<le> room t + 2 * n
    \<and> (\<forall>w \<in> V. byte t w = byte s w)"
  using assms
proof (induction n arbitrary: p s V)
  case (Suc n)
  have step: "p + of_nat (Suc k) * 4096 = p + 4096 + of_nat k * 4096" for k by (simp add: algebra_simps)
  obtain s1 where s1: "extend p s = Some (True, s1)" "space s1 (V \<union> page p)" "room s \<le> room s1 + 2" "\<forall>w \<in> V. byte s1 w = byte s w"
    using extend_page [OF Suc.prems(1,2)] Suc.prems(3,5) by force
  have al: "(p + 4096) AND 0xFFF = 0" using Suc.prems(2) by (rule page_step)
  have "\<exists>t. extend_all n (p + 4096) s1 = Some (True, t) \<and> space t (V \<union> page p \<union> (\<Union>k<n. page (p + 4096 + of_nat k * 4096)))
      \<and> room s1 \<le> room t + 2 * n \<and> (\<forall>w \<in> V \<union> page p. byte t w = byte s1 w)"
  proof (rule Suc.IH [OF s1(2) al])
    show "\<forall>k < n. user_page (p + 4096 + of_nat k * 4096) \<and> page (p + 4096 + of_nat k * 4096) \<inter> (V \<union> page p) = {}"
    proof (intro allI impI)
      fix k assume "k < n"
      then show "user_page (p + 4096 + of_nat k * 4096) \<and> page (p + 4096 + of_nat k * 4096) \<inter> (V \<union> page p) = {}"
        using Suc.prems(3) [rule_format, of "Suc k"] Suc.prems(4) [rule_format, of "Suc k" 0] unfolding step by auto
    qed
    show "\<forall>j < n. \<forall>k < n. j \<noteq> k \<longrightarrow> page (p + 4096 + of_nat j * 4096) \<inter> page (p + 4096 + of_nat k * 4096) = {}"
    proof (intro allI impI)
      fix j k assume "j < n" "k < n" "j \<noteq> k"
      then show "page (p + 4096 + of_nat j * 4096) \<inter> page (p + 4096 + of_nat k * 4096) = {}"
        using Suc.prems(4) [rule_format, of "Suc j" "Suc k"] unfolding step by simp
    qed
    show "2 * n \<le> room s1" using Suc.prems(5) s1(3) by simp
  qed
  then obtain t where t: "extend_all n (p + 4096) s1 = Some (True, t)" "space t (V \<union> page p \<union> (\<Union>k<n. page (p + 4096 + of_nat k * 4096)))"
    "room s1 \<le> room t + 2 * n" "\<forall>w \<in> V \<union> page p. byte t w = byte s1 w" by blast
  have "(\<Union>k<Suc n. page (p + of_nat k * 4096)) = page p \<union> (\<Union>k<n. page (p + 4096 + of_nat k * 4096))"
    unfolding lessThan_Suc_eq_insert_0 by (simp add: image_image algebra_simps)
  then show ?case using s1 t by (intro exI [of _ t]) (simp add: Un_assoc)
qed simp

end

section \<open>Registries\<close>

text \<open>
  A list of registered objects, found again by name: \<open>repr s ds\<close> says that \<open>ds\<close> are the objects
  in the order they were registered, \<open>key\<close> gives an object's name. A lookup answers 0 when
  no object has the name.
\<close>

definition first_named :: "(ptr \<Rightarrow> 'n) \<Rightarrow> 'n \<Rightarrow> ptr list \<Rightarrow> ptr" where
  "first_named key n ds = (case find (\<lambda>d. key d = n) ds of None \<Rightarrow> 0 | Some d \<Rightarrow> d)"

locale registry =
  fixes repr :: "'s \<Rightarrow> ptr list \<Rightarrow> bool"
    and can_add :: "ptr \<Rightarrow> 's \<Rightarrow> bool"
    and add :: "ptr \<Rightarrow> 's \<Rightarrow> 's"
    and remove :: "ptr \<Rightarrow> 's \<Rightarrow> 's"
    and lookup :: "'q \<Rightarrow> 's \<Rightarrow> ptr option"
    and key :: "'s \<Rightarrow> ptr \<Rightarrow> 'n"
    and asks :: "'s \<Rightarrow> 'q \<Rightarrow> 'n \<Rightarrow> bool"
  assumes add_repr: "repr s ds \<Longrightarrow> can_add d s \<Longrightarrow> d \<notin> set ds \<Longrightarrow> repr (add d s) (ds @ [d])"
    and remove_repr: "repr s ds \<Longrightarrow> d \<in> set ds \<Longrightarrow> repr (remove d s) (remove1 d ds)"
    and lookup_repr: "repr s ds \<Longrightarrow> asks s q n \<Longrightarrow> lookup q s = Some (first_named (key s) n ds)"
    and key_kept: "key (add d s) = key s" "key (remove d s) = key s"
    and asks_kept: "asks (add d s) = asks s" "asks (remove d s) = asks s"
    and repr_nonzero: "repr s ds \<Longrightarrow> 0 \<notin> set ds"
    and can_add_nonzero: "can_add d s \<Longrightarrow> d \<noteq> 0"
begin

text \<open>A new object is found under its name unless an older one has it.\<close>

lemma lookup_added:
  assumes "repr s ds" "can_add d s" "d \<notin> set ds" "asks s q n"
  shows "lookup q (add d s) = Some (if first_named (key s) n ds = 0 \<and> key s d = n then d else first_named (key s) n ds)"
proof -
  have "lookup q (add d s) = Some (first_named (key s) n (ds @ [d]))"
    using lookup_repr [OF add_repr [OF assms(1-3)], of q n] assms(4) by (simp add: key_kept asks_kept)
  moreover have "find (\<lambda>d. key s d = n) ds = Some e \<Longrightarrow> e \<noteq> 0" for e
    using repr_nonzero [OF assms(1)] nth_mem by (fastforce simp: find_Some_iff)
  ultimately show ?thesis
    by (auto simp: first_named_def find_append split: option.splits)
qed

lemma lookup_removed:
  assumes "repr s ds" "d \<in> set ds" "asks s q n"
  shows "lookup q (remove d s) = Some (first_named (key s) n (remove1 d ds))"
  using lookup_repr [OF remove_repr [OF assms(1,2)], of q n] assms(3) by (simp add: key_kept asks_kept)

lemma add_then_remove:
  assumes "repr s ds" "can_add d s" "d \<notin> set ds" "asks s q n"
  shows "lookup q (remove d (add d s)) = lookup q s"
  using lookup_removed [OF add_repr [OF assms(1-3)], of d q n] lookup_repr [OF assms(1,4)] assms(3,4)
  by (simp add: key_kept asks_kept remove1_append)

end

end
