(* ===== verification/Pmm.thy ===== *)
theory Pmm
  imports Interfaces
begin

text \<open>
  The physical page allocator of \<^verbatim>\<open>kernel/pmm.c\<close>: a bitmap with one bit per 4 KB block.
  The bitmap is a map from the index of a 32-bit word to the word. Block numbers are natural
  numbers: every one the code forms is below \<^verbatim>\<open>MAX_BLOCKS\<close> or compared with
  \<^verbatim>\<open>total_blocks\<close> before use, so the code's \<^verbatim>\<open>uint32_t\<close> never wraps on them.
  Addresses, sizes and the two counters keep their 32 bits.
\<close>

section \<open>State and bitmap helpers\<close>

abbreviation PMM_BLOCK_SIZE :: u32 where "PMM_BLOCK_SIZE \<equiv> 4096"
abbreviation MAX_BLOCKS :: nat where "MAX_BLOCKS \<equiv> 1048576"
abbreviation BITMAP_SIZE :: nat where "BITMAP_SIZE \<equiv> 32768"
abbreviation NO_BLOCK :: u32 where "NO_BLOCK \<equiv> 0xFFFFFFFF"

record pmm =
  pmm_bitmap :: "nat \<Rightarrow> u32"
  total_blocks :: u32
  used_blocks :: u32

definition bitmap_set :: "nat \<Rightarrow> pmm \<Rightarrow> pmm" where
  "bitmap_set b s = s\<lparr>pmm_bitmap := (pmm_bitmap s)
     (b div 32 := pmm_bitmap s (b div 32) OR push_bit (b mod 32) 1)\<rparr>"

definition bitmap_unset :: "nat \<Rightarrow> pmm \<Rightarrow> pmm" where
  "bitmap_unset b s = s\<lparr>pmm_bitmap := (pmm_bitmap s)
     (b div 32 := pmm_bitmap s (b div 32) AND NOT (push_bit (b mod 32) 1))\<rparr>"

definition bitmap_test :: "nat \<Rightarrow> pmm \<Rightarrow> bool" where
  "bitmap_test b s \<longleftrightarrow> pmm_bitmap s (b div 32) AND push_bit (b mod 32) 1 \<noteq> 0"

text \<open>
  \<open>bitmap_find_free\<close> scans word by word; the inner loop over the 32 bits of a word that is
  not full either returns (\<open>Some\<close>) or falls through to the next word.
\<close>

function bitmap_scan_word :: "pmm \<Rightarrow> nat \<Rightarrow> nat \<Rightarrow> u32 option" where
  "bitmap_scan_word s i j =
     (if j < 32 then
        (if unat (total_blocks s) \<le> i * 32 + j then Some NO_BLOCK
         else if \<not> bitmap_test (i * 32 + j) s then Some (of_nat (i * 32 + j))
         else bitmap_scan_word s i (Suc j))
      else None)"
  by pat_completeness auto
termination by (relation "measure (\<lambda>(s, i, j). 32 - j)") auto

function bitmap_scan_from :: "pmm \<Rightarrow> nat \<Rightarrow> u32" where
  "bitmap_scan_from s i =
     (if i < BITMAP_SIZE then
        (if pmm_bitmap s i \<noteq> 0xFFFFFFFF then
           (case bitmap_scan_word s i 0 of Some r \<Rightarrow> r | None \<Rightarrow> bitmap_scan_from s (Suc i))
         else bitmap_scan_from s (Suc i))
      else NO_BLOCK)"
  by pat_completeness auto
termination by (relation "measure (\<lambda>(s, i). BITMAP_SIZE - i)") auto

definition bitmap_find_free :: "pmm \<Rightarrow> u32" where
  "bitmap_find_free s = bitmap_scan_from s 0"

function contiguous_from :: "pmm \<Rightarrow> nat \<Rightarrow> nat \<Rightarrow> nat \<Rightarrow> nat \<Rightarrow> u32" where
  "contiguous_from s count i found start =
     (if i < unat (total_blocks s) then
        (if \<not> bitmap_test i s then
           (let start' = (if found = 0 then i else start) in
            if Suc found = count then of_nat start'
            else contiguous_from s count (Suc i) (Suc found) start')
         else contiguous_from s count (Suc i) 0 start)
      else NO_BLOCK)"
  by pat_completeness auto
termination by (relation "measure (\<lambda>(s, count, i, found, start). unat (total_blocks s) - i)") auto

definition bitmap_find_free_contiguous :: "u32 \<Rightarrow> pmm \<Rightarrow> u32" where
  "bitmap_find_free_contiguous count s = contiguous_from s (unat count) 0 0 0"

declare bitmap_scan_word.simps [simp del] bitmap_scan_from.simps [simp del]
  contiguous_from.simps [simp del]

section \<open>Operations\<close>

text \<open>Marking a block used: the pair of statements the code repeats.\<close>

definition mark_used :: "nat \<Rightarrow> pmm \<Rightarrow> pmm" where
  "mark_used b s = (let s1 = bitmap_set b s in s1\<lparr>used_blocks := used_blocks s1 + 1\<rparr>)"

definition pmm_init :: "u32 \<Rightarrow> pmm \<Rightarrow> pmm" where
  "pmm_init mem_size s =
     (let t = mem_size div PMM_BLOCK_SIZE;
          t' = (if MAX_BLOCKS < unat t then of_nat MAX_BLOCKS else t);
          s1 = s\<lparr>total_blocks := t', used_blocks := 0,
                 pmm_bitmap := (\<lambda>i. if i < BITMAP_SIZE then 0 else pmm_bitmap s i)\<rparr>
      in fold mark_used [0..<1024] s1)"

definition pmm_alloc_block :: "pmm \<Rightarrow> u32 \<times> pmm" where
  "pmm_alloc_block s =
     (let block = bitmap_find_free s in
      if block = NO_BLOCK then (0, s)
      else (block * PMM_BLOCK_SIZE, mark_used (unat block) s))"

definition pmm_free_block :: "u32 \<Rightarrow> pmm \<Rightarrow> pmm" where
  "pmm_free_block addr s =
     (let block = addr div PMM_BLOCK_SIZE in
      if block < total_blocks s \<and> bitmap_test (unat block) s
      then (let s1 = bitmap_unset (unat block) s in s1\<lparr>used_blocks := used_blocks s1 - 1\<rparr>)
      else s)"

definition pmm_alloc_blocks :: "u32 \<Rightarrow> pmm \<Rightarrow> u32 \<times> pmm" where
  "pmm_alloc_blocks count s =
     (if count = 0 then (0, s)
      else if count = 1 then pmm_alloc_block s
      else let start = bitmap_find_free_contiguous count s in
           if start = NO_BLOCK then (0, s)
           else (start * PMM_BLOCK_SIZE,
                 fold (\<lambda>i. mark_used (unat start + i)) [0..<unat count] s))"

definition pmm_free_blocks :: "u32 \<Rightarrow> u32 \<Rightarrow> pmm \<Rightarrow> pmm" where
  "pmm_free_blocks addr count s =
     fold (\<lambda>i. pmm_free_block (addr + of_nat i * PMM_BLOCK_SIZE)) [0..<unat count] s"

definition pmm_reserve_region :: "u32 \<Rightarrow> u32 \<Rightarrow> pmm \<Rightarrow> pmm" where
  "pmm_reserve_region start len s =
     (let start_block = start div PMM_BLOCK_SIZE;
          block_count = (len + PMM_BLOCK_SIZE - 1) div PMM_BLOCK_SIZE
      in fold (\<lambda>i s. let block = unat start_block + i in
                     if block < unat (total_blocks s) \<and> \<not> bitmap_test block s
                     then mark_used block s else s)
           [0..<unat block_count] s)"

definition pmm_get_stats :: "pmm \<Rightarrow> u32 \<times> u32" where
  "pmm_get_stats s = (total_blocks s, used_blocks s)"

definition pmm_get_free_memory :: "pmm \<Rightarrow> u32" where
  "pmm_get_free_memory s = (total_blocks s - used_blocks s) * PMM_BLOCK_SIZE"

definition pmm_get_total_memory :: "pmm \<Rightarrow> u32" where
  "pmm_get_total_memory s = total_blocks s * PMM_BLOCK_SIZE"

section \<open>Bits\<close>

lemma bitmap_test_iff: "bitmap_test b s \<longleftrightarrow> bit (pmm_bitmap s (b div 32)) (b mod 32)"
  by (simp only: bitmap_test_def bit_iff_and_push_bit_not_eq_0)

lemma block_eq_iff: "b div 32 = c div 32 \<Longrightarrow> b mod 32 = c mod 32 \<longleftrightarrow> b = (c :: nat)"
  by (metis div_mult_mod_eq)

lemma test_set [simp]: "bitmap_test c (bitmap_set b s) \<longleftrightarrow> c = b \<or> bitmap_test c s"
proof -
  have "c mod 32 < 32" "b mod 32 < 32" by simp_all
  then show ?thesis
    by (auto simp: bitmap_test_iff bitmap_set_def bit_simps block_eq_iff)
qed

lemma test_unset [simp]: "bitmap_test c (bitmap_unset b s) \<longleftrightarrow> c \<noteq> b \<and> bitmap_test c s"
proof -
  have "c mod 32 < 32" "b mod 32 < 32" by simp_all
  then show ?thesis
    by (auto simp: bitmap_test_iff bitmap_unset_def bit_simps block_eq_iff)
qed

lemma set_frame [frame_simps]:
  "total_blocks (bitmap_set b s) = total_blocks s" "used_blocks (bitmap_set b s) = used_blocks s"
  "total_blocks (bitmap_unset b s) = total_blocks s" "used_blocks (bitmap_unset b s) = used_blocks s"
  by (simp_all add: bitmap_set_def bitmap_unset_def)

lemma test_counter [simp]: "bitmap_test c (s\<lparr>used_blocks := u\<rparr>) = bitmap_test c s"
  by (simp add: bitmap_test_def)

lemma test_mark [simp]: "bitmap_test c (mark_used b s) \<longleftrightarrow> c = b \<or> bitmap_test c s"
proof -
  have "bitmap_test c (mark_used b s) = bitmap_test c (bitmap_set b s)"
    by (simp add: mark_used_def Let_def)
  then show ?thesis by simp
qed

lemma mark_frame [simp]:
  "total_blocks (mark_used b s) = total_blocks s" "used_blocks (mark_used b s) = used_blocks s + 1"
  by (simp_all add: mark_used_def Let_def frame_simps)

lemma word_full_test: "pmm_bitmap s i = 0xFFFFFFFF \<Longrightarrow> j < 32 \<Longrightarrow> bitmap_test (i * 32 + j) s"
proof -
  assume f: "pmm_bitmap s i = 0xFFFFFFFF" and j: "j < 32"
  have "bit (0xFFFFFFFF :: u32) j"
    using j unfolding word_bits_all_ones by (simp add: bit_minus_1_iff)
  then show "bitmap_test (i * 32 + j) s" using f j by (simp add: bitmap_test_iff)
qed

section \<open>The search loops against the bitmap as a set\<close>

definition is_free :: "nat \<Rightarrow> pmm \<Rightarrow> bool" where
  "is_free b s \<longleftrightarrow> b < unat (total_blocks s) \<and> \<not> bitmap_test b s"

definition first_free :: "nat \<Rightarrow> pmm \<Rightarrow> u32" where
  "first_free a s =
     (case find (\<lambda>b. \<not> bitmap_test b s) [a..<unat (total_blocks s)] of
        None \<Rightarrow> NO_BLOCK | Some b \<Rightarrow> of_nat b)"

lemma scan_word_first_free:
  assumes "j \<le> 32"
  shows "(case bitmap_scan_word s i j of Some r \<Rightarrow> r | None \<Rightarrow> first_free (Suc i * 32) s)
           = first_free (i * 32 + j) s"
  using assms
proof (induction "32 - j" arbitrary: j)
  case 0
  then show ?case by (subst bitmap_scan_word.simps) (simp add: algebra_simps)
next
  case (Suc n)
  then have j: "j < 32" and IH: "(case bitmap_scan_word s i (Suc j) of Some r \<Rightarrow> r
      | None \<Rightarrow> first_free (Suc i * 32) s) = first_free (i * 32 + Suc j) s"
    by auto
  show ?case
  proof (cases "i * 32 + j < unat (total_blocks s)")
    case True
    then show ?thesis
      using j IH by (subst bitmap_scan_word.simps) (simp add: first_free_def find_upt_Cons)
  next
    case False
    then show ?thesis using j by (subst bitmap_scan_word.simps) (simp add: first_free_def)
  qed
qed

lemma scan_from_first_free:
  assumes "unat (total_blocks s) \<le> MAX_BLOCKS" and "i \<le> BITMAP_SIZE"
  shows "bitmap_scan_from s i = first_free (i * 32) s"
  using assms(2)
proof (induction "BITMAP_SIZE - i" arbitrary: i)
  case 0
  then show ?case using assms(1) by (subst bitmap_scan_from.simps) (simp add: first_free_def)
next
  case (Suc n)
  then have i: "i < BITMAP_SIZE" and IH: "bitmap_scan_from s (Suc i) = first_free (Suc i * 32) s"
    by auto
  show ?case
  proof (cases "pmm_bitmap s i = 0xFFFFFFFF")
    case True
    have full: "bitmap_test b s" if "i * 32 \<le> b" "b < Suc i * 32" for b
      using word_full_test [OF True, of "b - i * 32"] that by simp
    have "find (\<lambda>b. \<not> bitmap_test b s) [i * 32..<unat (total_blocks s)]
        = find (\<lambda>b. \<not> bitmap_test b s) [Suc i * 32..<unat (total_blocks s)]"
      by (rule find_upt_skip) (use full in auto)
    then show ?thesis
      using True i IH by (subst bitmap_scan_from.simps) (simp add: first_free_def)
  next
    case False
    then show ?thesis
      using i IH scan_word_first_free [where j = 0 and s = s and i = i]
      by (subst bitmap_scan_from.simps)
        (cases "bitmap_scan_word s i 0"; simp del: mult_Suc)
  qed
qed

lemma find_free_first_free:
  "unat (total_blocks s) \<le> MAX_BLOCKS \<Longrightarrow> bitmap_find_free s = first_free 0 s"
  using scan_from_first_free [of s 0] by (simp add: bitmap_find_free_def)

lemma of_nat_block_neq: "b < MAX_BLOCKS \<Longrightarrow> (of_nat b :: u32) \<noteq> NO_BLOCK"
proof
  assume b: "b < MAX_BLOCKS" and "(of_nat b :: u32) = NO_BLOCK"
  then have "unat (of_nat b :: u32) = unat NO_BLOCK" by simp
  then show False using b by (simp add: unat_of_nat_u32)
qed

lemma find_free_Some:
  assumes "unat (total_blocks s) \<le> MAX_BLOCKS" and "bitmap_find_free s = r" and "r \<noteq> NO_BLOCK"
  shows "is_free (unat r) s" and "\<And>b. is_free b s \<Longrightarrow> unat r \<le> b" and "unat r < MAX_BLOCKS"
proof -
  obtain b where b: "find (\<lambda>b. \<not> bitmap_test b s) [0..<unat (total_blocks s)] = Some b"
      and r: "r = of_nat b"
    using assms by (auto simp: find_free_first_free first_free_def split: option.splits)
  have bb: "b < unat (total_blocks s)" "\<not> bitmap_test b s" "\<And>c. c < b \<Longrightarrow> bitmap_test c s"
    using b by (auto simp: find_upt_Some_iff)
  have ur: "unat r = b" using bb(1) assms(1) unfolding r by (intro unat_of_nat_u32) simp
  show "is_free (unat r) s" using bb by (simp add: ur is_free_def)
  show "\<And>b. is_free b s \<Longrightarrow> unat r \<le> b" using bb(3) ur by (metis is_free_def not_le)
  show "unat r < MAX_BLOCKS" using bb(1) assms(1) ur by simp
qed

lemma find_free_None_iff:
  assumes "unat (total_blocks s) \<le> MAX_BLOCKS"
  shows "bitmap_find_free s = NO_BLOCK \<longleftrightarrow> (\<forall>b. \<not> is_free b s)"
proof
  assume "bitmap_find_free s = NO_BLOCK"
  then have "find (\<lambda>b. \<not> bitmap_test b s) [0..<unat (total_blocks s)] = None"
    using assms of_nat_block_neq
    by (fastforce simp: find_free_first_free first_free_def find_upt_Some_iff split: option.splits)
  then show "\<forall>b. \<not> is_free b s" by (auto simp: find_None_iff is_free_def)
next
  assume "\<forall>b. \<not> is_free b s"
  then show "bitmap_find_free s = NO_BLOCK"
    using find_free_Some(1) [OF assms refl] by blast
qed

text \<open>
  The contiguous search keeps the length \<open>found\<close> of the run of free blocks that ends just
  before the cursor; every run of \<open>count\<close> free blocks starts at that run or later.
\<close>

definition free_run :: "nat \<Rightarrow> nat \<Rightarrow> pmm \<Rightarrow> bool" where
  "free_run b count s \<longleftrightarrow> (\<forall>k < count. is_free (b + k) s)"

lemma contiguous_from_first_run:
  assumes "unat (total_blocks s) \<le> MAX_BLOCKS"
    and "found < count" and "found \<le> i" and "i \<le> unat (total_blocks s)"
    and "0 < found \<longrightarrow> start = i - found"
    and "free_run (i - found) found s"
    and "\<And>b. free_run b count s \<Longrightarrow> i - found \<le> b"
    and "contiguous_from s count i found start = r"
  shows "if r = NO_BLOCK then \<forall>b. \<not> free_run b count s
         else free_run (unat r) count s \<and> (\<forall>b. free_run b count s \<longrightarrow> unat r \<le> b)"
  using assms(2-)
proof (induction "unat (total_blocks s) - i" arbitrary: i found start)
  case 0
  have "\<not> free_run b count s" for b
  proof
    assume run: "free_run b count s"
    then have le: "i - found \<le> b" by (rule "0.prems"(6))
    have "is_free (b + (count - 1)) s"
      using run [unfolded free_run_def, rule_format, of "count - 1"] "0.prems"(1) by simp
    then have "b + (count - 1) < unat (total_blocks s)" by (simp add: is_free_def)
    then show False using le "0.hyps" "0.prems"(1,2) by linarith
  qed
  then show ?case using 0 by (simp add: contiguous_from.simps)
next
  case (Suc n)
  then have i: "i < unat (total_blocks s)" and n: "n = unat (total_blocks s) - Suc i" by auto
  note r = Suc.prems(7)
  show ?case
  proof (cases "bitmap_test i s")
    case True
    have "Suc i \<le> b" if run: "free_run b count s" for b
    proof (rule ccontr)
      assume "\<not> Suc i \<le> b"
      then have "i - b < count" "b + (i - b) = i"
        using Suc.prems(1,2) Suc.prems(6) [OF run] by auto
      then have "is_free i s"
        using run unfolding free_run_def by metis
      then show False using True \<open>\<not> Suc i \<le> b\<close> by (simp add: is_free_def)
    qed
    moreover have "contiguous_from s count (Suc i) 0 start = r"
      using r i True by (simp add: contiguous_from.simps [of s count i])
    ultimately show ?thesis
      using Suc.hyps(1) [OF n, of 0 start] Suc.prems(1) i by (simp add: free_run_def)
  next
    case False
    let ?start = "i - found"
    have run: "free_run ?start (Suc found) s"
      using Suc.prems(2,5) False i by (auto simp: free_run_def less_Suc_eq is_free_def)
    have st: "(if found = 0 then i else start) = ?start" using Suc.prems(4) by auto
    show ?thesis
    proof (cases "Suc found = count")
      case True
      have "r = of_nat ?start"
        using r i False st True by (simp add: contiguous_from.simps [of s count i])
      moreover have "?start < MAX_BLOCKS" using i assms(1) by simp
      ultimately have "r \<noteq> NO_BLOCK" "unat r = ?start"
        by (simp_all add: of_nat_block_neq unat_of_nat_u32)
      then show ?thesis using run True Suc.prems(6) by auto
    next
      case more: False
      have "contiguous_from s count (Suc i) (Suc found) ?start = r"
        using r i False st more by (simp add: contiguous_from.simps [of s count i])
      then show ?thesis
        using Suc.hyps(1) [OF n, of "Suc found" ?start] Suc.prems(1,2,6) more run i by simp
    qed
  qed
qed

lemma find_contiguous_first_run:
  assumes "unat (total_blocks s) \<le> MAX_BLOCKS" and "count \<noteq> 0"
    and "bitmap_find_free_contiguous count s = r"
  shows "if r = NO_BLOCK then \<forall>b. \<not> free_run b (unat count) s
         else free_run (unat r) (unat count) s \<and> (\<forall>b. free_run b (unat count) s \<longrightarrow> unat r \<le> b)"
  by (rule contiguous_from_first_run [where i = 0 and found = 0 and start = 0])
    (use assms in \<open>auto simp: bitmap_find_free_contiguous_def free_run_def unat_gt_0\<close>)

section \<open>The allocator as a set of blocks\<close>

definition used_set :: "pmm \<Rightarrow> nat set" where
  "used_set s = {b. b < unat (total_blocks s) \<and> bitmap_test b s}"

definition pmm_inv :: "pmm \<Rightarrow> bool" where
  "pmm_inv s \<longleftrightarrow> unat (total_blocks s) \<le> MAX_BLOCKS \<and> unat (used_blocks s) = card (used_set s)"

lemma finite_used_set [simp]: "finite (used_set s)"
  by (simp add: used_set_def)

lemma card_used_set_le: "card (used_set s) \<le> unat (total_blocks s)"
proof -
  have "used_set s \<subseteq> {..<unat (total_blocks s)}" by (auto simp: used_set_def)
  then show ?thesis using card_mono [of "{..<unat (total_blocks s)}" "used_set s"] by simp
qed

lemma is_free_iff: "is_free b s \<longleftrightarrow> b < unat (total_blocks s) \<and> b \<notin> used_set s"
  by (auto simp: is_free_def used_set_def)

lemma used_set_mark: "b < unat (total_blocks s) \<Longrightarrow> used_set (mark_used b s) = insert b (used_set s)"
  by (auto simp: used_set_def)

lemma mark_used_inv [inv_intros]:
  assumes "pmm_inv s" and "is_free b s"
  shows "pmm_inv (mark_used b s)"
proof -
  have b: "b < unat (total_blocks s)" "b \<notin> used_set s" using assms(2) by (simp_all add: is_free_iff)
  have "unat (used_blocks s) < 1048577"
    using assms(1) card_used_set_le [of s] by (simp add: pmm_inv_def)
  then have "unat (used_blocks s + 1) = Suc (unat (used_blocks s))"
    using unat_add_u32 [of "used_blocks s" 1] by simp
  then show ?thesis using assms(1) b by (simp add: pmm_inv_def used_set_mark)
qed

lemma fold_mark_test: "bitmap_test c (fold mark_used bs s) \<longleftrightarrow> c \<in> set bs \<or> bitmap_test c s"
  by (induction bs arbitrary: s) auto

lemma fold_mark_total [simp]: "total_blocks (fold mark_used bs s) = total_blocks s"
  by (induction bs arbitrary: s) auto

lemma fold_mark_used_blocks:
  "used_blocks (fold mark_used bs s) = used_blocks s + of_nat (length bs)"
  by (induction bs arbitrary: s) (auto simp: algebra_simps)

lemma fold_mark_used_set:
  assumes "\<forall>b \<in> set bs. b < unat (total_blocks s)"
  shows "used_set (fold mark_used bs s) = set bs \<union> used_set s"
  using assms by (auto simp: used_set_def fold_mark_test)

lemma fold_mark_inv:
  assumes "pmm_inv s" and "\<forall>b \<in> set bs. is_free b s" and "distinct bs"
  shows "pmm_inv (fold mark_used bs s)"
  using assms
proof (induction bs arbitrary: s)
  case Nil
  then show ?case by simp
next
  case (Cons b bs)
  have "\<forall>c \<in> set bs. is_free c (mark_used b s)"
    using Cons.prems by (auto simp: is_free_def)
  then show ?case
    using Cons mark_used_inv [of s b] by simp
qed

lemma pmm_alloc_block_cases:
  assumes "pmm_inv s"
  obtains (full) "used_set s = {..<unat (total_blocks s)}" "pmm_alloc_block s = (0, s)"
  | (got) b where "is_free b s" "\<And>c. is_free c s \<Longrightarrow> b \<le> c" "b < MAX_BLOCKS"
      "pmm_alloc_block s = (of_nat b * PMM_BLOCK_SIZE, mark_used b s)"
proof (cases "bitmap_find_free s = NO_BLOCK")
  case True
  then have "\<forall>b. \<not> is_free b s" using assms by (simp add: pmm_inv_def find_free_None_iff)
  then have "used_set s = {..<unat (total_blocks s)}" by (auto simp: is_free_iff used_set_def)
  then show ?thesis using full True by (simp add: pmm_alloc_block_def)
next
  case False
  then show ?thesis
    using assms got [of "unat (bitmap_find_free s)"] find_free_Some [OF _ refl False]
    by (simp add: pmm_inv_def pmm_alloc_block_def Let_def)
qed

lemma unat_block_addr: "b < MAX_BLOCKS \<Longrightarrow> unat (of_nat b * PMM_BLOCK_SIZE) = b * 4096"
  by (simp add: unat_word_ariths unat_of_nat_u32)

lemma block_addr_div: "b < MAX_BLOCKS \<Longrightarrow> of_nat b * PMM_BLOCK_SIZE div PMM_BLOCK_SIZE = of_nat b"
  by (rule word_unat_eq_iff [THEN iffD2]) (simp add: unat_div unat_block_addr unat_of_nat_u32)

lemma block_addr_aligned: "b < MAX_BLOCKS \<Longrightarrow> of_nat b * PMM_BLOCK_SIZE AND 0xFFF = 0"
proof -
  have "(0xFFF :: u32) = mask 12" by (simp add: mask_eq_exp_minus_1)
  then have "of_nat b * PMM_BLOCK_SIZE AND 0xFFF = take_bit 12 (push_bit 12 (of_nat b :: u32))"
    by (simp only: take_bit_eq_mask push_bit_eq_mult) simp
  then show ?thesis by (simp add: take_bit_push_bit)
qed

lemma used_set_unset: "used_set (bitmap_unset b s) = used_set s - {b}"
  by (auto simp: used_set_def frame_simps)

lemma used_set_counter [simp]: "used_set (s\<lparr>used_blocks := u\<rparr>) = used_set s"
  by (simp add: used_set_def bitmap_test_def)

lemma pmm_free_block_used_set:
  "used_set (pmm_free_block a s) = used_set s - {unat a div 4096}"
proof (cases "a div PMM_BLOCK_SIZE < total_blocks s \<and> bitmap_test (unat (a div PMM_BLOCK_SIZE)) s")
  case True
  then show ?thesis by (simp add: pmm_free_block_def Let_def used_set_unset unat_div)
next
  case False
  then have "unat a div 4096 \<notin> used_set s"
    by (auto simp: used_set_def word_less_nat_alt unat_div)
  then show ?thesis using False by (auto simp: pmm_free_block_def Let_def)
qed

lemma pmm_free_block_total [simp]: "total_blocks (pmm_free_block a s) = total_blocks s"
  by (simp add: pmm_free_block_def Let_def frame_simps)

lemma pmm_free_block_inv [inv_intros]:
  assumes "pmm_inv s"
  shows "pmm_inv (pmm_free_block a s)"
proof (cases "a div PMM_BLOCK_SIZE < total_blocks s \<and> bitmap_test (unat (a div PMM_BLOCK_SIZE)) s")
  case True
  then have b: "unat a div 4096 \<in> used_set s"
    by (auto simp: used_set_def word_less_nat_alt unat_div)
  then have "unat (used_blocks s) \<noteq> 0"
    using assms unfolding pmm_inv_def by (metis card_0_eq empty_iff finite_used_set)
  then have "unat (used_blocks s - 1) = unat (used_blocks s) - 1"
    by (simp add: unat_minus_one unat_eq_0)
  then show ?thesis
    using True assms b by (simp add: pmm_inv_def pmm_free_block_def Let_def frame_simps used_set_unset unat_div)
next
  case False
  then show ?thesis using assms by (auto simp: pmm_free_block_def Let_def)
qed

lemma pmm_alloc_block_inv [inv_intros]:
  assumes "pmm_inv s" shows "pmm_inv (snd (pmm_alloc_block s))"
  using assms
proof (cases rule: pmm_alloc_block_cases)
  case full
  show ?thesis unfolding full(2) using assms by simp
next
  case (got b)
  show ?thesis unfolding got(4) using mark_used_inv [OF assms got(1)] by simp
qed


lemma pmm_alloc_blocks_cases:
  assumes "pmm_inv s" and "count \<noteq> 0"
  obtains (none) "\<forall>b. \<not> free_run b (unat count) s" "pmm_alloc_blocks count s = (0, s)"
  | (got) b where "free_run b (unat count) s" "\<And>c. free_run c (unat count) s \<Longrightarrow> b \<le> c"
      "b + unat count \<le> MAX_BLOCKS"
      "pmm_alloc_blocks count s
         = (of_nat b * PMM_BLOCK_SIZE, fold mark_used [b..<b + unat count] s)"
proof -
  have tot: "unat (total_blocks s) \<le> MAX_BLOCKS" using assms(1) by (simp add: pmm_inv_def)
  have pos: "0 < unat count" using assms(2) by (simp add: unat_gt_0)
  have bound: "b + unat count \<le> MAX_BLOCKS" if "free_run b (unat count) s" for b
  proof -
    have "is_free (b + (unat count - 1)) s"
      using that [unfolded free_run_def, rule_format, of "unat count - 1"] pos by simp
    then have "b + (unat count - 1) < unat (total_blocks s)" by (simp add: is_free_def)
    then show ?thesis using tot pos by linarith
  qed
  show thesis
  proof (cases "count = 1")
    case True
    from assms(1) show ?thesis
    proof (cases rule: pmm_alloc_block_cases)
      case full
      then have "\<forall>b. \<not> free_run b (unat count) s"
        using True by (auto simp: free_run_def is_free_iff)
      then show ?thesis using none full(2) True by (simp add: pmm_alloc_blocks_def)
    next
      case (got b)
      have run: "free_run c (unat count) s \<longleftrightarrow> is_free c s" for c
        using True by (simp add: free_run_def)
      show ?thesis
      proof (rule that(2))
        show "free_run b (unat count) s" using got(1) run by simp
        show "b \<le> c" if "free_run c (unat count) s" for c using got(2) run that by simp
        show "b + unat count \<le> MAX_BLOCKS" using got(3) True by simp
        show "pmm_alloc_blocks count s
         = (of_nat b * PMM_BLOCK_SIZE, fold mark_used [b..<b + unat count] s)"
          unfolding pmm_alloc_blocks_def using True got(4) by simp
      qed
    qed
  next
    case False
    let ?r = "bitmap_find_free_contiguous count s"
    note spec = find_contiguous_first_run [OF tot assms(2) refl]
    show ?thesis
    proof (cases "?r = NO_BLOCK")
      case True
      then show ?thesis using none spec False assms(2) by (simp add: pmm_alloc_blocks_def)
    next
      case r: False
      have marks: "fold (\<lambda>i. mark_used (unat ?r + i)) [0..<unat count] s
          = fold mark_used [unat ?r..<unat ?r + unat count] s"
      proof -
        have "[unat ?r..<unat ?r + unat count] = map (\<lambda>i. unat ?r + i) [0..<unat count]"
          by (rule nth_equalityI) auto
        then show ?thesis by (simp add: fold_map comp_def)
      qed
      show ?thesis
      proof (rule that(2))
        show "free_run (unat ?r) (unat count) s" using spec r by simp
        then show "unat ?r + unat count \<le> MAX_BLOCKS" by (rule bound)
        show "unat ?r \<le> c" if "free_run c (unat count) s" for c using spec r that by simp
        show "pmm_alloc_blocks count s
         = (of_nat (unat ?r) * PMM_BLOCK_SIZE, fold mark_used [unat ?r..<unat ?r + unat count] s)"
          using r False assms(2) by (simp add: pmm_alloc_blocks_def Let_def marks)
      qed
    qed
  qed
qed

lemma free_run_set: "free_run b n s \<longleftrightarrow> (\<forall>c \<in> set [b..<b + n]. is_free c s)"
  by (auto simp: free_run_def) (metis add.commute le_add_diff_inverse2 less_diff_conv2 nat_add_left_cancel_less)

lemma pmm_alloc_blocks_inv [inv_intros]:
  assumes "pmm_inv s" shows "pmm_inv (snd (pmm_alloc_blocks count s))"
proof (cases "count = 0")
  case True
  then show ?thesis using assms by (simp add: pmm_alloc_blocks_def)
next
  case False
  from assms False show ?thesis
  proof (cases rule: pmm_alloc_blocks_cases)
    case none
    show ?thesis unfolding none(2) using assms by simp
  next
    case (got b)
    show ?thesis unfolding got(4)
      using fold_mark_inv [OF assms, of "[b..<b + unat count]"] got(1) by (simp add: free_run_set)
  qed
qed

text \<open>Operations that are a loop over blocks keep what each round keeps.\<close>

lemma fold_invariant:
  assumes "P s" and "\<And>x s. P s \<Longrightarrow> P (f x s)"
  shows "P (fold f xs s)"
  using assms(1) by (induction xs arbitrary: s) (auto intro: assms(2))

lemma pmm_free_blocks_inv [inv_intros]: "pmm_inv s \<Longrightarrow> pmm_inv (pmm_free_blocks a n s)"
  unfolding pmm_free_blocks_def by (rule fold_invariant) (auto intro: inv_intros)

lemma pmm_reserve_region_inv [inv_intros]: "pmm_inv s \<Longrightarrow> pmm_inv (pmm_reserve_region a n s)"
  unfolding pmm_reserve_region_def Let_def
  by (rule fold_invariant) (auto intro: mark_used_inv simp: is_free_def)

lemma pmm_init_state:
  assumes "0x400000 \<le> unat mem_size"
  shows "pmm_inv (pmm_init mem_size s)" and "used_set (pmm_init mem_size s) = {..<1024}"
    and "unat (total_blocks (pmm_init mem_size s)) = unat mem_size div 4096"
proof -
  let ?s = "s\<lparr>total_blocks := mem_size div PMM_BLOCK_SIZE, used_blocks := 0,
                 pmm_bitmap := (\<lambda>i. if i < BITMAP_SIZE then 0 else pmm_bitmap s i)\<rparr>"
  have t: "unat (mem_size div PMM_BLOCK_SIZE) = unat mem_size div 4096" by (simp add: unat_div)
  have le: "unat mem_size div 4096 \<le> MAX_BLOCKS"
    using div_le_mono [of "unat mem_size" 4294967295 4096] unat_lt_two_power_32 [of mem_size]
    by simp
  have ge: "1024 \<le> unat mem_size div 4096" using assms by simp
  have init: "pmm_init mem_size s = fold mark_used [0..<1024] ?s"
    using t le by (simp add: pmm_init_def Let_def)
  have none: "used_set ?s = {}"
  proof -
    have "\<not> bitmap_test b ?s" if "b < unat mem_size div 4096" for b
    proof -
      have "b div 32 < BITMAP_SIZE" using that le by simp
      then show ?thesis by (simp add: bitmap_test_def)
    qed
    then show ?thesis by (auto simp: used_set_def t)
  qed
  have inv: "pmm_inv ?s" using none t le by (simp add: pmm_inv_def)
  have free: "\<forall>b \<in> set [0..<1024]. is_free b ?s" using none t ge by (auto simp: is_free_iff)
  show "pmm_inv (pmm_init mem_size s)" unfolding init by (rule fold_mark_inv [OF inv free]) simp
  show "used_set (pmm_init mem_size s) = {..<1024}"
    unfolding init using none t ge by (subst fold_mark_used_set) auto
  show "unat (total_blocks (pmm_init mem_size s)) = unat mem_size div 4096"
    unfolding init by (simp add: t)
qed

text \<open>Two states with the same bits, sizes and counters are the same state.\<close>

lemma pmm_eqI:
  assumes "\<And>b. bitmap_test b s = bitmap_test b t" and "total_blocks s = total_blocks t"
    and "used_blocks s = used_blocks t"
  shows "s = (t :: pmm)"
proof -
  have "pmm_bitmap s i = pmm_bitmap t i" for i
  proof (rule bit_word_eqI)
    fix n
    assume "n < LENGTH(32)"
    then show "bit (pmm_bitmap s i) n = bit (pmm_bitmap t i) n"
      using assms(1) [of "i * 32 + n"] by (simp add: bitmap_test_iff)
  qed
  then show ?thesis using assms(2,3) by (simp add: fun_eq_iff)
qed

lemma pmm_free_block_test:
  "bitmap_test c (pmm_free_block a s) \<longleftrightarrow>
     bitmap_test c s \<and> \<not> (c = unat a div 4096 \<and> c < unat (total_blocks s))"
  by (auto simp: pmm_free_block_def Let_def word_less_nat_alt unat_div)

lemma pmm_free_blocks_total [simp]: "total_blocks (pmm_free_blocks a n s) = total_blocks s"
proof -
  have "total_blocks (fold (\<lambda>i. pmm_free_block (a + of_nat i * PMM_BLOCK_SIZE)) is s)
      = total_blocks s" for "is"
    by (induction "is" arbitrary: s) auto
  then show ?thesis by (simp add: pmm_free_blocks_def)
qed

lemma block_addr_index:
  "b + i < MAX_BLOCKS \<Longrightarrow>
     unat (of_nat b * PMM_BLOCK_SIZE + of_nat i * PMM_BLOCK_SIZE) div 4096 = b + i"
proof -
  assume "b + i < MAX_BLOCKS"
  then have "unat (of_nat (b + i) * PMM_BLOCK_SIZE) = (b + i) * 4096" by (rule unat_block_addr)
  then show ?thesis by (simp add: algebra_simps)
qed

lemma pmm_free_blocks_test:
  assumes "b + n \<le> MAX_BLOCKS" and "b + n \<le> unat (total_blocks s)"
  shows "bitmap_test c (fold (\<lambda>i. pmm_free_block (of_nat b * PMM_BLOCK_SIZE + of_nat i * PMM_BLOCK_SIZE))
           [0..<n] s) \<longleftrightarrow> bitmap_test c s \<and> \<not> (b \<le> c \<and> c < b + n)"
  using assms
proof (induction n)
  case 0
  then show ?case by simp
next
  case (Suc n)
  let ?f = "\<lambda>i. pmm_free_block (of_nat b * PMM_BLOCK_SIZE + of_nat i * PMM_BLOCK_SIZE)"
  have tot: "total_blocks (fold ?f xs s) = total_blocks s" for xs
    by (induction xs arbitrary: s) auto
  have "bitmap_test c (fold ?f [0..<Suc n] s) \<longleftrightarrow>
      bitmap_test c (fold ?f [0..<n] s) \<and> c \<noteq> b + n"
    using Suc.prems by (simp add: pmm_free_block_test block_addr_index tot)
  then show ?case using Suc by auto
qed

section \<open>The provider of the page allocator contract\<close>

definition page_inv :: "pmm \<Rightarrow> bool" where
  "page_inv s \<longleftrightarrow> pmm_inv s \<and> 0 \<in> used_set s"

definition used_pages :: "pmm \<Rightarrow> u32 set" where
  "used_pages s = (\<lambda>b. of_nat b * PMM_BLOCK_SIZE) ` used_set s"

lemma used_set_bound: "pmm_inv s \<Longrightarrow> b \<in> used_set s \<Longrightarrow> b < MAX_BLOCKS"
  by (auto simp: pmm_inv_def used_set_def)

lemma block_addr_inj:
  assumes "b < MAX_BLOCKS" "c < MAX_BLOCKS"
  shows "of_nat b * PMM_BLOCK_SIZE = of_nat c * PMM_BLOCK_SIZE \<longleftrightarrow> b = c"
  using unat_block_addr [OF assms(1)] unat_block_addr [OF assms(2)]
  by (metis mult_cancel2 zero_neq_numeral)

lemma used_pages_iff:
  assumes "pmm_inv s" "b < MAX_BLOCKS"
  shows "of_nat b * PMM_BLOCK_SIZE \<in> used_pages s \<longleftrightarrow> b \<in> used_set s"
  using assms used_set_bound by (auto simp: used_pages_def block_addr_inj)

lemma pmm_alloc_page:
  assumes p: "page_inv s" and r: "pmm_alloc_block s = (a, t)"
  shows "page_inv t \<and> a AND 0xFFF = 0 \<and> (a = 0 \<longrightarrow> t = s)
    \<and> (a \<noteq> 0 \<longrightarrow> a \<notin> used_pages s \<and> used_pages t = insert a (used_pages s))"
proof -
  have inv: "pmm_inv s" and zero: "0 \<in> used_set s" using p by (simp_all add: page_inv_def)
  from inv show ?thesis
  proof (cases rule: pmm_alloc_block_cases)
    case full
    then have "a = 0" "t = s" using r by simp_all
    then show ?thesis using p by simp
  next
    case (got b)
    have a: "a = of_nat b * PMM_BLOCK_SIZE" and t: "t = mark_used b s"
      using r unfolding got(4) by simp_all
    have b: "b < unat (total_blocks s)" "b \<notin> used_set s"
      using got(1) by (simp_all add: is_free_iff)
    have "a \<noteq> 0" using b(2) zero block_addr_inj [OF got(3), of 0] a by auto
    moreover have "page_inv t"
      using mark_used_inv [OF inv got(1)] zero b(1) by (simp add: t page_inv_def used_set_mark)
    moreover have "a \<notin> used_pages s" using used_pages_iff [OF inv got(3)] b(2) a by simp
    moreover have "used_pages t = insert a (used_pages s)"
      using b(1) by (simp add: t a used_pages_def used_set_mark)
    ultimately show ?thesis using block_addr_aligned [OF got(3)] a by simp
  qed
qed

lemma pmm_free_page:
  assumes p: "page_inv s" and q: "q \<in> used_pages s" "q \<noteq> 0"
  shows "page_inv (pmm_free_block q s) \<and> used_pages (pmm_free_block q s) = used_pages s - {q}"
proof -
  have inv: "pmm_inv s" and zero: "0 \<in> used_set s" using p by (simp_all add: page_inv_def)
  obtain b where b: "b \<in> used_set s" "q = of_nat b * PMM_BLOCK_SIZE"
    using q(1) by (auto simp: used_pages_def)
  have bm: "b < MAX_BLOCKS" using used_set_bound [OF inv b(1)] .
  have qb: "unat q div 4096 = b" using unat_block_addr [OF bm] b(2) by simp
  have "b \<noteq> 0" using q(2) b(2) by (metis mult_zero_left semiring_1_class.of_nat_0)
  then have "page_inv (pmm_free_block q s)"
    using pmm_free_block_inv [OF inv] zero by (simp add: page_inv_def pmm_free_block_used_set qb)
  moreover have "inj_on (\<lambda>b. of_nat b * PMM_BLOCK_SIZE) (used_set s)"
    by (rule inj_onI) (simp add: block_addr_inj used_set_bound [OF inv])
  then have "used_pages (pmm_free_block q s) = used_pages s - {q}"
    unfolding used_pages_def pmm_free_block_used_set qb
    using inj_on_image_set_diff [of _ "used_set s" "used_set s" "{b}"] b by auto
  ultimately show ?thesis by simp
qed

interpretation pages: page_allocator pmm_alloc_block pmm_free_block page_inv used_pages
proof
  fix s :: pmm
  assume p: "page_inv s"
  then show "0 \<in> used_pages s" by (force simp: used_pages_def page_inv_def)
  show "page_inv (snd (pmm_alloc_block s))"
    "fst (pmm_alloc_block s) = 0 \<Longrightarrow> snd (pmm_alloc_block s) = s"
    "fst (pmm_alloc_block s) \<noteq> 0 \<Longrightarrow> fst (pmm_alloc_block s) \<notin> used_pages s"
    "fst (pmm_alloc_block s) \<noteq> 0 \<Longrightarrow>
      used_pages (snd (pmm_alloc_block s)) = insert (fst (pmm_alloc_block s)) (used_pages s)"
    "fst (pmm_alloc_block s) AND 0xFFF = 0"
    using pmm_alloc_page [OF p prod.collapse [symmetric]] by auto
qed (simp_all add: pmm_free_page)

section \<open>Properties\<close>

text \<open>\<open>bitmap_find_free\<close>, which skips full 32-bit words, answers what the plain search of
  the bitmap bit by bit answers: the lowest clear bit below \<open>total_blocks\<close>, or \<open>0xFFFFFFFF\<close>.\<close>

theorem bitmap_find_free_is_linear_search:
  assumes "unat (total_blocks s) \<le> MAX_BLOCKS"
  shows "bitmap_find_free s =
    (case find (\<lambda>b. \<not> bitmap_test b s) [0..<unat (total_blocks s)] of
       None \<Rightarrow> NO_BLOCK | Some b \<Rightarrow> of_nat b)"
  using find_free_first_free [OF assms] by (simp add: first_free_def)

definition small_pmm :: pmm where
  "small_pmm = \<lparr>pmm_bitmap = (\<lambda>i. if i = 0 then 0xFFFFFFFF else 5), total_blocks = 40, used_blocks = 34\<rparr>"

lemma bitmap_find_free_is_linear_search_witness:
  "bitmap_find_free small_pmm =
    (case find (\<lambda>b. \<not> bitmap_test b small_pmm) [0..<unat (total_blocks small_pmm)] of
       None \<Rightarrow> NO_BLOCK | Some b \<Rightarrow> of_nat b)"
  by (rule bitmap_find_free_is_linear_search) (simp add: small_pmm_def)

text \<open>\<open>pmm_alloc_block\<close> hands out the lowest free block, marks exactly that block and counts
  it; with no block free it answers 0 and changes nothing. The accounting invariant is kept.\<close>

theorem pmm_alloc_block_lowest:
  assumes "pmm_inv s"
  shows "case pmm_alloc_block s of (a, t) \<Rightarrow>
    if \<exists>b. is_free b s
    then \<exists>b. is_free b s \<and> (\<forall>c. is_free c s \<longrightarrow> b \<le> c) \<and> unat a = b * 4096
         \<and> used_set t = insert b (used_set s) \<and> total_blocks t = total_blocks s \<and> pmm_inv t
    else a = 0 \<and> t = s"
  using assms
proof (cases rule: pmm_alloc_block_cases)
  case full
  then show ?thesis by (auto simp: is_free_iff)
next
  case (got b)
  have b: "b < unat (total_blocks s)" using got(1) by (simp add: is_free_def)
  show ?thesis
    unfolding got(4) using got(1-3) b mark_used_inv [OF assms got(1)]
    by (auto simp: used_set_mark unat_block_addr intro!: exI [of _ b])
qed

definition boot_pmm :: pmm where
  "boot_pmm = pmm_init 0x8000000 \<lparr>pmm_bitmap = (\<lambda>_. 0), total_blocks = 0, used_blocks = 0\<rparr>"

lemma boot_pmm_inv: "pmm_inv boot_pmm" "used_set boot_pmm = {..<1024}"
    "unat (total_blocks boot_pmm) = 32768"
  unfolding boot_pmm_def by (simp_all add: pmm_init_state)

lemma boot_pmm_free: "is_free b boot_pmm \<longleftrightarrow> 1024 \<le> b \<and> b < 32768"
  by (auto simp: is_free_iff boot_pmm_inv)

lemma pmm_alloc_block_lowest_witness: "fst (pmm_alloc_block boot_pmm) = 0x400000"
proof -
  have "\<exists>b. is_free b boot_pmm" by (auto simp: boot_pmm_free)
  then obtain b where b: "is_free b boot_pmm" "\<forall>c. is_free c boot_pmm \<longrightarrow> b \<le> c"
    "unat (fst (pmm_alloc_block boot_pmm)) = b * 4096"
    using pmm_alloc_block_lowest [OF boot_pmm_inv(1)] by (auto split: prod.splits)
  have "b = 1024" using b(1) b(2) [rule_format, of 1024] by (simp add: boot_pmm_free)
  then show ?thesis using b(3) by (simp add: word_unat_eq_iff)
qed

text \<open>C23: \<open>pmm_alloc_blocks\<close> finds the first run of \<open>count\<close> free blocks, whatever the
  fragmentation, marks exactly that run and keeps the accounting; it fails only when the
  bitmap holds no such run (or \<open>count\<close> is 0), and then changes nothing.\<close>

theorem pmm_alloc_blocks_first_run:
  assumes "pmm_inv s"
  shows "case pmm_alloc_blocks count s of (a, t) \<Rightarrow>
    if count \<noteq> 0 \<and> (\<exists>b. free_run b (unat count) s)
    then \<exists>b. free_run b (unat count) s \<and> (\<forall>c. free_run c (unat count) s \<longrightarrow> b \<le> c)
         \<and> unat a = b * 4096 \<and> used_set t = {b..<b + unat count} \<union> used_set s
         \<and> total_blocks t = total_blocks s \<and> pmm_inv t
    else a = 0 \<and> t = s"
proof (cases "count = 0")
  case True
  then show ?thesis by (simp add: pmm_alloc_blocks_def)
next
  case False
  from assms False show ?thesis
  proof (cases rule: pmm_alloc_blocks_cases)
    case none
    then show ?thesis by auto
  next
    case (got b)
    have free: "\<forall>c \<in> set [b..<b + unat count]. is_free c s" using got(1) by (simp add: free_run_set)
    have bm: "b < MAX_BLOCKS" using got(3) unat_gt_0 [of count] False by linarith
    have "used_set (fold mark_used [b..<b + unat count] s) = {b..<b + unat count} \<union> used_set s"
      using free by (subst fold_mark_used_set) (auto simp: is_free_def)
    moreover have "pmm_inv (fold mark_used [b..<b + unat count] s)"
      by (rule fold_mark_inv [OF assms free]) simp
    moreover have "\<forall>c. free_run c (unat count) s \<longrightarrow> b \<le> c" using got(2) by blast
    ultimately have res: "\<exists>x. free_run x (unat count) s \<and> (\<forall>c. free_run c (unat count) s \<longrightarrow> x \<le> c)
         \<and> unat (of_nat b * PMM_BLOCK_SIZE) = x * 4096
         \<and> used_set (fold mark_used [b..<b + unat count] s) = {x..<x + unat count} \<union> used_set s
         \<and> total_blocks (fold mark_used [b..<b + unat count] s) = total_blocks s
         \<and> pmm_inv (fold mark_used [b..<b + unat count] s)"
      by (intro exI [of _ b] conjI got(1) unat_block_addr [OF bm] fold_mark_total) assumption+
    have cond: "count \<noteq> 0 \<and> (\<exists>b. free_run b (unat count) s)" using got(1) False by blast
    show ?thesis unfolding got(4) prod.case by (subst if_P [OF cond]) (rule res)
  qed
qed

lemma pmm_alloc_blocks_first_run_witness:
  "unat (fst (pmm_alloc_blocks 3 boot_pmm)) = 1024 * 4096"
proof -
  have all3: "(\<forall>k < 3. P k) \<longleftrightarrow> P 0 \<and> P 1 \<and> P 2" for P :: "nat \<Rightarrow> bool"
    by (auto simp: less_Suc_eq numeral_3_eq_3 numeral_2_eq_2)
  have run: "free_run b 3 boot_pmm \<longleftrightarrow> 1024 \<le> b \<and> b + 2 < 32768" for b
    unfolding free_run_def all3 boot_pmm_free by auto
  have "\<exists>b. free_run b 3 boot_pmm" by (auto simp: run)
  then obtain b where b: "free_run b 3 boot_pmm" "\<forall>c. free_run c 3 boot_pmm \<longrightarrow> b \<le> c"
    "unat (fst (pmm_alloc_blocks 3 boot_pmm)) = b * 4096"
    using pmm_alloc_blocks_first_run [OF boot_pmm_inv(1), of 3] by (auto split: prod.splits)
  have "b = 1024" using b(1) b(2) [rule_format, of 1024] by (simp add: run)
  then show ?thesis using b(3) by simp
qed

text \<open>Releasing what \<open>pmm_alloc_blocks\<close> handed out, with \<open>pmm_free_blocks\<close> and the same
  count, restores the allocator exactly: every bit, the counters and the size.\<close>

theorem pmm_alloc_free_blocks_roundtrip:
  assumes inv: "pmm_inv s" and run: "free_run b (unat count) s" and c: "count \<noteq> 0"
  shows "case pmm_alloc_blocks count s of (a, t) \<Rightarrow> pmm_free_blocks a count t = s"
  using inv c
proof (cases rule: pmm_alloc_blocks_cases)
  case none
  then show ?thesis using run by blast
next
  case (got b)
  let ?t = "fold mark_used [b..<b + unat count] s"
  let ?u = "pmm_free_blocks (of_nat b * PMM_BLOCK_SIZE) count ?t"
  have free: "\<forall>x \<in> set [b..<b + unat count]. is_free x s" using got(1) by (simp add: free_run_set)
  have tot: "b + unat count \<le> unat (total_blocks ?t)"
    using free c by (cases "unat count") (auto simp: is_free_def unat_eq_0)
  have test: "bitmap_test x ?u = bitmap_test x s" for x
    using pmm_free_blocks_test [OF got(3) tot] free
    by (auto simp: pmm_free_blocks_def fold_mark_test is_free_def)
  have ui: "pmm_inv ?u" using fold_mark_inv [OF inv free] by (intro pmm_free_blocks_inv) simp
  have "used_set ?u = used_set s" using test by (simp add: used_set_def)
  then have "used_blocks ?u = used_blocks s"
    using ui inv by (simp add: pmm_inv_def word_unat_eq_iff)
  then have "?u = s" using test by (intro pmm_eqI) simp_all
  then show ?thesis unfolding got(4) by simp
qed

lemma pmm_alloc_free_blocks_roundtrip_witness:
  "case pmm_alloc_blocks 5 boot_pmm of (a, t) \<Rightarrow> pmm_free_blocks a 5 t = boot_pmm"
  by (rule pmm_alloc_free_blocks_roundtrip [where b = 2000])
    (auto simp: boot_pmm_inv free_run_def boot_pmm_free)

text \<open>The calls other components make, in any order and with any arguments.\<close>

datatype pmm_call =
    Alloc_block | Free_block u32 | Alloc_blocks u32 | Free_blocks u32 u32 | Reserve_region u32 u32

fun pmm_do :: "pmm_call \<Rightarrow> pmm \<Rightarrow> pmm" where
  "pmm_do Alloc_block s = snd (pmm_alloc_block s)"
| "pmm_do (Free_block a) s = pmm_free_block a s"
| "pmm_do (Alloc_blocks n) s = snd (pmm_alloc_blocks n s)"
| "pmm_do (Free_blocks a n) s = pmm_free_blocks a n s"
| "pmm_do (Reserve_region a n) s = pmm_reserve_region a n s"

lemma pmm_do_inv: "pmm_inv s \<Longrightarrow> pmm_inv (pmm_do c s)"
  by (cases c) (auto intro: inv_intros)

lemma mark_fold_total [simp]: "total_blocks (fold (\<lambda>i. mark_used (f i)) xs s) = total_blocks s"
  by (induction xs arbitrary: s) auto

lemma pmm_do_total: "total_blocks (pmm_do c s) = total_blocks s"
proof (cases c)
  case (Reserve_region a n)
  have "total_blocks (fold (\<lambda>i s. let block = k + i in if block < unat (total_blocks s)
      \<and> \<not> bitmap_test block s then mark_used block s else s) xs s) = total_blocks s" for k xs
    by (induction xs arbitrary: s) (auto simp: Let_def)
  then show ?thesis using Reserve_region by (simp add: pmm_reserve_region_def Let_def)
qed (simp_all add: pmm_alloc_block_def pmm_alloc_blocks_def Let_def)

text \<open>C22: After boot with at least 4 MB, whatever calls are made in whatever order (double frees,
  foreign addresses and overlapping reservations among them), the counter equals the number of
  set bits and \<open>pmm_get_free_memory\<close> is 4096 times the number of free blocks.\<close>

theorem pmm_accounting:
  assumes "0x400000 \<le> unat mem_size"
  shows "let t = fold pmm_do cs (pmm_init mem_size s) in
    unat (used_blocks t) = card (used_set t)
    \<and> unat (pmm_get_free_memory t) = 4096 * card {b. is_free b t}"
proof -
  let ?t = "fold pmm_do cs (pmm_init mem_size s)"
  have inv: "pmm_inv ?t"
    by (rule fold_invariant) (auto intro: pmm_init_state(1) [OF assms] pmm_do_inv)
  have le: "card (used_set ?t) \<le> unat (total_blocks ?t)" by (rule card_used_set_le)
  have "{b. is_free b ?t} = {..<unat (total_blocks ?t)} - used_set ?t"
    by (auto simp: is_free_iff)
  moreover have "used_set ?t \<subseteq> {..<unat (total_blocks ?t)}" by (auto simp: used_set_def)
  ultimately have card: "card {b. is_free b ?t} = unat (total_blocks ?t) - card (used_set ?t)"
    by (simp add: card_Diff_subset)
  have diff: "unat (total_blocks ?t - used_blocks ?t) = card {b. is_free b ?t}"
    using inv le by (simp add: pmm_inv_def word_le_nat_alt card unat_sub)
  have "total_blocks (fold pmm_do cs u) = total_blocks u" for u
    by (induction cs arbitrary: u) (auto simp: pmm_do_total)
  then have "unat (total_blocks ?t) = unat mem_size div 4096"
    by (simp add: pmm_init_state [OF assms])
  also have "\<dots> < 1048576" using unat_lt_two_power_32 [of mem_size] by (simp add: less_mult_imp_div_less)
  finally have "4096 * card {b. is_free b ?t} < 4294967296" using card by simp
  then have "unat (pmm_get_free_memory ?t) = 4096 * card {b. is_free b ?t}"
    using diff by (simp only: pmm_get_free_memory_def unat_word_ariths) simp
  then show ?thesis using inv by (simp add: pmm_inv_def Let_def)
qed

lemma pmm_accounting_witness:
  "let t = fold pmm_do [Alloc_block, Free_block 0x123456, Alloc_blocks 7, Free_block 0x400000]
             (pmm_init 0x8000000 small_pmm) in
    unat (used_blocks t) = card (used_set t)
    \<and> unat (pmm_get_free_memory t) = 4096 * card {b. is_free b t}"
  by (rule pmm_accounting) simp

text \<open>Two divergences from the accounting at the edges. With less than 4 MB of memory
  \<open>pmm_init\<close> counts 1024 used blocks although fewer exist, and the free memory it reports
  wraps to almost 4 GB. A region within 4095 bytes of 4 GB makes the rounding up of
  \<open>pmm_reserve_region\<close> wrap: nothing is reserved.\<close>

theorem pmm_small_memory_and_huge_region:
  "pmm_get_free_memory (pmm_init 0x200000 s) = 0xFFE00000
   \<and> (0xFFFFF001 \<le> unat len \<longrightarrow> pmm_reserve_region start len s = s)"
proof (intro conjI impI)
  show "pmm_get_free_memory (pmm_init 0x200000 s) = 0xFFE00000"
    by (simp add: pmm_get_free_memory_def pmm_init_def Let_def fold_mark_used_blocks)
  assume a: "0xFFFFF001 \<le> unat len"
  have "unat (len + 4095) = (unat len + 4095) mod 4294967296" by (simp add: unat_word_ariths)
  also have "\<dots> = unat len + 4095 - 4294967296"
    using a unat_lt_two_power_32 [of len] by (subst le_mod_geq) (simp, rule mod_less, linarith)
  finally have "unat (len + 4095) < 4096" using unat_lt_two_power_32 [of len] a by linarith
  then have "unat (len + 4095) div unat PMM_BLOCK_SIZE = 0" by (simp add: div_less)
  then have "unat ((len + PMM_BLOCK_SIZE - 1) div PMM_BLOCK_SIZE) = 0"
    by (simp add: unat_div add.commute [of 4095])
  then show "pmm_reserve_region start len s = s" by (simp add: pmm_reserve_region_def Let_def)
qed

lemma pmm_small_memory_and_huge_region_witness:
  "pmm_get_free_memory (pmm_init 0x200000 small_pmm) = 0xFFE00000
   \<and> pmm_reserve_region 0 0xFFFFFFFF small_pmm = small_pmm"
  using pmm_small_memory_and_huge_region [of small_pmm "0xFFFFFFFF" 0] by simp

end
