(* ===== verification/KHeap.thy ===== *)
theory KHeap
  imports Interfaces
begin

text \<open>
  The kernel heap of \<^verbatim>\<open>kernel/memory.c\<close>: a singly linked list of block headers that
  live in the 1 MB arena at 2 MB, searched first fit, split on allocation and merged with
  the following block on release. The headers are a map from addresses to records; the
  header size is the 12 bytes \<^verbatim>\<open>sizeof(heap_block_t)\<close> has on the 32-bit target.
\<close>

section \<open>State and operations\<close>

abbreviation HEAP_START :: u32 where "HEAP_START \<equiv> 0x200000"
abbreviation HEAP_SIZE :: u32 where "HEAP_SIZE \<equiv> 0x100000"
abbreviation HDR :: u32 where "HDR \<equiv> 12"

record heap_block =
  hb_size :: u32
  hb_is_free :: bool
  hb_next :: ptr

record kheap =
  heap_head :: ptr
  heap_blocks :: "ptr \<Rightarrow> heap_block"

definition put_block :: "ptr \<Rightarrow> heap_block \<Rightarrow> kheap \<Rightarrow> kheap" where
  "put_block p b h = h\<lparr>heap_blocks := (heap_blocks h)(p := b)\<rparr>"

definition heap_init :: "kheap \<Rightarrow> kheap" where
  "heap_init h = put_block (heap_head h)
     \<lparr>hb_size = HEAP_SIZE - HDR, hb_is_free = True, hb_next = 0\<rparr> h"

text \<open>Taking the block the search stopped at: split off the rest when it is worth it.\<close>

definition take_block :: "u32 \<Rightarrow> ptr \<Rightarrow> kheap \<Rightarrow> kheap" where
  "take_block len current h =
     (let b = heap_blocks h current;
          h1 = (if len + HDR + 16 < hb_size b then
                  (let new_block = current + HDR + len;
                       h' = put_block new_block
                              \<lparr>hb_size = hb_size b - len - HDR, hb_is_free = True, hb_next = hb_next b\<rparr> h
                   in put_block current
                        ((heap_blocks h' current)\<lparr>hb_size := len, hb_next := new_block\<rparr>) h')
                else h)
      in put_block current ((heap_blocks h1 current)\<lparr>hb_is_free := False\<rparr>) h1)"

partial_function (option) kmalloc_walk :: "u32 \<Rightarrow> ptr \<Rightarrow> kheap \<Rightarrow> (ptr \<times> kheap) option" where
  "kmalloc_walk len current h =
     (if current = 0 then Some (0, h)
      else if hb_is_free (heap_blocks h current) \<and> len \<le> hb_size (heap_blocks h current)
      then Some (current + HDR, take_block len current h)
      else kmalloc_walk len (hb_next (heap_blocks h current)) h)"

definition align16 :: "u32 \<Rightarrow> u32" where
  "align16 len = (len + 15) AND NOT 15"

definition kmalloc :: "u32 \<Rightarrow> kheap \<Rightarrow> (ptr \<times> kheap) option" where
  "kmalloc len h = kmalloc_walk (align16 len) (heap_head h) h"

definition kfree :: "ptr \<Rightarrow> kheap \<Rightarrow> kheap" where
  "kfree p h =
     (if p = 0 then h
      else
        let block = p - HDR;
            h1 = put_block block ((heap_blocks h block)\<lparr>hb_is_free := True\<rparr>) h;
            b = heap_blocks h1 block;
            nb = heap_blocks h1 (hb_next b)
        in if hb_next b \<noteq> 0 \<and> hb_is_free nb
           then put_block block (b\<lparr>hb_size := hb_size b + (HDR + hb_size nb), hb_next := hb_next nb\<rparr>) h1
           else h1)"

section \<open>The arena as a sequence of blocks\<close>

text \<open>
  A block is its payload size and whether it is free. \<open>layout m a bs\<close> says that the
  headers from address \<open>a\<close> on are the blocks \<open>bs\<close>, side by side up to the end of the arena.
\<close>

type_synonym ablock = "nat \<times> bool"

abbreviation ARENA_START :: nat where "ARENA_START \<equiv> 0x200000"
abbreviation ARENA_END :: nat where "ARENA_END \<equiv> 0x300000"

fun layout :: "(ptr \<Rightarrow> heap_block) \<Rightarrow> nat \<Rightarrow> ablock list \<Rightarrow> bool" where
  "layout m a [] \<longleftrightarrow> a = ARENA_END"
| "layout m a ((n, f) # bs) \<longleftrightarrow>
     m (of_nat a) = \<lparr>hb_size = of_nat n, hb_is_free = f,
                     hb_next = (if bs = [] then 0 else of_nat (a + 12 + n))\<rparr>
     \<and> layout m (a + 12 + n) bs"

definition heap_inv :: "kheap \<Rightarrow> ablock list \<Rightarrow> bool" where
  "heap_inv h bs \<longleftrightarrow> heap_head h = HEAP_START \<and> bs \<noteq> [] \<and> layout (heap_blocks h) ARENA_START bs"

text \<open>The two operations on block sequences.\<close>

definition take_abs :: "nat \<Rightarrow> nat \<Rightarrow> ablock list" where
  "take_abs len n = (if len + 28 < n then [(len, False), (n - len - 12, True)] else [(n, False)])"

fun alloc_abs :: "nat \<Rightarrow> nat \<Rightarrow> ablock list \<Rightarrow> (nat \<times> ablock list) option" where
  "alloc_abs len a [] = None"
| "alloc_abs len a ((n, f) # bs) =
     (if f \<and> len \<le> n then Some (a + 12, take_abs len n @ bs)
      else map_option (\<lambda>(p, bs'). (p, (n, f) # bs')) (alloc_abs len (a + 12 + n) bs))"

definition merge_abs :: "nat \<Rightarrow> ablock list \<Rightarrow> ablock list" where
  "merge_abs n bs = (case bs of (m, True) # bs' \<Rightarrow> (n + (12 + m), True) # bs' | _ \<Rightarrow> (n, True) # bs)"

fun free_abs :: "nat \<Rightarrow> nat \<Rightarrow> ablock list \<Rightarrow> ablock list" where
  "free_abs p a [] = []"
| "free_abs p a ((n, f) # bs) =
     (if p = a + 12 then merge_abs n bs else (n, f) # free_abs p (a + 12 + n) bs)"

text \<open>The payloads in use: address and size of every allocated block.\<close>

fun live :: "nat \<Rightarrow> ablock list \<Rightarrow> (nat \<times> nat) set" where
  "live a [] = {}"
| "live a ((n, f) # bs) = (if f then {} else {(a + 12, n)}) \<union> live (a + 12 + n) bs"

fun span :: "nat \<Rightarrow> ablock list \<Rightarrow> nat" where
  "span a [] = a"
| "span a ((n, f) # bs) = span (a + 12 + n) bs"

lemma span_append [simp]: "span a (xs @ ys) = span (span a xs) ys"
  by (induction a xs rule: span.induct) auto

lemma span_ge: "a \<le> span a bs"
  by (induction a bs rule: span.induct) auto

lemma layout_span: "layout m a bs \<Longrightarrow> span a bs = ARENA_END"
  by (induction a bs rule: span.induct) auto

lemma layout_end: "layout m a bs \<Longrightarrow> a + 12 * length bs \<le> ARENA_END"
  by (induction a bs rule: span.induct) auto

lemma live_range: "(p, n) \<in> live a bs \<Longrightarrow> a + 12 \<le> p \<and> p + n \<le> span a bs"
proof (induction a bs rule: live.induct)
  case (1 a)
  then show ?case by simp
next
  case (2 a n f bs)
  then show ?case using span_ge [of "a + 12 + n" bs] by (fastforce split: if_splits)
qed

lemma live_append: "live a (xs @ ys) = live a xs \<union> live (span a xs) ys"
  by (induction a xs rule: live.induct) auto

lemma of_nat_arena_inj:
  assumes "a \<le> ARENA_END" "b \<le> ARENA_END" shows "(of_nat a :: u32) = of_nat b \<longleftrightarrow> a = b"
proof -
  have "unat (of_nat a :: u32) = a" "unat (of_nat b :: u32) = b"
    using assms by (simp_all add: unat_of_nat_u32)
  then show ?thesis by metis
qed

lemma layout_cong:
  assumes "layout m a bs" and "\<And>x. a \<le> x \<Longrightarrow> x < ARENA_END \<Longrightarrow> m' (of_nat x) = m (of_nat x)"
  shows "layout m' a bs"
  using assms
proof (induction m a bs rule: layout.induct)
  case (1 m a)
  then show ?case by simp
next
  case (2 m a n f bs)
  have "a < ARENA_END" using layout_end [OF 2(2)] by simp
  then show ?case using 2 by auto
qed

lemma layout_upd_below:
  assumes "layout m a bs" and "x < a"
  shows "layout (m(of_nat x := b)) a bs"
proof (rule layout_cong [OF assms(1)])
  fix y
  assume "a \<le> y" "y < ARENA_END"
  then show "(m(of_nat x := b)) (of_nat y) = m (of_nat y)"
    using assms(2) of_nat_arena_inj [of x y] by simp
qed

lemma align16_unat:
  assumes "unat len + 15 < 4294967296"
  shows "unat (align16 len) = (unat len + 15) div 16 * 16"
proof -
  have "(15 :: u32) = mask 4" by (simp add: mask_eq_exp_minus_1)
  then have "unat (align16 len) = unat (len + 15) div 16 * 16"
    using unat_and_not_mask [of "len + 15" 4] by (simp add: align16_def)
  also have "unat (len + 15) = unat len + 15" using assms by (simp add: unat_add_u32)
  finally show ?thesis .
qed

lemma take_block_split:
  assumes "len + HDR + 16 < hb_size (heap_blocks h c)" and "c \<noteq> c + HDR + len"
  shows "heap_blocks (take_block len c h) =
    (heap_blocks h)
      (c + HDR + len := \<lparr>hb_size = hb_size (heap_blocks h c) - len - HDR, hb_is_free = True,
                         hb_next = hb_next (heap_blocks h c)\<rparr>,
       c := \<lparr>hb_size = len, hb_is_free = False, hb_next = c + HDR + len\<rparr>)"
  using assms by (auto simp: take_block_def put_block_def Let_def fun_eq_iff)

lemma take_block_whole:
  assumes "\<not> len + HDR + 16 < hb_size (heap_blocks h c)"
  shows "heap_blocks (take_block len c h) = (heap_blocks h)(c := (heap_blocks h c)\<lparr>hb_is_free := False\<rparr>)"
  using assms by (simp add: take_block_def put_block_def)

lemma heap_head_frame [frame_simps, simp]:
  "heap_head (put_block p b h) = heap_head h" "heap_head (take_block len c h) = heap_head h"
  by (simp_all add: put_block_def take_block_def Let_def)

section \<open>The operations refine those on block sequences\<close>

lemma layout_head_bound: "layout m a ((n, f) # bs) \<Longrightarrow> a + 12 + n \<le> ARENA_END"
  using layout_end [of m "a + 12 + n" bs] by simp

lemma take_block_layout:
  assumes l: "layout (heap_blocks h) a ((n, f) # bs)" and len: "unat len \<le> n"
  shows "layout (heap_blocks (take_block len (of_nat a) h)) a (take_abs (unat len) n @ bs)"
proof -
  let ?c = "of_nat a :: u32"
  have bnd: "a + 12 + n \<le> ARENA_END" using l by (rule layout_head_bound)
  have b: "heap_blocks h ?c = \<lparr>hb_size = of_nat n, hb_is_free = f,
      hb_next = (if bs = [] then 0 else of_nat (a + 12 + n))\<rparr>"
    and rest: "layout (heap_blocks h) (a + 12 + n) bs" using l by simp_all
  have un: "unat (of_nat n :: u32) = n" using bnd by (simp add: unat_of_nat_u32)
  have "unat (len + HDR + 16) = unat len + 28"
    using unat_add_u32 [of len 28] len bnd by (simp add: add.assoc)
  then have cond: "len + HDR + 16 < of_nat n \<longleftrightarrow> unat len + 28 < n"
    by (simp add: word_less_nat_alt un)
  show ?thesis
  proof (cases "unat len + 28 < n")
    case False
    have "layout ((heap_blocks h)(?c := (heap_blocks h ?c)\<lparr>hb_is_free := False\<rparr>)) (a + 12 + n) bs"
      by (rule layout_upd_below [OF rest]) simp
    then show ?thesis using False cond b by (simp add: take_block_whole take_abs_def)
  next
    case True
    let ?nb = "a + 12 + unat len"
    have lenw: "len = of_nat (unat len)" by simp
    have nb: "?c + HDR + len = of_nat ?nb" by simp
    have ne: "?c \<noteq> ?c + HDR + len" unfolding nb using bnd len of_nat_arena_inj [of a ?nb] by simp
    have sz: "(of_nat n :: u32) - len - HDR = of_nat (n - unat len - 12)"
      using True by (simp add: of_nat_diff)
    have nxt: "?nb + 12 + (n - unat len - 12) = a + 12 + n" using True by simp
    let ?m = "(heap_blocks h)
       (of_nat ?nb := \<lparr>hb_size = of_nat (n - unat len - 12), hb_is_free = True,
                       hb_next = (if bs = [] then 0 else of_nat (a + 12 + n))\<rparr>)"
    let ?m' = "?m(?c := \<lparr>hb_size = len, hb_is_free = False, hb_next = of_nat ?nb\<rparr>)"
    have "len + HDR + 16 < hb_size (heap_blocks h ?c)" unfolding b using True cond by simp
    from take_block_split [OF this ne]
    have eq: "heap_blocks (take_block len ?c h) = ?m'"
      unfolding b heap_block.select_convs sz nb .
    have "layout ?m (a + 12 + n) bs"
      by (rule layout_upd_below [OF rest]) (use True in simp)
    then have 3: "layout ?m' (a + 12 + n) bs" by (rule layout_upd_below) simp
    have 1: "?m' ?c = \<lparr>hb_size = len, hb_is_free = False, hb_next = of_nat ?nb\<rparr>" by (rule fun_upd_same)
    have 2: "?m' (of_nat ?nb) = \<lparr>hb_size = of_nat (n - unat len - 12), hb_is_free = True,
                       hb_next = (if bs = [] then 0 else of_nat (a + 12 + n))\<rparr>"
      by (subst fun_upd_other [OF ne [unfolded nb, symmetric]]) (rule fun_upd_same)
    define M where "M = ?m'"
    have "layout M ?nb ((n - unat len - 12, True) # bs)"
      unfolding layout.simps nxt M_def using 2 3 by blast
    then have "layout M a ((unat len, False) # (n - unat len - 12, True) # bs)"
      using 1 unfolding M_def [symmetric] by simp
    then show ?thesis unfolding eq M_def [symmetric] using True by (simp add: take_abs_def)
  qed
qed

lemma take_block_frame:
  assumes "layout (heap_blocks h) a ((n, f) # bs)" and "unat len \<le> n" and "x < a"
  shows "heap_blocks (take_block len (of_nat a) h) (of_nat x) = heap_blocks h (of_nat x)"
proof -
  have bnd: "a + 12 + n \<le> ARENA_END" using assms(1) by (rule layout_head_bound)
  then have "(of_nat x :: u32) \<noteq> of_nat a" "(of_nat x :: u32) \<noteq> of_nat (a + 12 + unat len)"
    using assms(2,3) of_nat_arena_inj [of x a] of_nat_arena_inj [of x "a + 12 + unat len"] by simp_all
  then show ?thesis by (auto simp: take_block_def put_block_def Let_def add.assoc)
qed

lemma alloc_abs_nonempty: "alloc_abs L a bs = Some (p, bs') \<Longrightarrow> bs' \<noteq> []"
  by (cases bs) (auto simp: take_abs_def split: if_splits)

lemma kmalloc_walk_layout:
  assumes "layout (heap_blocks h) a bs" and "bs \<noteq> []" and "0 < a"
  shows "case alloc_abs (unat len) a bs of
      None \<Rightarrow> kmalloc_walk len (of_nat a) h = Some (0, h)
    | Some (p, bs') \<Rightarrow> \<exists>h'. kmalloc_walk len (of_nat a) h = Some (of_nat p, h')
        \<and> heap_head h' = heap_head h \<and> layout (heap_blocks h') a bs'
        \<and> (\<forall>x < a. heap_blocks h' (of_nat x) = heap_blocks h (of_nat x))"
  using assms
proof (induction bs arbitrary: a)
  case Nil
  then show ?case by simp
next
  case (Cons nf bs)
  obtain n f where nf: "nf = (n, f)" by (cases nf)
  note l = Cons.prems(1) [unfolded nf]
  let ?c = "of_nat a :: u32"
  have bnd: "a + 12 + n \<le> ARENA_END" using l by (rule layout_head_bound)
  have nz: "?c \<noteq> 0" using of_nat_arena_inj [of a 0] Cons.prems(3) bnd by simp
  have b: "heap_blocks h ?c = \<lparr>hb_size = of_nat n, hb_is_free = f,
      hb_next = (if bs = [] then 0 else of_nat (a + 12 + n))\<rparr>"
    and rest: "layout (heap_blocks h) (a + 12 + n) bs" using l by simp_all
  have un: "unat (of_nat n :: u32) = n" using bnd by (simp add: unat_of_nat_u32)
  then have fits: "len \<le> of_nat n \<longleftrightarrow> unat len \<le> n" by (simp add: word_le_nat_alt)
  show ?case
  proof (cases "f \<and> unat len \<le> n")
    case True
    have "kmalloc_walk len ?c h = Some (of_nat (a + 12), take_block len ?c h)"
      using True nz b fits by (subst kmalloc_walk.simps) (simp add: add.commute)
    then show ?thesis
      using True nf take_block_layout [OF l] take_block_frame [OF l] by simp
  next
    case False
    have step: "kmalloc_walk len ?c h =
        kmalloc_walk len (if bs = [] then 0 else of_nat (a + 12 + n)) h"
      using False nz b fits by (subst kmalloc_walk.simps) auto
    show ?thesis
    proof (cases "bs = []")
      case True
      have "kmalloc_walk len 0 h = Some (0, h)" by (subst kmalloc_walk.simps) simp
      then show ?thesis using True False nf step by auto
    next
      case ne: False
      show ?thesis
      proof (cases "alloc_abs (unat len) (a + 12 + n) bs")
        case None
        then show ?thesis using Cons.IH [OF rest ne] False nf step ne by (auto split: option.splits)
      next
        case (Some pb)
        obtain p bs' where pb: "pb = (p, bs')" by (cases pb)
        obtain h' where h': "kmalloc_walk len (of_nat (a + 12 + n)) h = Some (of_nat p, h')"
          "heap_head h' = heap_head h" "layout (heap_blocks h') (a + 12 + n) bs'"
          "\<forall>x < a + 12 + n. heap_blocks h' (of_nat x) = heap_blocks h (of_nat x)"
          using Cons.IH [OF rest ne] Some pb by auto
        have "bs' \<noteq> []" using Some pb by (auto dest: alloc_abs_nonempty)
        then have "layout (heap_blocks h') a ((n, f) # bs')"
          using h'(3,4) b ne by simp
        then show ?thesis using h' step Some pb nf False ne by auto
      qed
    qed
  qed
qed

lemma kfree_frame: "x \<noteq> p - HDR \<Longrightarrow> heap_blocks (kfree p h) x = heap_blocks h x"
  by (simp add: kfree_def put_block_def Let_def)

lemma kfree_head_frame [frame_simps, simp]: "heap_head (kfree p h) = heap_head h"
  by (simp add: kfree_def put_block_def Let_def)

lemma kfree_merge:
  assumes "p \<noteq> 0" and "heap_blocks h (p - HDR) = \<lparr>hb_size = n, hb_is_free = f, hb_next = d\<rparr>"
    and "heap_blocks h d = \<lparr>hb_size = m, hb_is_free = True, hb_next = e\<rparr>"
    and "d \<noteq> 0" "d \<noteq> p - HDR"
  shows "heap_blocks (kfree p h) =
    (heap_blocks h)(p - HDR := \<lparr>hb_size = n + (HDR + m), hb_is_free = True, hb_next = e\<rparr>)"
  using assms by (simp add: kfree_def put_block_def Let_def)

lemma kfree_keep:
  assumes "p \<noteq> 0" and "heap_blocks h (p - HDR) = \<lparr>hb_size = n, hb_is_free = f, hb_next = d\<rparr>"
    and "d = 0 \<or> d \<noteq> p - HDR \<and> \<not> hb_is_free (heap_blocks h d)"
  shows "heap_blocks (kfree p h) =
    (heap_blocks h)(p - HDR := \<lparr>hb_size = n, hb_is_free = True, hb_next = d\<rparr>)"
  using assms by (auto simp: kfree_def put_block_def Let_def)

lemma kfree_head_layout:
  assumes l: "layout (heap_blocks h) a ((n, f) # bs)" and a: "0 < a"
  shows "layout (heap_blocks (kfree (of_nat (a + 12)) h)) a (merge_abs n bs)"
proof -
  let ?c = "of_nat a :: u32"
  have bnd: "a + 12 + n \<le> ARENA_END" using l by (rule layout_head_bound)
  have p: "(of_nat (a + 12) :: u32) \<noteq> 0" using of_nat_arena_inj [of "a + 12" 0] bnd by simp
  have blk: "of_nat (a + 12) - HDR = ?c" by simp
  have b: "heap_blocks h ?c = \<lparr>hb_size = of_nat n, hb_is_free = f,
      hb_next = (if bs = [] then 0 else of_nat (a + 12 + n))\<rparr>"
    and rest: "layout (heap_blocks h) (a + 12 + n) bs" using l by simp_all
  have upd: "layout ((heap_blocks h)(?c := x)) (a + 12 + n) bs" for x
    by (rule layout_upd_below [OF rest]) simp
  show ?thesis
  proof (cases bs)
    case Nil
    have "heap_blocks (kfree (of_nat (a + 12)) h) =
        (heap_blocks h)(?c := \<lparr>hb_size = of_nat n, hb_is_free = True, hb_next = 0\<rparr>)"
      using kfree_keep [OF p, of h "of_nat n" f 0] b Nil unfolding blk by simp
    then show ?thesis using upd Nil by (simp add: merge_abs_def)
  next
    case (Cons mg bs')
    obtain m g where mg: "mg = (m, g)" by (cases mg)
    let ?d = "of_nat (a + 12 + n) :: u32"
    have l': "layout (heap_blocks h) (a + 12 + n) ((m, g) # bs')" using rest Cons mg by simp
    have bnd': "a + 12 + n + 12 + m \<le> ARENA_END" using l' by (rule layout_head_bound)
    have d0: "?d \<noteq> 0" using of_nat_arena_inj [of "a + 12 + n" 0] bnd by simp
    have dc: "?d \<noteq> ?c" using of_nat_arena_inj [of "a + 12 + n" a] bnd by simp
    have d: "heap_blocks h ?d = \<lparr>hb_size = of_nat m, hb_is_free = g,
        hb_next = (if bs' = [] then 0 else of_nat (a + 12 + n + 12 + m))\<rparr>"
      and rest': "layout (heap_blocks h) (a + 12 + n + 12 + m) bs'" using l' by simp_all
    have b': "heap_blocks h ?c = \<lparr>hb_size = of_nat n, hb_is_free = f, hb_next = ?d\<rparr>"
      using b Cons by simp
    show ?thesis
    proof (cases g)
      case True
      have sz: "(of_nat n :: u32) + (12 + of_nat m) = of_nat (n + (12 + m))" by simp
      have "heap_blocks (kfree (of_nat (a + 12)) h) = (heap_blocks h)
         (?c := \<lparr>hb_size = of_nat (n + (12 + m)), hb_is_free = True,
                 hb_next = (if bs' = [] then 0 else of_nat (a + 12 + n + 12 + m))\<rparr>)"
        unfolding sz [symmetric]
        by (rule kfree_merge [OF p _ _ d0, unfolded blk, OF b' _ dc]) (use d True in simp)
      moreover have "layout ((heap_blocks h)(?c := x)) (a + 12 + n + 12 + m) bs'" for x
        by (rule layout_upd_below [OF rest']) simp
      ultimately show ?thesis using Cons mg True by (simp add: merge_abs_def add_ac)
    next
      case False
      have "heap_blocks (kfree (of_nat (a + 12)) h) =
          (heap_blocks h)(?c := \<lparr>hb_size = of_nat n, hb_is_free = True, hb_next = ?d\<rparr>)"
        by (rule kfree_keep [OF p, unfolded blk, OF b']) (use dc d False in simp)
      moreover have "merge_abs n bs = (n, True) # bs" using Cons mg False by (simp add: merge_abs_def)
      ultimately show ?thesis using upd Cons by simp
    qed
  qed
qed

lemma merge_abs_nonempty [simp]: "merge_abs n bs \<noteq> []"
  by (simp add: merge_abs_def split: list.splits prod.splits bool.splits)

lemma free_abs_nonempty [simp]: "free_abs p a bs = [] \<longleftrightarrow> bs = []"
  by (cases bs) (auto split: if_splits)

lemma kfree_layout:
  assumes "layout (heap_blocks h) a bs" and "(p, k) \<in> live a bs" and "0 < a"
  shows "layout (heap_blocks (kfree (of_nat p) h)) a (free_abs p a bs)"
  using assms
proof (induction bs arbitrary: a)
  case Nil
  then show ?case by simp
next
  case (Cons nf bs)
  obtain n f where nf: "nf = (n, f)" by (cases nf)
  note l = Cons.prems(1) [unfolded nf]
  show ?case
  proof (cases "p = a + 12")
    case True
    then show ?thesis using kfree_head_layout [OF l Cons.prems(3)] nf by simp
  next
    case False
    then have p: "(p, k) \<in> live (a + 12 + n) bs" using Cons.prems(2) nf by (auto split: if_splits)
    have rest: "layout (heap_blocks h) (a + 12 + n) bs" using l by simp
    have ge: "a + 12 + n + 12 \<le> p" "p \<le> ARENA_END"
      using live_range [OF p] layout_span [OF rest] by simp_all
    have "(of_nat p - HDR :: u32) = of_nat (p - 12)" using ge by (simp add: of_nat_diff)
    then have "(of_nat a :: u32) \<noteq> of_nat p - HDR"
      using of_nat_arena_inj [of a "p - 12"] ge by simp
    then have "heap_blocks (kfree (of_nat p) h) (of_nat a) = heap_blocks h (of_nat a)"
      by (rule kfree_frame)
    moreover have "layout (heap_blocks (kfree (of_nat p) h)) (a + 12 + n) (free_abs p (a + 12 + n) bs)"
      using Cons.IH [OF rest p] by simp
    ultimately show ?thesis using l False nf by simp
  qed
qed

section \<open>Facts on block sequences\<close>

lemma alloc_abs_live:
  assumes "alloc_abs L a bs = Some (p, bs')"
  shows "\<exists>n \<ge> L. live a bs' = insert (p, n) (live a bs) \<and> a + 12 \<le> p \<and> p + n \<le> span a bs
    \<and> (\<forall>(q, k) \<in> live a bs. q + k + 12 \<le> p \<or> p + n + 12 \<le> q)"
  using assms
proof (induction bs arbitrary: a bs')
  case Nil
  then show ?case by simp
next
  case (Cons nf bs)
  obtain n f where nf: "nf = (n, f)" by (cases nf)
  show ?case
  proof (cases "f \<and> L \<le> n")
    case True
    then have p: "p = a + 12" "bs' = take_abs L n @ bs" using Cons.prems nf by auto
    let ?n = "if L + 28 < n then L else n"
    have "live a bs' = insert (p, ?n) (live a (nf # bs))"
      using True p nf by (auto simp: take_abs_def add_ac)
    moreover have "\<forall>(q, k) \<in> live a (nf # bs). q + k + 12 \<le> p \<or> p + ?n + 12 \<le> q"
      using True p nf by (auto dest: live_range)
    moreover have "p + ?n \<le> span a (nf # bs)"
      using p nf True span_ge [of "a + 12 + n" bs] by auto
    ultimately show ?thesis using True p by (intro exI [of _ ?n]) auto
  next
    case False
    then obtain bs'' where bs'': "alloc_abs L (a + 12 + n) bs = Some (p, bs'')" "bs' = (n, f) # bs''"
      using Cons.prems nf by auto
    obtain m where m: "L \<le> m" "live (a + 12 + n) bs'' = insert (p, m) (live (a + 12 + n) bs)"
      "a + 12 + n + 12 \<le> p" "p + m \<le> span (a + 12 + n) bs"
      "\<forall>(q, k) \<in> live (a + 12 + n) bs. q + k + 12 \<le> p \<or> p + m + 12 \<le> q"
      using Cons.IH [OF bs''(1)] by auto
    show ?thesis using m nf bs''(2) by (intro exI [of _ m]) auto
  qed
qed

lemma alloc_abs_None_iff: "alloc_abs L a bs = None \<longleftrightarrow> (\<forall>(n, f) \<in> set bs. f \<longrightarrow> n < L)"
  by (induction L a bs rule: alloc_abs.induct) auto

lemma live_merge: "live a (merge_abs n bs) = live (a + 12 + n) bs"
  by (auto simp: merge_abs_def add_ac split: list.splits prod.splits bool.splits)

lemma live_free_abs: "live a (free_abs p a bs) = {(q, k) \<in> live a bs. q \<noteq> p}"
proof (induction p a bs rule: free_abs.induct)
  case (1 p a)
  then show ?case by simp
next
  case (2 p a n f bs)
  then show ?case by (auto simp: live_merge dest: live_range)
qed

fun no_adjacent_free :: "ablock list \<Rightarrow> bool" where
  "no_adjacent_free ((_, f) # (m, g) # bs) = (\<not> (f \<and> g) \<and> no_adjacent_free ((m, g) # bs))"
| "no_adjacent_free _ = True"

lemma alloc_free_abs:
  assumes "no_adjacent_free bs" and "alloc_abs L a bs = Some (p, bs')"
  shows "free_abs p a bs' = bs"
  using assms
proof (induction bs arbitrary: a bs')
  case Nil
  then show ?case by simp
next
  case (Cons nf bs)
  obtain n f where nf: "nf = (n, f)" by (cases nf)
  have tl: "no_adjacent_free bs" using Cons.prems(1) nf by (cases bs) auto
  show ?case
  proof (cases "f \<and> L \<le> n")
    case True
    then have p: "p = a + 12" "bs' = take_abs L n @ bs" using Cons.prems nf by auto
    have "merge_abs n bs = (n, True) # bs"
      using Cons.prems(1) nf True by (auto simp: merge_abs_def split: list.splits bool.splits)
    then show ?thesis using True p nf by (auto simp: take_abs_def merge_abs_def)
  next
    case False
    then obtain bs'' where bs'': "alloc_abs L (a + 12 + n) bs = Some (p, bs'')" "bs' = (n, f) # bs''"
      using Cons.prems nf by auto
    have "a + 12 + n + 12 \<le> p" using alloc_abs_live [OF bs''(1)] by auto
    then show ?thesis using Cons.IH [OF tl bs''(1)] bs''(2) nf by simp
  qed
qed

lemma live_apart:
  "(q, j) \<in> live a bs \<Longrightarrow> (q', j') \<in> live a bs \<Longrightarrow>
    (q, j) = (q', j') \<or> q + j + 12 \<le> q' \<or> q' + j' + 12 \<le> q"
proof (induction a bs rule: live.induct)
  case (1 a)
  then show ?case by simp
next
  case (2 a n f bs)
  then show ?case by (auto dest: live_range split: if_splits)
qed

section \<open>The heap as an allocator\<close>

lemma kmalloc_refines:
  assumes "heap_inv h bs"
  shows "case alloc_abs (unat (align16 len)) ARENA_START bs of
      None \<Rightarrow> kmalloc len h = Some (0, h)
    | Some (p, bs') \<Rightarrow> \<exists>h'. kmalloc len h = Some (of_nat p, h') \<and> heap_inv h' bs'"
  using kmalloc_walk_layout [of h ARENA_START bs "align16 len"] assms
  by (auto simp: heap_inv_def kmalloc_def alloc_abs_nonempty split: option.splits)

lemma heap_alloc_new:
  assumes "heap_inv h bs" and "alloc_abs (unat (align16 len)) ARENA_START bs = Some (p, bs')"
  shows "\<exists>h' n. kmalloc len h = Some (of_nat p, h') \<and> heap_inv h' bs' \<and> unat (of_nat p :: u32) = p
    \<and> p \<noteq> 0 \<and> unat (align16 len) \<le> n \<and> live ARENA_START bs' = insert (p, n) (live ARENA_START bs)
    \<and> p + n \<le> ARENA_END \<and> (\<forall>(q, k) \<in> live ARENA_START bs. q + k + 12 \<le> p \<or> p + n + 12 \<le> q)"
proof -
  have "span ARENA_START bs = ARENA_END" using assms(1) layout_span by (auto simp: heap_inv_def)
  then obtain n where n: "unat (align16 len) \<le> n"
    "live ARENA_START bs' = insert (p, n) (live ARENA_START bs)" "ARENA_START + 12 \<le> p"
    "p + n \<le> ARENA_END" "\<forall>(q, k) \<in> live ARENA_START bs. q + k + 12 \<le> p \<or> p + n + 12 \<le> q"
    using alloc_abs_live [OF assms(2)] by auto
  then have "unat (of_nat p :: u32) = p" "p \<noteq> 0" by (simp_all add: unat_of_nat_u32)
  then show ?thesis using kmalloc_refines [OF assms(1), of len] assms(2) n by auto
qed

lemma align16_ge: "unat len < 2 ^ 32 - 15 \<Longrightarrow> unat len \<le> unat (align16 len)"
  using align16_unat [of len] by simp

lemma kfree_refines:
  assumes "heap_inv h bs" and "(p, k) \<in> live ARENA_START bs"
  shows "heap_inv (kfree (of_nat p) h) (free_abs p ARENA_START bs)"
  using assms kfree_layout [of h ARENA_START bs p k] by (auto simp: heap_inv_def)

lemma heap_live_range: "heap_inv h bs \<Longrightarrow> (q, j) \<in> live ARENA_START bs \<Longrightarrow> ARENA_START + 12 \<le> q \<and> q + j \<le> ARENA_END"
  using live_range [of q j ARENA_START bs] layout_span by (auto simp: heap_inv_def)

interpretation heap: heap_allocator kmalloc kfree heap_inv "live ARENA_START"
proof unfold_locales
  fix h bs len
  assume inv: "heap_inv h bs"
  show "\<exists>p h' bs'. kmalloc len h = Some (p, h') \<and> heap_inv h' bs' \<and>
      (if p = 0 then h' = h \<and> bs' = bs
       else \<exists>k. live ARENA_START bs' = insert (unat p, k) (live ARENA_START bs)
         \<and> (unat len < 2 ^ 32 - 15 \<longrightarrow> unat len \<le> k)
         \<and> (\<forall>(q, j) \<in> live ARENA_START bs. q + j < unat p \<or> unat p + k < q))"
  proof (cases "alloc_abs (unat (align16 len)) ARENA_START bs")
    case None
    then show ?thesis using kmalloc_refines [OF inv, of len] inv by auto
  next
    case (Some pb)
    obtain p bs' where pb: "pb = (p, bs')" by (cases pb)
    obtain h' n where r: "kmalloc len h = Some (of_nat p, h')" "heap_inv h' bs'"
        "unat (of_nat p :: u32) = p" "p \<noteq> 0" "unat (align16 len) \<le> n"
        "live ARENA_START bs' = insert (p, n) (live ARENA_START bs)"
        "\<forall>(q, k) \<in> live ARENA_START bs. q + k + 12 \<le> p \<or> p + n + 12 \<le> q"
      using heap_alloc_new [OF inv Some [unfolded pb]] by blast
    have ge: "unat len < 2 ^ 32 - 15 \<longrightarrow> unat len \<le> n"
      using align16_ge [of len] r(5) by linarith
    have nz: "(of_nat p :: u32) \<noteq> 0" using r(3,4) by (metis unat_0)
    have apart: "\<forall>(q, j) \<in> live ARENA_START bs. q + j < p \<or> p + n < q" using r(7) by fastforce
    show ?thesis
      by (rule exI [of _ "of_nat p"], rule exI [of _ h'], rule exI [of _ bs'])
        (use r(1,2,6) ge nz apart in \<open>unfold r(3), auto\<close>)
  qed
next
  fix h bs and p :: ptr and k
  assume a: "heap_inv h bs" "(unat p, k) \<in> live ARENA_START bs"
  show "\<exists>bs'. heap_inv (kfree p h) bs' \<and> live ARENA_START bs' = {(q, j) \<in> live ARENA_START bs. q \<noteq> unat p}"
    using kfree_refines [OF a] live_free_abs [of ARENA_START "unat p" bs] by auto
next
  fix h bs q j
  assume "heap_inv h bs" "(q, j) \<in> live ARENA_START bs"
  then show "0 < q \<and> q < 2 ^ 32" using heap_live_range [of h bs q j] by simp
next
  fix h bs q j q' j'
  assume "heap_inv h bs" "(q, j) \<in> live ARENA_START bs" "(q', j') \<in> live ARENA_START bs"
  then show "(q, j) = (q', j') \<or> q + j < q' \<or> q' + j' < q" using live_apart by fastforce
qed

section \<open>Properties\<close>

definition boot_kheap :: "(ptr \<Rightarrow> heap_block) \<Rightarrow> kheap" where
  "boot_kheap m = heap_init \<lparr>heap_head = HEAP_START, heap_blocks = m\<rparr>"

lemma boot_kheap_inv: "heap_inv (boot_kheap m) [(0xFFFF4, True)]"
  by (simp add: heap_inv_def boot_kheap_def heap_init_def put_block_def)

lemma boot_kmalloc:
  assumes "unat (align16 len) \<le> 0xFFFF4" and "kmalloc len (boot_kheap m) = Some (p, h)" shows "p \<noteq> 0"
  using kmalloc_refines [OF boot_kheap_inv, of len m] assms heap_alloc_new [OF boot_kheap_inv, of len]
  by (fastforce split: option.splits if_splits)

text \<open>C17: \<^verbatim>\<open>kmalloc\<close> always returns on a well-formed arena. It answers NULL exactly when no free
  block is as large as the request rounded up to 16, and then changes nothing. Otherwise
  the payload it returns lies inside the arena, is at least the rounded size, and is apart
  (with room for a header) from every payload in use; the payloads in use afterwards are
  those before and the new one, and the arena is still a partition into blocks.\<close>

theorem kmalloc_first_fit:
  assumes "heap_inv h bs"
  shows "\<exists>p h'. kmalloc len h = Some (p, h') \<and>
    (p = 0 \<longleftrightarrow> (\<forall>(n, f) \<in> set bs. f \<longrightarrow> n < unat (align16 len))) \<and>
    (p = 0 \<longrightarrow> h' = h) \<and>
    (p \<noteq> 0 \<longrightarrow> (\<exists>bs' n. heap_inv h' bs' \<and> unat (align16 len) \<le> n \<and>
       live ARENA_START bs' = insert (unat p, n) (live ARENA_START bs) \<and>
       unat p + n \<le> ARENA_END \<and>
       (\<forall>(q, k) \<in> live ARENA_START bs. q + k + 12 \<le> unat p \<or> unat p + n + 12 \<le> q)))"
proof (cases "alloc_abs (unat (align16 len)) ARENA_START bs")
  case None
  then show ?thesis
    using kmalloc_refines [OF assms, of len] alloc_abs_None_iff [of "unat (align16 len)" ARENA_START bs] by simp
next
  case (Some pb)
  obtain p bs' where pb: "pb = (p, bs')" by (cases pb)
  obtain h' n where r: "kmalloc len h = Some (of_nat p, h')" "unat (of_nat p :: u32) = p" "p \<noteq> 0"
    "heap_inv h' bs' \<and> unat (align16 len) \<le> n \<and>
       live ARENA_START bs' = insert (p, n) (live ARENA_START bs) \<and> p + n \<le> ARENA_END \<and>
       (\<forall>(q, k) \<in> live ARENA_START bs. q + k + 12 \<le> p \<or> p + n + 12 \<le> q)"
    using heap_alloc_new [OF assms Some [unfolded pb]] by blast
  have nz: "(of_nat p :: u32) \<noteq> 0" using r(2,3) by (metis unat_0)
  have "\<not> (\<forall>(n, f) \<in> set bs. f \<longrightarrow> n < unat (align16 len))"
    using alloc_abs_None_iff [of "unat (align16 len)" ARENA_START bs] Some by simp
  then show ?thesis
    by (intro exI [of _ "of_nat p"] exI [of _ h'] conjI impI)
      (use r nz in \<open>auto simp del: of_nat_eq_0_iff\<close>)
qed

theorem kmalloc_first_fit_witness:
  "\<forall>m. \<exists>p h'. kmalloc 100 (boot_kheap m) = Some (p, h') \<and> p \<noteq> 0"
proof
  fix m
  show "\<exists>p h'. kmalloc 100 (boot_kheap m) = Some (p, h') \<and> p \<noteq> 0"
    using kmalloc_first_fit [OF boot_kheap_inv, of 100 m] by (auto simp: align16_def)
qed

text \<open>Releasing what was just allocated undoes the allocation: when no two free blocks are
  neighbours, \<^verbatim>\<open>kfree\<close> of the pointer \<^verbatim>\<open>kmalloc\<close> returned gives back the same partition of
  the arena, whether the block had been split or not.\<close>

theorem kmalloc_kfree_roundtrip:
  assumes "heap_inv h bs" and "no_adjacent_free bs"
    and "kmalloc len h = Some (p, h')" and "p \<noteq> 0"
  shows "heap_inv (kfree p h') bs"
proof -
  obtain q bs' where q: "alloc_abs (unat (align16 len)) ARENA_START bs = Some (q, bs')"
    using kmalloc_refines [OF assms(1), of len] assms(3,4) by (fastforce split: option.splits)
  obtain n where p: "p = of_nat q" "heap_inv h' bs'"
    "live ARENA_START bs' = insert (q, n) (live ARENA_START bs)"
    using heap_alloc_new [OF assms(1) q] assms(3) by auto
  then have "heap_inv (kfree p h') (free_abs q ARENA_START bs')"
    using kfree_refines [of h' bs' q n] by simp
  then show ?thesis by (simp add: alloc_free_abs [OF assms(2) q])
qed

theorem kmalloc_kfree_roundtrip_witness:
  "\<forall>m. \<exists>p h'. kmalloc 100 (boot_kheap m) = Some (p, h') \<and> p \<noteq> 0
    \<and> heap_inv (kfree p h') [(0xFFFF4, True)]"
proof
  fix m
  have "alloc_abs (unat (align16 100)) ARENA_START [(0xFFFF4, True)] = Some (0x20000C, [(112, False), (0xFFF78, True)])"
    by (simp add: align16_def take_abs_def)
  from heap_alloc_new [OF boot_kheap_inv this, of m]
  obtain h' where h': "kmalloc 100 (boot_kheap m) = Some (0x20000C, h')" by auto
  show "\<exists>p h'. kmalloc 100 (boot_kheap m) = Some (p, h') \<and> p \<noteq> 0 \<and> heap_inv (kfree p h') [(0xFFFF4, True)]"
    using kmalloc_kfree_roundtrip [OF boot_kheap_inv _ h'] h' by auto
qed

text \<open>C26: From the heap \<^verbatim>\<open>heap_init\<close> sets up, every sequence of \<^verbatim>\<open>kmalloc\<close> calls, with any sizes,
  and of \<^verbatim>\<open>kfree\<close> calls on pointers that are held, returns; the arena stays a partition
  into blocks, and the blocks in use are exactly those whose pointers are held.\<close>

theorem heap_calls_total:
  "\<exists>ps h bs. run_heap kmalloc kfree cs ({}, boot_kheap m) = Some (ps, h)
     \<and> heap_inv h bs \<and> unat ` ps = fst ` live ARENA_START bs"
  by (rule heap.run_total [OF boot_kheap_inv]) simp

text \<open>Rounding the request up wraps around: a request of more than 4294967280 bytes is the
  request of 0 bytes, and on a fresh heap it succeeds with a block of size 0.\<close>

theorem kmalloc_huge_request:
  assumes "0xFFFFFFF0 < len"
  shows "kmalloc len h = kmalloc 0 h \<and>
    (\<exists>h'. kmalloc len (boot_kheap m) = Some (HEAP_START + HDR, h')
      \<and> heap_inv h' [(0, False), (0xFFFE8, True)])"
proof -
  have ge: "4294967296 \<le> unat len + 15" using assms by (simp add: word_less_nat_alt)
  have "unat (len + 15) = (unat len + 15) mod 4294967296" by (simp add: unat_word_ariths)
  also have "\<dots> = (unat len + 15 - 4294967296) mod 4294967296" by (rule le_mod_geq [OF ge])
  also have "\<dots> = unat len + 15 - 4294967296" using unat_lt_two_power_32 [of len] by (intro mod_less) linarith
  finally have "unat (len + 15) = unat len + 15 - 4294967296" .
  then have "unat (len + 15) div 16 = 0" using unat_lt_two_power_32 [of len] by linarith
  moreover have "(15 :: u32) = mask 4" by (simp add: mask_eq_exp_minus_1)
  ultimately have "unat (align16 len) = 0"
    using unat_and_not_mask [of "len + 15" 4] by (simp add: align16_def)
  then have z: "align16 len = 0" by (simp add: unat_eq_0)
  have "kmalloc len h = kmalloc 0 h" by (simp add: kmalloc_def z) (simp add: align16_def)
  moreover have "\<exists>h'. kmalloc len (boot_kheap m) = Some (HEAP_START + HDR, h')
      \<and> heap_inv h' [(0, False), (0xFFFE8, True)]"
    using kmalloc_refines [OF boot_kheap_inv, of len m] by (simp add: z take_abs_def)
  ultimately show ?thesis ..
qed

theorem kmalloc_huge_request_witness:
  "\<forall>h m. kmalloc 0xFFFFFFFF h = kmalloc 0 h \<and> (\<exists>h'. kmalloc 0xFFFFFFFF (boot_kheap m) = Some (0x20000C, h'))"
proof (intro allI)
  fix h m
  show "kmalloc 0xFFFFFFFF h = kmalloc 0 h \<and> (\<exists>h'. kmalloc 0xFFFFFFFF (boot_kheap m) = Some (0x20000C, h'))"
    using kmalloc_huge_request [of "0xFFFFFFFF" h m] by auto
qed

end
