(* ===== verification/CString.thy ===== *)
theory CString
  imports Prelude
begin

text \<open>
  Byte memory and \<^verbatim>\<open>kernel/string.c\<close>. A memory maps every 32-bit address to a byte;
  addresses wrap around. Words are little endian, as on the target. The routines are the
  byte loops of the source, every iteration reading the memory the previous one left, so
  overlapping buffers behave as they do in the program. A loop that scans for a terminator
  is a partial function: \<open>None\<close> is a scan that never ends.
\<close>

section \<open>Memory\<close>

type_synonym mem = "u32 \<Rightarrow> u8"

definition load16 :: "mem \<Rightarrow> u32 \<Rightarrow> u16" where
  "load16 m a = ucast (m a) OR push_bit 8 (ucast (m (a + 1)))"

definition store16 :: "u32 \<Rightarrow> u16 \<Rightarrow> mem \<Rightarrow> mem" where
  "store16 a v m = m(a := ucast v, a + 1 := ucast (drop_bit 8 v))"

definition load32 :: "mem \<Rightarrow> u32 \<Rightarrow> u32" where
  "load32 m a = ucast (m a) OR push_bit 8 (ucast (m (a + 1)))
     OR push_bit 16 (ucast (m (a + 2))) OR push_bit 24 (ucast (m (a + 3)))"

definition store32 :: "u32 \<Rightarrow> u32 \<Rightarrow> mem \<Rightarrow> mem" where
  "store32 a v m = m(a := ucast v, a + 1 := ucast (drop_bit 8 v),
     a + 2 := ucast (drop_bit 16 v), a + 3 := ucast (drop_bit 24 v))"

section \<open>The routines of string.c\<close>

fun memset_loop :: "nat \<Rightarrow> ptr \<Rightarrow> u8 \<Rightarrow> mem \<Rightarrow> mem" where
  "memset_loop 0 p v m = m"
| "memset_loop (Suc n) p v m = memset_loop n (p + 1) v (m(p := v))"

definition memset :: "ptr \<Rightarrow> u32 \<Rightarrow> u32 \<Rightarrow> mem \<Rightarrow> mem" where
  "memset p value num m = memset_loop (unat num) p (ucast value) m"

fun memcpy_loop :: "nat \<Rightarrow> ptr \<Rightarrow> ptr \<Rightarrow> mem \<Rightarrow> mem" where
  "memcpy_loop 0 d s m = m"
| "memcpy_loop (Suc n) d s m = memcpy_loop n (d + 1) (s + 1) (m(d := m s))"

definition memcpy :: "ptr \<Rightarrow> ptr \<Rightarrow> u32 \<Rightarrow> mem \<Rightarrow> mem" where
  "memcpy dest src num m = memcpy_loop (unat num) dest src m"

partial_function (option) strlen_loop :: "mem \<Rightarrow> ptr \<Rightarrow> u32 \<Rightarrow> u32 option" where
  "strlen_loop m str len = (if m (str + len) = 0 then Some len else strlen_loop m str (len + 1))"

definition strlen :: "mem \<Rightarrow> ptr \<Rightarrow> u32 option" where
  "strlen m str = strlen_loop m str 0"

partial_function (option) strcmp :: "mem \<Rightarrow> ptr \<Rightarrow> ptr \<Rightarrow> int option" where
  "strcmp m str1 str2 =
     (if m str1 \<noteq> 0 \<and> m str1 = m str2 then strcmp m (str1 + 1) (str2 + 1)
      else Some (uint (m str1) - uint (m str2)))"

fun strncmp_loop :: "nat \<Rightarrow> mem \<Rightarrow> ptr \<Rightarrow> ptr \<Rightarrow> int" where
  "strncmp_loop 0 m str1 str2 = 0"
| "strncmp_loop (Suc n) m str1 str2 =
     (if m str1 \<noteq> 0 \<and> m str1 = m str2 then strncmp_loop n m (str1 + 1) (str2 + 1)
      else uint (m str1) - uint (m str2))"

definition strncmp :: "mem \<Rightarrow> ptr \<Rightarrow> ptr \<Rightarrow> u32 \<Rightarrow> int" where
  "strncmp m str1 str2 n = strncmp_loop (unat n) m str1 str2"

partial_function (option) strcpy :: "ptr \<Rightarrow> ptr \<Rightarrow> mem \<Rightarrow> mem option" where
  "strcpy dest src m =
     (if m src = 0 then Some (m(dest := 0))
      else strcpy (dest + 1) (src + 1) (m(dest := m src)))"

fun strncpy_loop :: "nat \<Rightarrow> ptr \<Rightarrow> ptr \<Rightarrow> mem \<Rightarrow> mem" where
  "strncpy_loop 0 dest src m = m"
| "strncpy_loop (Suc n) dest src m =
     (if m src \<noteq> 0 then strncpy_loop n (dest + 1) (src + 1) (m(dest := m src))
      else memset_loop (Suc n) dest 0 m)"

definition strncpy :: "ptr \<Rightarrow> ptr \<Rightarrow> u32 \<Rightarrow> mem \<Rightarrow> mem" where
  "strncpy dest src n m = strncpy_loop (unat n) dest src m"

partial_function (option) strend :: "mem \<Rightarrow> ptr \<Rightarrow> ptr option" where
  "strend m dest = (if m dest = 0 then Some dest else strend m (dest + 1))"

definition strcat :: "ptr \<Rightarrow> ptr \<Rightarrow> mem \<Rightarrow> mem option" where
  "strcat dest src m = Option.bind (strend m dest) (\<lambda>e. strcpy e src m)"

section \<open>Words in memory\<close>

lemma load16_store16 [simp]: "load16 (store16 a v m) a = v"
  by (rule bit_word_eqI) (auto simp: load16_def store16_def bit_simps not_less)

lemma add_small_neq [simp]: "(a :: u32) + 1 \<noteq> a" "a + 2 \<noteq> a" "a + 3 \<noteq> a"
  "a + 1 \<noteq> a + 2" "a + 1 \<noteq> a + 3" "a + 2 \<noteq> a + 3"
  by simp_all

lemma load32_store32 [simp]: "load32 (store32 a v m) a = v"
proof (rule bit_word_eqI)
  fix n
  assume n: "n < LENGTH(32)"
  consider "n < 8" | "8 \<le> n \<and> n < 16" | "16 \<le> n \<and> n < 24" | "24 \<le> n" by linarith
  then show "bit (load32 (store32 a v m) a) n = bit v n"
    using n by cases (auto simp: load32_def store32_def bit_simps)
qed

text \<open>Two words at distinct multiples of four do not share a byte.\<close>

lemma aligned_add_unat:
  assumes "4 dvd unat (a :: u32)" and "i < 4"
  shows "unat (a + of_nat i) = unat a + i"
proof -
  obtain k where k: "unat a = 4 * k" using assms(1) by (elim dvdE)
  then have "4 * k < 4294967296" using unat_lt_two_power_32 [of a] by simp
  then have "unat a + i < 4294967296" using k assms(2) by presburger
  then show ?thesis using assms(2) by (subst unat_add_u32) (simp_all add: unat_of_nat_u32)
qed

lemma aligned_neq:
  assumes "4 dvd unat (a :: u32)" "4 dvd unat (b :: u32)" "a \<noteq> b" "i < 4" "j < 4"
  shows "a + of_nat i \<noteq> b + of_nat j"
proof
  assume "a + of_nat i = b + of_nat j"
  then have "unat a + i = unat b + j"
    using aligned_add_unat [OF assms(1,4)] aligned_add_unat [OF assms(2,5)] by metis
  then have "unat a = unat b" using assms(1,2,4,5) by (auto elim!: dvdE)
  then show False using assms(3) by (simp add: word_unat_eq_iff)
qed

lemma load32_store32_other [simp]:
  assumes "4 dvd unat a" "4 dvd unat b" "a \<noteq> b"
  shows "load32 (store32 a v m) b = load32 m b"
proof -
  note N = aligned_neq [OF assms(2,1) assms(3) [symmetric]]
  from N [of 0 0] N [of 0 1] N [of 0 2] N [of 0 3] N [of 1 0] N [of 1 1] N [of 1 2] N [of 1 3]
    N [of 2 0] N [of 2 1] N [of 2 2] N [of 2 3] N [of 3 0] N [of 3 1] N [of 3 2] N [of 3 3]
  show ?thesis by (simp add: load32_def store32_def)
qed

lemma load32_cong:
  assumes "m' a = m a" "m' (a + 1) = m (a + 1)" "m' (a + 2) = m (a + 2)" "m' (a + 3) = m (a + 3)"
  shows "load32 m' a = load32 m a"
  using assms by (simp add: load32_def)

section \<open>Fills and copies\<close>

text \<open>
  An address is among the \<open>n\<close> addresses from \<open>p\<close> on, which may wrap around, when its
  distance from \<open>p\<close> is below \<open>n\<close>.
\<close>

lemma minus_one_unat: "unat ((p :: u32) - (p + 1)) = 4294967295"
proof -
  have "p - (p + 1) = 0xFFFFFFFF" by simp
  then show ?thesis by (simp only: unat_numeral) simp
qed

lemma in_range_step:
  fixes a p :: u32
  assumes "a \<noteq> p" shows "unat (a - (p + 1)) < n \<longleftrightarrow> unat (a - p) < Suc n"
proof -
  have "a - p \<noteq> 0" using assms by simp
  then have "0 < unat (a - p)" by (simp add: unat_gt_0)
  moreover have "unat (a - p - 1) = unat (a - p) - 1"
    using \<open>a - p \<noteq> 0\<close> by (simp add: unat_minus_one)
  ultimately show ?thesis by (simp add: diff_diff_eq [symmetric]) linarith
qed

lemma memset_loop_apply:
  "n < 4294967296 \<Longrightarrow> memset_loop n p v m a = (if unat (a - p) < n then v else m a)"
proof (induction n arbitrary: p m)
  case 0
  then show ?case by simp
next
  case (Suc n)
  show ?case
  proof (cases "a = p")
    case True
    have "\<not> unat (p - (p + 1)) < n"
    proof -
      have "unat (p - (p + 1)) = 4294967295" by (simp only: minus_one_unat)
      then show ?thesis using Suc.prems by simp
    qed
    then show ?thesis using True Suc by simp
  next
    case False
    then show ?thesis using Suc in_range_step [OF False, of n] by simp
  qed
qed

lemma in_range_nat:
  fixes a p :: u32
  assumes "unat p + n \<le> 4294967296"
  shows "unat (a - p) < n \<longleftrightarrow> unat p \<le> unat a \<and> unat a < unat p + n"
proof (cases "p \<le> a")
  case True
  then show ?thesis by (auto simp: unat_diff_u32 word_le_nat_alt)
next
  case False
  then have lt: "unat a < unat p" by (simp add: word_le_nat_alt)
  have "a - p = - of_nat (unat p - unat a)" using lt by (simp add: of_nat_diff)
  then have "unat (a - p) = 4294967296 - (unat p - unat a)"
    using lt unat_lt_two_power_32 [of p] by (simp only: unat_neg_of_nat_u32)
  then show ?thesis using lt assms by auto
qed

lemma memset_apply: "memset p v n m a = (if unat (a - p) < unat n then ucast v else m a)"
  by (simp add: memset_def memset_loop_apply)

text \<open>Copying forward is right unless the destination starts inside the source.\<close>

lemma memcpy_loop_apply:
  assumes "n < 4294967296" and "d = s \<or> n \<le> unat (d - s)"
  shows "memcpy_loop n d s m a = (if unat (a - d) < n then m (s + (a - d)) else m a)"
  using assms
proof (induction n arbitrary: d s m)
  case 0
  then show ?case by simp
next
  case (Suc n)
  have shift: "d + 1 - (s + 1) = d - s" by simp
  have IH: "memcpy_loop n (d + 1) (s + 1) (m(d := m s)) a =
      (if unat (a - (d + 1)) < n then (m(d := m s)) (s + 1 + (a - (d + 1))) else (m(d := m s)) a)"
    using Suc.prems by (intro Suc.IH) (auto simp: shift)
  show ?case
  proof (cases "a = d")
    case True
    have "unat (d - (d + 1)) = 4294967295" by (simp only: minus_one_unat)
    then have "\<not> unat (a - (d + 1)) < n" using Suc.prems True by simp
    then show ?thesis using IH True by simp
  next
    case False
    have src: "s + 1 + (a - (d + 1)) = s + (a - d)" by simp
    have "(m(d := m s)) (s + (a - d)) = m (s + (a - d))" if lt: "unat (a - d) < Suc n"
    proof (cases "d = s")
      case True
      then show ?thesis by simp
    next
      case ne: False
      have "s + (a - d) \<noteq> d"
      proof
        assume "s + (a - d) = d"
        then have "a - d = d - s" by (metis add_diff_cancel_left')
        then show False using lt Suc.prems(2) ne by simp
      qed
      then show ?thesis by simp
    qed
    then show ?thesis using IH False in_range_step [OF False, of n] by (simp add: src)
  qed
qed

lemma memcpy_apply:
  assumes "d = s \<or> unat n \<le> unat (d - s)"
  shows "memcpy d s n m a = (if unat (a - d) < unat n then m (s + (a - d)) else m a)"
  using assms by (simp add: memcpy_def memcpy_loop_apply)

section \<open>Strings\<close>

text \<open>\<open>cstr m p bs\<close>: the bytes from \<open>p\<close> on are the string \<open>bs\<close> and its terminator.\<close>

fun cstr :: "mem \<Rightarrow> ptr \<Rightarrow> u8 list \<Rightarrow> bool" where
  "cstr m p [] \<longleftrightarrow> m p = 0"
| "cstr m p (b # bs) \<longleftrightarrow> b \<noteq> 0 \<and> m p = b \<and> cstr m (p + 1) bs"

lemma cstr_cong:
  assumes "\<And>a. unat (a - p) \<le> length bs \<Longrightarrow> m' a = m a" and "length bs < 4294967295"
  shows "cstr m' p bs = cstr m p bs"
  using assms
proof (induction bs arbitrary: p)
  case Nil
  then show ?case by simp
next
  case (Cons b bs)
  have "cstr m' (p + 1) bs = cstr m (p + 1) bs"
  proof (rule Cons.IH)
    fix a
    assume a: "unat (a - (p + 1)) \<le> length bs"
    show "m' a = m a"
    proof (cases "a = p")
      case True
      then show ?thesis using a Cons.prems(2) by (simp add: minus_one_unat)
    next
      case False
      then show ?thesis
        using a in_range_step [OF False, of "Suc (length bs)"] Cons.prems(1) [of a] by simp
    qed
  qed (use Cons.prems in simp)
  then show ?case using Cons.prems(1) [of p] by simp
qed

lemma cstr_upd:
  assumes "length bs < unat (a - p)" and "length bs < 4294967295"
  shows "cstr (m(a := x)) p bs = cstr m p bs"
  using assms by (intro cstr_cong) auto

lemma strlen_loop_cstr:
  "cstr m (str + len) bs \<Longrightarrow> strlen_loop m str len = Some (len + of_nat (length bs))"
proof (induction bs arbitrary: len)
  case Nil
  then show ?case by (subst strlen_loop.simps) simp
next
  case (Cons b bs)
  then have "strlen_loop m str (len + 1) = Some (len + 1 + of_nat (length bs))"
    by (simp add: add.assoc)
  then show ?case using Cons.prems by (subst strlen_loop.simps) (simp add: add.assoc)
qed

fun byte_cmp :: "u8 list \<Rightarrow> u8 list \<Rightarrow> int" where
  "byte_cmp [] [] = 0"
| "byte_cmp [] (b # bs) = - uint b"
| "byte_cmp (a # as) [] = uint a"
| "byte_cmp (a # as) (b # bs) = (if a = b then byte_cmp as bs else uint a - uint b)"

lemma strcmp_cstr: "cstr m p as \<Longrightarrow> cstr m q bs \<Longrightarrow> strcmp m p q = Some (byte_cmp as bs)"
proof (induction as bs arbitrary: p q rule: byte_cmp.induct)
  case (4 a as b bs)
  then show ?case by (subst strcmp.simps) auto
qed (subst strcmp.simps, auto)+

lemma strncmp_loop_cstr:
  "cstr m p as \<Longrightarrow> cstr m q bs \<Longrightarrow> strncmp_loop n m p q = byte_cmp (take n as) (take n bs)"
proof (induction as bs arbitrary: p q n rule: byte_cmp.induct)
  case (4 a as b bs)
  then show ?case by (cases n) auto
next
  case 1
  then show ?case by (cases n) auto
next
  case 2
  then show ?case by (cases n) auto
next
  case 3
  then show ?case by (cases n) auto
qed

lemma byte_cmp_zero: "0 \<notin> set as \<Longrightarrow> 0 \<notin> set bs \<Longrightarrow> byte_cmp as bs = 0 \<longleftrightarrow> as = bs"
  by (induction as bs rule: byte_cmp.induct) (auto simp: word_uint_eq_iff)

lemma byte_cmp_neg:
  "0 \<notin> set as \<Longrightarrow> 0 \<notin> set bs \<Longrightarrow> byte_cmp as bs < 0 \<longleftrightarrow> (as, bs) \<in> lexord {(x, y). x < y}"
proof (induction as bs rule: byte_cmp.induct)
  case (2 b bs)
  then show ?case by (simp add: word_neq_0_conv [symmetric] word_less_def [of 0, simplified, symmetric] del: word_neq_0_conv)
next
  case (3 a as)
  then show ?case by (simp add: not_less)
next
  case (4 a as b bs)
  then show ?case by (auto simp: word_less_def)
qed simp

lemma cstr_nonzero: "cstr m p bs \<Longrightarrow> 0 \<notin> set bs"
  by (induction bs arbitrary: p) auto

lemma strcpy_cstr:
  assumes "cstr m s bs" and "length bs < 4294967295" and "d = s \<or> length bs < unat (d - s)"
  shows "\<exists>m'. strcpy d s m = Some m' \<and> cstr m' d bs \<and> (\<forall>a. length bs < unat (a - d) \<longrightarrow> m' a = m a)"
  using assms
proof (induction bs arbitrary: s d m)
  case Nil
  then show ?case by (intro exI [of _ "m(d := 0)"]) (subst strcpy.simps, auto)
next
  case (Cons b bs)
  have shift: "d + 1 - (s + 1) = d - s" by simp
  have far: "length bs < unat (d - (s + 1))"
  proof (cases "d = s")
    case True
    then show ?thesis using Cons.prems(2) by (simp add: minus_one_unat)
  next
    case False
    then show ?thesis using Cons.prems(3) in_range_step [OF False, of "Suc (length bs)"]
      by (simp add: not_less [symmetric] less_Suc_eq_le)
  qed
  have step: "cstr (m(d := b)) (s + 1) bs"
    using cstr_upd [OF far, of m b] Cons.prems by simp
  have "d + 1 = s + 1 \<or> length bs < unat (d + 1 - (s + 1))" using Cons.prems(3) unfolding shift by auto
  have "length bs < 4294967295" using Cons.prems(2) by simp
  from Cons.IH [OF step this \<open>d + 1 = s + 1 \<or> length bs < unat (d + 1 - (s + 1))\<close>]
  obtain m' where m': "strcpy (d + 1) (s + 1) (m(d := b)) = Some m'" "cstr m' (d + 1) bs"
    "\<forall>a. length bs < unat (a - (d + 1)) \<longrightarrow> m' a = (m(d := b)) a" by blast
  have "strcpy d s m = Some m'" using Cons.prems(1) m'(1) by (subst strcpy.simps) simp
  moreover have "m' d = b" using m'(3) Cons.prems(2) by (simp add: minus_one_unat)
  moreover have "m' a = m a" if "length (b # bs) < unat (a - d)" for a
  proof -
    have ne: "a \<noteq> d" using that by auto
    then have "length bs < unat (a - (d + 1))"
      using that in_range_step [OF ne, of "Suc (length bs)"] by (simp add: not_less [symmetric] less_Suc_eq_le)
    then show ?thesis using m'(3) ne by simp
  qed
  ultimately show ?case using m'(2) Cons.prems(1) by (intro exI [of _ m']) simp
qed

lemma strend_cstr: "cstr m p bs \<Longrightarrow> strend m p = Some (p + of_nat (length bs))"
proof (induction bs arbitrary: p)
  case Nil
  then show ?case by (subst strend.simps) simp
next
  case (Cons b bs)
  then show ?case by (subst strend.simps) (simp add: add.assoc)
qed

lemma cstr_append:
  "0 \<notin> set as \<Longrightarrow> cstr m p (as @ bs) \<longleftrightarrow>
     (\<forall>i < length as. m (p + of_nat i) = as ! i) \<and> cstr m (p + of_nat (length as)) bs"
proof (induction as arbitrary: p)
  case Nil
  then show ?case by simp
next
  case (Cons a as)
  have "(\<forall>i < length (a # as). m (p + of_nat i) = (a # as) ! i) \<longleftrightarrow>
      m p = a \<and> (\<forall>i < length as. m (p + 1 + of_nat i) = as ! i)"
    by (auto simp: less_Suc_eq_0_disj add.assoc)
  then show ?case using Cons by (simp add: add.assoc)
qed

lemma cstr_nth: "cstr m p bs \<Longrightarrow> i < length bs \<Longrightarrow> m (p + of_nat i) = bs ! i"
  using cstr_append [of bs m p "[]"] cstr_nonzero [of m p bs] by simp

lemma strncpy_loop_apply:
  assumes "n < 4294967296" and "cstr m s bs" and "n \<le> unat (d - s)" and "length bs < unat (d - s)"
    and "length bs < 4294967295"
  shows "strncpy_loop n d s m a =
    (if unat (a - d) < n then (if unat (a - d) < length bs then bs ! unat (a - d) else 0) else m a)"
  using assms
proof (induction n arbitrary: d s m bs)
  case 0
  then show ?case by simp
next
  case (Suc n)
  show ?case
  proof (cases bs)
    case Nil
    then show ?thesis using Suc.prems by (simp add: memset_loop_apply del: memset_loop.simps)
  next
    case (Cons b bs')
    have ne: "d \<noteq> s" using Suc.prems(3) by auto
    have shift: "d + 1 - (s + 1) = d - s" by simp
    have far: "length bs' < unat (d - (s + 1))"
      using Suc.prems(4) Cons in_range_step [OF ne, of "Suc (length bs')"]
      by (simp add: not_less [symmetric] less_Suc_eq_le)
    have "length bs' < 4294967295" using Suc.prems(5) Cons by simp
    then have step: "cstr (m(d := b)) (s + 1) bs'"
      using cstr_upd [OF far, of m b] Suc.prems(2) Cons by simp
    have IH: "strncpy_loop n (d + 1) (s + 1) (m(d := b)) a =
       (if unat (a - (d + 1)) < n then (if unat (a - (d + 1)) < length bs' then bs' ! unat (a - (d + 1)) else 0)
        else (m(d := b)) a)"
      by (rule Suc.IH [OF _ step]) (use Suc.prems Cons in \<open>simp_all add: shift\<close>)
    show ?thesis
    proof (cases "a = d")
      case True
      then show ?thesis using IH Suc.prems Cons by (simp add: minus_one_unat)
    next
      case False
      have "a - d \<noteq> 0" using False by simp
      then have "0 < unat (a - d)" "unat (a - d - 1) = unat (a - d) - 1"
        by (simp_all add: unat_gt_0 unat_minus_one)
      then have u: "unat (a - d) = Suc (unat (a - (d + 1)))" by (simp add: diff_diff_eq)
      have l: "strncpy_loop (Suc n) d s m = strncpy_loop n (d + 1) (s + 1) (m(d := b))"
        using Suc.prems(2) Cons by simp
      show ?thesis unfolding l IH u Cons using False by simp
    qed
  qed
qed

lemma strncpy_apply:
  assumes "cstr m s bs" and "unat n \<le> unat (d - s)" and "length bs < unat (d - s)"
  shows "strncpy d s n m a = (if unat (a - d) < unat n
    then (if unat (a - d) < length bs then bs ! unat (a - d) else 0) else m a)"
  unfolding strncpy_def
  by (rule strncpy_loop_apply [OF unat_lt_two_power_32 assms lt_unat_u32 [OF assms(3)]])

section \<open>Properties\<close>

text \<open>\<^verbatim>\<open>memcpy\<close> copies exactly the bytes asked for and touches no other byte, unless the
  destination starts inside the source, where the forward loop would read bytes it has
  already overwritten; \<^verbatim>\<open>memset\<close> writes exactly its range.\<close>

theorem memcpy_memset_exact:
  assumes "d = s \<or> unat n \<le> unat (d - s)"
  shows "memcpy d s n m a = (if unat (a - d) < unat n then m (s + (a - d)) else m a)
    \<and> memset d v n m a = (if unat (a - d) < unat n then ucast v else m a)"
  using memcpy_apply [OF assms] memset_apply by simp

theorem memcpy_memset_exact_witness:
  "memcpy 0x2000 0x1000 4 (\<lambda>a. ucast a) 0x2003 = 3 \<and> memset 0x2000 7 4 (\<lambda>a. 0) 0x2004 = 0"
  using memcpy_memset_exact [of "0x2000" "0x1000" 4 "\<lambda>a. ucast a" "0x2003" 0]
    memcpy_memset_exact [of "0x2000" "0x1000" 4 "\<lambda>a. 0" "0x2004" 7] by simp

text \<open>On two strings, \<^verbatim>\<open>strcmp\<close> returns, and the sign of its result is the lexicographic
  order of the strings by unsigned bytes: zero exactly for equal strings. \<^verbatim>\<open>strncmp\<close> is the
  same comparison on the first \<open>n\<close> bytes, and \<^verbatim>\<open>strlen\<close> returns the length.\<close>

theorem string_comparison:
  assumes "cstr m p as" and "cstr m q bs"
  shows "\<exists>r. strcmp m p q = Some r \<and> (r = 0 \<longleftrightarrow> as = bs) \<and> (r < 0 \<longleftrightarrow> (as, bs) \<in> lexord {(x, y). x < y})
    \<and> (strncmp m p q n = 0 \<longleftrightarrow> take (unat n) as = take (unat n) bs)
    \<and> strlen m p = Some (of_nat (length as))"
proof -
  have nz: "0 \<notin> set as" "0 \<notin> set bs" using assms cstr_nonzero by blast+
  then have "0 \<notin> set (take (unat n) as)" "0 \<notin> set (take (unat n) bs)"
    by (auto dest: in_set_takeD)
  then show ?thesis
    using strcmp_cstr [OF assms] strncmp_loop_cstr [OF assms, of "unat n"] nz
      strlen_loop_cstr [of m p 0 as] assms(1)
    by (simp add: byte_cmp_zero byte_cmp_neg strncmp_def strlen_def)
qed

theorem string_comparison_witness:
  "\<exists>m r. strcmp m 0x1000 0x2000 = Some r \<and> r < 0 \<and> strlen m 0x1000 = Some 2"
proof -
  let ?m = "(\<lambda>_. 0)(0x1000 := 65, 0x1001 := 66, 0x2000 := 65, 0x2001 := 67) :: mem"
  have "cstr ?m 0x1000 [65, 66]" "cstr ?m 0x2000 [65, 67]" by simp_all
  from string_comparison [OF this, of 1] show ?thesis by (intro exI [of _ ?m]) auto
qed

text \<open>\<^verbatim>\<open>strcpy\<close> of a string to a destination that does not start inside it returns, leaves
  the same string at the destination and no other byte changed; \<^verbatim>\<open>strcat\<close> leaves the
  concatenation; \<^verbatim>\<open>strncpy\<close> writes exactly \<open>n\<close> bytes, the string cut or padded with
  zeroes, so a string of \<open>n\<close> bytes or more is left without a terminator.\<close>

theorem string_copying:
  assumes s: "cstr m s bs" and far: "length bs < unat (d - s)" and n: "unat n \<le> unat (d - s)"
  shows "(\<exists>m'. strcpy d s m = Some m' \<and> cstr m' d bs \<and> (\<forall>a. length bs < unat (a - d) \<longrightarrow> m' a = m a))
    \<and> (\<forall>a. strncpy d s n m a = (if unat (a - d) < unat n
         then (if unat (a - d) < length bs then bs ! unat (a - d) else 0) else m a))
    \<and> (\<forall>e as. cstr m e as \<and> d = e + of_nat (length as) \<and> length as + length bs < 4294967295 \<longrightarrow>
         (\<exists>m'. strcat e s m = Some m' \<and> cstr m' e (as @ bs)))"
proof -
  have len: "length bs < 4294967295" using far by (rule lt_unat_u32)
  obtain m' where m': "strcpy d s m = Some m'" "cstr m' d bs"
    "\<forall>a. length bs < unat (a - d) \<longrightarrow> m' a = m a"
    using strcpy_cstr [OF s len] far by blast
  have cat: "strcat e s m = Some m' \<and> cstr m' e (as @ bs)"
    if e: "cstr m e as" "d = e + of_nat (length as)" "length as + length bs < 4294967295" for e as
  proof -
    have "m' (e + of_nat i) = as ! i" if i: "i < length as" for i
    proof -
      have "e + of_nat i - d = - of_nat (length as - i)" using i e(2) by (simp add: of_nat_diff)
      then have "unat (e + of_nat i - d) = 4294967296 - (length as - i)"
        using i e(3) by (simp only: unat_neg_of_nat_u32)
      then have "length bs < unat (e + of_nat i - d)" using i e(3) by simp
      then show ?thesis using m'(3) cstr_nth [OF e(1) i] by simp
    qed
    then have "cstr m' e (as @ bs)"
      using cstr_append [OF cstr_nonzero [OF e(1)], of m' e bs] m'(2) e(2) by simp
    then show ?thesis using m'(1) strend_cstr [OF e(1)] e(2) by (simp add: strcat_def)
  qed
  show ?thesis using m' cat strncpy_apply [OF s n far] by blast
qed

theorem string_copying_witness:
  "\<exists>m m'. strcpy 0x2000 0x1000 m = Some m' \<and> cstr m' 0x2000 [65, 66]"
proof -
  define m :: mem where "m = (\<lambda>_. 0)(0x1000 := 65, 0x1001 := 66)"
  have "cstr m 0x1000 [65, 66]" by (simp add: m_def)
  from string_copying [OF this, of "0x2000" 5] show ?thesis by auto
qed

end
