(* ===== verification/Vmm.thy ===== *)
theory Vmm
  imports Pmm CString
begin

text \<open>
  Two-level paging, \<^verbatim>\<open>kernel/vmm.c\<close>: the directory and the page tables are pages of the
  byte memory, taken from the frame allocator, read and written a word at a time at their
  physical addresses (the kernel runs identity mapped). The state keeps the static pointer
  to the kernel directory and the two control registers the code sets; \<^verbatim>\<open>invlpg\<close> and the
  console messages have no counterpart.
\<close>

section \<open>State and operations\<close>

abbreviation PTE_PRESENT :: u32 where "PTE_PRESENT \<equiv> 1"
abbreviation PTE_RW :: u32 where "PTE_RW \<equiv> 2"
abbreviation PTE_USER :: u32 where "PTE_USER \<equiv> 4"
abbreviation FRAME :: "u32 \<Rightarrow> u32" where "FRAME w \<equiv> w AND 0xFFFFF000"

record vmm =
  kernel_directory :: u32
  cr3 :: u32
  paging :: bool
  vmem :: mem
  vpmm :: pmm

definition table_word :: "u32 \<Rightarrow> u32 \<Rightarrow> mem \<Rightarrow> u32" where
  "table_word table i m = load32 m (table + 4 * i)"

definition set_table_word :: "u32 \<Rightarrow> u32 \<Rightarrow> u32 \<Rightarrow> mem \<Rightarrow> mem" where
  "set_table_word table i v m = store32 (table + 4 * i) v m"

definition pd_index :: "u32 \<Rightarrow> u32" where "pd_index virt = drop_bit 22 virt"
definition pt_index :: "u32 \<Rightarrow> u32" where "pt_index virt = drop_bit 12 virt AND 0x3FF"

definition vmm_get_kernel_directory :: "vmm \<Rightarrow> u32" where
  "vmm_get_kernel_directory s = kernel_directory s"

definition vmm_switch_directory :: "u32 \<Rightarrow> vmm \<Rightarrow> vmm" where
  "vmm_switch_directory dir_phys s = s\<lparr>cr3 := dir_phys\<rparr>"

definition vmm_load_directory :: "u32 \<Rightarrow> vmm \<Rightarrow> vmm" where
  "vmm_load_directory dir_phys s = s\<lparr>cr3 := dir_phys\<rparr>"

definition vmm_enable_paging :: "vmm \<Rightarrow> vmm" where
  "vmm_enable_paging s = s\<lparr>paging := True\<rparr>"

definition vmm_map_page :: "u32 \<Rightarrow> u32 \<Rightarrow> u32 \<Rightarrow> vmm \<Rightarrow> vmm" where
  "vmm_map_page phys virt flags s =
     (let dir = kernel_directory s;
          pde = table_word dir (pd_index virt) (vmem s)
      in if pde AND PTE_PRESENT = 0 then
           (case pmm_alloc_block (vpmm s) of (new_table, p) \<Rightarrow>
              if new_table = 0 then s\<lparr>vpmm := p\<rparr>
              else let m1 = memset new_table 0 4096 (vmem s);
                       m2 = set_table_word dir (pd_index virt)
                              (new_table OR PTE_PRESENT OR PTE_RW OR (flags AND PTE_USER)) m1
                   in s\<lparr>vpmm := p,
                        vmem := set_table_word new_table (pt_index virt) (FRAME phys OR flags) m2\<rparr>)
         else
           let m1 = (if flags AND PTE_USER \<noteq> 0
                     then set_table_word dir (pd_index virt)
                            (table_word dir (pd_index virt) (vmem s) OR PTE_USER) (vmem s)
                     else vmem s)
           in s\<lparr>vmem := set_table_word (FRAME pde) (pt_index virt) (FRAME phys OR flags) m1\<rparr>)"

definition vmm_unmap_page :: "u32 \<Rightarrow> vmm \<Rightarrow> vmm" where
  "vmm_unmap_page virt s =
     (let pde = table_word (kernel_directory s) (pd_index virt) (vmem s) in
      if pde AND PTE_PRESENT = 0 then s
      else s\<lparr>vmem := set_table_word (FRAME pde) (pt_index virt) 0 (vmem s)\<rparr>)"

definition vmm_get_physical_address :: "u32 \<Rightarrow> vmm \<Rightarrow> u32" where
  "vmm_get_physical_address virt s =
     (let pde = table_word (kernel_directory s) (pd_index virt) (vmem s) in
      if pde AND PTE_PRESENT = 0 then 0
      else let pte = table_word (FRAME pde) (pt_index virt) (vmem s) in
        if pte AND PTE_PRESENT = 0 then 0
        else FRAME pte OR (virt AND 0xFFF))"

text \<open>The loop of \<^verbatim>\<open>vmm_init\<close> maps the 2048 pages below 8 MB to themselves.\<close>

definition identity_map :: "nat \<Rightarrow> vmm \<Rightarrow> vmm" where
  "identity_map n s = fold (\<lambda>k. let addr = of_nat k * 4096 in
     vmm_map_page addr addr (PTE_PRESENT OR PTE_RW)) [0..<n] s"

definition vmm_init :: "vmm \<Rightarrow> vmm" where
  "vmm_init s =
     (case pmm_alloc_block (vpmm s) of (dir_phys, p) \<Rightarrow>
        if dir_phys = 0 then s\<lparr>vpmm := p\<rparr>
        else let s1 = s\<lparr>vpmm := p, kernel_directory := dir_phys, vmem := memset dir_phys 0 4096 (vmem s)\<rparr>
             in vmm_enable_paging (vmm_load_directory dir_phys (identity_map 2048 s1)))"

definition copy_entries :: "u32 \<Rightarrow> u32 \<Rightarrow> nat \<Rightarrow> nat \<Rightarrow> mem \<Rightarrow> mem" where
  "copy_entries new_dir dir a b m =
     fold (\<lambda>i m. set_table_word new_dir (of_nat i) (table_word dir (of_nat i) m) m) [a..<b] m"

definition vmm_clone_directory :: "vmm \<Rightarrow> u32 \<times> vmm" where
  "vmm_clone_directory s =
     (case pmm_alloc_block (vpmm s) of (new_dir, p) \<Rightarrow>
        if new_dir = 0 then (0, s\<lparr>vpmm := p\<rparr>)
        else let m1 = memset new_dir 0 4096 (vmem s);
                 m2 = copy_entries new_dir (kernel_directory s) 0 768 m1;
                 m3 = copy_entries new_dir (kernel_directory s) 768 1024 m2
             in (new_dir, s\<lparr>vpmm := p, vmem := m3\<rparr>))"

section \<open>Pages and their words\<close>

abbreviation is_page :: "u32 \<Rightarrow> bool" where "is_page p \<equiv> p AND 0xFFF = 0"

lemma page_mask: "(0xFFF :: u32) = mask 12" by (simp add: mask_eq_exp_minus_1)
lemma frame_mask: "(0xFFFFF000 :: u32) = NOT (mask 12)" by (simp add: mask_eq_exp_minus_1)

lemma is_page_dvd: "is_page p \<longleftrightarrow> 4096 dvd unat p"
proof -
  have "unat (p AND 0xFFF) = unat p mod 4096" unfolding page_mask unat_and_mask by simp
  then show ?thesis by (metis dvd_eq_mod_eq_0 unat_0 unat_eq_0)
qed

lemma is_page_FRAME [simp]: "is_page (FRAME w)"
  unfolding page_mask frame_mask by (rule bit_word_eqI) (simp add: bit_simps)

lemma FRAME_page [simp]: "is_page p \<Longrightarrow> FRAME p = p"
  unfolding page_mask frame_mask
  by (rule bit_word_eqI) (auto simp: bit_simps bit_eq_iff)

lemma page_offset_unique:
  fixes a b k l :: nat
  assumes "a < 4096" "b < 4096" "4096 * k + a = 4096 * l + b" shows "k = l \<and> a = b"
proof -
  have "(4096 * k + a) div 4096 = (4096 * l + b) div 4096" using assms(3) by simp
  then have "k = l" using assms(1,2) by simp
  then show ?thesis using assms(3) by simp
qed

lemma unat_slot:
  assumes "is_page p" and "i < 1024"
  shows "unat (p + 4 * i) = unat p + 4 * unat i"
proof -
  obtain k where k: "unat p = 4096 * k" using assms(1) by (auto simp: is_page_dvd elim!: dvdE)
  have i: "unat i < 1024" using assms(2) by (simp add: word_less_nat_alt)
  have "k < 1048576" using unat_lt_two_power_32 [of p] k by simp
  then have b: "unat p + 4 * unat i < 4294967296" using k i by linarith
  have "unat (4 * i) = 4 * unat i" using i by (simp add: unat_word_ariths)
  then show ?thesis using b by (subst unat_add_u32) simp_all
qed

lemma slot_aligned: "is_page p \<Longrightarrow> i < 1024 \<Longrightarrow> 4 dvd unat (p + 4 * i)"
  by (auto simp: unat_slot is_page_dvd elim!: dvdE)

lemma slot_inj:
  assumes "is_page p" "is_page q" "i < 1024" "j < 1024"
  shows "p + 4 * i = q + 4 * j \<longleftrightarrow> p = q \<and> i = j"
proof
  assume "p + 4 * i = q + 4 * j"
  then have e: "unat p + 4 * unat i = unat q + 4 * unat j"
    using assms by (metis unat_slot)
  obtain k l where kl: "unat p = 4096 * k" "unat q = 4096 * l"
    using assms(1,2) by (auto simp: is_page_dvd elim!: dvdE)
  have "unat i < 1024" "unat j < 1024" using assms(3,4) by (simp_all add: word_less_nat_alt)
  then have "k = l \<and> unat i = unat j"
    using page_offset_unique [of "4 * unat i" "4 * unat j" k l] e unfolding kl by simp
  then show "p = q \<and> i = j" using kl by (simp add: word_unat_eq_iff)
qed simp

lemma table_word_set_same [simp]: "table_word t i (set_table_word t i v m) = v"
  by (simp add: table_word_def set_table_word_def)

lemma table_word_set_other:
  assumes "is_page t" "is_page u" "i < 1024" "j < 1024" "u \<noteq> t \<or> j \<noteq> i"
  shows "table_word u j (set_table_word t i v m) = table_word u j m"
  using assms slot_inj [OF assms(1,2,3,4)] slot_aligned
  by (auto simp: table_word_def set_table_word_def)

lemma in_page_iff:
  assumes "is_page t" "is_page u" "j < 1024" "k < 4"
  shows "unat (u + 4 * j + of_nat k - t) < 4096 \<longleftrightarrow> u = t"
proof -
  obtain a b where ab: "unat u = 4096 * a" "unat t = 4096 * b"
    using assms(1,2) by (auto simp: is_page_dvd elim!: dvdE)
  have j: "unat j < 1024" using assms(3) by (simp add: word_less_nat_alt)
  have e: "unat (u + 4 * j + of_nat k) = 4096 * a + 4 * unat j + k"
    using aligned_add_unat [OF slot_aligned [OF assms(2,3)] assms(4)] unat_slot [OF assms(2,3)] ab by simp
  have lt: "4096 * a < 4294967296" "4096 * b < 4294967296"
    using unat_lt_two_power_32 [of u] unat_lt_two_power_32 [of t] ab by simp_all
  show ?thesis
  proof (cases "b \<le> a")
    case True
    then have "t \<le> u + 4 * j + of_nat k" using e ab by (simp add: word_le_nat_alt)
    then have "unat (u + 4 * j + of_nat k - t) = 4096 * a + 4 * unat j + k - 4096 * b"
      using e ab by (simp add: unat_diff_u32)
    moreover have "4096 * a + 4 * unat j + k - 4096 * b < 4096 \<longleftrightarrow> a = b"
    proof (cases "a = b")
      case False
      then have "b + 1 \<le> a" using True by simp
      then show ?thesis using False by linarith
    qed (use j assms(4) in simp)
    ultimately have "unat (u + 4 * j + of_nat k - t) < 4096 \<longleftrightarrow> a = b" by simp
    then show ?thesis using ab by (simp add: word_unat_eq_iff)
  next
    case False
    then have "a + 1 \<le> b" by simp
    then have gt: "4096 * a + 4 * unat j + k < 4096 * b" using j assms(4) by linarith
    have "u + 4 * j + of_nat k - t = - of_nat (4096 * b - (4096 * a + 4 * unat j + k))"
    proof -
      have "u + 4 * j + of_nat k = of_nat (4096 * a + 4 * unat j + k)" "t = of_nat (4096 * b)"
        unfolding e [symmetric] ab(2) [symmetric] by simp_all
      then show ?thesis using gt by (simp only: of_nat_diff less_imp_le minus_diff_eq)
    qed
    then have "unat (u + 4 * j + of_nat k - t) = 4294967296 - (4096 * b - (4096 * a + 4 * unat j + k))"
      using gt lt by (simp only:) (rule unat_neg_of_nat_u32, simp_all)
    moreover have "b < 1048576" using lt by simp
    ultimately have "\<not> unat (u + 4 * j + of_nat k - t) < 4096" using gt by linarith
    moreover have "u \<noteq> t" using False ab by auto
    ultimately show ?thesis by simp
  qed
qed

lemma table_word_memset:
  assumes "is_page t" "is_page u" "j < 1024"
  shows "table_word u j (memset t 0 4096 m) = (if u = t then 0 else table_word u j m)"
  using in_page_iff [OF assms, of 0] in_page_iff [OF assms, of 1]
    in_page_iff [OF assms, of 2] in_page_iff [OF assms, of 3]
  by (simp add: table_word_def load32_def memset_apply)

lemma pd_index_bound [simp]: "pd_index v < 1024"
proof -
  have "unat (pd_index v) = unat v div 2 ^ 22" by (simp only: pd_index_def unat_drop_bit_eq) (rule drop_bit_eq_div)
  also have "\<dots> < 1024" by (simp add: div_less_iff_less_mult)
  finally show ?thesis by (simp add: word_less_nat_alt)
qed

lemma pt_index_bound [simp]: "pt_index v < 1024"
proof -
  have "(0x3FF :: u32) = mask 10" by (simp add: mask_eq_exp_minus_1)
  then have "unat (pt_index v) < 1024" unfolding pt_index_def by (simp only: unat_and_mask) simp
  then show ?thesis by (simp add: word_less_nat_alt)
qed

lemma same_page_iff: "drop_bit 12 v = drop_bit 12 w \<longleftrightarrow> pd_index v = pd_index w \<and> pt_index v = pt_index w"
proof -
  have m: "(0x3FF :: u32) = mask 10" by (simp add: mask_eq_exp_minus_1)
  have l: "pd_index v = pd_index w \<and> pt_index v = pt_index w \<Longrightarrow> drop_bit 12 v = drop_bit 12 w"
  proof (rule bit_word_eqI)
    fix n
    assume a: "pd_index v = pd_index w \<and> pt_index v = pt_index w" and n: "n < LENGTH(32)"
    then have "bit (drop_bit 22 v) (n - 10) = bit (drop_bit 22 w) (n - 10)"
      "bit (drop_bit 12 v AND mask 10) n = bit (drop_bit 12 w AND mask 10) n"
      by (simp_all add: pd_index_def pt_index_def m)
    then show "bit (drop_bit 12 v) n = bit (drop_bit 12 w) n"
      by (cases "n < 10") (auto simp: bit_simps)
  qed
  have "pd_index x = drop_bit 10 (drop_bit 12 x)" for x by (simp add: pd_index_def)
  then have "drop_bit 12 v = drop_bit 12 w \<Longrightarrow> pd_index v = pd_index w \<and> pt_index v = pt_index w"
    by (simp only: pt_index_def)
  then show ?thesis using l by blast
qed

section \<open>The paging invariant\<close>

text \<open>
  The directory and the tables of present entries are distinct pages owned by the kernel,
  one table per entry.
\<close>

abbreviation pde_of :: "vmm \<Rightarrow> u32 \<Rightarrow> u32" where
  "pde_of s i \<equiv> table_word (kernel_directory s) i (vmem s)"

definition vmm_inv :: "vmm \<Rightarrow> bool" where
  "vmm_inv s \<longleftrightarrow> page_inv (vpmm s) \<and> is_page (kernel_directory s) \<and> kernel_directory s \<noteq> 0
     \<and> kernel_directory s \<in> used_pages (vpmm s)
     \<and> (\<forall>i < 1024. pde_of s i AND PTE_PRESENT \<noteq> 0 \<longrightarrow>
          FRAME (pde_of s i) \<in> used_pages (vpmm s) \<and> FRAME (pde_of s i) \<noteq> 0
          \<and> FRAME (pde_of s i) \<noteq> kernel_directory s
          \<and> (\<forall>j < 1024. pde_of s j AND PTE_PRESENT \<noteq> 0 \<and> j \<noteq> i \<longrightarrow>
               FRAME (pde_of s j) \<noteq> FRAME (pde_of s i)))"

lemma vmm_inv_table:
  assumes "vmm_inv s" and "i < 1024" and "pde_of s i AND PTE_PRESENT \<noteq> 0"
  shows "FRAME (pde_of s i) \<noteq> 0" "FRAME (pde_of s i) \<noteq> kernel_directory s"
    "FRAME (pde_of s i) \<in> used_pages (vpmm s)"
    "j < 1024 \<Longrightarrow> pde_of s j AND PTE_PRESENT \<noteq> 0 \<Longrightarrow> FRAME (pde_of s j) = FRAME (pde_of s i) \<longleftrightarrow> j = i"
  using assms by (auto simp: vmm_inv_def)

lemma vmm_inv_dir:
  "vmm_inv s \<Longrightarrow> is_page (kernel_directory s)" "vmm_inv s \<Longrightarrow> page_inv (vpmm s)"
  "vmm_inv s \<Longrightarrow> kernel_directory s \<in> used_pages (vpmm s)" "vmm_inv s \<Longrightarrow> kernel_directory s \<noteq> 0"
  by (simp_all add: vmm_inv_def)

lemma or_user_entry:
  "(w OR PTE_USER) AND PTE_PRESENT = w AND PTE_PRESENT" "FRAME (w OR PTE_USER) = FRAME w"
proof -
  show "(w OR PTE_USER) AND PTE_PRESENT = w AND PTE_PRESENT" by (simp add: bit.conj_disj_distrib2)
  show "FRAME (w OR PTE_USER) = FRAME w" by (simp add: bit.conj_disj_distrib2)
qed

lemma new_table_entry:
  assumes "is_page p"
  shows "FRAME (p OR PTE_PRESENT OR PTE_RW OR (f AND PTE_USER)) = p"
    and "(p OR PTE_PRESENT OR PTE_RW OR (f AND PTE_USER)) AND PTE_PRESENT \<noteq> 0"
proof -
  let ?r = "PTE_PRESENT OR PTE_RW OR (f AND PTE_USER)"
  have "FRAME ?r = 0" by (simp add: bit.conj_disj_distrib2 and.assoc)
  then show "FRAME (p OR ?r) = p"
    using FRAME_page [OF assms] by (simp add: bit.conj_disj_distrib2)
  have "bit ((p OR ?r) AND PTE_PRESENT) 0" by (simp add: bit_simps)
  then show "(p OR ?r) AND PTE_PRESENT \<noteq> 0" by (metis bit_0_eq bot_apply bot_bool_def)
qed

text \<open>An entry write in the table of one page: what the other translations read.\<close>

lemma set_entry_translation:
  assumes inv: "vmm_inv s" and pr: "pde_of s (pd_index virt) AND PTE_PRESENT \<noteq> 0"
    and t: "t = s\<lparr>vmem := set_table_word (FRAME (pde_of s (pd_index virt))) (pt_index virt) e (vmem s)\<rparr>"
  shows "vmm_inv t \<and> vmm_get_physical_address v t =
    (if drop_bit 12 v = drop_bit 12 virt
     then (if e AND PTE_PRESENT = 0 then 0 else FRAME e OR (v AND 0xFFF))
     else vmm_get_physical_address v s) \<and> (\<forall>i < 1024. pde_of t i = pde_of s i)"
proof -
  let ?T = "FRAME (pde_of s (pd_index virt))"
  note tab = vmm_inv_table [OF inv pd_index_bound pr]
  have pde: "pde_of t i = pde_of s i" if "i < 1024" for i
    unfolding t using tab(2) vmm_inv_dir(1) [OF inv] that
    by (simp add: table_word_set_other)
  have dir: "kernel_directory t = kernel_directory s" "vpmm t = vpmm s" by (simp_all add: t)
  have "vmm_inv t" using inv unfolding vmm_inv_def dir by (simp add: pde [unfolded dir])
  moreover have "vmm_get_physical_address v t =
    (if drop_bit 12 v = drop_bit 12 virt
     then (if e AND PTE_PRESENT = 0 then 0 else FRAME e OR (v AND 0xFFF))
     else vmm_get_physical_address v s)"
  proof (cases "pde_of s (pd_index v) AND PTE_PRESENT = 0")
    case True
    then have "drop_bit 12 v \<noteq> drop_bit 12 virt" using pr by (auto simp: same_page_iff)
    then show ?thesis using True pde [OF pd_index_bound]
      by (simp add: vmm_get_physical_address_def dir)
  next
    case False
    have "table_word (FRAME (pde_of s (pd_index v))) (pt_index v) (vmem t) =
       (if drop_bit 12 v = drop_bit 12 virt then e
        else table_word (FRAME (pde_of s (pd_index v))) (pt_index v) (vmem s))"
      using tab(4) [OF pd_index_bound False] unfolding same_page_iff
      by (auto simp: t table_word_set_other)
    then show ?thesis using False pde [OF pd_index_bound, of v]
      by (simp add: vmm_get_physical_address_def dir Let_def)
  qed
  ultimately show ?thesis using pde by blast
qed

text \<open>Setting the user bit of a present directory entry changes no translation.\<close>

lemma set_user_translation:
  assumes inv: "vmm_inv s" and i: "i < 1024" and pr: "pde_of s i AND PTE_PRESENT \<noteq> 0"
    and t: "t = s\<lparr>vmem := set_table_word (kernel_directory s) i (pde_of s i OR PTE_USER) (vmem s)\<rparr>"
  shows "vmm_inv t" "vmm_get_physical_address v t = vmm_get_physical_address v s"
    "pde_of t j AND PTE_PRESENT = pde_of s j AND PTE_PRESENT \<or> \<not> j < 1024"
    "FRAME (pde_of t j) = FRAME (pde_of s j) \<or> \<not> j < 1024"
proof -
  have dir: "kernel_directory t = kernel_directory s" "vpmm t = vpmm s" by (simp_all add: t)
  have pde: "pde_of t k = (if k = i then pde_of s i OR PTE_USER else pde_of s k)" if "k < 1024" for k
    using that i vmm_inv_dir(1) [OF inv] by (auto simp: t table_word_set_other)
  have P: "pde_of t k AND PTE_PRESENT = pde_of s k AND PTE_PRESENT"
    and F: "FRAME (pde_of t k) = FRAME (pde_of s k)" if "k < 1024" for k
    using pde [OF that] or_user_entry by auto
  show "vmm_inv t" using inv unfolding vmm_inv_def dir by (simp add: P [unfolded dir] F [unfolded dir])
  show "pde_of t j AND PTE_PRESENT = pde_of s j AND PTE_PRESENT \<or> \<not> j < 1024"
    "FRAME (pde_of t j) = FRAME (pde_of s j) \<or> \<not> j < 1024" using P F by blast+
  show "vmm_get_physical_address v t = vmm_get_physical_address v s"
  proof (cases "pde_of s (pd_index v) AND PTE_PRESENT = 0")
    case True
    then show ?thesis using P [OF pd_index_bound, of v] by (simp add: vmm_get_physical_address_def)
  next
    case False
    have "table_word (FRAME (pde_of s (pd_index v))) (pt_index v) (vmem t) =
        table_word (FRAME (pde_of s (pd_index v))) (pt_index v) (vmem s)"
      using vmm_inv_table(2) [OF inv pd_index_bound False] vmm_inv_dir(1) [OF inv] i
      by (simp add: t table_word_set_other)
    then show ?thesis
      using P [OF pd_index_bound, of v] F [OF pd_index_bound, of v]
      by (simp add: vmm_get_physical_address_def Let_def)
  qed
qed

text \<open>A fresh, cleared table under an absent entry changes no translation either.\<close>

lemma new_table_translation:
  assumes inv: "vmm_inv s" and i: "i < 1024" and ab: "pde_of s i AND PTE_PRESENT = 0"
    and al: "pmm_alloc_block (vpmm s) = (p, q)" and p: "p \<noteq> 0"
    and e: "e AND PTE_PRESENT \<noteq> 0" "FRAME e = p"
    and t: "t = s\<lparr>vpmm := q, vmem := set_table_word (kernel_directory s) i e (memset p 0 4096 (vmem s))\<rparr>"
  shows "vmm_inv t" "vmm_get_physical_address v t = vmm_get_physical_address v s" "pde_of t i = e"
    "j < 1024 \<Longrightarrow> j \<noteq> i \<Longrightarrow> pde_of t j = pde_of s j"
proof -
  have pg: "page_inv q" "is_page p" "p \<notin> used_pages (vpmm s)" "used_pages q = insert p (used_pages (vpmm s))"
    using pmm_alloc_page [OF vmm_inv_dir(2) [OF inv] al] p by auto
  note dir = vmm_inv_dir [OF inv]
  have ne: "kernel_directory s \<noteq> p" using dir(3) pg(3) by auto
  have sel: "kernel_directory t = kernel_directory s" "vpmm t = q" by (simp_all add: t)
  have pde: "table_word (kernel_directory s) j (vmem t) = (if j = i then e else pde_of s j)" if "j < 1024" for j
    using that i dir(1) pg(2) ne by (auto simp: t table_word_set_other table_word_memset)
  show "pde_of t i = e" unfolding sel using pde [OF i] by simp
  show "j < 1024 \<Longrightarrow> j \<noteq> i \<Longrightarrow> pde_of t j = pde_of s j" unfolding sel using pde by simp
  have fresh: "FRAME (pde_of s j) \<noteq> p" if "j < 1024" "pde_of s j AND PTE_PRESENT \<noteq> 0" for j
    using vmm_inv_table(3) [OF inv that] pg(3) by auto
  have old: "FRAME (pde_of s j) \<in> used_pages (vpmm s) \<and> FRAME (pde_of s j) \<noteq> 0
      \<and> FRAME (pde_of s j) \<noteq> kernel_directory s" if "j < 1024" "pde_of s j AND PTE_PRESENT \<noteq> 0" for j
    using vmm_inv_table [OF inv that] by simp
  have inj: "FRAME (pde_of s j) \<noteq> FRAME (pde_of s k)"
    if "j < 1024" "k < 1024" "pde_of s j AND PTE_PRESENT \<noteq> 0" "pde_of s k AND PTE_PRESENT \<noteq> 0" "j \<noteq> k" for j k
    using vmm_inv_table(4) [OF inv that(2,4) that(1,3)] that(5) by simp
  show "vmm_inv t"
    unfolding vmm_inv_def sel using pg dir p e ne
    by (auto simp: pde old inj fresh fresh [symmetric])
  show "vmm_get_physical_address v t = vmm_get_physical_address v s"
  proof (cases "pd_index v = i")
    case True
    have "table_word p (pt_index v) (vmem t) = 0"
      using pg(2) dir(1) ne i by (simp add: t table_word_set_other table_word_memset)
    then show ?thesis
      using True e ab pde [OF pd_index_bound, of v] by (simp add: vmm_get_physical_address_def sel Let_def)
  next
    case False
    show ?thesis
    proof (cases "pde_of s (pd_index v) AND PTE_PRESENT = 0")
      case True
      then show ?thesis
        using False pde [OF pd_index_bound, of v] by (simp add: vmm_get_physical_address_def sel)
    next
      case pr: False
      have "table_word (FRAME (pde_of s (pd_index v))) (pt_index v) (vmem t) =
          table_word (FRAME (pde_of s (pd_index v))) (pt_index v) (vmem s)"
        using fresh [OF pd_index_bound pr] old [OF pd_index_bound pr] dir(1) pg(2) i
        by (simp add: t table_word_set_other table_word_memset)
      then show ?thesis using False pr pde [OF pd_index_bound, of v]
        by (simp add: vmm_get_physical_address_def sel Let_def)
    qed
  qed
qed

lemma flags_entry:
  assumes "flags < 4096"
  shows "FRAME (FRAME phys OR flags) = FRAME phys"
    and "(FRAME phys OR flags) AND PTE_PRESENT = flags AND PTE_PRESENT"
proof -
  have "unat flags div 4096 = 0" using assms by (simp add: word_less_nat_alt)
  then have "unat (FRAME flags) = 0" unfolding frame_mask unat_and_not_mask by simp
  then have "FRAME flags = 0" by (simp add: unat_eq_0)
  then show "FRAME (FRAME phys OR flags) = FRAME phys" by (simp add: bit.conj_disj_distrib2 and.assoc)
  show "(FRAME phys OR flags) AND PTE_PRESENT = flags AND PTE_PRESENT"
    by (simp add: bit.conj_disj_distrib2 and.assoc)
qed

lemma vmm_map_page_cases:
  assumes inv: "vmm_inv s" and fl: "flags < 4096"
  obtains (oom) q where "pde_of s (pd_index virt) AND PTE_PRESENT = 0"
      "pmm_alloc_block (vpmm s) = (0, q)" "vmm_map_page phys virt flags s = s"
  | (mapped) "pde_of s (pd_index virt) AND PTE_PRESENT \<noteq> 0 \<or> fst (pmm_alloc_block (vpmm s)) \<noteq> 0"
      "vmm_inv (vmm_map_page phys virt flags s)"
      "\<And>v. vmm_get_physical_address v (vmm_map_page phys virt flags s) =
         (if drop_bit 12 v = drop_bit 12 virt
          then (if flags AND PTE_PRESENT = 0 then 0 else FRAME phys OR (v AND 0xFFF))
          else vmm_get_physical_address v s)"
      "kernel_directory (vmm_map_page phys virt flags s) = kernel_directory s"
      "\<And>i. i < 1024 \<Longrightarrow> pde_of (vmm_map_page phys virt flags s) i AND PTE_PRESENT \<noteq> 0 \<longleftrightarrow>
         i = pd_index virt \<or> pde_of s i AND PTE_PRESENT \<noteq> 0"
      "vpmm (vmm_map_page phys virt flags s) =
         (if pde_of s (pd_index virt) AND PTE_PRESENT \<noteq> 0 then vpmm s else snd (pmm_alloc_block (vpmm s)))"
proof (cases "pde_of s (pd_index virt) AND PTE_PRESENT = 0")
  case True
  obtain p q where al: "pmm_alloc_block (vpmm s) = (p, q)" by (cases "pmm_alloc_block (vpmm s)")
  show ?thesis
  proof (cases "p = 0")
    case z: True
    then have "q = vpmm s" using pmm_alloc_page [OF vmm_inv_dir(2) [OF inv] al] by simp
    then have "vmm_map_page phys virt flags s = s" using True al z by (simp add: vmm_map_page_def Let_def)
    then show ?thesis using True al z oom by blast
  next
    case False
    let ?e = "p OR PTE_PRESENT OR PTE_RW OR (flags AND PTE_USER)"
    let ?t = "s\<lparr>vpmm := q, vmem := set_table_word (kernel_directory s) (pd_index virt) ?e (memset p 0 4096 (vmem s))\<rparr>"
    have "is_page p" using pmm_alloc_page [OF vmm_inv_dir(2) [OF inv] al] by simp
    note e = new_table_entry [OF this, of flags]
    note nt = new_table_translation [OF inv pd_index_bound True al False e(2,1) refl]
    have m: "vmm_map_page phys virt flags s =
        ?t\<lparr>vmem := set_table_word (FRAME (pde_of ?t (pd_index virt))) (pt_index virt) (FRAME phys OR flags) (vmem ?t)\<rparr>"
      unfolding nt(3) e(1) using True al False by (simp add: vmm_map_page_def Let_def)
    have pr: "pde_of ?t (pd_index virt) AND PTE_PRESENT \<noteq> 0" unfolding nt(3) by (rule e(2))
    note st = set_entry_translation [OF nt(1) pr m]
    have "pde_of (vmm_map_page phys virt flags s) i AND PTE_PRESENT \<noteq> 0 \<longleftrightarrow>
        i = pd_index virt \<or> pde_of s i AND PTE_PRESENT \<noteq> 0" if "i < 1024" for i
      using st that pr nt(4) [OF that] by (cases "i = pd_index virt") auto
    moreover have "kernel_directory (vmm_map_page phys virt flags s) = kernel_directory s"
      "vpmm (vmm_map_page phys virt flags s) = q" unfolding m by simp_all
    ultimately show ?thesis
      by (intro mapped) (use st nt(2) flags_entry [OF fl] al False True in simp_all)
  qed
next
  case False
  show ?thesis
  proof (cases "flags AND PTE_USER = 0")
    case True
    have m: "vmm_map_page phys virt flags s =
        s\<lparr>vmem := set_table_word (FRAME (pde_of s (pd_index virt))) (pt_index virt) (FRAME phys OR flags) (vmem s)\<rparr>"
      using False True by (simp add: vmm_map_page_def Let_def)
    note st = set_entry_translation [OF inv False m]
    have "kernel_directory (vmm_map_page phys virt flags s) = kernel_directory s"
      "vpmm (vmm_map_page phys virt flags s) = vpmm s" unfolding m by simp_all
    then show ?thesis
      by (intro mapped) (use st flags_entry [OF fl] False in auto)
  next
    case user: False
    let ?t = "s\<lparr>vmem := set_table_word (kernel_directory s) (pd_index virt)
        (pde_of s (pd_index virt) OR PTE_USER) (vmem s)\<rparr>"
    note u = set_user_translation [OF inv pd_index_bound False refl]
    have F: "FRAME (pde_of ?t (pd_index virt)) = FRAME (pde_of s (pd_index virt))"
      and pr: "pde_of ?t (pd_index virt) AND PTE_PRESENT \<noteq> 0"
      using u(3,4) [of "pd_index virt"] False by simp_all
    have m: "vmm_map_page phys virt flags s =
        ?t\<lparr>vmem := set_table_word (FRAME (pde_of ?t (pd_index virt))) (pt_index virt) (FRAME phys OR flags) (vmem ?t)\<rparr>"
      unfolding F using False user by (simp add: vmm_map_page_def Let_def)
    note st = set_entry_translation [OF u(1) pr m]
    have "pde_of (vmm_map_page phys virt flags s) i AND PTE_PRESENT \<noteq> 0 \<longleftrightarrow>
        i = pd_index virt \<or> pde_of s i AND PTE_PRESENT \<noteq> 0" if "i < 1024" for i
      using st that False u(3) [of i] by auto
    moreover have "kernel_directory (vmm_map_page phys virt flags s) = kernel_directory s"
      "vpmm (vmm_map_page phys virt flags s) = vpmm s" unfolding m by simp_all
    ultimately show ?thesis
      by (intro mapped) (use st u(2) flags_entry [OF fl] False in simp_all)
  qed
qed

section \<open>Initialisation\<close>

definition free_frames :: "pmm \<Rightarrow> nat" where
  "free_frames p = unat (total_blocks p) - card (used_set p)"

lemma alloc_free_frames:
  assumes p: "page_inv s" and f: "0 < free_frames s"
  shows "fst (pmm_alloc_block s) \<noteq> 0 \<and> free_frames (snd (pmm_alloc_block s)) = free_frames s - 1"
proof -
  have inv: "pmm_inv s" and zero: "0 \<in> used_set s" using p by (simp_all add: page_inv_def)
  from inv show ?thesis
  proof (cases rule: pmm_alloc_block_cases)
    case full
    then show ?thesis using f by (simp add: free_frames_def)
  next
    case (got b)
    have b: "b < unat (total_blocks s)" "b \<notin> used_set s" using got(1) by (simp_all add: is_free_iff)
    have "of_nat b * PMM_BLOCK_SIZE \<noteq> 0" using b(2) zero block_addr_inj [OF got(3), of 0] by auto
    moreover have "free_frames (mark_used b s) = free_frames s - 1"
      using b by (simp add: free_frames_def used_set_mark)
    ultimately show ?thesis unfolding got(4) by simp
  qed
qed

lemma frame_or_offset: "FRAME v OR (v AND 0xFFF) = v"
  unfolding frame_mask page_mask by (rule bit_word_eqI) (auto simp: bit_simps)

lemma same_page_FRAME: "drop_bit 12 v = drop_bit 12 w \<Longrightarrow> FRAME v = FRAME w"
  unfolding frame_mask and_not_mask_u32 by simp

lemma page_addr:
  assumes "k < 1048576"
  shows "unat (of_nat k * 4096 :: u32) = 4096 * k"
    and "drop_bit 12 v = drop_bit 12 (of_nat k * 4096 :: u32) \<longleftrightarrow> unat v div 4096 = k"
    and "unat (pd_index (of_nat k * 4096)) = k div 1024"
proof -
  show u: "unat (of_nat k * 4096 :: u32) = 4096 * k"
    using assms by (simp add: unat_word_ariths unat_of_nat_u32)
  have d: "unat (drop_bit 12 w) = unat w div 4096" for w :: u32
    by (simp add: unat_drop_bit_eq) (simp add: drop_bit_eq_div)
  show "drop_bit 12 v = drop_bit 12 (of_nat k * 4096 :: u32) \<longleftrightarrow> unat v div 4096 = k"
    by (simp only: word_unat_eq_iff d u) simp
  have "unat (pd_index (of_nat k * 4096)) = unat (of_nat k * 4096 :: u32) div 4194304"
    unfolding pd_index_def by (simp only: unat_drop_bit_eq) (simp add: drop_bit_eq_div)
  also have "\<dots> = 4096 * k div (4096 * 1024)" by (simp only: u) simp
  also have "\<dots> = k div 1024" by (rule div_mult_mult1) simp
  finally show "unat (pd_index (of_nat k * 4096)) = k div 1024" .
qed

lemma ceil_div_1024:
  "(n + 1023) div 1024 = n div 1024 + (if n mod 1024 = 0 then 0 else 1 :: nat)"
proof -
  have "(n + 1023) div 1024 = (1024 * (n div 1024) + (n mod 1024 + 1023)) div 1024"
    by (simp add: add.assoc [symmetric])
  also have "\<dots> = n div 1024 + (n mod 1024 + 1023) div 1024" by (rule div_mult_self4) simp
  also have "(n mod 1024 + 1023) div 1024 = (if n mod 1024 = 0 then 0 else 1)"
    by (auto intro!: div_nat_eqI)
  finally show ?thesis .
qed

lemma Suc_ceil_div_1024: "(Suc n + 1023) div 1024 = n div 1024 + 1"
  by simp

lemma total_blocks_alloc [simp]: "total_blocks (snd (pmm_alloc_block s)) = total_blocks s"
  by (simp add: pmm_alloc_block_def bitmap_set_def Let_def)

lemma total_blocks_map_page [simp]: "total_blocks (vpmm (vmm_map_page phys virt flags s)) = total_blocks (vpmm s)"
  using total_blocks_alloc [of "vpmm s"] by (cases "pmm_alloc_block (vpmm s)") (simp add: vmm_map_page_def Let_def)

lemma identity_map_inv:
  assumes inv: "vmm_inv s" and empty: "\<And>i. i < 1024 \<Longrightarrow> pde_of s i AND PTE_PRESENT = 0"
    and f: "2 \<le> free_frames (vpmm s)" and n: "n \<le> 2048"
  shows "vmm_inv (identity_map n s) \<and> kernel_directory (identity_map n s) = kernel_directory s
    \<and> (\<forall>v. vmm_get_physical_address v (identity_map n s) = (if unat v < 4096 * n then v else 0))
    \<and> (\<forall>i < 1024. pde_of (identity_map n s) i AND PTE_PRESENT \<noteq> 0 \<longleftrightarrow> unat i * 1024 < n)
    \<and> free_frames (vpmm s) - (n + 1023) div 1024 \<le> free_frames (vpmm (identity_map n s))
    \<and> total_blocks (vpmm (identity_map n s)) = total_blocks (vpmm s)"
  using n
proof (induction n)
  case 0
  then show ?case using inv empty f
    by (simp add: identity_map_def vmm_get_physical_address_def)
next
  case (Suc n)
  let ?t = "identity_map n s"
  let ?a = "of_nat n * 4096 :: u32"
  let ?u = "vmm_map_page ?a ?a (PTE_PRESENT OR PTE_RW) ?t"
  have IH: "vmm_inv ?t" "kernel_directory ?t = kernel_directory s"
    "\<And>v. vmm_get_physical_address v ?t = (if unat v < 4096 * n then v else 0)"
    "\<And>i. i < 1024 \<Longrightarrow> pde_of ?t i AND PTE_PRESENT \<noteq> 0 \<longleftrightarrow> unat i * 1024 < n"
    "free_frames (vpmm s) - (n + 1023) div 1024 \<le> free_frames (vpmm ?t)" "total_blocks (vpmm ?t) = total_blocks (vpmm s)"
    using Suc by auto
  have u: "identity_map (Suc n) s = ?u" by (simp add: identity_map_def Let_def)
  have n: "n < 2048" "n < 1048576" using Suc.prems by simp_all
  note pa = page_addr [OF n(2)]
  have pres: "pde_of ?t (pd_index ?a) AND PTE_PRESENT \<noteq> 0 \<longleftrightarrow> n mod 1024 \<noteq> 0"
    using div_mult_mod_eq [of n 1024] unfolding IH(4) [OF pd_index_bound] pa(3) by linarith
  have free: "0 < free_frames (vpmm ?t)" if "n mod 1024 = 0"
  proof -
    have "n div 1024 < 2" using n(1) by simp
    then show ?thesis using IH(5) that f by (simp add: ceil_div_1024)
  qed
  have fl: "PTE_PRESENT OR PTE_RW < (4096 :: u32)" by simp
  from IH(1) fl show ?case
  proof (cases rule: vmm_map_page_cases [where virt = ?a and phys = ?a])
    case (oom q)
    have "0 < free_frames (vpmm ?t)" using oom(1) pres free by blast
    then show ?thesis using alloc_free_frames [OF vmm_inv_dir(2) [OF IH(1)]] oom(2) by simp
  next
    case mapped
    have below: "unat v < 4096 * k \<longleftrightarrow> unat v div 4096 < k" for v :: u32 and k
      by (simp add: div_less_iff_less_mult mult.commute)
    have "vmm_get_physical_address v ?u = (if unat v < 4096 * Suc n then v else 0)" for v
    proof (cases "unat v div 4096 = n")
      case True
      then have "drop_bit 12 v = drop_bit 12 ?a" using pa(2) by simp
      then have "vmm_get_physical_address v ?u = v"
        using mapped(3) [of v] same_page_FRAME [of v ?a] frame_or_offset [of v] by simp
      moreover have "unat v < 4096 * Suc n"
        using True unfolding below by simp
      ultimately show ?thesis by simp
    next
      case False
      then have "unat v < 4096 * Suc n \<longleftrightarrow> unat v < 4096 * n" unfolding below by auto
      then show ?thesis using mapped(3) [of v] pa(2) False IH(3) by simp
    qed
    moreover have "pde_of ?u i AND PTE_PRESENT \<noteq> 0 \<longleftrightarrow> unat i * 1024 < Suc n" if "i < 1024" for i
    proof -
      have "i = pd_index ?a \<longleftrightarrow> unat i = n div 1024" using pa(3) by (simp add: word_unat_eq_iff)
      moreover have "unat i = n div 1024 \<or> unat i * 1024 < n \<longleftrightarrow> unat i * 1024 < Suc n" by linarith
      ultimately show ?thesis using mapped(5) [OF that] IH(4) [OF that] by blast
    qed
    moreover have "free_frames (vpmm s) - (Suc n + 1023) div 1024 \<le> free_frames (vpmm ?u)"
    proof (cases "n mod 1024 = 0")
      case True
      then have "free_frames (vpmm ?u) = free_frames (vpmm ?t) - 1"
        using mapped(6) pres alloc_free_frames [OF vmm_inv_dir(2) [OF IH(1)] free [OF True]] by simp
      moreover have "(Suc n + 1023) div 1024 = Suc ((n + 1023) div 1024)"
        unfolding Suc_ceil_div_1024 unfolding ceil_div_1024 using True by simp
      ultimately show ?thesis using IH(5) by simp
    next
      case False
      then have "vpmm ?u = vpmm ?t" using mapped(6) pres by simp
      moreover have "(Suc n + 1023) div 1024 = (n + 1023) div 1024"
        unfolding Suc_ceil_div_1024 unfolding ceil_div_1024 using False by simp
      ultimately show ?thesis using IH(5) by simp
    qed
    ultimately show ?thesis unfolding u using mapped(2,4) IH(2,6) by simp
  qed
qed

section \<open>Properties\<close>

text \<open>C16: \<^verbatim>\<open>vmm_map_page\<close> maps exactly one page. After it the page of \<open>virt\<close> translates to the
  frame of \<open>phys\<close> (to nothing when the present flag is not among the flags), every other
  address translates as before, and directory and tables stay distinct kernel pages. The
  one exception is silent: when a table is needed and no frame is left, nothing at all
  changes.\<close>

theorem vmm_map_page_maps:
  assumes "vmm_inv s" and "flags < 4096"
  shows "if pde_of s (pd_index virt) AND PTE_PRESENT = 0 \<and> fst (pmm_alloc_block (vpmm s)) = 0
    then vmm_map_page phys virt flags s = s
    else vmm_inv (vmm_map_page phys virt flags s) \<and>
      (\<forall>v. vmm_get_physical_address v (vmm_map_page phys virt flags s) =
         (if drop_bit 12 v = drop_bit 12 virt
          then (if flags AND PTE_PRESENT = 0 then 0 else FRAME phys OR (v AND 0xFFF))
          else vmm_get_physical_address v s))"
  using assms by (cases rule: vmm_map_page_cases [where virt = virt and phys = phys]) auto

text \<open>A directory with nothing mapped, in the first page above the kernel's.\<close>

definition empty_vmm :: vmm where
  "empty_vmm = \<lparr>kernel_directory = 0x3FF000, cr3 = 0, paging = False, vmem = (\<lambda>_. 0), vpmm = boot_pmm\<rparr>"

lemma empty_vmm_entry [simp]: "table_word t i (\<lambda>_. 0) = 0"
  by (simp add: table_word_def load32_def)

lemma boot_page_inv: "page_inv boot_pmm"
  using boot_pmm_inv by (simp add: page_inv_def)

lemma empty_vmm: "vmm_inv empty_vmm" "pde_of empty_vmm i = 0" "2 \<le> free_frames (vpmm empty_vmm)"
proof -
  show e: "pde_of empty_vmm i = 0" for i by (simp add: empty_vmm_def)
  have "of_nat 1023 * PMM_BLOCK_SIZE \<in> used_pages boot_pmm"
    using boot_pmm_inv by (subst used_pages_iff) simp_all
  then show "vmm_inv empty_vmm"
    using boot_page_inv by (simp add: vmm_inv_def empty_vmm_def)
  show "2 \<le> free_frames (vpmm empty_vmm)"
    using boot_pmm_inv by (simp add: free_frames_def empty_vmm_def)
qed

theorem vmm_map_page_maps_witness:
  "vmm_get_physical_address 0x400123 (vmm_map_page 0x800000 0x400000 7 empty_vmm) = 0x800123"
proof -
  have "fst (pmm_alloc_block (vpmm empty_vmm)) \<noteq> 0"
    using alloc_free_frames [OF vmm_inv_dir(2) [OF empty_vmm(1)]] empty_vmm(3) by simp
  moreover have "(7 :: u32) < 4096" by simp
  ultimately show ?thesis
    using vmm_map_page_maps [OF empty_vmm(1), of 7 "0x400000" "0x800000"] by simp
qed

text \<open>\<^verbatim>\<open>vmm_unmap_page\<close> takes exactly one page away: addresses in it no longer translate,
  every other address translates as before, and no page table is given back.\<close>

theorem vmm_unmap_page_unmaps:
  assumes "vmm_inv s"
  shows "vmm_inv (vmm_unmap_page virt s) \<and> vpmm (vmm_unmap_page virt s) = vpmm s \<and>
    vmm_get_physical_address v (vmm_unmap_page virt s) =
      (if drop_bit 12 v = drop_bit 12 virt then 0 else vmm_get_physical_address v s)"
proof (cases "pde_of s (pd_index virt) AND PTE_PRESENT = 0")
  case True
  then have "vmm_unmap_page virt s = s" by (simp add: vmm_unmap_page_def)
  moreover have "vmm_get_physical_address v s = 0" if "drop_bit 12 v = drop_bit 12 virt"
    using that True by (simp add: same_page_iff vmm_get_physical_address_def)
  ultimately show ?thesis using assms by simp
next
  case False
  have m: "vmm_unmap_page virt s =
      s\<lparr>vmem := set_table_word (FRAME (pde_of s (pd_index virt))) (pt_index virt) 0 (vmem s)\<rparr>"
    using False by (simp add: vmm_unmap_page_def Let_def)
  then have "vpmm (vmm_unmap_page virt s) = vpmm s" by simp
  then show ?thesis using set_entry_translation [OF assms False m] by simp
qed

theorem vmm_unmap_page_unmaps_witness: "vmm_inv (vmm_unmap_page 0x400000 empty_vmm)"
  using vmm_unmap_page_unmaps [OF empty_vmm(1)] by simp

lemma vmm_init_space:
  assumes inv: "page_inv (vpmm s)" and free: "3 \<le> free_frames (vpmm s)"
  shows "vmm_inv (vmm_init s) \<and> paging (vmm_init s) \<and> cr3 (vmm_init s) = kernel_directory (vmm_init s)
    \<and> vmm_get_physical_address v (vmm_init s) = (if v < 0x800000 then v else 0)
    \<and> kernel_directory (vmm_init s) = fst (pmm_alloc_block (vpmm s))
    \<and> (i < 1024 \<longrightarrow> (pde_of (vmm_init s) i AND PTE_PRESENT \<noteq> 0 \<longleftrightarrow> i < 2))
    \<and> free_frames (vpmm s) - 3 \<le> free_frames (vpmm (vmm_init s)) \<and> total_blocks (vpmm (vmm_init s)) = total_blocks (vpmm s)"
proof -
  obtain d p where al: "pmm_alloc_block (vpmm s) = (d, p)" by (cases "pmm_alloc_block (vpmm s)")
  have d: "d \<noteq> 0" "free_frames p = free_frames (vpmm s) - 1"
    using alloc_free_frames [OF inv] free al by auto
  have pg: "page_inv p" "is_page d" "d \<in> used_pages p"
    using pmm_alloc_page [OF inv al] d(1) by auto
  let ?s = "s\<lparr>vpmm := p, kernel_directory := d, vmem := memset d 0 4096 (vmem s)\<rparr>"
  have e: "pde_of ?s i AND PTE_PRESENT = 0" if "i < 1024" for i
    using that pg(2) by (simp add: table_word_memset)
  have i: "vmm_inv ?s" unfolding vmm_inv_def using pg d(1) e by auto
  have "2 \<le> free_frames (vpmm ?s)" using d(2) free by simp
  note id = identity_map_inv [OF i e this order_refl]
  have init: "vmm_init s = vmm_enable_paging (vmm_load_directory d (identity_map 2048 ?s))"
    using al d(1) by (simp add: vmm_init_def)
  have same: "vmm_get_physical_address v (vmm_init s) = vmm_get_physical_address v (identity_map 2048 ?s)"
    "vmm_inv (vmm_init s) = vmm_inv (identity_map 2048 ?s)"
    unfolding init by (simp_all add: vmm_get_physical_address_def vmm_inv_def vmm_enable_paging_def vmm_load_directory_def Let_def)
  have "paging (vmm_init s)" "cr3 (vmm_init s) = kernel_directory (vmm_init s)"
    unfolding init using id by (simp_all add: vmm_enable_paging_def vmm_load_directory_def)
  moreover have "(v < 0x800000) = (unat v < 4096 * 2048)" by (simp add: word_less_nat_alt)
  moreover have "kernel_directory (vmm_init s) = d" "vmem (vmm_init s) = vmem (identity_map 2048 ?s)" "vpmm (vmm_init s) = vpmm (identity_map 2048 ?s)"
    unfolding init using id by (simp_all add: vmm_enable_paging_def vmm_load_directory_def)
  moreover have "i < 1024 \<longrightarrow> (pde_of (vmm_init s) i AND PTE_PRESENT \<noteq> 0 \<longleftrightarrow> i < 2)"
  proof -
    have k: "kernel_directory (identity_map 2048 ?s) = d"
      and P: "\<forall>i < 1024. pde_of (identity_map 2048 ?s) i AND PTE_PRESENT \<noteq> 0 \<longleftrightarrow> unat i * 1024 < 2048" using id by auto
    have "unat i * 1024 < 2048 \<longleftrightarrow> i < 2" by (auto simp: word_less_nat_alt)
    then show ?thesis using P [rule_format, of i, unfolded k] calculation(4,5) by simp
  qed
  moreover have "total_blocks p = total_blocks (vpmm s)" using total_blocks_alloc [of "vpmm s"] al by simp
  ultimately show ?thesis unfolding same using id al d(2) by (simp add: numeral_3_eq_3)
qed

text \<open>\<^verbatim>\<open>vmm_init\<close>, with three free frames, succeeds: it leaves paging on with the control
  register at the new directory, and the address space is the identity on the first 8 MB
  and empty above.\<close>

theorem vmm_init_identity:
  assumes "page_inv (vpmm s)" "3 \<le> free_frames (vpmm s)"
  shows "vmm_inv (vmm_init s) \<and> paging (vmm_init s) \<and> cr3 (vmm_init s) = kernel_directory (vmm_init s)
    \<and> vmm_get_physical_address v (vmm_init s) = (if v < 0x800000 then v else 0)"
  using vmm_init_space [OF assms] by blast

theorem vmm_init_identity_witness:
  "vmm_get_physical_address 0x212345 (vmm_init empty_vmm) = 0x212345"
proof -
  have "3 \<le> free_frames (vpmm empty_vmm)"
    using boot_pmm_inv by (simp add: free_frames_def empty_vmm_def)
  then show ?thesis
    using vmm_init_identity [of empty_vmm "0x212345"] boot_page_inv by (simp add: empty_vmm_def)
qed

lemma copy_entries_word:
  assumes "is_page nd" "is_page d" "nd \<noteq> d" and "b \<le> 1024" "a \<le> b" "j < 1024"
  shows "table_word nd j (copy_entries nd d a b m) =
      (if a \<le> unat j \<and> unat j < b then table_word d j m else table_word nd j m)
    \<and> (is_page p \<and> p \<noteq> nd \<longrightarrow> table_word p j (copy_entries nd d a b m) = table_word p j m)"
  using assms(5,4,6)
proof (induction b arbitrary: p j rule: dec_induct)
  case base
  then show ?case by (auto simp: copy_entries_def)
next
  case (step b)
  let ?m = "copy_entries nd d a b m"
  have m: "copy_entries nd d a (Suc b) m = set_table_word nd (of_nat b) (table_word d (of_nat b) ?m) ?m"
    using step.hyps by (simp add: copy_entries_def)
  have b: "(of_nat b :: u32) < 1024" "unat (of_nat b :: u32) = b"
    using step.prems(1) by (simp_all add: word_less_nat_alt unat_of_nat_u32)
  have d: "table_word d (of_nat b) ?m = table_word d (of_nat b) m"
    using step.IH [of "of_nat b" d] step.prems b assms(1-3) by simp
  have jb: "j = of_nat b \<longleftrightarrow> unat j = b" using b(2) by (auto simp: word_unat_eq_iff)
  have "table_word nd j (set_table_word nd (of_nat b) x ?m) =
      (if unat j = b then x else table_word nd j ?m)" for x
    using table_word_set_other [of nd nd "of_nat b" j x ?m] assms(1) b(1) step.prems(2) jb by auto
  moreover have "is_page p \<and> p \<noteq> nd \<longrightarrow>
      table_word p j (set_table_word nd (of_nat b) x ?m) = table_word p j ?m" for x
    using assms(1) b(1) step.prems(2) by (simp add: table_word_set_other)
  ultimately show ?case
    unfolding m d using step.IH [of j p] step.prems step.hyps jb by (auto simp: less_Suc_eq)
qed

text \<open>\<^verbatim>\<open>vmm_clone_directory\<close> answers 0 and changes nothing when no frame is left; otherwise
  it answers a fresh page that holds all 1024 entries of the kernel directory, those below
  3 GB included, and every translation of the kernel's is unchanged. The two directories
  name the same page tables, so no part of the address space is private to the clone.\<close>

theorem vmm_clone_directory_shares:
  assumes inv: "vmm_inv s"
  shows "case vmm_clone_directory s of (dir, t) \<Rightarrow>
    if fst (pmm_alloc_block (vpmm s)) = 0 then dir = 0 \<and> t = s
    else dir \<notin> used_pages (vpmm s) \<and> dir \<in> used_pages (vpmm t) \<and> vmm_inv t
      \<and> (\<forall>i < 1024. table_word dir i (vmem t) = pde_of t i \<and> pde_of t i = pde_of s i)
      \<and> (\<forall>v. vmm_get_physical_address v t = vmm_get_physical_address v s)"
proof -
  obtain d p where al: "pmm_alloc_block (vpmm s) = (d, p)" by (cases "pmm_alloc_block (vpmm s)")
  note pg = pmm_alloc_page [OF vmm_inv_dir(2) [OF inv] al]
  show ?thesis
  proof (cases "d = 0")
    case True
    then show ?thesis using pg al by (simp add: vmm_clone_directory_def)
  next
    case False
    let ?k = "kernel_directory s"
    let ?m1 = "memset d 0 4096 (vmem s)"
    let ?m2 = "copy_entries d ?k 0 768 ?m1"
    let ?m3 = "copy_entries d ?k 768 1024 ?m2"
    have ne: "d \<noteq> ?k" using pg False vmm_inv_dir(3) [OF inv] by auto
    note k = vmm_inv_dir(1) [OF inv]
    have clone: "vmm_clone_directory s = (d, s\<lparr>vpmm := p, vmem := ?m3\<rparr>)"
      using al False by (simp add: vmm_clone_directory_def)
    have other: "table_word q j ?m3 = table_word q j (vmem s)" if "is_page q" "q \<noteq> d" "j < 1024" for q j
      using copy_entries_word [of d ?k 1024 768 j ?m2 q] copy_entries_word [of d ?k 768 0 j ?m1 q]
        pg ne k that by (simp add: table_word_memset)
    have copied: "table_word d j ?m3 = pde_of s j" if j: "j < 1024" for j
    proof -
      have "unat j < 1024" using j by (simp add: word_less_nat_alt)
      then show ?thesis
        using copy_entries_word [of d ?k 1024 768 j ?m2 ?k] copy_entries_word [of d ?k 768 0 j ?m1 ?k]
          pg ne k j by (simp add: table_word_memset)
    qed
    let ?t = "s\<lparr>vpmm := p, vmem := ?m3\<rparr>"
    have pde: "table_word ?k j ?m3 = pde_of s j" if "j < 1024" for j using other [OF k ne [symmetric] that] .
    have fresh: "FRAME (pde_of s j) \<noteq> d" if "j < 1024" "pde_of s j AND PTE_PRESENT \<noteq> 0" for j
      using vmm_inv_table(3) [OF inv that] pg False by auto
    have "vmm_inv ?t" using inv pg False by (auto simp: vmm_inv_def pde)
    moreover have "vmm_get_physical_address v ?t = vmm_get_physical_address v s" for v
      using fresh [OF pd_index_bound, of v] by (simp add: vmm_get_physical_address_def pde other Let_def)
    ultimately show ?thesis
      unfolding clone using al False pg copied pde by simp
  qed
qed

theorem vmm_clone_directory_shares_witness:
  "\<exists>dir t. vmm_clone_directory empty_vmm = (dir, t) \<and> (\<forall>v. vmm_get_physical_address v t = vmm_get_physical_address v empty_vmm)"
  using vmm_clone_directory_shares [OF empty_vmm(1)]
  by (cases "vmm_clone_directory empty_vmm") (auto split: if_splits)

end
