(* ===== verification/Ktimer.thy ===== *)
theory Ktimer
  imports ListHead
begin

text \<open>
  Kernel timers, \<^verbatim>\<open>kernel/ktimer.c\<close> and the conversions of \<^verbatim>\<open>include/ktimer.h\<close>. A timer's
  list node is its first field, so a node address is a timer address. The functions timers
  call are code outside this component: \<open>run f data\<close>, a parameter, is the effect of calling
  the function at address \<open>f\<close>, on the whole state; \<open>kt_env\<close> is the part of the machine
  the component does not know.
\<close>

section \<open>State and operations\<close>

record ktimer =
  kt_expires :: u32
  kt_function :: ptr
  kt_data :: u32
  kt_active :: bool

record 'e kt_state =
  jiffies :: u32
  timer_list :: ptr
  tlinks :: links
  timers :: "ptr \<Rightarrow> ktimer"
  active_timer_count :: int
  kt_env :: 'e

definition put_timer :: "ptr \<Rightarrow> ktimer \<Rightarrow> 'e kt_state \<Rightarrow> 'e kt_state" where
  "put_timer p t s = s\<lparr>timers := (timers s)(p := t)\<rparr>"

definition ktimer_subsystem_init :: "'e kt_state \<Rightarrow> 'e kt_state" where
  "ktimer_subsystem_init s = s\<lparr>jiffies := 0\<rparr>"

definition ktimer_init :: "ptr \<Rightarrow> 'e kt_state \<Rightarrow> 'e kt_state" where
  "ktimer_init timer s =
     (if timer = 0 then s
      else put_timer timer \<lparr>kt_expires = 0, kt_function = 0, kt_data = 0, kt_active = False\<rparr>
             (s\<lparr>tlinks := init_list_head timer (tlinks s)\<rparr>))"

definition ktimer_setup :: "ptr \<Rightarrow> ptr \<Rightarrow> u32 \<Rightarrow> 'e kt_state \<Rightarrow> 'e kt_state" where
  "ktimer_setup timer fn data_val s =
     (let s1 = ktimer_init timer s
      in put_timer timer ((timers s1 timer)\<lparr>kt_function := fn, kt_data := data_val\<rparr>) s1)"

definition ktimer_add :: "ptr \<Rightarrow> 'e kt_state \<Rightarrow> 'e kt_state" where
  "ktimer_add timer s =
     (if timer = 0 \<or> kt_function (timers s timer) = 0 then s
      else if kt_active (timers s timer) then s
      else put_timer timer ((timers s timer)\<lparr>kt_active := True\<rparr>)
             (s\<lparr>tlinks := list_add_tail timer (timer_list s) (tlinks s),
                active_timer_count := active_timer_count s + 1\<rparr>))"

definition ktimer_del :: "ptr \<Rightarrow> 'e kt_state \<Rightarrow> int \<times> 'e kt_state" where
  "ktimer_del timer s =
     (if timer = 0 then (0, s)
      else if \<not> kt_active (timers s timer) then (0, s)
      else (1, put_timer timer ((timers s timer)\<lparr>kt_active := False\<rparr>)
             (s\<lparr>tlinks := list_del timer (tlinks s),
                active_timer_count := active_timer_count s - 1\<rparr>)))"

definition ktimer_mod :: "ptr \<Rightarrow> u32 \<Rightarrow> 'e kt_state \<Rightarrow> bool \<times> 'e kt_state" where
  "ktimer_mod timer expires s =
     (if timer = 0 then (False, s)
      else let was_active = kt_active (timers s timer);
               s1 = (if was_active then snd (ktimer_del timer s) else s);
               s2 = put_timer timer ((timers s1 timer)\<lparr>kt_expires := expires\<rparr>) s1
           in (was_active, ktimer_add timer s2))"

text \<open>
  The traversal of \<^verbatim>\<open>ktimer_run\<close> keeps the successor \<open>tmp\<close> fetched before the body runs;
  \<open>None\<close> is a traversal that does not end.
\<close>

definition fire :: "(ptr \<Rightarrow> u32 \<Rightarrow> 'e kt_state \<Rightarrow> 'e kt_state) \<Rightarrow> ptr \<Rightarrow> 'e kt_state \<Rightarrow> 'e kt_state" where
  "fire run timer s =
     (if kt_expires (timers s timer) \<le> jiffies s then
        let s1 = put_timer timer ((timers s timer)\<lparr>kt_active := False\<rparr>)
                   (s\<lparr>tlinks := list_del timer (tlinks s),
                      active_timer_count := active_timer_count s - 1\<rparr>)
        in if kt_function (timers s1 timer) \<noteq> 0
           then run (kt_function (timers s1 timer)) (kt_data (timers s1 timer)) s1 else s1
      else s)"

partial_function (option) ktimer_loop ::
  "(ptr \<Rightarrow> u32 \<Rightarrow> 'e kt_state \<Rightarrow> 'e kt_state) \<Rightarrow> ptr \<Rightarrow> ptr \<Rightarrow> 'e kt_state \<Rightarrow> 'e kt_state option" where
  "ktimer_loop run timer tmp s =
     (if timer = timer_list s then Some s
      else ktimer_loop run tmp (lnext (tlinks (fire run timer s)) tmp) (fire run timer s))"

definition ktimer_run :: "(ptr \<Rightarrow> u32 \<Rightarrow> 'e kt_state \<Rightarrow> 'e kt_state) \<Rightarrow> 'e kt_state \<Rightarrow> 'e kt_state option" where
  "ktimer_run run s =
     (let s1 = s\<lparr>jiffies := jiffies s + 1\<rparr>;
          timer = lnext (tlinks s1) (timer_list s1)
      in ktimer_loop run timer (lnext (tlinks s1) timer) s1)"

definition ktimer_get_count :: "'e kt_state \<Rightarrow> int" where
  "ktimer_get_count s = active_timer_count s"

abbreviation HZ :: u32 where "HZ \<equiv> 100"

definition msecs_to_jiffies :: "u32 \<Rightarrow> u32" where
  "msecs_to_jiffies msec = (msec * HZ) div 1000"

definition secs_to_jiffies :: "u32 \<Rightarrow> u32" where
  "secs_to_jiffies sec = sec * HZ"

section \<open>Invariant\<close>

text \<open>The active timers are the nodes of the timer list, and the counter counts them.\<close>

definition kt_inv :: "'e kt_state \<Rightarrow> ptr list \<Rightarrow> bool" where
  "kt_inv s ts \<longleftrightarrow> dlist (tlinks s) (timer_list s) ts
     \<and> (\<forall>t. t \<noteq> timer_list s \<longrightarrow> (kt_active (timers s t) \<longleftrightarrow> t \<in> set ts))
     \<and> active_timer_count s = int (length ts)"

lemma put_timer_sel [simp]:
  "timers (put_timer p t s) = (timers s)(p := t)" "tlinks (put_timer p t s) = tlinks s"
  "jiffies (put_timer p t s) = jiffies s" "timer_list (put_timer p t s) = timer_list s"
  "active_timer_count (put_timer p t s) = active_timer_count s" "kt_env (put_timer p t s) = kt_env s"
  by (simp_all add: put_timer_def)

lemma kt_inv_add [inv_intros]:
  assumes "kt_inv s ts" and "t \<noteq> 0" "t \<noteq> timer_list s" "t \<notin> set ts" "kt_function (timers s t) \<noteq> 0"
  shows "kt_inv (ktimer_add t s) (ts @ [t])"
  using assms by (auto simp: kt_inv_def ktimer_add_def intro!: dlist_add_tail)

lemma int_remove1: "t \<in> set ts \<Longrightarrow> int (length (remove1 t ts)) = int (length ts) - 1"
  using length_pos_if_in_set [of t ts] by (subst length_remove1) (simp del: length_greater_0_conv)

lemma kt_inv_unlink:
  assumes "kt_inv s ts" and "t \<in> set ts"
    and s': "tlinks s' = list_del t (tlinks s)" "timer_list s' = timer_list s"
      "timers s' = (timers s)(t := x)" "\<not> kt_active x" "active_timer_count s' = active_timer_count s - 1"
  shows "kt_inv s' (remove1 t ts)"
proof -
  have d: "dlist (tlinks s) (timer_list s) ts" using assms(1) by (simp add: kt_inv_def)
  have "distinct ts" "t \<noteq> timer_list s" using dlist_distinct [OF d] assms(2) by auto
  then show ?thesis
    using assms dlist_del_remove1 [OF d assms(2)] by (auto simp: kt_inv_def int_remove1)
qed

lemma kt_inv_del [inv_intros]:
  assumes "kt_inv s ts" and "t \<in> set ts"
  shows "kt_inv (snd (ktimer_del t s)) (remove1 t ts) \<and> fst (ktimer_del t s) = 1"
proof -
  have d: "dlist (tlinks s) (timer_list s) ts" using assms(1) by (simp add: kt_inv_def)
  have "t \<noteq> 0" "t \<noteq> timer_list s" using dlist_distinct [OF d] dlist_nonnull [OF d] assms(2) by auto
  then have "kt_active (timers s t)" using assms by (simp add: kt_inv_def)
  then show ?thesis
    using \<open>t \<noteq> 0\<close> kt_inv_unlink [OF assms, of "snd (ktimer_del t s)" "(timers s t)\<lparr>kt_active := False\<rparr>"]
    by (simp add: ktimer_del_def)
qed

section \<open>A run\<close>

text \<open>Callbacks that leave the timer subsystem alone.\<close>

definition quiet :: "(ptr \<Rightarrow> u32 \<Rightarrow> 'e kt_state \<Rightarrow> 'e kt_state) \<Rightarrow> bool" where
  "quiet run \<longleftrightarrow> (\<forall>f d s. \<exists>e. run f d s = s\<lparr>kt_env := e\<rparr>)"

definition expired :: "'e kt_state \<Rightarrow> ptr \<Rightarrow> bool" where
  "expired s t \<longleftrightarrow> kt_expires (timers s t) \<le> jiffies s"

lemma quiet_sel:
  assumes "quiet run"
  shows "tlinks (run f d s) = tlinks s" "timers (run f d s) = timers s" "jiffies (run f d s) = jiffies s"
    "timer_list (run f d s) = timer_list s" "active_timer_count (run f d s) = active_timer_count s"
proof -
  obtain e where "run f d s = s\<lparr>kt_env := e\<rparr>" using assms unfolding quiet_def by blast
  then show "tlinks (run f d s) = tlinks s" "timers (run f d s) = timers s" "jiffies (run f d s) = jiffies s"
    "timer_list (run f d s) = timer_list s" "active_timer_count (run f d s) = active_timer_count s" by simp_all
qed

lemma fire_sel:
  assumes "quiet run"
  shows "jiffies (fire run t s) = jiffies s" "timer_list (fire run t s) = timer_list s"
    "timers (fire run t s) = (if expired s t then (timers s)(t := (timers s t)\<lparr>kt_active := False\<rparr>) else timers s)"
    "tlinks (fire run t s) = (if expired s t then list_del t (tlinks s) else tlinks s)"
    "active_timer_count (fire run t s) = active_timer_count s - (if expired s t then 1 else 0)"
  using quiet_sel [OF assms] by (simp_all add: fire_def expired_def Let_def)

lemma expired_fire [simp]: "quiet run \<Longrightarrow> expired (fire run t s) u = expired s u"
  by (simp add: expired_def fire_sel)

lemma fire_inv:
  assumes q: "quiet run" and inv: "kt_inv s (ks @ t # ts)"
  shows "kt_inv (fire run t s) (if expired s t then ks @ ts else ks @ t # ts)"
proof (cases "expired s t")
  case False
  then have "fire run t s = s" by (simp add: fire_def expired_def)
  then show ?thesis using inv False by simp
next
  case True
  have "distinct (ks @ t # ts)" using inv by (auto simp: kt_inv_def dlist_def)
  then have "remove1 t (ks @ t # ts) = ks @ ts" by (rule distinct_append_Cons_remove1)
  then show ?thesis
    using kt_inv_unlink [OF inv, of t "fire run t s" "(timers s t)\<lparr>kt_active := False\<rparr>"] True fire_sel [OF q, of t s]
    by simp
qed

text \<open>The successor of the node being visited is the next node, and the traversal has already seen \<open>ks\<close>.\<close>

lemma ktimer_loop_fold:
  assumes q: "quiet run" and inv: "kt_inv s (ks @ ts)"
  shows "\<exists>s'. ktimer_loop run (hd (ts @ [timer_list s])) (hd (tl (ts @ [timer_list s]) @ [lnext (tlinks s) (timer_list s)])) s = Some s'
    \<and> s' = fold (fire run) ts s \<and> kt_inv s' (ks @ filter (\<lambda>t. \<not> expired s t) ts)"
  using inv
proof (induction ts arbitrary: s ks)
  case Nil
  then show ?case by (subst ktimer_loop.simps) simp
next
  case (Cons t ts)
  let ?f = "fire run t s"
  have d: "dlist (tlinks s) (timer_list s) (ks @ t # ts)" using Cons.prems by (simp add: kt_inv_def)
  have ne: "t \<noteq> timer_list s" using dlist_distinct [OF d] by auto
  let ?ks = "if expired s t then ks else ks @ [t]"
  have inv': "kt_inv ?f (?ks @ ts)" using fire_inv [OF q Cons.prems] by (cases "expired s t") simp_all
  then have d': "dlist (tlinks ?f) (timer_list s) (?ks @ ts)"
    by (simp add: kt_inv_def fire_sel [OF q])
  have step: "ktimer_loop run t n s = ktimer_loop run n (lnext (tlinks ?f) n) ?f" for n
    using ne by (subst ktimer_loop.simps) simp
  have nxt: "lnext (tlinks ?f) (hd (ts @ [timer_list s])) =
      hd (tl (ts @ [timer_list ?f]) @ [lnext (tlinks ?f) (timer_list ?f)])"
  proof (cases ts)
    case Nil
    then show ?thesis by (simp add: fire_sel [OF q])
  next
    case (Cons u us)
    then show ?thesis using dlist_neighbours(2) [of "tlinks ?f" "timer_list s" ?ks u us] d'
      by (cases us) (simp_all add: fire_sel [OF q])
  qed
  obtain s' where s': "ktimer_loop run (hd (ts @ [timer_list ?f]))
      (hd (tl (ts @ [timer_list ?f]) @ [lnext (tlinks ?f) (timer_list ?f)])) ?f = Some s'"
    "s' = fold (fire run) ts ?f" "kt_inv s' (?ks @ filter (\<lambda>t. \<not> expired ?f t) ts)"
    using Cons.IH [OF inv'] by blast
  have tl: "timer_list ?f = timer_list s" by (simp add: fire_sel [OF q])
  have "ktimer_loop run t (hd (ts @ [timer_list s])) s = Some s'"
    unfolding step nxt using s'(1) unfolding tl .
  moreover have "hd (tl ((t # ts) @ [timer_list s]) @ [lnext (tlinks s) (timer_list s)]) = hd (ts @ [timer_list s])"
    by (cases ts) simp_all
  ultimately show ?case using s'(2,3) q by (cases "expired s t") simp_all
qed

lemma ktimer_run_fold:
  assumes q: "quiet run" and inv: "kt_inv s ts"
  shows "\<exists>s'. ktimer_run run s = Some s' \<and> s' = fold (fire run) ts (s\<lparr>jiffies := jiffies s + 1\<rparr>)
    \<and> kt_inv s' (filter (\<lambda>t. \<not> expired (s\<lparr>jiffies := jiffies s + 1\<rparr>) t) ts)"
proof -
  let ?s = "s\<lparr>jiffies := jiffies s + 1\<rparr>"
  have inv': "kt_inv ?s ([] @ ts)" using inv by (simp add: kt_inv_def)
  have d: "dlist (tlinks s) (timer_list s) ts" using inv by (simp add: kt_inv_def)
  have f: "lnext (tlinks s) (timer_list s) = hd (ts @ [timer_list s])"
    using d by (cases ts) (auto simp: dlist_def)
  have n: "lnext (tlinks s) (hd (ts @ [timer_list s])) =
      hd (tl (ts @ [timer_list s]) @ [lnext (tlinks s) (timer_list s)])"
  proof (cases ts)
    case Nil
    then show ?thesis by simp
  next
    case (Cons u us)
    then show ?thesis using dlist_neighbours(2) [of "tlinks s" "timer_list s" "[]" u us] d
      by (cases us) simp_all
  qed
  show ?thesis
    using ktimer_loop_fold [OF q inv'] unfolding ktimer_run_def Let_def by (simp add: f n)
qed

section \<open>Properties\<close>

definition sample_timers :: "nat kt_state" where
  "sample_timers = \<lparr>jiffies = 4, timer_list = 0x1000, tlinks = ring_of_two,
     timers = (\<lambda>_. \<lparr>kt_expires = 0, kt_function = 0, kt_data = 0, kt_active = False\<rparr>)
       (0x2000 := \<lparr>kt_expires = 5, kt_function = 0x500, kt_data = 7, kt_active = True\<rparr>,
        0x3000 := \<lparr>kt_expires = 6, kt_function = 0x500, kt_data = 9, kt_active = True\<rparr>),
     active_timer_count = 2, kt_env = 0\<rparr>"

lemma sample_timers_inv: "kt_inv sample_timers [0x2000, 0x3000]"
  using ring_of_two by (auto simp: kt_inv_def sample_timers_def)

lemma fold_fire_effect:
  fixes g :: "ptr \<Rightarrow> u32 \<Rightarrow> 'e \<Rightarrow> 'e"
  defines "run \<equiv> (\<lambda>f d u. u\<lparr>kt_env := g f d (kt_env u)\<rparr>)"
  assumes "distinct ts"
  shows "kt_env (fold (fire run) ts s) = fold (\<lambda>t. g (kt_function (timers s t)) (kt_data (timers s t)))
      (filter (\<lambda>t. kt_expires (timers s t) \<le> jiffies s \<and> kt_function (timers s t) \<noteq> 0) ts) (kt_env s)
    \<and> timers (fold (fire run) ts s) = (\<lambda>t. if t \<in> set ts \<and> kt_expires (timers s t) \<le> jiffies s
      then (timers s t)\<lparr>kt_active := False\<rparr> else timers s t)"
  using assms(2)
proof (induction ts arbitrary: s)
  case Nil
  then show ?case by simp
next
  case (Cons t ts)
  have q: "quiet run" by (auto simp: quiet_def run_def)
  let ?f = "fire run t s"
  have env: "kt_env ?f = (if kt_expires (timers s t) \<le> jiffies s \<and> kt_function (timers s t) \<noteq> 0
      then g (kt_function (timers s t)) (kt_data (timers s t)) (kt_env s) else kt_env s)"
    by (simp add: fire_def run_def Let_def)
  have other: "timers ?f u = timers s u" if "u \<noteq> t" for u using that by (simp add: fire_sel [OF q])
  have nt: "u \<noteq> t" if "u \<in> set ts" for u using Cons.prems that by auto
  have "filter (\<lambda>u. kt_expires (timers ?f u) \<le> jiffies s \<and> kt_function (timers ?f u) \<noteq> 0) ts
      = filter (\<lambda>u. kt_expires (timers s u) \<le> jiffies s \<and> kt_function (timers s u) \<noteq> 0) ts"
    by (rule filter_cong [OF refl]) (simp only: other [OF nt])
  moreover have "fold (\<lambda>u. g (kt_function (timers ?f u)) (kt_data (timers ?f u))) us e
      = fold (\<lambda>u. g (kt_function (timers s u)) (kt_data (timers s u))) us e" if "set us \<subseteq> set ts" for us e
    by (rule fold_cong [OF refl refl]) (use that other [OF nt] in \<open>simp add: subset_iff\<close>)
  ultimately have "kt_env (fold (fire run) ts ?f) = fold (\<lambda>u. g (kt_function (timers s u)) (kt_data (timers s u)))
      (filter (\<lambda>u. kt_expires (timers s u) \<le> jiffies s \<and> kt_function (timers s u) \<noteq> 0) ts) (kt_env ?f)"
    using Cons.IH [of ?f] Cons.prems by (simp add: fire_sel(1) [OF q])
  moreover have "timers (fold (fire run) ts ?f) = (\<lambda>u. if u \<in> set ts \<and> kt_expires (timers s u) \<le> jiffies s
      then (timers s u)\<lparr>kt_active := False\<rparr> else timers ?f u)"
  proof -
    have "timers (fold (fire run) ts ?f) = (\<lambda>u. if u \<in> set ts \<and> kt_expires (timers ?f u) \<le> jiffies s
        then (timers ?f u)\<lparr>kt_active := False\<rparr> else timers ?f u)"
      using Cons.IH [of ?f] Cons.prems by (simp add: fire_sel(1) [OF q])
    then show ?thesis using other [OF nt] by (auto simp: fun_eq_iff)
  qed
  ultimately show ?case using env by (auto simp: fire_sel(3) [OF q] expired_def fun_eq_iff)
qed

text \<open>C25: A tick, with callbacks \<open>g\<close> that leave the timers alone, returns: the tick counter goes up by
  one, and exactly the timers whose expiry has been reached fire. The functions of those that have one are called with their data, each once
  and in the order of the list; each timer that fired is off the list and inactive, the others stay queued and untouched, and the counter
  counts them.\<close>

theorem ktimer_run_fires_expired:
  assumes "kt_inv s ts"
  shows "\<exists>s'. ktimer_run (\<lambda>f d u. u\<lparr>kt_env := g f d (kt_env u)\<rparr>) s = Some s' \<and> jiffies s' = jiffies s + 1
    \<and> kt_env s' = fold (\<lambda>t. g (kt_function (timers s t)) (kt_data (timers s t)))
        (filter (\<lambda>t. kt_expires (timers s t) \<le> jiffies s + 1 \<and> kt_function (timers s t) \<noteq> 0) ts) (kt_env s)
    \<and> kt_inv s' (filter (\<lambda>t. jiffies s + 1 < kt_expires (timers s t)) ts)
    \<and> timers s' = (\<lambda>t. if t \<in> set ts \<and> kt_expires (timers s t) \<le> jiffies s + 1
        then (timers s t)\<lparr>kt_active := False\<rparr> else timers s t)"
proof -
  let ?s = "s\<lparr>jiffies := jiffies s + 1\<rparr>" and ?run = "\<lambda>f d u. u\<lparr>kt_env := g f d (kt_env u)\<rparr>"
  have q: "quiet ?run" by (auto simp: quiet_def)
  have j: "jiffies (fold (fire ?run) us u) = jiffies u" for us u
    by (induction us arbitrary: u) (simp_all add: fire_sel [OF q])
  have "(\<lambda>t. \<not> expired ?s t) = (\<lambda>t. jiffies s + 1 < kt_expires (timers s t))"
    by (simp add: expired_def not_le)
  moreover have d: "distinct ts" using assms by (auto simp: kt_inv_def dlist_def)
  ultimately show ?thesis
    using ktimer_run_fold [OF q assms] j [of ts ?s] fold_fire_effect [OF d, of g ?s] by auto
qed

theorem ktimer_run_fires_expired_witness:
  "\<exists>s'. ktimer_run (\<lambda>f d u. u\<lparr>kt_env := kt_env u + unat d\<rparr>) sample_timers = Some s' \<and> kt_inv s' [0x3000] \<and> kt_env s' = 7"
  using ktimer_run_fires_expired [OF sample_timers_inv, of "\<lambda>f d e. e + unat d"] by (auto simp: sample_timers_def)

text \<open>Adding a timer that has a function and is not queued appends it; adding one that is queued
  changes nothing; deleting a queued one removes it and answers 1, any other answers 0;
  modifying moves a queued timer to the end with its new expiry. The list, the active flags
  and the counter stay in step.\<close>

theorem ktimer_add_del_mod:
  assumes inv: "kt_inv s ts" and t: "t \<noteq> 0" "t \<noteq> timer_list s" and f: "kt_function (timers s t) \<noteq> 0"
  shows "kt_inv (ktimer_add t s) (if t \<in> set ts then ts else ts @ [t])
    \<and> fst (ktimer_del t s) = (if t \<in> set ts then 1 else 0)
    \<and> kt_inv (snd (ktimer_del t s)) (remove1 t ts)
    \<and> fst (ktimer_mod t e s) = (t \<in> set ts)
    \<and> kt_inv (snd (ktimer_mod t e s)) (remove1 t ts @ [t])
    \<and> kt_expires (timers (snd (ktimer_mod t e s)) t) = e"
proof -
  have act: "kt_active (timers s t) \<longleftrightarrow> t \<in> set ts" using inv t by (simp add: kt_inv_def)
  have d: "dlist (tlinks s) (timer_list s) ts" using inv by (simp add: kt_inv_def)
  have nin: "t \<notin> set (remove1 t ts)" using dlist_distinct [OF d] by simp
  have add: "kt_inv (ktimer_add t s) (if t \<in> set ts then ts else ts @ [t])"
  proof (cases "t \<in> set ts")
    case True
    then have "ktimer_add t s = s" using act by (simp add: ktimer_add_def)
    then show ?thesis using inv True by simp
  next
    case False
    then show ?thesis using kt_inv_add [OF inv t _ f] by simp
  qed
  have del: "fst (ktimer_del t s) = (if t \<in> set ts then 1 else 0) \<and> kt_inv (snd (ktimer_del t s)) (remove1 t ts)"
  proof (cases "t \<in> set ts")
    case True
    then show ?thesis using kt_inv_del [OF inv] by simp
  next
    case False
    then have "ktimer_del t s = (0, s)" using act by (simp add: ktimer_del_def)
    then show ?thesis using inv False by (simp add: remove1_idem)
  qed
  define s1 where "s1 = (if kt_active (timers s t) then snd (ktimer_del t s) else s)"
  define s2 where "s2 = put_timer t ((timers s1 t)\<lparr>kt_expires := e\<rparr>) s1"
  have md: "ktimer_mod t e s = (kt_active (timers s t), ktimer_add t s2)"
    using t(1) by (simp add: ktimer_mod_def s1_def s2_def Let_def)
  have s1: "kt_inv s1 (remove1 t ts)"
    using del inv act by (auto simp: s1_def remove1_idem)
  have sel: "timer_list s1 = timer_list s" "kt_function (timers s1 t) = kt_function (timers s t)"
    by (auto simp: s1_def ktimer_del_def)
  have "\<not> kt_active (timers s1 t)" using s1 nin t(2) sel(1) by (simp add: kt_inv_def)
  then have s2: "kt_inv s2 (remove1 t ts)" "timer_list s2 = timer_list s" "kt_function (timers s2 t) \<noteq> 0"
    "kt_expires (timers s2 t) = e"
    using s1 nin sel f by (simp_all add: kt_inv_def s2_def)
  have "kt_inv (ktimer_add t s2) (remove1 t ts @ [t])"
    using kt_inv_add [OF s2(1) t(1) _ nin s2(3)] t(2) s2(2) by simp
  moreover have "kt_expires (timers (ktimer_add t s2) t) = e" using s2(4) by (simp add: ktimer_add_def)
  ultimately show ?thesis using add del act unfolding md by simp
qed

theorem ktimer_add_del_mod_witness:
  "kt_inv (snd (ktimer_mod 0x2000 50 sample_timers)) [0x3000, 0x2000]"
  using ktimer_add_del_mod [OF sample_timers_inv, of "0x2000" 50] by (simp add: sample_timers_def)

text \<open>C29: The traversal is not safe against a callback that deletes the timer after its own: when
  the first timer's callback deletes the second, the deleted node's link is null and the
  traversal goes on from address 0 as if it were a timer.\<close>

theorem ktimer_run_next_deleted:
  assumes inv: "kt_inv s (t # u # ts)"
    and exp: "kt_expires (timers s t) \<le> jiffies s + 1" "\<not> kt_expires (timers s u) \<le> jiffies s + 1"
    and cb: "kt_function (timers s t) = f" "f \<noteq> 0" "kt_data (timers s t) = d" "run f d = (\<lambda>s. snd (ktimer_del u s))"
  shows "\<exists>s'. lnext (tlinks s') u = 0 \<and> 0 \<noteq> timer_list s'
    \<and> ktimer_run run s = ktimer_loop run 0 (lnext (tlinks s') 0) s'"
proof -
  have dl: "dlist (tlinks s) (timer_list s) (t # u # ts)" using inv by (simp add: kt_inv_def)
  then have n: "lnext (tlinks s) (timer_list s) = t" "lnext (tlinks s) t = u" by (auto simp: dlist_def)
  have ne: "t \<noteq> timer_list s" "u \<noteq> timer_list s" "u \<noteq> t" "u \<noteq> 0" "timer_list s \<noteq> 0"
    using dlist_distinct [OF dl] dlist_nonnull [OF dl] by auto
  have act: "kt_active (timers s u)" using inv ne by (simp add: kt_inv_def)
  let ?s1 = "s\<lparr>jiffies := jiffies s + 1\<rparr>"
  let ?s2 = "fire run t ?s1"
  have s2: "lnext (tlinks ?s2) u = 0" "timer_list ?s2 = timer_list s" "timers ?s2 u = (timers s u)\<lparr>kt_active := False\<rparr>"
    "jiffies ?s2 = jiffies s + 1"
    using exp(1) cb ne act by (simp_all add: fire_def ktimer_del_def list_del_poisons Let_def)
  have "fire run u ?s2 = ?s2" using exp(2) s2 by (simp add: fire_def)
  then have "ktimer_loop run u 0 ?s2 = ktimer_loop run 0 (lnext (tlinks ?s2) 0) ?s2"
    using ne s2 by (subst ktimer_loop.simps) simp
  moreover have "ktimer_run run s = ktimer_loop run u 0 ?s2"
    unfolding ktimer_run_def Let_def using ne s2(1) by (subst ktimer_loop.simps) (simp add: n)
  ultimately show ?thesis using s2 ne by (intro exI [of _ ?s2]) simp
qed

theorem ktimer_run_next_deleted_witness:
  "\<exists>s'. lnext (tlinks s') 0x3000 = 0 \<and> ktimer_run (\<lambda>f d s. snd (ktimer_del 0x3000 s)) sample_timers =
     ktimer_loop (\<lambda>f d s. snd (ktimer_del 0x3000 s)) 0 (lnext (tlinks s') 0) s'"
  using ktimer_run_next_deleted [OF sample_timers_inv, of "0x500" 7 "\<lambda>f d s. snd (ktimer_del 0x3000 s)"]
  by (auto simp: sample_timers_def)

text \<open>\<^verbatim>\<open>msecs_to_jiffies\<close> divides by ten for every delay up to 42949672 ms, about 12 hours; one
  millisecond more wraps around to no delay at all.\<close>

theorem msecs_to_jiffies_exact:
  assumes "unat msec \<le> 42949672"
  shows "unat (msecs_to_jiffies msec) = unat msec div 10 \<and> msecs_to_jiffies 42949673 = 0"
proof -
  have "unat (msec * HZ) = unat msec * 100" using assms by (simp add: unat_word_ariths)
  then have "unat (msecs_to_jiffies msec) = unat msec * 100 div (10 * 100)"
    by (simp add: msecs_to_jiffies_def unat_div)
  also have "\<dots> = unat msec div 10" by (rule div_mult_mult2) simp
  finally show ?thesis by (simp add: msecs_to_jiffies_def)
qed

theorem msecs_to_jiffies_exact_witness: "unat (msecs_to_jiffies 42949672) = 4294967"
  using msecs_to_jiffies_exact [of 42949672] by simp

end
