(* ===== verification/Net.thy ===== *)
theory Net
  imports KHeap ListHead CString
begin

text \<open>
  The network stack: packet buffers and their queues (\<^verbatim>\<open>kernel/skbuff.c\<close>), the device list
  (\<^verbatim>\<open>kernel/netdevice.c\<close>), the loopback device (\<^verbatim>\<open>drivers/net/loopback.c\<close>) and sockets
  (\<^verbatim>\<open>kernel/socket.c\<close>). Buffers and sockets are records at the addresses the kernel heap
  returned for them; a list node is at its C offset inside its object: 12 in a packet
  buffer, 24 in a device, 16 in a socket (the receive queue). A device's transmit function
  is a function address: the loopback driver's is modelled here, \<open>xmit_other\<close>, a parameter,
  stands for any other driver's.
\<close>

section \<open>State\<close>

record sk_buff =
  skb_data :: ptr
  skb_len :: u32
  skb_dev :: ptr

record net_device =
  nd_name :: "u8 list"
  nd_xmit :: ptr
  nd_recv :: ptr
  nd_priv :: ptr

record socket =
  so_type :: int
  so_bound :: bool
  so_local_addr :: u32
  so_local_port :: u16
  so_dev :: ptr

record net =
  nheap :: kheap
  nmem :: mem
  nlinks :: links
  qlens :: "ptr \<Rightarrow> u32"
  skbs :: "ptr \<Rightarrow> sk_buff"
  netdevs :: "ptr \<Rightarrow> net_device"
  netdev_list :: ptr
  socks :: "ptr \<Rightarrow> socket"

abbreviation SKB_SIZE :: u32 where "SKB_SIZE \<equiv> 20"
abbreviation SOCKET_SIZE :: u32 where "SOCKET_SIZE \<equiv> 32"
abbreviation skb_node :: "ptr \<Rightarrow> ptr" where "skb_node skb \<equiv> skb + 12"
abbreviation netdev_node :: "ptr \<Rightarrow> ptr" where "netdev_node dev \<equiv> dev + 24"
abbreviation recv_queue :: "ptr \<Rightarrow> ptr" where "recv_queue sock \<equiv> sock + 16"

section \<open>Packet buffers\<close>

definition alloc_skb :: "u32 \<Rightarrow> net \<Rightarrow> (ptr \<times> net) option" where
  "alloc_skb len s =
     Option.bind (kmalloc SKB_SIZE (nheap s)) (\<lambda>(skb, h1).
       let s1 = s\<lparr>nheap := h1\<rparr> in
       if skb = 0 then Some (0, s1)
       else Option.bind (kmalloc len h1) (\<lambda>(data, h2).
         if data = 0 then Some (0, s1\<lparr>nheap := kfree skb h2\<rparr>)
         else Some (skb, s1\<lparr>nheap := h2,
                skbs := (skbs s)(skb := \<lparr>skb_data = data, skb_len = 0, skb_dev = 0\<rparr>),
                nlinks := init_list_head (skb_node skb) (nlinks s)\<rparr>)))"

definition free_skb :: "ptr \<Rightarrow> net \<Rightarrow> net" where
  "free_skb skb s =
     (if skb = 0 then s
      else let h1 = (if skb_data (skbs s skb) \<noteq> 0 then kfree (skb_data (skbs s skb)) (nheap s) else nheap s)
           in s\<lparr>nheap := kfree skb h1\<rparr>)"

definition skb_queue_head_init :: "ptr \<Rightarrow> net \<Rightarrow> net" where
  "skb_queue_head_init q s = s\<lparr>nlinks := init_list_head q (nlinks s), qlens := (qlens s)(q := 0)\<rparr>"

definition skb_queue_tail :: "ptr \<Rightarrow> ptr \<Rightarrow> net \<Rightarrow> net" where
  "skb_queue_tail q skb s =
     (if q = 0 \<or> skb = 0 then s
      else s\<lparr>nlinks := list_add_tail (skb_node skb) q (nlinks s), qlens := (qlens s)(q := qlens s q + 1)\<rparr>)"

definition skb_dequeue :: "ptr \<Rightarrow> net \<Rightarrow> ptr \<times> net" where
  "skb_dequeue q s =
     (if q = 0 \<or> list_empty q (nlinks s) then (0, s)
      else let skb = lnext (nlinks s) q - 12
           in (skb, s\<lparr>nlinks := list_del (skb_node skb) (nlinks s), qlens := (qlens s)(q := qlens s q - 1)\<rparr>))"

section \<open>Devices\<close>

definition register_netdev :: "ptr \<Rightarrow> net \<Rightarrow> int \<times> net" where
  "register_netdev dev s =
     (if dev = 0 then (- 1, s)
      else (0, s\<lparr>nlinks := list_add_tail (netdev_node dev) (netdev_list s) (nlinks s)\<rparr>))"

definition unregister_netdev :: "ptr \<Rightarrow> net \<Rightarrow> net" where
  "unregister_netdev dev s =
     (if dev = 0 then s else s\<lparr>nlinks := list_del (netdev_node dev) (nlinks s)\<rparr>)"

definition netdev_find :: "u8 list \<Rightarrow> net \<Rightarrow> ptr option" where
  "netdev_find name s =
     Option.bind
       (list_search (\<lambda>n. byte_cmp (nd_name (netdevs s (n - 24))) name = 0)
          (netdev_list s) (lnext (nlinks s) (netdev_list s)) (nlinks s))
       (\<lambda>r. Some (case r of None \<Rightarrow> 0 | Some n \<Rightarrow> n - 24))"

text \<open>The address of the loopback driver's transmit function, and the name \<open>"lo"\<close>.\<close>

definition LOOPBACK_XMIT :: ptr where "LOOPBACK_XMIT = 0x10A000"
definition lo_name :: "u8 list" where "lo_name = [108, 111]"

definition loopback_xmit :: "ptr \<Rightarrow> ptr \<Rightarrow> net \<Rightarrow> int \<times> net" where
  "loopback_xmit skb dev s = (if skb = 0 then (- 1, s) else (0, free_skb skb s))"

definition loopback_init :: "ptr \<Rightarrow> net \<Rightarrow> net" where
  "loopback_init dev s =
     snd (register_netdev dev
       (s\<lparr>netdevs := (netdevs s)(dev := \<lparr>nd_name = lo_name, nd_xmit = LOOPBACK_XMIT, nd_recv = 0, nd_priv = 0\<rparr>),
          nlinks := init_list_head (netdev_node dev) (nlinks s)\<rparr>))"

type_synonym xmit_fn = "ptr \<Rightarrow> ptr \<Rightarrow> ptr \<Rightarrow> net \<Rightarrow> int \<times> net"

definition call_xmit :: "xmit_fn \<Rightarrow> xmit_fn" where
  "call_xmit xmit_other f skb dev s =
     (if f = LOOPBACK_XMIT then loopback_xmit skb dev s else xmit_other f skb dev s)"

section \<open>Sockets\<close>

abbreviation SOCK_STREAM :: int where "SOCK_STREAM \<equiv> 1"
abbreviation SOCK_DGRAM :: int where "SOCK_DGRAM \<equiv> 2"

definition socket_create :: "int \<Rightarrow> int \<Rightarrow> net \<Rightarrow> (ptr \<times> net) option" where
  "socket_create domain type s =
     (if type \<noteq> SOCK_DGRAM then Some (0, s)
      else Option.bind (kmalloc SOCKET_SIZE (nheap s)) (\<lambda>(sock, h1).
        let s1 = s\<lparr>nheap := h1\<rparr> in
        if sock = 0 then Some (0, s1)
        else let s2 = skb_queue_head_init (recv_queue sock) s1
             in Option.bind (netdev_find lo_name s2) (\<lambda>dev.
               Some (sock, s2\<lparr>socks := (socks s)(sock := \<lparr>so_type = type, so_bound = False,
                 so_local_addr = 0, so_local_port = 0, so_dev = dev\<rparr>)\<rparr>))))"

definition socket_bind :: "ptr \<Rightarrow> u16 \<Rightarrow> net \<Rightarrow> int \<times> net" where
  "socket_bind sock port s =
     (if sock = 0 then (- 1, s)
      else (0, s\<lparr>socks := (socks s)(sock := (socks s sock)\<lparr>so_local_port := port, so_bound := True\<rparr>)\<rparr>))"

definition socket_send :: "xmit_fn \<Rightarrow> ptr \<Rightarrow> ptr \<Rightarrow> u32 \<Rightarrow> net \<Rightarrow> (int \<times> net) option" where
  "socket_send xmit_other sock buf len s =
     (if sock = 0 \<or> buf = 0 \<or> len = 0 then Some (- 1, s)
      else if so_dev (socks s sock) = 0 then Some (- 1, s)
      else Option.bind (alloc_skb len s) (\<lambda>(skb, s1).
        if skb = 0 then Some (- 1, s1)
        else
          let dev = so_dev (socks s1 sock);
              b = skbs s1 skb;
              s2 = s1\<lparr>nmem := memcpy (skb_data b) buf len (nmem s1),
                      skbs := (skbs s1)(skb := b\<lparr>skb_len := len, skb_dev := dev\<rparr>)\<rparr>
          in if nd_xmit (netdevs s2 dev) \<noteq> 0 then
               (case call_xmit xmit_other (nd_xmit (netdevs s2 dev)) skb dev s2 of (result, s3) \<Rightarrow>
                  if result < 0 then Some (- 1, free_skb skb s3) else Some (sint len, s3))
             else Some (sint len, s2)))"

definition socket_recv :: "ptr \<Rightarrow> ptr \<Rightarrow> u32 \<Rightarrow> net \<Rightarrow> int \<times> net" where
  "socket_recv sock buf len s =
     (if sock = 0 \<or> buf = 0 \<or> len = 0 then (- 1, s)
      else case skb_dequeue (recv_queue sock) s of (skb, s1) \<Rightarrow>
        if skb = 0 then (0, s1)
        else let b = skbs s1 skb;
                 copy_len = (if skb_len b < len then skb_len b else len);
                 s2 = s1\<lparr>nmem := memcpy buf (skb_data b) copy_len (nmem s1)\<rparr>
             in (sint copy_len, free_skb skb s2))"

partial_function (option) socket_drain :: "ptr \<Rightarrow> net \<Rightarrow> net option" where
  "socket_drain q s =
     (if fst (skb_dequeue q s) = 0 then Some (snd (skb_dequeue q s))
      else socket_drain q (free_skb (fst (skb_dequeue q s)) (snd (skb_dequeue q s))))"

definition socket_close :: "ptr \<Rightarrow> net \<Rightarrow> net option" where
  "socket_close sock s =
     (if sock = 0 then Some s
      else Option.bind (socket_drain (recv_queue sock) s) (\<lambda>s1. Some (s1\<lparr>nheap := kfree sock (nheap s1)\<rparr>)))"

section \<open>Queues\<close>

text \<open>The packets of a queue, read off the list by a traversal, and what makes a queue well formed.\<close>

definition queue_nodes :: "ptr \<Rightarrow> net \<Rightarrow> ptr list" where
  "queue_nodes q s = the (list_nodes q (lnext (nlinks s) q) (nlinks s))"

definition skb_queue :: "ptr \<Rightarrow> net \<Rightarrow> ptr list" where
  "skb_queue q s = map (\<lambda>n. n - 12) (queue_nodes q s)"

definition queue_inv :: "ptr \<Rightarrow> net \<Rightarrow> bool" where
  "queue_inv q s \<longleftrightarrow> (\<exists>ns. dlist (nlinks s) q ns \<and> 12 \<notin> set ns \<and> qlens s q = of_nat (length ns))"

definition can_queue :: "ptr \<Rightarrow> ptr \<Rightarrow> net \<Rightarrow> bool" where
  "can_queue q skb s \<longleftrightarrow> skb \<noteq> 0 \<and> skb_node skb \<noteq> 0 \<and> skb_node skb \<noteq> q \<and> skb_node skb \<notin> set (queue_nodes q s)"

lemma queue_nodes_dlist: "dlist (nlinks s) q ns \<Longrightarrow> queue_nodes q s = ns"
  by (simp add: queue_nodes_def list_nodes_dlist)

lemma queue_inv_dlist: "queue_inv q s \<longleftrightarrow>
    dlist (nlinks s) q (queue_nodes q s) \<and> 12 \<notin> set (queue_nodes q s) \<and> qlens s q = of_nat (length (queue_nodes q s))"
  using queue_nodes_dlist by (auto simp: queue_inv_def)

lemma skb_queue_tail_nodes:
  assumes "queue_inv q s" and "can_queue q skb s"
  shows "queue_inv q (skb_queue_tail q skb s)" "skb_queue q (skb_queue_tail q skb s) = skb_queue q s @ [skb]"
proof -
  let ?ns = "queue_nodes q s"
  have d: "dlist (nlinks s) q ?ns" using assms(1) by (simp add: queue_inv_dlist)
  have "q \<noteq> 0" using dlist_nonnull [OF d] by auto
  then have tl: "skb_queue_tail q skb s =
      s\<lparr>nlinks := list_add_tail (skb_node skb) q (nlinks s), qlens := (qlens s)(q := qlens s q + 1)\<rparr>"
    using assms(2) by (simp add: skb_queue_tail_def can_queue_def)
  have "dlist (list_add_tail (skb_node skb) q (nlinks s)) q (?ns @ [skb_node skb])"
    using assms(2) by (intro dlist_add_tail [OF d]) (auto simp: can_queue_def)
  then have d': "dlist (nlinks (skb_queue_tail q skb s)) q (?ns @ [skb_node skb])" by (simp add: tl)
  note qn = queue_nodes_dlist [OF this]
  show "skb_queue q (skb_queue_tail q skb s) = skb_queue q s @ [skb]" by (simp add: skb_queue_def qn)
  have "12 \<noteq> skb_node skb" using assms(2) by (auto simp: can_queue_def)
  moreover have "qlens (skb_queue_tail q skb s) q = of_nat (length (?ns @ [skb_node skb]))"
    using assms(1) by (simp add: tl queue_inv_dlist add.commute)
  ultimately show "queue_inv q (skb_queue_tail q skb s)"
    using d' assms(1) unfolding queue_inv_dlist qn by (auto simp: queue_inv_dlist)
qed

lemma skb_dequeue_nodes:
  assumes "queue_inv q s"
  shows "skb_queue q s = [] \<Longrightarrow> skb_dequeue q s = (0, s)"
    and "skb_queue q s = skb # r \<Longrightarrow> fst (skb_dequeue q s) = skb \<and> skb \<noteq> 0
      \<and> skb_queue q (snd (skb_dequeue q s)) = r"
    and "queue_inv q (snd (skb_dequeue q s))"
proof -
  let ?ns = "queue_nodes q s"
  have d: "dlist (nlinks s) q ?ns" using assms by (simp add: queue_inv_dlist)
  have q: "q \<noteq> 0" using dlist_nonnull [OF d] by auto
  note emp = dlist_empty_iff [OF d]
  have sq: "skb_queue q s = map (\<lambda>n. n - 12) ?ns" by (simp add: skb_queue_def)
  show nil: "skb_dequeue q s = (0, s)" if "skb_queue q s = []"
    using that emp by (simp add: sq skb_dequeue_def)
  have cons: "fst (skb_dequeue q s) = n - 12 \<and> n - 12 \<noteq> 0 \<and> skb_queue q (snd (skb_dequeue q s)) = map (\<lambda>n. n - 12) ns
      \<and> queue_inv q (snd (skb_dequeue q s))" if ns: "?ns = n # ns" for n ns
  proof -
    have f: "lnext (nlinks s) q = n" using dlist_first d ns by metis
    have n: "n \<noteq> 12" using assms ns by (auto simp: queue_inv_dlist)
    have dq: "skb_dequeue q s = (n - 12, s\<lparr>nlinks := list_del n (nlinks s), qlens := (qlens s)(q := qlens s q - 1)\<rparr>)"
      using emp ns q f by (simp add: skb_dequeue_def Let_def)
    have "dlist (list_del n (nlinks s)) q ns" using dlist_del [of "nlinks s" q "[]" n ns] d ns by simp
    then have d': "dlist (nlinks (snd (skb_dequeue q s))) q ns" by (simp add: dq)
    have len: "qlens (snd (skb_dequeue q s)) q = of_nat (length ns)"
      using assms ns by (simp add: dq queue_inv_dlist)
    have "queue_inv q (snd (skb_dequeue q s))"
      using d' len assms ns queue_nodes_dlist [OF d'] by (auto simp: queue_inv_dlist)
    then show ?thesis using n queue_nodes_dlist [OF d'] by (simp add: dq skb_queue_def)
  qed
  show "fst (skb_dequeue q s) = skb \<and> skb \<noteq> 0 \<and> skb_queue q (snd (skb_dequeue q s)) = r"
    if c: "skb_queue q s = skb # r"
  proof -
    obtain n ns where "?ns = n # ns" "skb = n - 12" "r = map (\<lambda>n. n - 12) ns"
      using c [unfolded sq] by (cases ?ns) auto
    then show ?thesis using cons by simp
  qed
  show "queue_inv q (snd (skb_dequeue q s))"
  proof (cases ?ns)
    case Nil
    then show ?thesis using nil assms by (simp add: sq)
  next
    case (Cons n ns)
    then show ?thesis using cons by simp
  qed
qed

definition skb_deq :: "ptr \<Rightarrow> net \<Rightarrow> ptr option \<times> net" where
  "skb_deq q s = (if fst (skb_dequeue q s) = 0 then None else Some (fst (skb_dequeue q s)), snd (skb_dequeue q s))"

interpretation skbq: fifo "skb_queue q" "queue_inv q" "can_queue q" "skb_queue_tail q" "skb_deq q" for q
proof unfold_locales
  fix s x and xs :: "ptr list"
  assume inv: "queue_inv q s"
  show "can_queue q x s \<Longrightarrow> skb_queue q (skb_queue_tail q x s) = skb_queue q s @ [x]"
    "can_queue q x s \<Longrightarrow> queue_inv q (skb_queue_tail q x s)"
    using skb_queue_tail_nodes [OF inv] by blast+
  show "skb_queue q s = [] \<Longrightarrow> skb_deq q s = (None, s)"
    using skb_dequeue_nodes(1) [OF inv] by (simp add: skb_deq_def)
  show "skb_queue q s = x # xs \<Longrightarrow> fst (skb_deq q s) = Some x"
    "skb_queue q s = x # xs \<Longrightarrow> skb_queue q (snd (skb_deq q s)) = xs"
    using skb_dequeue_nodes(2) [OF inv] by (simp_all add: skb_deq_def)
  show "queue_inv q (snd (skb_deq q s))"
    using skb_dequeue_nodes(3) [OF inv] by (simp add: skb_deq_def)
qed

lemma can_enq_all_skbs:
  assumes "queue_inv q s" and "distinct xs" and "\<forall>x \<in> set xs. can_queue q x s"
  shows "skbq.can_enq_all q xs s"
  using assms
proof (induction xs arbitrary: s)
  case Nil
  then show ?case by simp
next
  case (Cons x xs)
  let ?t = "skb_queue_tail q x s"
  have sq: "map (\<lambda>n. n - 12) (queue_nodes q ?t) = map (\<lambda>n. n - 12) (queue_nodes q s) @ [x]"
    using skb_queue_tail_nodes(2) [OF Cons.prems(1), of x] Cons.prems(3) by (simp add: skb_queue_def)
  have "y + 12 \<in> set (queue_nodes q ?t) \<longleftrightarrow> y \<in> set (map (\<lambda>n. n - 12) (queue_nodes q ?t))" for y
    by (auto simp: image_iff algebra_simps)
  moreover have "y + 12 \<in> set (queue_nodes q s) \<longleftrightarrow> y \<in> set (map (\<lambda>n. n - 12) (queue_nodes q s))" for y
    by (auto simp: image_iff algebra_simps)
  ultimately have "can_queue q y ?t" if "y \<in> set xs" for y
    using that Cons.prems(2,3) unfolding can_queue_def sq by auto
  then show ?case using Cons skb_queue_tail_nodes(1) [of q s x] by simp
qed

section \<open>Buffers on the heap\<close>

text \<open>An allocated buffer is two new blocks; a failed one leaves the blocks in use as they were.\<close>

lemma alloc_skb_blocks:
  assumes inv: "heap_inv (nheap s) bs"
  obtains (fail) h bs' where "alloc_skb len s = Some (0, s\<lparr>nheap := h\<rparr>)" "heap_inv h bs'"
      "live ARENA_START bs' = live ARENA_START bs"
  | (got) skb data h bs' k j where "skb \<noteq> 0" "data \<noteq> 0" "heap_inv h bs'"
      "alloc_skb len s = Some (skb, s\<lparr>nheap := h,
         skbs := (skbs s)(skb := \<lparr>skb_data = data, skb_len = 0, skb_dev = 0\<rparr>),
         nlinks := init_list_head (skb_node skb) (nlinks s)\<rparr>)"
      "live ARENA_START bs' = insert (unat data, j) (insert (unat skb, k) (live ARENA_START bs))"
      "20 \<le> k" "unat skb \<notin> fst ` live ARENA_START bs" "unat data \<notin> insert (unat skb) (fst ` live ARENA_START bs)"
      "\<forall>(q, i) \<in> live ARENA_START bs. q + i < unat skb \<or> unat skb + k < q"
proof -
  have def: "alloc_skb len s = Option.bind (heap.alloc_pair SKB_SIZE len (nheap s)) (\<lambda>(skb, data, h).
      if skb = 0 then Some (0, s\<lparr>nheap := h\<rparr>)
      else Some (skb, s\<lparr>nheap := h,
         skbs := (skbs s)(skb := \<lparr>skb_data = data, skb_len = 0, skb_dev = 0\<rparr>),
         nlinks := init_list_head (skb_node skb) (nlinks s)\<rparr>))"
    by (auto simp: alloc_skb_def Let_def split: Option.bind_splits)
  from inv show ?thesis
  proof (cases rule: heap.alloc_pair_cases [where n = SKB_SIZE and m = len])
    case (fail h bs')
    then show ?thesis using def by (intro that(1) [of h bs']) (simp_all del: heap.alloc_pair.simps)
  next
    case (got skb data h bs' k j)
    then show ?thesis using def by (intro that(2) [OF got(2,3,4) _ got(5) _ got(8,9,10)]) (simp_all del: heap.alloc_pair.simps)
  qed
qed

lemma free_skb_blocks:
  assumes inv: "heap_inv (nheap s) bs" and nz: "skb \<noteq> 0" "skb_data (skbs s skb) \<noteq> 0"
    and l: "(unat skb, k) \<in> live ARENA_START bs" "(unat (skb_data (skbs s skb)), j) \<in> live ARENA_START bs"
    and ne: "unat skb \<noteq> unat (skb_data (skbs s skb))"
  obtains h bs' where "free_skb skb s = s\<lparr>nheap := h\<rparr>" "heap_inv h bs'"
    "live ARENA_START bs' = {(q, i) \<in> live ARENA_START bs. q \<noteq> unat skb \<and> q \<noteq> unat (skb_data (skbs s skb))}"
proof -
  have "free_skb skb s = s\<lparr>nheap := kfree skb (kfree (skb_data (skbs s skb)) (nheap s))\<rparr>"
    using nz by (simp add: free_skb_def)
  moreover obtain bs' where "heap_inv (kfree skb (kfree (skb_data (skbs s skb)) (nheap s))) bs'"
    "live ARENA_START bs' = {(q, i) \<in> live ARENA_START bs. q \<noteq> unat skb \<and> q \<noteq> unat (skb_data (skbs s skb))}"
    by (rule heap.free_pair_blocks [OF inv l]) (use ne in auto)
  ultimately show ?thesis by (rule that)
qed

section \<open>The list of network devices\<close>

definition netdevs_ok :: "net \<Rightarrow> ptr list \<Rightarrow> bool" where
  "netdevs_ok s ds \<longleftrightarrow> dlist (nlinks s) (netdev_list s) (map netdev_node ds) \<and> 0 \<notin> set ds
     \<and> (\<forall>d \<in> set ds. 0 \<notin> set (nd_name (netdevs s d)))"

definition can_register_netdev :: "ptr \<Rightarrow> net \<Rightarrow> bool" where
  "can_register_netdev d s \<longleftrightarrow> d \<noteq> 0 \<and> netdev_node d \<noteq> 0 \<and> netdev_node d \<noteq> netdev_list s \<and> 0 \<notin> set (nd_name (netdevs s d))"

interpretation netdev_reg: registry netdevs_ok can_register_netdev "\<lambda>d s. snd (register_netdev d s)" unregister_netdev netdev_find
    "\<lambda>s d. nd_name (netdevs s d)" "\<lambda>s q n. q = n \<and> 0 \<notin> set n"
proof unfold_locales
  fix s ds d
  assume ok: "netdevs_ok s ds"
  show "netdevs_ok (snd (register_netdev d s)) (ds @ [d])" if "can_register_netdev d s" "d \<notin> set ds"
    using ok that by (auto simp: netdevs_ok_def can_register_netdev_def register_netdev_def intro!: dlist_add_tail)
  show "netdevs_ok (unregister_netdev d s) (remove1 d ds)" if mem: "d \<in> set ds"
  proof -
    obtain xs ys where xy: "ds = xs @ d # ys" "d \<notin> set xs" using split_list_first [OF mem] by blast
    then have "dlist (list_del (netdev_node d) (nlinks s)) (netdev_list s) (map netdev_node (xs @ ys))"
      using ok by (auto simp: netdevs_ok_def intro!: dlist_del)
    then show ?thesis using ok xy mem by (auto simp: netdevs_ok_def unregister_netdev_def remove1_append)
  qed
  show "netdev_find q s = Some (first_named (\<lambda>d. nd_name (netdevs s d)) n ds)" if q: "q = n \<and> 0 \<notin> set n" for q n
  proof -
    have names: "\<forall>d \<in> set ds. 0 \<notin> set (nd_name (netdevs s d))" using ok by (simp add: netdevs_ok_def)
    have "find (\<lambda>m. byte_cmp (nd_name (netdevs s (m - 24))) n = 0) (map netdev_node ds) = map_option netdev_node (find (\<lambda>d. nd_name (netdevs s d) = n) ds)"
      using names q by (induction ds) (auto simp: byte_cmp_zero)
    then show ?thesis
      using ok q list_search_dlist [of "nlinks s" "netdev_list s" "map netdev_node ds"]
      by (auto simp: netdevs_ok_def netdev_find_def first_named_def split: option.splits)
  qed
  show "0 \<notin> set ds" using ok by (simp add: netdevs_ok_def)
qed (auto simp: can_register_netdev_def register_netdev_def unregister_netdev_def fun_eq_iff)

section \<open>Properties\<close>

fun skb_take :: "nat \<Rightarrow> ptr \<Rightarrow> net \<Rightarrow> ptr list" where
  "skb_take 0 q s = []"
| "skb_take (Suc n) q s =
     (case skb_dequeue q s of (skb, s') \<Rightarrow> if skb = 0 then [] else skb # skb_take n q s')"

lemma skb_take_deq_n: "skb_take n q s = fst (skbq.deq_n q n s)"
  by (induction n arbitrary: s) (auto simp: skb_deq_def split: prod.splits)

lemma skbs_enq_all: "skbq.enq_all q xs s = fold (skb_queue_tail q) xs s"
  by (induction xs arbitrary: s) auto

text \<open>A packet queue is first in, first out: buffers queued one after another come out in that
  order, after those that were queued before, and then the queue answers NULL.\<close>

theorem skb_queue_fifo:
  assumes "queue_inv q s" and "distinct xs" and "\<forall>x \<in> set xs. can_queue q x s"
  shows "skb_take (length (skb_queue q s) + length xs + n) q (fold (skb_queue_tail q) xs s) = skb_queue q s @ xs"
proof -
  let ?t = "fold (skb_queue_tail q) xs s"
  have e: "skb_queue q ?t = skb_queue q s @ xs" "queue_inv q ?t"
    using skbq.enq_all_items [OF assms(1) can_enq_all_skbs [OF assms]] by (simp_all add: skbs_enq_all)
  show ?thesis
    using skbq.deq_n_items [OF e(2), of "length (skb_queue q s) + length xs + n"]
    unfolding skb_take_deq_n e(1) by simp
qed

definition empty_net :: net where
  "empty_net = \<lparr>nheap = boot_kheap (\<lambda>_. \<lparr>hb_size = 0, hb_is_free = False, hb_next = 0\<rparr>), nmem = (\<lambda>_. 0),
     nlinks = init_list_head 0x5000 ring_of_two, qlens = (\<lambda>_. 0),
     skbs = (\<lambda>_. \<lparr>skb_data = 0, skb_len = 0, skb_dev = 0\<rparr>),
     netdevs = (\<lambda>_. \<lparr>nd_name = [], nd_xmit = LOOPBACK_XMIT, nd_recv = 0, nd_priv = 0\<rparr>), netdev_list = 0x1000,
     socks = (\<lambda>_. \<lparr>so_type = 2, so_bound = False, so_local_addr = 0, so_local_port = 0, so_dev = 0x9000\<rparr>)\<rparr>"

lemma empty_net_queue: "queue_inv 0x5000 empty_net" "skb_queue 0x5000 empty_net = []"
proof -
  have d: "dlist (nlinks empty_net) 0x5000 []" by (simp add: empty_net_def dlist_init)
  then show "queue_inv 0x5000 empty_net"
    unfolding queue_inv_def by (intro exI [of _ "[]"]) (simp add: empty_net_def)
  show "skb_queue 0x5000 empty_net = []" using queue_nodes_dlist [OF d] by (simp add: skb_queue_def)
qed

theorem skb_queue_fifo_witness:
  "skb_take 3 0x5000 (fold (skb_queue_tail 0x5000) [0x6000, 0x7000] empty_net) = [0x6000, 0x7000]"
proof -
  have "\<forall>x \<in> set [0x6000, 0x7000]. can_queue 0x5000 x empty_net"
    using empty_net_queue(2) by (simp add: can_queue_def skb_queue_def)
  then show ?thesis
    using skb_queue_fifo [OF empty_net_queue(1), of "[0x6000, 0x7000]" 1] empty_net_queue(2)
    by (simp add: numeral_3_eq_3 del: skb_take.simps)
qed

text \<open>Sending through the loopback device always returns, with the length or with -1 when a
  buffer cannot be allocated, and leaks nothing: the heap blocks in use afterwards are those
  before. But the data goes nowhere: the packet is freed, not queued, so a receive on the
  socket right after the send still finds no data.\<close>

theorem loopback_send_drops_packet:
  assumes inv: "heap_inv (nheap s) bs" and sock: "(unat sock, k) \<in> live ARENA_START bs" "32 \<le> k"
    and args: "buf \<noteq> 0" "len \<noteq> 0" and dev: "so_dev (socks s sock) \<noteq> 0"
      "nd_xmit (netdevs s (so_dev (socks s sock))) = LOOPBACK_XMIT"
    and empty: "list_empty (recv_queue sock) (nlinks s)"
  shows "\<exists>r s' bs'. socket_send other sock buf len s = Some (r, s') \<and> (r = sint len \<or> r = - 1)
    \<and> heap_inv (nheap s') bs' \<and> live ARENA_START bs' = live ARENA_START bs
    \<and> (rbuf \<noteq> 0 \<and> rlen \<noteq> 0 \<longrightarrow> fst (socket_recv sock rbuf rlen s') = 0)"
proof -
  have s0: "sock \<noteq> 0" using heap.blocks_nonzero [OF inv sock(1)] by auto
  have rng: "ARENA_START + 12 \<le> unat sock" "unat sock + k \<le> ARENA_END"
    using heap_live_range [OF inv sock(1)] by simp_all
  have recv: "fst (socket_recv sock rbuf rlen s') = 0"
    if "rbuf \<noteq> 0 \<and> rlen \<noteq> 0" "list_empty (recv_queue sock) (nlinks s')" for s'
    using that s0 by (simp add: socket_recv_def skb_dequeue_def)
  from inv show ?thesis
  proof (cases rule: alloc_skb_blocks [where len = len])
    case (fail h bs')
    have "socket_send other sock buf len s = Some (- 1, s\<lparr>nheap := h\<rparr>)"
      using s0 args dev fail(1) by (simp add: socket_send_def)
    then show ?thesis using fail recv empty
      by (intro exI [of _ "- 1"] exI [of _ "s\<lparr>nheap := h\<rparr>"] exI [of _ bs']) simp
  next
    case (got skb data h bs' i j)
    let ?b = "\<lparr>skb_data = data, skb_len = len, skb_dev = so_dev (socks s sock)\<rparr>"
    define s2 where "s2 = s\<lparr>nheap := h, nlinks := init_list_head (skb_node skb) (nlinks s),
         nmem := memcpy data buf len (nmem s), skbs := (skbs s)(skb := ?b)\<rparr>"
    have sel: "nheap s2 = h" "skb_data (skbs s2 skb) = data" "netdevs s2 = netdevs s"
      "nlinks s2 = init_list_head (skb_node skb) (nlinks s)" by (simp_all add: s2_def)
    have a: "heap_inv (nheap s2) bs'" "skb_data (skbs s2 skb) \<noteq> 0" using got(2,3) sel by simp_all
    have b: "(unat skb, i) \<in> live ARENA_START bs'" "(unat (skb_data (skbs s2 skb)), j) \<in> live ARENA_START bs'"
      using got(5) sel by simp_all
    have c: "unat skb \<noteq> unat (skb_data (skbs s2 skb))" using got(8) sel by auto
    obtain h' bs3 where f: "free_skb skb s2 = s2\<lparr>nheap := h'\<rparr>" "heap_inv h' bs3"
      "live ARENA_START bs3 = {(q, i) \<in> live ARENA_START bs'. q \<noteq> unat skb \<and> q \<noteq> unat (skb_data (skbs s2 skb))}"
      by (rule free_skb_blocks [OF a(1) got(1) a(2) b c])
    have live3: "live ARENA_START bs3 = live ARENA_START bs"
      unfolding f(3) got(5) sel using got(7,8) by force
    have "(unat skb, i) \<in> live ARENA_START bs'" using got(5) by simp
    then have rng2: "ARENA_START + 12 \<le> unat skb" "unat skb + i \<le> ARENA_END"
      using heap_live_range [OF got(3)] by simp_all
    have ap: "unat sock + k < unat skb \<or> unat skb + i < unat sock" using got(9) sock(1) by blast
    have "skb_node skb \<noteq> recv_queue sock"
    proof
      assume e: "skb_node skb = recv_queue sock"
      have "unat (skb_node skb) = unat skb + 12" "unat (recv_queue sock) = unat sock + 16"
        using rng rng2 got(6) sock(2) by (simp_all add: unat_add_u32)
      then show False using e ap got(6) sock(2) by simp
    qed
    then have "lnext (nlinks s2) (recv_queue sock) = lnext (nlinks s) (recv_queue sock)"
      unfolding sel by (intro init_list_head_frame [THEN conjunct1]) 
    then have e2: "list_empty (recv_queue sock) (nlinks (s2\<lparr>nheap := h'\<rparr>))" using empty by (simp add: list_empty_def)
    have "LOOPBACK_XMIT \<noteq> 0" by (simp add: LOOPBACK_XMIT_def)
    then have "socket_send other sock buf len s = Some (sint len, s2\<lparr>nheap := h'\<rparr>)"
      using s0 args dev got(1,4) f(1)
      by (simp add: socket_send_def call_xmit_def loopback_xmit_def Let_def s2_def)
    then show ?thesis using f(2) live3 recv e2
      by (intro exI [of _ "sint len"] exI [of _ "s2\<lparr>nheap := h'\<rparr>"] exI [of _ bs3]) simp
  qed
qed

theorem loopback_send_drops_packet_witness:
  "\<forall>other. \<exists>s r s'. socket_send other 0x20000C 0x9000 4 s = Some (r, s') \<and> fst (socket_recv 0x20000C 0x9000 4 s') = 0"
proof
  fix other
  have "alloc_abs (unat (align16 32)) ARENA_START [(0xFFFF4, True)] = Some (0x20000C, [(32, False), (0xFFFC8, True)])"
    by (simp add: align16_def take_abs_def)
  from heap_alloc_new [OF boot_kheap_inv this]
  obtain h where h: "heap_inv h [(32, False), (0xFFFC8, True)]" by blast
  define s where "s = empty_net\<lparr>nheap := h, nlinks := init_list_head (recv_queue 0x20000C) (nlinks empty_net)\<rparr>"
  have a: "heap_inv (nheap s) [(32, False), (0xFFFC8, True)]" using h by (simp add: s_def)
  have b: "(unat (0x20000C :: ptr), 32) \<in> live ARENA_START [(32, False), (0xFFFC8, True)]" by simp
  have c: "so_dev (socks s 0x20000C) \<noteq> 0" "nd_xmit (netdevs s (so_dev (socks s 0x20000C))) = LOOPBACK_XMIT"
    "list_empty (recv_queue 0x20000C) (nlinks s)"
    by (simp_all add: s_def empty_net_def list_empty_def init_list_head_def)
  have d: "(0x9000 :: ptr) \<noteq> 0" "(4 :: u32) \<noteq> 0" by simp_all
  show "\<exists>s r s'. socket_send other 0x20000C 0x9000 4 s = Some (r, s') \<and> fst (socket_recv 0x20000C 0x9000 4 s') = 0"
    using loopback_send_drops_packet [OF a b order_refl d c, of other "0x9000" 4] d by blast
qed

end
