(* ===== verification/Keyboard.thy ===== *)
theory Keyboard
  imports Interfaces
begin

text \<open>
  The keyboard driver, \<^verbatim>\<open>drivers/keyboard.c\<close>: scancode decoding with the shift and
  extended-prefix state, and the ring buffer of 256 characters between the interrupt handler
  and the reader. The acknowledgement of the interrupt has no counterpart.
  \<open>keyboard_getchar\<close> is \<open>None\<close> while it would wait.
\<close>

section \<open>State and operations\<close>

abbreviation KEYBOARD_BUFFER_SIZE :: nat where "KEYBOARD_BUFFER_SIZE \<equiv> 256"

record kbd =
  keyboard_buffer :: "nat \<Rightarrow> u8"
  buffer_start :: nat
  buffer_end :: nat
  shift_pressed :: bool
  extended_mode :: bool

definition scancode_to_ascii :: "u8 list" where
  "scancode_to_ascii =
     [0, 0] @ map of_char ''1234567890-='' @ [8, 9] @ map of_char ''qwertyuiop[]'' @ [10,
      0] @ map of_char ''asdfghjkl;'' @ [39, 96,
      0, 92] @ map of_char ''zxcvbnm,./'' @ [0,
      42, 0, 32]"

definition scancode_to_ascii_shift :: "u8 list" where
  "scancode_to_ascii_shift =
     [0, 0] @ map of_char ''!@#$%^&*()_+'' @ [8, 9] @ map of_char ''QWERTYUIOP{}'' @ [10,
      0] @ map of_char ''ASDFGHJKL:'' @ [34, 126,
      0, 124] @ map of_char ''ZXCVBNM<>?'' @ [0,
      42, 0, 32]"

abbreviation SCANCODE_LSHIFT :: u8 where "SCANCODE_LSHIFT \<equiv> 0x2A"
abbreviation SCANCODE_RSHIFT :: u8 where "SCANCODE_RSHIFT \<equiv> 0x36"

definition buffer_put :: "u8 \<Rightarrow> kbd \<Rightarrow> kbd" where
  "buffer_put ascii s =
     s\<lparr>keyboard_buffer := (keyboard_buffer s)(buffer_end s := ascii),
       buffer_end := (buffer_end s + 1) mod KEYBOARD_BUFFER_SIZE\<rparr>"

definition keyboard_handler :: "u8 \<Rightarrow> kbd \<Rightarrow> kbd" where
  "keyboard_handler scancode s =
     (if scancode = 0xE0 then s\<lparr>extended_mode := True\<rparr>
      else if scancode = SCANCODE_LSHIFT \<or> scancode = SCANCODE_RSHIFT then s\<lparr>shift_pressed := True\<rparr>
      else if scancode = SCANCODE_LSHIFT OR 0x80 \<or> scancode = SCANCODE_RSHIFT OR 0x80
      then s\<lparr>shift_pressed := False\<rparr>
      else if scancode AND 0x80 \<noteq> 0 then s\<lparr>extended_mode := False\<rparr>
      else
        let (ascii, s1) =
              (if extended_mode s then
                 (if scancode = 0x48 then 0x11 else if scancode = 0x50 then 0x12 else 0,
                  s\<lparr>extended_mode := False\<rparr>)
               else
                 (if unat scancode < length scancode_to_ascii then
                    (if shift_pressed s then scancode_to_ascii_shift ! unat scancode
                     else scancode_to_ascii ! unat scancode)
                  else 0, s))
        in if ascii \<noteq> 0 then buffer_put ascii s1 else s1)"

definition keyboard_available :: "kbd \<Rightarrow> bool" where
  "keyboard_available s \<longleftrightarrow> buffer_start s \<noteq> buffer_end s"

definition keyboard_getchar :: "kbd \<Rightarrow> (u8 \<times> kbd) option" where
  "keyboard_getchar s =
     (if buffer_start s = buffer_end s then None
      else Some (keyboard_buffer s (buffer_start s),
                 s\<lparr>buffer_start := (buffer_start s + 1) mod KEYBOARD_BUFFER_SIZE\<rparr>))"

section \<open>The ring buffer as a queue\<close>

definition kbd_inv :: "kbd \<Rightarrow> bool" where
  "kbd_inv s \<longleftrightarrow> buffer_start s < KEYBOARD_BUFFER_SIZE \<and> buffer_end s < KEYBOARD_BUFFER_SIZE"

definition pending :: "kbd \<Rightarrow> nat" where
  "pending s = (buffer_end s + KEYBOARD_BUFFER_SIZE - buffer_start s) mod KEYBOARD_BUFFER_SIZE"

definition typed :: "kbd \<Rightarrow> u8 list" where
  "typed s = map (\<lambda>i. keyboard_buffer s ((buffer_start s + i) mod KEYBOARD_BUFFER_SIZE)) [0..<pending s]"

lemma length_typed [simp]: "length (typed s) = pending s"
  by (simp add: typed_def)

lemma pending_cases:
  assumes "kbd_inv s"
  shows "pending s = (if buffer_start s \<le> buffer_end s then buffer_end s - buffer_start s
    else buffer_end s + KEYBOARD_BUFFER_SIZE - buffer_start s)"
  using assms by (auto simp: pending_def kbd_inv_def mod_if)

lemma pending_zero: "kbd_inv s \<Longrightarrow> pending s = 0 \<longleftrightarrow> buffer_start s = buffer_end s"
  by (auto simp: pending_cases) (auto simp: kbd_inv_def)

lemma end_slot:
  assumes "kbd_inv s" shows "(buffer_start s + pending s) mod KEYBOARD_BUFFER_SIZE = buffer_end s"
  using assms by (auto simp: pending_cases kbd_inv_def)

lemma ring_slot_inj:
  assumes "i < KEYBOARD_BUFFER_SIZE" "j < KEYBOARD_BUFFER_SIZE" "a < KEYBOARD_BUFFER_SIZE"
    and "(a + i) mod KEYBOARD_BUFFER_SIZE = (a + j) mod KEYBOARD_BUFFER_SIZE"
  shows "i = j"
  using assms by (auto simp: mod_if split: if_splits)

lemma buffer_put_sel [simp]:
  "buffer_start (buffer_put c s) = buffer_start s"
  "buffer_end (buffer_put c s) = (buffer_end s + 1) mod KEYBOARD_BUFFER_SIZE"
  "keyboard_buffer (buffer_put c s) = (keyboard_buffer s)(buffer_end s := c)"
  by (simp_all add: buffer_put_def)

lemma buffer_put_inv [inv_intros]: "kbd_inv s \<Longrightarrow> kbd_inv (buffer_put c s)"
  by (simp add: kbd_inv_def)

lemma pending_put:
  assumes "kbd_inv s"
  shows "pending (buffer_put c s) = (if pending s = 255 then 0 else pending s + 1)"
  using assms buffer_put_inv [OF assms, of c]
  by (auto simp: pending_cases) (auto simp: kbd_inv_def mod_if split: if_splits)

lemma typed_put:
  assumes inv: "kbd_inv s" and room: "pending s < 255"
  shows "typed (buffer_put c s) = typed s @ [c]"
proof (rule nth_equalityI)
  have p: "pending (buffer_put c s) = pending s + 1" using pending_put [OF inv] room by simp
  then show "length (typed (buffer_put c s)) = length (typed s @ [c])" by simp
  fix i
  assume "i < length (typed (buffer_put c s))"
  then have i: "i \<le> pending s" using p by simp
  have st: "buffer_start s < KEYBOARD_BUFFER_SIZE" using inv by (simp add: kbd_inv_def)
  show "typed (buffer_put c s) ! i = (typed s @ [c]) ! i"
  proof (cases "i = pending s")
    case True
    then show ?thesis using end_slot [OF inv] p by (simp add: typed_def nth_append)
  next
    case False
    then have "(buffer_start s + i) mod KEYBOARD_BUFFER_SIZE \<noteq> buffer_end s"
      using ring_slot_inj [of i "pending s", OF _ _ st] i room unfolding end_slot [OF inv, symmetric] by auto
    then show ?thesis using False i p by (simp add: typed_def nth_append del: upt_Suc)
  qed
qed

definition key_deq :: "kbd \<Rightarrow> u8 option \<times> kbd" where
  "key_deq s = (case keyboard_getchar s of None \<Rightarrow> (None, s) | Some (c, s') \<Rightarrow> (Some c, s'))"

lemma typed_Cons_get:
  assumes inv: "kbd_inv s" and t: "typed s = c # cs"
  obtains s' where "keyboard_getchar s = Some (c, s')" "typed s' = cs" "kbd_inv s'"
proof -
  let ?s = "s\<lparr>buffer_start := (buffer_start s + 1) mod KEYBOARD_BUFFER_SIZE\<rparr>"
  have p: "pending s = Suc (length cs)" using arg_cong [OF t, of length] by simp
  then have ne: "buffer_start s \<noteq> buffer_end s" using pending_zero [OF inv] by auto
  have c: "keyboard_buffer s (buffer_start s) = c"
    using t p inv by (simp add: typed_def upt_conv_Cons kbd_inv_def del: upt_Suc)
  have inv': "kbd_inv ?s" using inv by (simp add: kbd_inv_def)
  have p': "pending ?s = length cs"
    using p pending_cases [OF inv] pending_cases [OF inv'] ne inv
    by (auto simp: kbd_inv_def mod_if split: if_splits)
  have "typed ?s = cs"
  proof (rule nth_equalityI)
    show "length (typed ?s) = length cs" using p' by simp
    fix i
    assume "i < length (typed ?s)"
    then have i: "i < length cs" using p' by simp
    have "cs ! i = typed s ! Suc i" using t by simp
    also have "\<dots> = keyboard_buffer s ((buffer_start s + Suc i) mod KEYBOARD_BUFFER_SIZE)"
      using i p by (simp add: typed_def del: upt_Suc)
    also have "(buffer_start s + Suc i) mod KEYBOARD_BUFFER_SIZE =
        ((buffer_start s + 1) mod KEYBOARD_BUFFER_SIZE + i) mod KEYBOARD_BUFFER_SIZE"
      by (simp add: mod_add_left_eq)
    finally show "typed ?s ! i = cs ! i" using i p' by (simp add: typed_def)
  qed
  then show ?thesis using that inv' ne c by (simp add: keyboard_getchar_def)
qed

interpretation keys: fifo typed kbd_inv "\<lambda>c s. pending s < 255" buffer_put key_deq
proof unfold_locales
  fix s :: kbd and x xs
  assume inv: "kbd_inv s"
  show "pending s < 255 \<Longrightarrow> typed (buffer_put x s) = typed s @ [x]" by (rule typed_put [OF inv])
  show "kbd_inv (buffer_put x s)" by (rule buffer_put_inv [OF inv])
  show "typed s = [] \<Longrightarrow> key_deq s = (None, s)"
    using pending_zero [OF inv] length_typed [of s] by (simp add: key_deq_def keyboard_getchar_def del: length_typed)
  show "typed s = x # xs \<Longrightarrow> fst (key_deq s) = Some x"
    "typed s = x # xs \<Longrightarrow> typed (snd (key_deq s)) = xs"
    by (auto simp: key_deq_def elim!: typed_Cons_get [OF inv])
  show "kbd_inv (snd (key_deq s))"
    using inv by (auto simp: key_deq_def keyboard_getchar_def kbd_inv_def)
qed

section \<open>Decoding\<close>

text \<open>The character a make code stands for in the current mode, 0 for none.\<close>

definition key_char :: "kbd \<Rightarrow> u8 \<Rightarrow> u8" where
  "key_char s sc =
     (if sc = 0xE0 \<or> sc \<in> {SCANCODE_LSHIFT, SCANCODE_RSHIFT} \<or> 0x80 \<le> sc then 0
      else if extended_mode s then (if sc = 0x48 then 0x11 else if sc = 0x50 then 0x12 else 0)
      else if unat sc < 58 then
        (if shift_pressed s then scancode_to_ascii_shift ! unat sc else scancode_to_ascii ! unat sc)
      else 0)"

lemma length_tables [simp]: "length scancode_to_ascii = 58" "length scancode_to_ascii_shift = 58"
  by (simp_all add: scancode_to_ascii_def scancode_to_ascii_shift_def)

lemma high_bit_u8: "(sc :: u8) AND 0x80 \<noteq> 0 \<longleftrightarrow> 0x80 \<le> sc"
proof -
  have lt: "unat sc < 256" using unsigned_less [of sc] by simp
  have "sc AND 0x80 \<noteq> 0 \<longleftrightarrow> bit sc 7"
    by (simp add: bit_iff_and_push_bit_not_eq_0 push_bit_eq_mult)
  also have "\<dots> \<longleftrightarrow> bit (unat sc) 7" by (simp add: bit_unsigned_iff)
  also have "\<dots> \<longleftrightarrow> odd (unat sc div 128)" by (simp add: bit_iff_odd)
  also have "\<dots> \<longleftrightarrow> 128 \<le> unat sc"
  proof (cases "128 \<le> unat sc")
    case True
    then have "unat sc div 128 = 1" using lt by (intro div_nat_eqI) simp_all
    then show ?thesis using True by simp
  qed simp
  finally show ?thesis by (simp add: word_le_nat_alt)
qed

lemma keyboard_handler_char:
  "key_char s sc \<noteq> 0 \<Longrightarrow> \<exists>s1. keyboard_handler sc s = buffer_put (key_char s sc) s1
     \<and> buffer_start s1 = buffer_start s \<and> buffer_end s1 = buffer_end s \<and> keyboard_buffer s1 = keyboard_buffer s"
  using high_bit_u8 [of sc]
  by (auto simp: key_char_def keyboard_handler_def Let_def not_le split: if_splits intro!: exI)

lemma keyboard_handler_no_char:
  "key_char s sc = 0 \<Longrightarrow> buffer_start (keyboard_handler sc s) = buffer_start s
     \<and> buffer_end (keyboard_handler sc s) = buffer_end s \<and> keyboard_buffer (keyboard_handler sc s) = keyboard_buffer s"
  using high_bit_u8 [of sc]
  by (auto simp: key_char_def keyboard_handler_def Let_def not_le split: if_splits)

section \<open>Properties\<close>

fun read_keys :: "nat \<Rightarrow> kbd \<Rightarrow> u8 list" where
  "read_keys 0 s = []"
| "read_keys (Suc n) s =
     (case keyboard_getchar s of None \<Rightarrow> [] | Some (c, s') \<Rightarrow> c # read_keys n s')"

lemma read_keys_deq_n: "read_keys n s = fst (keys.deq_n n s)"
  by (induction n arbitrary: s) (auto simp: key_deq_def split: option.splits prod.splits)

lemma typed_cong:
  "buffer_start t = buffer_start s \<Longrightarrow> buffer_end t = buffer_end s \<Longrightarrow> keyboard_buffer t = keyboard_buffer s
    \<Longrightarrow> typed t = typed s \<and> kbd_inv t = kbd_inv s \<and> pending t = pending s"
  by (simp add: typed_def pending_def kbd_inv_def)

text \<open>One interrupt with any scancode: a code that stands for a character in the current shift
  and extended state appends that character to those waiting, any other leaves them alone,
  and reading returns the waiting characters in the order they were typed. The ring has no
  test for a full buffer: the character that would be the 256th waiting makes the buffer
  look empty, and all that was typed is lost.\<close>

theorem keyboard_handler_queues:
  assumes "kbd_inv s"
  shows "let t = keyboard_handler sc s in kbd_inv t
    \<and> typed t = (if key_char s sc = 0 then typed s
        else if length (typed s) < 255 then typed s @ [key_char s sc] else [])
    \<and> read_keys n t = take n (typed t) \<and> (keyboard_available t \<longleftrightarrow> typed t \<noteq> [])"
proof -
  let ?t = "keyboard_handler sc s"
  have t: "kbd_inv ?t \<and> typed ?t = (if key_char s sc = 0 then typed s
        else if length (typed s) < 255 then typed s @ [key_char s sc] else [])"
  proof (cases "key_char s sc = 0")
    case True
    then show ?thesis using keyboard_handler_no_char [OF True] typed_cong [of ?t s] assms by simp
  next
    case False
    then obtain s1 where s1: "?t = buffer_put (key_char s sc) s1" "typed s1 = typed s" "kbd_inv s1" "pending s1 = pending s"
      using keyboard_handler_char typed_cong assms by metis
    show ?thesis
    proof (cases "pending s < 255")
      case True
      then show ?thesis using s1 False typed_put buffer_put_inv by simp
    next
      case full: False
      have "pending s < 256" by (simp add: pending_def)
      then have "pending (buffer_put (key_char s sc) s1) = 0"
        using full pending_put [OF s1(3)] s1(4) by simp
      then have "typed ?t = []" using s1(1) by (simp add: typed_def)
      then show ?thesis using s1 full False buffer_put_inv by simp
    qed
  qed
  have "keyboard_available ?t \<longleftrightarrow> typed ?t \<noteq> []"
    using pending_zero [of ?t] t length_typed [of ?t] by (auto simp: keyboard_available_def simp del: length_typed)
  then show ?thesis using t keys.deq_n_items [of ?t n] by (simp add: Let_def read_keys_deq_n)
qed

theorem keyboard_handler_queues_witness:
  "read_keys 1 (keyboard_handler 0x1E \<lparr>keyboard_buffer = (\<lambda>_. 0), buffer_start = 3, buffer_end = 3,
     shift_pressed = True, extended_mode = False\<rparr>) = [65]"
proof -
  define s where "s = \<lparr>keyboard_buffer = (\<lambda>_. 0), buffer_start = 3, buffer_end = 3,
     shift_pressed = True, extended_mode = False\<rparr>"
  have "kbd_inv s" "key_char s 0x1E = 65" "typed s = []"
    by (simp_all add: s_def kbd_inv_def key_char_def scancode_to_ascii_shift_def typed_def pending_def)
  then show ?thesis using keyboard_handler_queues [of s "0x1E" 1] by (simp add: s_def Let_def)
qed

end
