(* ===== verification/Console.thy ===== *)
theory Console
  imports Prelude
begin

text \<open>
  The text console \<^verbatim>\<open>drivers/vga.c\<close> and the kernel log \<^verbatim>\<open>kernel/printk.c\<close>. The screen is a
  map from cell numbers to 16-bit cells, so a write outside the 2000 visible cells shows.
  Strings are the bytes before the terminator. A format call is given its arguments as
  words, \<open>str_at\<close> reads the string a \<^verbatim>\<open>%s\<close> argument points to; reading past the format's
  terminator and running out of arguments are errors of a sum type.
\<close>

section \<open>The text screen\<close>

abbreviation VGA_WIDTH :: nat where "VGA_WIDTH \<equiv> 80"
abbreviation VGA_HEIGHT :: nat where "VGA_HEIGHT \<equiv> 25"

abbreviation VGA_COLOR_BLACK :: u8 where "VGA_COLOR_BLACK \<equiv> 0"
abbreviation VGA_COLOR_RED :: u8 where "VGA_COLOR_RED \<equiv> 4"
abbreviation VGA_COLOR_LIGHT_GREY :: u8 where "VGA_COLOR_LIGHT_GREY \<equiv> 7"
abbreviation VGA_COLOR_LIGHT_BLUE :: u8 where "VGA_COLOR_LIGHT_BLUE \<equiv> 9"
abbreviation VGA_COLOR_LIGHT_GREEN :: u8 where "VGA_COLOR_LIGHT_GREEN \<equiv> 10"
abbreviation VGA_COLOR_LIGHT_CYAN :: u8 where "VGA_COLOR_LIGHT_CYAN \<equiv> 11"
abbreviation VGA_COLOR_LIGHT_RED :: u8 where "VGA_COLOR_LIGHT_RED \<equiv> 12"
abbreviation VGA_COLOR_YELLOW :: u8 where "VGA_COLOR_YELLOW \<equiv> 14"
abbreviation VGA_COLOR_WHITE :: u8 where "VGA_COLOR_WHITE \<equiv> 15"

record vga =
  vga_buffer :: "nat \<Rightarrow> u16"
  vga_row :: nat
  vga_column :: nat
  vga_current_color :: u8
  vga_cursor :: u16

definition vga_color :: "u8 \<Rightarrow> u8 \<Rightarrow> u8" where
  "vga_color fg bg = fg OR push_bit 4 bg"

text \<open>A cell: the character is signed, so its conversion to 16 bits extends the sign.\<close>

definition cell :: "u8 \<Rightarrow> u8 \<Rightarrow> u16" where
  "cell c color = scast c OR push_bit 8 (ucast color)"

definition vga_update_cursor :: "nat \<Rightarrow> nat \<Rightarrow> vga \<Rightarrow> vga" where
  "vga_update_cursor x y s = s\<lparr>vga_cursor := of_nat (y * VGA_WIDTH + x)\<rparr>"

definition vga_clear :: "vga \<Rightarrow> vga" where
  "vga_clear s =
     vga_update_cursor 0 0
       (s\<lparr>vga_buffer := fold (\<lambda>y. fold (\<lambda>x b. b(y * VGA_WIDTH + x := cell (ch CHR '' '') (vga_current_color s)))
            [0..<VGA_WIDTH]) [0..<VGA_HEIGHT] (vga_buffer s),
          vga_row := 0, vga_column := 0\<rparr>)"

definition vga_init :: "vga \<Rightarrow> vga" where
  "vga_init s = vga_clear (s\<lparr>vga_current_color := vga_color VGA_COLOR_LIGHT_GREY VGA_COLOR_BLACK\<rparr>)"

definition vga_set_color :: "u8 \<Rightarrow> u8 \<Rightarrow> vga \<Rightarrow> vga" where
  "vga_set_color foreground background s = s\<lparr>vga_current_color := vga_color foreground background\<rparr>"

definition vga_putchar_at :: "u8 \<Rightarrow> u8 \<Rightarrow> nat \<Rightarrow> nat \<Rightarrow> vga \<Rightarrow> vga" where
  "vga_putchar_at c color x y s = s\<lparr>vga_buffer := (vga_buffer s)(y * VGA_WIDTH + x := cell c color)\<rparr>"

definition vga_scroll :: "vga \<Rightarrow> vga" where
  "vga_scroll s =
     (let b1 = fold (\<lambda>y. fold (\<lambda>x b. b(y * VGA_WIDTH + x := b ((y + 1) * VGA_WIDTH + x)))
                 [0..<VGA_WIDTH]) [0..<VGA_HEIGHT - 1] (vga_buffer s);
          b2 = fold (\<lambda>x b. b((VGA_HEIGHT - 1) * VGA_WIDTH + x := cell (ch CHR '' '') (vga_current_color s)))
                 [0..<VGA_WIDTH] b1
      in s\<lparr>vga_buffer := b2, vga_row := VGA_HEIGHT - 1\<rparr>)"

definition vga_putchar :: "u8 \<Rightarrow> vga \<Rightarrow> vga" where
  "vga_putchar c s =
     (let s1 = (if c = 10 then s\<lparr>vga_column := 0, vga_row := vga_row s + 1\<rparr>
                else if c = 13 then s\<lparr>vga_column := 0\<rparr>
                else if c = 8 then
                  (if 0 < vga_column s then
                     (let s' = s\<lparr>vga_column := vga_column s - 1\<rparr>
                      in vga_putchar_at (ch CHR '' '') (vga_current_color s') (vga_column s') (vga_row s') s')
                   else s)
                else (vga_putchar_at c (vga_current_color s) (vga_column s) (vga_row s) s)
                       \<lparr>vga_column := vga_column s + 1\<rparr>);
          s2 = (if VGA_WIDTH \<le> vga_column s1 then s1\<lparr>vga_column := 0, vga_row := vga_row s1 + 1\<rparr> else s1);
          s3 = (if VGA_HEIGHT \<le> vga_row s2 then vga_scroll s2 else s2)
      in vga_update_cursor (vga_column s3) (vga_row s3) s3)"

definition vga_print :: "u8 list \<Rightarrow> vga \<Rightarrow> vga" where
  "vga_print str s = fold vga_putchar str s"

definition vga_print_color :: "u8 list \<Rightarrow> u8 \<Rightarrow> vga \<Rightarrow> vga" where
  "vga_print_color str color s =
     (vga_print str (s\<lparr>vga_current_color := color\<rparr>))\<lparr>vga_current_color := vga_current_color s\<rparr>"

definition logo_color :: "nat \<Rightarrow> u8" where
  "logo_color j =
     (if j < 8 then VGA_COLOR_LIGHT_BLUE else if j < 18 then VGA_COLOR_WHITE
      else if j < 26 then VGA_COLOR_WHITE else if j < 36 then VGA_COLOR_LIGHT_RED
      else if j < 44 then VGA_COLOR_YELLOW else VGA_COLOR_LIGHT_GREEN)"

definition splash_logo :: "u8 list list" where
  "splash_logo =
     [lit ''V     V    aaa    l       ccc    OOO    SSS '',
      lit ''V     V   a   a   l      c      O   O  S    '',
      lit '' V   V    aaaaa   l      c      O   O   SSS '',
      lit ''  V V     a   a   l      c      O   O      S'',
      lit ''   V      a   a   lllll   ccc    OOO    SSS '']"

definition vga_draw_splash_text :: "vga \<Rightarrow> vga" where
  "vga_draw_splash_text s =
     (let s1 = vga_clear s;
          s2 = fold (\<lambda>i. fold (\<lambda>j t. t\<lparr>vga_buffer := (vga_buffer t)
                 ((6 + i) * VGA_WIDTH + (22 + j) := cell (splash_logo ! i ! j) (logo_color j))\<rparr>)
                 [0..<length (splash_logo ! i)]) [0..<5] s1
      in fold (\<lambda>k t. t\<lparr>vga_buffer := (vga_buffer t)
            (15 * VGA_WIDTH + (29 + k) := cell (lit ''Initializing ValcOS...'' ! k) VGA_COLOR_LIGHT_GREY)\<rparr>)
            [0..<22] s2)"

section \<open>The screen stays inside its memory\<close>

definition vga_inv :: "vga \<Rightarrow> bool" where
  "vga_inv s \<longleftrightarrow> vga_row s < VGA_HEIGHT \<and> vga_column s < VGA_WIDTH"

lemma vga_scroll_sel [simp]:
  "vga_row (vga_scroll s) = 24" "vga_column (vga_scroll s) = vga_column s"
  "vga_current_color (vga_scroll s) = vga_current_color s"
  by (simp_all add: vga_scroll_def Let_def)

lemma vga_scroll_buffer:
  "vga_buffer (vga_scroll s) =
     (\<lambda>i. if (25 - 1) * 80 \<le> i \<and> i < (25 - 1) * 80 + 80 then cell (ch CHR '' '') (vga_current_color s)
       else if i < (25 - 1) * 80 then vga_buffer s (i + 80) else vga_buffer s i)"
proof -
  have "(y + 1) * 80 + x = y * 80 + x + 80" for x y :: nat by simp
  then have "vga_buffer (vga_scroll s) =
     fold (\<lambda>x b. b((25 - 1) * 80 + x := cell (ch CHR '' '') (vga_current_color s))) [0..<80]
      (fold (\<lambda>y. fold (\<lambda>x b. b(y * 80 + x := b (y * 80 + x + 80))) [0..<80]) [0..<25 - 1] (vga_buffer s))"
    by (cases s) (simp only: vga_scroll_def Let_def vga.simps)
  then show ?thesis
    by (simp only: fold_fill_row nested_fold [of "\<lambda>i b. b(i := b (i + 80))"] fold_shift)
qed

lemma vga_scroll_cells:
  "vga_buffer (vga_scroll s) i =
     (if i < 1920 then vga_buffer s (i + 80)
      else if i < 2000 then cell (ch CHR '' '') (vga_current_color s) else vga_buffer s i)"
  unfolding vga_scroll_buffer by simp

lemma vga_clear_cells:
  "vga_buffer (vga_clear s) i = (if i < 2000 then cell (ch CHR '' '') (vga_current_color s) else vga_buffer s i)"
proof -
  have "vga_buffer (vga_clear s) =
      fold (\<lambda>y. fold (\<lambda>x b. b(y * 80 + x := cell (ch CHR '' '') (vga_current_color s))) [0..<80]) [0..<25] (vga_buffer s)"
    by (cases s) (simp only: vga_clear_def vga_update_cursor_def vga.simps)
  then show ?thesis
    by (simp only: nested_fold [of "\<lambda>i b. b(i := cell (ch CHR '' '') (vga_current_color s))"] fold_fill) simp
qed

lemma vga_putchar_inv [inv_intros]:
  assumes "vga_inv s"
  shows "vga_inv (vga_putchar c s)" and "2000 \<le> i \<Longrightarrow> vga_buffer (vga_putchar c s) i = vga_buffer s i"
    and "vga_cursor (vga_putchar c s) = of_nat (vga_row (vga_putchar c s) * 80 + vga_column (vga_putchar c s))"
    and "vga_current_color (vga_putchar c s) = vga_current_color s"
proof -
  show "vga_inv (vga_putchar c s)"
    using assms by (auto simp: vga_inv_def vga_putchar_def vga_update_cursor_def vga_putchar_at_def Let_def)
  show "2000 \<le> i \<Longrightarrow> vga_buffer (vga_putchar c s) i = vga_buffer s i"
    using assms
    by (auto simp: vga_inv_def vga_putchar_def vga_update_cursor_def vga_putchar_at_def Let_def vga_scroll_cells)
  show "vga_cursor (vga_putchar c s) = of_nat (vga_row (vga_putchar c s) * 80 + vga_column (vga_putchar c s))"
    "vga_current_color (vga_putchar c s) = vga_current_color s"
    by (simp_all add: vga_putchar_def vga_update_cursor_def vga_putchar_at_def Let_def)
qed

lemma vga_print_inv:
  "vga_inv s \<Longrightarrow> vga_inv (vga_print str s) \<and> (\<forall>i \<ge> 2000. vga_buffer (vga_print str s) i = vga_buffer s i)
     \<and> vga_current_color (vga_print str s) = vga_current_color s"
proof (induction str arbitrary: s)
  case Nil
  then show ?case by (simp add: vga_print_def)
next
  case (Cons c cs)
  have "vga_print (c # cs) s = vga_print cs (vga_putchar c s)" by (simp add: vga_print_def)
  then show ?case using Cons.IH [of "vga_putchar c s"] vga_putchar_inv [OF Cons.prems] by simp
qed

section \<open>Numbers\<close>

definition digit_char :: "nat \<Rightarrow> u8" where
  "digit_char d = (if d < 10 then ch CHR ''0'' + of_nat d else ch CHR ''a'' + of_nat d - 10)"

text \<open>The digits the loop leaves in \<open>temp\<close>, least significant first; a base below 2 does not occur.\<close>

function digits_rev :: "nat \<Rightarrow> nat \<Rightarrow> u8 list" where
  "digits_rev base val =
     (if val = 0 \<or> base < 2 then [] else digit_char (val mod base) # digits_rev base (val div base))"
  by pat_completeness auto
termination by (relation "measure snd") (auto intro!: div_less_dividend)

declare digits_rev.simps [simp del]

definition uint_to_str :: "u32 \<Rightarrow> nat \<Rightarrow> u8 list" where
  "uint_to_str val base = (if val = 0 then lit ''0'' else rev (digits_rev base (unat val)))"

definition int_to_str :: "u32 \<Rightarrow> nat \<Rightarrow> u8 list" where
  "int_to_str val base =
     (if val = 0 then lit ''0''
      else let is_negative = (val <s 0 \<and> base = 10);
               v = (if is_negative then - val else val)
           in (if is_negative then lit ''-'' else []) @ rev (if 0 <s v then digits_rev base (unat v) else []))"

definition digit_val :: "u8 \<Rightarrow> nat" where
  "digit_val c = (if ch CHR ''a'' \<le> c then unat (c - ch CHR ''a'') + 10 else unat (c - ch CHR ''0''))"

definition parse_num :: "nat \<Rightarrow> u8 list \<Rightarrow> nat" where
  "parse_num base cs = fold (\<lambda>c acc. acc * base + digit_val c) cs 0"

lemma digit_val_char: "d < 16 \<Longrightarrow> digit_val (digit_char d) = d"
proof -
  assume "d < 16"
  then have "d \<in> set [0..<16]" by simp
  moreover have "\<forall>d \<in> set [0..<16]. digit_val (digit_char d) = d"
    by (simp add: digit_val_def digit_char_def upt_rec)
  ultimately show ?thesis by blast
qed

lemma parse_digits:
  "2 \<le> base \<Longrightarrow> base \<le> 16 \<Longrightarrow> parse_num base (rev (digits_rev base v)) = v"
proof (induction base v rule: digits_rev.induct)
  case (1 base v)
  have "v mod base < base" using 1 by simp
  then have m: "digit_val (digit_char (v mod base)) = v mod base" using 1
    by (intro digit_val_char) linarith
  show ?case
  proof (cases "v = 0")
    case True
    then show ?thesis by (subst digits_rev.simps) (simp add: parse_num_def)
  next
    case False
    then have "parse_num base (rev (digits_rev base (v div base))) = v div base" using 1 by simp
    then show ?thesis using False 1 m by (subst digits_rev.simps) (simp add: parse_num_def)
  qed
qed

lemma length_digits: "2 \<le> base \<Longrightarrow> v < base ^ n \<Longrightarrow> length (digits_rev base v) \<le> n"
proof (induction n arbitrary: v)
  case 0
  then show ?case by (subst digits_rev.simps) simp
next
  case (Suc n)
  then have "v div base < base ^ n" by (simp add: div_less_iff_less_mult mult.commute)
  then show ?case using Suc by (subst digits_rev.simps) simp
qed

section \<open>The kernel log\<close>

text \<open>What C leaves undefined: reading past the end of the format, an argument that was not passed, and writing past the end of the buffer.\<close>

datatype fmt_error = Past_terminator | Missing_argument | Past_buffer

abbreviation BUFFER_SIZE :: nat where "BUFFER_SIZE \<equiv> 512"

text \<open>A copy that stops one byte before the end of the 512-byte buffer.\<close>

definition put_bounded :: "u8 list \<Rightarrow> u8 list \<Rightarrow> u8 list" where
  "put_bounded str out = out @ take (BUFFER_SIZE - 1 - length out) str"

definition upcase :: "u8 \<Rightarrow> u8" where
  "upcase c = (if ch CHR ''a'' \<le>s c then c - 32 else c)"

text \<open>One format specifier: the bytes written so far and the arguments left.\<close>

definition fmt_spec :: "(ptr \<Rightarrow> u8 list) \<Rightarrow> u8 \<Rightarrow> u32 list \<Rightarrow> u8 list \<Rightarrow> fmt_error + (u32 list \<times> u8 list)" where
  "fmt_spec str_at f args out =
     (if f \<in> {ch CHR ''d'', ch CHR ''i'', ch CHR ''u'', ch CHR ''x'', ch CHR ''X'', ch CHR ''p'', ch CHR ''s'', ch CHR ''c''}
      then (case args of
          [] \<Rightarrow> Inl Missing_argument
        | val # rest \<Rightarrow> Inr (rest,
            if f = ch CHR ''d'' \<or> f = ch CHR ''i'' then put_bounded (int_to_str val 10) out
            else if f = ch CHR ''u'' then put_bounded (uint_to_str val 10) out
            else if f = ch CHR ''x'' then put_bounded (uint_to_str val 16) out
            else if f = ch CHR ''X'' then put_bounded (map upcase (uint_to_str val 16)) out
            else if f = ch CHR ''p'' then put_bounded (uint_to_str val 16) (out @ lit ''0x'')
            else if f = ch CHR ''s'' then put_bounded (if val = 0 then lit ''(null)'' else str_at val) out
            else out @ [ucast val]))
      else if f = ch CHR ''%'' then Inr (args, out @ lit ''%'')
      else Inr (args, out @ [ch CHR ''%'', f]))"

fun fmt_loop :: "(ptr \<Rightarrow> u8 list) \<Rightarrow> u8 list \<Rightarrow> u32 list \<Rightarrow> u8 list \<Rightarrow> fmt_error + u8 list" where
  "fmt_loop str_at [] args out = Inr out"
| "fmt_loop str_at (c # fmt) args out =
     (if BUFFER_SIZE - 1 \<le> length out then Inr out
      else if c = ch CHR ''%'' then
        (case fmt of
           [] \<Rightarrow> Inl Past_terminator
         | f # fmt' \<Rightarrow> (case fmt_spec str_at f args out of
             Inl e \<Rightarrow> Inl e
           | Inr (args', out') \<Rightarrow> fmt_loop str_at fmt' args' out'))
      else fmt_loop str_at fmt args (out @ [c]))"

definition log_colors :: "(u8 \<times> u8) list" where
  "log_colors =
     [(VGA_COLOR_WHITE, VGA_COLOR_RED), (VGA_COLOR_LIGHT_RED, VGA_COLOR_BLACK),
      (VGA_COLOR_LIGHT_RED, VGA_COLOR_BLACK), (VGA_COLOR_RED, VGA_COLOR_BLACK),
      (VGA_COLOR_YELLOW, VGA_COLOR_BLACK), (VGA_COLOR_LIGHT_CYAN, VGA_COLOR_BLACK),
      (VGA_COLOR_WHITE, VGA_COLOR_BLACK), (VGA_COLOR_LIGHT_GREY, VGA_COLOR_BLACK)]"

abbreviation LOGLEVEL_EMERG :: int where "LOGLEVEL_EMERG \<equiv> 0"
abbreviation LOGLEVEL_INFO :: int where "LOGLEVEL_INFO \<equiv> 6"
abbreviation LOGLEVEL_DEBUG :: int where "LOGLEVEL_DEBUG \<equiv> 7"

definition extract_log_level :: "u8 list \<Rightarrow> int \<times> u8 list" where
  "extract_log_level fmt =
     (case fmt of
        a # l # b # rest \<Rightarrow>
          if a = ch CHR ''<'' \<and> ch CHR ''0'' \<le> l \<and> l \<le> ch CHR ''7'' \<and> b = ch CHR ''>''
          then (uint l - uint (ch CHR ''0''), rest) else (LOGLEVEL_INFO, fmt)
      | _ \<Rightarrow> (LOGLEVEL_INFO, fmt))"

record klog =
  current_log_level :: int
  screen :: vga

text \<open>The terminator goes to the byte after those written.\<close>

definition vprintk_internal :: "(ptr \<Rightarrow> u8 list) \<Rightarrow> int \<Rightarrow> u8 list \<Rightarrow> u32 list \<Rightarrow> vga \<Rightarrow> fmt_error + vga" where
  "vprintk_internal str_at level fmt args v =
     (let v1 = (if 0 \<le> level \<and> level \<le> 7
                then vga_set_color (fst (log_colors ! nat level)) (snd (log_colors ! nat level)) v else v)
      in case fmt_loop str_at fmt args [] of
           Inl e \<Rightarrow> Inl e
         | Inr out \<Rightarrow>
             if BUFFER_SIZE \<le> length out then Inl Past_buffer
             else Inr (vga_set_color VGA_COLOR_WHITE VGA_COLOR_BLACK (vga_print (takeWhile (\<lambda>c. c \<noteq> 0) out) v1)))"

definition vprintk :: "(ptr \<Rightarrow> u8 list) \<Rightarrow> u8 list \<Rightarrow> u32 list \<Rightarrow> klog \<Rightarrow> fmt_error + klog" where
  "vprintk str_at fmt args s =
     (case extract_log_level fmt of (level, fmt') \<Rightarrow>
        if current_log_level s < level then Inr s
        else case vprintk_internal str_at level fmt' args (screen s) of
            Inl e \<Rightarrow> Inl e
          | Inr v \<Rightarrow> Inr (s\<lparr>screen := v\<rparr>))"

definition printk_set_level :: "int \<Rightarrow> klog \<Rightarrow> klog" where
  "printk_set_level level s =
     (if LOGLEVEL_EMERG \<le> level \<and> level \<le> LOGLEVEL_DEBUG then s\<lparr>current_log_level := level\<rparr> else s)"

definition printk_get_level :: "klog \<Rightarrow> int" where
  "printk_get_level s = current_log_level s"

lemma length_put_bounded: "length out \<le> 512 \<Longrightarrow> length (put_bounded str out) \<le> 512"
  "length out \<le> 511 \<Longrightarrow> length (put_bounded str out) \<le> 511"
  by (auto simp: put_bounded_def)

lemma length_fmt_spec:
  assumes "length out < 511" and "fmt_spec str_at f args out = Inr (args', out')"
  shows "length out' \<le> 512"
    and "f \<in> {ch CHR ''d'', ch CHR ''i'', ch CHR ''u'', ch CHR ''x'', ch CHR ''X'', ch CHR ''s'', ch CHR ''c'', ch CHR ''%''}
      \<Longrightarrow> length out' \<le> 511"
proof -
  have b: "length (put_bounded s out) \<le> 511" "length (put_bounded s (out @ lit ''0x'')) \<le> 512" for s
    using assms(1) by (auto intro!: length_put_bounded)
  have b': "length (put_bounded s out) \<le> 512" for s
    by (rule order_trans [OF b(1)]) simp
  show "length out' \<le> 512"
    using assms b b' by (auto simp: fmt_spec_def split: list.splits if_splits)
  show "length out' \<le> 511" if "f \<in> {ch CHR ''d'', ch CHR ''i'', ch CHR ''u'', ch CHR ''x'', ch CHR ''X'', ch CHR ''s'', ch CHR ''c'', ch CHR ''%''}"
    using that assms b by (auto simp: fmt_spec_def split: list.splits if_splits)
qed

lemma fmt_loop_bound:
  "length out \<le> 512 \<Longrightarrow> fmt_loop str_at fmt args out = Inr out' \<Longrightarrow> length out' \<le> 512"
proof (induction str_at fmt args out rule: fmt_loop.induct)
  case (1 str_at args out)
  then show ?case by simp
next
  case (2 str_at c fmt args out)
  show ?case
  proof (cases "length out < 511")
    case False
    then show ?thesis using 2 by simp
  next
    case lt: True
    show ?thesis
    proof (cases "c = ch CHR ''%''")
      case False
      then show ?thesis using 2(2) 2(4) lt by simp
    next
      case True
      then obtain f fmt' args2 out2 where f: "fmt = f # fmt'" "fmt_spec str_at f args out = Inr (args2, out2)"
        "fmt_loop str_at fmt' args2 out2 = Inr out'"
        using 2(4) lt by (auto split: list.splits sum.splits)
      then show ?thesis using 2(1) True lt length_fmt_spec(1) [OF lt f(2)] by simp
    qed
  qed
qed

definition safe_specifiers :: "u8 set" where
  "safe_specifiers = {ch CHR ''d'', ch CHR ''i'', ch CHR ''u'', ch CHR ''x'', ch CHR ''X'', ch CHR ''s'', ch CHR ''c'', ch CHR ''%''}"

fun safe_format :: "u8 list \<Rightarrow> bool" where
  "safe_format [] = True"
| "safe_format (c # fmt) =
     (if c = ch CHR ''%'' then (case fmt of [] \<Rightarrow> False | f # fmt' \<Rightarrow> f \<in> safe_specifiers \<and> safe_format fmt') else safe_format fmt)"

lemma fmt_loop_safe:
  "safe_format fmt \<Longrightarrow> length out \<le> 511 \<Longrightarrow> fmt_loop str_at fmt args out = Inr out' \<Longrightarrow> length out' \<le> 511"
proof (induction str_at fmt args out rule: fmt_loop.induct)
  case (2 str_at c fmt args out)
  show ?case
  proof (cases "length out < 511")
    case False
    then show ?thesis using 2 by simp
  next
    case lt: True
    show ?thesis
    proof (cases "c = ch CHR ''%''")
      case False
      then show ?thesis using 2(2) 2(3-5) lt by simp
    next
      case True
      then obtain f fmt' args2 out2 where f: "fmt = f # fmt'" "fmt_spec str_at f args out = Inr (args2, out2)"
        "fmt_loop str_at fmt' args2 out2 = Inr out'" "f \<in> safe_specifiers" "safe_format fmt'"
        using 2(3,5) lt by (auto split: list.splits sum.splits)
      then have "length out2 \<le> 511" using length_fmt_spec(2) [OF lt f(2)] by (simp add: safe_specifiers_def)
      then show ?thesis using 2(1) True lt f by simp
    qed
  qed
qed simp

lemma fmt_loop_plain:
  "ch CHR ''%'' \<notin> set fmt \<Longrightarrow> length out \<le> 511 \<Longrightarrow>
    fmt_loop str_at fmt args out = Inr (out @ take (511 - length out) fmt)"
proof (induction fmt arbitrary: out)
  case Nil
  then show ?case by simp
next
  case (Cons c fmt)
  show ?case
  proof (cases "length out < 511")
    case False
    then show ?thesis using Cons.prems by simp
  next
    case True
    then have "511 - length out = Suc (511 - length (out @ [c]))" by simp
    then show ?thesis using Cons True by simp
  qed
qed

lemma fmt_loop_prefix:
  "ch CHR ''%'' \<notin> set pre \<Longrightarrow> length out + length pre \<le> 511 \<Longrightarrow>
    fmt_loop str_at (pre @ fmt) args out = fmt_loop str_at fmt args (out @ pre)"
  by (induction pre arbitrary: out) auto

section \<open>Properties\<close>

text \<open>C31: Printing any string keeps the cursor on the screen, writes no cell outside the 80 by 25
  visible ones and keeps the current color, also when it is printed in a color of its own; scrolling moves every line up by one, blanks the
  last and touches nothing else.\<close>

theorem vga_print_stays_on_screen:
  assumes "vga_inv s"
  shows "vga_inv (vga_print str s)
    \<and> (\<forall>i \<ge> 2000. vga_buffer (vga_print str s) i = vga_buffer s i)
    \<and> vga_current_color (vga_print str s) = vga_current_color s
    \<and> vga_current_color (vga_print_color str color s) = vga_current_color s
    \<and> (\<forall>i. vga_buffer (vga_scroll s) i =
         (if i < 1920 then vga_buffer s (i + 80)
          else if i < 2000 then cell (ch CHR '' '') (vga_current_color s) else vga_buffer s i))"
  using vga_print_inv [OF assms] vga_scroll_cells [of s] by (simp add: vga_print_color_def)

definition blank_screen :: vga where
  "blank_screen = vga_init \<lparr>vga_buffer = (\<lambda>_. 0), vga_row = 0, vga_column = 0, vga_current_color = 0, vga_cursor = 0\<rparr>"

theorem vga_print_stays_on_screen_witness:
  "vga_inv (vga_print (replicate 5000 65) blank_screen)"
  using vga_print_stays_on_screen [of blank_screen "replicate 5000 65"]
  by (simp add: blank_screen_def vga_init_def vga_clear_def vga_update_cursor_def vga_inv_def)

text \<open>Number conversion: in base 10 and 16 the digits of an unsigned number read back as that
  number and are at most ten, so the 32-byte scratch buffers suffice; a negative number
  prints a minus sign and the digits of its magnitude, except the smallest one, whose
  negation overflows: it prints as a bare minus sign.\<close>

theorem number_conversion_reads_back:
  assumes "base = 10 \<or> base = 16"
  shows "parse_num base (uint_to_str val base) = unat val
    \<and> length (uint_to_str val base) \<le> 10
    \<and> (val <s 0 \<and> val \<noteq> 0x80000000 \<longrightarrow> int_to_str val 10 = lit ''-'' @ uint_to_str (- val) 10)
    \<and> (0 <s val \<longrightarrow> int_to_str val 10 = uint_to_str val 10)
    \<and> int_to_str 0x80000000 10 = lit ''-''"
proof -
  have b: "2 \<le> base" "base \<le> 16" using assms by auto
  have "parse_num base (uint_to_str val base) = unat val"
    using parse_digits [OF b, of "unat val"]
    by (simp add: uint_to_str_def parse_num_def digit_val_def)
  moreover have "length (uint_to_str val base) \<le> 10"
  proof -
    have "unat val < base ^ 10" using assms unat_lt_two_power_32 [of val]
      by (elim disjE) (simp_all del: unat_lt_two_power_32)
    then show ?thesis using length_digits [OF b(1), of "unat val" 10] by (simp add: uint_to_str_def)
  qed
  moreover have "int_to_str val 10 = lit ''-'' @ uint_to_str (- val) 10"
    if "val <s 0 \<and> val \<noteq> 0x80000000"
  proof -
    have "unat val \<noteq> 2147483648" using that by (auto simp: word_unat_eq_iff)
    moreover have "2147483648 \<le> unat val" using that by (auto simp: word_sless_alt sint_u32 split: if_splits)
    moreover have "unat (- val) = 4294967296 - unat val"
      using unat_neg_of_nat_u32 [of "unat val"] \<open>2147483648 \<le> unat val\<close> unat_lt_two_power_32 [of val] by simp
    ultimately have "0 <s - val" by (simp add: word_sless_alt sint_u32)
    then show ?thesis using that by (auto simp: int_to_str_def uint_to_str_def Let_def)
  qed
  moreover have "int_to_str val 10 = uint_to_str val 10" if "0 <s val"
  proof -
    have "\<not> val <s 0" "val \<noteq> 0" using that by (auto simp: word_sless_alt)
    then show ?thesis using that by (simp add: int_to_str_def uint_to_str_def Let_def)
  qed
  moreover have "int_to_str 0x80000000 10 = lit ''-''"
    by (simp add: int_to_str_def Let_def word_sless_alt)
  ultimately show ?thesis by blast
qed

theorem number_conversion_reads_back_witness:
  "parse_num 10 (uint_to_str 4294967295 10) = 4294967295"
  using number_conversion_reads_back [of 10 4294967295] by simp

text \<open>C30: The buffer of the formatter. A format in which every percent sign is followed by one of
  the specifiers of \<^verbatim>\<open>printk\<close> but \<^verbatim>\<open>%p\<close> leaves at most 511 bytes in the 512-byte buffer, whatever the arguments, and one
  without specifiers is copied, cut at 511 bytes. But the guard allows for one byte per step and a pointer
  or an unknown specifier writes two: after 510 bytes either fills the buffer, and the
  terminator that follows is written one byte past its end. A format that ends in a lone
  percent sign is read past its terminator.\<close>

theorem printk_buffer_bound:
  "(safe_format fmt \<longrightarrow> fmt_loop str_at fmt args [] = Inr out \<longrightarrow> length out \<le> 511)
    \<and> (ch CHR ''%'' \<notin> set fmt \<longrightarrow> fmt_loop str_at fmt args [] = Inr (take 511 fmt))
    \<and> fmt_loop str_at (replicate 510 65 @ lit ''%p'') (val # args) [] = Inr (replicate 510 65 @ lit ''0x'')
    \<and> vprintk_internal str_at level (replicate 510 65 @ lit ''%p'') (val # args) v = Inl Past_buffer
    \<and> (f \<notin> insert (ch CHR ''p'') safe_specifiers \<longrightarrow>
         fmt_loop str_at (replicate 510 65 @ [ch CHR ''%'', f]) args [] = Inr (replicate 510 65 @ [ch CHR ''%'', f])
         \<and> vprintk_internal str_at level (replicate 510 65 @ [ch CHR ''%'', f]) args v = Inl Past_buffer)
    \<and> (length fmt < 511 \<and> ch CHR ''%'' \<notin> set fmt \<longrightarrow>
         fmt_loop str_at (fmt @ lit ''%'') args [] = Inl Past_terminator)"
proof -
  have full: "fmt_loop str_at (replicate 510 65 @ [ch CHR ''%'', g]) as [] = Inr (replicate 510 65 @ [a, b])"
    if "fmt_spec str_at g as (replicate 510 65) = Inr (as', replicate 510 65 @ [a, b])" for g a b as as'
  proof -
    have "fmt_loop str_at (replicate 510 65 @ [ch CHR ''%'', g]) as [] = fmt_loop str_at [ch CHR ''%'', g] as ([] @ replicate 510 65)"
      by (rule fmt_loop_prefix) simp_all
    also have "\<dots> = Inr (replicate 510 65 @ [a, b])" using that by simp
    finally show ?thesis .
  qed
  have over: "vprintk_internal str_at level fm as v = Inl Past_buffer" if "fmt_loop str_at fm as [] = Inr (replicate 510 65 @ [a, b])" for fm a b as
    using that by (simp add: vprintk_internal_def Let_def)
  have p: "fmt_loop str_at (replicate 510 65 @ lit ''%p'') (val # args) [] = Inr (replicate 510 65 @ lit ''0x'')"
    using full [of "ch CHR ''p''" "val # args"] by (simp add: fmt_spec_def put_bounded_def)
  have u: "fmt_loop str_at (replicate 510 65 @ [ch CHR ''%'', f]) args [] = Inr (replicate 510 65 @ [ch CHR ''%'', f])"
    if "f \<notin> insert (ch CHR ''p'') safe_specifiers"
    by (rule full) (use that in \<open>auto simp: fmt_spec_def safe_specifiers_def\<close>)
  have "fmt_loop str_at (fmt @ lit ''%'') args [] = Inl Past_terminator" if "length fmt < 511 \<and> ch CHR ''%'' \<notin> set fmt"
    using that fmt_loop_prefix [of fmt "[]" str_at "lit ''%''" args] by simp
  moreover have "fmt_loop str_at fmt args [] = Inr (take 511 fmt)" if "ch CHR ''%'' \<notin> set fmt"
    using fmt_loop_plain [OF that, of "[]"] by simp
  moreover have "vprintk_internal str_at level (replicate 510 65 @ lit ''%p'') (val # args) v = Inl Past_buffer"
    using over p by simp
  ultimately show ?thesis using p u over fmt_loop_safe [of fmt "[]" str_at args out] by simp
qed

theorem printk_buffer_bound_witness:
  "fmt_loop (\<lambda>_. []) (lit ''ok'') [] [] = Inr (lit ''ok'')
    \<and> vprintk_internal (\<lambda>_. []) 6 (replicate 510 65 @ lit ''%q'') [] blank_screen = Inl Past_buffer"
  using printk_buffer_bound [of "lit ''ok''" "\<lambda>_. []" "[]" "[]" 0 6 blank_screen "ch CHR ''q''"]
  by (simp add: safe_specifiers_def)

end
