(* ===== verification/Slab.thy ===== *)
theory Slab
  imports KHeap ListHead Pmm CString
begin

text \<open>
  The slab allocator, \<^verbatim>\<open>kernel/slab.c\<close>, on top of the kernel heap (descriptors) and the frame
  allocator (one 4 KB page of objects per slab). Descriptors are records at the addresses
  the heap returned; the list heads of a cache are at their C offsets 44, 52 and 60 inside
  it and its node in the list of caches at 80, a slab's node is its first field. The free
  list of a slab is threaded through the free objects themselves, in the byte memory, which is physical
  memory: with paging on it is the same as long as the objects lie in the first 8 MB (theory KernelMemory runs the creation of a slab
  under paging).
\<close>

section \<open>State and operations\<close>

record slab =
  sl_mem :: ptr
  sl_inuse :: u32
  sl_objects :: u32
  sl_freelist :: ptr

record kcache =
  c_name :: "u8 list"
  c_object_size :: u32
  c_align :: u32
  c_flags :: u32
  c_num_objs :: u32
  c_num_active :: u32
  c_num_slabs :: u32

record kmem =
  slabs :: "ptr \<Rightarrow> slab"
  caches :: "ptr \<Rightarrow> kcache"
  klinks :: links
  cache_list :: ptr
  kmemory :: mem
  kheap_of :: kheap
  kpmm :: pmm

abbreviation SLAB_SIZE :: u32 where "SLAB_SIZE \<equiv> 24"
abbreviation CACHE_SIZE :: u32 where "CACHE_SIZE \<equiv> 88"
abbreviation slabs_full :: "ptr \<Rightarrow> ptr" where "slabs_full c \<equiv> c + 44"
abbreviation slabs_partial :: "ptr \<Rightarrow> ptr" where "slabs_partial c \<equiv> c + 52"
abbreviation slabs_empty :: "ptr \<Rightarrow> ptr" where "slabs_empty c \<equiv> c + 60"
abbreviation cache_node :: "ptr \<Rightarrow> ptr" where "cache_node c \<equiv> c + 80"

definition put_slab :: "ptr \<Rightarrow> slab \<Rightarrow> kmem \<Rightarrow> kmem" where
  "put_slab p sl s = s\<lparr>slabs := (slabs s)(p := sl)\<rparr>"

definition put_cache :: "ptr \<Rightarrow> kcache \<Rightarrow> kmem \<Rightarrow> kmem" where
  "put_cache p c s = s\<lparr>caches := (caches s)(p := c)\<rparr>"

definition calculate_objects_per_slab :: "u32 \<Rightarrow> u32" where
  "calculate_objects_per_slab obj_size = (4096 - SLAB_SIZE) div obj_size"

text \<open>The loop that threads the free list: each object's first word points to the next object.\<close>

fun thread_freelist :: "nat \<Rightarrow> ptr \<Rightarrow> u32 \<Rightarrow> mem \<Rightarrow> ptr \<times> mem" where
  "thread_freelist 0 obj osz m = (obj, m)"
| "thread_freelist (Suc n) obj osz m = thread_freelist n (obj + osz) osz (store32 obj (obj + osz) m)"

definition slab_create :: "ptr \<Rightarrow> kmem \<Rightarrow> (ptr \<times> kmem) option" where
  "slab_create cache s =
     Option.bind (kmalloc SLAB_SIZE (kheap_of s)) (\<lambda>(slab, h).
       let s1 = s\<lparr>kheap_of := h\<rparr> in
       if slab = 0 then Some (0, s1)
       else case pmm_alloc_block (kpmm s1) of (phys, p) \<Rightarrow>
         let s2 = s1\<lparr>kpmm := p\<rparr> in
         if phys = 0 then Some (0, s2\<lparr>kheap_of := kfree slab h\<rparr>)
         else
           let osz = c_object_size (caches s2 cache);
               n = calculate_objects_per_slab osz;
               (last, m) = thread_freelist (unat (n - 1)) phys osz (kmemory s2);
               s3 = put_slab slab \<lparr>sl_mem = phys, sl_inuse = 0, sl_objects = n, sl_freelist = phys\<rparr>
                      (s2\<lparr>kmemory := store32 last 0 m\<rparr>);
               s4 = s3\<lparr>klinks := init_list_head slab (klinks s3)\<rparr>
           in Some (slab, put_cache cache
                ((caches s4 cache)\<lparr>c_num_slabs := c_num_slabs (caches s4 cache) + 1\<rparr>) s4))"

definition slab_destroy :: "ptr \<Rightarrow> ptr \<Rightarrow> kmem \<Rightarrow> kmem" where
  "slab_destroy cache slab s =
     (if slab = 0 then s
      else let s1 = s\<lparr>kpmm := pmm_free_block (sl_mem (slabs s slab)) (kpmm s)\<rparr>;
               s2 = s1\<lparr>klinks := list_del slab (klinks s1)\<rparr>;
               s3 = s2\<lparr>kheap_of := kfree slab (kheap_of s2)\<rparr>
           in put_cache cache ((caches s3 cache)\<lparr>c_num_slabs := c_num_slabs (caches s3 cache) - 1\<rparr>) s3)"

definition align_object_size :: "u32 \<Rightarrow> u32 \<Rightarrow> u32" where
  "align_object_size len align =
     (let a = (if align = 0 then 4 else align);
          osz = (len + a - 1) AND NOT (a - 1)
      in if osz < 4 then 4 else osz)"

definition kmem_cache_create :: "u8 list \<Rightarrow> u32 \<Rightarrow> u32 \<Rightarrow> u32 \<Rightarrow> kmem \<Rightarrow> (ptr \<times> kmem) option" where
  "kmem_cache_create name len align flags s =
     Option.bind (kmalloc CACHE_SIZE (kheap_of s)) (\<lambda>(cache, h).
       let s1 = s\<lparr>kheap_of := h\<rparr> in
       if cache = 0 then Some (0, s1)
       else
         let s2 = put_cache cache
               \<lparr>c_name = take 31 name, c_object_size = align_object_size len align,
                c_align = (if align = 0 then 4 else align), c_flags = flags,
                c_num_objs = 0, c_num_active = 0, c_num_slabs = 0\<rparr> s1;
             l1 = init_list_head (slabs_full cache) (klinks s2);
             l2 = init_list_head (slabs_partial cache) l1;
             l3 = init_list_head (slabs_empty cache) l2;
             l4 = init_list_head (cache_node cache) l3
         in Some (cache, s2\<lparr>klinks := list_add_tail (cache_node cache) (cache_list s2) l4\<rparr>))"

definition slab_take :: "ptr \<Rightarrow> ptr \<Rightarrow> kmem \<Rightarrow> ptr \<times> kmem" where
  "slab_take cache slab s =
     (let sl = slabs s slab; obj = sl_freelist sl in
      if obj = 0 then (0, s)
      else
        let s1 = put_slab slab (sl\<lparr>sl_freelist := load32 (kmemory s) obj, sl_inuse := sl_inuse sl + 1\<rparr>) s;
            l1 = list_del slab (klinks s1);
            s2 = s1\<lparr>klinks :=
                   (if sl_inuse (slabs s1 slab) = sl_objects (slabs s1 slab)
                    then list_add slab (slabs_full cache) l1
                    else list_add slab (slabs_partial cache) l1)\<rparr>;
            c = caches s2 cache;
            s3 = put_cache cache (c\<lparr>c_num_active := c_num_active c + 1, c_num_objs := c_num_objs c + 1\<rparr>) s2
        in (obj, s3\<lparr>kmemory := memset obj 0 (c_object_size (caches s3 cache)) (kmemory s3)\<rparr>))"

definition kmem_cache_alloc :: "ptr \<Rightarrow> kmem \<Rightarrow> (ptr \<times> kmem) option" where
  "kmem_cache_alloc cache s =
     (if cache = 0 then Some (0, s)
      else if \<not> list_empty (slabs_partial cache) (klinks s)
      then Some (slab_take cache (lnext (klinks s) (slabs_partial cache)) s)
      else if \<not> list_empty (slabs_empty cache) (klinks s)
      then Some (slab_take cache (lnext (klinks s) (slabs_empty cache)) s)
      else Option.bind (slab_create cache s) (\<lambda>(slab, s1).
        if slab = 0 then Some (0, s1)
        else Some (slab_take cache slab
               (s1\<lparr>klinks := list_add slab (slabs_empty cache) (klinks s1)\<rparr>))))"

definition in_slab :: "kmem \<Rightarrow> ptr \<Rightarrow> ptr \<Rightarrow> bool" where
  "in_slab s obj pos \<longleftrightarrow> sl_mem (slabs s pos) \<le> obj \<and> obj < sl_mem (slabs s pos) + 4096"

definition slab_put :: "ptr \<Rightarrow> ptr \<Rightarrow> ptr \<Rightarrow> kmem \<Rightarrow> kmem" where
  "slab_put cache slab obj s =
     (let sl = slabs s slab;
          s1 = put_slab slab (sl\<lparr>sl_freelist := obj, sl_inuse := sl_inuse sl - 1\<rparr>)
                 (s\<lparr>kmemory := store32 obj (sl_freelist sl) (kmemory s)\<rparr>);
          l1 = list_del slab (klinks s1);
          s2 = s1\<lparr>klinks :=
                 (if sl_inuse (slabs s1 slab) = 0 then list_add slab (slabs_empty cache) l1
                  else list_add slab (slabs_partial cache) l1)\<rparr>;
          c = caches s2 cache
      in put_cache cache (c\<lparr>c_num_active := c_num_active c - 1\<rparr>) s2)"

definition kmem_cache_free :: "ptr \<Rightarrow> ptr \<Rightarrow> kmem \<Rightarrow> kmem option" where
  "kmem_cache_free cache obj s =
     (if cache = 0 \<or> obj = 0 then Some s
      else Option.bind (list_search (in_slab s obj) (slabs_full cache) (lnext (klinks s) (slabs_full cache)) (klinks s))
        (\<lambda>r1. case r1 of
            Some slab \<Rightarrow> Some (slab_put cache slab obj s)
          | None \<Rightarrow>
              Option.bind (list_search (in_slab s obj) (slabs_partial cache) (lnext (klinks s) (slabs_partial cache)) (klinks s))
                (\<lambda>r2. case r2 of
                    Some slab \<Rightarrow> Some (slab_put cache slab obj s)
                  | None \<Rightarrow> Some s)))"

partial_function (option) destroy_loop :: "ptr \<Rightarrow> ptr \<Rightarrow> ptr \<Rightarrow> ptr \<Rightarrow> kmem \<Rightarrow> kmem option" where
  "destroy_loop cache head slab tmp s =
     (if slab = head then Some s
      else destroy_loop cache head tmp (lnext (klinks (slab_destroy cache slab s)) tmp) (slab_destroy cache slab s))"

definition destroy_list :: "ptr \<Rightarrow> ptr \<Rightarrow> kmem \<Rightarrow> kmem option" where
  "destroy_list cache head s =
     (let slab = lnext (klinks s) head in destroy_loop cache head slab (lnext (klinks s) slab) s)"

definition kmem_cache_destroy :: "ptr \<Rightarrow> kmem \<Rightarrow> kmem option" where
  "kmem_cache_destroy cache s =
     (if cache = 0 then Some s
      else Option.bind (destroy_list cache (slabs_empty cache) s) (\<lambda>s1.
        Option.bind (destroy_list cache (slabs_partial cache) s1) (\<lambda>s2.
          Option.bind (destroy_list cache (slabs_full cache) s2) (\<lambda>s3.
            Some (s3\<lparr>klinks := list_del (cache_node cache) (klinks s3), kheap_of := kfree cache (kheap_of s3)\<rparr>)))))"

partial_function (option) shrink_loop ::
  "ptr \<Rightarrow> ptr \<Rightarrow> ptr \<Rightarrow> ptr \<Rightarrow> nat \<Rightarrow> nat \<Rightarrow> kmem \<Rightarrow> (nat \<times> kmem) option" where
  "shrink_loop cache head slab tmp empty_count freed s =
     (if slab = head \<or> empty_count \<le> 1 then Some (freed, s)
      else shrink_loop cache head tmp (lnext (klinks (slab_destroy cache slab s)) tmp)
             (empty_count - 1) (freed + 1) (slab_destroy cache slab s))"

definition kmem_cache_shrink :: "ptr \<Rightarrow> kmem \<Rightarrow> (nat \<times> kmem) option" where
  "kmem_cache_shrink cache s =
     (if cache = 0 then Some (0, s)
      else let head = slabs_empty cache; slab = lnext (klinks s) head in
        Option.bind (list_nodes head slab (klinks s)) (\<lambda>ns.
          if 1 < length ns
          then shrink_loop cache head slab (lnext (klinks s) slab) (length ns) 0 s
          else Some (0, s)))"

text \<open>The eight general-purpose caches of \<^verbatim>\<open>slab_init\<close>.\<close>

definition general_caches :: "(u32 \<times> u8 list) list" where
  "general_caches =
     [(32, lit ''kmalloc-32''), (64, lit ''kmalloc-64''), (128, lit ''kmalloc-128''), (256, lit ''kmalloc-256''),
      (512, lit ''kmalloc-512''), (1024, lit ''kmalloc-1024''), (2048, lit ''kmalloc-2048''), (4096, lit ''kmalloc-4096'')]"

fun create_caches :: "(u32 \<times> u8 list) list \<Rightarrow> kmem \<Rightarrow> (ptr list \<times> kmem) option" where
  "create_caches [] s = Some ([], s)"
| "create_caches ((len, name) # cs) s =
     Option.bind (kmem_cache_create name len 0 0 s) (\<lambda>(c, s1).
       Option.bind (create_caches cs s1) (\<lambda>(ps, s2). Some (c # ps, s2)))"

definition slab_init :: "kmem \<Rightarrow> (ptr list \<times> kmem) option" where
  "slab_init s = create_caches general_caches s"

section \<open>Objects of a page\<close>

text \<open>Object \<open>i\<close> of the page at \<open>P\<close>, for objects of \<open>z\<close> bytes.\<close>

definition obj_at :: "ptr \<Rightarrow> nat \<Rightarrow> nat \<Rightarrow> ptr" where
  "obj_at P z i = P + of_nat (i * z)"

definition per_slab :: "nat \<Rightarrow> nat" where
  "per_slab z = 4072 div z"

definition objs :: "ptr \<Rightarrow> nat \<Rightarrow> ptr set" where
  "objs P z = obj_at P z ` {..<per_slab z}"

definition good_page :: "ptr \<Rightarrow> bool" where
  "good_page P \<longleftrightarrow> 4096 dvd unat P \<and> P \<noteq> 0 \<and> unat P + 4096 < 4294967296"

definition good_size :: "nat \<Rightarrow> bool" where
  "good_size z \<longleftrightarrow> 4 dvd z \<and> 4 \<le> z \<and> z \<le> 4072"

lemma per_slab_bounds:
  assumes "good_size z" shows "1 \<le> per_slab z" "per_slab z \<le> 1018" "per_slab z * z \<le> 4072"
proof -
  have z: "4 \<le> z" "z \<le> 4072" using assms by (simp_all add: good_size_def)
  show "1 \<le> per_slab z" using z by (simp add: per_slab_def Suc_le_eq div_greater_zero_iff)
  have "4072 div z \<le> 4072 div 4" using z(1) by (intro div_le_mono2) simp_all
  then show "per_slab z \<le> 1018" by (simp add: per_slab_def)
  show "per_slab z * z \<le> 4072" by (simp add: per_slab_def)
qed

lemma index_bound:
  assumes "good_size z" "i < per_slab z" shows "i * z + z \<le> 4072"
proof -
  have "Suc i * z \<le> per_slab z * z" using assms(2) by (intro mult_le_mono1) simp
  then show ?thesis using per_slab_bounds(3) [OF assms(1)] by simp
qed

lemma unat_obj_at:
  assumes "good_page P" "good_size z" "i < per_slab z"
  shows "unat (obj_at P z i) = unat P + i * z"
proof -
  have "i * z < 4096" using index_bound [OF assms(2,3)] assms(2) by (simp add: good_size_def)
  then show ?thesis using assms(1) unfolding obj_at_def good_page_def
    by (subst unat_add_u32) (simp_all only: unat_of_nat_u32, linarith+)
qed

lemma obj_aligned:
  assumes "good_page P" "good_size z" "x \<in> objs P z" shows "4 dvd unat x" "x \<noteq> 0" "unat x + z \<le> 4294967296"
proof -
  obtain i where i: "i < per_slab z" "x = obj_at P z i" using assms(3) by (auto simp: objs_def)
  have u: "unat x = unat P + i * z" using unat_obj_at [OF assms(1,2) i(1)] i(2) by simp
  have "4 dvd unat P" using assms(1) by (auto simp: good_page_def elim: dvd_trans [rotated])
  then show "4 dvd unat x" using assms(2) u by (simp add: good_size_def)
  have "0 < unat P" using assms(1) by (simp add: good_page_def unat_gt_0)
  then have "0 < unat x" using u by linarith
  then show "x \<noteq> 0" by auto
  show "unat x + z \<le> 4294967296" using u index_bound [OF assms(2) i(1)] assms(1) by (simp add: good_page_def)
qed

lemma obj_inj:
  assumes "good_page P" "good_size z" "i < per_slab z" "j < per_slab z"
  shows "obj_at P z i = obj_at P z j \<longleftrightarrow> i = j"
  using unat_obj_at [OF assms(1,2,3)] unat_obj_at [OF assms(1,2,4)] assms(2)
  by (auto simp: word_unat_eq_iff good_size_def)

lemma obj_in_page:
  assumes "good_page P" "good_size z" "x \<in> objs P z"
  shows "unat P \<le> unat x \<and> unat x + z \<le> unat P + 4096"
  using assms unat_obj_at [OF assms(1,2)] index_bound [OF assms(2)] by (fastforce simp: objs_def)

lemma card_objs: "good_page P \<Longrightarrow> good_size z \<Longrightarrow> card (objs P z) = per_slab z"
  unfolding objs_def by (subst card_image) (auto intro!: inj_onI simp: obj_inj)

lemma pages_apart:
  assumes "good_page P" "good_page Q" "P \<noteq> Q"
  shows "unat P + 4096 \<le> unat Q \<or> unat Q + 4096 \<le> unat P"
proof -
  obtain a b where "unat P = 4096 * a" "unat Q = 4096 * b" using assms by (auto simp: good_page_def elim!: dvdE)
  moreover have "a \<noteq> b" using calculation assms(3) by (auto simp: word_unat_eq_iff)
  ultimately show ?thesis by linarith
qed

text \<open>Distinct objects do not overlap, in one page or in two.\<close>

lemma objs_apart:
  assumes P: "good_page P" "x \<in> objs P z" and Q: "good_page Q" "y \<in> objs Q z" and z: "good_size z" and ne: "x \<noteq> y"
  shows "unat x + z \<le> unat y \<or> unat y + z \<le> unat x"
proof (cases "P = Q")
  case True
  obtain i j where ij: "x = obj_at P z i" "y = obj_at P z j" "i < per_slab z" "j < per_slab z"
    using P(2) Q(2) True by (auto simp: objs_def)
  have "i \<noteq> j" using ne ij(1,2) by metis
  then have "i < j \<or> j < i" by linarith
  then have "Suc i * z \<le> j * z \<or> Suc j * z \<le> i * z" by (auto intro: mult_le_mono1 simp del: mult_Suc)
  then show ?thesis using unat_obj_at [OF P(1) z] ij by auto
next
  case False
  then show ?thesis
    using pages_apart [OF P(1) Q(1) False] obj_in_page [OF P(1) z P(2)] obj_in_page [OF Q(1) z Q(2)] by linarith
qed

lemma load32_memset_other:
  assumes "unat x + unat n \<le> 4294967296" "4 dvd unat y" "unat x + unat n \<le> unat y \<or> unat y + 4 \<le> unat x"
  shows "load32 (memset x v n m) y = load32 m y"
proof -
  have "memset x v n m (y + of_nat k) = m (y + of_nat k)" if "k < 4" for k
  proof -
    have "unat (y + of_nat k) = unat y + k" by (rule aligned_add_unat [OF assms(2) that])
    then have "\<not> unat (y + of_nat k - x) < unat n" using assms(3) that by (auto simp: in_range_nat [OF assms(1)])
    then show ?thesis by (simp add: memset_apply)
  qed
  from this [of 0] this [of 1] this [of 2] this [of 3] show ?thesis by (intro load32_cong) simp_all
qed

section \<open>Free lists\<close>

fun freechain :: "mem \<Rightarrow> ptr \<Rightarrow> ptr list \<Rightarrow> bool" where
  "freechain m p [] \<longleftrightarrow> p = 0"
| "freechain m p (x # xs) \<longleftrightarrow> p = x \<and> freechain m (load32 m x) xs"

lemma freechain_cong: "(\<And>y. y \<in> set xs \<Longrightarrow> load32 m' y = load32 m y) \<Longrightarrow> freechain m' p xs = freechain m p xs"
  by (induction xs arbitrary: p) auto

text \<open>Threading a fresh page links all its objects in order.\<close>

lemma thread_freelist_spec:
  assumes P: "good_page P" and z: "good_size (unat osz)"
  shows "i + k < per_slab (unat osz) \<Longrightarrow>
    fst (thread_freelist k (obj_at P (unat osz) i) osz m) = obj_at P (unat osz) (i + k)
    \<and> (\<forall>j. i \<le> j \<and> j < i + k \<longrightarrow>
         load32 (snd (thread_freelist k (obj_at P (unat osz) i) osz m)) (obj_at P (unat osz) j) = obj_at P (unat osz) (Suc j))
    \<and> (\<forall>y. 4 dvd unat y \<and> y \<notin> obj_at P (unat osz) ` {i..<i + k} \<longrightarrow>
         load32 (snd (thread_freelist k (obj_at P (unat osz) i) osz m)) y = load32 m y)"
proof (induction k arbitrary: i m)
  case 0
  then show ?case by auto
next
  case (Suc k)
  let ?z = "unat osz"
  let ?x = "obj_at P ?z i"
  have nxt: "?x + osz = obj_at P ?z (Suc i)" by (simp add: obj_at_def add_ac)
  let ?m = "store32 ?x (?x + osz) m"
  have x: "4 dvd unat ?x" using obj_aligned [OF P z, of ?x] Suc.prems by (simp add: objs_def)
  note IH = Suc.IH [of "Suc i" ?m, unfolded nxt [symmetric]]
  have r: "thread_freelist (Suc k) ?x osz m = thread_freelist k (?x + osz) osz ?m" by simp
  have xi: "?x \<notin> obj_at P ?z ` {Suc i..<Suc i + k}"
  proof
    assume "?x \<in> obj_at P ?z ` {Suc i..<Suc i + k}"
    then obtain j where "Suc i \<le> j" "j < Suc i + k" "?x = obj_at P ?z j" by auto
    then show False using obj_inj [OF P z, of i j] Suc.prems by simp
  qed
  show ?case
  proof (intro conjI allI impI)
    show "fst (thread_freelist (Suc k) ?x osz m) = obj_at P ?z (i + Suc k)" using IH Suc.prems r by simp
    fix j
    assume j: "i \<le> j \<and> j < i + Suc k"
    show "load32 (snd (thread_freelist (Suc k) ?x osz m)) (obj_at P ?z j) = obj_at P ?z (Suc j)"
    proof (cases "j = i")
      case True
      then show ?thesis using IH Suc.prems x xi unfolding r by (simp add: nxt)
    next
      case False
      then show ?thesis using IH Suc.prems j unfolding r by simp
    qed
  next
    fix y
    assume y: "4 dvd unat y \<and> y \<notin> obj_at P ?z ` {i..<i + Suc k}"
    then have "y \<noteq> ?x" "y \<notin> obj_at P ?z ` {Suc i..<Suc i + k}" by auto
    then show "load32 (snd (thread_freelist (Suc k) ?x osz m)) y = load32 m y"
      using IH Suc.prems x y unfolding r by simp
  qed
qed

section \<open>The invariant of a cache\<close>

text \<open>
  \<open>fl sl\<close> is the free list of slab \<open>sl\<close>, \<open>f\<close> gives the slabs of the three lists. A slab's
  free list holds distinct objects of its page, and the slab sits on the list its number of
  free objects calls for.
\<close>

abbreviation osize :: "kmem \<Rightarrow> ptr \<Rightarrow> nat" where
  "osize s c \<equiv> unat (c_object_size (caches s c))"

abbreviation page_of :: "kmem \<Rightarrow> ptr \<Rightarrow> ptr" where
  "page_of s sl \<equiv> sl_mem (slabs s sl)"

definition slab_heads :: "ptr \<Rightarrow> ptr set" where
  "slab_heads c = {slabs_full c, slabs_partial c, slabs_empty c}"

definition slab_ok :: "mem \<Rightarrow> slab \<Rightarrow> nat \<Rightarrow> ptr list \<Rightarrow> bool" where
  "slab_ok m sl z xs \<longleftrightarrow> good_page (sl_mem sl) \<and> sl_objects sl = of_nat (per_slab z)
     \<and> freechain m (sl_freelist sl) xs \<and> distinct xs \<and> set xs \<subseteq> objs (sl_mem sl) z
     \<and> sl_inuse sl = of_nat (per_slab z - length xs)"

definition right_list :: "ptr \<Rightarrow> nat \<Rightarrow> nat \<Rightarrow> ptr" where
  "right_list c n k = (if k = 0 then slabs_full c else if k = n then slabs_empty c else slabs_partial c)"

definition cache_inv :: "kmem \<Rightarrow> ptr \<Rightarrow> (ptr \<Rightarrow> ptr list) \<Rightarrow> (ptr \<Rightarrow> ptr list) \<Rightarrow> bool" where
  "cache_inv s c f fl \<longleftrightarrow> c \<noteq> 0 \<and> good_size (osize s c) \<and> rings (klinks s) (slab_heads c) f
     \<and> (\<forall>sl \<in> ring_nodes (slab_heads c) f. slab_ok (kmemory s) (slabs s sl) (osize s c) (fl sl))
     \<and> inj_on (page_of s) (ring_nodes (slab_heads c) f)
     \<and> (\<forall>h \<in> slab_heads c. \<forall>sl \<in> set (f h). h = right_list c (per_slab (osize s c)) (length (fl sl)))"

text \<open>The objects handed out.\<close>

definition allocated :: "kmem \<Rightarrow> ptr \<Rightarrow> (ptr \<Rightarrow> ptr list) \<Rightarrow> (ptr \<Rightarrow> ptr list) \<Rightarrow> ptr set" where
  "allocated s c f fl = (\<Union>sl \<in> ring_nodes (slab_heads c) f. objs (page_of s sl) (osize s c) - set (fl sl))"

lemma slab_heads_distinct [simp]:
  "slabs_full c \<noteq> slabs_partial c" "slabs_full c \<noteq> slabs_empty c" "slabs_partial c \<noteq> slabs_empty c"
  "slabs_partial c \<noteq> slabs_full c" "slabs_empty c \<noteq> slabs_full c" "slabs_empty c \<noteq> slabs_partial c"
  by simp_all

lemma slab_heads_mem [simp]:
  "slabs_full c \<in> slab_heads c" "slabs_partial c \<in> slab_heads c" "slabs_empty c \<in> slab_heads c"
  by (simp_all add: slab_heads_def)

lemma right_list_head [simp]: "right_list c n k \<in> slab_heads c"
  by (simp add: right_list_def)

lemma cache_invD:
  assumes "cache_inv s c f fl"
  shows "c \<noteq> 0" "good_size (osize s c)" "rings (klinks s) (slab_heads c) f"
    "inj_on (page_of s) (ring_nodes (slab_heads c) f)"
    "sl \<in> ring_nodes (slab_heads c) f \<Longrightarrow> slab_ok (kmemory s) (slabs s sl) (osize s c) (fl sl)"
    "h \<in> slab_heads c \<Longrightarrow> sl \<in> set (f h) \<Longrightarrow> h = right_list c (per_slab (osize s c)) (length (fl sl))"
  using assms by (auto simp: cache_inv_def)

lemma length_free_le:
  assumes "slab_ok m sl z xs" "good_size z" shows "length xs \<le> per_slab z"
proof -
  have "length xs = card (set xs)" using assms(1) by (simp add: slab_ok_def distinct_card)
  also have "\<dots> \<le> card (objs (sl_mem sl) z)"
    using assms(1) by (intro card_mono) (auto simp: slab_ok_def objs_def)
  finally show ?thesis using card_objs assms by (simp add: slab_ok_def)
qed

text \<open>Two objects in different slabs of a cache, or two objects of one slab, do not overlap.\<close>

lemma cache_objs_apart:
  assumes inv: "cache_inv s c f fl" and sl: "sl \<in> ring_nodes (slab_heads c) f" "sl' \<in> ring_nodes (slab_heads c) f"
    and xy: "x \<in> objs (page_of s sl) (osize s c)" "y \<in> objs (page_of s sl') (osize s c)" "x \<noteq> y"
  shows "unat x + osize s c \<le> unat y \<or> unat y + osize s c \<le> unat x"
proof -
  have "good_page (page_of s sl)" "good_page (page_of s sl')"
    using cache_invD(5) [OF inv sl(1)] cache_invD(5) [OF inv sl(2)] by (simp_all add: slab_ok_def)
  then show ?thesis using objs_apart xy cache_invD(2) [OF inv] by blast
qed

lemma cache_obj_unique:
  assumes inv: "cache_inv s c f fl" and sl: "sl \<in> ring_nodes (slab_heads c) f" "sl' \<in> ring_nodes (slab_heads c) f"
    and x: "x \<in> objs (page_of s sl) (osize s c)" "x \<in> objs (page_of s sl') (osize s c)"
  shows "sl' = sl"
proof (rule ccontr)
  assume "sl' \<noteq> sl"
  then have ne: "page_of s sl \<noteq> page_of s sl'"
    using cache_invD(4) [OF inv] sl by (auto simp: inj_on_def)
  have P: "good_page (page_of s sl)" "good_page (page_of s sl')"
    using cache_invD(5) [OF inv sl(1)] cache_invD(5) [OF inv sl(2)] by (simp_all add: slab_ok_def)
  have "4 \<le> osize s c" using cache_invD(2) [OF inv] by (simp add: good_size_def)
  then show False
    using pages_apart [OF P ne] obj_in_page [OF P(1) cache_invD(2) [OF inv] x(1)]
      obj_in_page [OF P(2) cache_invD(2) [OF inv] x(2)] by linarith
qed

text \<open>
  A change of one slab's free list: if the memory of every other free object is kept and
  the slab's own record and chain fit the new list, moving the slab to its right list keeps
  the invariant.
\<close>

lemma cache_inv_move:
  assumes inv: "cache_inv s c f fl" and h: "h \<in> slab_heads c" and sl: "sl \<in> set (f h)"
    and links: "klinks s' = list_add sl (right_list c (per_slab (osize s c)) (length xs)) (list_del sl (klinks s))"
    and slb: "slabs s' = (slabs s)(sl := t)" "sl_mem t = page_of s sl"
    and csz: "c_object_size (caches s' c) = c_object_size (caches s c)"
    and ok: "slab_ok (kmemory s') t (osize s c) xs"
    and keep: "\<And>sl' y. sl' \<in> ring_nodes (slab_heads c) f \<Longrightarrow> sl' \<noteq> sl \<Longrightarrow> y \<in> set (fl sl') \<Longrightarrow>
      load32 (kmemory s') y = load32 (kmemory s) y"
  shows "\<exists>f'. cache_inv s' c f' (fl(sl := xs)) \<and> ring_nodes (slab_heads c) f' = ring_nodes (slab_heads c) f"
proof -
  let ?H = "slab_heads c"
  let ?n = "per_slab (osize s c)"
  let ?h = "right_list c ?n (length xs)"
  define f1 where "f1 = f(h := remove1 sl (f h))"
  define f2 where "f2 = f1(?h := sl # f1 ?h)"
  have r: "rings (klinks s) ?H f" by (rule cache_invD(3) [OF inv])
  note del = rings_del [OF r h sl, folded f1_def]
  have node: "sl \<in> ring_nodes ?H f" using h sl by (auto simp: ring_nodes_def)
  have nz: "sl \<noteq> 0" "sl \<notin> ?H" using rings_node [OF r node] by simp_all
  have "sl \<notin> ring_nodes ?H f1" using del(2) by simp
  note add = rings_add [OF del(1) right_list_head this nz(2,1), of ?n "length xs", folded f2_def]
  have nodes: "ring_nodes ?H f2 = ring_nodes ?H f" using add(2) del(2) node by auto
  have sub: "sl' \<in> set (f h')" if "h' \<in> ?H" "sl' \<in> set (f2 h')" "sl' \<noteq> sl" for h' sl'
    using that by (auto simp: f2_def f1_def split: if_splits dest: notin_set_remove1 [THEN contrapos_nn])
  have sub_sl: "h' = ?h" if "h' \<in> ?H" "sl \<in> set (f2 h')" for h'
  proof (rule ccontr)
    assume "h' \<noteq> ?h"
    then have "sl \<in> set (f1 h')" using that by (simp add: f2_def)
    then show False using \<open>sl \<notin> ring_nodes ?H f1\<close> that(1) by (auto simp: ring_nodes_def)
  qed
  have "cache_inv s' c f2 (fl(sl := xs))"
    unfolding cache_inv_def nodes csz
  proof (intro conjI ballI)
    show "c \<noteq> 0" "good_size (osize s c)" using cache_invD(1,2) [OF inv] by simp_all
    show "rings (klinks s') ?H f2" unfolding links by (rule add(1))
    fix sl'
    assume n: "sl' \<in> ring_nodes ?H f"
    show "slab_ok (kmemory s') (slabs s' sl') (osize s c) ((fl(sl := xs)) sl')"
    proof (cases "sl' = sl")
      case True
      then show ?thesis using ok by (simp add: slb)
    next
      case False
      then show ?thesis
        using cache_invD(5) [OF inv n] freechain_cong [OF keep [OF n False], of "fl sl'"] by (simp add: slb slab_ok_def)
    qed
  next
    have "page_of s' sl' = page_of s sl'" for sl' by (simp add: slb)
    then show "inj_on (page_of s') (ring_nodes ?H f)" using cache_invD(4) [OF inv] by (simp add: inj_on_def)
    fix h' sl'
    assume h': "h' \<in> ?H" and sl': "sl' \<in> set (f2 h')"
    show "h' = right_list c ?n (length ((fl(sl := xs)) sl'))"
    proof (cases "sl' = sl")
      case True
      then show ?thesis using sub_sl [OF h'] sl' by simp
    next
      case False
      then show ?thesis using cache_invD(6) [OF inv h' sub [OF h' sl' False]] by simp
    qed
  qed
  then show ?thesis using nodes by blast
qed

section \<open>Taking and putting back an object\<close>

lemma put_sel [simp]:
  "slabs (put_slab p sl s) = (slabs s)(p := sl)" "caches (put_slab p sl s) = caches s"
  "klinks (put_slab p sl s) = klinks s" "kmemory (put_slab p sl s) = kmemory s"
  "kheap_of (put_slab p sl s) = kheap_of s" "kpmm (put_slab p sl s) = kpmm s" "cache_list (put_slab p sl s) = cache_list s"
  "caches (put_cache q c s) = (caches s)(q := c)" "slabs (put_cache q c s) = slabs s"
  "klinks (put_cache q c s) = klinks s" "kmemory (put_cache q c s) = kmemory s"
  "kheap_of (put_cache q c s) = kheap_of s" "kpmm (put_cache q c s) = kpmm s" "cache_list (put_cache q c s) = cache_list s"
  by (simp_all add: put_slab_def put_cache_def)

lemma of_nat_diff_Suc_u32:
  assumes "k < n" shows "(of_nat (n - Suc k) :: u32) + 1 = of_nat (n - k)"
proof -
  have "n - k = Suc (n - Suc k)" using assms by simp
  then show ?thesis by (simp add: add.commute)
qed

lemma of_nat_eq_u32:
  assumes "a < 4294967296" "b < 4294967296" shows "(of_nat a :: u32) = of_nat b \<longleftrightarrow> a = b"
  using assms by (metis unat_of_nat_u32)

lemma slab_take_inv:
  assumes inv: "cache_inv s c f fl" and h: "h \<in> slab_heads c" and sl: "sl \<in> set (f h)" and x: "fl sl = x # r"
  shows "fst (slab_take c sl s) = x"
    and "\<exists>f'. cache_inv (snd (slab_take c sl s)) c f' (fl(sl := r)) \<and> ring_nodes (slab_heads c) f' = ring_nodes (slab_heads c) f"
    and "kmemory (snd (slab_take c sl s)) a = (if unat (a - x) < osize s c then 0 else kmemory s a)"
    and "x \<noteq> 0" "osize (snd (slab_take c sl s)) c = osize s c" "page_of (snd (slab_take c sl s)) sl' = page_of s sl'"
    and "kheap_of (snd (slab_take c sl s)) = kheap_of s" "kpmm (snd (slab_take c sl s)) = kpmm s"
    and "c_num_active (caches (snd (slab_take c sl s)) c) = c_num_active (caches s c) + 1"
proof -
  let ?n = "per_slab (osize s c)"
  have node: "sl \<in> ring_nodes (slab_heads c) f" using h sl by (auto simp: ring_nodes_def)
  note z = cache_invD(2) [OF inv]
  have ok: "slab_ok (kmemory s) (slabs s sl) (osize s c) (x # r)" using cache_invD(5) [OF inv node] x by simp
  then have P: "good_page (page_of s sl)" "sl_freelist (slabs s sl) = x" "x \<in> objs (page_of s sl) (osize s c)"
    by (simp_all add: slab_ok_def)
  note xo = obj_aligned [OF P(1) z P(3)]
  have len: "length r < ?n" using length_free_le [OF ok z] by simp
  let ?t = "(slabs s sl)\<lparr>sl_freelist := load32 (kmemory s) x, sl_inuse := sl_inuse (slabs s sl) + 1\<rparr>"
  have inuse: "sl_inuse (slabs s sl) + 1 = of_nat (?n - length r)"
    using ok len by (simp add: slab_ok_def of_nat_diff_Suc_u32)
  have full: "sl_inuse ?t = sl_objects ?t \<longleftrightarrow> r = []"
  proof -
    have "sl_inuse ?t = of_nat (?n - length r)" "sl_objects ?t = of_nat ?n"
      using inuse ok by (simp_all add: slab_ok_def)
    then have "sl_inuse ?t = sl_objects ?t \<longleftrightarrow> ?n - length r = ?n"
      using per_slab_bounds(2) [OF z] by (simp only: of_nat_eq_u32)
    also have "\<dots> \<longleftrightarrow> length r = 0" using len by linarith
    finally show ?thesis by simp
  qed
  have rl: "right_list c ?n (length r) = (if r = [] then slabs_full c else slabs_partial c)"
    using len by (simp add: right_list_def)
  let ?s = "snd (slab_take c sl s)"
  have sel: "fst (slab_take c sl s) = x" "slabs ?s = (slabs s)(sl := ?t)"
    "klinks ?s = list_add sl (right_list c ?n (length r)) (list_del sl (klinks s))"
    "caches ?s = (caches s)(c := (caches s c)\<lparr>c_num_active := c_num_active (caches s c) + 1, c_num_objs := c_num_objs (caches s c) + 1\<rparr>)"
    "kmemory ?s = memset x 0 (c_object_size (caches s c)) (kmemory s)" "kheap_of ?s = kheap_of s" "kpmm ?s = kpmm s"
    using full P(2) xo(2) unfolding rl by (auto simp: slab_take_def Let_def)
  show "fst (slab_take c sl s) = x" by (rule sel(1))
  have keep: "load32 (kmemory ?s) y = load32 (kmemory s) y"
    if "sl' \<in> ring_nodes (slab_heads c) f" "y \<in> objs (page_of s sl') (osize s c)" "y \<noteq> x" for sl' y
  proof -
    have "good_page (page_of s sl')" using cache_invD(5) [OF inv that(1)] by (simp add: slab_ok_def)
    note yo = obj_aligned [OF this z that(2)]
    have "4 \<le> osize s c" using z by (simp add: good_size_def)
    then show ?thesis
      using cache_objs_apart [OF inv node that(1) P(3) that(2)] that(3) xo yo unfolding sel
      by (intro load32_memset_other) auto
  qed
  have ok': "slab_ok (kmemory ?s) ?t (osize s c) r"
  proof -
    have "load32 (kmemory ?s) y = load32 (kmemory s) y" if "y \<in> set r" for y
      using that ok by (intro keep [OF node]) (auto simp: slab_ok_def)
    from freechain_cong [of r, OF this] have "freechain (kmemory ?s) (load32 (kmemory s) x) r"
      using ok by (simp add: slab_ok_def)
    then show ?thesis using ok inuse by (simp add: slab_ok_def)
  qed
  have csz: "c_object_size (caches ?s c) = c_object_size (caches s c)" by (simp add: sel)
  have keep': "load32 (kmemory ?s) y = load32 (kmemory s) y"
    if n: "sl' \<in> ring_nodes (slab_heads c) f" and ne: "sl' \<noteq> sl" and y: "y \<in> set (fl sl')" for sl' y
  proof (rule keep [OF n])
    show yo: "y \<in> objs (page_of s sl') (osize s c)" using cache_invD(5) [OF inv n] y by (auto simp: slab_ok_def)
    show "y \<noteq> x" using cache_obj_unique [OF inv node n P(3)] yo ne by auto
  qed
  show "\<exists>f'. cache_inv ?s c f' (fl(sl := r)) \<and> ring_nodes (slab_heads c) f' = ring_nodes (slab_heads c) f"
    using cache_inv_move [OF inv h sl sel(3,2) _ csz ok' keep'] by simp
  show "kmemory ?s a = (if unat (a - x) < osize s c then 0 else kmemory s a)" by (simp add: sel memset_apply)
  show "x \<noteq> 0" by (rule xo(2))
  show "osize ?s c = osize s c" "page_of ?s sl' = page_of s sl'" "kheap_of ?s = kheap_of s" "kpmm ?s = kpmm s"
    "c_num_active (caches ?s c) = c_num_active (caches s c) + 1" by (simp_all add: sel)
qed

lemma slab_put_inv:
  assumes inv: "cache_inv s c f fl" and h: "h \<in> slab_heads c" and sl: "sl \<in> set (f h)"
    and x: "x \<in> objs (page_of s sl) (osize s c)" "x \<notin> set (fl sl)"
  shows "\<exists>f'. cache_inv (slab_put c sl x s) c f' (fl(sl := x # fl sl)) \<and> ring_nodes (slab_heads c) f' = ring_nodes (slab_heads c) f"
    and "osize (slab_put c sl x s) c = osize s c" "page_of (slab_put c sl x s) sl' = page_of s sl'"
    and "kheap_of (slab_put c sl x s) = kheap_of s" "kpmm (slab_put c sl x s) = kpmm s"
    and "kmemory (slab_put c sl x s) = store32 x (sl_freelist (slabs s sl)) (kmemory s)"
    and "c_num_active (caches (slab_put c sl x s) c) = c_num_active (caches s c) - 1"
proof -
  let ?n = "per_slab (osize s c)"
  let ?k = "length (fl sl)"
  have node: "sl \<in> ring_nodes (slab_heads c) f" using h sl by (auto simp: ring_nodes_def)
  note z = cache_invD(2) [OF inv]
  have ok: "slab_ok (kmemory s) (slabs s sl) (osize s c) (fl sl)" by (rule cache_invD(5) [OF inv node])
  then have P: "good_page (page_of s sl)" by (simp add: slab_ok_def)
  note xo = obj_aligned [OF P z x(1)]
  have len: "?k < ?n"
  proof -
    have "card (insert x (set (fl sl))) \<le> card (objs (page_of s sl) (osize s c))"
      using ok x(1) by (intro card_mono) (auto simp: slab_ok_def objs_def)
    then show ?thesis using x(2) ok card_objs [OF P z] by (simp add: slab_ok_def distinct_card)
  qed
  let ?t = "(slabs s sl)\<lparr>sl_freelist := x, sl_inuse := sl_inuse (slabs s sl) - 1\<rparr>"
  have inuse: "sl_inuse (slabs s sl) - 1 = of_nat (?n - Suc ?k)"
  proof -
    have "sl_inuse (slabs s sl) = of_nat (?n - ?k)" using ok by (simp add: slab_ok_def)
    then show ?thesis unfolding of_nat_diff_Suc_u32 [OF len, symmetric] by simp
  qed
  have emp: "sl_inuse ?t = 0 \<longleftrightarrow> Suc ?k = ?n"
  proof -
    have "sl_inuse ?t = of_nat (?n - Suc ?k)" using inuse by simp
    then have "sl_inuse ?t = of_nat 0 \<longleftrightarrow> ?n - Suc ?k = 0"
      using per_slab_bounds(2) [OF z] by (simp only: of_nat_eq_u32)
    also have "\<dots> \<longleftrightarrow> Suc ?k = ?n" using len by linarith
    finally show ?thesis by simp
  qed
  have rl: "right_list c ?n (length (x # fl sl)) = (if Suc ?k = ?n then slabs_empty c else slabs_partial c)"
    by (simp add: right_list_def)
  let ?s = "slab_put c sl x s"
  have sel: "slabs ?s = (slabs s)(sl := ?t)"
    "klinks ?s = list_add sl (right_list c ?n (length (x # fl sl))) (list_del sl (klinks s))"
    "caches ?s = (caches s)(c := (caches s c)\<lparr>c_num_active := c_num_active (caches s c) - 1\<rparr>)"
    "kmemory ?s = store32 x (sl_freelist (slabs s sl)) (kmemory s)" "kheap_of ?s = kheap_of s" "kpmm ?s = kpmm s"
    using emp unfolding rl by (simp_all add: slab_put_def Let_def)
  have keep: "load32 (kmemory ?s) y = load32 (kmemory s) y"
    if "sl' \<in> ring_nodes (slab_heads c) f" "y \<in> set (fl sl')" for sl' y
  proof -
    have o: "slab_ok (kmemory s) (slabs s sl') (osize s c) (fl sl')" by (rule cache_invD(5) [OF inv that(1)])
    then have yo: "y \<in> objs (page_of s sl') (osize s c)" "good_page (page_of s sl')"
      using that(2) by (auto simp: slab_ok_def)
    have "y \<noteq> x" using cache_obj_unique [OF inv node that(1) x(1)] yo(1) that(2) x(2) by auto
    then show ?thesis unfolding sel using xo(1) obj_aligned(1) [OF yo(2) z yo(1)] by simp
  qed
  have ok': "slab_ok (kmemory ?s) ?t (osize s c) (x # fl sl)"
  proof -
    have "freechain (kmemory ?s) (sl_freelist (slabs s sl)) (fl sl)"
      using freechain_cong [of "fl sl", OF keep [OF node]] ok by (simp add: slab_ok_def)
    moreover have "load32 (kmemory ?s) x = sl_freelist (slabs s sl)" by (simp add: sel)
    ultimately show ?thesis using ok x inuse by (simp add: slab_ok_def)
  qed
  have csz: "c_object_size (caches ?s c) = c_object_size (caches s c)" by (simp add: sel)
  show "\<exists>f'. cache_inv ?s c f' (fl(sl := x # fl sl)) \<and> ring_nodes (slab_heads c) f' = ring_nodes (slab_heads c) f"
    using cache_inv_move [OF inv h sl sel(2,1) _ csz ok' keep] by simp
  show "osize ?s c = osize s c" "page_of ?s sl' = page_of s sl'" "kheap_of ?s = kheap_of s" "kpmm ?s = kpmm s"
    "kmemory ?s = store32 x (sl_freelist (slabs s sl)) (kmemory s)"
    "c_num_active (caches ?s c) = c_num_active (caches s c) - 1" by (simp_all add: sel)
qed

section \<open>A new slab\<close>

text \<open>Where the descriptors and pages of a cache come from: blocks of the heap and pages in use.\<close>

text \<open>The frames below 4 MB are those of the kernel: they are in use, so no slab lies there.\<close>

definition low_used :: "pmm \<Rightarrow> bool" where
  "low_used q \<longleftrightarrow> (\<forall>P. 4096 dvd unat P \<and> unat P < 0x400000 \<longrightarrow> P \<in> used_pages q)"

definition store_inv :: "kmem \<Rightarrow> ptr \<Rightarrow> ptr set \<Rightarrow> bool" where
  "store_inv s c sls \<longleftrightarrow> page_inv (kpmm s) \<and> unat (total_blocks (kpmm s)) < MAX_BLOCKS
     \<and> low_used (kpmm s) \<and> (\<forall>sl \<in> sls. page_of s sl \<in> used_pages (kpmm s) \<and> 0x400000 \<le> unat (page_of s sl))
     \<and> (\<exists>bs. heap_inv (kheap_of s) bs \<and> (\<exists>k \<ge> 88. (unat c, k) \<in> live ARENA_START bs)
          \<and> (\<forall>sl \<in> sls. \<exists>k \<ge> 24. (unat sl, k) \<in> live ARENA_START bs))"

lemma freechain_seq:
  assumes "\<And>j. i \<le> j \<Longrightarrow> Suc j < n \<Longrightarrow> load32 m (g j) = g (Suc j)" and "load32 m (g (n - 1)) = 0" and "i < n"
  shows "freechain m (g i) (map g [i..<n])"
  using assms
proof (induction "n - i" arbitrary: i)
  case 0
  then show ?case by simp
next
  case (Suc d)
  have u: "[i..<n] = i # [Suc i..<n]" using Suc.prems(3) by (rule upt_conv_Cons)
  show ?case
  proof (cases "Suc i < n")
    case True
    have "freechain m (g (Suc i)) (map g [Suc i..<n])"
      using Suc True by (intro Suc.hyps(1)) auto
    then show ?thesis using Suc.prems(1) [of i] True u by simp
  next
    case False
    then have "n = Suc i" using Suc.prems(3) by simp
    then show ?thesis using Suc.prems(2) by simp
  qed
qed

lemma fresh_page_chain:
  fixes osz :: u32 and P :: ptr and m :: mem
  defines "z \<equiv> unat osz"
  defines "t \<equiv> thread_freelist (per_slab z - 1) P osz m"
  assumes P: "good_page P" and z: "good_size z"
  shows "freechain (store32 (fst t) 0 (snd t)) P (map (obj_at P z) [0..<per_slab z])"
    and "4 dvd unat y \<Longrightarrow> y \<notin> objs P z \<Longrightarrow> load32 (store32 (fst t) 0 (snd t)) y = load32 m y"
proof -
  let ?n = "per_slab z"
  have n: "1 \<le> ?n" by (rule per_slab_bounds(1) [OF z])
  have P0: "obj_at P z 0 = P" by (simp add: obj_at_def)
  note sp = thread_freelist_spec [OF P z [unfolded z_def], of 0 "?n - 1" m, folded z_def, unfolded P0, folded t_def]
  have last: "fst t = obj_at P z (?n - 1)" using sp n by simp
  have lo: "fst t \<in> objs P z" using n by (simp add: last objs_def)
  note la = obj_aligned(1) [OF P z lo]
  have "load32 (store32 (fst t) 0 (snd t)) (obj_at P z j) = obj_at P z (Suc j)" if "Suc j < ?n" for j
  proof -
    have jo: "obj_at P z j \<in> objs P z" using that by (simp add: objs_def)
    have "fst t \<noteq> obj_at P z j" using obj_inj [OF P z, of "?n - 1" j] that by (simp add: last)
    then show ?thesis using sp that n la obj_aligned(1) [OF P z jo] by simp
  qed
  from freechain_seq [of 0 ?n "store32 (fst t) 0 (snd t)" "obj_at P z", OF this _ ]
  show "freechain (store32 (fst t) 0 (snd t)) P (map (obj_at P z) [0..<?n])"
    using n by (simp add: last P0)
  show "load32 (store32 (fst t) 0 (snd t)) y = load32 m y" if y: "4 dvd unat y" "y \<notin> objs P z"
  proof -
    have "y \<noteq> fst t" using lo y(2) by auto
    moreover have "y \<notin> obj_at P z ` {0..<0 + (?n - 1)}" using y(2) by (auto simp: objs_def)
    ultimately show ?thesis using sp n la y(1) by simp
  qed
qed

lemma page_total_blocks: "total_blocks (snd (pmm_alloc_block s)) = total_blocks s"
  by (simp add: pmm_alloc_block_def Let_def)

lemma used_page_good:
  assumes "page_inv p" "unat (total_blocks p) < MAX_BLOCKS" "P \<in> used_pages p" "P \<noteq> 0"
  shows "good_page P"
proof -
  obtain b where b: "b \<in> used_set p" "P = of_nat b * PMM_BLOCK_SIZE" using assms(3) by (auto simp: used_pages_def)
  then have "Suc b < MAX_BLOCKS" using assms(2) by (simp add: used_set_def)
  then have "unat P = b * 4096" using b(2) by (simp add: unat_block_addr)
  then show ?thesis using assms(4) \<open>Suc b < MAX_BLOCKS\<close> by (simp add: good_page_def)
qed

lemma calculate_objects_per_slab_unat:
  "unat (calculate_objects_per_slab osz) = per_slab (unat osz)"
  by (simp add: calculate_objects_per_slab_def per_slab_def unat_div)

text \<open>The two ways a slab cannot be had: no block for the descriptor, or no page.\<close>

definition no_store :: "kmem \<Rightarrow> bool" where
  "no_store s \<longleftrightarrow> (\<exists>h. kmalloc SLAB_SIZE (kheap_of s) = Some (0, h)) \<or> fst (pmm_alloc_block (kpmm s)) = 0"

lemma slab_create_cases:
  assumes inv: "cache_inv s c f fl" and st: "store_inv s c (ring_nodes (slab_heads c) f)"
  obtains (fail) h where "slab_create c s = Some (0, s\<lparr>kheap_of := h\<rparr>)"
      "store_inv (s\<lparr>kheap_of := h\<rparr>) c (ring_nodes (slab_heads c) f)" "no_store s"
  | (got) sl s' P where "slab_create c s = Some (sl, s')" "sl \<noteq> 0" "sl \<notin> slab_heads c"
      "sl \<notin> ring_nodes (slab_heads c) f" "klinks s' = init_list_head sl (klinks s)"
      "slabs s' = (slabs s)(sl := \<lparr>sl_mem = P, sl_inuse = 0, sl_objects = of_nat (per_slab (osize s c)), sl_freelist = P\<rparr>)"
      "caches s' = (caches s)(c := (caches s c)\<lparr>c_num_slabs := c_num_slabs (caches s c) + 1\<rparr>)"
      "good_page P" "\<forall>sl' \<in> ring_nodes (slab_heads c) f. page_of s sl' \<noteq> P"
      "freechain (kmemory s') P (map (obj_at P (osize s c)) [0..<per_slab (osize s c)])"
      "\<forall>y. 4 dvd unat y \<and> y \<notin> objs P (osize s c) \<longrightarrow> load32 (kmemory s') y = load32 (kmemory s) y"
      "store_inv s' c (insert sl (ring_nodes (slab_heads c) f))"
      "P \<notin> used_pages (kpmm s)" "used_pages (kpmm s') = insert P (used_pages (kpmm s))"
proof -
  let ?N = "ring_nodes (slab_heads c) f"
  obtain bs where st': "page_inv (kpmm s)" "unat (total_blocks (kpmm s)) < MAX_BLOCKS"
    "\<forall>sl \<in> ?N. page_of s sl \<in> used_pages (kpmm s)" "heap_inv (kheap_of s) bs"
    "\<exists>k \<ge> 88. (unat c, k) \<in> live ARENA_START bs" "\<forall>sl \<in> ?N. \<exists>k \<ge> 24. (unat sl, k) \<in> live ARENA_START bs"
    "low_used (kpmm s)" "\<forall>sl \<in> ?N. 0x400000 \<le> unat (page_of s sl)"
    using st unfolding store_inv_def by blast
  obtain sl h bs1 where a: "kmalloc SLAB_SIZE (kheap_of s) = Some (sl, h)" "heap_inv h bs1"
    and a': "if sl = 0 then h = kheap_of s \<and> bs1 = bs
       else \<exists>k. live ARENA_START bs1 = insert (unat sl, k) (live ARENA_START bs)
         \<and> (unat SLAB_SIZE < 2 ^ 32 - 15 \<longrightarrow> unat SLAB_SIZE \<le> k)
         \<and> (\<forall>(q, j) \<in> live ARENA_START bs. q + j < unat sl \<or> unat sl + k < q)"
    using heap.alloc_total [OF st'(4), of SLAB_SIZE] by blast
  show ?thesis
  proof (cases "sl = 0")
    case True
    then have "slab_create c s = Some (0, s\<lparr>kheap_of := h\<rparr>)" using a(1) by (simp add: slab_create_def)
    moreover have "store_inv (s\<lparr>kheap_of := h\<rparr>) c ?N" using st a' True by (simp add: store_inv_def)
    moreover have "no_store s" using a(1) True by (auto simp: no_store_def)
    ultimately show ?thesis by (rule fail)
  next
    case False
    then obtain k where k: "live ARENA_START bs1 = insert (unat sl, k) (live ARENA_START bs)" "24 \<le> k"
      "\<forall>(q, j) \<in> live ARENA_START bs. q + j < unat sl \<or> unat sl + k < q" using a' by auto
    have new: "unat sl \<notin> fst ` live ARENA_START bs" using k(3) by fastforce
    obtain P p where al: "pmm_alloc_block (kpmm s) = (P, p)" by (cases "pmm_alloc_block (kpmm s)")
    note pg = pmm_alloc_page [OF st'(1) al]
    show ?thesis
    proof (cases "P = 0")
      case True
      then have "p = kpmm s" using pg by simp
      have "(unat sl, k) \<in> live ARENA_START bs1" using k(1) by simp
      then obtain bs2 where b2: "heap_inv (kfree sl h) bs2"
        "live ARENA_START bs2 = {(q, i) \<in> live ARENA_START bs1. q \<noteq> unat sl}"
        using heap.free_repr [OF a(2)] by blast
      have "live ARENA_START bs2 = live ARENA_START bs" using b2(2) k(1) new by force
      then have "store_inv (s\<lparr>kheap_of := kfree sl h\<rparr>) c ?N"
        unfolding store_inv_def using st' b2(1) by (intro conjI exI [of _ bs2]) simp_all
      moreover have "slab_create c s = Some (0, s\<lparr>kheap_of := kfree sl h\<rparr>)"
        using a(1) False al True \<open>p = kpmm s\<close> by (simp add: slab_create_def)
      moreover have "no_store s" using al True by (simp add: no_store_def)
      ultimately show ?thesis by (intro fail)
    next
      case nz: False
      have tb: "total_blocks p = total_blocks (kpmm s)" using page_total_blocks [of "kpmm s"] al by simp
      have P: "good_page P" using pg nz st'(2) tb by (intro used_page_good [of p]) auto
      have fresh: "\<forall>sl' \<in> ?N. page_of s sl' \<noteq> P" using st'(3) pg nz by auto
      let ?z = "osize s c"
      note z = cache_invD(2) [OF inv]
      let ?osz = "c_object_size (caches s c)"
      let ?t = "thread_freelist (per_slab ?z - 1) P ?osz (kmemory s)"
      define s' where "s' = s\<lparr>kheap_of := h, kpmm := p, kmemory := store32 (fst ?t) 0 (snd ?t),
         slabs := (slabs s)(sl := \<lparr>sl_mem = P, sl_inuse = 0, sl_objects = of_nat (per_slab ?z), sl_freelist = P\<rparr>),
         klinks := init_list_head sl (klinks s),
         caches := (caches s)(c := (caches s c)\<lparr>c_num_slabs := c_num_slabs (caches s c) + 1\<rparr>)\<rparr>"
      have objn: "calculate_objects_per_slab ?osz = of_nat (per_slab ?z)"
        using calculate_objects_per_slab_unat [of ?osz] per_slab_bounds(2) [OF z]
        by (simp add: word_unat_eq_iff unat_of_nat_u32)
      have cnt: "unat ((of_nat (per_slab ?z) :: u32) - 1) = per_slab ?z - 1"
      proof -
        have "(of_nat (per_slab ?z) :: u32) - 1 = of_nat (per_slab ?z - 1)"
          using per_slab_bounds(1) [OF z] by (simp add: of_nat_diff)
        then show ?thesis using per_slab_bounds(2) [OF z] by (simp add: unat_of_nat_u32)
      qed
      have create: "slab_create c s = Some (sl, s')"
        using a(1) False al nz
        by (simp add: slab_create_def objn cnt s'_def put_slab_def put_cache_def Let_def split: prod.split)
      have rng: "sl \<notin> slab_heads c"
      proof -
        obtain j where j: "88 \<le> j" "(unat c, j) \<in> live ARENA_START bs" using st'(5) by blast
        have cr: "unat c + j \<le> ARENA_END" using heap_live_range [OF st'(4) j(2)] by simp
        have "unat c + j < unat sl \<or> unat sl + k < unat c" using k(3) j(2) by blast
        then have "unat sl \<notin> {unat c + 44, unat c + 52, unat c + 60}" using j(1) by auto
        moreover have "unat (c + 44) = unat c + 44" "unat (c + 52) = unat c + 52" "unat (c + 60) = unat c + 60"
          using cr j(1) by (simp_all add: unat_add_u32)
        ultimately show ?thesis by (auto simp: slab_heads_def)
      qed
      have nin: "sl \<notin> ?N"
      proof
        assume "sl \<in> ?N"
        then obtain i where "(unat sl, i) \<in> live ARENA_START bs" using st'(6) by blast
        then show False using new by force
      qed
      have chain: "freechain (kmemory s') P (map (obj_at P ?z) [0..<per_slab ?z])"
        "\<forall>y. 4 dvd unat y \<and> y \<notin> objs P ?z \<longrightarrow> load32 (kmemory s') y = load32 (kmemory s) y"
        using fresh_page_chain(1) [OF P z, of "kmemory s"] fresh_page_chain(2) [OF P z, where m = "kmemory s"]
        by (simp_all add: s'_def)
      have "\<not> unat P < 0x400000" using st'(7) P pg nz by (auto simp: low_used_def good_page_def)
      then have pages: "\<forall>sl' \<in> insert sl ?N. page_of s' sl' \<in> used_pages p \<and> 0x400000 \<le> unat (page_of s' sl')"
        using st'(3,8) pg nz nin by (auto simp: s'_def)
      have low: "low_used p" using st'(7) pg nz by (auto simp: low_used_def)
      have "store_inv s' c (insert sl ?N)"
        unfolding store_inv_def using pages low pg tb st' a(2) k(1,2)
        by (intro conjI exI [of _ bs1]) (auto simp: s'_def)
      then show ?thesis
        by (intro got [OF create False rng nin _ _ _ P fresh chain]) (use pg nz in \<open>simp_all add: s'_def\<close>)
    qed
  qed
qed

section \<open>Allocation and release\<close>

lemma allocated_upd:
  assumes inv: "cache_inv s c f fl" and node: "sl \<in> ring_nodes (slab_heads c) f"
    and nodes: "ring_nodes (slab_heads c) f' = ring_nodes (slab_heads c) f"
    and same: "osize s' c = osize s c" "\<And>sl'. page_of s' sl' = page_of s sl'"
  shows "allocated s' c f' (fl(sl := xs)) =
    (allocated s c f fl - (objs (page_of s sl) (osize s c))) \<union> (objs (page_of s sl) (osize s c) - set xs)"
proof -
  let ?N = "ring_nodes (slab_heads c) f"
  let ?O = "\<lambda>sl. objs (page_of s sl) (osize s c)"
  define rest where "rest = (\<Union>sl' \<in> ?N - {sl}. ?O sl' - set (fl sl'))"
  have N: "?N = insert sl (?N - {sl})" using node by blast
  have "?O sl' \<inter> ?O sl = {}" if "sl' \<in> ?N - {sl}" for sl'
    using cache_obj_unique [OF inv node, of sl'] that by blast
  then have "rest \<inter> ?O sl = {}" unfolding rest_def by blast
  moreover have "allocated s c f fl = (?O sl - set (fl sl)) \<union> rest"
    unfolding allocated_def rest_def by (subst N) (rule UN_insert)
  moreover have "allocated s' c f' (fl(sl := xs)) = (?O sl - set xs) \<union> rest"
    unfolding allocated_def rest_def nodes same
    by (subst N, subst UN_insert, intro arg_cong2 [where f = union] SUP_cong) auto
  ultimately show ?thesis by blast
qed

definition keeps_objects :: "ptr set \<Rightarrow> nat \<Rightarrow> mem \<Rightarrow> mem \<Rightarrow> bool" where
  "keeps_objects os z m m' \<longleftrightarrow> (\<forall>x \<in> os. \<forall>y. 4 dvd unat y \<and> unat x \<le> unat y \<and> unat y + 4 \<le> unat x + z \<longrightarrow>
     load32 m' y = load32 m y)"

lemma allocated_obj:
  assumes "cache_inv s c f fl" "x \<in> allocated s c f fl"
  obtains sl where "sl \<in> ring_nodes (slab_heads c) f" "x \<in> objs (page_of s sl) (osize s c)" "x \<notin> set (fl sl)"
    "good_page (page_of s sl)"
  using assms cache_invD(5) by (fastforce simp: allocated_def slab_ok_def)

lemma slab_take_keeps:
  assumes inv: "cache_inv s c f fl" and h: "h \<in> slab_heads c" and sl: "sl \<in> set (f h)" and x: "fl sl = x # r"
  shows "keeps_objects (allocated s c f fl) (osize s c) (kmemory s) (kmemory (snd (slab_take c sl s)))"
proof -
  note take = slab_take_inv [OF inv h sl x]
  have node: "sl \<in> ring_nodes (slab_heads c) f" using h sl by (auto simp: ring_nodes_def)
  have ok: "slab_ok (kmemory s) (slabs s sl) (osize s c) (x # r)" using cache_invD(5) [OF inv node] x by simp
  then have xo: "good_page (page_of s sl)" "x \<in> objs (page_of s sl) (osize s c)" by (simp_all add: slab_ok_def)
  note z = cache_invD(2) [OF inv]
  have m: "kmemory (snd (slab_take c sl s)) = memset x 0 (c_object_size (caches s c)) (kmemory s)"
    by (rule ext) (simp add: take(3) memset_apply)
  show ?thesis
    unfolding keeps_objects_def
  proof (intro ballI allI impI)
    fix o' y :: u32
    assume o': "o' \<in> allocated s c f fl"
      and y: "4 dvd unat y \<and> unat o' \<le> unat y \<and> unat y + 4 \<le> unat o' + osize s c"
    obtain sl' where sl': "sl' \<in> ring_nodes (slab_heads c) f" "o' \<in> objs (page_of s sl') (osize s c)" "o' \<notin> set (fl sl')"
      using allocated_obj [OF inv o'] by blast
    have "o' \<noteq> x" using cache_obj_unique [OF inv node sl'(1) xo(2)] sl' x by auto
    then have "unat x + osize s c \<le> unat o' \<or> unat o' + osize s c \<le> unat x"
      using cache_objs_apart [OF inv node sl'(1) xo(2) sl'(2)] by simp
    then show "load32 (kmemory (snd (slab_take c sl s))) y = load32 (kmemory s) y"
      unfolding m using y obj_aligned(3) [OF xo(1) z xo(2)] by (intro load32_memset_other) auto
  qed
qed

text \<open>The pages of a cache's slabs, and the pages left alone.\<close>

definition cache_pages :: "kmem \<Rightarrow> ptr \<Rightarrow> (ptr \<Rightarrow> ptr list) \<Rightarrow> ptr set" where
  "cache_pages s c f = page_of s ` ring_nodes (slab_heads c) f"

definition keeps_pages :: "ptr set \<Rightarrow> mem \<Rightarrow> mem \<Rightarrow> bool" where
  "keeps_pages Qs m m' \<longleftrightarrow> (\<forall>Q \<in> Qs. \<forall>y. good_page Q \<and> 4 dvd unat y \<and> unat Q \<le> unat y \<and> unat y + 4 \<le> unat Q + 4096 \<longrightarrow>
     load32 m' y = load32 m y)"

lemma keeps_pages_trans: "keeps_pages Qs m m' \<Longrightarrow> keeps_pages Qs' m' m'' \<Longrightarrow> keeps_pages (Qs \<inter> Qs') m m''"
  by (auto simp: keeps_pages_def)

lemma word_not_obj:
  assumes "good_page P" "good_size z" "good_page Q" "Q \<noteq> P" "unat Q \<le> unat y" "unat y + 4 \<le> unat Q + 4096" "x \<in> objs P z"
  shows "unat x + z \<le> unat y \<or> unat y + 4 \<le> unat x"
  using pages_apart [OF assms(1,3)] obj_in_page [OF assms(1,2,7)] assms(4-6) by fastforce

lemma slab_take_pages:
  assumes inv: "cache_inv s c f fl" and h: "h \<in> slab_heads c" and sl: "sl \<in> set (f h)" and x: "fl sl = x # r"
  shows "keeps_pages (- {page_of s sl}) (kmemory s) (kmemory (snd (slab_take c sl s)))"
proof -
  note take = slab_take_inv [OF inv h sl x]
  note z = cache_invD(2) [OF inv]
  have node: "sl \<in> ring_nodes (slab_heads c) f" using h sl by (auto simp: ring_nodes_def)
  have ok: "slab_ok (kmemory s) (slabs s sl) (osize s c) (x # r)" using cache_invD(5) [OF inv node] x by simp
  then have xo: "good_page (page_of s sl)" "x \<in> objs (page_of s sl) (osize s c)" by (simp_all add: slab_ok_def)
  have m: "kmemory (snd (slab_take c sl s)) = memset x 0 (c_object_size (caches s c)) (kmemory s)"
    by (rule ext) (simp add: take(3) memset_apply)
  show ?thesis
    unfolding keeps_pages_def m
  proof (intro ballI allI impI)
    fix Q y :: u32
    assume Q: "Q \<in> - {page_of s sl}" and y: "good_page Q \<and> 4 dvd unat y \<and> unat Q \<le> unat y \<and> unat y + 4 \<le> unat Q + 4096"
    have "unat x + osize s c \<le> unat y \<or> unat y + 4 \<le> unat x" by (rule word_not_obj [OF xo(1) z _ _ _ _ xo(2), of Q]) (use Q y in auto)
    then show "load32 (memset x 0 (c_object_size (caches s c)) (kmemory s)) y = load32 (kmemory s) y"
      using y obj_aligned(3) [OF xo(1) z xo(2)] by (intro load32_memset_other) auto
  qed
qed

text \<open>What an allocation promises, from the state \<open>s\<close> to the state \<open>s'\<close>.\<close>

definition alloc_post :: "kmem \<Rightarrow> ptr \<Rightarrow> (ptr \<Rightarrow> ptr list) \<Rightarrow> (ptr \<Rightarrow> ptr list) \<Rightarrow> ptr \<Rightarrow> kmem \<Rightarrow> bool" where
  "alloc_post s c f fl p s' \<longleftrightarrow>
     (\<exists>f' fl'. cache_inv s' c f' fl' \<and> store_inv s' c (ring_nodes (slab_heads c) f')
       \<and> p \<noteq> 0 \<and> p \<notin> allocated s c f fl \<and> allocated s' c f' fl' = insert p (allocated s c f fl)
       \<and> (\<forall>a. unat (a - p) < osize s c \<longrightarrow> kmemory s' a = 0)
       \<and> keeps_objects (allocated s c f fl) (osize s c) (kmemory s) (kmemory s')
       \<and> keeps_pages (used_pages (kpmm s) - cache_pages s c f) (kmemory s) (kmemory s')
       \<and> cache_pages s' c f' \<subseteq> cache_pages s c f \<union> - used_pages (kpmm s)
       \<and> used_pages (kpmm s) \<subseteq> used_pages (kpmm s'))"

text \<open>An allocation from a state \<open>t\<close> that has one more slab, all of it free, than the state \<open>s\<close>.\<close>

lemma alloc_post_new:
  assumes "alloc_post t c g gl p s'" and "allocated t c g gl = allocated s c f fl" "osize t c = osize s c"
    and "keeps_objects (allocated s c f fl) (osize s c) (kmemory s) (kmemory t)"
    and "keeps_pages (- {P}) (kmemory s) (kmemory t)" "cache_pages t c g = insert P (cache_pages s c f)"
    and "P \<notin> used_pages (kpmm s)" "used_pages (kpmm t) = insert P (used_pages (kpmm s))"
  shows "alloc_post s c f fl p s'"
proof -
  obtain f' fl' where B: "cache_inv s' c f' fl'" "store_inv s' c (ring_nodes (slab_heads c) f')" "p \<noteq> 0"
    "p \<notin> allocated t c g gl" "allocated s' c f' fl' = insert p (allocated t c g gl)"
    "\<forall>a. unat (a - p) < osize t c \<longrightarrow> kmemory s' a = 0"
    "keeps_objects (allocated t c g gl) (osize t c) (kmemory t) (kmemory s')"
    "keeps_pages (used_pages (kpmm t) - cache_pages t c g) (kmemory t) (kmemory s')"
    "cache_pages s' c f' \<subseteq> cache_pages t c g \<union> - used_pages (kpmm t)" "used_pages (kpmm t) \<subseteq> used_pages (kpmm s')"
    using assms(1) unfolding alloc_post_def by blast
  have "keeps_objects (allocated s c f fl) (osize s c) (kmemory s) (kmemory s')"
    using B(7) assms(2-4) by (simp add: keeps_objects_def)
  moreover have "keeps_pages (used_pages (kpmm s) - cache_pages s c f) (kmemory s) (kmemory s')"
  proof -
    have "used_pages (kpmm s) - cache_pages s c f \<subseteq> (- {P}) \<inter> (used_pages (kpmm t) - cache_pages t c g)"
      using assms(6-8) by auto
    then show ?thesis using keeps_pages_trans [OF assms(5) B(8)] by (auto simp: keeps_pages_def)
  qed
  ultimately show ?thesis unfolding alloc_post_def using B assms(2,3,6-8) by (intro exI [of _ f'] exI [of _ fl']) auto
qed

lemma slab_take_post:
  assumes inv: "cache_inv s c f fl" and st: "store_inv s c (ring_nodes (slab_heads c) f)"
    and h: "h \<in> slab_heads c" and sl: "sl \<in> set (f h)" and ne: "fl sl \<noteq> []"
  shows "alloc_post s c f fl (fst (slab_take c sl s)) (snd (slab_take c sl s))"
proof -
  obtain x r where x: "fl sl = x # r" using ne by (cases "fl sl") auto
  note take = slab_take_inv [OF inv h sl x]
  have node: "sl \<in> ring_nodes (slab_heads c) f" using h sl by (auto simp: ring_nodes_def)
  have ok: "slab_ok (kmemory s) (slabs s sl) (osize s c) (x # r)" using cache_invD(5) [OF inv node] x by simp
  then have xo: "x \<in> objs (page_of s sl) (osize s c)" "x \<notin> set r" "set r \<subseteq> objs (page_of s sl) (osize s c)"
    by (simp_all add: slab_ok_def)
  obtain f' where f': "cache_inv (snd (slab_take c sl s)) c f' (fl(sl := r))"
    "ring_nodes (slab_heads c) f' = ring_nodes (slab_heads c) f" using take(2) by blast
  have all: "allocated s c f fl \<inter> objs (page_of s sl) (osize s c) = objs (page_of s sl) (osize s c) - set (x # r)"
    using allocated_upd [OF inv node refl refl refl, of "x # r"] x by (auto simp: fun_upd_idem)
  have "allocated (snd (slab_take c sl s)) c f' (fl(sl := r)) = insert x (allocated s c f fl)"
    using allocated_upd [OF inv node f'(2) take(5,6), of r] all xo by auto
  moreover have "x \<notin> allocated s c f fl" using all xo(1) by auto
  moreover have "store_inv (snd (slab_take c sl s)) c (ring_nodes (slab_heads c) f')"
    using st f'(2) by (simp add: store_inv_def take)
  moreover have pages: "cache_pages (snd (slab_take c sl s)) c f' = cache_pages s c f"
    unfolding cache_pages_def f'(2) by (simp add: take(6))
  moreover have "keeps_pages (used_pages (kpmm s) - cache_pages s c f) (kmemory s) (kmemory (snd (slab_take c sl s)))"
    using slab_take_pages [OF inv h sl x] node unfolding cache_pages_def keeps_pages_def by blast
  ultimately show ?thesis
    unfolding alloc_post_def take(1)
    using f'(1) take(3,4,8) slab_take_keeps [OF inv h sl x] by (intro exI conjI) auto
qed

lemma kmem_cache_alloc_cases:
  assumes inv: "cache_inv s c f fl" and st: "store_inv s c (ring_nodes (slab_heads c) f)"
  obtains (null) h where "kmem_cache_alloc c s = Some (0, s\<lparr>kheap_of := h\<rparr>)"
      "cache_inv (s\<lparr>kheap_of := h\<rparr>) c f fl" "store_inv (s\<lparr>kheap_of := h\<rparr>) c (ring_nodes (slab_heads c) f)"
      "f (slabs_partial c) = []" "f (slabs_empty c) = []" "no_store s"
  | (obj) p s' where "kmem_cache_alloc c s = Some (p, s')" "alloc_post s c f fl p s'"
proof -
  let ?H = "slab_heads c"
  let ?n = "per_slab (osize s c)"
  note r = cache_invD(3) [OF inv]
  note z = cache_invD(2) [OF inv]
  have c0: "c \<noteq> 0" by (rule cache_invD(1) [OF inv])
  have part: "list_empty (slabs_partial c) (klinks s) \<longleftrightarrow> f (slabs_partial c) = []"
    and emp: "list_empty (slabs_empty c) (klinks s) \<longleftrightarrow> f (slabs_empty c) = []"
    using dlist_empty_iff [OF rings_dlist [OF r]] by simp_all
  have has_free: "fl sl \<noteq> []" if "h \<in> {slabs_partial c, slabs_empty c}" "sl \<in> set (f h)" for h sl
  proof
    assume "fl sl = []"
    moreover have "h = right_list c ?n (length (fl sl))" using cache_invD(6) [OF inv _ that(2)] that(1) by auto
    ultimately show False using that(1) by (simp add: right_list_def)
  qed
  have taking: thesis
    if h: "h \<in> {slabs_partial c, slabs_empty c}" and ne: "f h \<noteq> []"
      and e: "kmem_cache_alloc c s = Some (slab_take c (lnext (klinks s) h) s)" for h
  proof -
    obtain sl sls where sl: "f h = sl # sls" using ne by (cases "f h") auto
    have hH: "h \<in> ?H" using h by auto
    have "lnext (klinks s) h = sl" using dlist_first rings_dlist [OF r hH] sl by metis
    then show thesis
      using obj [of "fst (slab_take c sl s)" "snd (slab_take c sl s)"] e
        slab_take_post [OF inv st hH, of sl] has_free [OF h, of sl] sl by simp
  qed
  show thesis
  proof (cases "f (slabs_partial c) = [] \<and> f (slabs_empty c) = []")
    case False
    then show thesis
      using taking [of "slabs_partial c"] taking [of "slabs_empty c"] part emp c0
      by (auto simp: kmem_cache_alloc_def)
  next
    case True
    from inv st show thesis
    proof (cases rule: slab_create_cases)
      case (fail h)
      have "kmem_cache_alloc c s = Some (0, s\<lparr>kheap_of := h\<rparr>)"
        using True part emp c0 fail(1) by (simp add: kmem_cache_alloc_def)
      moreover have "cache_inv (s\<lparr>kheap_of := h\<rparr>) c f fl" using inv by (simp add: cache_inv_def)
      ultimately show thesis using null fail(2,3) True by blast
    next
      case (got sl s1 P)
      let ?f = "f(slabs_empty c := sl # f (slabs_empty c))"
      let ?xs = "map (obj_at P (osize s c)) [0..<?n]"
      let ?fl = "fl(sl := ?xs)"
      let ?s = "s1\<lparr>klinks := list_add sl (slabs_empty c) (klinks s1)\<rparr>"
      have os: "osize s1 c = osize s c" using got(7) by simp
      have r1: "rings (klinks s1) ?H f" unfolding got(5) by (rule rings_init [OF r got(4,3)])
      note add = rings_add [OF r1 slab_heads_mem(3) got(4,3,2)]
      have ok_new: "slab_ok (kmemory s1) (slabs s1 sl) (osize s c) ?xs"
      proof -
        have "distinct ?xs" using obj_inj [OF got(8) z] by (auto simp: distinct_map inj_on_def)
        moreover have "set ?xs = objs P (osize s c)" by (auto simp: objs_def)
        ultimately show ?thesis using got(6,8,10) by (simp add: slab_ok_def)
      qed
      have ok_old: "slab_ok (kmemory s1) (slabs s1 sl') (osize s c) (fl sl')" if n: "sl' \<in> ring_nodes ?H f" for sl'
      proof -
        have o: "slab_ok (kmemory s) (slabs s sl') (osize s c) (fl sl')" by (rule cache_invD(5) [OF inv n])
        have ne: "sl' \<noteq> sl" using n got(4) by auto
        have "load32 (kmemory s1) y = load32 (kmemory s) y" if y: "y \<in> set (fl sl')" for y
        proof -
          have yo: "good_page (page_of s sl')" "y \<in> objs (page_of s sl') (osize s c)"
            using o y by (auto simp: slab_ok_def)
          have "page_of s sl' \<noteq> P" using got(9) n by blast
          then have "y \<notin> objs P (osize s c)"
            using pages_apart [OF yo(1) got(8)] obj_in_page [OF yo(1) z yo(2)] obj_in_page [OF got(8) z, of y] z
            by (auto simp: good_size_def)
          then show ?thesis using got(11) obj_aligned(1) [OF yo(1) z yo(2)] by simp
        qed
        from freechain_cong [of "fl sl'", OF this] show ?thesis using o ne got(6) by (simp add: slab_ok_def)
      qed
      have n1: "1 \<le> ?n" by (rule per_slab_bounds(1) [OF z])
      have inv1: "cache_inv ?s c ?f ?fl"
        unfolding cache_inv_def add(2)
      proof (intro conjI ballI)
        show "c \<noteq> 0" by (rule c0)
        show "good_size (osize ?s c)" using z os by simp
        show "rings (klinks ?s) ?H ?f" using add(1) by simp
        show "slab_ok (kmemory ?s) (slabs ?s sl') (osize ?s c) (?fl sl')" if "sl' \<in> insert sl (ring_nodes ?H f)" for sl'
          using that ok_new ok_old os got(4) by auto
        have "page_of ?s sl' = (if sl' = sl then P else page_of s sl')" for sl' using got(6) by simp
        then show "inj_on (page_of ?s) (insert sl (ring_nodes ?H f))"
          using cache_invD(4) [OF inv] got(4,9) by (auto simp: inj_on_def)
        fix h sl'
        assume h: "h \<in> ?H" and sl': "sl' \<in> set (?f h)"
        show "h = right_list c (per_slab (osize ?s c)) (length (?fl sl'))"
        proof (cases "sl' = sl")
          case True
          have "sl \<notin> set (f h)" using got(4) h by (auto simp: ring_nodes_def)
          then have "h = slabs_empty c" using sl' True by (auto split: if_splits)
          then show ?thesis using True n1 os by (simp add: right_list_def)
        next
          case False
          then have "sl' \<in> set (f h)" using sl' by (auto split: if_splits)
          then show ?thesis using cache_invD(6) [OF inv h] False os by simp
        qed
      qed
      have st1: "store_inv ?s c (ring_nodes ?H ?f)"
        using got(12) unfolding add(2) by (simp add: store_inv_def)
      have e: "kmem_cache_alloc c s = Some (slab_take c sl ?s)"
        using True part emp c0 got(1,2) by (simp add: kmem_cache_alloc_def)
      have nefl: "?fl sl \<noteq> []" using n1 by simp
      have "sl \<in> set (?f (slabs_empty c))" by simp
      from slab_take_post [OF inv1 st1 slab_heads_mem(3) this nefl]
      have post: "alloc_post ?s c ?f ?fl (fst (slab_take c sl ?s)) (snd (slab_take c sl ?s))" .
      have all: "allocated ?s c ?f ?fl = allocated s c f fl"
      proof -
        have new: "objs (page_of ?s sl) (osize ?s c) - set (?fl sl) = {}"
          using got(6) os by (auto simp: objs_def)
        have old: "objs (page_of ?s sl') (osize ?s c) - set (?fl sl') = objs (page_of s sl') (osize s c) - set (fl sl')"
          if "sl' \<in> ring_nodes ?H f" for sl'
          using that got(4,6) os by auto
        show ?thesis
          unfolding allocated_def add(2) by (subst UN_insert, unfold new Un_empty_left, rule SUP_cong [OF refl old])
      qed
      have "keeps_objects (allocated s c f fl) (osize s c) (kmemory s) (kmemory s1)"
        unfolding keeps_objects_def
      proof (intro ballI allI impI)
        fix x y :: u32
        assume x: "x \<in> allocated s c f fl"
          and y: "4 dvd unat y \<and> unat x \<le> unat y \<and> unat y + 4 \<le> unat x + osize s c"
        obtain sl' where sl': "sl' \<in> ring_nodes ?H f" "x \<in> objs (page_of s sl') (osize s c)" "good_page (page_of s sl')"
          using allocated_obj [OF inv x] by blast
        have "page_of s sl' \<noteq> P" using got(9) sl'(1) by blast
        then have "y \<notin> objs P (osize s c)"
          using pages_apart [OF sl'(3) got(8)] obj_in_page [OF sl'(3) z sl'(2)] obj_in_page [OF got(8) z, of y] y z
          by (auto simp: good_size_def)
        then show "load32 (kmemory s1) y = load32 (kmemory s) y" using got(11) y by simp
      qed
      moreover have "keeps_pages (- {P}) (kmemory s) (kmemory s1)"
        unfolding keeps_pages_def
      proof (intro ballI allI impI)
        fix Q y :: u32
        assume "Q \<in> - {P}" and y: "good_page Q \<and> 4 dvd unat y \<and> unat Q \<le> unat y \<and> unat y + 4 \<le> unat Q + 4096"
        then have "y \<notin> objs P (osize s c)" using word_not_obj [OF got(8) z, of Q y y] z by (auto simp: good_size_def)
        then show "load32 (kmemory s1) y = load32 (kmemory s) y" using got(11) y by simp
      qed
      moreover have pages: "cache_pages ?s c ?f = insert P (cache_pages s c f)"
      proof -
        have "page_of ?s ` ring_nodes ?H f = page_of s ` ring_nodes ?H f" using got(4,6) by (intro image_cong) auto
        then show ?thesis unfolding cache_pages_def add(2) using got(6) by simp
      qed
      moreover have "P \<notin> used_pages (kpmm s)" "used_pages (kpmm ?s) = insert P (used_pages (kpmm s))" using got(13,14) by simp_all
      ultimately have "alloc_post s c f fl (fst (slab_take c sl ?s)) (snd (slab_take c sl ?s))"
        using alloc_post_new [OF post all] os by simp
      then show thesis using obj [of "fst (slab_take c sl ?s)" "snd (slab_take c sl ?s)"] e by simp
    qed
  qed
qed

section \<open>A new cache\<close>

text \<open>The list of caches: its head is a kernel variable below the heap, its nodes sit at
  offset 80 in blocks of the heap.\<close>

definition caches_inv :: "kmem \<Rightarrow> ptr list \<Rightarrow> bool" where
  "caches_inv s cs \<longleftrightarrow> page_inv (kpmm s) \<and> low_used (kpmm s) \<and> unat (total_blocks (kpmm s)) < MAX_BLOCKS
     \<and> unat (cache_list s) < ARENA_START \<and> dlist (klinks s) (cache_list s) (map cache_node cs)
     \<and> (\<exists>bs. heap_inv (kheap_of s) bs \<and> (\<forall>c \<in> set cs. \<exists>k \<ge> 88. (unat c, k) \<in> live ARENA_START bs))"

lemma cache_offset_unat:
  assumes "unat c + k \<le> ARENA_END" "88 \<le> k"
  shows "unat (slabs_full c) = unat c + 44" "unat (slabs_partial c) = unat c + 52"
    "unat (slabs_empty c) = unat c + 60" "unat (cache_node c) = unat c + 80"
  using assms by (simp_all add: unat_add_u32)

lemma rings_fresh:
  assumes "\<And>h. h \<in> H \<Longrightarrow> h \<noteq> 0 \<and> lnext l h = h \<and> lprev l h = h"
  shows "rings l H (\<lambda>_. [])"
  using assms by (auto simp: rings_def dlist_def)

lemma kmem_cache_create_cases:
  assumes inv: "caches_inv s cs"
  obtains (fail) "kmem_cache_create name len align flags s = Some (0, s)"
      "\<exists>h. kmalloc CACHE_SIZE (kheap_of s) = Some (0, h)"
  | (made) c s' where "kmem_cache_create name len align flags s = Some (c, s')" "c \<notin> set cs"
      "caches_inv s' (cs @ [c])" "good_size (unat (align_object_size len align)) \<longrightarrow> cache_inv s' c (\<lambda>_. []) fl" "store_inv s' c {}"
      "c_object_size (caches s' c) = align_object_size len align"
proof -
  obtain bs where st: "page_inv (kpmm s)" "unat (total_blocks (kpmm s)) < MAX_BLOCKS"
    "unat (cache_list s) < ARENA_START" "dlist (klinks s) (cache_list s) (map cache_node cs)"
    "heap_inv (kheap_of s) bs" "\<forall>c \<in> set cs. \<exists>k \<ge> 88. (unat c, k) \<in> live ARENA_START bs" "low_used (kpmm s)"
    using inv unfolding caches_inv_def by blast
  obtain c h bs1 where a: "kmalloc CACHE_SIZE (kheap_of s) = Some (c, h)" "heap_inv h bs1"
    and a': "if c = 0 then h = kheap_of s \<and> bs1 = bs
       else \<exists>k. live ARENA_START bs1 = insert (unat c, k) (live ARENA_START bs)
         \<and> (unat CACHE_SIZE < 2 ^ 32 - 15 \<longrightarrow> unat CACHE_SIZE \<le> k)
         \<and> (\<forall>(q, j) \<in> live ARENA_START bs. q + j < unat c \<or> unat c + k < q)"
    using heap.alloc_total [OF st(5), of CACHE_SIZE] by blast
  show ?thesis
  proof (cases "c = 0")
    case True
    then show ?thesis using a a' by (intro fail) (simp_all add: kmem_cache_create_def)
  next
    case False
    then obtain k where k: "live ARENA_START bs1 = insert (unat c, k) (live ARENA_START bs)" "88 \<le> k"
      "\<forall>(q, j) \<in> live ARENA_START bs. q + j < unat c \<or> unat c + k < q" using a' by auto
    have range: "ARENA_START + 12 \<le> unat c" "unat c + k \<le> ARENA_END"
      using heap_live_range [OF a(2), of "unat c" k] k(1) by auto
    note off = cache_offset_unat [OF range(2) k(2)]
    let ?cl = "cache_list s"
    let ?own = "{slabs_full c, slabs_partial c, slabs_empty c, cache_node c}"
    have apart: "x \<notin> set (?cl # map cache_node cs)" if "x \<in> ?own" for x
    proof
      have x: "unat c \<le> unat x \<and> unat x \<le> unat c + k" using that off k(2) by auto
      assume "x \<in> set (?cl # map cache_node cs)"
      then consider "x = ?cl" | c' where "c' \<in> set cs" "x = cache_node c'" by auto
      then show False
      proof cases
        case 1
        then show False using x st(3) range by simp
      next
        case 2
        obtain j where j: "88 \<le> j" "(unat c', j) \<in> live ARENA_START bs" using st(6) 2(1) by blast
        have "unat c' + j \<le> ARENA_END" using heap_live_range [OF st(5) j(2)] by simp
        then have "unat x = unat c' + 80" using cache_offset_unat(4) j(1) 2(2) by simp
        then show False using k(3) j x by fastforce
      qed
    qed
    have c_new: "c \<notin> set cs"
    proof
      assume "c \<in> set cs"
      then obtain j where "(unat c, j) \<in> live ARENA_START bs" using st(6) by blast
      then show False using k(3) by fastforce
    qed
    let ?l3 = "init_list_head (slabs_empty c) (init_list_head (slabs_partial c) (init_list_head (slabs_full c) (klinks s)))"
    let ?l4 = "init_list_head (cache_node c) ?l3"
    let ?l5 = "list_add_tail (cache_node c) ?cl ?l4"
    have d4: "dlist ?l4 ?cl (map cache_node cs)"
      using st(4) apart by (simp add: dlist_init_other)
    have node: "cache_node c \<notin> set (?cl # map cache_node cs)" by (rule apart) simp
    have nz: "cache_node c \<noteq> 0"
    proof
      assume "cache_node c = 0"
      then have "unat (cache_node c) = 0" by simp
      then show False using off(4) by simp
    qed
    have d5: "dlist ?l5 ?cl (map cache_node (cs @ [c]))" using dlist_add_tail [OF d4 node nz] by simp
    have heads: "h \<noteq> 0 \<and> lnext ?l5 h = h \<and> lprev ?l5 h = h" if h: "h \<in> slab_heads c" for h
    proof -
      have o: "h \<in> ?own" using h by (auto simp: slab_heads_def)
      have "h \<noteq> 0" using h off range by (auto simp: slab_heads_def word_unat_eq_iff simp del: unat_add_u32)
      moreover have "h \<noteq> cache_node c" using h off by (auto simp: slab_heads_def)
      moreover have "lnext ?l4 h = h \<and> lprev ?l4 h = h" using h by (auto simp: slab_heads_def init_list_head_def)
      ultimately show ?thesis using list_add_tail_frame [OF d4 apart [OF o]] by simp
    qed
    let ?s2 = "put_cache c \<lparr>c_name = take 31 name, c_object_size = align_object_size len align,
                c_align = (if align = 0 then 4 else align), c_flags = flags,
                c_num_objs = 0, c_num_active = 0, c_num_slabs = 0\<rparr> (s\<lparr>kheap_of := h\<rparr>)"
    let ?s = "?s2\<lparr>klinks := ?l5\<rparr>"
    have e: "kmem_cache_create name len align flags s = Some (c, ?s)"
      using a(1) False by (simp add: kmem_cache_create_def Let_def put_cache_def)
    have "rings ?l5 (slab_heads c) (\<lambda>_. [])" by (rule rings_fresh) (rule heads)
    then have ci: "good_size (unat (align_object_size len align)) \<longrightarrow> cache_inv ?s c (\<lambda>_. []) fl"
      using False by (simp add: cache_inv_def ring_nodes_def put_cache_def)
    have live: "(unat c, k) \<in> live ARENA_START bs1" using k(1) by simp
    have "store_inv ?s c {}"
      unfolding store_inv_def using st(1,2,7) a(2) k(2) live by (auto simp: put_cache_def)
    moreover have "caches_inv ?s (cs @ [c])"
    proof -
      have "\<forall>c' \<in> set (cs @ [c]). \<exists>j \<ge> 88. (unat c', j) \<in> live ARENA_START bs1"
        using st(6) k(1,2) by auto
      then show ?thesis unfolding caches_inv_def using st(1-3,7) a(2) d5 by (auto simp: put_cache_def)
    qed
    ultimately show ?thesis using made [OF e c_new] ci by (simp add: put_cache_def)
  qed
qed

section \<open>Release\<close>

text \<open>The search by address finds the one slab whose page holds the object.\<close>

lemma in_slab_iff:
  assumes inv: "cache_inv s c f fl" and sl: "sl \<in> ring_nodes (slab_heads c) f"
    and x: "x \<in> objs (page_of s sl) (osize s c)" and pos: "pos \<in> ring_nodes (slab_heads c) f"
  shows "in_slab s x pos \<longleftrightarrow> pos = sl"
proof -
  note z = cache_invD(2) [OF inv]
  have P: "good_page (page_of s sl)" "good_page (page_of s pos)"
    using cache_invD(5) [OF inv sl] cache_invD(5) [OF inv pos] by (simp_all add: slab_ok_def)
  have r: "unat (page_of s sl) \<le> unat x \<and> unat x + osize s c \<le> unat (page_of s sl) + 4096"
    by (rule obj_in_page [OF P(1) z x])
  have i: "in_slab s x pos \<longleftrightarrow> unat (page_of s pos) \<le> unat x \<and> unat x < unat (page_of s pos) + 4096"
    using P(2) by (simp add: in_slab_def word_le_nat_alt word_less_nat_alt unat_add_u32 good_page_def)
  show ?thesis
  proof (cases "pos = sl")
    case True
    then show ?thesis using i r z by (simp add: good_size_def)
  next
    case False
    then have "page_of s sl \<noteq> page_of s pos" using cache_invD(4) [OF inv] sl pos by (auto simp: inj_on_def)
    then show ?thesis using i r z False pages_apart [OF P] by (auto simp: good_size_def)
  qed
qed

lemma find_only: "(\<And>y. y \<in> set xs \<Longrightarrow> P y \<longleftrightarrow> y = a) \<Longrightarrow> find P xs = (if a \<in> set xs then Some a else None)"
  by (induction xs) auto

lemma kmem_cache_free_object:
  assumes inv: "cache_inv s c f fl" and x: "x \<in> allocated s c f fl"
  obtains h sl where "kmem_cache_free c x s = Some (slab_put c sl x s)" "h \<in> slab_heads c" "sl \<in> set (f h)"
    "x \<in> objs (page_of s sl) (osize s c)" "x \<notin> set (fl sl)"
proof -
  let ?H = "slab_heads c"
  obtain sl where sl: "sl \<in> ring_nodes ?H f" "x \<in> objs (page_of s sl) (osize s c)" "x \<notin> set (fl sl)"
    "good_page (page_of s sl)" using allocated_obj [OF inv x] .
  then obtain h where h: "h \<in> ?H" "sl \<in> set (f h)" by (auto simp: ring_nodes_def)
  note z = cache_invD(2) [OF inv]
  have x0: "x \<noteq> 0" by (rule obj_aligned(2) [OF sl(4) z sl(2)])
  have "length (fl sl) \<noteq> per_slab (osize s c)"
  proof
    assume e: "length (fl sl) = per_slab (osize s c)"
    have ok: "slab_ok (kmemory s) (slabs s sl) (osize s c) (fl sl)" by (rule cache_invD(5) [OF inv sl(1)])
    have "set (fl sl) = objs (page_of s sl) (osize s c)"
      using ok e card_objs [OF sl(4) z] by (intro card_subset_eq) (auto simp: slab_ok_def distinct_card objs_def)
    then show False using sl(2,3) by simp
  qed
  then have "h \<noteq> slabs_empty c" using cache_invD(6) [OF inv h] by (auto simp: right_list_def split: if_splits)
  then have hh: "h = slabs_full c \<or> h = slabs_partial c" using h(1) by (auto simp: slab_heads_def)
  have search: "list_search (in_slab s x) g (lnext (klinks s) g) (klinks s) = Some (if g = h then Some sl else None)"
    if g: "g \<in> ?H" for g
  proof -
    have "find (in_slab s x) (f g) = (if sl \<in> set (f g) then Some sl else None)"
      using in_slab_iff [OF inv sl(1,2)] g by (intro find_only) (auto simp: ring_nodes_def)
    moreover have "sl \<in> set (f g) \<longleftrightarrow> g = h" by (rule rings_node_head [OF cache_invD(3) [OF inv] h g])
    ultimately show ?thesis using list_search_dlist [OF rings_dlist [OF cache_invD(3) [OF inv] g]] by simp
  qed
  have "kmem_cache_free c x s = Some (slab_put c sl x s)"
    using hh cache_invD(1) [OF inv] x0 by (auto simp: kmem_cache_free_def search)
  then show ?thesis using that h sl(2,3) by blast
qed

lemma slab_put_keeps:
  assumes inv: "cache_inv s c f fl" and h: "h \<in> slab_heads c" and sl: "sl \<in> set (f h)"
    and x: "x \<in> objs (page_of s sl) (osize s c)" "x \<notin> set (fl sl)"
  shows "keeps_objects (allocated s c f fl - {x}) (osize s c) (kmemory s) (kmemory (slab_put c sl x s))"
  unfolding keeps_objects_def
proof (intro ballI allI impI)
  fix o' y :: u32
  assume o': "o' \<in> allocated s c f fl - {x}"
    and y: "4 dvd unat y \<and> unat o' \<le> unat y \<and> unat y + 4 \<le> unat o' + osize s c"
  have node: "sl \<in> ring_nodes (slab_heads c) f" using h sl by (auto simp: ring_nodes_def)
  then have P: "good_page (page_of s sl)" using cache_invD(5) [OF inv node] by (simp add: slab_ok_def)
  note z = cache_invD(2) [OF inv]
  obtain sl' where sl': "sl' \<in> ring_nodes (slab_heads c) f" "o' \<in> objs (page_of s sl') (osize s c)"
    using allocated_obj [OF inv, of o'] o' by blast
  have "unat x + osize s c \<le> unat o' \<or> unat o' + osize s c \<le> unat x"
    using cache_objs_apart [OF inv node sl'(1) x(1) sl'(2)] o' by auto
  then have "y \<noteq> x" using y z by (auto simp: good_size_def)
  then show "load32 (kmemory (slab_put c sl x s)) y = load32 (kmemory s) y"
    using y obj_aligned(1) [OF P z x(1)] by (simp add: slab_put_inv(6) [OF inv h sl x])
qed

text \<open>What a release promises.\<close>

definition free_post :: "kmem \<Rightarrow> ptr \<Rightarrow> (ptr \<Rightarrow> ptr list) \<Rightarrow> (ptr \<Rightarrow> ptr list) \<Rightarrow> ptr \<Rightarrow> kmem \<Rightarrow> bool" where
  "free_post s c f fl x s' \<longleftrightarrow>
     (\<exists>f' fl'. cache_inv s' c f' fl' \<and> store_inv s' c (ring_nodes (slab_heads c) f')
       \<and> allocated s' c f' fl' = allocated s c f fl - {x}
       \<and> keeps_objects (allocated s c f fl - {x}) (osize s c) (kmemory s) (kmemory s'))"

lemma slab_put_post:
  assumes inv: "cache_inv s c f fl" and st: "store_inv s c (ring_nodes (slab_heads c) f)"
    and h: "h \<in> slab_heads c" and sl: "sl \<in> set (f h)"
    and x: "x \<in> objs (page_of s sl) (osize s c)" "x \<notin> set (fl sl)"
  shows "free_post s c f fl x (slab_put c sl x s)"
proof -
  note put = slab_put_inv [OF inv h sl x]
  have node: "sl \<in> ring_nodes (slab_heads c) f" using h sl by (auto simp: ring_nodes_def)
  obtain f' where f': "cache_inv (slab_put c sl x s) c f' (fl(sl := x # fl sl))"
    "ring_nodes (slab_heads c) f' = ring_nodes (slab_heads c) f" using put(1) by blast
  have all: "allocated s c f fl \<inter> objs (page_of s sl) (osize s c) = objs (page_of s sl) (osize s c) - set (fl sl)"
    using allocated_upd [OF inv node refl refl refl, of "fl sl"] by (auto simp: fun_upd_idem)
  have "allocated (slab_put c sl x s) c f' (fl(sl := x # fl sl)) = allocated s c f fl - {x}"
    using allocated_upd [OF inv node f'(2) put(2,3), of "x # fl sl"] all x by auto
  moreover have "store_inv (slab_put c sl x s) c (ring_nodes (slab_heads c) f')"
    using st f'(2) by (simp add: store_inv_def put)
  ultimately show ?thesis
    unfolding free_post_def using f'(1) slab_put_keeps [OF inv h sl x] by blast
qed

section \<open>A cache whose objects do not fit\<close>

text \<open>The threading loop on any object size: every aligned word it meets points one object
  further, whatever the number of rounds.\<close>

lemma thread_freelist_words:
  assumes "4 dvd unat osz" "4 dvd unat obj" "4 dvd unat y"
  shows "load32 (snd (thread_freelist k obj osz m)) y =
      (if \<exists>j < k. y = obj + of_nat j * osz then y + osz else load32 m y)"
    and "fst (thread_freelist k obj osz m) = obj + of_nat k * osz"
  using assms
proof (induction k arbitrary: obj m)
  case 0
  { case 1 then show ?case by simp }
  { case 2 then show ?case by simp }
next
  case (Suc k)
  have al: "4 dvd unat (obj + osz)" if "4 dvd unat obj" "4 dvd unat osz" for obj :: u32
    using that by (simp add: unat_word_ariths dvd_mod)
  have ex: "(\<exists>j < Suc k. y = obj + of_nat j * osz) \<longleftrightarrow> y = obj \<or> (\<exists>j < k. y = obj + osz + of_nat j * osz)" for obj
    by (subst Ex_less_Suc2) (simp add: algebra_simps)
  { case (1 obj m)
    have st: "load32 (store32 obj (obj + osz) m) y = (if y = obj then y + osz else load32 m y)" using 1 by simp
    have "load32 (snd (thread_freelist (Suc k) obj osz m)) y =
        (if \<exists>j < k. y = obj + osz + of_nat j * osz then y + osz else if y = obj then y + osz else load32 m y)"
      unfolding thread_freelist.simps st [symmetric] by (rule Suc.IH(1) [OF 1(1) al [OF 1(2,1)] 1(3)])
    then show ?case unfolding if_cong [OF ex refl refl] by (simp only: split: if_split) blast }
  { case (2 obj m)
    then show ?case using Suc.IH(2) [of "obj + osz"] al by (simp add: algebra_simps) }
qed

section \<open>Properties\<close>

definition boot_kmem :: "mem \<Rightarrow> kmem" where
  "boot_kmem m = \<lparr>slabs = (\<lambda>_. \<lparr>sl_mem = 0, sl_inuse = 0, sl_objects = 0, sl_freelist = 0\<rparr>),
     caches = (\<lambda>_. \<lparr>c_name = [], c_object_size = 0, c_align = 0, c_flags = 0, c_num_objs = 0, c_num_active = 0, c_num_slabs = 0\<rparr>),
     klinks = init_list_head 0x15000 \<lparr>lnext = (\<lambda>_. 0), lprev = (\<lambda>_. 0)\<rparr>, cache_list = 0x15000, kmemory = m,
     kheap_of = boot_kheap (\<lambda>_. \<lparr>hb_size = 0, hb_is_free = True, hb_next = 0\<rparr>), kpmm = boot_pmm\<rparr>"

lemma boot_kmem_sel [simp]:
  "kheap_of (boot_kmem m) = boot_kheap (\<lambda>_. \<lparr>hb_size = 0, hb_is_free = True, hb_next = 0\<rparr>)"
  "kpmm (boot_kmem m) = boot_pmm" "cache_list (boot_kmem m) = 0x15000" "kmemory (boot_kmem m) = m"
  by (simp_all add: boot_kmem_def)

lemma boot_page:
  obtains P p where "pmm_alloc_block boot_pmm = (P, p)" "P \<noteq> 0" "4096 dvd unat P" "0x400000 \<le> unat P"
  using boot_pmm_inv(1)
proof (cases rule: pmm_alloc_block_cases)
  case full
  then show ?thesis by (auto simp: boot_pmm_inv)
next
  case (got b)
  then have "unat (of_nat b * PMM_BLOCK_SIZE :: ptr) = b * 4096" "1024 \<le> b"
    using unat_block_addr [of b] by (auto simp: boot_pmm_free)
  then show ?thesis using got(4) by (intro that [OF got(4)]) (auto simp: word_unat_eq_iff)
qed

lemma boot_pmm_low: "low_used boot_pmm"
proof -
  have "P \<in> used_pages boot_pmm" if P: "4096 dvd unat P" "unat P < 0x400000" for P
  proof -
    obtain b where b: "unat P = 4096 * b" using P(1) by (auto elim: dvdE)
    then have "b < 1024" using P(2) by simp
    moreover have "P = of_nat b * PMM_BLOCK_SIZE" using b \<open>b < 1024\<close> by (simp add: word_unat_eq_iff unat_block_addr)
    ultimately show ?thesis by (auto simp: used_pages_def boot_pmm_inv)
  qed
  then show ?thesis by (simp add: low_used_def)
qed

lemma boot_caches_inv: "caches_inv (boot_kmem m) []"
proof -
  have "page_inv boot_pmm" by (simp add: page_inv_def boot_pmm_inv)
  moreover have "dlist (klinks (boot_kmem m)) 0x15000 []" by (simp add: boot_kmem_def dlist_init)
  moreover have "low_used boot_pmm" by (simp add: boot_pmm_low)
  ultimately show ?thesis using boot_kheap_inv by (auto simp: caches_inv_def boot_pmm_inv)
qed

lemma align_object_size_32: "align_object_size 32 0 = 32"
  by (simp add: align_object_size_def)

text \<open>The boot state with one cache of 32-byte objects.\<close>

lemma boot_cache:
  obtains c s where "kmem_cache_create (lit ''obj'') 32 0 0 (boot_kmem m) = Some (c, s)"
    "cache_inv s c (\<lambda>_. []) (\<lambda>_. [])" "store_inv s c {}"
proof -
  have z: "good_size (unat (align_object_size 32 0))" by (simp add: align_object_size_32 good_size_def)
  from boot_caches_inv [of m] show ?thesis
  proof (cases rule: kmem_cache_create_cases [where name = "lit ''obj''" and len = 32 and align = 0 and flags = 0 and fl = "\<lambda>_. []"])
    case fail
    have "unat (align16 88) = 96" by (simp add: align16_def)
    then show ?thesis using fail(2) boot_kmalloc [of 88] by auto
  next
    case (made c s')
    show ?thesis by (rule that [OF made(1) made(4) [rule_format, OF z] made(5)])
  qed
qed

text \<open>After that a slab can be had: there is room for its descriptor, and a free page.\<close>

lemma boot_cache_store:
  assumes "kmem_cache_create (lit ''obj'') 32 0 0 (boot_kmem m) = Some (c, s)" and "c \<noteq> 0"
  shows "\<not> no_store s" "kpmm s = boot_pmm"
proof -
  obtain h where h: "kmalloc 88 (kheap_of (boot_kmem m)) = Some (c, h)" "kheap_of s = h" "kpmm s = boot_pmm" "c \<noteq> 0"
    using assms by (auto simp: kmem_cache_create_def Let_def put_cache_def split: if_splits bind_splits)
  have a: "align16 88 = 96" "align16 24 = 32" by (simp_all add: align16_def)
  have ab: "alloc_abs (unat (align16 88)) ARENA_START [(0xFFFF4, True)] = Some (0x20000C, [(96, False), (0xFFF88, True)])"
    by (simp add: a take_abs_def)
  from heap_alloc_new [OF boot_kheap_inv this, of "\<lambda>_. \<lparr>hb_size = 0, hb_is_free = True, hb_next = 0\<rparr>"] h(1,2)
  have hi: "heap_inv (kheap_of s) [(96, False), (0xFFF88, True)]" by auto
  have "alloc_abs (unat (align16 24)) ARENA_START [(96, False), (0xFFF88, True)] \<noteq> None" by (simp add: a take_abs_def)
  then have "\<nexists>h. kmalloc 24 (kheap_of s) = Some (0, h)"
    using kmalloc_refines [OF hi, of 24] heap_alloc_new [OF hi, of 24] by (fastforce split: option.splits)
  moreover have "fst (pmm_alloc_block boot_pmm) \<noteq> 0" using boot_page by (metis fst_conv)
  ultimately show "\<not> no_store s" using h(3) by (simp add: no_store_def)
  show "kpmm s = boot_pmm" by (rule h(3))
qed

text \<open>\<^verbatim>\<open>kmem_cache_create\<close> returns. Without a heap block for the descriptor it answers NULL
  and changes nothing; else the new cache, with the object size rounded up to the alignment,
  has three empty slab lists, satisfies the invariant of a cache, and its node is appended to
  the list of caches.\<close>

theorem kmem_cache_create_establishes:
  assumes "caches_inv s cs" and "good_size (unat (align_object_size len align))"
  shows "(kmem_cache_create name len align flags s = Some (0, s)
      \<and> (\<exists>h. kmalloc CACHE_SIZE (kheap_of s) = Some (0, h)))
    \<or> (\<exists>c s'. kmem_cache_create name len align flags s = Some (c, s') \<and> c \<notin> set cs
      \<and> caches_inv s' (cs @ [c]) \<and> c_object_size (caches s' c) = align_object_size len align
      \<and> cache_inv s' c (\<lambda>_. []) fl \<and> store_inv s' c {})"
  by (rule kmem_cache_create_cases [OF assms(1), where name = name and len = len and align = align and flags = flags and fl = fl])
    (use assms(2) in blast)+

theorem kmem_cache_create_establishes_witness:
  "\<exists>c s'. kmem_cache_create (lit ''obj'') 30 8 0 (boot_kmem (\<lambda>_. 0)) = Some (c, s')
    \<and> c_object_size (caches s' c) = 32 \<and> cache_inv s' c (\<lambda>_. []) (\<lambda>_. [])"
proof -
  have a: "align_object_size 30 8 = 32" by (simp add: align_object_size_def)
  then have z: "good_size (unat (align_object_size 30 8))" by (simp add: good_size_def)
  have "unat (align16 88) = 96" by (simp add: align16_def)
  then have "\<nexists>h. kmalloc CACHE_SIZE (kheap_of (boot_kmem (\<lambda>_. 0))) = Some (0, h)" using boot_kmalloc [of 88] by auto
  then show ?thesis
    using kmem_cache_create_establishes [OF boot_caches_inv z, of "lit ''obj''" 0 "\<lambda>_. 0" "\<lambda>_. []"] a by (auto simp del: boot_kmem_sel)
qed

text \<open>C14: \<^verbatim>\<open>kmem_cache_alloc\<close> returns. It answers NULL only when no slab of the cache has a
  free object and no new slab can be had (no heap block or no page), and then objects, slabs
  and memory are unchanged. Otherwise the object is none of those handed out before, the set
  of objects handed out grows by exactly it, its bytes are zero, the contents of every other
  object and of every page in use that is not the cache's are kept, and the cache's invariant is kept.\<close>

theorem kmem_cache_alloc_fresh_object:
  assumes "cache_inv s c f fl" and "store_inv s c (ring_nodes (slab_heads c) f)"
  shows "(\<exists>h. kmem_cache_alloc c s = Some (0, s\<lparr>kheap_of := h\<rparr>) \<and> cache_inv (s\<lparr>kheap_of := h\<rparr>) c f fl
      \<and> f (slabs_partial c) = [] \<and> f (slabs_empty c) = [] \<and> no_store s)
    \<or> (\<exists>p s'. kmem_cache_alloc c s = Some (p, s') \<and> alloc_post s c f fl p s')"
  by (rule kmem_cache_alloc_cases [OF assms]) blast+

theorem kmem_cache_alloc_fresh_object_witness:
  "\<exists>c s q t. kmem_cache_create (lit ''obj'') 32 0 0 (boot_kmem (\<lambda>_. 0)) = Some (c, s) \<and> kmem_cache_alloc c s = Some (q, t)"
proof -
  obtain c s where c: "kmem_cache_create (lit ''obj'') 32 0 0 (boot_kmem (\<lambda>_. 0)) = Some (c, s)"
    "cache_inv s c (\<lambda>_. []) (\<lambda>_. [])" "store_inv s c {}" using boot_cache .
  then show ?thesis using kmem_cache_alloc_fresh_object [OF c(2)] by (force simp: ring_nodes_def)
qed

text \<open>C15: \<^verbatim>\<open>kmem_cache_free\<close> of an object that was handed out returns, finds its slab by address
  on the full or the partial list, and takes exactly that object out of the set handed out;
  the contents of the other objects and the invariant, with every slab on the list its
  count calls for, are kept.\<close>

theorem kmem_cache_free_releases:
  assumes "cache_inv s c f fl" and "store_inv s c (ring_nodes (slab_heads c) f)" and "x \<in> allocated s c f fl"
  shows "\<exists>s'. kmem_cache_free c x s = Some s' \<and> free_post s c f fl x s'"
proof -
  obtain h sl where "kmem_cache_free c x s = Some (slab_put c sl x s)" "h \<in> slab_heads c" "sl \<in> set (f h)"
    "x \<in> objs (page_of s sl) (osize s c)" "x \<notin> set (fl sl)"
    using kmem_cache_free_object [OF assms(1,3)] .
  then show ?thesis using slab_put_post [OF assms(1,2)] by blast
qed

theorem kmem_cache_free_releases_witness:
  "\<exists>c s p t u. kmem_cache_create (lit ''obj'') 32 0 0 (boot_kmem (\<lambda>_. 0)) = Some (c, s) \<and> kmem_cache_alloc c s = Some (p, t)
    \<and> p \<noteq> 0 \<and> kmem_cache_free c p t = Some u"
proof -
  obtain c s where c: "kmem_cache_create (lit ''obj'') 32 0 0 (boot_kmem (\<lambda>_. 0)) = Some (c, s)"
    "cache_inv s c (\<lambda>_. []) (\<lambda>_. [])" "store_inv s c (ring_nodes (slab_heads c) (\<lambda>_. []))"
    using boot_cache by (auto simp: ring_nodes_def)
  have store: "\<not> no_store s" using boot_cache_store [OF c(1)] c(2) by (simp add: cache_inv_def)
  from c(2,3) show ?thesis
  proof (cases rule: kmem_cache_alloc_cases)
    case (null h)
    then show ?thesis using store by simp
  next
    case (obj p t)
    then obtain f' fl' where t: "cache_inv t c f' fl'" "store_inv t c (ring_nodes (slab_heads c) f')" "p \<noteq> 0"
      "p \<in> allocated t c f' fl'" unfolding alloc_post_def by blast
    then show ?thesis using kmem_cache_free_releases [OF t(1,2,4)] c(1) obj(1) by blast
  qed
qed

end
