(* ===== verification/Process.thy ===== *)
theory Process
  imports Slab Vmm
begin

text \<open>
  Processes, the scheduler and signals: \<^verbatim>\<open>kernel/process.c\<close>, \<^verbatim>\<open>kernel/process.asm\<close> and
  \<^verbatim>\<open>kernel/signal.c\<close>. A process is a record at the address the slab allocator returned; its
  list node is at offset 16, and its first word, the saved stack pointer that
  \<^verbatim>\<open>switch_to_task\<close> reads and writes, is in the byte memory (the slab allocator threads its
  free list through the same word). Functions return None when a list walk does not end. A
  call that leaves through \<^verbatim>\<open>switch_to_task\<close> is marked \<open>Switched\<close>: the C code behind it runs
  only when its process is resumed. The registers at a call of \<^verbatim>\<open>switch_to_task\<close> are those
  of the field \<open>cpu\<close>, which C code leaves alone.
\<close>

section \<open>State\<close>

datatype process_state = READY | RUNNING | BLOCKED | TERMINATED

record process =
  pid :: u32
  kernel_stack_top :: u32
  pcr3 :: u32
  pstate :: process_state
  priority :: u8
  time_slice :: u32
  total_runtime :: u32
  pname :: "u8 list"
  pending_signals :: u32
  signal_handlers :: "nat \<Rightarrow> u32"

record cpu =
  eax :: u32
  ecx :: u32
  edx :: u32
  ebx :: u32
  esp :: u32
  ebp :: u32
  esi :: u32
  edi :: u32
  eflags :: u32
  eip :: u32

record psys =
  km :: kmem
  procs :: "ptr \<Rightarrow> process"
  current_process :: ptr
  ready_queue :: ptr
  next_pid :: u32
  process_cache :: ptr
  vm_directory :: u32
  vm_cr3 :: u32
  tss_esp0 :: u32
  cpu :: cpu

abbreviation PROCESS_SIZE :: u32 where "PROCESS_SIZE \<equiv> 204"
abbreviation pnode :: "ptr \<Rightarrow> ptr" where "pnode p \<equiv> p + 16"
abbreviation node_process :: "ptr \<Rightarrow> ptr" where "node_process n \<equiv> n - 16"

abbreviation plinks :: "psys \<Rightarrow> links" where "plinks s \<equiv> klinks (km s)"
abbreviation pmem :: "psys \<Rightarrow> mem" where "pmem s \<equiv> kmemory (km s)"

definition zero_process :: process where
  "zero_process = \<lparr>pid = 0, kernel_stack_top = 0, pcr3 = 0, pstate = READY, priority = 0, time_slice = 0,
     total_runtime = 0, pname = [], pending_signals = 0, signal_handlers = (\<lambda>_. 0)\<rparr>"

definition put_process :: "ptr \<Rightarrow> process \<Rightarrow> psys \<Rightarrow> psys" where
  "put_process p q s = s\<lparr>procs := (procs s)(p := q)\<rparr>"

definition set_links :: "(links \<Rightarrow> links) \<Rightarrow> psys \<Rightarrow> psys" where
  "set_links g s = s\<lparr>km := (km s)\<lparr>klinks := g (klinks (km s))\<rparr>\<rparr>"

definition set_memory :: "(mem \<Rightarrow> mem) \<Rightarrow> psys \<Rightarrow> psys" where
  "set_memory g s = s\<lparr>km := (km s)\<lparr>kmemory := g (kmemory (km s))\<rparr>\<rparr>"

definition calculate_time_slice :: "u8 \<Rightarrow> u32" where
  "calculate_time_slice prio = 10 + ucast (prio div 64)"

section \<open>The context switch\<close>

text \<open>A run of pushes: each word goes below the last.\<close>

fun push_words :: "u32 list \<Rightarrow> ptr \<Rightarrow> mem \<Rightarrow> ptr \<times> mem" where
  "push_words [] sp m = (sp, m)"
| "push_words (w # ws) sp m = push_words ws (sp - 4) (store32 (sp - 4) w m)"

text \<open>\<^verbatim>\<open>popa\<close>, \<^verbatim>\<open>popf\<close> and \<^verbatim>\<open>ret\<close> from the stack at \<open>sp\<close>; \<^verbatim>\<open>popa\<close> skips the word of \<^verbatim>\<open>esp\<close>.\<close>

definition load_context :: "ptr \<Rightarrow> mem \<Rightarrow> cpu" where
  "load_context sp m =
     \<lparr>eax = load32 m (sp + 28), ecx = load32 m (sp + 24), edx = load32 m (sp + 20), ebx = load32 m (sp + 16),
      esp = sp + 40, ebp = load32 m (sp + 8), esi = load32 m (sp + 4), edi = load32 m sp,
      eflags = load32 m (sp + 32), eip = load32 m (sp + 36)\<rparr>"

text \<open>\<^verbatim>\<open>pushf\<close> and \<^verbatim>\<open>pusha\<close>, which pushes the stack pointer it started with.\<close>

definition save_context :: "cpu \<Rightarrow> mem \<Rightarrow> ptr \<times> mem" where
  "save_context c m = push_words [eflags c, eax c, ecx c, edx c, ebx c, esp c - 4, ebp c, esi c, edi c] (esp c) m"

definition switch_to_task :: "ptr \<Rightarrow> psys \<Rightarrow> psys" where
  "switch_to_task nxt s =
     (case save_context (cpu s) (pmem s) of (sp, m) \<Rightarrow>
        let s1 = set_memory (\<lambda>_. store32 (current_process s) sp m) s;
            s2 = s1\<lparr>current_process := nxt\<rparr>
        in s2\<lparr>cpu := load_context (load32 (pmem s2) nxt) (pmem s2)\<rparr>)"

section \<open>Creating processes\<close>

text \<open>A process object from the slab cache, whose bytes the allocator has zeroed.\<close>

definition alloc_process :: "psys \<Rightarrow> (ptr \<times> psys) option" where
  "alloc_process s =
     Option.bind (kmem_cache_alloc (process_cache s) (km s)) (\<lambda>(p, k).
       if p = 0 then Some (0, s\<lparr>km := k\<rparr>)
       else Some (p, put_process p zero_process
              (set_links (\<lambda>l. set_prev (pnode p) 0 (set_next (pnode p) 0 l)) (s\<lparr>km := k\<rparr>))))"

definition enqueue :: "ptr \<Rightarrow> psys \<Rightarrow> psys" where
  "enqueue p s = set_links (\<lambda>l. list_add_tail (pnode p) (ready_queue s) (init_list_head (pnode p) l)) s"

text \<open>\<open>sp\<close> is the stack pointer the inline assembly reads.\<close>

definition process_init :: "u32 \<Rightarrow> psys \<Rightarrow> psys option" where
  "process_init sp s =
     Option.bind (kmem_cache_create (lit ''process_cache'') PROCESS_SIZE 0 0 (km s)) (\<lambda>(c, k).
       let s1 = s\<lparr>km := k, process_cache := c\<rparr> in
       if c = 0 then Some s1
       else Option.bind (alloc_process s1) (\<lambda>(p, s2).
         let s3 = set_memory (store32 p 0) s2;
             s4 = put_process p ((procs s3 p)
               \<lparr>pid := 0, pcr3 := vm_directory s3, kernel_stack_top := sp, pstate := RUNNING, priority := 128,
                time_slice := 0, total_runtime := 0, pname := lit ''kernel'', pending_signals := 0,
                signal_handlers := (\<lambda>_. 0)\<rparr>) s3;
             s5 = enqueue p s4
         in Some (s5\<lparr>current_process := p\<rparr>)))"

text \<open>\<^verbatim>\<open>process_create\<close>: the frame a new kernel task starts from, pushed from its stack's top.\<close>

definition task_frame :: "u32 \<Rightarrow> u32 list" where
  "task_frame entry_point = [entry_point, 0, 0, 0, 0, 0, 0, 0, 0, 0x202]"

definition process_create :: "u32 \<Rightarrow> psys \<Rightarrow> psys option" where
  "process_create entry_point s =
     Option.bind (alloc_process s) (\<lambda>(p, s1).
       let s2 = (put_process p ((procs s1 p)
             \<lparr>pid := next_pid s1, pcr3 := vm_directory s1, pstate := READY, priority := 100,
              time_slice := calculate_time_slice 100, total_runtime := 0, pname := lit ''kernel_task'',
              pending_signals := 0, signal_handlers := (\<lambda>_. 0)\<rparr>) s1)\<lparr>next_pid := next_pid s1 + 1\<rparr>
       in Option.bind (kmalloc 4096 (kheap_of (km s2))) (\<lambda>(stack, h).
         let s3 = s2\<lparr>km := (km s2)\<lparr>kheap_of := h\<rparr>\<rparr>;
             s4 = put_process p ((procs s3 p)\<lparr>kernel_stack_top := stack + 4096\<rparr>) s3;
             (sp, m) = push_words (task_frame entry_point) (stack + 4096) (pmem s4);
             s5 = set_memory (\<lambda>_. store32 p sp m) s4
         in Some (enqueue p s5)))"

section \<open>The scheduler\<close>

definition runnable :: "psys \<Rightarrow> ptr \<Rightarrow> bool" where
  "runnable s p \<longleftrightarrow> pstate (procs s p) = READY \<or> pstate (procs s p) = RUNNING"

text \<open>The two searches: from the current process to the end of the queue, then from its start
  to the current process.\<close>

definition pick_next :: "psys \<Rightarrow> ptr option option" where
  "pick_next s =
     (let cur = current_process s; l = plinks s; q = ready_queue s in
      Option.bind (list_search (\<lambda>n. node_process n \<noteq> cur \<and> runnable s (node_process n)) q (lnext l (pnode cur)) l)
        (\<lambda>r1. case r1 of
           Some n \<Rightarrow> Some (Some (node_process n))
         | None \<Rightarrow>
             Option.bind (list_search (\<lambda>n. node_process n = cur \<or> runnable s (node_process n)) q (lnext l q) l)
               (\<lambda>r2. case r2 of
                  None \<Rightarrow> Some None
                | Some n \<Rightarrow> Some (if node_process n = cur then None else Some (node_process n)))))"

definition tick_current :: "psys \<Rightarrow> psys" where
  "tick_current s =
     (let cur = current_process s; c = procs s cur in
      if 0 < time_slice c
      then put_process cur (c\<lparr>time_slice := time_slice c - 1, total_runtime := total_runtime c + 1\<rparr>) s
      else s)"

definition set_state :: "ptr \<Rightarrow> process_state \<Rightarrow> psys \<Rightarrow> psys" where
  "set_state p st s = put_process p ((procs s p)\<lparr>pstate := st\<rparr>) s"

text \<open>What \<^verbatim>\<open>schedule\<close> does up to the delivery of signals: the state it returns with, or the
  process to switch to.\<close>

datatype decision = Stay psys | Switch ptr psys

definition requeue_current :: "psys \<Rightarrow> psys" where
  "requeue_current s =
     (let cur = current_process s; c = procs s cur in
      if runnable s cur
      then put_process cur (c\<lparr>time_slice := calculate_time_slice (priority c), pstate := READY\<rparr>) s
      else s)"

definition dispatch :: "ptr \<Rightarrow> psys \<Rightarrow> psys" where
  "dispatch nxt s =
     (let cur = current_process s;
          s1 = (if pstate (procs s cur) = RUNNING then set_state cur READY s else s);
          s2 = put_process nxt ((procs s1 nxt)
                 \<lparr>pstate := RUNNING, time_slice := calculate_time_slice (priority (procs s1 nxt))\<rparr>) s1;
          s3 = s2\<lparr>tss_esp0 := kernel_stack_top (procs s2 nxt)\<rparr>
      in if pcr3 (procs s3 nxt) \<noteq> 0 then s3\<lparr>vm_cr3 := pcr3 (procs s3 nxt)\<rparr> else s3)"

definition schedule_decide :: "psys \<Rightarrow> decision option" where
  "schedule_decide s =
     (let cur = current_process s in
      if cur = 0 then Some (Stay s)
      else let s1 = tick_current s in
        if time_slice (procs s1 cur) = 0 \<or> pstate (procs s1 cur) = BLOCKED
        then let s2 = requeue_current s1 in
          Option.bind (pick_next s2) (\<lambda>r. case r of
            None \<Rightarrow> Some (Stay (set_state cur RUNNING s2))
          | Some nxt \<Rightarrow>
              if nxt = 0 \<or> nxt = cur then Some (Stay (set_state cur RUNNING s2))
              else Some (Switch nxt (dispatch nxt s2)))
        else Some (Stay (set_state cur RUNNING s1)))"

section \<open>Signals\<close>

abbreviation NSIG :: nat where "NSIG \<equiv> 32"

definition fatal_signals :: "nat list" where "fatal_signals = [9, 15, 2, 3, 6, 11]"

definition clear_signal :: "nat \<Rightarrow> process \<Rightarrow> process" where
  "clear_signal sig p = p\<lparr>pending_signals := pending_signals p AND NOT (push_bit sig 1)\<rparr>"

text \<open>The loop of \<^verbatim>\<open>do_signal\<close> over the process record; True when it stops at a fatal signal.\<close>

fun signal_scan :: "nat list \<Rightarrow> process \<Rightarrow> process \<times> bool" where
  "signal_scan [] p = (p, False)"
| "signal_scan (sig # sigs) p =
     (if bit (pending_signals p) sig then
        let p1 = clear_signal sig p in
        if signal_handlers p1 sig = 0 then
          if sig \<in> set fatal_signals then (p1, True)
          else if sig = 19 then signal_scan sigs (p1\<lparr>pstate := BLOCKED\<rparr>)
          else if sig = 18 \<and> pstate p1 = BLOCKED then signal_scan sigs (p1\<lparr>pstate := READY\<rparr>)
          else signal_scan sigs p1
        else signal_scan sigs p1
      else signal_scan sigs p)"

definition deliver :: "psys \<Rightarrow> psys \<times> bool" where
  "deliver s =
     (case signal_scan [1..<NSIG] (procs s (current_process s)) of (p, fatal) \<Rightarrow>
        (put_process (current_process s) p s, fatal))"

definition process_find_by_pid :: "u32 \<Rightarrow> psys \<Rightarrow> ptr option" where
  "process_find_by_pid n s =
     Option.bind (list_search (\<lambda>x. pid (procs s (node_process x)) = n) (ready_queue s) (lnext (plinks s) (ready_queue s)) (plinks s))
       (\<lambda>r. Some (case r of None \<Rightarrow> 0 | Some x \<Rightarrow> node_process x))"

text \<open>\<^verbatim>\<open>process_kill\<close> up to its call of \<^verbatim>\<open>schedule\<close>: the process removed (0 for none).\<close>

definition kill_unlink :: "u32 \<Rightarrow> psys \<Rightarrow> (ptr \<times> psys) option" where
  "kill_unlink n s =
     (if n = 0 \<or> list_empty (ready_queue s) (plinks s) then Some (0, s)
      else Option.bind (list_search (\<lambda>x. pid (procs s (node_process x)) = n) (ready_queue s) (lnext (plinks s) (ready_queue s)) (plinks s))
        (\<lambda>r. case r of
           None \<Rightarrow> Some (0, s)
         | Some x \<Rightarrow>
             let p = node_process x; s1 = set_links (list_del x) s in
             Option.bind (kmem_cache_free (process_cache s1) p (km s1)) (\<lambda>k. Some (p, s1\<lparr>km := k\<rparr>))))"

datatype control = Returned | Switched

text \<open>\<^verbatim>\<open>schedule\<close>, with \<^verbatim>\<open>do_signal\<close> and the \<^verbatim>\<open>process_kill\<close> it may call: killing the current
  process runs the scheduler again, from inside.\<close>

partial_function (option) schedule :: "psys \<Rightarrow> (control \<times> psys) option" where
  "schedule s =
     Option.bind (schedule_decide s) (\<lambda>d. case d of
       Stay s1 \<Rightarrow> Some (Returned, s1)
     | Switch nxt s1 \<Rightarrow>
         (case deliver s1 of (s2, fatal) \<Rightarrow>
            if \<not> fatal then Some (Switched, switch_to_task nxt s2)
            else Option.bind (kill_unlink (pid (procs s2 (current_process s2))) s2) (\<lambda>(p, s3).
              if p \<noteq> current_process s3 then Some (Switched, switch_to_task nxt s3)
              else Option.bind (schedule s3) (\<lambda>(r, s4).
                Some (Switched, if r = Switched then s4 else switch_to_task nxt s4)))))"

definition process_kill :: "u32 \<Rightarrow> psys \<Rightarrow> (bool \<times> control \<times> psys) option" where
  "process_kill n s =
     Option.bind (kill_unlink n s) (\<lambda>(p, s1).
       if p = 0 then Some (False, Returned, s1)
       else if p = current_process s1 then Option.bind (schedule s1) (\<lambda>(r, s2). Some (True, r, s2))
       else Some (True, Returned, s1))"

definition do_signal :: "psys \<Rightarrow> (control \<times> psys) option" where
  "do_signal s =
     (if current_process s = 0 then Some (Returned, s)
      else case deliver s of (s1, fatal) \<Rightarrow>
        if fatal then Option.bind (process_kill (pid (procs s1 (current_process s1))) s1) (\<lambda>(_, r, s2). Some (r, s2))
        else Some (Returned, s1))"

definition send_signal :: "u32 \<Rightarrow> int \<Rightarrow> psys \<Rightarrow> (int \<times> psys) option" where
  "send_signal n sig s =
     (if sig < 1 \<or> sig \<ge> int NSIG then Some (-1, s)
      else Option.bind (process_find_by_pid n s) (\<lambda>p.
        if p \<noteq> 0
        then Some (0, put_process p ((procs s p)
               \<lparr>pending_signals := pending_signals (procs s p) OR push_bit (nat sig) 1\<rparr>) s)
        else Some (-1, s)))"

definition sys_kill :: "u32 \<Rightarrow> int \<Rightarrow> psys \<Rightarrow> (int \<times> psys) option" where
  "sys_kill n sig s = send_signal n sig s"

definition sys_signal :: "int \<Rightarrow> u32 \<Rightarrow> psys \<Rightarrow> u32 \<times> psys" where
  "sys_signal sig handler s =
     (if current_process s = 0 \<or> sig < 1 \<or> sig \<ge> int NSIG then (0, s)
      else if sig = 9 \<or> sig = 19 then (0, s)
      else let cur = current_process s; p = procs s cur in
        (signal_handlers p (nat sig),
         put_process cur (p\<lparr>signal_handlers := (signal_handlers p)(nat sig := handler)\<rparr>) s))"

text \<open>\<^verbatim>\<open>sys_sigaction\<close>; the old handler is returned when the caller asked for it.\<close>

definition sys_sigaction :: "int \<Rightarrow> u32 option \<Rightarrow> bool \<Rightarrow> psys \<Rightarrow> int \<times> u32 option \<times> psys" where
  "sys_sigaction sig act want_old s =
     (if current_process s = 0 \<or> sig < 1 \<or> sig \<ge> int NSIG then (-1, None, s)
      else if sig = 9 \<or> sig = 19 then (-1, None, s)
      else let cur = current_process s; p = procs s cur;
               old = (if want_old then Some (signal_handlers p (nat sig)) else None)
           in (0, old, case act of
                 None \<Rightarrow> s
               | Some h \<Rightarrow> put_process cur (p\<lparr>signal_handlers := (signal_handlers p)(nat sig := h)\<rparr>) s))"

section \<open>Process management\<close>

definition process_yield :: "psys \<Rightarrow> (control \<times> psys) option" where
  "process_yield s =
     (let cur = current_process s in
      schedule (if cur \<noteq> 0 then put_process cur ((procs s cur)\<lparr>time_slice := 0\<rparr>) s else s))"

definition find_process :: "(process \<Rightarrow> bool) \<Rightarrow> psys \<Rightarrow> ptr option option" where
  "find_process P s =
     (if list_empty (ready_queue s) (plinks s) then Some None
      else Option.bind (list_search (\<lambda>x. P (procs s (node_process x))) (ready_queue s) (lnext (plinks s) (ready_queue s)) (plinks s))
        (\<lambda>r. Some (map_option node_process r)))"

definition process_set_priority :: "u32 \<Rightarrow> u8 \<Rightarrow> psys \<Rightarrow> psys option" where
  "process_set_priority n prio s =
     Option.bind (find_process (\<lambda>p. pid p = n) s) (\<lambda>r. Some (case r of
         None \<Rightarrow> s
       | Some p \<Rightarrow> put_process p ((procs s p)\<lparr>priority := prio, time_slice := calculate_time_slice prio\<rparr>) s))"

definition process_block :: "u32 \<Rightarrow> psys \<Rightarrow> (control \<times> psys) option" where
  "process_block n s =
     Option.bind (find_process (\<lambda>p. pid p = n) s) (\<lambda>r. case r of
         None \<Rightarrow> Some (Returned, s)
       | Some p \<Rightarrow> let s1 = set_state p BLOCKED s in
           if p = current_process s1 then schedule s1 else Some (Returned, s1))"

definition process_unblock :: "u32 \<Rightarrow> psys \<Rightarrow> psys option" where
  "process_unblock n s =
     Option.bind (find_process (\<lambda>p. pid p = n \<and> pstate p = BLOCKED) s) (\<lambda>r. Some (case r of
         None \<Rightarrow> s
       | Some p \<Rightarrow> set_state p READY s))"

definition process_get_stats :: "u32 \<Rightarrow> psys \<Rightarrow> (u32 \<times> u8 \<times> process_state) option option" where
  "process_get_stats n s =
     Option.bind (find_process (\<lambda>p. pid p = n) s) (\<lambda>r. Some (map_option (\<lambda>p.
       (total_runtime (procs s p), priority (procs s p), pstate (procs s p))) r))"

text \<open>The virtual-memory manager runs on the same memory and frames.\<close>

definition vm_of :: "psys \<Rightarrow> vmm" where
  "vm_of s = \<lparr>kernel_directory = vm_directory s, cr3 = vm_cr3 s, paging = True, vmem = pmem s, vpmm = kpmm (km s)\<rparr>"

definition process_fork :: "psys \<Rightarrow> (int \<times> psys) option" where
  "process_fork s =
     (let cur = current_process s in
      if cur = 0 then Some (-1, s)
      else Option.bind (alloc_process s) (\<lambda>(child, s1).
        if child = 0 then Some (-1, s1)
        else
          let s2 = set_links (\<lambda>l. set_prev (pnode child) (lprev l (pnode cur)) (set_next (pnode child) (lnext l (pnode cur)) l))
                     (set_memory (store32 child (load32 (pmem s1) cur))
                       (put_process child ((procs s1 cur)\<lparr>pid := next_pid s1\<rparr>) s1));
              s3 = s2\<lparr>next_pid := next_pid s2 + 1\<rparr>
          in case vmm_clone_directory (vm_of s3) of (dir, v) \<Rightarrow>
            let s4 = put_process child ((procs s3 child)\<lparr>pcr3 := dir\<rparr>)
                       (s3\<lparr>km := (km s3)\<lparr>kmemory := vmem v, kpmm := vpmm v\<rparr>\<rparr>)
            in if dir = 0
               then Option.bind (kmem_cache_free (process_cache s4) child (km s4)) (\<lambda>k. Some (-1, s4\<lparr>km := k\<rparr>))
               else Option.bind (kmalloc 4096 (kheap_of (km s4))) (\<lambda>(stack, h).
                 let s5 = set_memory (memcpy stack (kernel_stack_top (procs s4 cur) - 4096) 4096)
                            (s4\<lparr>km := (km s4)\<lparr>kheap_of := h\<rparr>\<rparr>);
                     s6 = put_process child ((procs s5 child)
                       \<lparr>kernel_stack_top := stack + 4096, pstate := READY,
                        time_slice := calculate_time_slice (priority (procs s5 child)),
                        total_runtime := 0, pending_signals := 0\<rparr>) s5
                 in Some (sint (pid (procs s6 child)), enqueue child s6))))"

definition process_wait :: "psys \<Rightarrow> (int \<times> control \<times> psys) option" where
  "process_wait s = Option.bind (process_yield s) (\<lambda>(r, s1). Some (0, r, s1))"

section \<open>Choosing the next process\<close>

lemma put_process_sel [simp]:
  "procs (put_process p q s) = (procs s)(p := q)" "km (put_process p q s) = km s"
  "current_process (put_process p q s) = current_process s" "ready_queue (put_process p q s) = ready_queue s"
  "next_pid (put_process p q s) = next_pid s" "process_cache (put_process p q s) = process_cache s"
  "vm_directory (put_process p q s) = vm_directory s" "vm_cr3 (put_process p q s) = vm_cr3 s"
  "tss_esp0 (put_process p q s) = tss_esp0 s" "cpu (put_process p q s) = cpu s"
  by (simp_all add: put_process_def)

lemma set_memory_sel [simp]:
  "procs (set_memory g s) = procs s" "plinks (set_memory g s) = plinks s" "pmem (set_memory g s) = g (pmem s)"
  "kheap_of (km (set_memory g s)) = kheap_of (km s)" "current_process (set_memory g s) = current_process s"
  "ready_queue (set_memory g s) = ready_queue s" "next_pid (set_memory g s) = next_pid s"
  "process_cache (set_memory g s) = process_cache s" "tss_esp0 (set_memory g s) = tss_esp0 s"
  "vm_directory (set_memory g s) = vm_directory s" "vm_cr3 (set_memory g s) = vm_cr3 s"
  by (simp_all add: set_memory_def)

lemma set_links_sel [simp]:
  "procs (set_links g s) = procs s" "plinks (set_links g s) = g (plinks s)" "pmem (set_links g s) = pmem s"
  "kheap_of (km (set_links g s)) = kheap_of (km s)" "current_process (set_links g s) = current_process s"
  "ready_queue (set_links g s) = ready_queue s" "next_pid (set_links g s) = next_pid s"
  "process_cache (set_links g s) = process_cache s" "vm_directory (set_links g s) = vm_directory s"
  by (simp_all add: set_links_def)

lemma find_pnode: "find P (map pnode ps) = map_option pnode (find (\<lambda>p. P (pnode p)) ps)"
  by (induction ps) auto

lemma find_cong_on: "(\<And>x. x \<in> set xs \<Longrightarrow> P x = Q x) \<Longrightarrow> find P xs = find Q xs"
  by (induction xs) auto

lemma find_mem: "find P xs = Some x \<Longrightarrow> x \<in> set xs"
  by (induction xs) (auto split: if_splits)

lemma find_or_eq: "c \<notin> set xs \<Longrightarrow>
    find (\<lambda>p. p = c \<or> P p) (xs @ c # ys) = (case find P xs of Some p \<Rightarrow> Some p | None \<Rightarrow> Some c)"
  by (induction xs) auto

text \<open>The two searches are one search of the ring from the process after the current one.\<close>

definition queue_inv :: "psys \<Rightarrow> ptr list \<Rightarrow> bool" where
  "queue_inv s ps \<longleftrightarrow> dlist (plinks s) (ready_queue s) (map pnode ps) \<and> 0 \<notin> set ps"

lemma queue_distinct: "queue_inv s ps \<Longrightarrow> distinct ps"
  using dlist_distinct [of "plinks s" "ready_queue s" "map pnode ps"] by (auto simp: queue_inv_def distinct_map)

lemma pick_next_ring:
  assumes q: "queue_inv s (before @ c # after)" and c: "current_process s = c"
  shows "pick_next s = Some (find (runnable s) (after @ before))"
proof -
  have d: "dlist (plinks s) (ready_queue s) (map pnode before @ pnode c # map pnode after)"
    using q by (simp add: queue_inv_def)
  have dis: "c \<notin> set before" "c \<notin> set after" using queue_distinct [OF q] by auto
  have first: "list_search (\<lambda>n. node_process n \<noteq> c \<and> runnable s (node_process n)) (ready_queue s) (lnext (plinks s) (pnode c)) (plinks s)
      = Some (map_option pnode (find (runnable s) after))"
    unfolding list_search_from [OF d] find_pnode using dis(2)
    by (auto intro!: arg_cong [where f = "map_option pnode"] find_cong_on)
  have second: "list_search (\<lambda>n. node_process n = c \<or> runnable s (node_process n)) (ready_queue s) (lnext (plinks s) (ready_queue s)) (plinks s)
      = Some (map_option pnode (case find (runnable s) before of Some p \<Rightarrow> Some p | None \<Rightarrow> Some c))"
    unfolding list_search_dlist [OF d]
    using find_pnode [of "\<lambda>n. node_process n = c \<or> runnable s (node_process n)" "before @ c # after"]
      find_or_eq [OF dis(1), of "runnable s" after] by simp
  have "find (runnable s) before \<noteq> Some c" using dis(1) by (auto simp: find_Some_iff)
  then show ?thesis
    unfolding pick_next_def c Let_def first second find_append
    by (auto split: option.splits)
qed

definition slice_over :: "process \<Rightarrow> bool" where
  "slice_over p \<longleftrightarrow> time_slice p \<le> 1 \<or> pstate p = BLOCKED"

lemma tick_slice: "time_slice (procs (tick_current s) (current_process s)) = 0 \<longleftrightarrow> time_slice (procs s (current_process s)) \<le> 1"
proof -
  have "w - 1 = 0 \<longleftrightarrow> w \<le> 1" if "0 < w" for w :: u32
  proof -
    have "0 < unat w" using that by (simp add: word_less_nat_alt)
    then have "w \<le> 1 \<longleftrightarrow> unat w = unat (1 :: u32)" by (simp add: word_le_nat_alt le_Suc_eq)
    then have "w \<le> 1 \<longleftrightarrow> w = 1" unfolding word_unat_eq_iff by simp
    then show ?thesis by simp
  qed
  then show ?thesis by (auto simp: tick_current_def Let_def word_gt_0)
qed

lemma tick_sel [simp]:
  "km (tick_current s) = km s" "current_process (tick_current s) = current_process s"
  "ready_queue (tick_current s) = ready_queue s" "p \<noteq> current_process s \<Longrightarrow> procs (tick_current s) p = procs s p"
  "pstate (procs (tick_current s) p) = pstate (procs s p)" "priority (procs (tick_current s) p) = priority (procs s p)"
  "pending_signals (procs (tick_current s) p) = pending_signals (procs s p)"
  "pid (procs (tick_current s) p) = pid (procs s p)"
  by (auto simp: tick_current_def Let_def)

lemma requeue_sel [simp]:
  "km (requeue_current s) = km s" "current_process (requeue_current s) = current_process s"
  "ready_queue (requeue_current s) = ready_queue s" "p \<noteq> current_process s \<Longrightarrow> procs (requeue_current s) p = procs s p"
  "pstate (procs (requeue_current s) (current_process s))
    = (if runnable s (current_process s) then READY else pstate (procs s (current_process s)))"
  "priority (procs (requeue_current s) p) = priority (procs s p)"
  "pending_signals (procs (requeue_current s) p) = pending_signals (procs s p)"
  "pid (procs (requeue_current s) p) = pid (procs s p)"
  by (auto simp: requeue_current_def Let_def)

lemma set_state_sel [simp]:
  "km (set_state p st s) = km s" "current_process (set_state p st s) = current_process s"
  "ready_queue (set_state p st s) = ready_queue s" "vm_cr3 (set_state p st s) = vm_cr3 s"
  "procs (set_state p st s) = (procs s)(p := (procs s p)\<lparr>pstate := st\<rparr>)"
  "cpu (set_state p st s) = cpu s"
  by (simp_all add: set_state_def)

lemma dispatch_sel [simp]:
  "km (dispatch n s) = km s" "current_process (dispatch n s) = current_process s"
  "ready_queue (dispatch n s) = ready_queue s" "cpu (dispatch n s) = cpu s"
  "tss_esp0 (dispatch n s) = kernel_stack_top (procs s n)"
  "vm_cr3 (dispatch n s) = (if pcr3 (procs s n) \<noteq> 0 then pcr3 (procs s n) else vm_cr3 s)"
  "procs (dispatch n s) n = (procs s n)\<lparr>pstate := RUNNING, time_slice := calculate_time_slice (priority (procs s n))\<rparr>"
  "n \<noteq> current_process s \<Longrightarrow> procs (dispatch n s) (current_process s) = (procs s (current_process s))
     \<lparr>pstate := (if pstate (procs s (current_process s)) = RUNNING then READY else pstate (procs s (current_process s)))\<rparr>"
  "p \<noteq> n \<Longrightarrow> p \<noteq> current_process s \<Longrightarrow> procs (dispatch n s) p = procs s p"
  by (auto simp: dispatch_def Let_def)

lemma switch_sel [simp]:
  "procs (switch_to_task n s) = procs s" "plinks (switch_to_task n s) = plinks s"
  "current_process (switch_to_task n s) = n" "ready_queue (switch_to_task n s) = ready_queue s"
  "tss_esp0 (switch_to_task n s) = tss_esp0 s" "vm_cr3 (switch_to_task n s) = vm_cr3 s"
  "cpu (switch_to_task n s) = load_context (load32 (pmem (switch_to_task n s)) n) (pmem (switch_to_task n s))"
  by (simp_all add: switch_to_task_def Let_def split: prod.split)

lemma schedule_decide_expired:
  assumes q: "queue_inv s (before @ c # after)" and c: "current_process s = c" and e: "slice_over (procs s c)"
  defines "s2 \<equiv> requeue_current (tick_current s)"
  shows "schedule_decide s = Some (case find (runnable s) (after @ before) of
      None \<Rightarrow> Stay (set_state c RUNNING s2) | Some n \<Rightarrow> Switch n (dispatch n s2))"
proof -
  have dis: "c \<notin> set (after @ before)" "0 \<notin> set (before @ c # after)"
    using queue_distinct [OF q] q by (auto simp: queue_inv_def)
  have c0: "c \<noteq> 0" using dis(2) by auto
  have q2: "queue_inv s2 (before @ c # after)" using q by (simp add: queue_inv_def s2_def)
  have pick: "pick_next s2 = Some (find (runnable s2) (after @ before))"
    by (rule pick_next_ring [OF q2]) (simp add: s2_def c)
  have "runnable s2 p = runnable s p" if "p \<in> set (after @ before)" for p
  proof -
    have "p \<noteq> c" using that dis(1) by auto
    then show ?thesis by (simp add: s2_def runnable_def c)
  qed
  then have same: "find (runnable s2) (after @ before) = find (runnable s) (after @ before)" by (rule find_cong_on)
  have exp: "time_slice (procs (tick_current s) c) = 0 \<or> pstate (procs (tick_current s) c) = BLOCKED"
    using e tick_slice [of s] by (simp add: slice_over_def c)
  show ?thesis
  proof (cases "find (runnable s) (after @ before)")
    case None
    then show ?thesis
      using exp c0 pick by (simp add: schedule_decide_def Let_def c s2_def [symmetric] same)
  next
    case (Some n)
    then have "n \<in> set (after @ before)" by (rule find_mem)
    then have "n \<noteq> c" "n \<noteq> 0" using dis by auto
    then show ?thesis
      using exp c0 pick Some by (simp add: schedule_decide_def Let_def c s2_def [symmetric] same)
  qed
qed

section \<open>Signals\<close>

lemma signal_scan_none: "(\<forall>k \<in> set ks. \<not> bit (pending_signals p) k) \<Longrightarrow> signal_scan ks p = (p, False)"
  by (induction ks) auto

lemma deliver_quiet:
  assumes "pending_signals (procs s (current_process s)) = 0" shows "deliver s = (s, False)"
proof -
  have scan: "signal_scan [1..<NSIG] (procs s (current_process s)) = (procs s (current_process s), False)"
    by (rule signal_scan_none) (simp add: assms del: upt_rec_numeral)
  have "put_process (current_process s) (procs s (current_process s)) s = s"
    unfolding put_process_def fun_upd_triv by simp
  then show ?thesis unfolding deliver_def scan prod.case by (simp only:)
qed

text \<open>Which signals stop the scan, and what the scan leaves pending.\<close>

definition fatal_for :: "process \<Rightarrow> nat \<Rightarrow> bool" where
  "fatal_for p k \<longleftrightarrow> bit (pending_signals p) k \<and> signal_handlers p k = 0 \<and> k \<in> set fatal_signals"

definition taken :: "process \<Rightarrow> nat list \<Rightarrow> nat set" where
  "taken p ks = (case find (fatal_for p) ks of
     None \<Rightarrow> set ks | Some k \<Rightarrow> insert k (set (takeWhile (\<lambda>j. \<not> fatal_for p j) ks)))"

lemma bit_clear_u32: "bit (w AND NOT (push_bit k 1) :: u32) j \<longleftrightarrow> bit w j \<and> j \<noteq> k"
  by (auto simp: bit_simps dest: bit_imp_le_length)

lemma clear_signal_sel [simp]:
  "pid (clear_signal k p) = pid p" "pstate (clear_signal k p) = pstate p"
  "signal_handlers (clear_signal k p) = signal_handlers p"
  "bit (pending_signals (clear_signal k p)) j \<longleftrightarrow> bit (pending_signals p) j \<and> j \<noteq> k"
  using bit_clear_u32 [of "pending_signals p" k j] by (simp_all add: clear_signal_def)

lemma signal_scan_spec:
  assumes "distinct ks"
  shows "snd (signal_scan ks p) \<longleftrightarrow> find (fatal_for p) ks \<noteq> None"
    and "bit (pending_signals (fst (signal_scan ks p))) j \<longleftrightarrow> bit (pending_signals p) j \<and> j \<notin> taken p ks"
    and "signal_handlers (fst (signal_scan ks p)) = signal_handlers p" "pid (fst (signal_scan ks p)) = pid p"
  using assms
proof (induction ks arbitrary: p)
  case Nil
  { case 1 then show ?case by simp }
  { case 2 then show ?case by (simp add: taken_def) }
  { case 3 then show ?case by simp }
  { case 4 then show ?case by simp }
next
  case (Cons k ks)
  define q :: "process \<Rightarrow> process" where "q p = (if bit (pending_signals p) k then
      (if signal_handlers p k = 0 \<and> k = 19 then (clear_signal k p)\<lparr>pstate := BLOCKED\<rparr>
       else if signal_handlers p k = 0 \<and> k = 18 \<and> pstate p = BLOCKED
       then (clear_signal k p)\<lparr>pstate := READY\<rparr>
       else clear_signal k p) else p)" for p
  have scan: "signal_scan (k # ks) p = (if fatal_for p k
      then (clear_signal k p, True) else signal_scan ks (q p))" for p
    by (simp add: fatal_for_def q_def Let_def fatal_signals_def)
  have bq: "bit (pending_signals (q p)) i \<longleftrightarrow> bit (pending_signals p) i \<and> i \<noteq> k" for i p
    by (cases "i = k") (simp_all add: q_def)
  have hq: "signal_handlers (q p) = signal_handlers p" "pid (q p) = pid p" for p by (simp_all add: q_def)
  have fq: "fatal_for (q p) i = fatal_for p i" if "i \<in> set ks" "distinct (k # ks)" for i p
    using that by (auto simp: fatal_for_def bq hq)
  have find_q: "find (fatal_for (q p)) ks = find (fatal_for p) ks"
    and tw_q: "takeWhile (\<lambda>j. \<not> fatal_for (q p) j) ks = takeWhile (\<lambda>j. \<not> fatal_for p j) ks" if "distinct (k # ks)" for p
    using fq that by (auto intro: find_cong_on takeWhile_cong)
  { case (1 p) then show ?case using Cons.IH(1) [of "q p"] by (simp add: scan find_q del: signal_scan.simps) }
  { case (2 p)
    show ?case
    proof (cases "fatal_for p k")
      case True
      then show ?thesis by (auto simp: scan taken_def simp del: signal_scan.simps)
    next
      case False
      have "taken p (k # ks) = insert k (taken (q p) ks)"
        using False 2 by (auto simp: taken_def find_q tw_q split: option.splits)
      then show ?thesis using Cons.IH(2) [of "q p"] False 2 by (auto simp: scan bq simp del: signal_scan.simps)
    qed }
  { case (3 p) then show ?case using Cons.IH(3) [of "q p"] by (simp add: scan hq del: signal_scan.simps) }
  { case (4 p) then show ?case using Cons.IH(4) [of "q p"] by (simp add: scan hq del: signal_scan.simps) }
qed

lemma signal_scan_append:
  "signal_scan (xs @ ys) p = (if snd (signal_scan xs p) then signal_scan xs p else signal_scan ys (fst (signal_scan xs p)))"
  by (induction xs arbitrary: p) (simp_all add: Let_def)

lemma signal_scan_pstate:
  "18 \<notin> set ks \<Longrightarrow> 19 \<notin> set ks \<Longrightarrow> pstate (fst (signal_scan ks p)) = pstate p"
  by (induction ks arbitrary: p) (auto simp: Let_def)

lemma signal_scan_18_19:
  "pstate (fst (signal_scan [18, 19] p)) = (if bit (pending_signals p) 19 \<and> signal_handlers p 19 = 0 then BLOCKED
     else if bit (pending_signals p) 18 \<and> signal_handlers p 18 = 0 \<and> pstate p = BLOCKED then READY
     else pstate p)"
  by (simp add: Let_def fatal_signals_def)

lemma signals_split: "[1..<NSIG] = [1..<18] @ [18, 19] @ [20..<NSIG]"
  by (simp add: upt_rec)

lemma signal_scan_stop_cont:
  assumes "\<not> snd (signal_scan [1..<NSIG] p)"
  shows "pstate (fst (signal_scan [1..<NSIG] p)) =
    (if bit (pending_signals p) 19 \<and> signal_handlers p 19 = 0 then BLOCKED
     else if bit (pending_signals p) 18 \<and> signal_handlers p 18 = 0 \<and> pstate p = BLOCKED then READY
     else pstate p)"
proof -
  let ?p1 = "fst (signal_scan [1..<18] p)"
  let ?p2 = "fst (signal_scan [18, 19] ?p1)"
  have no1: "\<not> snd (signal_scan [1..<18] p)" and no2: "\<not> snd (signal_scan [18, 19] ?p1)"
    using assms unfolding signals_split signal_scan_append by (auto simp: signal_scan_append split: if_splits)
  have e: "fst (signal_scan [1..<NSIG] p) = fst (signal_scan [20..<NSIG] ?p2)"
    using no1 no2 unfolding signals_split signal_scan_append by simp
  have b: "bit (pending_signals ?p1) j = bit (pending_signals p) j" if "18 \<le> j" for j
  proof -
    have "taken p [1..<18] = set [1..<18]"
      using signal_scan_spec(1) [of "[1..<18]" p] no1 by (simp add: taken_def)
    then show ?thesis using that signal_scan_spec(2) [of "[1..<18]" p j] by simp
  qed
  have b18: "bit (pending_signals ?p1) 18 = bit (pending_signals p) 18" by (rule b) simp
  have b19: "bit (pending_signals ?p1) 19 = bit (pending_signals p) 19" by (rule b) simp
  have h: "signal_handlers ?p1 = signal_handlers p" by (rule signal_scan_spec(3)) simp
  have s1: "pstate ?p1 = pstate p" by (rule signal_scan_pstate) simp_all
  have "pstate ?p2 = (if bit (pending_signals p) 19 \<and> signal_handlers p 19 = 0 then BLOCKED
     else if bit (pending_signals p) 18 \<and> signal_handlers p 18 = 0 \<and> pstate p = BLOCKED then READY
     else pstate p)"
    unfolding signal_scan_18_19 h s1 b18 b19 by (rule refl)
  moreover have "pstate (fst (signal_scan [20..<NSIG] ?p2)) = pstate ?p2" by (rule signal_scan_pstate) simp_all
  ultimately show ?thesis unfolding e by (simp only:)
qed

section \<open>Yielding\<close>

text \<open>Every process of the queue can run and has nothing pending.\<close>

definition all_ready :: "psys \<Rightarrow> ptr list \<Rightarrow> bool" where
  "all_ready s ps \<longleftrightarrow> queue_inv s ps \<and> (\<forall>p \<in> set ps. runnable s p \<and> pending_signals (procs s p) = 0)"

fun yields :: "nat \<Rightarrow> psys \<Rightarrow> psys option" where
  "yields 0 s = Some s"
| "yields (Suc k) s = Option.bind (process_yield s) (\<lambda>(_, s1). yields k s1)"

lemma find_all: "(\<forall>x \<in> set xs. P x) \<Longrightarrow> find P xs = (if xs = [] then None else Some (hd xs))"
  by (cases xs) auto

lemma schedule_stay: "schedule_decide s = Some (Stay s1) \<Longrightarrow> schedule s = Some (Returned, s1)"
  by (subst schedule.simps) simp

lemma schedule_switch:
  assumes "schedule_decide s = Some (Switch n s1)" and "pending_signals (procs s1 (current_process s1)) = 0"
  shows "schedule s = Some (Switched, switch_to_task n s1)"
  using assms by (subst schedule.simps) (simp add: deliver_quiet)

lemma yield_next:
  assumes r: "all_ready s ps" and i: "i < length ps" and c: "current_process s = ps ! i"
  shows "\<exists>o1 s'. process_yield s = Some (o1, s') \<and> all_ready s' ps \<and> current_process s' = ps ! (Suc i mod length ps)"
proof -
  let ?c = "ps ! i" and ?before = "take i ps" and ?after = "drop (Suc i) ps"
  have split: "ps = ?before @ ?c # ?after" using i by (rule id_take_nth_drop)
  have q: "queue_inv s ps" and rn: "\<And>p. p \<in> set ps \<Longrightarrow> runnable s p" "\<And>p. p \<in> set ps \<Longrightarrow> pending_signals (procs s p) = 0"
    using r by (auto simp: all_ready_def)
  have cin: "?c \<in> set ps" using i by simp
  then have c0: "?c \<noteq> 0" using q by (auto simp: queue_inv_def)
  define s0 where "s0 = put_process ?c ((procs s ?c)\<lparr>time_slice := 0\<rparr>) s"
  have y: "process_yield s = schedule s0" using c c0 by (simp add: process_yield_def s0_def Let_def)
  have q0: "queue_inv s0 (?before @ ?c # ?after)" using q split by (simp add: queue_inv_def s0_def)
  have c1: "current_process s0 = ?c" using c by (simp add: s0_def)
  have run0: "runnable s0 p = runnable s p" for p by (simp add: s0_def runnable_def)
  have over: "slice_over (procs s0 ?c)" by (simp add: slice_over_def s0_def)
  let ?s2 = "requeue_current (tick_current s0)"
  have "\<forall>p \<in> set (?after @ ?before). runnable s0 p"
    using rn(1) run0 by (auto dest: in_set_takeD in_set_dropD)
  then have fnd: "find (runnable s0) (?after @ ?before) = (if ?after @ ?before = [] then None else Some (hd (?after @ ?before)))"
    by (rule find_all)
  have st2: "runnable ?s2 p" "pending_signals (procs ?s2 p) = 0" if "p \<in> set ps" for p
  proof -
    show "pending_signals (procs ?s2 p) = 0" using rn(2) [OF that] by (auto simp: s0_def)
    show "runnable ?s2 p"
    proof (cases "p = ?c")
      case True
      have "runnable (tick_current s0) ?c" using rn(1) [OF cin] run0 by (simp add: runnable_def)
      then show ?thesis using requeue_sel(5) [of "tick_current s0"] True c1 by (simp add: runnable_def)
    next
      case False
      then show ?thesis using rn(1) [OF that] run0 c1 by (simp add: runnable_def)
    qed
  qed
  show ?thesis
  proof (cases "?after @ ?before = []")
    case True
    then have len: "length ps = 1" using i split by (cases ps) auto
    have "schedule s0 = Some (Returned, set_state ?c RUNNING ?s2)"
      using schedule_decide_expired [OF q0 c1 over] fnd True by (intro schedule_stay) simp
    moreover have "all_ready (set_state ?c RUNNING ?s2) ps"
      using st2 q0 split by (auto simp: all_ready_def queue_inv_def runnable_def)
    ultimately show ?thesis using y len i c1 by auto
  next
    case False
    let ?n = "hd (?after @ ?before)"
    have nn: "?n = ps ! (Suc i mod length ps)"
    proof (cases "Suc i < length ps")
      case True
      then show ?thesis by (simp add: hd_append hd_drop_conv_nth)
    next
      case last: False
      then have "length ps = Suc i" using i by simp
      then show ?thesis using False by (simp add: hd_conv_nth)
    qed
    have nin: "?n \<in> set ps" unfolding nn using i by (intro nth_mem mod_less_divisor) linarith
    have "?n \<in> set (?after @ ?before)" using False by (rule hd_in_set)
    then have ne: "?n \<noteq> ?c" using queue_distinct [OF q0] by auto
    let ?d = "dispatch ?n ?s2"
    have cur: "current_process ?s2 = ?c" using c1 by simp
    have nc: "?n \<noteq> current_process ?s2" using ne cur by simp
    have pend: "pending_signals (procs ?d ?c) = 0"
      using st2(2) [OF cin] dispatch_sel(8) [OF nc] cur by simp
    have "schedule s0 = Some (Switched, switch_to_task ?n ?d)"
      using schedule_decide_expired [OF q0 c1 over] fnd False pend cur by (intro schedule_switch) simp_all
    moreover have "all_ready (switch_to_task ?n ?d) ps"
    proof -
      have "runnable ?d p \<and> pending_signals (procs ?d p) = 0" if "p \<in> set ps" for p
      proof -
        consider "p = ?n" | "p = ?c" "p \<noteq> ?n" | "p \<noteq> ?n" "p \<noteq> ?c" by blast
        then show ?thesis
        proof cases
          case 1
          then show ?thesis using st2(2) [OF nin] by (simp only: runnable_def dispatch_sel(7)) simp
        next
          case 2
          then show ?thesis using st2 [OF cin] dispatch_sel(8) [OF nc] cur by (auto simp: runnable_def)
        next
          case 3
          then have "procs ?d p = procs ?s2 p" using cur by (intro dispatch_sel(9)) simp_all
          then show ?thesis using st2 [OF that] by (simp only: runnable_def)
        qed
      qed
      then show ?thesis using q0 split by (simp add: all_ready_def queue_inv_def runnable_def)
    qed
    ultimately show ?thesis using y nn by auto
  qed
qed

section \<open>Starting a task\<close>

lemma aligned_plus: "4 dvd unat a \<Longrightarrow> 4 dvd unat b \<Longrightarrow> 4 dvd unat (a + b :: u32)"
  by (simp add: unat_word_ariths dvd_mod)

text \<open>The frame as the context switch will read it back, below the object that holds the stack pointer.\<close>

lemma task_frame_context:
  assumes al: "4 dvd unat stack" "4 dvd unat p" and lo: "unat stack + 4096 \<le> ARENA_END" and hi: "ARENA_END \<le> unat p"
    and fr: "push_words (task_frame e) (stack + 4096) m = (sp, m1)"
  shows "sp = stack + 4056"
    and "load_context (load32 (store32 p sp m1) p) (store32 p sp m1) = \<lparr>eax = 0, ecx = 0, edx = 0, ebx = 0,
      esp = stack + 4096, ebp = 0, esi = 0, edi = 0x202, eflags = 0, eip = e\<rparr>"
proof -
  define F where "F k = stack + k" for k
  have m1: "m1 = store32 (F 4056) 0x202 (store32 (F 4060) 0 (store32 (F 4064) 0 (store32 (F 4068) 0 (store32 (F 4072) 0
      (store32 (F 4076) 0 (store32 (F 4080) 0 (store32 (F 4084) 0 (store32 (F 4088) 0 (store32 (F 4092) e m)))))))))"
    and sp: "sp = stack + 4056" using fr by (auto simp: task_frame_def F_def add.commute [of stack])
  show "sp = stack + 4056" by (rule sp)
  have a: "4 dvd unat (F k)" if "4 dvd unat k" for k using aligned_plus [OF al(1) that] by (simp add: F_def)
  have ne: "F k \<noteq> p" "p \<noteq> F k" if "unat k < 4096" for k
  proof -
    have "unat (stack + k) = unat stack + unat k" using lo that by (intro unat_add_u32) simp
    then show "F k \<noteq> p" "p \<noteq> F k" using lo hi that by (auto simp: F_def)
  qed
  have inj: "F j = F k \<longleftrightarrow> j = k" for j k by (simp add: F_def)
  have off: "sp = F 4056" "sp + 4 = F 4060" "sp + 8 = F 4064" "sp + 16 = F 4072" "sp + 20 = F 4076" "sp + 24 = F 4080"
    "sp + 28 = F 4084" "sp + 32 = F 4088" "sp + 36 = F 4092" "sp + 40 = stack + 4096"
    by (simp_all add: sp F_def)
  have top: "load32 (store32 p sp m1) p = sp" by simp
  show "load_context (load32 (store32 p sp m1) p) (store32 p sp m1) = \<lparr>eax = 0, ecx = 0, edx = 0, ebx = 0,
      esp = stack + 4096, ebp = 0, esi = 0, edi = 0x202, eflags = 0, eip = e\<rparr>"
    unfolding top load_context_def off(2-10) unfolding off(1) m1 using al(2) by (simp add: a ne inj)
qed

section \<open>Properties\<close>

text \<open>Two ready processes, the first one current with its last tick.\<close>

definition two_procs :: psys where
  "two_procs = \<lparr>km = (boot_kmem (\<lambda>_. 0))\<lparr>klinks := ring_of_two\<rparr>,
     procs = (\<lambda>p. zero_process\<lparr>pid := (if p = 0x1FF0 then 1 else 2), priority := 128, time_slice := 1\<rparr>),
     current_process = 0x1FF0, ready_queue = 0x1000, next_pid = 3, process_cache = 0, vm_directory = 0x400000,
     vm_cr3 = 0x400000, tss_esp0 = 0, cpu = load_context 0x9000 (\<lambda>_. 0)\<rparr>"

lemma two_procs_queue: "queue_inv two_procs [0x1FF0, 0x2FF0]"
  using ring_of_two by (simp add: queue_inv_def two_procs_def)

text \<open>Signals that do not kill are all taken before the switch.\<close>

lemma deliver_mild:
  assumes "\<forall>k \<in> set fatal_signals. bit (pending_signals p) k \<longrightarrow> signal_handlers p k \<noteq> 0" and "procs s (current_process s) = p"
  obtains p' where "deliver s = (put_process (current_process s) p' s, False)"
    "\<And>j. bit (pending_signals p') j \<longleftrightarrow> bit (pending_signals p) j \<and> j = 0"
    "pstate p' = (if bit (pending_signals p) 19 \<and> signal_handlers p 19 = 0 then BLOCKED
       else if bit (pending_signals p) 18 \<and> signal_handlers p 18 = 0 \<and> pstate p = BLOCKED then READY else pstate p)"
proof -
  obtain p' fatal where sc: "signal_scan [1..<NSIG] p = (p', fatal)" by (rule prod.exhaust)
  note spec = signal_scan_spec [of "[1..<NSIG]" p, unfolded sc fst_conv snd_conv, OF distinct_upt]
  have none: "find (fatal_for p) [1..<NSIG] = None" using assms(1) by (auto simp: find_None_iff fatal_for_def)
  then have nf: "\<not> fatal" using spec(1) by simp
  have "taken p [1..<NSIG] = {1..<NSIG}" unfolding taken_def none option.case by (rule set_upt)
  then have "bit (pending_signals p') j \<longleftrightarrow> bit (pending_signals p) j \<and> j = 0" for j
    using spec(2) [of j] bit_imp_le_length [of "pending_signals p" j] by auto
  moreover note signal_scan_stop_cont [of p, unfolded sc fst_conv snd_conv, OF nf]
  ultimately show ?thesis using that sc nf assms(2) by (simp add: deliver_def)
qed

lemma dispatch_current:
  assumes "n \<noteq> current_process s" and "current_process s = c"
  defines "d \<equiv> dispatch n (requeue_current (tick_current s))"
  shows "pending_signals (procs d c) = pending_signals (procs s c)" "signal_handlers (procs d c) = signal_handlers (procs s c)"
    "pstate (procs d c) = (if runnable s c then READY else pstate (procs s c))"
  using assms by (auto simp: d_def dispatch_def requeue_current_def tick_current_def runnable_def Let_def)

text \<open>C13: One call of \<^verbatim>\<open>schedule\<close>, with no signal pending that would kill the current process, returns and is round robin. While
  the current process has more than one tick left and is not blocked it stays, with one tick less and one tick of runtime
  more. Else the first process after it in the circular queue order that is ready gets the
  processor, with the slice of its priority, its kernel stack in the TSS, its page directory
  and the context saved on its stack; a running predecessor becomes ready, and before the switch its signals are taken, all
  of them: a stop signal without a handler leaves it blocked instead, a continue signal without one makes a blocked one ready. When no other
  process is ready the current one goes on running, even one that is blocked.\<close>

theorem schedule_round_robin:
  assumes "queue_inv s (before @ c # after)" and "current_process s = c"
    and "\<forall>k \<in> set fatal_signals. bit (pending_signals (procs s c)) k \<longrightarrow> signal_handlers (procs s c) k \<noteq> 0"
  shows "if \<not> slice_over (procs s c)
    then schedule s = Some (Returned, put_process c ((procs s c)
           \<lparr>time_slice := time_slice (procs s c) - 1, total_runtime := total_runtime (procs s c) + 1, pstate := RUNNING\<rparr>) s)
    else (case find (runnable s) (after @ before) of
      None \<Rightarrow> \<exists>s'. schedule s = Some (Returned, s') \<and> current_process s' = c \<and> pstate (procs s' c) = RUNNING \<and> plinks s' = plinks s
    | Some n \<Rightarrow> \<exists>s'. schedule s = Some (Switched, s') \<and> current_process s' = n \<and> plinks s' = plinks s
        \<and> procs s' n = (procs s n)\<lparr>pstate := RUNNING, time_slice := calculate_time_slice (priority (procs s n))\<rparr>
        \<and> (let st = (if runnable s c then READY else pstate (procs s c));
               dflt = (\<lambda>k. bit (pending_signals (procs s c)) k \<and> signal_handlers (procs s c) k = 0)
           in pstate (procs s' c) = (if dflt 19 then BLOCKED else if dflt 18 \<and> st = BLOCKED then READY else st))
        \<and> (\<forall>j. bit (pending_signals (procs s' c)) j \<longleftrightarrow> bit (pending_signals (procs s c)) j \<and> j = 0)
        \<and> tss_esp0 s' = kernel_stack_top (procs s n)
        \<and> vm_cr3 s' = (if pcr3 (procs s n) \<noteq> 0 then pcr3 (procs s n) else vm_cr3 s)
        \<and> cpu s' = load_context (load32 (pmem s') n) (pmem s'))"
proof (cases "slice_over (procs s c)")
  case False
  have dis: "c \<noteq> 0" using assms(1) by (auto simp: queue_inv_def)
  have "time_slice (procs (tick_current s) c) \<noteq> 0" "pstate (procs (tick_current s) c) \<noteq> BLOCKED" "0 < time_slice (procs s c)"
    using False tick_slice [of s] assms(2) by (auto simp: slice_over_def word_gt_0)
  then have "schedule_decide s = Some (Stay (set_state c RUNNING (tick_current s)))"
    using dis assms(2) by (simp add: schedule_decide_def Let_def)
  moreover have "set_state c RUNNING (tick_current s) = put_process c ((procs s c)
      \<lparr>time_slice := time_slice (procs s c) - 1, total_runtime := total_runtime (procs s c) + 1, pstate := RUNNING\<rparr>) s"
    using \<open>0 < time_slice (procs s c)\<close> assms(2) by (simp add: tick_current_def set_state_def put_process_def Let_def)
  ultimately show ?thesis using False schedule_stay by simp
next
  case True
  let ?s2 = "requeue_current (tick_current s)"
  note dec = schedule_decide_expired [OF assms(1,2) True]
  have cur: "current_process ?s2 = c" using assms(2) by simp
  show ?thesis
  proof (cases "find (runnable s) (after @ before)")
    case None
    then have "schedule s = Some (Returned, set_state c RUNNING ?s2)" using dec by (intro schedule_stay) simp
    then show ?thesis using True None cur by simp
  next
    case (Some n)
    have "c \<notin> set (after @ before)" using queue_distinct [OF assms(1)] by auto
    then have ne: "n \<noteq> c" using find_mem [OF Some] by auto
    then have nc: "n \<noteq> current_process ?s2" using cur by simp
    have pn: "procs ?s2 n = procs s n" using ne assms(2) by simp
    have nc': "n \<noteq> current_process s" using ne assms(2) by simp
    note D = dispatch_current [OF nc' assms(2)]
    have mild: "\<forall>k \<in> set fatal_signals. bit (pending_signals (procs (dispatch n ?s2) c)) k \<longrightarrow> signal_handlers (procs (dispatch n ?s2) c) k \<noteq> 0"
      using assms(3) unfolding D(1,2) .
    have cd: "procs (dispatch n ?s2) (current_process (dispatch n ?s2)) = procs (dispatch n ?s2) c" using cur by simp
    obtain p' where p': "deliver (dispatch n ?s2) = (put_process c p' (dispatch n ?s2), False)"
      "\<And>j. bit (pending_signals p') j \<longleftrightarrow> bit (pending_signals (procs s c)) j \<and> j = 0"
      "pstate p' = (let st = (if runnable s c then READY else pstate (procs s c));
               dflt = (\<lambda>k. bit (pending_signals (procs s c)) k \<and> signal_handlers (procs s c) k = 0)
           in (if dflt 19 then BLOCKED else if dflt 18 \<and> st = BLOCKED then READY else st))"
    proof (rule deliver_mild [OF mild cd, unfolded D(1,2,3) dispatch_sel(2) cur], goal_cases)
      case (1 p')
      then show ?case by (intro 1(1) [of p']) (simp_all only: Let_def conj_assoc)
    qed
    have e: "schedule s = Some (Switched, switch_to_task n (put_process c p' (dispatch n ?s2)))"
      using dec Some p'(1) by (subst schedule.simps) simp
    have c3: "vm_cr3 ?s2 = vm_cr3 s" by (simp add: requeue_current_def tick_current_def Let_def)
    let ?s' = "switch_to_task n (put_process c p' (dispatch n ?s2))"
    have sel: "procs ?s' n = (procs s n)\<lparr>pstate := RUNNING, time_slice := calculate_time_slice (priority (procs s n))\<rparr>"
      "procs ?s' c = p'" "plinks ?s' = plinks s" "tss_esp0 ?s' = kernel_stack_top (procs s n)"
      "vm_cr3 ?s' = (if pcr3 (procs s n) \<noteq> 0 then pcr3 (procs s n) else vm_cr3 s)"
      using ne pn c3 by simp_all
    have over: "\<not> \<not> slice_over (procs s c)" using True by simp
    show ?thesis
      unfolding if_not_P [OF over] Some option.case
      by (rule exI [of _ ?s'], intro conjI, rule e, rule switch_sel(3), rule sel(3), rule sel(1), simp only: sel(2) p'(3) Let_def,
          simp only: sel(2) p'(2) simp_thms, rule sel(4), rule sel(5), rule switch_sel(7))
  qed
qed

theorem schedule_round_robin_witness:
  "\<exists>s'. schedule two_procs = Some (Switched, s') \<and> current_process s' = 0x2FF0 \<and> time_slice (procs s' 0x2FF0) = 12"
  using schedule_round_robin [of two_procs "[]" "0x1FF0" "[0x2FF0]"] two_procs_queue
  by (fastforce simp: two_procs_def slice_over_def runnable_def zero_process_def calculate_time_slice_def)

text \<open>C21: With every process of the queue ready and no signals pending, yielding serves the processes
  in turn: after \<open>k\<close> yields the current process is the one \<open>k\<close> places further round the queue,
  so every process gets the processor within one round.\<close>

theorem yields_serve_all:
  assumes "all_ready s ps" and "i < length ps" and "current_process s = ps ! i"
  shows "\<exists>s'. yields k s = Some s' \<and> current_process s' = ps ! ((i + k) mod length ps)"
  using assms
proof (induction k arbitrary: s i)
  case 0
  then show ?case by simp
next
  case (Suc k)
  obtain o1 s1 where y: "process_yield s = Some (o1, s1)" "all_ready s1 ps" "current_process s1 = ps ! (Suc i mod length ps)"
    using yield_next [OF Suc.prems] by blast
  have "Suc i mod length ps < length ps" using Suc.prems(2) by (intro mod_less_divisor) linarith
  then obtain s' where "yields k s1 = Some s'" "current_process s' = ps ! ((Suc i mod length ps + k) mod length ps)"
    using Suc.IH [OF y(2) _ y(3)] by blast
  then show ?case using y(1) by (simp add: mod_add_left_eq)
qed

theorem yields_serve_all_witness:
  "\<exists>s'. yields 3 two_procs = Some s' \<and> current_process s' = 0x2FF0"
proof -
  have "all_ready two_procs [0x1FF0, 0x2FF0]"
    using two_procs_queue by (simp add: all_ready_def two_procs_def runnable_def zero_process_def)
  moreover have "current_process two_procs = [0x1FF0, 0x2FF0] ! 0" by (simp add: two_procs_def)
  moreover have "[0x1FF0, 0x2FF0 :: ptr] ! ((0 + 3) mod length [0x1FF0, 0x2FF0 :: ptr]) = 0x2FF0"
    by (simp add: eval_nat_numeral mod_Suc)
  ultimately show ?thesis using yields_serve_all [of two_procs "[0x1FF0, 0x2FF0]" 0 3] by (simp del: yields.simps)
qed

text \<open>C24: Delivery of signals to the current process. The signals are taken in numerical order. Up to
  the lowest pending one that is fatal by default (and left to its default) every signal is
  cleared, and \<^verbatim>\<open>process_kill\<close> is called for the process; higher ones stay pending. Without a
  fatal one all are cleared and the call returns; a stop signal blocks the process, also when
  a continue signal is pending with it, and a continue signal alone makes it ready.\<close>

theorem do_signal_delivers:
  "if current_process s = 0 then do_signal s = Some (Returned, s)
   else let c = current_process s; p = procs s c; dflt = (\<lambda>k. bit (pending_signals p) k \<and> signal_handlers p k = 0) in
     (case find (\<lambda>k. dflt k \<and> k \<in> set fatal_signals) [1..<NSIG] of
        Some k \<Rightarrow> \<exists>p'. do_signal s = Option.bind (process_kill (pid p) (put_process c p' s)) (\<lambda>(_, r, s2). Some (r, s2))
          \<and> (\<forall>j. bit (pending_signals p') j = (bit (pending_signals p) j \<and> (j = 0 \<or> k < j)))
      | None \<Rightarrow> \<exists>p'. do_signal s = Some (Returned, put_process c p' s)
          \<and> (\<forall>j. bit (pending_signals p') j = (bit (pending_signals p) j \<and> j = 0))
          \<and> pstate p' = (if dflt 19 then BLOCKED else if dflt 18 \<and> pstate p = BLOCKED then READY else pstate p))"
proof (cases "current_process s = 0")
  case True
  then show ?thesis by (simp add: do_signal_def)
next
  case False
  let ?c = "current_process s"
  let ?p = "procs s ?c"
  obtain p' fatal where sc: "signal_scan [1..<NSIG] ?p = (p', fatal)" by (rule prod.exhaust)
  note spec = signal_scan_spec [of "[1..<NSIG]" ?p, unfolded sc fst_conv snd_conv, OF distinct_upt]
  have del: "deliver s = (put_process ?c p' s, fatal)" unfolding deliver_def sc prod.case by (rule refl)
  have ff: "(\<lambda>k. (bit (pending_signals ?p) k \<and> signal_handlers ?p k = 0) \<and> k \<in> set fatal_signals) = fatal_for ?p"
    by (rule ext) (simp only: fatal_for_def conj_assoc)
  show ?thesis
  proof (cases "find (fatal_for ?p) [1..<NSIG]")
    case None
    have nf: "\<not> fatal" using spec(1) None by simp
    then have d: "do_signal s = Some (Returned, put_process ?c p' s)"
      unfolding do_signal_def del prod.case using False by (simp only: if_False)
    have "taken ?p [1..<NSIG] = {1..<NSIG}" unfolding taken_def None option.case by (rule set_upt)
    then have b: "bit (pending_signals p') j = (bit (pending_signals ?p) j \<and> j = 0)" for j
      using spec(2) [of j] bit_imp_le_length [of "pending_signals ?p" j] by auto
    have st: "pstate p' = (if bit (pending_signals ?p) 19 \<and> signal_handlers ?p 19 = 0 then BLOCKED
       else if (bit (pending_signals ?p) 18 \<and> signal_handlers ?p 18 = 0) \<and> pstate ?p = BLOCKED then READY else pstate ?p)"
      using signal_scan_stop_cont [of ?p, unfolded sc fst_conv snd_conv, OF nf] by (simp only: conj_assoc)
    show ?thesis unfolding Let_def ff None option.case using False d b st by (simp only: if_False; blast)
  next
    case (Some k)
    have f: "fatal" using spec(1) Some by simp
    then have d: "do_signal s = Option.bind (process_kill (pid ?p) (put_process ?c p' s)) (\<lambda>(_, r, s2). Some (r, s2))"
      unfolding do_signal_def del prod.case using False spec(4)
      by (simp only: if_False if_True put_process_sel fun_upd_same)
    have kf: "1 \<le> k" "k < NSIG" "fatal_for ?p k" "\<And>j. 1 \<le> j \<Longrightarrow> j < k \<Longrightarrow> \<not> fatal_for ?p j"
      using Some unfolding find_upt_Some_iff by blast+
    have "[1..<NSIG] = [1..<k] @ k # [Suc k..<NSIG]"
      using kf(1,2) by (metis less_imp_le upt_conv_Cons upt_add_eq_append le_Suc_ex)
    then have "takeWhile (\<lambda>j. \<not> fatal_for ?p j) [1..<NSIG] = [1..<k]"
      using kf(3,4) by (simp add: takeWhile_append)
    then have tk: "taken ?p [1..<NSIG] = {1..k}" unfolding taken_def Some option.case using kf(1) by auto
    have b: "bit (pending_signals p') j = (bit (pending_signals ?p) j \<and> (j = 0 \<or> k < j))" for j
      unfolding spec(2) tk using kf(1) by auto
    show ?thesis unfolding Let_def ff Some option.case using False d b by (simp only: if_False; blast)
  qed
qed

text \<open>C27: \<^verbatim>\<open>process_create\<close> appends a ready process with the next pid, priority 100 and a slice of 11
  ticks to the queue. Its first run starts at the entry point with all registers zero but
  two: the frame holds the flags at the end where \<^verbatim>\<open>switch_to_task\<close> pops \<^verbatim>\<open>edi\<close>, and a zero where
  it pops the flags, so the task starts with \<^verbatim>\<open>edi\<close> holding the intended flags and with
  interrupts disabled.\<close>

theorem process_create_first_run:
  assumes "kmem_cache_alloc (process_cache s) (km s) = Some (p, k)" and "ARENA_END \<le> unat p" and "4 dvd unat p"
    and "heap_inv (kheap_of k) bs" and "kmalloc 4096 (kheap_of k) = Some (stack, h)" and "stack \<noteq> 0" and "4 dvd unat stack"
    and "dlist (klinks k) (ready_queue s) (map pnode ps)" and "0 \<notin> set ps"
    and "p \<notin> set ps" and "pnode p \<noteq> 0" and "pnode p \<noteq> ready_queue s"
  shows "\<exists>s'. process_create e s = Some s' \<and> queue_inv s' (ps @ [p]) \<and> next_pid s' = next_pid s + 1
    \<and> pid (procs s' p) = next_pid s \<and> pstate (procs s' p) = READY \<and> priority (procs s' p) = 100
    \<and> time_slice (procs s' p) = 11 \<and> kernel_stack_top (procs s' p) = stack + 4096
    \<and> load_context (load32 (pmem s') p) (pmem s') = \<lparr>eax = 0, ecx = 0, edx = 0, ebx = 0,
        esp = stack + 4096, ebp = 0, esi = 0, edi = 0x202, eflags = 0, eip = e\<rparr>"
proof -
  have p0: "p \<noteq> 0" using assms(2) by auto
  have room: "unat stack + 4096 \<le> ARENA_END"
  proof -
    obtain p' h' bs' where a: "kmalloc 4096 (kheap_of k) = Some (p', h')" "heap_inv h' bs'"
      "if p' = 0 then h' = kheap_of k \<and> bs' = bs
       else \<exists>n. live ARENA_START bs' = insert (unat p', n) (live ARENA_START bs)
         \<and> (unat (4096 :: u32) < 2 ^ 32 - 15 \<longrightarrow> unat (4096 :: u32) \<le> n)
         \<and> (\<forall>(q, j) \<in> live ARENA_START bs. q + j < unat p' \<or> unat p' + n < q)"
      using heap.alloc_total [OF assms(4), of 4096] by blast
    then obtain n where "(unat stack, n) \<in> live ARENA_START bs'" "4096 \<le> n" using assms(5,6) by auto
    then show ?thesis using heap_live_range [OF a(2)] by fastforce
  qed
  let ?l = "set_prev (pnode p) 0 (set_next (pnode p) 0 (klinks k))"
  have nin: "pnode p \<notin> set (ready_queue s # map pnode ps)" using assms(10,12) by auto
  have d: "dlist (init_list_head (pnode p) ?l) (ready_queue s) (map pnode ps)"
    using assms(8) nin by (subst dlist_init_other, simp, subst dlist_cong [of _ _ _ "klinks k"]) auto
  from dlist_add_tail [OF d nin assms(11)]
  have q: "dlist (list_add_tail (pnode p) (ready_queue s) (init_list_head (pnode p) ?l)) (ready_queue s) (map pnode (ps @ [p]))"
    by simp
  obtain sp m1 where fr: "push_words (task_frame e) (stack + 4096) (kmemory k) = (sp, m1)" by (rule prod.exhaust)
  note ctx = task_frame_context(2) [OF assms(7,3) room assms(2) fr, unfolded load32_store32]
  have slice: "calculate_time_slice 100 = 11" by (simp add: calculate_time_slice_def)
  show ?thesis
    using assms(1,5,9) p0 q fr slice
    by (simp add: process_create_def alloc_process_def Let_def set_links_def set_memory_def put_process_def enqueue_def
        queue_inv_def ctx)
qed

text \<open>A cache with one partial slab whose next free object is at \<open>0x500000\<close>, and an empty queue.\<close>

definition idle_psys :: psys where
  "idle_psys = two_procs\<lparr>process_cache := 0x8000, km := (boot_kmem (\<lambda>_. 0))
     \<lparr>slabs := (\<lambda>_. \<lparr>sl_mem = 0x500000, sl_inuse = 1, sl_objects = 19, sl_freelist = 0x500000\<rparr>),
      klinks := init_list_head 0x1000 (list_add 0x6000 (slabs_partial 0x8000)
        (init_list_head (slabs_partial 0x8000) \<lparr>lnext = (\<lambda>_. 0), lprev = (\<lambda>_. 0)\<rparr>))\<rparr>\<rparr>"

lemma idle_alloc:
  "\<exists>k. kmem_cache_alloc (process_cache idle_psys) (km idle_psys) = Some (0x500000, k)
    \<and> kheap_of k = boot_kheap (\<lambda>_. \<lparr>hb_size = 0, hb_is_free = True, hb_next = 0\<rparr>)
    \<and> lnext (klinks k) 0x1000 = 0x1000 \<and> lprev (klinks k) 0x1000 = 0x1000"
  by (simp add: idle_psys_def two_procs_def kmem_cache_alloc_def slab_take_def list_empty_def list_op_defs
      put_slab_def put_cache_def Let_def boot_kmem_def)

theorem process_create_first_run_witness:
  "\<exists>s'. process_create 0x10000 idle_psys = Some s' \<and> eflags (load_context (load32 (pmem s') 0x500000) (pmem s')) = 0"
proof -
  obtain k where k: "kmem_cache_alloc (process_cache idle_psys) (km idle_psys) = Some (0x500000, k)"
    "kheap_of k = boot_kheap (\<lambda>_. \<lparr>hb_size = 0, hb_is_free = True, hb_next = 0\<rparr>)"
    "lnext (klinks k) 0x1000 = 0x1000" "lprev (klinks k) 0x1000 = 0x1000" using idle_alloc by blast
  have hi: "heap_inv (kheap_of k) [(0xFFFF4, True)]" unfolding k(2) by (rule boot_kheap_inv)
  have "alloc_abs (unat (align16 4096)) ARENA_START [(0xFFFF4, True)] = Some (0x20000C, [(4096, False), (0xFEFE8, True)])"
    by (simp add: align16_def take_abs_def)
  from heap_alloc_new [OF hi this]
  obtain h where h: "kmalloc 4096 (kheap_of k) = Some (0x20000C, h)" by auto
  have rq: "ready_queue idle_psys = 0x1000" by (simp add: idle_psys_def two_procs_def)
  have d: "dlist (klinks k) (ready_queue idle_psys) (map pnode [])" using k(3,4) by (simp add: rq dlist_def)
  show ?thesis
    using process_create_first_run [OF k(1) _ _ hi h _ _ d, of "0x10000"] by (force simp: rq)
qed

section \<open>Killing a process\<close>

text \<open>The queue and the slab lists of the process cache share the store of list nodes and nothing
  else; every process of the queue is an object handed out by the cache.\<close>

definition proc_inv :: "psys \<Rightarrow> ptr list \<Rightarrow> (ptr \<Rightarrow> ptr list) \<Rightarrow> (ptr \<Rightarrow> ptr list) \<Rightarrow> bool" where
  "proc_inv s ps f fl \<longleftrightarrow> queue_inv s ps \<and> cache_inv (km s) (process_cache s) f fl
     \<and> store_inv (km s) (process_cache s) (ring_nodes (slab_heads (process_cache s)) f)
     \<and> set ps \<subseteq> allocated (km s) (process_cache s) f fl
     \<and> set (ready_queue s # map pnode ps) \<inter> (slab_heads (process_cache s) \<union> ring_nodes (slab_heads (process_cache s)) f) = {}"

lemma ring_apart:
  assumes "set (q # ns) \<inter> (H \<union> ring_nodes H f) = {}" and "h \<in> H"
  shows "set (q # ns) \<inter> set (h # f h) = {}"
  using assms by (auto simp: ring_nodes_def)

lemma slab_put_other_ring:
  assumes inv: "cache_inv k c f fl" and h: "h \<in> slab_heads c" and sl: "sl \<in> set (f h)"
    and x: "x \<in> objs (page_of k sl) (osize k c)" "x \<notin> set (fl sl)"
    and q: "dlist (klinks k) q ns" "set (q # ns) \<inter> (slab_heads c \<union> ring_nodes (slab_heads c) f) = {}"
  shows "dlist (klinks (slab_put c sl x k)) q ns"
proof -
  let ?H = "slab_heads c"
  have r: "rings (klinks k) ?H f" by (rule cache_invD(3) [OF inv])
  let ?l = "list_del sl (klinks k)" and ?f = "f(h := remove1 sl (f h))"
  have r1: "rings ?l ?H ?f" and n1: "ring_nodes ?H ?f = ring_nodes ?H f - {sl}" by (rule rings_del [OF r h sl])+
  have d1: "dlist ?l q ns"
    using dlist_del_other [OF rings_dlist [OF r h] sl] ring_apart [OF q(2) h] q(1) by (metis inf_commute)
  have slin: "sl \<in> ring_nodes ?H f" using h sl by (auto simp: ring_nodes_def)
  have d2: "dlist (list_add sl g ?l) q ns" if g: "g \<in> ?H" for g
  proof -
    have "set (q # ns) \<inter> (?H \<union> ring_nodes ?H ?f) = {}" using q(2) n1 by auto
    then have "set (g # ?f g) \<inter> set (q # ns) = {}" using ring_apart [OF _ g] by (metis inf_commute)
    moreover have "sl \<notin> set (q # ns)" using q(2) slin by blast
    ultimately show ?thesis using dlist_add_other [OF rings_dlist [OF r1 g]] d1 by simp
  qed
  have "\<exists>g \<in> ?H. klinks (slab_put c sl x k) = list_add sl g ?l"
    by (auto simp: slab_put_def Let_def intro: bexI [of _ "slabs_empty c"] bexI [of _ "slabs_partial c"])
  then show ?thesis using d2 by auto
qed

lemma slab_inv_links:
  assumes "cache_inv k c f fl" and "\<And>h. h \<in> slab_heads c \<Longrightarrow> dlist l h (f h)"
  shows "cache_inv (k\<lparr>klinks := l\<rparr>) c f fl"
  using assms by (auto simp: cache_inv_def rings_def)

lemma kill_unlink_found:
  assumes inv: "proc_inv s ps f fl" and n: "n \<noteq> 0" and p: "find (\<lambda>p. pid (procs s p) = n) ps = Some p"
  obtains k where "kill_unlink n s = Some (p, s\<lparr>km := k\<rparr>)" "p \<in> set ps"
    "dlist (klinks k) (ready_queue s) (map pnode (remove1 p ps))"
    "free_post (km s) (process_cache s) f fl p k" "lnext (klinks k) (pnode p) = 0"
proof -
  let ?c = "process_cache s" and ?q = "ready_queue s"
  let ?H = "slab_heads ?c"
  have q: "queue_inv s ps" and ci: "cache_inv (km s) ?c f fl" and st: "store_inv (km s) ?c (ring_nodes ?H f)"
    and al: "set ps \<subseteq> allocated (km s) ?c f fl"
    and ap: "set (?q # map pnode ps) \<inter> (?H \<union> ring_nodes ?H f) = {}"
    using inv by (simp_all add: proc_inv_def)
  have d: "dlist (plinks s) ?q (map pnode ps)" using q by (simp add: queue_inv_def)
  have pin: "p \<in> set ps" by (rule find_mem [OF p])
  have p0: "p \<noteq> 0" using q pin by (auto simp: queue_inv_def)
  have ne: "\<not> list_empty ?q (plinks s)" using dlist_empty_iff [OF d] pin by auto
  have search: "list_search (\<lambda>x. pid (procs s (node_process x)) = n) ?q (lnext (plinks s) ?q) (plinks s) = Some (Some (pnode p))"
    unfolding list_search_dlist [OF d] find_pnode using p by simp
  let ?l = "list_del (pnode p) (plinks s)"
  let ?k1 = "(km s)\<lparr>klinks := ?l\<rparr>"
  have pn: "pnode p \<in> set (map pnode ps)" using pin by simp
  have apn: "set (?q # map pnode ps) \<inter> set (h # f h) = {}" if "h \<in> ?H" for h by (rule ring_apart [OF ap that])
  have ci1: "cache_inv ?k1 ?c f fl"
  proof (rule slab_inv_links [OF ci])
    fix h assume h: "h \<in> ?H"
    show "dlist ?l h (f h)"
      using dlist_del_other [OF d pn apn [OF h]] rings_dlist [OF cache_invD(3) [OF ci] h] by simp
  qed
  have st1: "store_inv ?k1 ?c (ring_nodes ?H f)" using st by (simp add: store_inv_def)
  have al1: "allocated ?k1 ?c f fl = allocated (km s) ?c f fl" by (simp add: allocated_def)
  have "p \<in> allocated ?k1 ?c f fl" using al pin unfolding al1 by blast
  from kmem_cache_free_object [OF ci1 this]
  obtain h sl where fr: "kmem_cache_free ?c p ?k1 = Some (slab_put ?c sl p ?k1)" "h \<in> ?H" "sl \<in> set (f h)"
    "p \<in> objs (page_of ?k1 sl) (osize ?k1 ?c)" "p \<notin> set (fl sl)" .
  let ?k = "slab_put ?c sl p ?k1"
  have post: "free_post ?k1 ?c f fl p ?k" by (rule slab_put_post [OF ci1 st1 fr(2-5)])
  have post': "free_post (km s) ?c f fl p ?k" using post unfolding free_post_def al1 by simp
  have dis: "distinct ps" by (rule queue_distinct [OF q])
  have "remove1 (pnode p) (map pnode ps) = map pnode (remove1 p ps)" by (induction ps) auto
  then have d1: "dlist ?l ?q (map pnode (remove1 p ps))" using dlist_del_remove1 [OF d pn] by simp
  have sub: "set (?q # map pnode (remove1 p ps)) \<subseteq> set (?q # map pnode ps)" using set_remove1_subset by fastforce
  have d2: "dlist (klinks ?k) ?q (map pnode (remove1 p ps))"
  proof (rule slab_put_other_ring [OF ci1 fr(2-5)])
    show "dlist (klinks ?k1) ?q (map pnode (remove1 p ps))" using d1 by simp
    show "set (?q # map pnode (remove1 p ps)) \<inter> (?H \<union> ring_nodes ?H f) = {}" using ap sub by blast
  qed
  have apart: "pnode p \<notin> ?H \<union> ring_nodes ?H f" using ap pn by auto
  have nodes: "sl \<in> ring_nodes ?H f" using fr(2,3) by (auto simp: ring_nodes_def)
  have keep: "lnext (klinks ?k) (pnode p) = 0"
  proof -
    have r: "rings ?l ?H f" using cache_invD(3) [OF ci1] by simp
    note del = rings_del [OF r fr(2,3)]
    have z: "lnext ?l (pnode p) = 0" by (rule list_del_poisons(1))
    have z1: "lnext (list_del sl ?l) (pnode p) = 0"
    proof -
      obtain ys zs where s: "f h = ys @ sl # zs" using fr(3) by (metis split_list)
      have "dlist ?l h (ys @ sl # zs)" using rings_dlist [OF r fr(2)] s by simp
      moreover have "pnode p \<notin> set (h # ys @ sl # zs)" using apart fr(2) s by (auto simp: ring_nodes_def)
      ultimately show ?thesis using list_del_frame(1) z by metis
    qed
    have z2: "lnext (list_add sl g (list_del sl ?l)) (pnode p) = 0" if g: "g \<in> ?H" for g
    proof -
      have "pnode p \<notin> set (g # (f(h := remove1 sl (f h))) g)"
      proof -
        have "pnode p \<notin> set (g # f g)" using apart g by (auto simp: ring_nodes_def)
        moreover have "set ((f(h := remove1 sl (f h))) g) \<subseteq> set (f g)" by (cases "g = h") (simp_all add: set_remove1_subset)
        ultimately show ?thesis by auto
      qed
      moreover have "pnode p \<noteq> sl" using apart nodes by auto
      ultimately show ?thesis using list_add_frame(1) [OF rings_dlist [OF del(1) g]] z1 by metis
    qed
    have "\<exists>g \<in> ?H. klinks ?k = list_add sl g (list_del sl ?l)"
      by (auto simp: slab_put_def Let_def intro: bexI [of _ "slabs_empty ?c"] bexI [of _ "slabs_partial ?c"])
    then show ?thesis using z2 by auto
  qed
  have "kill_unlink n s = Some (p, s\<lparr>km := ?k\<rparr>)"
    using n ne search fr(1) by (simp add: kill_unlink_def set_links_def Let_def)
  then show ?thesis using that pin d2 post' keep by blast
qed

text \<open>C20: \<^verbatim>\<open>process_kill\<close> refuses pid 0 and pids that are not in the queue, and changes nothing then.
  Else the first process of the queue with the pid leaves the queue and exactly its object is
  given back to the slab cache, the other objects keeping their contents. Another process
  than the current one is removed without rescheduling; after removing the current one the
  scheduler is entered with \<^verbatim>\<open>current_process\<close> still pointing to the released object, whose
  next link is NULL.\<close>

theorem process_kill_removes:
  assumes "proc_inv s ps f fl"
  shows "if n = 0 then process_kill n s = Some (False, Returned, s)
    else (case find (\<lambda>p. pid (procs s p) = n) ps of
        None \<Rightarrow> process_kill n s = Some (False, Returned, s)
      | Some p \<Rightarrow> \<exists>k. dlist (klinks k) (ready_queue s) (map pnode (remove1 p ps))
          \<and> free_post (km s) (process_cache s) f fl p k
          \<and> (if p = current_process s
             then lnext (klinks k) (pnode p) = 0
               \<and> process_kill n s = Option.bind (schedule (s\<lparr>km := k\<rparr>)) (\<lambda>(r, s2). Some (True, r, s2))
             else process_kill n s = Some (True, Returned, s\<lparr>km := k\<rparr>)))"
proof (cases "n = 0")
  case True
  then show ?thesis by (simp add: process_kill_def kill_unlink_def)
next
  case n: False
  have d: "dlist (plinks s) (ready_queue s) (map pnode ps)" and z: "0 \<notin> set ps"
    using assms by (simp_all add: proc_inv_def queue_inv_def)
  show ?thesis
  proof (cases "find (\<lambda>p. pid (procs s p) = n) ps")
    case None
    have "list_search (\<lambda>x. pid (procs s (node_process x)) = n) (ready_queue s) (lnext (plinks s) (ready_queue s)) (plinks s) = Some None"
      unfolding list_search_dlist [OF d] find_pnode using None by simp
    then have "process_kill n s = Some (False, Returned, s)"
      by (simp add: process_kill_def kill_unlink_def)
    then show ?thesis using n None by simp
  next
    case (Some p)
    obtain k where k: "kill_unlink n s = Some (p, s\<lparr>km := k\<rparr>)" "p \<in> set ps"
      "dlist (klinks k) (ready_queue s) (map pnode (remove1 p ps))"
      "free_post (km s) (process_cache s) f fl p k" "lnext (klinks k) (pnode p) = 0"
      using kill_unlink_found [OF assms n Some] .
    have p0: "p \<noteq> 0" using k(2) z by auto
    have "process_kill n s = (if p = current_process s
        then Option.bind (schedule (s\<lparr>km := k\<rparr>)) (\<lambda>(r, s2). Some (True, r, s2)) else Some (True, Returned, s\<lparr>km := k\<rparr>))"
      using k(1) p0 by (simp add: process_kill_def)
    then show ?thesis using n Some k(3-5) by auto
  qed
qed

lemma arena_nodes:
  assumes "store_inv k c (sls)" and "x \<in> slab_heads c \<union> sls"
  shows "ARENA_START \<le> unat x \<and> unat x \<le> ARENA_END"
proof -
  obtain bs where st: "heap_inv (kheap_of k) bs" "\<exists>j \<ge> 88. (unat c, j) \<in> live ARENA_START bs"
    "\<forall>sl \<in> sls. \<exists>j \<ge> 24. (unat sl, j) \<in> live ARENA_START bs"
    using assms(1) unfolding store_inv_def by blast
  obtain j where j: "88 \<le> j" "(unat c, j) \<in> live ARENA_START bs" using st(2) by blast
  note cr = heap_live_range [OF st(1) j(2)]
  show ?thesis
  proof (cases "x \<in> slab_heads c")
    case True
    then show ?thesis using cr j(1) cache_offset_unat [of c j] by (auto simp: slab_heads_def)
  next
    case False
    then obtain i where "(unat x, i) \<in> live ARENA_START bs" using st(3) assms(2) by blast
    from heap_live_range [OF st(1) this] show ?thesis by linarith
  qed
qed

lemma fresh_slab_object:
  assumes "kmem_cache_alloc c k = Some (p, k')" and "p \<noteq> 0"
    and "list_empty (slabs_partial c) (klinks k)" and "list_empty (slabs_empty c) (klinks k)"
  shows "p = fst (pmm_alloc_block (kpmm k))"
  using assms
  by (auto simp: kmem_cache_alloc_def slab_create_def slab_take_def Let_def put_slab_def put_cache_def
      split: if_splits bind_splits prod.splits)

text \<open>A cache with one object handed out, and the queue that holds the process in it.\<close>

lemma boot_process:
  obtains c k p f fl where "cache_inv k c f fl" "store_inv k c (ring_nodes (slab_heads c) f)" "p \<in> allocated k c f fl"
    "0x400000 \<le> unat p" "unat p < 0xFFFFFFF0"
proof -
  obtain c s where c: "kmem_cache_create (lit ''obj'') 32 0 0 (boot_kmem (\<lambda>_. 0)) = Some (c, s)"
    "cache_inv s c (\<lambda>_. []) (\<lambda>_. [])" "store_inv s c (ring_nodes (slab_heads c) (\<lambda>_. []))"
    using boot_cache by (auto simp: ring_nodes_def)
  have c0: "c \<noteq> 0" using c(2) by (simp add: cache_inv_def)
  note bs = boot_cache_store [OF c(1) c0]
  have emp: "list_empty h (klinks s)" if "h \<in> slab_heads c" for h
    using dlist_empty_iff [OF rings_dlist [OF cache_invD(3) [OF c(2)] that]] by simp
  from c(2,3) show ?thesis
  proof (cases rule: kmem_cache_alloc_cases)
    case (null h)
    then show ?thesis using bs by simp
  next
    case (obj p t)
    then obtain f' fl' where t: "cache_inv t c f' fl'" "store_inv t c (ring_nodes (slab_heads c) f')" "p \<noteq> 0"
      "p \<in> allocated t c f' fl'" unfolding alloc_post_def by blast
    have pe: "p = fst (pmm_alloc_block boot_pmm)"
      using fresh_slab_object [OF obj(1) t(3)] emp bs(2) by simp
    obtain P p' where P: "pmm_alloc_block boot_pmm = (P, p')" "P \<noteq> 0" "4096 dvd unat P" "0x400000 \<le> unat P"
      using boot_page .
    then have "0x400000 \<le> unat p" using pe by simp
    moreover have "unat p < 0xFFFFFFF0"
    proof -
      obtain j where "unat p = 4096 * j" using P pe by (auto elim: dvdE)
      then show ?thesis using unat_lt_two_power_32 [of p] by simp
    qed
    ultimately show ?thesis using that t by blast
  qed
qed

lemma boot_proc_inv:
  "\<exists>s p f fl. proc_inv s [p] f fl \<and> pid (procs s p) = 7 \<and> p \<noteq> current_process s"
proof -
  obtain c k p f fl where k: "cache_inv k c f fl" "store_inv k c (ring_nodes (slab_heads c) f)" "p \<in> allocated k c f fl"
    "0x400000 \<le> unat p" "unat p < 0xFFFFFFF0" using boot_process .
  let ?H = "slab_heads c"
  have pn: "unat (pnode p) = unat p + 16" using k(5) by (subst unat_add_u32) simp_all
  have apart: "{0x1000, pnode p} \<inter> (?H \<union> ring_nodes ?H f) = {}"
  proof -
    have "x \<noteq> 0x1000 \<and> x \<noteq> pnode p" if "x \<in> ?H \<union> ring_nodes ?H f" for x
      using arena_nodes [OF k(2) that] pn k(4) by auto
    then show ?thesis by blast
  qed
  have nz: "pnode p \<noteq> 0" "pnode p \<noteq> 0x1000" using pn k(4) by auto
  let ?initq = "init_list_head 0x1000 (klinks k)"
  let ?initn = "init_list_head (pnode p) ?initq"
  let ?lnk = "list_add_tail (pnode p) 0x1000 ?initn"
  have d0: "dlist ?initq 0x1000 []" by (rule dlist_init) simp
  then have d1: "dlist ?initn 0x1000 []" using nz by (subst dlist_init_other) auto
  have d: "dlist ?lnk 0x1000 [pnode p]" using dlist_add_tail [OF d1 _ nz(1)] nz(2) by simp
  have rest: "dlist ?lnk h (f h)" if h: "h \<in> ?H" for h
  proof -
    have o: "0x1000 \<notin> set (h # f h)" "pnode p \<notin> set (h # f h)" using apart h by (auto simp: ring_nodes_def)
    have "dlist ?initn h (f h)"
      using rings_dlist [OF cache_invD(3) [OF k(1)] h] o by (simp add: dlist_init_other)
    then show ?thesis using dlist_add_tail_other [OF d1 _ o(2)] o by simp
  qed
  define k' where "k' = k\<lparr>klinks := ?lnk\<rparr>"
  define s where "s = two_procs\<lparr>km := k', process_cache := c, ready_queue := 0x1000, current_process := 0,
     procs := (\<lambda>_. zero_process\<lparr>pid := 7\<rparr>)\<rparr>"
  have "cache_inv k' c f fl" unfolding k'_def by (rule slab_inv_links [OF k(1)]) (rule rest)
  moreover have "store_inv k' c (ring_nodes ?H f)" using k(2) by (simp add: k'_def store_inv_def)
  moreover have "p \<in> allocated k' c f fl" using k(3) by (simp add: k'_def allocated_def)
  moreover have p0: "p \<noteq> 0" using k(4) by auto
  ultimately have "proc_inv s [p] f fl"
    using d apart by (simp add: proc_inv_def queue_inv_def s_def k'_def)
  then show ?thesis using p0 by (intro exI conjI) (auto simp: s_def)
qed

theorem process_kill_removes_witness:
  "\<exists>s p s'. process_kill 7 s = Some (True, Returned, s') \<and> dlist (plinks s') (ready_queue s') []
    \<and> queue_inv s [p]"
proof -
  obtain s p f fl where s: "proc_inv s [p] f fl" "pid (procs s p) = 7" "p \<noteq> current_process s" using boot_proc_inv by blast
  then have "queue_inv s [p]" by (simp add: proc_inv_def)
  then show ?thesis using process_kill_removes [OF s(1), of 7] s(2,3) by fastforce
qed

end
