(* ===== verification/Fat12.thy ===== *)
theory Fat12
  imports CString
begin

text \<open>
  The FAT12 file system on the ramdisk, \<^verbatim>\<open>fs/fat12.c\<close>. The disk is the byte memory itself: the
  sectors follow one another from \<^verbatim>\<open>RAMDISK_START\<close>, and directory entries are read and written
  through their addresses. File names are the bytes of the C string before its NUL. Loops
  over a cluster chain are \<open>partial_function (option)\<close>: None is a chain that never ends.
\<close>

section \<open>Layout\<close>

abbreviation RAMDISK_START :: u32 where "RAMDISK_START \<equiv> 0x10000"
abbreviation BOOT_SECTOR :: u32 where "BOOT_SECTOR \<equiv> 0x7C00"
abbreviation SECTOR_SIZE :: u32 where "SECTOR_SIZE \<equiv> 512"
abbreviation SECTORS_PER_FAT :: u32 where "SECTORS_PER_FAT \<equiv> 9"
abbreviation FAT_START :: u32 where "FAT_START \<equiv> 200"
abbreviation ROOT_DIR_START :: u32 where "ROOT_DIR_START \<equiv> 218"
abbreviation ROOT_DIR_SECTORS :: nat where "ROOT_DIR_SECTORS \<equiv> 14"
abbreviation DATA_START :: u32 where "DATA_START \<equiv> 232"
abbreviation TOTAL_CLUSTERS :: nat where "TOTAL_CLUSTERS \<equiv> 4080"

datatype fat12_error =
    FAT12_SUCCESS | FAT12_NOT_FOUND | FAT12_DISK_FULL | FAT12_INVALID_NAME
  | FAT12_ALREADY_EXISTS | FAT12_IO_ERROR | FAT12_NOT_A_FILE | FAT12_NOT_A_DIR

abbreviation ATTR_HIDDEN :: u8 where "ATTR_HIDDEN \<equiv> 0x02"
abbreviation ATTR_VOLUME_ID :: u8 where "ATTR_VOLUME_ID \<equiv> 0x08"
abbreviation ATTR_DIRECTORY :: u8 where "ATTR_DIRECTORY \<equiv> 0x10"
abbreviation ATTR_ARCHIVE :: u8 where "ATTR_ARCHIVE \<equiv> 0x20"

text \<open>The fields of a directory entry by their offsets.\<close>

abbreviation attributes :: "mem \<Rightarrow> ptr \<Rightarrow> u8" where "attributes m e \<equiv> m (e + 11)"
abbreviation first_cluster_low :: "mem \<Rightarrow> ptr \<Rightarrow> u16" where "first_cluster_low m e \<equiv> load16 m (e + 26)"
abbreviation file_size :: "mem \<Rightarrow> ptr \<Rightarrow> u32" where "file_size m e \<equiv> load32 m (e + 28)"

definition get_sector_ptr :: "u32 \<Rightarrow> ptr" where
  "get_sector_ptr lba = (if lba = 0 then BOOT_SECTOR else RAMDISK_START + (lba - 1) * SECTOR_SIZE)"

section \<open>Names and directory entries\<close>

definition to_upper :: "u8 \<Rightarrow> u8" where
  "to_upper c = (if 97 \<le> c \<and> c \<le> 122 then c - 32 else c)"

text \<open>The two loops of \<^verbatim>\<open>fat12_parse_filename\<close>: up to a dot into the first eight places, then into
  the last three; None is \<^verbatim>\<open>FAT12_INVALID_NAME\<close>. A byte 46 is a dot.\<close>

fun parse_base :: "u8 list \<Rightarrow> nat \<Rightarrow> u8 list \<Rightarrow> (u8 list \<times> u8 list) option" where
  "parse_base [] j name = Some ([], name)"
| "parse_base (c # cs) j name =
     (if c = 46 then Some (c # cs, name)
      else if j \<ge> 8 then None
      else parse_base cs (j + 1) (name[j := to_upper c]))"

fun parse_ext :: "u8 list \<Rightarrow> nat \<Rightarrow> u8 list \<Rightarrow> u8 list option" where
  "parse_ext [] j name = Some name"
| "parse_ext (c # cs) j name = (if j \<ge> 11 then None else parse_ext cs (j + 1) (name[j := to_upper c]))"

definition fat12_parse_filename :: "u8 list \<Rightarrow> u8 list option" where
  "fat12_parse_filename filename =
     Option.bind (parse_base filename 0 (replicate 11 32)) (\<lambda>(rest, name).
       case rest of [] \<Rightarrow> Some name | _ # ext \<Rightarrow> parse_ext ext 8 name)"

text \<open>The entries of the root directory in the order of the two nested loops.\<close>

definition root_entries :: "ptr list" where
  "root_entries = concat (map (\<lambda>i. map (\<lambda>k. get_sector_ptr (ROOT_DIR_START + of_nat i) + of_nat k * 32) [0..<16])
     [0..<ROOT_DIR_SECTORS])"

definition entry_name :: "mem \<Rightarrow> ptr \<Rightarrow> u8 list" where
  "entry_name m e = map (\<lambda>i. m (e + of_nat i)) [0..<11]"

fun find_entry :: "mem \<Rightarrow> u8 list \<Rightarrow> ptr list \<Rightarrow> ptr option" where
  "find_entry m name [] = None"
| "find_entry m name (e # es) =
     (if m e = 0 then None
      else if m e = 0xE5 then find_entry m name es
      else if entry_name m e = name then Some e
      else find_entry m name es)"

definition fat12_find_file :: "u8 list \<Rightarrow> mem \<Rightarrow> ptr option" where
  "fat12_find_file filename m =
     (case fat12_parse_filename filename of None \<Rightarrow> None | Some name \<Rightarrow> find_entry m name root_entries)"

definition fat12_find_free_root_entry :: "mem \<Rightarrow> ptr option" where
  "fat12_find_free_root_entry m = find (\<lambda>e. m e = 0 \<or> m e = 0xE5) root_entries"

section \<open>The allocation table\<close>

definition fat_offset :: "u16 \<Rightarrow> u32" where
  "fat_offset cluster = ucast cluster + ucast (cluster div 2)"

definition fat12_get_fat_entry :: "mem \<Rightarrow> u16 \<Rightarrow> u16" where
  "fat12_get_fat_entry m cluster =
     (let val = load16 m (get_sector_ptr FAT_START + fat_offset cluster)
      in if cluster AND 1 \<noteq> 0 then drop_bit 4 val else val AND 0xFFF)"

definition fat12_set_fat_entry :: "u16 \<Rightarrow> u16 \<Rightarrow> mem \<Rightarrow> mem" where
  "fat12_set_fat_entry cluster v m =
     (let fat1 = get_sector_ptr FAT_START; off = fat_offset cluster;
          m1 = (if cluster AND 1 \<noteq> 0
                then m(fat1 + off := (m (fat1 + off) AND 0x0F) OR (ucast (push_bit 4 v) AND 0xF0),
                       fat1 + (off + 1) := ucast (drop_bit 4 v AND 0xFF))
                else m(fat1 + off := ucast (v AND 0xFF),
                       fat1 + (off + 1) := (m (fat1 + (off + 1)) AND 0xF0) OR (ucast (drop_bit 8 v AND 0x0F))));
          fat2 = get_sector_ptr (FAT_START + SECTORS_PER_FAT);
          m2 = m1(fat2 + off := m1 (fat1 + off))
      in m2(fat2 + (off + 1) := m2 (fat1 + (off + 1))))"

definition fat12_find_free_cluster :: "mem \<Rightarrow> u16" where
  "fat12_find_free_cluster m =
     (case find (\<lambda>i. fat12_get_fat_entry m (of_nat i) = 0) [2..<TOTAL_CLUSTERS] of
        Some i \<Rightarrow> of_nat i | None \<Rightarrow> 0xFFFF)"

partial_function (option) fat12_free_cluster_chain :: "u16 \<Rightarrow> mem \<Rightarrow> mem option" where
  "fat12_free_cluster_chain cluster m =
     (if 2 \<le> cluster \<and> cluster < 0xFF8
      then fat12_free_cluster_chain (fat12_get_fat_entry m cluster) (fat12_set_fat_entry cluster 0 m)
      else Some m)"

definition cluster_ptr :: "u16 \<Rightarrow> ptr" where
  "cluster_ptr cluster = get_sector_ptr (DATA_START + (ucast cluster - 2))"

section \<open>File operations\<close>

partial_function (option) read_chain :: "ptr \<Rightarrow> u16 \<Rightarrow> mem \<Rightarrow> mem option" where
  "read_chain dest cluster m =
     (if 2 \<le> cluster \<and> cluster < 0xFF8
      then let m1 = memcpy dest (cluster_ptr cluster) SECTOR_SIZE m
           in read_chain (dest + SECTOR_SIZE) (fat12_get_fat_entry m1 cluster) m1
      else Some m)"

definition fat12_read_file :: "u8 list \<Rightarrow> ptr \<Rightarrow> mem \<Rightarrow> ((fat12_error + int) \<times> mem) option" where
  "fat12_read_file filename buffer m =
     (case fat12_find_file filename m of
        None \<Rightarrow> Some (Inl FAT12_NOT_FOUND, m)
      | Some e \<Rightarrow>
          if attributes m e = ATTR_DIRECTORY then Some (Inl FAT12_NOT_A_FILE, m)
          else Option.bind (read_chain buffer (first_cluster_low m e) m) (\<lambda>m1.
            Some (Inr (sint (file_size m1 e)), m1)))"

text \<open>A cleared entry with its name in place.\<close>

definition init_entry :: "ptr \<Rightarrow> u8 list \<Rightarrow> mem \<Rightarrow> mem" where
  "init_entry e name m =
     fold (\<lambda>i m. m(e + of_nat i := name ! i)) [0..<11] (memset e 0 32 m)"

definition fat12_create_file :: "u8 list \<Rightarrow> mem \<Rightarrow> fat12_error \<times> mem" where
  "fat12_create_file filename m =
     (if fat12_find_file filename m \<noteq> None then (FAT12_ALREADY_EXISTS, m)
      else case fat12_find_free_root_entry m of
        None \<Rightarrow> (FAT12_DISK_FULL, m)
      | Some e \<Rightarrow> (case fat12_parse_filename filename of
          None \<Rightarrow> (FAT12_INVALID_NAME, m)
        | Some name \<Rightarrow>
            (FAT12_SUCCESS, store16 (e + 26) 0 (store32 (e + 28) 0 ((init_entry e name m)(e + 11 := ATTR_ARCHIVE))))))"

text \<open>One sector of data, padded with zeros.\<close>

definition write_sector :: "u16 \<Rightarrow> ptr \<Rightarrow> u32 \<Rightarrow> mem \<Rightarrow> mem" where
  "write_sector cluster src chunk m =
     (let m1 = memcpy (cluster_ptr cluster) src chunk m
      in if chunk < SECTOR_SIZE then memset (cluster_ptr cluster + chunk) 0 (SECTOR_SIZE - chunk) m1 else m1)"

definition chunk_of :: "u32 \<Rightarrow> u32" where
  "chunk_of left = (if left > SECTOR_SIZE then SECTOR_SIZE else left)"

partial_function (option) write_loop ::
  "ptr \<Rightarrow> ptr \<Rightarrow> u32 \<Rightarrow> u32 \<Rightarrow> u16 \<Rightarrow> mem \<Rightarrow> (fat12_error \<times> mem) option" where
  "write_loop found data len written cur m =
     (if written < len then
        let chunk = chunk_of (len - written);
            m1 = write_sector cur (data + written) chunk m;
            w = written + chunk
        in if w < len then
             let new = fat12_find_free_cluster m1
             in if new = 0xFFFF then Some (FAT12_DISK_FULL, store32 (found + 28) w m1)
                else write_loop found data len w new (fat12_set_fat_entry new 0xFFF (fat12_set_fat_entry cur new m1))
           else write_loop found data len w cur m1
      else Some (FAT12_SUCCESS, store32 (found + 28) written m))"

definition fat12_write_file :: "u8 list \<Rightarrow> ptr \<Rightarrow> u32 \<Rightarrow> mem \<Rightarrow> (fat12_error \<times> mem) option" where
  "fat12_write_file filename data len m =
     (case fat12_find_file filename m of
        None \<Rightarrow> Some (FAT12_NOT_FOUND, m)
      | Some e \<Rightarrow>
          if attributes m e = ATTR_DIRECTORY then Some (FAT12_NOT_A_FILE, m)
          else Option.bind
            (if 2 \<le> first_cluster_low m e
             then Option.bind (fat12_free_cluster_chain (first_cluster_low m e) m) (\<lambda>m1. Some (store16 (e + 26) 0 m1))
             else Some m)
            (\<lambda>m2. if len = 0 then Some (FAT12_SUCCESS, store32 (e + 28) 0 m2)
                  else let c = fat12_find_free_cluster m2
                       in if c = 0xFFFF then Some (FAT12_DISK_FULL, m2)
                          else write_loop e data len 0 c (fat12_set_fat_entry c 0xFFF (store16 (e + 26) c m2))))"

partial_function (option) last_cluster :: "u16 \<Rightarrow> u16 \<Rightarrow> mem \<Rightarrow> u16 option" where
  "last_cluster prev cluster m =
     (if 2 \<le> cluster \<and> cluster < 0xFF8 then last_cluster cluster (fat12_get_fat_entry m cluster) m else Some prev)"

partial_function (option) append_loop ::
  "ptr \<Rightarrow> ptr \<Rightarrow> u32 \<Rightarrow> u32 \<Rightarrow> u16 \<Rightarrow> mem \<Rightarrow> (fat12_error \<times> mem) option" where
  "append_loop found data len written cur m =
     (if written < len then
        let new = fat12_find_free_cluster m
        in if new = 0xFFFF then Some (FAT12_DISK_FULL, m)
           else let m1 = fat12_set_fat_entry new 0xFFF (fat12_set_fat_entry cur new m);
                    chunk = chunk_of (len - written)
                in append_loop found data len (written + chunk) new (write_sector new (data + written) chunk m1)
      else Some (FAT12_SUCCESS, store32 (found + 28) (file_size m found + written) m))"

definition fat12_append_file :: "u8 list \<Rightarrow> ptr \<Rightarrow> u32 \<Rightarrow> mem \<Rightarrow> (fat12_error \<times> mem) option" where
  "fat12_append_file filename data len m =
     (case fat12_find_file filename m of
        None \<Rightarrow> Some (FAT12_NOT_FOUND, m)
      | Some e \<Rightarrow>
          if attributes m e = ATTR_DIRECTORY then Some (FAT12_NOT_A_FILE, m)
          else let cluster = first_cluster_low m e
               in if cluster < 2 then fat12_write_file filename data len m
                  else Option.bind (last_cluster cluster cluster m) (\<lambda>c. append_loop e data len 0 c m))"

definition fat12_delete_file :: "u8 list \<Rightarrow> mem \<Rightarrow> (fat12_error \<times> mem) option" where
  "fat12_delete_file filename m =
     (case fat12_find_file filename m of
        None \<Rightarrow> Some (FAT12_NOT_FOUND, m)
      | Some e \<Rightarrow>
          if attributes m e = ATTR_DIRECTORY then Some (FAT12_NOT_A_DIR, m)
          else Option.bind
            (if 2 \<le> first_cluster_low m e then fat12_free_cluster_chain (first_cluster_low m e) m else Some m)
            (\<lambda>m1. Some (FAT12_SUCCESS, m1(e := 0xE5))))"

definition fat12_get_file_size :: "u8 list \<Rightarrow> mem \<Rightarrow> fat12_error + int" where
  "fat12_get_file_size filename m =
     (case fat12_find_file filename m of
        None \<Rightarrow> Inl FAT12_NOT_FOUND
      | Some e \<Rightarrow> if attributes m e = ATTR_DIRECTORY then Inl FAT12_NOT_A_FILE else Inr (sint (file_size m e)))"

definition fat12_file_exists :: "u8 list \<Rightarrow> mem \<Rightarrow> bool" where
  "fat12_file_exists filename m \<longleftrightarrow> fat12_find_file filename m \<noteq> None"

definition fat12_get_free_space :: "mem \<Rightarrow> u32" where
  "fat12_get_free_space m =
     of_nat (length (filter (\<lambda>i. fat12_get_fat_entry m (of_nat i) = 0) [2..<TOTAL_CLUSTERS])) * SECTOR_SIZE"

definition fat12_get_total_space :: u32 where
  "fat12_get_total_space = of_nat TOTAL_CLUSTERS * SECTOR_SIZE"

definition fat12_get_error_string :: "fat12_error \<Rightarrow> u8 list" where
  "fat12_get_error_string err =
     (case err of
        FAT12_SUCCESS \<Rightarrow> lit ''Success''
      | FAT12_NOT_FOUND \<Rightarrow> lit ''File not found''
      | FAT12_DISK_FULL \<Rightarrow> lit ''Disk full''
      | FAT12_INVALID_NAME \<Rightarrow> lit ''Invalid filename''
      | FAT12_ALREADY_EXISTS \<Rightarrow> lit ''File already exists''
      | FAT12_IO_ERROR \<Rightarrow> lit ''I/O error''
      | FAT12_NOT_A_FILE \<Rightarrow> lit ''Not a file''
      | FAT12_NOT_A_DIR \<Rightarrow> lit ''Not a directory'')"

section \<open>Directories\<close>

text \<open>The name \<^verbatim>\<open>fat12_list_directory\<close> prints for an entry, and the lines of the listing.\<close>

definition listed_name :: "mem \<Rightarrow> ptr \<Rightarrow> u8 list" where
  "listed_name m e =
     (let base = takeWhile (\<lambda>c. c \<noteq> 32) (take 8 (entry_name m e))
      in if attributes m e \<noteq> ATTR_DIRECTORY
         then base @ [46] @ takeWhile (\<lambda>c. c \<noteq> 32) (drop 8 (entry_name m e))
         else base)"

fun list_entries :: "mem \<Rightarrow> ptr list \<Rightarrow> u8 list" where
  "list_entries m [] = []"
| "list_entries m (e # es) =
     (if m e = 0 then []
      else if m e = 0xE5 then list_entries m es
      else if attributes m e \<noteq> ATTR_VOLUME_ID \<and> attributes m e \<noteq> ATTR_HIDDEN
      then lit '' - '' @ takeWhile (\<lambda>c. c \<noteq> 0) (listed_name m e)
             @ (if attributes m e = ATTR_DIRECTORY then [47] else []) @ [10] @ list_entries m es
      else list_entries m es)"

definition fat12_list_directory :: "mem \<Rightarrow> u8 list" where
  "fat12_list_directory m = lit ''Files on Ramdisk:'' @ [10] @ list_entries m root_entries"

record cwd =
  current_dir_cluster :: u16
  current_path :: "u8 list"

definition fat12_get_current_directory :: "cwd \<Rightarrow> u8 list" where
  "fat12_get_current_directory d = current_path d"

definition fat12_change_directory :: "u8 list \<Rightarrow> mem \<Rightarrow> cwd \<Rightarrow> fat12_error \<times> cwd" where
  "fat12_change_directory path m d =
     (if path = [47] then (FAT12_SUCCESS, d\<lparr>current_dir_cluster := 0, current_path := [47]\<rparr>)
      else if path = [46] then (FAT12_SUCCESS, d)
      else if path = [46, 46] then
        (if current_dir_cluster d = 0 then (FAT12_SUCCESS, d)
         else (FAT12_SUCCESS, d\<lparr>current_dir_cluster := 0, current_path := [47]\<rparr>))
      else case fat12_find_file path m of
        None \<Rightarrow> (FAT12_NOT_FOUND, d)
      | Some e \<Rightarrow>
          if attributes m e AND ATTR_DIRECTORY = 0 then (FAT12_NOT_A_DIR, d)
          else let p = (if last (current_path d) \<noteq> 47 then current_path d @ [47] else current_path d)
               in (FAT12_SUCCESS, d\<lparr>current_dir_cluster := first_cluster_low m e, current_path := p @ path\<rparr>))"

definition fat12_create_directory :: "u8 list \<Rightarrow> cwd \<Rightarrow> mem \<Rightarrow> fat12_error \<times> mem" where
  "fat12_create_directory name d m =
     (if fat12_find_file name m \<noteq> None then (FAT12_ALREADY_EXISTS, m)
      else case fat12_find_free_root_entry m of
        None \<Rightarrow> (FAT12_DISK_FULL, m)
      | Some e \<Rightarrow> (case fat12_parse_filename name of
          None \<Rightarrow> (FAT12_INVALID_NAME, m)
        | Some fat_name \<Rightarrow>
            let c = fat12_find_free_cluster m in
            if c = 0xFFFF then (FAT12_DISK_FULL, m)
            else
              let m1 = fat12_set_fat_entry c 0xFFF m;
                  m2 = (init_entry e fat_name m1)(e + 11 := ATTR_DIRECTORY);
                  m3 = store32 (e + 28) 0 (store16 (e + 26) c m2);
                  p = cluster_ptr c;
                  m4 = memset p 0 SECTOR_SIZE m3;
                  m5 = store16 (p + 26) c ((init_entry p (46 # replicate 10 32) m4)(p + 11 := ATTR_DIRECTORY));
                  q = p + 32;
                  m6 = (init_entry q (46 # 46 # replicate 9 32) m5)(q + 11 := ATTR_DIRECTORY)
              in (FAT12_SUCCESS, store16 (q + 26) (current_dir_cluster d) m6)))"

section \<open>Table entries\<close>

text \<open>An entry from its two bytes.\<close>

definition entry_of :: "bool \<Rightarrow> u8 \<Rightarrow> u8 \<Rightarrow> u16" where
  "entry_of hi x y = (let val = ucast x OR push_bit 8 (ucast y) in if hi then drop_bit 4 val else val AND 0xFFF)"

lemma nibble_masks:
  "(0x0F :: u8) = mask 4" "(0xF0 :: u8) = push_bit 4 (mask 4)" "(0xFF :: u16) = mask 8" "(0xFFF :: u16) = mask 12"
  "(0x0F :: u16) = mask 4"
  by (simp_all add: mask_eq_exp_minus_1)

lemma entry_of_bits:
  "entry_of True ((x AND 0x0F) OR (ucast (push_bit 4 v) AND 0xF0)) (ucast (drop_bit 4 v AND 0xFF)) = v AND 0xFFF"
  "entry_of False (ucast (v AND 0xFF)) ((y AND 0xF0) OR ucast (drop_bit 8 v AND 0x0F)) = v AND 0xFFF"
  "entry_of True ((y AND 0xF0) OR ucast (drop_bit 8 v AND 0x0F)) z = entry_of True y z"
  "entry_of False w ((x AND 0x0F) OR (ucast (push_bit 4 v) AND 0xF0)) = entry_of False w x"
  for v :: u16
  unfolding nibble_masks entry_of_def Let_def
  by (rule bit_word_eqI, rename_tac n, case_tac "n < 4"; case_tac "n < 8"; auto simp: bit_simps not_less dest: bit_imp_le_length)+

abbreviation FAT1 :: u32 where "FAT1 \<equiv> 0x28E00"
abbreviation FAT2 :: u32 where "FAT2 \<equiv> 0x2A000"

lemma sector_addresses [simp]:
  "get_sector_ptr FAT_START = FAT1" "get_sector_ptr (FAT_START + SECTORS_PER_FAT) = FAT2"
  by (simp_all add: get_sector_ptr_def)

text \<open>The offset of a cluster's first byte, and the address of a byte of a table.\<close>

definition off :: "u16 \<Rightarrow> nat" where
  "off c = unat c + unat c div 2"

definition at :: "u32 \<Rightarrow> nat \<Rightarrow> u32" where
  "at base k = base + of_nat k"

lemma fat_offset_off: "fat_offset c = of_nat (off c)"
proof -
  have "unat (c div 2) = unat c div 2" by (simp add: unat_div)
  then have "ucast (c div 2) = (of_nat (unat c div 2) :: u32)" by (metis of_nat_unat)
  moreover have "ucast c = (of_nat (unat c) :: u32)" by (simp only: of_nat_unat)
  ultimately show ?thesis by (simp only: fat_offset_def off_def of_nat_add)
qed

lemma odd_bit: "c AND 1 \<noteq> 0 \<longleftrightarrow> odd (unat c)" for c :: u16
  proof -
  have "odd (unat c) \<longleftrightarrow> bit c 0" by (simp add: bit_unsigned_iff flip: bit_0)
  then show ?thesis by (simp add: bit_0 and_one_eq mod2_eq_if)
qed

lemma off_lt: "off c < 98304"
  using unsigned_less [of c, where 'a = nat] by (simp add: off_def)

lemma at_inj:
  assumes "i < 200000" "j < 200000" shows "at b i = at b j \<longleftrightarrow> i = j"
proof -
  have "at b i = at b j \<longleftrightarrow> (of_nat i :: u32) = of_nat j" by (simp only: at_def add_left_cancel)
  also have "\<dots> \<longleftrightarrow> i = j" unfolding word_unat_eq_iff using assms by (simp add: unat_of_nat_u32)
  finally show ?thesis .
qed

lemma at_cross: "i < 200000 \<Longrightarrow> j < 200000 \<Longrightarrow> at FAT2 i = at FAT1 j \<longleftrightarrow> i + 4608 = j"
  and at_cross': "i < 200000 \<Longrightarrow> j < 200000 \<Longrightarrow> at FAT1 j = at FAT2 i \<longleftrightarrow> i + 4608 = j"
proof -
  assume ij: "i < 200000" "j < 200000"
  have "unat (at FAT2 i) = 0x2A000 + i" "unat (at FAT1 j) = 0x28E00 + j"
    using ij by (simp_all add: at_def unat_add_u32 unat_of_nat_u32)
  then show "at FAT2 i = at FAT1 j \<longleftrightarrow> i + 4608 = j" "at FAT1 j = at FAT2 i \<longleftrightarrow> i + 4608 = j"
    by (auto simp: word_unat_eq_iff)
qed

definition new_lo :: "u16 \<Rightarrow> u16 \<Rightarrow> u8 \<Rightarrow> u8" where
  "new_lo c v x = (if odd (unat c) then (x AND 0x0F) OR (ucast (push_bit 4 v) AND 0xF0) else ucast (v AND 0xFF))"

definition new_hi :: "u16 \<Rightarrow> u16 \<Rightarrow> u8 \<Rightarrow> u8" where
  "new_hi c v y = (if odd (unat c) then ucast (drop_bit 4 v AND 0xFF) else (y AND 0xF0) OR ucast (drop_bit 8 v AND 0x0F))"

lemma get_bytes: "fat12_get_fat_entry m c = entry_of (odd (unat c)) (m (at FAT1 (off c))) (m (at FAT1 (Suc (off c))))"
  by (simp add: fat12_get_fat_entry_def entry_of_def load16_def odd_bit fat_offset_off at_def add_ac Let_def)

lemma set_bytes:
  "fat12_set_fat_entry c v m =
     m(at FAT1 (off c) := new_lo c v (m (at FAT1 (off c))), at FAT1 (Suc (off c)) := new_hi c v (m (at FAT1 (Suc (off c)))),
       at FAT2 (off c) := new_lo c v (m (at FAT1 (off c))), at FAT2 (Suc (off c)) := new_hi c v (m (at FAT1 (Suc (off c)))))"
proof -
  have o: "off c < 100000" using off_lt [of c] by simp
  have a: "FAT1 + fat_offset c = at FAT1 (off c)" "FAT1 + (fat_offset c + 1) = at FAT1 (Suc (off c))"
    "FAT2 + fat_offset c = at FAT2 (off c)" "FAT2 + (fat_offset c + 1) = at FAT2 (Suc (off c))"
    by (simp_all add: fat_offset_off at_def add_ac)
  show ?thesis
    unfolding fat12_set_fat_entry_def Let_def sector_addresses a
    using o by (simp add: new_lo_def new_hi_def odd_bit at_inj at_cross at_cross')
qed

text \<open>Entries whose bytes lie within the nine sectors of a table.\<close>

abbreviation FAT_ENTRIES :: nat where "FAT_ENTRIES \<equiv> 3072"

lemma off_small: "unat c < FAT_ENTRIES \<Longrightarrow> Suc (off c) < 4608"
  by (simp add: off_def)

lemma get_set_same: "unat c < FAT_ENTRIES \<Longrightarrow> fat12_get_fat_entry (fat12_set_fat_entry c v m) c = v AND 0xFFF"
  using off_small [of c]
  by (simp add: get_bytes set_bytes at_inj at_cross at_cross' new_lo_def new_hi_def entry_of_bits)

lemma offsets_mono: "a < b \<Longrightarrow> a + a div 2 < b + b div 2" for a b :: nat
  using div_le_mono [of a b 2] by simp

lemma offsets_nat:
  "b + b div 2 = Suc (a + a div 2) \<Longrightarrow> even a \<and> odd b" "a + a div 2 = b + b div 2 \<Longrightarrow> a = b" for a b :: nat
proof -
  assume e: "b + b div 2 = Suc (a + a div 2)"
  have "a < b" using offsets_mono [of b a] e by (cases "b < a"; cases "b = a") auto
  moreover have "\<not> Suc a < b" using offsets_mono [of "Suc a" b] offsets_mono [of a "Suc a"] e by linarith
  ultimately have b: "b = Suc a" by linarith
  then have "Suc a div 2 = a div 2" using e by simp
  then show "even a \<and> odd b" using b by (cases "even a") auto
next
  assume "a + a div 2 = b + b div 2"
  then show "a = b" using offsets_mono [of a b] offsets_mono [of b a] by (cases a b rule: linorder_cases) auto
qed

lemma off_overlap:
  "off c' = Suc (off c) \<Longrightarrow> even (unat c) \<and> odd (unat c')" "off c = off c' \<Longrightarrow> unat c = unat c'"
  unfolding off_def using offsets_nat [of "unat c'" "unat c"] offsets_nat(2) [of "unat c" "unat c'"] by blast+

lemma get_set_other:
  assumes c: "unat c < FAT_ENTRIES" "unat c' < FAT_ENTRIES" "c' \<noteq> c"
  shows "fat12_get_fat_entry (fat12_set_fat_entry c v m) c' = fat12_get_fat_entry m c'"
proof -
  have ne: "off c' \<noteq> off c" using off_overlap(2) [of c' c] c(3) by (auto simp: word_unat_eq_iff)
  note sm = off_small [OF c(1)] off_small [OF c(2)]
  consider "off c' = Suc (off c)" | "off c = Suc (off c')" | "off c' \<noteq> Suc (off c)" "off c \<noteq> Suc (off c')" by blast
  then show ?thesis
  proof cases
    case 1
    then show ?thesis using off_overlap(1) [OF 1] sm
      by (simp add: get_bytes set_bytes at_inj at_cross at_cross' new_hi_def entry_of_bits)
  next
    case 2
    then show ?thesis using off_overlap(1) [OF 2] sm
      by (simp add: get_bytes set_bytes at_inj at_cross at_cross' new_lo_def entry_of_bits)
  next
    case 3
    then show ?thesis using ne sm by (simp add: get_bytes set_bytes at_inj at_cross at_cross')
  qed
qed

text \<open>Bytes outside the two tables are kept.\<close>

definition table_area :: "u32 set" where
  "table_area = {a. 0x28E00 \<le> unat a \<and> unat a < 0x2B200}"

lemma at_area: "k < 4608 \<Longrightarrow> at FAT1 k \<in> table_area" "k < 4608 \<Longrightarrow> at FAT2 k \<in> table_area"
  by (simp_all add: table_area_def at_def unat_add_u32 unat_of_nat_u32)

lemma set_outside:
  "unat c < FAT_ENTRIES \<Longrightarrow> a \<notin> table_area \<Longrightarrow> fat12_set_fat_entry c v m a = m a"
  using off_small [of c] at_area [of "off c"] at_area [of "Suc (off c)"] by (auto simp: set_bytes)

lemma get_cong:
  assumes "\<And>a. a \<in> table_area \<Longrightarrow> m' a = m a" and "unat c < FAT_ENTRIES"
  shows "fat12_get_fat_entry m' c = fat12_get_fat_entry m c"
  using off_small [OF assms(2)] at_area(1) [of "off c"] at_area(1) [of "Suc (off c)"] assms(1) by (simp add: get_bytes)

section \<open>The mirror\<close>

text \<open>The second table is a copy of the first. Clusters from 3072 on have no bytes in the first
  table: their entries are read from the second one, and read there what the entry 3072
  places below is.\<close>

definition mirrored :: "mem \<Rightarrow> bool" where
  "mirrored m \<longleftrightarrow> (\<forall>k < 4608. m (at FAT2 k) = m (at FAT1 k))"

lemma set_mirrored:
  assumes "mirrored m" "unat c < FAT_ENTRIES" shows "mirrored (fat12_set_fat_entry c v m)"
  using assms off_small [OF assms(2)] by (auto simp: mirrored_def set_bytes at_inj at_cross at_cross')

lemma get_high:
  assumes m: "mirrored m" and c: "unat c < 1008"
  shows "fat12_get_fat_entry m (c + 3072) = fat12_get_fat_entry m c"
proof -
  have u: "unat (c + 3072) = unat c + 3072"
    using c by (simp add: unat_word_ariths)
  then have o: "off (c + 3072) = off c + 4608" by (simp add: off_def)
  have k: "Suc (off c) < 4608" by (rule off_small) (use c in simp)
  have "at FAT1 (off c + 4608) = at FAT2 (off c)" "at FAT1 (Suc (off c + 4608)) = at FAT2 (Suc (off c))"
    using k by (simp_all add: at_cross' at_cross)
  then show ?thesis using m k by (simp add: get_bytes o u mirrored_def)
qed

section \<open>Free clusters and chains\<close>

definition good_cluster :: "u16 \<Rightarrow> bool" where
  "good_cluster c \<longleftrightarrow> 2 \<le> unat c \<and> unat c < FAT_ENTRIES"

text \<open>A sound table: its two copies agree and the entries of the clusters 0 and 1 are taken.\<close>

definition table_ok :: "mem \<Rightarrow> bool" where
  "table_ok m \<longleftrightarrow> mirrored m \<and> fat12_get_fat_entry m 0 \<noteq> 0 \<and> fat12_get_fat_entry m 1 \<noteq> 0"

lemma of_nat_u16: "i < 65536 \<Longrightarrow> unat (of_nat i :: u16) = i"
  by (simp add: unat_of_nat)

lemma set_table_ok:
  assumes "table_ok m" "good_cluster c" shows "table_ok (fat12_set_fat_entry c v m)"
proof -
  have "c \<noteq> 0" "c \<noteq> 1" using assms(2) by (auto simp: good_cluster_def)
  then show ?thesis using assms set_mirrored [of m c v] get_set_other [of c 0 v m] get_set_other [of c 1 v m]
    by (simp add: table_ok_def good_cluster_def)
qed

lemma free_beyond:
  assumes "table_ok m" "FAT_ENTRIES \<le> i" "i < TOTAL_CLUSTERS" "fat12_get_fat_entry m (of_nat i) = 0"
  shows "\<exists>j. 2 \<le> j \<and> j < i \<and> fat12_get_fat_entry m (of_nat j) = 0"
proof -
  define j where "j = i - FAT_ENTRIES"
  have j: "i = j + 3072" "j < 1008" using assms(2,3) by (simp_all add: j_def)
  have "(of_nat i :: u16) = of_nat j + 3072" using j(1) by simp
  then have z: "fat12_get_fat_entry m (of_nat j) = 0"
    using assms(1,4) get_high [of m "of_nat j"] j(2) by (simp add: table_ok_def of_nat_u16)
  have "j \<noteq> 0" "j \<noteq> 1" using z assms(1) by (rule_tac notI; simp add: table_ok_def)+
  then show ?thesis using z j(1) by (intro exI [of _ j]) simp
qed

lemma find_free_cases:
  assumes "table_ok m"
  obtains (full) "fat12_find_free_cluster m = 0xFFFF" "\<And>c. good_cluster c \<Longrightarrow> fat12_get_fat_entry m c \<noteq> 0"
  | (free) "good_cluster (fat12_find_free_cluster m)" "fat12_get_fat_entry m (fat12_find_free_cluster m) = 0"
      "fat12_find_free_cluster m \<noteq> 0xFFFF"
proof (cases "find (\<lambda>i. fat12_get_fat_entry m (of_nat i) = 0) [2..<TOTAL_CLUSTERS]")
  case None
  then have all: "fat12_get_fat_entry m (of_nat i) \<noteq> 0" if "2 \<le> i" "i < TOTAL_CLUSTERS" for i
    using that unfolding find_upt_None_iff by blast
  have "fat12_get_fat_entry m c \<noteq> 0" if "good_cluster c" for c
    using all [of "unat c"] that by (simp add: good_cluster_def)
  then show ?thesis using full None unfolding fat12_find_free_cluster_def by (simp only: option.case) blast
next
  case (Some i)
  then have i: "2 \<le> i" "i < TOTAL_CLUSTERS" "fat12_get_fat_entry m (of_nat i) = 0"
    "\<And>j. 2 \<le> j \<Longrightarrow> j < i \<Longrightarrow> fat12_get_fat_entry m (of_nat j) \<noteq> 0"
    unfolding find_upt_Some_iff by blast+
  have "i < FAT_ENTRIES" using free_beyond [OF assms _ i(2,3)] i(4) by (meson leI)
  moreover have e: "fat12_find_free_cluster m = of_nat i"
    unfolding fat12_find_free_cluster_def Some by simp
  ultimately have g: "good_cluster (fat12_find_free_cluster m)" using i(1) by (simp add: good_cluster_def of_nat_u16)
  have "fat12_find_free_cluster m \<noteq> 0xFFFF" using g by (auto simp: good_cluster_def)
  then show ?thesis using free g i(3) e by simp
qed

text \<open>The chain of clusters from \<open>c\<close> on.\<close>

fun file_chain :: "mem \<Rightarrow> u16 \<Rightarrow> u16 list \<Rightarrow> bool" where
  "file_chain m c [] \<longleftrightarrow> \<not> (2 \<le> c \<and> c < 0xFF8)"
| "file_chain m c (x # xs) \<longleftrightarrow> c = x \<and> good_cluster x \<and> file_chain m (fat12_get_fat_entry m x) xs"

lemma good_cluster_range: "good_cluster c \<Longrightarrow> 2 \<le> c \<and> c < 0xFF8"
  by (simp add: good_cluster_def word_le_nat_alt word_less_nat_alt)

lemma file_chain_good: "file_chain m c cs \<Longrightarrow> x \<in> set cs \<Longrightarrow> good_cluster x"
  by (induction cs arbitrary: c) auto

lemma file_chain_cong:
  "(\<And>x. x \<in> set cs \<Longrightarrow> fat12_get_fat_entry m' x = fat12_get_fat_entry m x) \<Longrightarrow> file_chain m' c cs = file_chain m c cs"
  by (induction cs arbitrary: c) auto

lemma free_chain:
  assumes "file_chain m c cs" "distinct cs" "table_ok m"
  shows "\<exists>m'. fat12_free_cluster_chain c m = Some m' \<and> table_ok m'
    \<and> (\<forall>x. good_cluster x \<longrightarrow> fat12_get_fat_entry m' x = (if x \<in> set cs then 0 else fat12_get_fat_entry m x))
    \<and> (\<forall>a. a \<notin> table_area \<longrightarrow> m' a = m a)"
  using assms
proof (induction cs arbitrary: c m)
  case Nil
  then show ?case by (subst fat12_free_cluster_chain.simps) auto
next
  case (Cons x xs)
  then have x: "c = x" "good_cluster x" "file_chain m (fat12_get_fat_entry m x) xs" "x \<notin> set xs" "distinct xs" by auto
  let ?m = "fat12_set_fat_entry x 0 m"
  have xe: "unat x < FAT_ENTRIES" using x(2) by (simp add: good_cluster_def)
  have other: "fat12_get_fat_entry ?m y = fat12_get_fat_entry m y" if "good_cluster y" "y \<noteq> x" for y
    using get_set_other [OF xe, of y 0 m] that by (simp add: good_cluster_def)
  have "file_chain ?m (fat12_get_fat_entry m x) xs"
  proof (subst file_chain_cong)
    show "fat12_get_fat_entry ?m y = fat12_get_fat_entry m y" if "y \<in> set xs" for y
      using other [OF file_chain_good [OF x(3) that]] that x(4) by blast
  qed (rule x(3))
  then obtain m' where m': "fat12_free_cluster_chain (fat12_get_fat_entry m x) ?m = Some m'" "table_ok m'"
    "\<And>y. good_cluster y \<Longrightarrow> fat12_get_fat_entry m' y = (if y \<in> set xs then 0 else fat12_get_fat_entry ?m y)"
    "\<And>a. a \<notin> table_area \<Longrightarrow> m' a = ?m a"
    using Cons.IH x(5) set_table_ok [OF Cons.prems(3) x(2)] by blast
  have "fat12_free_cluster_chain c m = Some m'"
    using m'(1) good_cluster_range [OF x(2)] x(1) by (subst fat12_free_cluster_chain.simps) simp
  moreover have "fat12_get_fat_entry m' y = (if y \<in> set (x # xs) then 0 else fat12_get_fat_entry m y)" if "good_cluster y" for y
    using m'(3) [OF that] other [OF that] get_set_same [OF xe, of 0 m] by auto
  moreover have "m' a = m a" if "a \<notin> table_area" for a
    using m'(4) [OF that] set_outside [OF xe that] by simp
  ultimately show ?case using m'(2) by blast
qed

text \<open>C19: Writing and reading the entries of the allocation table. An entry is twelve bits, so two
  neighbours share a byte. For every cluster \<open>c\<close> whose entry lies in the nine sectors of the
  table (\<open>c < 3072\<close>), after \<^verbatim>\<open>fat12_set_fat_entry\<close> the entry read for \<open>c\<close> is the low twelve bits of
  the value, the entry of every other such cluster is what it was, no byte outside the two tables
  is changed, and if the second table was a copy of the first it still is.\<close>

theorem fat_entry_roundtrip:
  assumes "unat c < FAT_ENTRIES"
  shows "fat12_get_fat_entry (fat12_set_fat_entry c v m) c = v AND 0xFFF
    \<and> (\<forall>c'. unat c' < FAT_ENTRIES \<longrightarrow> c' \<noteq> c \<longrightarrow>
           fat12_get_fat_entry (fat12_set_fat_entry c v m) c' = fat12_get_fat_entry m c')
    \<and> (\<forall>a. unat a < 0x28E00 \<or> 0x2B200 \<le> unat a \<longrightarrow> fat12_set_fat_entry c v m a = m a)
    \<and> ((\<forall>k < 4608. m (at FAT2 k) = m (at FAT1 k)) \<longrightarrow>
           (\<forall>k < 4608. fat12_set_fat_entry c v m (at FAT2 k) = fat12_set_fat_entry c v m (at FAT1 k)))"
  using get_set_same [OF assms] get_set_other [OF assms] set_outside [OF assms] set_mirrored [OF _ assms]
  by (auto simp: table_area_def mirrored_def)

theorem fat_entry_roundtrip_witness:
  "fat12_get_fat_entry (fat12_set_fat_entry 5 0xFFF (\<lambda>_. 0xAB)) 5 = 0xFFF
   \<and> fat12_get_fat_entry (fat12_set_fat_entry 5 0xFFF (\<lambda>_. 0xAB)) 4 = fat12_get_fat_entry (\<lambda>_. 0xAB) 4"
proof -
  note t = fat_entry_roundtrip [where c = 5 and v = "0xFFF" and m = "\<lambda>_. 0xAB"]
  have "unat (5 :: u16) < FAT_ENTRIES" "unat (4 :: u16) < FAT_ENTRIES" "(4 :: u16) \<noteq> 5" by simp_all
  then have "fat12_get_fat_entry (fat12_set_fat_entry 5 0xFFF (\<lambda>_. 0xAB)) 5 = 0xFFF AND 0xFFF"
    "fat12_get_fat_entry (fat12_set_fat_entry 5 0xFFF (\<lambda>_. 0xAB)) 4 = fat12_get_fat_entry (\<lambda>_. 0xAB) 4"
    using t by blast+
  then show ?thesis by simp
qed

end
