(* ===== verification/FatFiles.thy ===== *)
theory FatFiles
  imports Fat12
begin

text \<open>
  Files on the ramdisk: what the loops of \<^verbatim>\<open>fat12_write_file\<close> and \<^verbatim>\<open>fat12_read_file\<close> do to the
  sectors of a cluster chain, and the round trip of the two.
\<close>

section \<open>Sectors\<close>

text \<open>The bytes of a cluster, and the bytes of the disk from the first table to the last
  cluster that has an entry.\<close>

definition sector :: "u16 \<Rightarrow> ptr set" where
  "sector c = {a. 0x2CE00 \<le> unat a \<and> (unat a - 0x2CE00) div 512 + 2 = unat c}"

definition disk :: "ptr set" where
  "disk = {a. 0x28E00 \<le> unat a \<and> unat a < 0x1ACA00}"

text \<open>\<open>n\<close> bytes from \<open>p\<close> on, none of them on the disk.\<close>

definition off_disk :: "ptr \<Rightarrow> nat \<Rightarrow> bool" where
  "off_disk p n \<longleftrightarrow> (\<forall>i < n. p + of_nat i \<notin> disk)"

lemma sector_disjoint: "a \<in> sector c \<Longrightarrow> a \<in> sector c' \<Longrightarrow> c = c'"
  by (simp add: sector_def word_unat_eq_iff)

lemma sector_disk: "good_cluster c \<Longrightarrow> a \<in> sector c \<Longrightarrow> a \<in> disk"
  by (auto simp: sector_def disk_def good_cluster_def)

lemma sector_table: "a \<in> sector c \<Longrightarrow> a \<notin> table_area"
  by (auto simp: sector_def table_area_def)

lemma table_disk: "a \<in> table_area \<Longrightarrow> a \<in> disk"
  by (auto simp: table_area_def disk_def)

lemma cluster_ptr_unat:
  assumes "good_cluster c" shows "unat (cluster_ptr c) = 0x2CE00 + 512 * (unat c - 2)"
proof -
  define k where "k = unat c - 2"
  have k: "unat c = k + 2" "k < 3070" using assms by (auto simp: good_cluster_def k_def)
  have "(ucast c :: u32) = of_nat (unat c)" by (simp only: of_nat_unat)
  then have lba: "DATA_START + (ucast c - 2) = of_nat (232 + k)" by (simp add: k)
  have "unat (of_nat (232 + k) :: u32) = 232 + k" using k by (intro unat_of_nat_u32) simp
  then have "DATA_START + (ucast c - 2) \<noteq> (0 :: u32)" unfolding lba by (metis add_is_0 unat_0 zero_neq_numeral)
  then have "cluster_ptr c = of_nat (0x2CE00 + 512 * k)"
    unfolding cluster_ptr_def get_sector_ptr_def lba by (simp add: algebra_simps)
  moreover have "unat (of_nat (0x2CE00 + 512 * k) :: u32) = 0x2CE00 + 512 * k" using k by (intro unat_of_nat_u32) simp
  ultimately show ?thesis by (simp only: k_def)
qed

text \<open>The byte at place \<open>k\<close> of a cluster.\<close>

lemma sector_byte:
  assumes "good_cluster c" "k < 512"
  shows "cluster_ptr c + of_nat k \<in> sector c" and "unat (cluster_ptr c + of_nat k) = 0x2CE00 + 512 * (unat c - 2) + k"
proof -
  have c: "2 \<le> unat c" "unat c < 3072" using assms by (simp_all add: good_cluster_def)
  show u: "unat (cluster_ptr c + of_nat k) = 0x2CE00 + 512 * (unat c - 2) + k"
    using c assms by (subst unat_add_u32) (simp_all add: cluster_ptr_unat unat_of_nat_u32)
  show "cluster_ptr c + of_nat k \<in> sector c" using c assms by (simp add: sector_def u)
qed

lemma in_sector:
  assumes "good_cluster c"
  shows "unat (a - cluster_ptr c) < 512 \<longleftrightarrow> a \<in> sector c"
proof -
  have c: "2 \<le> unat c" "unat c < 3072" using assms by (simp_all add: good_cluster_def)
  have "unat (a - cluster_ptr c) < 512 \<longleftrightarrow> unat (cluster_ptr c) \<le> unat a \<and> unat a < unat (cluster_ptr c) + 512"
    by (rule in_range_nat) (use c in \<open>simp add: cluster_ptr_unat [OF assms]\<close>)
  also have "\<dots> \<longleftrightarrow> a \<in> sector c" using c unfolding cluster_ptr_unat [OF assms] sector_def by auto
  finally show ?thesis .
qed

lemma sector_place:
  assumes "good_cluster c" "a \<in> sector c"
  obtains k where "k < 512" "a = cluster_ptr c + of_nat k"
proof (rule that)
  show "unat (a - cluster_ptr c) < 512" using in_sector [OF assms(1)] assms(2) by blast
  show "a = cluster_ptr c + of_nat (unat (a - cluster_ptr c))" by simp
qed

text \<open>A sector written: the bytes of the source, then zeros; nothing else changes.\<close>

lemma off_disk_apart:
  assumes "good_cluster c" "off_disk src n"
  shows "n \<le> unat (cluster_ptr c - src)"
proof (rule ccontr)
  assume "\<not> n \<le> unat (cluster_ptr c - src)"
  then have "unat (cluster_ptr c - src) < n" by simp
  then have "src + of_nat (unat (cluster_ptr c - src)) \<notin> disk" using assms(2) unfolding off_disk_def by blast
  then show False using sector_byte(1) [OF assms(1), of 0] sector_disk [OF assms(1)] by simp
qed

lemma write_sector_same:
  assumes c: "good_cluster c" and s: "off_disk src (unat chunk)" and n: "unat chunk \<le> 512" and k: "k < 512"
  shows "write_sector c src chunk m (cluster_ptr c + of_nat k) = (if k < unat chunk then m (src + of_nat k) else 0)"
proof -
  have u: "unat (of_nat k :: u32) = k" using k by (simp add: unat_of_nat_u32)
  have cp: "memcpy (cluster_ptr c) src chunk m a = (if unat (a - cluster_ptr c) < unat chunk then m (src + (a - cluster_ptr c)) else m a)" for a
    by (rule memcpy_apply) (use off_disk_apart [OF c s] in simp)
  show ?thesis
  proof (cases "chunk < SECTOR_SIZE")
    case True
    have d: "unat (SECTOR_SIZE - chunk) = 512 - unat chunk" using n by (subst unat_diff_u32) (simp_all add: word_le_nat_alt)
    have "unat (of_nat k - chunk) < 512 - unat chunk \<longleftrightarrow> unat chunk \<le> k"
      using in_range_nat [of chunk "512 - unat chunk" "of_nat k"] n k by (simp add: u)
    then have "unat (cluster_ptr c + of_nat k - (cluster_ptr c + chunk)) < 512 - unat chunk \<longleftrightarrow> unat chunk \<le> k"
      by simp
    then show ?thesis using True by (simp add: write_sector_def memset_apply d cp u not_less)
  next
    case False
    then have "unat chunk = 512" using n by (simp add: word_less_nat_alt)
    then show ?thesis using False k by (simp add: write_sector_def cp u)
  qed
qed

lemma write_sector_other:
  assumes c: "good_cluster c" and s: "off_disk src (unat chunk)" and n: "unat chunk \<le> 512" and a: "a \<notin> sector c"
  shows "write_sector c src chunk m a = m a"
proof -
  have far: "\<not> unat (a - cluster_ptr c) < 512" using in_sector [OF c] a by blast
  have cp: "memcpy (cluster_ptr c) src chunk m a = m a"
    using far n by (subst memcpy_apply) (use off_disk_apart [OF c s] in auto)
  show ?thesis
  proof (cases "chunk < SECTOR_SIZE")
    case True
    have d: "unat (SECTOR_SIZE - chunk) = 512 - unat chunk" using n by (subst unat_diff_u32) (simp_all add: word_le_nat_alt)
    have b: "unat (cluster_ptr c) + 512 \<le> 4294967296" using c by (auto simp: cluster_ptr_unat good_cluster_def)
    then have e: "unat (cluster_ptr c + chunk) = unat (cluster_ptr c) + unat chunk"
      using n by (intro unat_add_u32) (use True in \<open>simp add: word_less_nat_alt\<close>)
    have "\<not> unat (a - (cluster_ptr c + chunk)) < 512 - unat chunk"
      using far b n in_range_nat [of "cluster_ptr c" 512 a] in_range_nat [of "cluster_ptr c + chunk" "512 - unat chunk" a] by (simp add: e)
    then show ?thesis using True cp by (simp add: write_sector_def memset_apply d)
  qed (simp add: write_sector_def cp)
qed

section \<open>Chains of sectors\<close>

text \<open>Byte \<open>i\<close> of a chain of clusters.\<close>

definition file_byte :: "mem \<Rightarrow> u16 list \<Rightarrow> nat \<Rightarrow> u8" where
  "file_byte m cs i = m (cluster_ptr (cs ! (i div 512)) + of_nat (i mod 512))"

lemma file_byte_Cons:
  "file_byte m (c # cs) i = (if i < 512 then m (cluster_ptr c + of_nat i) else file_byte m cs (i - 512))"
proof (cases "i < 512")
  case False
  then obtain j where "i = 512 + j" using le_Suc_ex not_less by metis
  moreover have "(512 + j) div 512 = Suc (j div 512)" for j :: nat using div_add_self1 [of 512 j] by simp
  ultimately show ?thesis by (simp add: file_byte_def)
qed (simp add: file_byte_def)

text \<open>Clusters that are free.\<close>

definition free_clusters :: "mem \<Rightarrow> u16 set" where
  "free_clusters m = {c. good_cluster c \<and> fat12_get_fat_entry m c = 0}"

lemma finite_free_clusters [simp]: "finite (free_clusters m)"
  by simp

lemma chunk_of_unat: "unat (chunk_of n) = min 512 (unat n)"
  by (simp add: chunk_of_def word_less_nat_alt)

lemma off_disk_mono: "off_disk p n \<Longrightarrow> k + l \<le> n \<Longrightarrow> off_disk (p + of_nat k) l"
  unfolding off_disk_def
proof (intro allI impI)
  fix i
  assume a: "\<forall>i < n. p + of_nat i \<notin> disk" "k + l \<le> n" "i < l"
  then have "p + of_nat (k + i) \<notin> disk" by (metis add_less_cancel_left less_le_trans)
  then show "p + of_nat k + of_nat i \<notin> disk" by (simp add: algebra_simps)
qed

section \<open>Directory entries\<close>

text \<open>An entry of the root directory, and its size field.\<close>

definition in_root :: "ptr \<Rightarrow> bool" where
  "in_root e \<longleftrightarrow> 0x2B200 \<le> unat e \<and> unat e + 32 \<le> 0x2CE00"

lemma root_unat: "in_root e \<Longrightarrow> k < 32 \<Longrightarrow> unat (e + of_nat k) = unat e + k"
  by (subst unat_add_u32) (auto simp: in_root_def unat_of_nat_u32)

lemma store32_root:
  assumes "in_root e" "a \<notin> (\<lambda>k. e + of_nat k) ` {28..<32}"
  shows "store32 (e + 28) v m a = m a"
proof -
  have "a \<noteq> e + of_nat k" if "28 \<le> k" "k < 32" for k using assms(2) that by auto
  from this [of 28] this [of 29] this [of 30] this [of 31] show ?thesis by (simp add: store32_def add.assoc)
qed

lemma root_not_table: "in_root e \<Longrightarrow> k < 32 \<Longrightarrow> e + of_nat k \<notin> table_area"
  and root_not_sector: "in_root e \<Longrightarrow> k < 32 \<Longrightarrow> e + of_nat k \<notin> sector c"
  and root_disk: "in_root e \<Longrightarrow> k < 32 \<Longrightarrow> e + of_nat k \<in> disk"
  by (auto simp: table_area_def sector_def disk_def root_unat) (auto simp: in_root_def)

section \<open>The write loop\<close>

text \<open>What the loop leaves: the chain \<open>cs\<close> holds the \<open>n\<close> bytes \<open>f\<close>; the other chains, and all
  memory but the tables, the clusters of the chain and the size field of the entry, are kept.\<close>

definition wrote :: "ptr \<Rightarrow> u16 list \<Rightarrow> (nat \<Rightarrow> u8) \<Rightarrow> nat \<Rightarrow> mem \<Rightarrow> mem \<Rightarrow> bool" where
  "wrote e cs f n m m' \<longleftrightarrow> table_ok m' \<and> file_chain m' (hd cs) cs \<and> distinct cs
     \<and> (\<forall>i < n. file_byte m' cs i = f i)
     \<and> (\<forall>x. good_cluster x \<longrightarrow> x \<notin> set cs \<longrightarrow> fat12_get_fat_entry m' x = fat12_get_fat_entry m x)
     \<and> (\<forall>a. a \<notin> table_area \<longrightarrow> (\<forall>c \<in> set cs. a \<notin> sector c) \<longrightarrow> a \<notin> (\<lambda>k. e + of_nat k) ` {28..<32} \<longrightarrow> m' a = m a)"

lemma table_ok_cong:
  assumes "\<And>a. a \<in> table_area \<Longrightarrow> m' a = m a" and "table_ok m"
  shows "table_ok m'"
proof -
  have "at FAT1 k \<in> table_area" "at FAT2 k \<in> table_area" if "k < 4608" for k using at_area that by blast+
  then have "mirrored m'" using assms by (simp add: table_ok_def mirrored_def)
  then show ?thesis using assms(2) get_cong [OF assms(1)] by (simp add: table_ok_def)
qed

lemma good_lt: "good_cluster c \<Longrightarrow> unat c < FAT_ENTRIES"
  by (simp add: good_cluster_def)

lemma low_bits: "good_cluster c \<Longrightarrow> c AND 0xFFF = c"
  unfolding nibble_masks take_bit_eq_mask [symmetric] word_unat_eq_iff unsigned_take_bit_eq
  by (rule take_bit_nat_eq_self) (simp add: good_cluster_def)

lemma get_store_size:
  assumes "in_root e" "unat c < FAT_ENTRIES"
  shows "fat12_get_fat_entry (store32 (e + 28) v m) c = fat12_get_fat_entry m c"
  by (rule get_cong [OF _ assms(2)], rule store32_root [OF assms(1)]) (use root_not_table [OF assms(1)] in auto)

lemma write_loop_spec:
  assumes "in_root e" and "off_disk data (unat len)"
    and "table_ok m" "good_cluster cur" "fat12_get_fat_entry m cur = 0xFFF" "unat w < unat len"
    and "(unat len - unat w - 1) div 512 = n" "n \<le> card (free_clusters m)"
  shows "\<exists>m' cs. write_loop e data len w cur m = Some (FAT12_SUCCESS, m') \<and> length cs = n \<and> set cs \<subseteq> free_clusters m
    \<and> wrote e (cur # cs) (\<lambda>i. m (data + (w + of_nat i))) (unat len - unat w) m m' \<and> load32 m' (e + 28) = len"
  using assms(3-)
proof (induction n arbitrary: m cur w)
  case 0
  note e = assms(1) and pre = "0"
  define k where "k = unat len - unat w"
  have k: "0 < k" "k \<le> 512" using pre(4,5) by (auto simp: k_def div_eq_0_iff)
  have lw: "unat (len - w) = k" using pre(4) by (simp add: k_def unat_diff_u32 word_le_nat_alt)
  have ch: "unat (chunk_of (len - w)) = k" using k by (simp add: chunk_of_unat lw)
  then have we: "w + chunk_of (len - w) = len" by (metis add.commute diff_add_cancel lw word_unat_eq_iff)
  let ?m = "write_sector cur (data + w) (chunk_of (len - w)) m"
  let ?m' = "store32 (e + 28) len ?m"
  have src: "off_disk (data + w) (unat (chunk_of (len - w)))"
    using off_disk_mono [OF assms(2), of "unat w" k] pre(4) by (simp add: ch k_def)
  note same = write_sector_same [OF pre(2) src, unfolded ch, OF k(2)]
    and other = write_sector_other [OF pre(2) src, unfolded ch, OF k(2)]
  have out: "?m' a = m a" if "a \<notin> sector cur" "a \<notin> (\<lambda>k. e + of_nat k) ` {28..<32}" for a
    using store32_root [OF e that(2)] other [OF that(1)] by simp
  have tab: "?m' a = m a" if "a \<in> table_area" for a
    using that by (intro out) (use sector_table root_not_table [OF e] in auto)
  have get: "fat12_get_fat_entry ?m' x = fat12_get_fat_entry m x" if "unat x < FAT_ENTRIES" for x
    by (rule get_cong [OF tab that])
  have "write_loop e data len w cur m = Some (FAT12_SUCCESS, ?m')"
    using pre(4) we by (subst write_loop.simps, subst write_loop.simps) (simp add: Let_def word_less_nat_alt)
  moreover have "file_byte ?m' [cur] i = m (data + (w + of_nat i))" if "i < k" for i
  proof -
    have "cluster_ptr cur + of_nat i \<notin> (\<lambda>k. e + of_nat k) ` {28..<32}"
      using sector_byte(1) [OF pre(2), of i] that k root_not_sector [OF e] by auto
    then show ?thesis using same [of i] that k store32_root [OF e] by (simp add: file_byte_Cons add.assoc)
  qed
  ultimately show ?case
    using table_ok_cong [OF tab pre(1)] get [OF good_lt] pre(2,3) out good_lt [OF pre(2)]
    by (intro exI [of _ ?m'] exI [of _ "[]"]) (simp add: wrote_def k_def)
next
  case (Suc n)
  note e = assms(1) and pre = Suc.prems
  define k where "k = unat len - unat w"
  have k: "512 < k" "(k - 512 - 1) div 512 = n"
  proof -
    show l: "512 < k"
    proof (rule ccontr)
      assume "\<not> 512 < k"
      then have "(k - 1) div 512 = 0" by simp
      then show False using pre(5) by (simp add: k_def)
    qed
    have "k - 1 = 512 + (k - 512 - 1)" using l by simp
    then have "(k - 1) div 512 = Suc ((k - 512 - 1) div 512)" by (metis div_add_self1 Suc_eq_plus1 zero_neq_numeral)
    then show "(k - 512 - 1) div 512 = n" using pre(5) by (simp add: k_def)
  qed
  have lw: "unat (len - w) = k" using pre(4) by (simp add: k_def unat_diff_u32 word_le_nat_alt)
  have ch: "chunk_of (len - w) = 512" using k by (simp add: chunk_of_def word_less_nat_alt lw)
  have w: "unat (w + 512) = unat w + 512"
  proof -
    have "unat w + 512 < 4294967296" using k(1) unat_lt_two_power_32 [of len] unfolding k_def by linarith
    then show ?thesis by (subst unat_add_u32) simp_all
  qed
  let ?m1 = "write_sector cur (data + w) 512 m"
  have src: "off_disk (data + w) (unat (512 :: u32))"
    using off_disk_mono [OF assms(2), of "unat w" 512] k(1) by (simp add: k_def)
  note same = write_sector_same [OF pre(2) src, simplified] and other = write_sector_other [OF pre(2) src, simplified]
  have tab1: "?m1 a = m a" if "a \<in> table_area" for a using that sector_table by (blast intro: other)
  have ok1: "table_ok ?m1" by (rule table_ok_cong [OF tab1 pre(1)])
  have get1: "fat12_get_fat_entry ?m1 x = fat12_get_fat_entry m x" if "unat x < FAT_ENTRIES" for x
    by (rule get_cong [OF tab1 that])
  have free1: "free_clusters ?m1 = free_clusters m" by (auto simp: free_clusters_def get1 good_lt)
  define new where "new = fat12_find_free_cluster ?m1"
  from ok1 have "good_cluster new \<and> fat12_get_fat_entry ?m1 new = 0 \<and> new \<noteq> 0xFFFF"
  proof (cases rule: find_free_cases)
    case full
    then have "free_clusters ?m1 = {}" by (auto simp: free_clusters_def)
    then show ?thesis using pre(6) free1 by simp
  qed (simp add: new_def)
  then have new: "good_cluster new" "fat12_get_fat_entry m new = 0" "new \<noteq> 0xFFFF" using get1 good_lt by auto
  have n0: "new \<noteq> 0" using new(1) by (auto simp: good_cluster_def)
  have nc: "new \<noteq> cur" using new(2) pre(3) by auto
  let ?m2 = "fat12_set_fat_entry new 0xFFF (fat12_set_fat_entry cur new ?m1)"
  note lt = good_lt [OF pre(2)] good_lt [OF new(1)]
  have out2: "?m2 a = ?m1 a" if "a \<notin> table_area" for a using that by (simp add: set_outside lt)
  have get2: "fat12_get_fat_entry ?m2 x = (if x = new then 0xFFF else if x = cur then new else fat12_get_fat_entry m x)"
    if "unat x < FAT_ENTRIES" for x
    using that lt by (simp add: get_set_same get_set_other get1 low_bits [OF new(1)])
  have ok2: "table_ok ?m2" by (intro set_table_ok ok1 pre(2) new(1))
  have free2: "free_clusters ?m2 = free_clusters m - {new}"
    using new(1) pre(3) n0 by (auto simp: free_clusters_def get2 good_lt split: if_splits)
  have "new \<in> free_clusters m" using new by (simp add: free_clusters_def)
  then have card2: "n \<le> card (free_clusters ?m2)" using pre(6) by (simp add: free2)
  have w2: "unat (w + 512) < unat len" "(unat len - unat (w + 512) - 1) div 512 = n"
    using k unfolding w by (auto simp: k_def diff_diff_add)
  from Suc.IH [OF ok2 new(1) _ w2 card2] get2 [OF lt(2)]
  obtain m' cs where IH: "write_loop e data len (w + 512) new ?m2 = Some (FAT12_SUCCESS, m')" "length cs = n"
    "set cs \<subseteq> free_clusters ?m2" "load32 m' (e + 28) = len"
    "wrote e (new # cs) (\<lambda>i. ?m2 (data + (w + 512 + of_nat i))) (unat len - unat (w + 512)) ?m2 m'" by auto
  have run: "write_loop e data len w cur m = Some (FAT12_SUCCESS, m')"
    using pre(4) w2(1) new(3) IH(1) by (subst write_loop.simps) (simp add: Let_def word_less_nat_alt ch flip: new_def)
  have cs: "cur \<notin> set (new # cs)" "set (new # cs) \<subseteq> free_clusters m"
    using IH(3) [unfolded free2] nc new pre(3) by (auto simp: free_clusters_def)
  note W = IH(5) [unfolded wrote_def]
  have "m' a = m a" if "a \<notin> table_area" "\<forall>c \<in> set (cur # new # cs). a \<notin> sector c" "a \<notin> (\<lambda>k. e + of_nat k) ` {28..<32}" for a
    using W that out2 [OF that(1)] other [of a] by simp
  moreover have "fat12_get_fat_entry m' x = fat12_get_fat_entry m x" if "good_cluster x" "x \<notin> set (cur # new # cs)" for x
    using W that get2 [OF good_lt [OF that(1)]] by simp
  moreover have "file_chain m' cur (cur # new # cs)"
    using W cs(1) pre(2) get2 [OF lt(1)] nc by simp
  moreover have "file_byte m' (cur # new # cs) i = m (data + (w + of_nat i))" if i: "i < k" for i
  proof (cases "i < 512")
    case True
    note at = sector_byte(1) [OF pre(2) True]
    have "cluster_ptr cur + of_nat i \<notin> (\<lambda>k. e + of_nat k) ` {28..<32}" using root_not_sector [OF e] at by auto
    moreover have "\<forall>c \<in> set (new # cs). cluster_ptr cur + of_nat i \<notin> sector c" using cs(1) sector_disjoint [OF at] by blast
    ultimately have "m' (cluster_ptr cur + of_nat i) = ?m1 (cluster_ptr cur + of_nat i)"
      using W sector_table [OF at] out2 by simp
    then show ?thesis using same [OF True] True by (simp add: file_byte_Cons add.assoc)
  next
    case False
    then have j: "i - 512 < unat len - unat (w + 512)" using i by (simp add: w k_def)
    have p: "w + 512 + of_nat (i - 512) = w + of_nat i" using False by (simp add: of_nat_diff)
    have "data + (w + of_nat i) \<notin> disk"
      using assms(2) off_disk_mono [OF assms(2), of "unat w + i" 1] i by (simp add: k_def off_disk_def add.assoc)
    then have "?m2 (data + (w + of_nat i)) = m (data + (w + of_nat i))"
      using out2 table_disk other sector_disk [OF pre(2)] by metis
    then show ?thesis using W j False p by (simp add: file_byte_Cons [of m' cur])
  qed
  ultimately show ?case
    using run IH(2,4) cs W by (intro exI [of _ m'] exI [of _ "new # cs"]) (simp add: wrote_def k_def)
qed

section \<open>The read loop\<close>

lemma in_range_of_nat:
  fixes a d :: u32
  assumes "n < 4294967296"
  shows "unat (a - d) < n \<longleftrightarrow> a \<in> (\<lambda>i. d + of_nat i) ` {..<n}"
proof
  assume "unat (a - d) < n"
  moreover have "a = d + of_nat (unat (a - d))" by simp
  ultimately show "a \<in> (\<lambda>i. d + of_nat i) ` {..<n}" by blast
next
  assume "a \<in> (\<lambda>i. d + of_nat i) ` {..<n}"
  then obtain i where "i < n" "a = d + of_nat i" by blast
  then show "unat (a - d) < n" using assms by (simp add: unat_of_nat_u32)
qed

text \<open>Reading a chain copies its bytes to the buffer, whole sectors at a time.\<close>

lemma read_chain_spec:
  assumes "file_chain m c cs" "off_disk dest (512 * length cs)" "512 * length cs < 4294967296"
  shows "\<exists>m'. read_chain dest c m = Some m' \<and> (\<forall>i < 512 * length cs. m' (dest + of_nat i) = file_byte m cs i)
    \<and> (\<forall>a. a \<notin> (\<lambda>i. dest + of_nat i) ` {..<512 * length cs} \<longrightarrow> m' a = m a)"
  using assms
proof (induction cs arbitrary: c m dest)
  case Nil
  then show ?case by (subst read_chain.simps) auto
next
  case (Cons x xs)
  then have x: "c = x" "good_cluster x" "file_chain m (fat12_get_fat_entry m x) xs" by auto
  let ?m = "memcpy dest (cluster_ptr x) SECTOR_SIZE m"
  have off1: "off_disk dest 512" using off_disk_mono [OF Cons.prems(2), of 0 512] by simp
  have off: "off_disk (dest + SECTOR_SIZE) (512 * length xs)" using off_disk_mono [OF Cons.prems(2), of 512 "512 * length xs"] by simp
  have apart: "dest \<notin> sector x" using off_disk_mono [OF off1, of 0 1] sector_disk [OF x(2)] by (auto simp: off_disk_def)
  have cp: "?m a = (if a \<in> (\<lambda>i. dest + of_nat i) ` {..<512} then m (cluster_ptr x + (a - dest)) else m a)" for a
    using in_range_of_nat [of 512 a dest] apart in_sector [OF x(2), of dest] by (subst memcpy_apply) auto
  have copied: "?m (dest + of_nat i) = m (cluster_ptr x + of_nat i)" if "i < 512" for i using that by (simp add: cp)
  have kept: "?m a = m a" if "a \<in> disk" for a using off1 that by (auto simp: cp off_disk_def)
  have tab: "?m a = m a" if "a \<in> table_area" for a using that by (intro kept table_disk)
  have get: "fat12_get_fat_entry ?m y = fat12_get_fat_entry m y" if "good_cluster y" for y
    by (rule get_cong [OF tab good_lt [OF that]])
  have "file_chain ?m (fat12_get_fat_entry ?m x) xs"
    unfolding get [OF x(2)] by (subst file_chain_cong [of _ _ m]) (use x(3) get file_chain_good in blast)+
  from Cons.IH [OF this off] Cons.prems(3)
  obtain m' where m': "read_chain (dest + SECTOR_SIZE) (fat12_get_fat_entry ?m x) ?m = Some m'"
    "\<And>i. i < 512 * length xs \<Longrightarrow> m' (dest + SECTOR_SIZE + of_nat i) = file_byte ?m xs i"
    "\<And>a. a \<notin> (\<lambda>i. dest + SECTOR_SIZE + of_nat i) ` {..<512 * length xs} \<Longrightarrow> m' a = ?m a" by auto
  have run: "read_chain dest c m = Some m'"
    using good_cluster_range [OF x(2)] x(1) m'(1) by (subst read_chain.simps) (simp add: Let_def)
  have out: "dest + of_nat i \<notin> (\<lambda>j. dest + SECTOR_SIZE + of_nat j) ` {..<512 * length xs}" if "i < 512" for i
  proof
    assume "dest + of_nat i \<in> (\<lambda>j. dest + SECTOR_SIZE + of_nat j) ` {..<512 * length xs}"
    then obtain j where "j < 512 * length xs" "(of_nat i :: u32) = of_nat (512 + j)" by (auto simp: algebra_simps)
    then show False using that Cons.prems(3) unat_of_nat_u32 [of i] unat_of_nat_u32 [of "512 + j"] by simp
  qed
  have "m' (dest + of_nat i) = file_byte m (x # xs) i" if i: "i < 512 * length (x # xs)" for i
  proof (cases "i < 512")
    case True
    then show ?thesis using m'(3) [OF out [OF True]] copied [OF True] by (simp add: file_byte_Cons)
  next
    case False
    then have j: "i - 512 < 512 * length xs" using i by simp
    then have g: "good_cluster (xs ! ((i - 512) div 512))" using file_chain_good [OF x(3)] by simp
    have "file_byte ?m xs (i - 512) = file_byte m xs (i - 512)"
      unfolding file_byte_def by (rule kept, rule sector_disk [OF g], rule sector_byte(1) [OF g]) simp
    moreover have "dest + SECTOR_SIZE + of_nat (i - 512) = dest + of_nat i" using False by (simp add: of_nat_diff)
    ultimately show ?thesis using m'(2) [OF j] False by (simp add: file_byte_Cons)
  qed
  moreover have "m' a = m a" if a: "a \<notin> (\<lambda>i. dest + of_nat i) ` {..<512 * length (x # xs)}" for a
  proof -
    have "a \<notin> (\<lambda>i. dest + of_nat i) ` {..<512}" using a by auto
    moreover have "a \<notin> (\<lambda>i. dest + SECTOR_SIZE + of_nat i) ` {..<512 * length xs}"
    proof
      assume "a \<in> (\<lambda>i. dest + SECTOR_SIZE + of_nat i) ` {..<512 * length xs}"
      then obtain j where "j < 512 * length xs" "a = dest + of_nat (512 + j)" by (auto simp: algebra_simps)
      then have "a \<in> (\<lambda>i. dest + of_nat i) ` {..<512 * length (x # xs)}" by (intro image_eqI [of _ _ "512 + j"]) simp_all
      then show False using a by contradiction
    qed
    ultimately show ?thesis using m'(3) cp by simp
  qed
  ultimately show ?case using run by blast
qed

section \<open>Looking up an entry\<close>

lemma root_entries_place:
  assumes "e \<in> set root_entries"
  obtains k where "k < 224" "unat e = 0x2B200 + 32 * k"
proof -
  obtain i k where ik: "i < 14" "k < 16" "e = get_sector_ptr (ROOT_DIR_START + of_nat i) + of_nat k * 32"
    using assms by (auto simp: root_entries_def simp del: upt_rec_numeral)
  have "ROOT_DIR_START + of_nat i = (of_nat (218 + i) :: u32)" by simp
  moreover have "unat (of_nat (218 + i) :: u32) = 218 + i" using ik(1) by (intro unat_of_nat_u32) simp
  ultimately have "ROOT_DIR_START + of_nat i \<noteq> (0 :: u32)" by (metis add_is_0 unat_0 zero_neq_numeral)
  then have e: "e = of_nat (0x2B200 + 32 * (16 * i + k))" using ik(3) by (simp add: get_sector_ptr_def algebra_simps)
  have "unat e = 0x2B200 + 32 * (16 * i + k)" unfolding e using ik by (intro unat_of_nat_u32) simp
  then show ?thesis by (rule that [rotated]) (use ik in simp)
qed

lemma root_entries_in_root: "e \<in> set root_entries \<Longrightarrow> in_root e"
  by (elim root_entries_place) (simp add: in_root_def)

text \<open>The name bytes of an entry are not among the bytes 11 and up of any entry.\<close>

lemma root_name_apart:
  assumes "e \<in> set root_entries" "e' \<in> set root_entries" "i < 11"
  shows "e' + of_nat i \<notin> (\<lambda>k. e + of_nat k) ` {11..<32}"
proof
  assume "e' + of_nat i \<in> (\<lambda>k. e + of_nat k) ` {11..<32}"
  then obtain j where j: "11 \<le> j" "j < 32" "e' + of_nat i = e + of_nat j" by auto
  obtain k k' where k: "unat e = 0x2B200 + 32 * k" "unat e' = 0x2B200 + 32 * k'"
    using assms(1,2) by (metis root_entries_place)
  have "unat e' + i = unat e + j"
    using j assms(3) root_unat [OF root_entries_in_root [OF assms(1)], of j] root_unat [OF root_entries_in_root [OF assms(2)], of i] by simp
  then have "32 * k' + i = 32 * k + j" by (simp add: k)
  then show False using j assms(3) by presburger
qed

lemma find_entry_member: "find_entry m name es = Some e \<Longrightarrow> e \<in> set es"
  by (induction es) (auto split: if_splits)

lemma find_entry_cong:
  assumes "\<And>e i. e \<in> set es \<Longrightarrow> i < 11 \<Longrightarrow> m' (e + of_nat i) = m (e + of_nat i)"
  shows "find_entry m' name es = find_entry m name es"
  using assms
proof (induction es)
  case (Cons e es)
  have "m' e = m e" using Cons.prems [of e 0] by simp
  moreover have "entry_name m' e = entry_name m e" using Cons.prems [of e] by (auto simp: entry_name_def simp del: upt_rec_numeral)
  ultimately show ?case using Cons by simp
qed simp

lemma find_file_member: "fat12_find_file name m = Some e \<Longrightarrow> e \<in> set root_entries"
  by (auto simp: fat12_find_file_def split: option.splits dest: find_entry_member)

text \<open>Memory changed only in the tables, in the clusters \<open>cs\<close> and in the cluster and size
  fields of the entry.\<close>

definition same_but :: "ptr \<Rightarrow> u16 set \<Rightarrow> mem \<Rightarrow> mem \<Rightarrow> bool" where
  "same_but e C m m' \<longleftrightarrow> (\<forall>a. a \<notin> table_area \<longrightarrow> (\<forall>c \<in> C. a \<notin> sector c) \<longrightarrow> a \<notin> (\<lambda>k. e + of_nat k) ` {26..<32} \<longrightarrow> m' a = m a)"

lemma same_but_root:
  assumes "same_but e C m m'" "in_root e'" "k < 32" "e' + of_nat k \<notin> (\<lambda>k. e + of_nat k) ` {26..<32}"
  shows "m' (e' + of_nat k) = m (e' + of_nat k)"
  using assms root_not_table root_not_sector by (simp add: same_but_def)

lemma same_but_find_file:
  assumes "same_but e C m m'" "e \<in> set root_entries"
  shows "fat12_find_file name m' = fat12_find_file name m"
proof -
  have "find_entry m' n root_entries = find_entry m n root_entries" for n
  proof (rule find_entry_cong)
    fix x :: ptr and i :: nat assume x: "x \<in> set root_entries" "i < 11"
    have "x + of_nat i \<notin> (\<lambda>k. e + of_nat k) ` {26..<32}" using root_name_apart [OF assms(2) x] by auto
    then show "m' (x + of_nat i) = m (x + of_nat i)"
      using same_but_root [OF assms(1) root_entries_in_root [OF x(1)], of i] x(2) by simp
  qed
  then show ?thesis by (simp add: fat12_find_file_def split: option.split)
qed

section \<open>Writing a file\<close>

lemma store16_root:
  assumes "in_root e" "a \<notin> (\<lambda>k. e + of_nat k) ` {26..<28}"
  shows "store16 (e + 26) v m a = m a"
proof -
  have "a \<noteq> e + of_nat k" if "26 \<le> k" "k < 28" for k using assms(2) that by auto
  from this [of 26] this [of 27] show ?thesis by (simp add: store16_def add.assoc)
qed

lemma store16_table:
  assumes "in_root e" "a \<in> table_area" shows "store16 (e + 26) v m a = m a"
  by (rule store16_root [OF assms(1)]) (use root_not_table [OF assms(1)] assms(2) in auto)

text \<open>The old chain is given back first.\<close>

lemma free_old_chain:
  assumes e: "in_root e" and c: "file_chain m (first_cluster_low m e) old" "distinct old" and ok: "table_ok m"
  obtains m2 where
    "(if 2 \<le> first_cluster_low m e
      then Option.bind (fat12_free_cluster_chain (first_cluster_low m e) m) (\<lambda>m1. Some (store16 (e + 26) 0 m1))
      else Some m) = Some m2"
    "table_ok m2" "\<And>x. good_cluster x \<Longrightarrow> fat12_get_fat_entry m2 x = (if x \<in> set old then 0 else fat12_get_fat_entry m x)"
    "\<And>a. a \<notin> table_area \<Longrightarrow> a \<notin> (\<lambda>k. e + of_nat k) ` {26..<28} \<Longrightarrow> m2 a = m a" "\<not> 2 \<le> first_cluster_low m2 e"
proof (cases "2 \<le> first_cluster_low m e")
  case True
  obtain m1 where m1: "fat12_free_cluster_chain (first_cluster_low m e) m = Some m1" "table_ok m1"
    "\<forall>x. good_cluster x \<longrightarrow> fat12_get_fat_entry m1 x = (if x \<in> set old then 0 else fat12_get_fat_entry m x)"
    "\<forall>a. a \<notin> table_area \<longrightarrow> m1 a = m a" using free_chain [OF c ok] by blast
  let ?m2 = "store16 (e + 26) 0 m1"
  have get: "fat12_get_fat_entry ?m2 x = fat12_get_fat_entry m1 x" if "good_cluster x" for x
    by (rule get_cong [OF store16_table [OF e] good_lt [OF that]])
  have "table_ok ?m2" by (rule table_ok_cong [OF _ m1(2)]) (rule store16_table [OF e])
  then show ?thesis
    by (intro that [of ?m2]) (use True m1 get store16_root [OF e] in auto)
next
  case False
  then have "\<not> (2 \<le> first_cluster_low m e \<and> first_cluster_low m e < 0xFF8)" by simp
  then have "old = []" using c(1) good_cluster_range by (cases old) auto
  then show ?thesis using False ok by (intro that [of m]) auto
qed

lemma card_clusters:
  assumes "\<And>c. c \<in> C \<Longrightarrow> good_cluster c" shows "card C \<le> FAT_ENTRIES"
proof -
  have "unat ` C \<subseteq> {..<FAT_ENTRIES}" using good_lt [OF assms] by auto
  moreover have "inj_on (unat :: u16 \<Rightarrow> nat) C" by (simp add: inj_on_def word_unat_eq_iff)
  ultimately have "card C \<le> card {..<FAT_ENTRIES}" by (intro card_inj_on_le) simp_all
  then show ?thesis by simp
qed

lemma root_in_image:
  assumes "in_root e" "j < 32" "b \<le> 32"
  shows "e + of_nat j \<in> (\<lambda>k. e + of_nat k) ` {a..<b} \<longleftrightarrow> a \<le> j \<and> j < b"
proof
  assume "e + of_nat j \<in> (\<lambda>k. e + of_nat k) ` {a..<b}"
  then obtain k where "a \<le> k" "k < b" "e + of_nat j = e + of_nat k" by auto
  moreover from this have "unat e + j = unat e + k" using assms root_unat [OF assms(1)] by (metis less_le_trans)
  ultimately show "a \<le> j \<and> j < b" by simp
qed auto

text \<open>The whole of \<^verbatim>\<open>fat12_write_file\<close> when the clusters suffice.\<close>

definition written_file :: "ptr \<Rightarrow> u16 list \<Rightarrow> u16 list \<Rightarrow> (nat \<Rightarrow> u8) \<Rightarrow> u32 \<Rightarrow> mem \<Rightarrow> mem \<Rightarrow> bool" where
  "written_file e old cs f len m m' \<longleftrightarrow> table_ok m' \<and> file_chain m' (first_cluster_low m' e) cs
     \<and> length cs = (unat len + 511) div 512 \<and> set cs \<subseteq> free_clusters m \<union> set old \<and> file_size m' e = len
     \<and> (\<forall>i < unat len. file_byte m' cs i = f i) \<and> same_but e (set cs) m m'
     \<and> (\<forall>x. good_cluster x \<longrightarrow> x \<notin> set cs \<union> set old \<longrightarrow> fat12_get_fat_entry m' x = fat12_get_fat_entry m x)"

lemma sectors_of: "0 < n \<Longrightarrow> (n + 511) div 512 = Suc ((n - 1) div 512)" for n :: nat
proof -
  assume "0 < n"
  then have "n + 511 = 512 + (n - 1)" by simp
  then show ?thesis using div_add_self1 [of 512 "n - 1"] by simp
qed

lemma write_file_spec:
  assumes f: "fat12_find_file name m = Some e" "attributes m e \<noteq> ATTR_DIRECTORY" and ok: "table_ok m"
    and c: "file_chain m (first_cluster_low m e) old" "distinct old"
    and data: "off_disk data (unat len)" and enough: "unat len \<le> 512 * card (free_clusters m \<union> set old)"
  shows "\<exists>m' cs. fat12_write_file name data len m = Some (FAT12_SUCCESS, m')
    \<and> written_file e old cs (\<lambda>i. m (data + of_nat i)) len m m'"
proof -
  have e: "in_root e" by (rule root_entries_in_root [OF find_file_member [OF f(1)]])
  obtain m2 where m2:
    "(if 2 \<le> first_cluster_low m e
      then Option.bind (fat12_free_cluster_chain (first_cluster_low m e) m) (\<lambda>m1. Some (store16 (e + 26) 0 m1))
      else Some m) = Some m2"
    "table_ok m2" "\<And>x. good_cluster x \<Longrightarrow> fat12_get_fat_entry m2 x = (if x \<in> set old then 0 else fat12_get_fat_entry m x)"
    "\<And>a. a \<notin> table_area \<Longrightarrow> a \<notin> (\<lambda>k. e + of_nat k) ` {26..<28} \<Longrightarrow> m2 a = m a" "\<not> 2 \<le> first_cluster_low m2 e"
    by (rule free_old_chain [OF e c ok]) blast
  have free2: "free_clusters m2 = free_clusters m \<union> set old"
    using m2(3) file_chain_good [OF c(1)] by (auto simp: free_clusters_def)
  note run = f m2(1)
  show ?thesis
  proof (cases "len = 0")
    case True
    let ?m' = "store32 (e + 28) 0 m2"
    note out = store32_root [OF e, of _ 0 m2]
    have tab: "?m' a = m2 a" if "a \<in> table_area" for a using that root_not_table [OF e] by (intro out) auto
    have get: "fat12_get_fat_entry ?m' x = fat12_get_fat_entry m2 x" if "good_cluster x" for x
      by (rule get_cong [OF tab good_lt [OF that]])
    have first: "first_cluster_low ?m' e = first_cluster_low m2 e"
      using out [of "e + of_nat 26"] out [of "e + of_nat 27"] root_in_image [OF e]
      by (simp add: load16_def add.assoc del: of_nat_numeral) (simp add: add.assoc)
    have "?m' a = m a" if "a \<notin> table_area" "a \<notin> (\<lambda>k. e + of_nat k) ` {26..<32}" for a
      using m2(4) [OF that(1)] out [of a] that(2) by fastforce
    then have "written_file e old [] (\<lambda>i. m (data + of_nat i)) len m ?m'"
      using table_ok_cong [OF tab m2(2)] m2(3,5) first get True by (simp add: written_file_def same_but_def)
    moreover have "fat12_write_file name data len m = Some (FAT12_SUCCESS, ?m')"
      using f m2(1) True by (simp add: fat12_write_file_def)
    ultimately show ?thesis by blast
  next
    case False
    define c0 where "c0 = fat12_find_free_cluster m2"
    have F: "0 < card (free_clusters m2)" "(unat len - 1) div 512 \<le> card (free_clusters m2) - 1"
    proof -
      have len: "0 < unat len" "unat len \<le> card (free_clusters m2) * 512" using enough False by (simp_all add: free2 unat_gt_0)
      then have "(unat len - 1) div 512 < card (free_clusters m2)" by (intro less_mult_imp_div_less) linarith
      then show "0 < card (free_clusters m2)" "(unat len - 1) div 512 \<le> card (free_clusters m2) - 1" by linarith+
    qed
    from m2(2) have c0: "good_cluster c0 \<and> fat12_get_fat_entry m2 c0 = 0 \<and> c0 \<noteq> 0xFFFF"
    proof (cases rule: find_free_cases)
      case full
      then have "free_clusters m2 = {}" by (auto simp: free_clusters_def)
      then show ?thesis using F(1) by simp
    qed (simp add: c0_def)
    let ?m3 = "store16 (e + 26) c0 m2" and ?m4 = "fat12_set_fat_entry c0 0xFFF (store16 (e + 26) c0 m2)"
    have ok3: "table_ok ?m3" by (rule table_ok_cong [OF _ m2(2)]) (rule store16_table [OF e])
    have get3: "fat12_get_fat_entry ?m3 x = fat12_get_fat_entry m2 x" if "good_cluster x" for x
      by (rule get_cong [OF store16_table [OF e] good_lt [OF that]])
    have get4: "fat12_get_fat_entry ?m4 x = (if x = c0 then 0xFFF else fat12_get_fat_entry m2 x)" if "good_cluster x" for x
      using that c0 get3 by (simp add: get_set_same get_set_other good_lt)
    have out4: "?m4 a = m a" if "a \<notin> table_area" "a \<notin> (\<lambda>k. e + of_nat k) ` {26..<28}" for a
      using that c0 m2(4) store16_root [OF e] by (simp add: set_outside good_lt)
    have free4: "free_clusters ?m4 = free_clusters m2 - {c0}" using c0 by (auto simp: free_clusters_def get4 split: if_splits)
    have "c0 \<in> free_clusters m2" using c0 by (simp add: free_clusters_def)
    then have n4: "(unat len - 1) div 512 \<le> card (free_clusters ?m4)" using F(2) by (simp add: free4)
    obtain m' cs where W: "write_loop e data len 0 c0 ?m4 = Some (FAT12_SUCCESS, m')" "length cs = (unat len - 1) div 512"
      "set cs \<subseteq> free_clusters ?m4" "load32 m' (e + 28) = len"
      "wrote e (c0 # cs) (\<lambda>i. ?m4 (data + (0 + of_nat i))) (unat len) ?m4 m'"
      using write_loop_spec [OF e data, of ?m4 c0 0 "(unat len - 1) div 512"] c0 get4 n4 set_table_ok [OF ok3] False
      by (auto simp: unat_gt_0)
    note W5 = W(5) [unfolded wrote_def]
    have "?m4 (data + of_nat i) = m (data + of_nat i)" if "i < unat len" for i
    proof (rule out4)
      have "data + of_nat i \<notin> disk" using data that by (simp add: off_disk_def)
      then show "data + of_nat i \<notin> table_area" "data + of_nat i \<notin> (\<lambda>k. e + of_nat k) ` {26..<28}"
        using table_disk root_disk [OF e] by auto
    qed
    moreover have first: "first_cluster_low m' e = c0"
    proof -
      have "m' (e + of_nat k) = ?m3 (e + of_nat k)" if "k = 26 \<or> k = 27" for k
        using W5 root_not_table [OF e, of k] root_not_sector [OF e, of k] root_in_image [OF e, of k] that c0
        by (auto simp: set_outside good_lt simp del: of_nat_numeral)
      from this [of 26] this [of 27] have "load16 m' (e + 26) = load16 ?m3 (e + 26)" by (simp add: load16_def add.assoc)
      then show ?thesis by simp
    qed
    moreover have "same_but e (set (c0 # cs)) m m'"
      unfolding same_but_def
    proof (intro allI impI)
      fix a assume a: "a \<notin> table_area" "\<forall>c \<in> set (c0 # cs). a \<notin> sector c" "a \<notin> (\<lambda>k. e + of_nat k) ` {26..<32}"
      have "a \<notin> (\<lambda>k. e + of_nat k) ` {28..<32}" "a \<notin> (\<lambda>k. e + of_nat k) ` {26..<28}" using a(3) by fastforce+
      then show "m' a = m a" using W5 a out4 [of a] by simp
    qed
    moreover have "set (c0 # cs) \<subseteq> free_clusters m \<union> set old"
      using W(3) c0 unfolding free4 free2 [symmetric] by (auto simp: free_clusters_def)
    moreover have "fat12_get_fat_entry m' x = fat12_get_fat_entry m x" if "good_cluster x" "x \<notin> set (c0 # cs) \<union> set old" for x
      using W5 that get4 [OF that(1)] m2(3) [OF that(1)] by simp
    ultimately have "written_file e old (c0 # cs) (\<lambda>i. m (data + of_nat i)) len m m'"
      using W5 W(2,4) sectors_of [of "unat len"] False unfolding written_file_def by (simp add: unat_gt_0)
    moreover have "fat12_write_file name data len m = Some (FAT12_SUCCESS, m')"
      using f m2(1) False c0 W(1) by (simp add: fat12_write_file_def Let_def flip: c0_def)
    ultimately show ?thesis by blast
  qed
qed

section \<open>Writing, then reading\<close>

text \<open>Chains that share no cluster with what was written are kept.\<close>

lemma written_file_other:
  assumes w: "written_file e old xs f len m m'" and e: "in_root e"
    and c: "file_chain m c cs" "set cs \<inter> set old = {}" "\<forall>x \<in> set cs. fat12_get_fat_entry m x \<noteq> 0"
  shows "file_chain m' c cs" and "i < 512 * length cs \<Longrightarrow> file_byte m' cs i = file_byte m cs i"
proof -
  have new: "x \<notin> set xs \<union> set old" if "x \<in> set cs" for x
    using that c(2,3) w by (auto simp: written_file_def free_clusters_def)
  have "fat12_get_fat_entry m' x = fat12_get_fat_entry m x" if "x \<in> set cs" for x
    using w new [OF that] file_chain_good [OF c(1) that] by (auto simp: written_file_def)
  then show "file_chain m' c cs" using c(1) file_chain_cong by blast
  assume "i < 512 * length cs"
  then have x: "cs ! (i div 512) \<in> set cs" by simp
  note at = sector_byte(1) [OF file_chain_good [OF c(1) x], of "i mod 512"]
  have "cluster_ptr (cs ! (i div 512)) + of_nat (i mod 512) \<notin> (\<lambda>k. e + of_nat k) ` {26..<32}"
    using at root_not_sector [OF e] by auto
  moreover have "\<forall>c \<in> set xs. cluster_ptr (cs ! (i div 512)) + of_nat (i mod 512) \<notin> sector c"
    using sector_disjoint [OF at] new [OF x] by auto
  moreover have "cluster_ptr (cs ! (i div 512)) + of_nat (i mod 512) \<notin> table_area" by (rule sector_table [OF at]) simp
  ultimately show "file_byte m' cs i = file_byte m cs i"
    using w by (simp add: written_file_def same_but_def file_byte_def)
qed

text \<open>What was written is read: the length is returned and the data are in the buffer.\<close>

lemma read_written_file:
  assumes f: "fat12_find_file name m = Some e" "attributes m e \<noteq> ATTR_DIRECTORY" and c: "file_chain m (first_cluster_low m e) old"
    and w: "written_file e old cs f len m m1" and enough: "unat len \<le> 512 * card (free_clusters m \<union> set old)"
    and buf: "off_disk buf (512 * ((unat len + 511) div 512))"
  shows "\<exists>m2. fat12_read_file name buf m1 = Some (Inr (int (unat len)), m2) \<and> (\<forall>i < unat len. m2 (buf + of_nat i) = f i)
    \<and> (\<forall>a. a \<notin> (\<lambda>i. buf + of_nat i) ` {..<512 * length cs} \<longrightarrow> m2 a = m1 a)"
proof -
  note e = find_file_member [OF f(1)]
  note W = w [unfolded written_file_def]
  have find: "fat12_find_file name m1 = Some e" using same_but_find_file [of e "set cs" m m1 name] W e f(1) by simp
  have attr: "attributes m1 e = attributes m e"
    using same_but_root [of e "set cs" m m1 e 11] root_in_image [of e 11 32 26] root_entries_in_root [OF e] W by simp
  have "card (free_clusters m \<union> set old) \<le> FAT_ENTRIES"
    using file_chain_good [OF c] by (intro card_clusters) (auto simp: free_clusters_def)
  then have len: "unat len \<le> 512 * FAT_ENTRIES" using enough by linarith
  have "off_disk buf (512 * length cs)" "512 * length cs < 4294967296" "unat len \<le> 512 * length cs"
    using buf W len by auto
  from read_chain_spec [OF _ this(1,2), of m1 "first_cluster_low m1 e"]
  obtain m2 where r: "read_chain buf (first_cluster_low m1 e) m1 = Some m2"
    "\<And>i. i < 512 * length cs \<Longrightarrow> m2 (buf + of_nat i) = file_byte m1 cs i"
    "\<And>a. a \<notin> (\<lambda>i. buf + of_nat i) ` {..<512 * length cs} \<Longrightarrow> m2 a = m1 a" using W by blast
  have "e + of_nat k \<notin> (\<lambda>i. buf + of_nat i) ` {..<512 * length cs}" if "k < 32" for k
    using root_disk [OF root_entries_in_root [OF e] that] \<open>off_disk buf (512 * length cs)\<close> by (auto simp: off_disk_def)
  then have "m2 (e + of_nat k) = m1 (e + of_nat k)" if "k < 32" for k using r(3) that by blast
  from this [of 28] this [of 29] this [of 30] this [of 31] have "file_size m2 e = file_size m1 e"
    by (simp add: load32_def add.assoc)
  then have "fat12_read_file name buf m1 = Some (Inr (int (unat len)), m2)"
    using find attr f(2) r(1) W len by (simp add: fat12_read_file_def sint_u32)
  moreover have "m2 (buf + of_nat i) = f i" if "i < unat len" for i
    using r(2) [of i] W that \<open>unat len \<le> 512 * length cs\<close> by simp
  ultimately show ?thesis using r(3) by blast
qed

text \<open>C6: Writing a file and reading it back. For an existing file of the root directory that is no
  directory, on a sound table, with its old clusters and the free ones enough for the data, and
  buffers that lie outside the disk, \<^verbatim>\<open>fat12_write_file\<close> returns and succeeds;
  \<^verbatim>\<open>fat12_read_file\<close> then returns the length and leaves the data in the buffer. Every chain of
  taken clusters that is not the file's own is still the same chain with the same bytes.\<close>

theorem fat12_write_read_roundtrip:
  assumes "fat12_find_file name m = Some e" "attributes m e \<noteq> ATTR_DIRECTORY" "table_ok m"
    and "file_chain m (first_cluster_low m e) old" "distinct old"
    and "unat len \<le> 512 * card (free_clusters m \<union> set old)"
    and "off_disk data (unat len)" "off_disk buf (512 * ((unat len + 511) div 512))"
  shows "\<exists>m1 m2. fat12_write_file name data len m = Some (FAT12_SUCCESS, m1)
    \<and> fat12_read_file name buf m1 = Some (Inr (int (unat len)), m2)
    \<and> (\<forall>i < unat len. m2 (buf + of_nat i) = m (data + of_nat i))
    \<and> (\<forall>c cs. file_chain m c cs \<longrightarrow> set cs \<inter> set old = {} \<longrightarrow> (\<forall>x \<in> set cs. fat12_get_fat_entry m x \<noteq> 0) \<longrightarrow>
         file_chain m1 c cs \<and> (\<forall>i < 512 * length cs. file_byte m1 cs i = file_byte m cs i))"
proof -
  obtain m1 cs where w: "fat12_write_file name data len m = Some (FAT12_SUCCESS, m1)"
    "written_file e old cs (\<lambda>i. m (data + of_nat i)) len m m1"
    using write_file_spec [OF assms(1-5,7,6)] by blast
  obtain m2 where "fat12_read_file name buf m1 = Some (Inr (int (unat len)), m2)"
    "\<forall>i < unat len. m2 (buf + of_nat i) = m (data + of_nat i)"
    using read_written_file [OF assms(1,2,4) w(2) assms(6,8)] by blast
  then show ?thesis
    using w(1) written_file_other [OF w(2) root_entries_in_root [OF find_file_member [OF assms(1)]]] by blast
qed

text \<open>A disk with one empty file, A.\<close>

definition small_disk :: mem where
  "small_disk a =
     (let n = unat a in
      if 0x28E00 \<le> n \<and> n < 0x28E03 \<or> 0x2A000 \<le> n \<and> n < 0x2A003 then 0xFF
      else if n = 0x2B200 then 65
      else if 0x2B200 < n \<and> n < 0x2B20B then 32
      else 0)"

lemma small_disk_table:
  "table_ok small_disk" "2 \<in> free_clusters small_disk"
proof -
  have at: "unat (at FAT1 k) = 0x28E00 + k" "unat (at FAT2 k) = 0x2A000 + k" if "k < 4608" for k
    using that by (simp_all add: at_def unat_add_u32 unat_of_nat_u32)
  have "mirrored small_disk" by (simp add: mirrored_def small_disk_def at Let_def)
  then show "table_ok small_disk" "2 \<in> free_clusters small_disk"
    by (simp_all add: table_ok_def get_bytes off_def at small_disk_def entry_of_def free_clusters_def good_cluster_def)
qed

lemma name_padding:
  "replicate 11 (32 :: u8) = 32 # replicate 10 32" "replicate 10 x = [x, x, x, x, x, x, x, x, x, x]"
  by (simp_all add: eval_nat_numeral)

lemma small_disk_find: "fat12_find_file (lit ''a'') small_disk = Some 0x2B200"
proof -
  obtain es where es: "root_entries = 0x2B200 # es"
    unfolding root_entries_def by (simp add: upt_conv_Cons get_sector_ptr_def del: upt_rec_numeral)
  have "entry_name small_disk 0x2B200 = 65 # replicate 10 32"
    by (simp add: name_padding entry_name_def small_disk_def upt_conv_Cons)
  moreover have "small_disk 0x2B200 = 65" by (simp add: small_disk_def)
  moreover have "fat12_parse_filename (lit ''a'') = Some (65 # replicate 10 32)"
    unfolding fat12_parse_filename_def name_padding(1) by (simp add: to_upper_def)
  ultimately show ?thesis by (simp add: fat12_find_file_def es)
qed

theorem fat12_write_read_roundtrip_witness:
  "\<exists>m1 m2. fat12_write_file (lit ''a'') 0x300000 3 small_disk = Some (FAT12_SUCCESS, m1)
     \<and> fat12_read_file (lit ''a'') 0x300100 m1 = Some (Inr 3, m2)"
proof -
  have "attributes small_disk 0x2B200 \<noteq> ATTR_DIRECTORY" "first_cluster_low small_disk 0x2B200 = 0"
    by (simp_all add: small_disk_def load16_def)
  moreover have "0 < card (free_clusters small_disk)" using small_disk_table(2) by (auto simp: card_gt_0_iff)
  moreover have "off_disk 0x300000 3"
    by (auto simp: off_disk_def disk_def unat_add_u32 unat_of_nat_u32)
  moreover have "off_disk 0x300100 512"
    by (auto simp: off_disk_def disk_def unat_add_u32 unat_of_nat_u32)
  ultimately show ?thesis
    using fat12_write_read_roundtrip [OF small_disk_find, of "[]" 3 "0x300000" "0x300100"] small_disk_table(1) by auto
qed

end
