(* ===== verification/Descriptors.thy ===== *)
theory Descriptors
  imports Prelude
begin

text \<open>
  The descriptor tables: \<^verbatim>\<open>kernel/gdt.c\<close>, \<^verbatim>\<open>kernel/idt.c\<close> and \<^verbatim>\<open>kernel/tss.c\<close>. Tables are maps from
  indices to entries; of the task state segment the two fields the kernel sets are kept, the
  others stay zero. \<open>gdt_at\<close>, \<open>idt_at\<close> and \<open>tss_at\<close> are the addresses the linker gives the static
  objects, \<open>isr\<close> the addresses of the assembly handlers, by
  interrupt number (\<^verbatim>\<open>isr8\<close>, \<^verbatim>\<open>isr13\<close>, \<^verbatim>\<open>isr14\<close>, \<^verbatim>\<open>timer_handler_asm\<close> at 32, \<^verbatim>\<open>keyboard_handler_asm\<close>
  at 33). Port writes are
  recorded in \<open>outs\<close>, the last one first. Loading a table register with the pointer
  structure is setting the register's limit and base.
\<close>

section \<open>State\<close>

record gdt_entry =
  limit_low :: u16
  base_low :: u16
  base_middle :: u8
  access :: u8
  granularity :: u8
  base_high :: u8

record idt_entry =
  ibase_low :: u16
  iselector :: u16
  izero :: u8
  iflags :: u8
  ibase_high :: u16

record tss =
  esp0 :: u32
  ss0 :: u32

record hw =
  gdt_entries :: "nat \<Rightarrow> gdt_entry"
  idt :: "nat \<Rightarrow> idt_entry"
  tss_entry :: tss
  gdtr :: "u16 \<times> u32"
  idtr :: "u16 \<times> u32"
  tr :: u16
  outs :: "(u16 \<times> u8) list"
  gdt_at :: u32
  idt_at :: u32
  tss_at :: u32
  isr :: "nat \<Rightarrow> u32"

definition outb :: "u16 \<Rightarrow> u8 \<Rightarrow> hw \<Rightarrow> hw" where
  "outb port v s = s\<lparr>outs := (port, v) # outs s\<rparr>"

section \<open>Segments\<close>

definition gdt_set_gate :: "nat \<Rightarrow> u32 \<Rightarrow> u32 \<Rightarrow> u8 \<Rightarrow> u8 \<Rightarrow> hw \<Rightarrow> hw" where
  "gdt_set_gate num base limit acc gran s =
     s\<lparr>gdt_entries := (gdt_entries s)(num :=
        \<lparr>limit_low = ucast (limit AND 0xFFFF), base_low = ucast (base AND 0xFFFF),
         base_middle = ucast (drop_bit 16 base AND 0xFF), access = acc,
         granularity = ucast (drop_bit 16 limit AND 0x0F) OR (gran AND 0xF0),
         base_high = ucast (drop_bit 24 base AND 0xFF)\<rparr>)\<rparr>"

definition init_gdt :: "hw \<Rightarrow> hw" where
  "init_gdt s =
     (let s1 = gdt_set_gate 0 0 0 0 0 s;
          s2 = gdt_set_gate 1 0 0xFFFFFFFF 0x9A 0xCF s1;
          s3 = gdt_set_gate 2 0 0xFFFFFFFF 0x92 0xCF s2;
          s4 = gdt_set_gate 3 0 0xFFFFFFFF 0xFA 0xCF s3;
          s5 = gdt_set_gate 4 0 0xFFFFFFFF 0xF2 0xCF s4;
          s6 = gdt_set_gate 5 0 0 0 0 s5
      in s6\<lparr>gdtr := (8 * 6 - 1, gdt_at s6)\<rparr>)"

definition init_tss :: "hw \<Rightarrow> hw" where
  "init_tss s =
     (let s1 = gdt_set_gate 5 (tss_at s) 104 0x89 0 s
      in s1\<lparr>tss_entry := \<lparr>esp0 = 0, ss0 = 0x10\<rparr>, tr := 0x28\<rparr>)"

definition set_kernel_stack :: "u32 \<Rightarrow> hw \<Rightarrow> hw" where
  "set_kernel_stack stack s = s\<lparr>tss_entry := (tss_entry s)\<lparr>esp0 := stack\<rparr>\<rparr>"

section \<open>Interrupts\<close>

definition idt_set_gate :: "u8 \<Rightarrow> u32 \<Rightarrow> u16 \<Rightarrow> u8 \<Rightarrow> hw \<Rightarrow> hw" where
  "idt_set_gate num base selector flags s =
     s\<lparr>idt := (idt s)(unat num :=
        \<lparr>ibase_low = ucast (base AND 0xFFFF), iselector = selector, izero = 0, iflags = flags,
         ibase_high = ucast (drop_bit 16 base AND 0xFFFF)\<rparr>)\<rparr>"

definition pic_setup :: "(u16 \<times> u8) list" where
  "pic_setup = [(0x20, 0x11), (0xA0, 0x11), (0x21, 0x20), (0xA1, 0x28), (0x21, 0x04), (0xA1, 0x02),
     (0x21, 0x01), (0xA1, 0x01), (0x21, 0xFC), (0xA1, 0xFF)]"

definition idt_init :: "hw \<Rightarrow> hw" where
  "idt_init s =
     (let s1 = s\<lparr>idt := (\<lambda>i. if i < 256 then \<lparr>ibase_low = 0, iselector = 0, izero = 0, iflags = 0, ibase_high = 0\<rparr> else idt s i)\<rparr>;
          s2 = fold (\<lambda>(port, v). outb port v) pic_setup s1;
          s3 = idt_set_gate 14 (isr s2 14) 0x08 0x8E s2;
          s4 = idt_set_gate 8 (isr s3 8) 0x08 0x8E s3;
          s5 = idt_set_gate 13 (isr s4 13) 0x08 0x8E s4
      in s5\<lparr>idtr := (8 * 256 - 1, idt_at s5)\<rparr>)"

definition keyboard_init :: "hw \<Rightarrow> hw" where
  "keyboard_init s = idt_set_gate 33 (isr s 33) 0x08 0x8E s"

section \<open>What the processor reads\<close>

text \<open>The base and the limit of a segment descriptor, in bytes, and the handler of a gate.\<close>

definition segment_base :: "gdt_entry \<Rightarrow> u32" where
  "segment_base d = ucast (base_low d) OR push_bit 16 (ucast (base_middle d)) OR push_bit 24 (ucast (base_high d))"

definition segment_limit :: "gdt_entry \<Rightarrow> u32" where
  "segment_limit d =
     (let l = ucast (limit_low d) OR push_bit 16 (ucast (granularity d AND 0x0F))
      in if bit (granularity d) 7 then push_bit 12 l OR 0xFFF else l)"

definition gate_handler :: "idt_entry \<Rightarrow> u32" where
  "gate_handler d = ucast (ibase_low d) OR push_bit 16 (ucast (ibase_high d))"

definition gate_present :: "idt_entry \<Rightarrow> bool" where
  "gate_present d \<longleftrightarrow> bit (iflags d) 7"

lemma segment_masks:
  "(0xFFFF :: u32) = mask 16" "(0xFF :: u32) = mask 8" "(0x0F :: u32) = mask 4" "(0x0F :: u8) = mask 4"
  "(0xF0 :: u8) = push_bit 4 (mask 4)" "(0xFFF :: u32) = mask 12"
  by (simp_all add: mask_eq_exp_minus_1)

lemma decode_base: "ucast (ucast (b AND 0xFFFF) :: u16) OR push_bit 16 (ucast (ucast (drop_bit 16 b AND 0xFF) :: u8))
    OR push_bit 24 (ucast (ucast (drop_bit 24 b AND 0xFF) :: u8)) = b" for b :: u32
  unfolding segment_masks
  by (rule bit_word_eqI, rename_tac n, case_tac "n < 16"; case_tac "n < 24"; auto simp: bit_simps not_less)

lemma decode_limit:
  "ucast (ucast (l AND 0xFFFF) :: u16) OR push_bit 16 (ucast ((ucast (drop_bit 16 l AND 0x0F) OR (g AND 0xF0) :: u8) AND 0x0F))
    = l AND mask 20" for l :: u32
  unfolding segment_masks
  by (rule bit_word_eqI, rename_tac n, case_tac "n < 16"; case_tac "n < 20"; auto simp: bit_simps not_less)

lemma decode_gran: "bit (ucast (drop_bit 16 (l :: u32) AND 0x0F) OR (g AND 0xF0) :: u8) 7 = bit g 7"
  unfolding segment_masks by (simp add: bit_simps)

lemma decode_handler: "ucast (ucast (b AND 0xFFFF) :: u16) OR push_bit 16 (ucast (ucast (drop_bit 16 b AND 0xFFFF) :: u16)) = b" for b :: u32
  unfolding segment_masks
  by (rule bit_word_eqI, rename_tac n, case_tac "n < 16"; auto simp: bit_simps not_less)

section \<open>Properties\<close>

text \<open>A descriptor says what it was told: for every base, limit, access byte and flags, the
  processor decodes the segment entry that \<^verbatim>\<open>gdt_set_gate\<close> writes to exactly that base, to
  the low twenty bits of the limit (in units of 4 KB when the granularity flag is set), and
  to the access byte, and the interrupt gate that \<^verbatim>\<open>idt_set_gate\<close> writes to its handler; no
  other entry changes.\<close>

theorem descriptors_decode:
  "segment_base (gdt_entries (gdt_set_gate n base limit acc gran s) n) = base
   \<and> segment_limit (gdt_entries (gdt_set_gate n base limit acc gran s) n) =
       (if bit gran 7 then push_bit 12 (limit AND mask 20) OR 0xFFF else limit AND mask 20)
   \<and> access (gdt_entries (gdt_set_gate n base limit acc gran s) n) = acc
   \<and> gate_handler (idt (idt_set_gate i handler sel fl s) (unat i)) = handler
   \<and> gate_present (idt (idt_set_gate i handler sel fl s) (unat i)) = bit fl 7
   \<and> gdt_entries (gdt_set_gate n base limit acc gran s) = (gdt_entries s)(n := gdt_entries (gdt_set_gate n base limit acc gran s) n)
   \<and> idt (idt_set_gate i handler sel fl s) = (idt s)(unat i := idt (idt_set_gate i handler sel fl s) (unat i))"
  by (simp add: gdt_set_gate_def idt_set_gate_def segment_base_def segment_limit_def gate_handler_def gate_present_def
      decode_base decode_limit decode_gran decode_handler)

end
