(* ===== verification/Timer.thy ===== *)
theory Timer
  imports Process Ktimer Descriptors
begin

text \<open>
  The timer driver, \<^verbatim>\<open>drivers/timer.c\<close>: the tick counter, the table of sixteen periodic
  callbacks and the interrupt handler, which runs the callbacks, the kernel timers and, on
  every tenth tick, the scheduler. \<open>call f\<close>, a parameter, is the effect of calling the
  callback at address \<open>f\<close>; it may do anything to the state. The busy wait reads the tick
  counter until the interrupt handler has moved it: \<open>reads\<close> are the values it finds.
\<close>

section \<open>State and operations\<close>

abbreviation MAX_CALLBACKS :: nat where "MAX_CALLBACKS \<equiv> 16"

record timer_callback =
  cb_callback :: ptr
  cb_interval :: u32
  cb_next_tick :: u32
  cb_active :: bool

record 'e timer_sys =
  tick :: u32
  timer_frequency :: u32
  callbacks_executed :: u32
  callbacks :: "nat \<Rightarrow> timer_callback"
  ts_ktimers :: "'e kt_state"
  ts_procs :: psys
  ts_hw :: hw

definition put_callback :: "nat \<Rightarrow> timer_callback \<Rightarrow> 'e timer_sys \<Rightarrow> 'e timer_sys" where
  "put_callback i c s = s\<lparr>callbacks := (callbacks s)(i := c)\<rparr>"

definition no_callback :: timer_callback where
  "no_callback = \<lparr>cb_callback = 0, cb_interval = 0, cb_next_tick = 0, cb_active = False\<rparr>"

definition run_callback :: "(ptr \<Rightarrow> 'e timer_sys \<Rightarrow> 'e timer_sys) \<Rightarrow> nat \<Rightarrow> 'e timer_sys \<Rightarrow> 'e timer_sys" where
  "run_callback call i s =
     (if cb_active (callbacks s i) \<and> cb_next_tick (callbacks s i) \<le> tick s then
        let s1 = call (cb_callback (callbacks s i)) s;
            s2 = put_callback i ((callbacks s1 i)\<lparr>cb_next_tick := tick s1 + cb_interval (callbacks s1 i)\<rparr>) s1
        in s2\<lparr>callbacks_executed := callbacks_executed s2 + 1\<rparr>
      else s)"

definition timer_handler :: "(ptr \<Rightarrow> 'e timer_sys \<Rightarrow> 'e timer_sys) \<Rightarrow> (ptr \<Rightarrow> u32 \<Rightarrow> 'e kt_state \<Rightarrow> 'e kt_state) \<Rightarrow>
    'e timer_sys \<Rightarrow> (control \<times> 'e timer_sys) option" where
  "timer_handler call run s =
     (let s1 = s\<lparr>tick := tick s + 1\<rparr>;
          s2 = s1\<lparr>ts_hw := outb 0x20 0x20 (ts_hw s1)\<rparr>;
          s3 = fold (run_callback call) [0..<MAX_CALLBACKS] s2
      in Option.bind (ktimer_run run (ts_ktimers s3)) (\<lambda>k.
           let s4 = s3\<lparr>ts_ktimers := k\<rparr>
           in if tick s4 mod 10 = 0
              then Option.bind (schedule (ts_procs s4)) (\<lambda>(r, p). Some (r, s4\<lparr>ts_procs := p\<rparr>))
              else Some (Returned, s4)))"

text \<open>A frequency of 0 divides by zero: None.\<close>

definition init_timer :: "u32 \<Rightarrow> 'e timer_sys \<Rightarrow> 'e timer_sys option" where
  "init_timer frequency s =
     (let s1 = s\<lparr>timer_frequency := frequency\<rparr>;
          s2 = fold (\<lambda>i. put_callback i no_callback) [0..<MAX_CALLBACKS] s1;
          h = idt_set_gate 32 (isr (ts_hw s2) 32) 0x08 0x8E (ts_hw s2)
      in if frequency = 0 then None
         else let divisor = 1193180 div frequency;
                  h1 = outb 0x43 0x36 h;
                  h2 = outb 0x40 (ucast (divisor AND 0xFF)) h1;
                  h3 = outb 0x40 (ucast (drop_bit 8 divisor AND 0xFF)) h2
              in Some (s2\<lparr>ts_hw := h3\<rparr>))"

definition timer_get_ticks :: "'e timer_sys \<Rightarrow> u32" where
  "timer_get_ticks s = tick s"

definition timer_get_uptime_ms :: "'e timer_sys \<Rightarrow> u32" where
  "timer_get_uptime_ms s = (if timer_frequency s = 0 then 0 else (tick s * 1000) div timer_frequency s)"

partial_function (option) wait_until :: "u32 \<Rightarrow> (nat \<Rightarrow> u32) \<Rightarrow> nat \<Rightarrow> nat option" where
  "wait_until eticks reads n = (if reads n < eticks then wait_until eticks reads (n + 1) else Some n)"

text \<open>The number of reads after which \<^verbatim>\<open>timer_wait\<close> returns.\<close>

definition timer_wait :: "u32 \<Rightarrow> (nat \<Rightarrow> u32) \<Rightarrow> 'e timer_sys \<Rightarrow> nat option" where
  "timer_wait ticks reads s = wait_until (tick s + ticks) reads 0"

definition timer_sleep_ms :: "u32 \<Rightarrow> (nat \<Rightarrow> u32) \<Rightarrow> 'e timer_sys \<Rightarrow> nat option" where
  "timer_sleep_ms ms reads s =
     (if timer_frequency s = 0 then Some 0
      else let n = (ms * timer_frequency s) div 1000
           in timer_wait (if n = 0 then 1 else n) reads s)"

definition timer_register_callback :: "ptr \<Rightarrow> u32 \<Rightarrow> 'e timer_sys \<Rightarrow> int \<times> 'e timer_sys" where
  "timer_register_callback callback interval s =
     (if callback = 0 \<or> interval = 0 then (-1, s)
      else case find (\<lambda>i. \<not> cb_active (callbacks s i)) [0..<MAX_CALLBACKS] of
        None \<Rightarrow> (-1, s)
      | Some i \<Rightarrow> (int i, put_callback i
          \<lparr>cb_callback = callback, cb_interval = interval, cb_next_tick = tick s + interval, cb_active = True\<rparr> s))"

definition timer_unregister_callback :: "int \<Rightarrow> 'e timer_sys \<Rightarrow> 'e timer_sys" where
  "timer_unregister_callback callback_id s =
     (if 0 \<le> callback_id \<and> callback_id < int MAX_CALLBACKS
      then put_callback (nat callback_id)
             ((callbacks s (nat callback_id))\<lparr>cb_active := False, cb_callback := 0\<rparr>) s
      else s)"

definition timer_get_stats :: "'e timer_sys \<Rightarrow> u32 \<times> u32" where
  "timer_get_stats s = (tick s, callbacks_executed s)"

section \<open>The table of callbacks\<close>

lemma put_callback_sel [simp]:
  "callbacks (put_callback i c s) = (callbacks s)(i := c)" "tick (put_callback i c s) = tick s"
  "callbacks_executed (put_callback i c s) = callbacks_executed s" "ts_hw (put_callback i c s) = ts_hw s"
  "timer_frequency (put_callback i c s) = timer_frequency s" "ts_ktimers (put_callback i c s) = ts_ktimers s"
  "ts_procs (put_callback i c s) = ts_procs s"
  by (simp_all add: put_callback_def)

definition callbacks_used :: "'e timer_sys \<Rightarrow> nat set" where
  "callbacks_used s = {i. i < MAX_CALLBACKS \<and> cb_active (callbacks s i)}"

text \<open>Registering as taking a slot of the table, -1 being a full one.\<close>

definition register_slot :: "ptr \<times> u32 \<Rightarrow> 'e timer_sys \<Rightarrow> (nat \<times> 'e timer_sys) option" where
  "register_slot cb s =
     (case timer_register_callback (fst cb) (snd cb) s of (r, s') \<Rightarrow> if r < 0 then None else Some (nat r, s'))"

interpretation callback_slots: slot_table register_slot "\<lambda>i. timer_unregister_callback (int i)" callbacks_used "\<lambda>_. True"
    "\<lambda>cb. fst cb \<noteq> 0 \<and> snd cb \<noteq> 0" MAX_CALLBACKS
proof unfold_locales
  fix s :: "'e timer_sys" and cb :: "ptr \<times> u32"
  assume v: "fst cb \<noteq> 0 \<and> snd cb \<noteq> 0"
  show "{..<MAX_CALLBACKS} \<subseteq> callbacks_used s" if "register_slot cb s = None"
    using that v unfolding register_slot_def timer_register_callback_def
    by (auto simp: callbacks_used_def find_upt_None_iff split: option.splits)
  show "True \<and> callbacks_used s' = insert i (callbacks_used s) \<and> i < MAX_CALLBACKS \<and> i \<notin> callbacks_used s \<and> {..<i} \<subseteq> callbacks_used s"
    if reg: "register_slot cb s = Some (i, s')" for i s'
  proof -
    obtain j where j: "find (\<lambda>i. \<not> cb_active (callbacks s i)) [0..<MAX_CALLBACKS] = Some j" "i = j"
      "s' = put_callback j \<lparr>cb_callback = fst cb, cb_interval = snd cb, cb_next_tick = tick s + snd cb, cb_active = True\<rparr> s"
      using reg v unfolding register_slot_def timer_register_callback_def by (auto split: option.splits)
    then show ?thesis unfolding find_upt_Some_iff by (auto simp: callbacks_used_def)
  qed
next
  fix s :: "'e timer_sys" and i
  assume "i < MAX_CALLBACKS"
  then show "True \<and> callbacks_used (timer_unregister_callback (int i) s) = callbacks_used s - {i}"
    by (auto simp: callbacks_used_def timer_unregister_callback_def split: if_splits)
qed

section \<open>A tick\<close>

text \<open>One round of the table, for callbacks that drive the hardware only.\<close>

lemma run_callbacks:
  fixes g :: "ptr \<Rightarrow> hw \<Rightarrow> hw" and s :: "'e timer_sys"
  assumes "distinct js"
  defines "due \<equiv> filter (\<lambda>i. cb_active (callbacks s i) \<and> cb_next_tick (callbacks s i) \<le> tick s) js"
  shows "fold (run_callback (\<lambda>f s. s\<lparr>ts_hw := g f (ts_hw s)\<rparr>)) js s =
    s\<lparr>callbacks := (\<lambda>i. if i \<in> set due then (callbacks s i)\<lparr>cb_next_tick := tick s + cb_interval (callbacks s i)\<rparr> else callbacks s i),
      callbacks_executed := callbacks_executed s + of_nat (length due),
      ts_hw := fold g (map (\<lambda>i. cb_callback (callbacks s i)) due) (ts_hw s)\<rparr>"
  using assms(1) unfolding due_def
proof (induction js arbitrary: s)
  case Nil
  then show ?case by simp
next
  case (Cons j js)
  let ?s = "run_callback (\<lambda>f s. s\<lparr>ts_hw := g f (ts_hw s)\<rparr>) j s"
  have same: "callbacks ?s i = callbacks s i" if "i \<in> set js" for i
    using that Cons.prems by (auto simp: run_callback_def Let_def)
  have "tick ?s = tick s" by (simp add: run_callback_def Let_def)
  have due: "filter (\<lambda>i. cb_active (callbacks ?s i) \<and> cb_next_tick (callbacks ?s i) \<le> tick s) js
      = filter (\<lambda>i. cb_active (callbacks s i) \<and> cb_next_tick (callbacks s i) \<le> tick s) js"
    using same by (intro filter_cong) auto
  have m: "map (\<lambda>i. cb_callback (callbacks ?s i)) (filter P js) = map (\<lambda>i. cb_callback (callbacks s i)) (filter P js)" for P
    using same by (intro map_cong) auto
  from Cons.prems have IH: "distinct js" "j \<notin> set js" by simp_all
  define D where "D = filter (\<lambda>i. cb_active (callbacks s i) \<and> cb_next_tick (callbacks s i) \<le> tick s) js"
  have tail: "fold (run_callback (\<lambda>f s. s\<lparr>ts_hw := g f (ts_hw s)\<rparr>)) js ?s =
    ?s\<lparr>callbacks := (\<lambda>i. if i \<in> set D then (callbacks ?s i)\<lparr>cb_next_tick := tick s + cb_interval (callbacks ?s i)\<rparr> else callbacks ?s i),
      callbacks_executed := callbacks_executed ?s + of_nat (length D),
      ts_hw := fold g (map (\<lambda>i. cb_callback (callbacks s i)) D) (ts_hw ?s)\<rparr>"
    using Cons.IH [OF IH(1), of ?s] unfolding \<open>tick ?s = tick s\<close> due m D_def .
  have "j \<notin> set D" using IH(2) by (simp add: D_def)
  then show ?case
    unfolding fold_simps tail
    by (simp add: D_def [symmetric]) (auto simp: run_callback_def put_callback_def Let_def fun_eq_iff intro!: timer_sys.equality)
qed

section \<open>Waiting\<close>

text \<open>The counter read once a tick: the wait is over when it has reached the target.\<close>

lemma wait_until_clock:
  assumes "unat start + k < 4294967296" "n \<le> k"
  shows "wait_until (start + of_nat k) (\<lambda>i. start + of_nat i) n = Some k"
  using assms(2)
proof (induction "k - n" arbitrary: n)
  case 0
  then show ?case by (subst wait_until.simps) simp
next
  case (Suc d)
  have "unat (start + of_nat i) = unat start + i" if "i \<le> k" for i
    using that assms(1) by (subst unat_add_u32) (simp_all add: unat_of_nat_u32)
  then have "start + of_nat n < start + of_nat k" using Suc.hyps(2) by (simp add: word_less_nat_alt)
  moreover have "wait_until (start + of_nat k) (\<lambda>i. start + of_nat i) (n + 1) = Some k"
    using Suc.hyps(2) by (intro Suc.hyps(1)) simp_all
  ultimately show ?case by (subst wait_until.simps) simp
qed

section \<open>Properties\<close>

text \<open>C33: One timer interrupt, with callbacks that drive the hardware only: the tick counter goes up
  by one, the interrupt is acknowledged first, exactly the active callbacks whose tick has come
  are called, once each and in the order of their slots, and are due again one interval later;
  then the kernel timers run, and on every tenth tick the scheduler.\<close>

theorem timer_handler_tick:
  "timer_handler (\<lambda>f s. s\<lparr>ts_hw := g f (ts_hw s)\<rparr>) run s =
     (let t = tick s + 1;
          due = filter (\<lambda>i. cb_active (callbacks s i) \<and> cb_next_tick (callbacks s i) \<le> t) [0..<MAX_CALLBACKS];
          s' = s\<lparr>tick := t,
                 callbacks := (\<lambda>i. if i \<in> set due then (callbacks s i)\<lparr>cb_next_tick := t + cb_interval (callbacks s i)\<rparr> else callbacks s i),
                 callbacks_executed := callbacks_executed s + of_nat (length due),
                 ts_hw := fold g (map (\<lambda>i. cb_callback (callbacks s i)) due) (outb 0x20 0x20 (ts_hw s))\<rparr>
      in Option.bind (ktimer_run run (ts_ktimers s)) (\<lambda>k.
           if t mod 10 = 0 then Option.bind (schedule (ts_procs s)) (\<lambda>(r, p). Some (r, s'\<lparr>ts_ktimers := k, ts_procs := p\<rparr>))
           else Some (Returned, s'\<lparr>ts_ktimers := k\<rparr>)))"
  unfolding timer_handler_def Let_def run_callbacks [OF distinct_upt] by (simp del: upt_rec_numeral cong: if_cong)

text \<open>Registering callbacks hands out the slots 0 to 15 in order and refuses the seventeenth; when all
  are taken and one is given back, the next registration gets its slot.\<close>

theorem timer_slots_in_order:
  assumes "\<forall>i < MAX_CALLBACKS. \<not> cb_active (callbacks s i)" and "\<forall>cb \<in> set cbs. fst cb \<noteq> 0 \<and> snd cb \<noteq> 0"
    and "length cbs = MAX_CALLBACKS" and "f \<noteq> 0" "iv \<noteq> 0" "i < MAX_CALLBACKS"
  shows "\<exists>s'. callback_slots.acquire_all cbs s = Some ([0..<MAX_CALLBACKS], s')
    \<and> timer_register_callback f iv s' = (-1, s')
    \<and> fst (timer_register_callback f iv (timer_unregister_callback (int i) s')) = int i"
proof -
  have "callbacks_used s = {..<0}" using assms(1) by (auto simp: callbacks_used_def)
  from callback_slots.acquire_in_order [OF TrueI this assms(2)] assms(3) obtain s' where
    s': "callback_slots.acquire_all cbs s = Some ([0..<MAX_CALLBACKS], s')" "callbacks_used s' = {..<MAX_CALLBACKS}" by auto
  have "find (\<lambda>i. \<not> cb_active (callbacks s' i)) [0..<MAX_CALLBACKS] = None"
    using s'(2) unfolding find_upt_None_iff by (auto simp: callbacks_used_def)
  then have "timer_register_callback f iv s' = (-1, s')"
    unfolding timer_register_callback_def by (simp only: option.case if_cancel)
  moreover have "\<exists>t. register_slot (f, iv) (timer_unregister_callback (int i) s') = Some (i, t)"
    using callback_slots.release_acquire [of "(f, iv)" s' i] s'(2) assms(4-6) by auto
  then have "fst (timer_register_callback f iv (timer_unregister_callback (int i) s')) = int i"
    by (auto simp: register_slot_def split: prod.splits if_splits)
  ultimately show ?thesis using s'(1) by blast
qed

definition stopped_timer :: "'e timer_sys \<Rightarrow> 'e timer_sys" where
  "stopped_timer s = s\<lparr>tick := 7, timer_frequency := 100, callbacks := (\<lambda>_. no_callback)\<rparr>"

theorem timer_slots_in_order_witness:
  "\<forall>s. \<exists>s'. callback_slots.acquire_all (replicate 16 (0x1000, 5)) (stopped_timer s) = Some ([0..<16], s')
    \<and> timer_register_callback 0x2000 1 s' = (-1, s')"
proof
  fix s :: "'a timer_sys"
  have "\<forall>i < MAX_CALLBACKS. \<not> cb_active (callbacks (stopped_timer s) i)"
    "\<forall>cb \<in> set (replicate 16 (0x1000 :: ptr, 5 :: u32)). fst cb \<noteq> 0 \<and> snd cb \<noteq> 0"
    by (simp_all add: stopped_timer_def no_callback_def)
  from timer_slots_in_order [OF this, of "0x2000" 1 3]
  show "\<exists>s'. callback_slots.acquire_all (replicate 16 (0x1000, 5)) (stopped_timer s) = Some ([0..<16], s')
    \<and> timer_register_callback 0x2000 1 s' = (-1, s')" by (auto simp del: upt_rec_numeral)
qed

text \<open>Time. The uptime in milliseconds is the tick count times 1000 divided by the frequency as long
  as the product fits; at 100 Hz it does for 4294967 ticks, not quite twelve hours, and with the next
  tick the uptime falls back to 7 ms. A wait with the counter read at every tick returns after exactly the
  ticks asked for, unless the target overflows the counter: then it returns at once.\<close>

theorem timer_clock_bounds:
  assumes "unat (tick s) \<le> 4294967" "timer_frequency s \<noteq> 0"
  shows "unat (timer_get_uptime_ms s) = unat (tick s) * 1000 div unat (timer_frequency s)
    \<and> timer_get_uptime_ms (s\<lparr>tick := 4294968, timer_frequency := 100\<rparr>) = 7
    \<and> (unat (tick s) + unat n < 4294967296 \<longrightarrow> timer_wait n (\<lambda>i. tick s + of_nat i) s = Some (unat n))
    \<and> (4294967296 \<le> unat (tick s) + unat n \<longrightarrow> timer_wait n (\<lambda>i. tick s + of_nat i) s = Some 0)"
proof (intro conjI impI)
  show "unat (timer_get_uptime_ms s) = unat (tick s) * 1000 div unat (timer_frequency s)"
    using assms by (simp add: timer_get_uptime_ms_def unat_div unat_word_ariths)
  show "timer_get_uptime_ms (s\<lparr>tick := 4294968, timer_frequency := 100\<rparr>) = 7"
    by (simp add: timer_get_uptime_ms_def)
  show "timer_wait n (\<lambda>i. tick s + of_nat i) s = Some (unat n)" if "unat (tick s) + unat n < 4294967296"
    using wait_until_clock [OF that, of 0] by (simp add: timer_wait_def)
  assume o: "4294967296 \<le> unat (tick s) + unat n"
  then have "unat (tick s + n) = unat (tick s) + unat n - 4294967296"
    using unat_lt_two_power_32 [of "tick s"] unat_lt_two_power_32 [of n] by (simp add: unat_word_ariths le_mod_geq [OF o] del: unat_lt_two_power_32)
  then have "\<not> tick s < tick s + n"
    using unat_lt_two_power_32 [of n] unfolding word_less_nat_alt by linarith
  then show "timer_wait n (\<lambda>i. tick s + of_nat i) s = Some 0"
    unfolding timer_wait_def by (subst wait_until.simps) simp
qed

theorem timer_clock_bounds_witness:
  "\<forall>s. unat (timer_get_uptime_ms (stopped_timer s)) = 70
    \<and> timer_wait 3 (\<lambda>i. 7 + of_nat i) (stopped_timer s) = Some 3 \<and> timer_wait 0xFFFFFFFF (\<lambda>i. 7 + of_nat i) (stopped_timer s) = Some 0"
proof
  fix s :: "'a timer_sys"
  have "unat (tick (stopped_timer s)) \<le> 4294967" "timer_frequency (stopped_timer s) \<noteq> 0" by (simp_all add: stopped_timer_def)
  from timer_clock_bounds [OF this, of 3] timer_clock_bounds [OF this, of "0xFFFFFFFF"]
  show "unat (timer_get_uptime_ms (stopped_timer s)) = 70
    \<and> timer_wait 3 (\<lambda>i. 7 + of_nat i) (stopped_timer s) = Some 3 \<and> timer_wait 0xFFFFFFFF (\<lambda>i. 7 + of_nat i) (stopped_timer s) = Some 0"
    by (simp add: stopped_timer_def)
qed

definition gate_for :: "u32 \<Rightarrow> idt_entry" where
  "gate_for handler = \<lparr>ibase_low = ucast (handler AND 0xFFFF), iselector = 0x08, izero = 0, iflags = 0x8E,
     ibase_high = ucast (drop_bit 16 handler AND 0xFFFF)\<rparr>"

lemma gate_for [simp]: "gate_present (gate_for f)" "gate_handler (gate_for f) = f"
  by (simp_all add: gate_for_def gate_present_def gate_handler_def decode_handler)

lemma gate_set: "idt_set_gate n f 0x08 0x8E h = h\<lparr>idt := (idt h)(unat n := gate_for f)\<rparr>"
  by (simp add: idt_set_gate_def gate_for_def)

lemma outb_sel [simp]:
  "idt (outb p v h) = idt h" "isr (outb p v h) = isr h" "gdt_entries (outb p v h) = gdt_entries h" "idt_at (outb p v h) = idt_at h"
  by (simp_all add: outb_def)

lemma idt_init_sel:
  "isr (idt_init h) = isr h" "gdt_entries (idt_init h) = gdt_entries h"
  "idt (idt_init h) = (\<lambda>i. if i < 256 then \<lparr>ibase_low = 0, iselector = 0, izero = 0, iflags = 0, ibase_high = 0\<rparr> else idt h i)
     (14 := gate_for (isr h 14), 8 := gate_for (isr h 8), 13 := gate_for (isr h 13))"
  by (simp_all add: idt_init_def pic_setup_def gate_set Let_def)

lemma fold_put_callback_hw: "ts_hw (fold (\<lambda>i. put_callback i c) is s) = ts_hw s"
  by (induction "is" arbitrary: s) simp_all

text \<open>C35: The interrupts the kernel can take. After \<^verbatim>\<open>init_gdt\<close>, \<^verbatim>\<open>init_tss\<close>, \<^verbatim>\<open>idt_init\<close>,
  \<^verbatim>\<open>init_timer\<close> and \<^verbatim>\<open>keyboard_init\<close>, the four code and data segments cover all 4 GB, and the gates
  present are those of the double fault, the protection fault, the page fault, the timer and the keyboard, each
  with its handler. There is none for interrupt 0x80, so no system call can be made.\<close>

theorem boot_gates:
  "\<exists>s'. init_timer 100 (s\<lparr>ts_hw := idt_init (init_tss (init_gdt h))\<rparr>) = Some s'
    \<and> {i. i < 256 \<and> gate_present (idt (keyboard_init (ts_hw s')) i)} = {8, 13, 14, 32, 33}
    \<and> map (\<lambda>i. gate_handler (idt (keyboard_init (ts_hw s')) i)) [8, 13, 14, 32, 33] = map (isr h) [8, 13, 14, 32, 33]
    \<and> map (\<lambda>i. (segment_base (gdt_entries (ts_hw s') i), segment_limit (gdt_entries (ts_hw s') i))) [1, 2, 3, 4]
        = [(0, 0xFFFFFFFF), (0, 0xFFFFFFFF), (0, 0xFFFFFFFF), (0, 0xFFFFFFFF)]"
proof -
  let ?h = "init_tss (init_gdt h)"
  have i: "isr ?h = isr h" by (simp add: init_tss_def init_gdt_def gdt_set_gate_def Let_def)
  obtain s' where s': "init_timer 100 (s\<lparr>ts_hw := idt_init ?h\<rparr>) = Some s'"
    "idt (ts_hw s') = (idt (idt_init ?h))(32 := gate_for (isr ?h 32))" "isr (ts_hw s') = isr ?h"
    "gdt_entries (ts_hw s') = gdt_entries ?h"
    by (simp add: init_timer_def Let_def gate_set fold_put_callback_hw idt_init_sel del: upt_rec_numeral)
  have gates: "idt (keyboard_init (ts_hw s')) = (\<lambda>i. if i < 256 then \<lparr>ibase_low = 0, iselector = 0, izero = 0, iflags = 0, ibase_high = 0\<rparr> else idt ?h i)
     (14 := gate_for (isr h 14), 8 := gate_for (isr h 8), 13 := gate_for (isr h 13), 32 := gate_for (isr h 32), 33 := gate_for (isr h 33))"
    by (simp add: keyboard_init_def gate_set s'(2,3) i idt_init_sel)
  have "{i. i < 256 \<and> gate_present (idt (keyboard_init (ts_hw s')) i)} = {8, 13, 14, 32, 33}"
  proof -
    have "\<not> gate_present \<lparr>ibase_low = 0, iselector = 0, izero = 0, iflags = 0, ibase_high = 0\<rparr>" by (simp add: gate_present_def)
    then show ?thesis unfolding gates by (auto split: if_splits)
  qed
  moreover have "map (\<lambda>i. gate_handler (idt (keyboard_init (ts_hw s')) i)) [8, 13, 14, 32, 33] = map (isr h) [8, 13, 14, 32, 33]"
    unfolding gates by simp
  moreover have "map (\<lambda>i. (segment_base (gdt_entries ?h i), segment_limit (gdt_entries ?h i))) [1, 2, 3, 4]
        = [(0, 0xFFFFFFFF), (0, 0xFFFFFFFF), (0, 0xFFFFFFFF), (0, 0xFFFFFFFF)]"
    by (simp add: init_tss_def init_gdt_def gdt_set_gate_def Let_def segment_base_def segment_limit_def)
  ultimately show ?thesis using s'(1,4) by auto
qed

end
