(* ===== verification/Workqueue.thy ===== *)
theory Workqueue
  imports Process
begin

text \<open>
  Deferred work, \<^verbatim>\<open>kernel/workqueue.c\<close>. A work's list node is its first field, so a node address
  is a work address. The functions of works are code outside this component: \<open>call f w\<close>, a
  parameter, is the effect of calling the function at \<open>f\<close> on the work \<open>w\<close>; \<open>wq_env\<close> is what of the
  machine the component does not know. The worker is one iteration of its endless loop, with a
  mark when it then yields; \<open>others n\<close> is what other processes do during the \<open>n\<close>th
  yield of \<^verbatim>\<open>flush_work\<close>.
\<close>

section \<open>State and operations\<close>

record work_struct =
  w_func :: ptr
  w_pending :: bool

record 'e wq =
  works :: "ptr \<Rightarrow> work_struct"
  wlinks :: links
  work_queue :: ptr
  pending_work_count :: int
  wq_env :: 'e

definition INIT_WORK :: "ptr \<Rightarrow> ptr \<Rightarrow> 'e wq \<Rightarrow> 'e wq" where
  "INIT_WORK work func s =
     s\<lparr>wlinks := init_list_head work (wlinks s), works := (works s)(work := \<lparr>w_func = func, w_pending = False\<rparr>)\<rparr>"

definition take_work :: "'e wq \<Rightarrow> ptr \<times> 'e wq" where
  "take_work s =
     (let work = lnext (wlinks s) (work_queue s)
      in (work, s\<lparr>wlinks := list_del work (wlinks s), works := (works s)(work := (works s work)\<lparr>w_pending := False\<rparr>),
            pending_work_count := pending_work_count s - 1\<rparr>))"

definition worker_iteration :: "(ptr \<Rightarrow> ptr \<Rightarrow> 'e wq \<Rightarrow> 'e wq) \<Rightarrow> 'e wq \<Rightarrow> bool \<times> 'e wq" where
  "worker_iteration call s =
     (let s1 = (if \<not> list_empty (work_queue s) (wlinks s)
                then case take_work s of (work, s0) \<Rightarrow>
                  if w_func (works s0 work) \<noteq> 0 then call (w_func (works s0 work)) work s0 else s0
                else s)
      in (list_empty (work_queue s1) (wlinks s1), s1))"

text \<open>\<open>worker_thread\<close> is the address of the worker's code.\<close>

definition workqueue_init :: "u32 \<Rightarrow> psys \<Rightarrow> psys option" where
  "workqueue_init worker_thread s = process_create worker_thread s"

definition schedule_work :: "ptr \<Rightarrow> 'e wq \<Rightarrow> int \<times> 'e wq" where
  "schedule_work work s =
     (if work = 0 \<or> w_func (works s work) = 0 then (0, s)
      else if w_pending (works s work) then (0, s)
      else (1, s\<lparr>wlinks := list_add_tail work (work_queue s) (wlinks s),
                 works := (works s)(work := (works s work)\<lparr>w_pending := True\<rparr>),
                 pending_work_count := pending_work_count s + 1\<rparr>))"

text \<open>The three steps of an accepted submission, between which the timer may take the processor away.\<close>

definition submit_link :: "ptr \<Rightarrow> 'e wq \<Rightarrow> 'e wq" where
  "submit_link work s = s\<lparr>wlinks := list_add_tail work (work_queue s) (wlinks s)\<rparr>"

definition submit_mark :: "ptr \<Rightarrow> 'e wq \<Rightarrow> 'e wq" where
  "submit_mark work s = s\<lparr>works := (works s)(work := (works s work)\<lparr>w_pending := True\<rparr>)\<rparr>"

definition submit_count :: "'e wq \<Rightarrow> 'e wq" where
  "submit_count s = s\<lparr>pending_work_count := pending_work_count s + 1\<rparr>"

partial_function (option) flush_loop :: "(nat \<Rightarrow> 'e wq \<Rightarrow> 'e wq) \<Rightarrow> ptr \<Rightarrow> nat \<Rightarrow> 'e wq \<Rightarrow> (nat \<times> 'e wq) option" where
  "flush_loop others work n s =
     (if w_pending (works s work) then flush_loop others work (n + 1) (others n s) else Some (n, s))"

definition flush_work :: "(nat \<Rightarrow> 'e wq \<Rightarrow> 'e wq) \<Rightarrow> ptr \<Rightarrow> 'e wq \<Rightarrow> (nat \<times> 'e wq) option" where
  "flush_work others work s = (if work = 0 then Some (0, s) else flush_loop others work 0 s)"

definition workqueue_get_pending_count :: "'e wq \<Rightarrow> int" where
  "workqueue_get_pending_count s = pending_work_count s"

section \<open>Invariant\<close>

text \<open>The works of the queue are those marked pending, and they are counted; the list head is no work.\<close>

definition wq_inv :: "'e wq \<Rightarrow> ptr list \<Rightarrow> bool" where
  "wq_inv s ws \<longleftrightarrow> dlist (wlinks s) (work_queue s) ws \<and> pending_work_count s = int (length ws)
     \<and> w_func (works s (work_queue s)) = 0 \<and> (\<forall>w \<in> set ws. w_func (works s w) \<noteq> 0)
     \<and> (\<forall>w. w \<noteq> work_queue s \<longrightarrow> (w_pending (works s w) \<longleftrightarrow> w \<in> set ws))"

lemma schedule_work_cases:
  assumes "wq_inv s ws"
  obtains (refused) "fst (schedule_work w s) = 0" "snd (schedule_work w s) = s"
      "w = 0 \<or> w_func (works s w) = 0 \<or> w \<in> set ws"
  | (accepted) "fst (schedule_work w s) = 1" "wq_inv (snd (schedule_work w s)) (ws @ [w])" "w \<noteq> 0" "w_func (works s w) \<noteq> 0" "w \<notin> set ws"
proof (cases "w = 0 \<or> w_func (works s w) = 0 \<or> w_pending (works s w)")
  case True
  then have "w = 0 \<or> w_func (works s w) = 0 \<or> w \<in> set ws"
    using assms by (cases "w = work_queue s") (auto simp: wq_inv_def)
  then show ?thesis using True by (intro refused) (auto simp: schedule_work_def)
next
  case False
  then have w: "w \<noteq> work_queue s" using assms by (auto simp: wq_inv_def)
  then have w: "w \<noteq> work_queue s" "w \<notin> set ws" using assms False by (auto simp: wq_inv_def)
  then have "dlist (list_add_tail w (work_queue s) (wlinks s)) (work_queue s) (ws @ [w])"
    using assms False by (intro dlist_add_tail) (auto simp: wq_inv_def)
  then have "wq_inv (snd (schedule_work w s)) (ws @ [w])"
    using assms False w by (auto simp: wq_inv_def schedule_work_def)
  then show ?thesis using False w by (intro accepted) (auto simp: schedule_work_def)
qed

lemma take_work_first:
  assumes "wq_inv s (w # ws)"
  shows "fst (take_work s) = w" "wq_inv (snd (take_work s)) ws" "w_func (works (snd (take_work s)) w) = w_func (works s w)"
    "\<not> list_empty (work_queue s) (wlinks s)"
proof -
  have d: "dlist (wlinks s) (work_queue s) ([] @ w # ws)" using assms by (simp add: wq_inv_def)
  then have f: "lnext (wlinks s) (work_queue s) = w" "w \<notin> set ws" "w \<noteq> work_queue s"
    using dlist_first [of "wlinks s" "work_queue s" w ws] dlist_distinct [OF d] by auto
  then show "fst (take_work s) = w" "w_func (works (snd (take_work s)) w) = w_func (works s w)"
    by (simp_all add: take_work_def)
  show "wq_inv (snd (take_work s)) ws"
    using assms f dlist_del [OF d] by (auto simp: wq_inv_def take_work_def)
  show "\<not> list_empty (work_queue s) (wlinks s)" using dlist_empty_iff [OF d] by simp
qed

section \<open>Works as a queue\<close>

definition pending_works :: "'e wq \<Rightarrow> ptr list" where
  "pending_works s = the (list_nodes (work_queue s) (lnext (wlinks s) (work_queue s)) (wlinks s))"

definition take_pending :: "'e wq \<Rightarrow> ptr option \<times> 'e wq" where
  "take_pending s = (if list_empty (work_queue s) (wlinks s) then (None, s) else (Some (fst (take_work s)), snd (take_work s)))"

lemma pending_works_inv: "wq_inv s ws \<Longrightarrow> pending_works s = ws"
  unfolding wq_inv_def pending_works_def by (elim conjE) (simp only: list_nodes_dlist option.sel)

interpretation workq: fifo pending_works "\<lambda>s. wq_inv s (pending_works s)"
    "\<lambda>w s. w \<noteq> 0 \<and> w_func (works s w) \<noteq> 0 \<and> w \<notin> set (pending_works s)" "\<lambda>w s. snd (schedule_work w s)" take_pending
proof unfold_locales
  fix s :: "'e wq" and w ws
  assume inv: "wq_inv s (pending_works s)"
  show "pending_works (snd (schedule_work w s)) = pending_works s @ [w]"
    "wq_inv (snd (schedule_work w s)) (pending_works (snd (schedule_work w s)))"
    if w: "w \<noteq> 0 \<and> w_func (works s w) \<noteq> 0 \<and> w \<notin> set (pending_works s)"
  proof -
    from inv have i: "wq_inv (snd (schedule_work w s)) (pending_works s @ [w])"
      by (cases rule: schedule_work_cases [of _ _ w]) (use w in simp_all)
    then show "pending_works (snd (schedule_work w s)) = pending_works s @ [w]" by (rule pending_works_inv)
    then show "wq_inv (snd (schedule_work w s)) (pending_works (snd (schedule_work w s)))" using i by simp
  qed
  show "take_pending s = (None, s)" if "pending_works s = []"
    using that inv dlist_empty_iff by (force simp: take_pending_def wq_inv_def)
  show "fst (take_pending s) = Some w" "pending_works (snd (take_pending s)) = ws" if e: "pending_works s = w # ws"
    using take_work_first [OF inv [unfolded e]] by (auto simp: take_pending_def dest: pending_works_inv)
  show "wq_inv (snd (take_pending s)) (pending_works (snd (take_pending s)))"
  proof (cases "pending_works s")
    case Nil
    then show ?thesis using inv dlist_empty_iff by (force simp: take_pending_def wq_inv_def)
  next
    case (Cons w ws)
    show ?thesis using take_work_first [OF inv [unfolded Cons]] by (auto simp: take_pending_def dest: pending_works_inv)
  qed
qed

section \<open>Runs\<close>

text \<open>Works whose functions schedule further works, \<open>children f w\<close>, and change what else there is.\<close>

fun schedule_all :: "ptr list \<Rightarrow> 'e wq \<Rightarrow> ptr list \<times> 'e wq" where
  "schedule_all [] s = ([], s)"
| "schedule_all (w # ws) s =
     (case schedule_work w s of (r, s1) \<Rightarrow>
        case schedule_all ws s1 of (acc, s2) \<Rightarrow> (if r = 1 then w # acc else acc, s2))"

definition run_work :: "(ptr \<Rightarrow> ptr \<Rightarrow> ptr list) \<Rightarrow> (ptr \<Rightarrow> ptr \<Rightarrow> 'e \<Rightarrow> 'e) \<Rightarrow> ptr \<Rightarrow> ptr \<Rightarrow> 'e wq \<Rightarrow> 'e wq" where
  "run_work children g f w s = snd (schedule_all (children f w) (s\<lparr>wq_env := g f w (wq_env s)\<rparr>))"

text \<open>The worker and its clients interleaved: the works accepted and the works executed so far.\<close>

inductive wq_run :: "(ptr \<Rightarrow> ptr \<Rightarrow> ptr list) \<Rightarrow> (ptr \<Rightarrow> ptr \<Rightarrow> 'e \<Rightarrow> 'e) \<Rightarrow> 'e wq \<Rightarrow> ptr list \<Rightarrow> ptr list \<Rightarrow> 'e wq \<Rightarrow> bool"
  for children g s where
  start: "wq_run children g s [] [] s"
| submit: "wq_run children g s acc ex t \<Longrightarrow> schedule_work w t = (r, u) \<Longrightarrow>
    wq_run children g s (if r = 1 then acc @ [w] else acc) ex u"
| idle: "wq_run children g s acc ex t \<Longrightarrow> list_empty (work_queue t) (wlinks t) \<Longrightarrow>
    worker_iteration (run_work children g) t = (y, u) \<Longrightarrow> wq_run children g s acc ex u"
| execute: "wq_run children g s acc ex t \<Longrightarrow> \<not> list_empty (work_queue t) (wlinks t) \<Longrightarrow> take_work t = (w, t') \<Longrightarrow>
    worker_iteration (run_work children g) t = (y, u) \<Longrightarrow>
    wq_run children g s (acc @ fst (schedule_all (children (w_func (works t' w)) w) t')) (ex @ [w]) u"

lemma wq_inv_env [simp]: "wq_inv (s\<lparr>wq_env := e\<rparr>) ws = wq_inv s ws"
  by (simp add: wq_inv_def)

lemma schedule_work_env: "schedule_work w (s\<lparr>wq_env := e\<rparr>) = (fst (schedule_work w s), (snd (schedule_work w s))\<lparr>wq_env := e\<rparr>)"
  by (simp add: schedule_work_def)

lemma schedule_env: "schedule_all ws (s\<lparr>wq_env := e\<rparr>) = (fst (schedule_all ws s), (snd (schedule_all ws s))\<lparr>wq_env := e\<rparr>)"
  by (induction ws arbitrary: s) (simp_all add: schedule_work_env split_def)

lemma schedule_all_inv: "wq_inv s ws \<Longrightarrow> wq_inv (snd (schedule_all vs s)) (ws @ fst (schedule_all vs s))"
proof (induction vs arbitrary: s ws)
  case (Cons v vs)
  from Cons.prems show ?case
  proof (cases rule: schedule_work_cases [of _ _ v])
    case refused
    then show ?thesis using Cons.IH [OF Cons.prems] by (simp add: split_def)
  next
    case accepted
    then show ?thesis using Cons.IH [OF accepted(2)] by (simp add: split_def)
  qed
qed simp

lemma wq_run_inv:
  assumes "wq_run children g s acc ex u" and "wq_inv s ws"
  shows "\<exists>vs. wq_inv u vs \<and> ws @ acc = ex @ vs"
  using assms
proof (induction rule: wq_run.induct)
  case start
  then show ?case by simp
next
  case (submit acc ex t w r u)
  then obtain vs where vs: "wq_inv t vs" "ws @ acc = ex @ vs" by blast
  from vs(1) show ?case
  proof (cases rule: schedule_work_cases [of _ _ w])
    case refused
    then show ?thesis using submit.hyps(2) vs by auto
  next
    case accepted
    then show ?thesis using submit.hyps(2) vs by (intro exI [of _ "vs @ [w]"]) simp
  qed
next
  case (idle acc ex t y u)
  then show ?case by (auto simp: worker_iteration_def)
next
  case (execute acc ex t w t' y u)
  then obtain vs where vs: "wq_inv t vs" "ws @ acc = ex @ vs" by blast
  have "vs \<noteq> []" using execute.hyps(2) vs(1) dlist_empty_iff by (force simp: wq_inv_def)
  then obtain v vs' where v: "vs = v # vs'" by (cases vs) auto
  note first = take_work_first [OF vs(1) [unfolded v]]
  have w: "v = w" "wq_inv t' vs'" using first execute.hyps(3) by simp_all
  have "w_func (works t' w) \<noteq> 0" using first(3) vs(1) execute.hyps(3) by (simp add: w v wq_inv_def)
  then have u: "u = run_work children g (w_func (works t' w)) w t'"
    using execute.hyps(2-4) by (simp add: worker_iteration_def Let_def)
  have "wq_inv u (vs' @ fst (schedule_all (children (w_func (works t' w)) w) t'))"
    unfolding u run_work_def schedule_env using schedule_all_inv [OF w(2)] by simp
  then show ?case using vs(2) v w by auto
qed

text \<open>An iteration with work to do, when the works schedule none.\<close>

lemma worker_iteration_runs:
  fixes g :: "ptr \<Rightarrow> ptr \<Rightarrow> 'e \<Rightarrow> 'e" and s :: "'e wq"
  assumes "wq_inv s (w # ws)"
  defines "r \<equiv> worker_iteration (run_work (\<lambda>_ _. []) g) s"
  shows "wq_inv (snd r) ws" "fst r \<longleftrightarrow> ws = []" "wq_env (snd r) = g (w_func (works s w)) w (wq_env s)"
    "w_func (works (snd r) x) = w_func (works s x)" "work_queue (snd r) = work_queue s"
proof -
  note first = take_work_first [OF assms(1)]
  have "w_func (works s w) \<noteq> 0" using assms(1) by (simp add: wq_inv_def)
  then have r: "r = (list_empty (work_queue (snd (take_work s))) (wlinks (snd (take_work s))),
      (snd (take_work s))\<lparr>wq_env := g (w_func (works s w)) w (wq_env (snd (take_work s)))\<rparr>)"
    using first(1,3,4) by (simp add: r_def worker_iteration_def run_work_def Let_def split_def)
  then show "wq_inv (snd r) ws" using first(2) by simp
  show "fst r \<longleftrightarrow> ws = []" using r first(2) dlist_empty_iff by (simp add: wq_inv_def)
  show "wq_env (snd r) = g (w_func (works s w)) w (wq_env s)" "w_func (works (snd r) x) = w_func (works s x)"
    "work_queue (snd r) = work_queue s"
    using r by (auto simp: take_work_def Let_def)
qed

lemma flush_loop_runs:
  assumes "wq_inv s (ws @ w # vs)"
  shows "\<exists>t. flush_loop (\<lambda>_ t. snd (worker_iteration (run_work (\<lambda>_ _. []) g) t)) w n s = Some (n + length ws + 1, t)
    \<and> wq_inv t vs \<and> wq_env t = fold (\<lambda>x. g (w_func (works s x)) x) (ws @ [w]) (wq_env s)"
  using assms
proof (induction ws arbitrary: s n)
  case Nil
  let ?t = "snd (worker_iteration (run_work (\<lambda>_ _. []) g) s)"
  note r = worker_iteration_runs [of s w vs g, OF Nil [simplified]]
  have p: "w_pending (works s w)" "w \<notin> set vs" "w \<noteq> work_queue s" using Nil by (auto simp: wq_inv_def dlist_def)
  then have "\<not> w_pending (works ?t w)" using r(1,5) by (simp add: wq_inv_def)
  then show ?case using r p(1) by (subst flush_loop.simps, subst flush_loop.simps) simp
next
  case (Cons x ws)
  let ?t = "snd (worker_iteration (run_work (\<lambda>_ _. []) g) s)"
  note r = worker_iteration_runs [of s x "ws @ w # vs" g, OF Cons.prems [simplified]]
  have p: "w_pending (works s w)" using Cons.prems by (auto simp: wq_inv_def dlist_def)
  obtain t where t: "flush_loop (\<lambda>_ t. snd (worker_iteration (run_work (\<lambda>_ _. []) g) t)) w (n + 1) ?t = Some (n + 1 + length ws + 1, t)"
    "wq_inv t vs" "wq_env t = fold (\<lambda>x. g (w_func (works ?t x)) x) (ws @ [w]) (wq_env ?t)"
    using Cons.IH [OF r(1), of "n + 1"] by blast
  show ?case using p t r(3,4) by (subst flush_loop.simps) simp
qed

section \<open>Properties\<close>

text \<open>C32: The worker, clients that schedule works and works that schedule further works (even
  themselves) may interleave in any way, as long as none is preempted inside \<^verbatim>\<open>schedule_work\<close> or inside the worker's removal
  of a work: the works executed are, in order, a prefix of those that were pending at the start
  followed by those accepted since, and the rest is what is pending. So an accepted work is executed once, none
  is lost, and the counter counts the pending ones. (Inside these calls, see \<open>preempted_submission_lost\<close>.)\<close>

theorem workqueue_order:
  assumes "wq_run children g s acc ex u" and "wq_inv s ws"
  shows "\<exists>vs. wq_inv u vs \<and> ws @ acc = ex @ vs \<and> workqueue_get_pending_count u = int (length vs)"
  using wq_run_inv [OF assms] by (auto simp: wq_inv_def workqueue_get_pending_count_def)

text \<open>Flushing ends. When every yield lets the worker do one iteration, and works schedule no further
  ones, \<^verbatim>\<open>flush_work\<close> of a pending work returns after one yield for each work before it and one for its own;
  by then exactly these works have run, in their order, and those behind it are still pending.\<close>

theorem flush_work_returns:
  assumes "wq_inv s (ws @ w # vs)"
  shows "\<exists>t. flush_work (\<lambda>_ t. snd (worker_iteration (run_work (\<lambda>_ _. []) g) t)) w s = Some (length ws + 1, t)
    \<and> wq_inv t vs \<and> wq_env t = fold (\<lambda>x. g (w_func (works s x)) x) (ws @ [w]) (wq_env s)"
proof -
  have "w \<noteq> 0" using assms by (auto simp: wq_inv_def dlist_def)
  then show ?thesis using flush_loop_runs [OF assms, where n = 0 and g = g] by (simp add: flush_work_def)
qed

lemma worker_takes:
  fixes g :: "ptr \<Rightarrow> ptr \<Rightarrow> 'e \<Rightarrow> 'e"
  assumes d: "dlist (wlinks s) (work_queue s) (x # xs)" and f: "w_func (works s x) \<noteq> 0"
  defines "t \<equiv> snd (worker_iteration (run_work (\<lambda>_ _. []) g) s)"
  shows "dlist (wlinks t) (work_queue s) xs" "work_queue t = work_queue s" "works t = (works s)(x := (works s x)\<lparr>w_pending := False\<rparr>)"
    "pending_work_count t = pending_work_count s - 1" "wq_env t = g (w_func (works s x)) x (wq_env s)"
proof -
  have d': "dlist (wlinks s) (work_queue s) ([] @ x # xs)" using d by simp
  have x: "lnext (wlinks s) (work_queue s) = x" "\<not> list_empty (work_queue s) (wlinks s)"
    using dlist_first [OF d] dlist_empty_iff [OF d] by auto
  have t: "t = (snd (take_work s))\<lparr>wq_env := g (w_func (works s x)) x (wq_env s)\<rparr>"
    using x f by (simp add: t_def worker_iteration_def run_work_def take_work_def Let_def)
  show "dlist (wlinks t) (work_queue s) xs" using dlist_del [OF d'] x(1) by (simp add: t take_work_def)
  show "work_queue t = work_queue s" "works t = (works s)(x := (works s x)\<lparr>w_pending := False\<rparr>)"
    "pending_work_count t = pending_work_count s - 1" "wq_env t = g (w_func (works s x)) x (wq_env s)"
    using x(1) by (simp_all add: t take_work_def)
qed

lemma worker_drains:
  fixes g :: "ptr \<Rightarrow> ptr \<Rightarrow> 'e \<Rightarrow> 'e"
  assumes "dlist (wlinks s) (work_queue s) xs" and "\<forall>x \<in> set xs. w_func (works s x) \<noteq> 0"
  defines "step \<equiv> (\<lambda>s. snd (worker_iteration (run_work (\<lambda>_ _. []) g) s))"
  shows "dlist (wlinks ((step ^^ length xs) s)) (work_queue s) [] \<and> work_queue ((step ^^ length xs) s) = work_queue s
    \<and> (\<forall>y. w_func (works ((step ^^ length xs) s) y) = w_func (works s y))
    \<and> pending_work_count ((step ^^ length xs) s) = pending_work_count s - int (length xs)
    \<and> wq_env ((step ^^ length xs) s) = fold (\<lambda>x. g (w_func (works s x)) x) xs (wq_env s)"
  using assms(1,2)
proof (induction xs arbitrary: s)
  case (Cons x xs)
  have stp: "snd (worker_iteration (run_work (\<lambda>_ _. []) g) y) = step y" for y by (simp add: step_def)
  note t = worker_takes [OF Cons.prems(1), of g, unfolded stp]
  have f: "w_func (works s x) \<noteq> 0" using Cons.prems(2) by simp
  have same: "w_func (works (step s) y) = w_func (works s y)" for y using t(3) [OF f] by simp
  have "dlist (wlinks (step s)) (work_queue (step s)) xs" "\<forall>x \<in> set xs. w_func (works (step s) x) \<noteq> 0"
    using t(1,2) [OF f] Cons.prems(2) same by simp_all
  from Cons.IH [OF this] show ?case using t(2,4,5) [OF f] same by (simp add: funpow_swap1)
qed simp

lemma flush_stuck:
  fixes u :: "'a wq"
  assumes "w_pending (works u w)" and "\<And>n. others n u = u"
  shows "flush_loop others w n u = None"
proof -
  have stuck: "\<not> (o' = others \<and> v = w \<and> t = u)" if "flush_loop o' v k t = Some r" for o' v k t and r :: "nat \<times> 'a wq"
    by (rule flush_loop.raw_induct [OF _ that, where P = "\<lambda>o' v k t r. \<not> (o' = others \<and> v = w \<and> t = u)"])
      (use assms in \<open>fastforce split: if_splits\<close>)
  show ?thesis
  proof (cases "flush_loop others w n u")
    case (Some r)
    from stuck [OF this] show ?thesis by simp
  qed
qed

text \<open>
  \<^verbatim>\<open>schedule_work\<close> does not keep the timer out. A client preempted after it has linked the work and
  before it marks it: the worker runs the queue to its end, the new work with it, and clears its mark; then the client sets the mark of the
  work that is no longer queued. From then on the work cannot be scheduled again, and flushing it never ends, though the counter is zero.
\<close>

theorem preempted_submission_lost:
  fixes g :: "ptr \<Rightarrow> ptr \<Rightarrow> 'e \<Rightarrow> 'e"
  assumes inv: "wq_inv s ws" and w: "w \<noteq> 0" "w_func (works s w) \<noteq> 0" "w \<notin> set ws"
  defines "step \<equiv> (\<lambda>s. snd (worker_iteration (run_work (\<lambda>_ _. []) g) s))"
  defines "u \<equiv> submit_count (submit_mark w ((step ^^ (length ws + 1)) (submit_link w s)))"
  shows "schedule_work w s = (1, submit_count (submit_mark w (submit_link w s)))"
    and "list_empty (work_queue u) (wlinks u)" "workqueue_get_pending_count u = 0" "schedule_work w u = (0, u)" "flush_work (\<lambda>_. step) w u = None"
    and "wq_env u = fold (\<lambda>x. g (w_func (works s x)) x) (ws @ [w]) (wq_env s)"
proof -
  have wq: "w \<noteq> work_queue s" using inv w(2) by (auto simp: wq_inv_def)
  have np: "\<not> w_pending (works s w)" using inv w(3) wq by (simp add: wq_inv_def)
  show "schedule_work w s = (1, submit_count (submit_mark w (submit_link w s)))"
    using w(1,2) np by (simp add: schedule_work_def submit_link_def submit_mark_def submit_count_def)
  let ?l = "submit_link w s"
  have "dlist (list_add_tail w (work_queue s) (wlinks s)) (work_queue s) (ws @ [w])"
    using inv w wq by (intro dlist_add_tail) (auto simp: wq_inv_def)
  then have d: "dlist (wlinks ?l) (work_queue ?l) (ws @ [w])" by (simp add: submit_link_def)
  have f: "\<forall>x \<in> set (ws @ [w]). w_func (works ?l x) \<noteq> 0" using inv w(2) by (auto simp: wq_inv_def submit_link_def)
  have sel: "work_queue ?l = work_queue s" "works ?l = works s" "pending_work_count ?l = int (length ws)" "wq_env ?l = wq_env s"
    using inv by (simp_all add: submit_link_def wq_inv_def)
  note dr = worker_drains [OF d f, of g, folded step_def, unfolded sel length_append list.size]
  define t where "t = (step ^^ (length ws + 1)) ?l"
  have t: "dlist (wlinks t) (work_queue t) []" "w_func (works t w) \<noteq> 0" "pending_work_count t = - 1"
    "wq_env t = fold (\<lambda>x. g (w_func (works s x)) x) (ws @ [w]) (wq_env s)"
    using dr w(2) by (simp_all add: t_def del: funpow.simps)
  have u: "u = submit_count (submit_mark w t)" by (simp add: u_def t_def)
  have usel: "wlinks u = wlinks t" "work_queue u = work_queue t" "pending_work_count u = 0" "wq_env u = wq_env t" "w_pending (works u w)"
    using t(3) by (simp_all add: u submit_count_def submit_mark_def)
  show e: "list_empty (work_queue u) (wlinks u)" using dlist_empty_iff [OF t(1)] usel by simp
  show "workqueue_get_pending_count u = 0" using usel(3) by (simp add: workqueue_get_pending_count_def)
  show "schedule_work w u = (0, u)" using usel(5) by (simp add: schedule_work_def)
  have "step u = u" using e by (simp add: step_def worker_iteration_def)
  then show "flush_work (\<lambda>_. step) w u = None" using w(1) flush_stuck [of u w "\<lambda>_. step"] usel(5) by (simp add: flush_work_def)
  show "wq_env u = fold (\<lambda>x. g (w_func (works s x)) x) (ws @ [w]) (wq_env s)" using usel(4) t(4) by simp
qed

text \<open>Two works that log their addresses.\<close>

definition two_works :: "ptr list wq" where
  "two_works = snd (schedule_work 0x3000 (snd (schedule_work 0x2000
     (INIT_WORK 0x3000 5 (INIT_WORK 0x2000 5
       \<lparr>works = (\<lambda>_. \<lparr>w_func = 0, w_pending = False\<rparr>), wlinks = init_list_head 0x1000 \<lparr>lnext = (\<lambda>_. 0), lprev = (\<lambda>_. 0)\<rparr>,
         work_queue = 0x1000, pending_work_count = 0, wq_env = []\<rparr>)))))"

lemma two_works: "wq_inv two_works [0x2000, 0x3000]" "wq_env two_works = []"
  by (auto simp: two_works_def wq_inv_def dlist_def INIT_WORK_def schedule_work_def list_op_defs)

theorem flush_work_returns_witness:
  "\<exists>t. flush_work (\<lambda>_ t. snd (worker_iteration (run_work (\<lambda>_ _. []) (\<lambda>_ w log. log @ [w])) t)) 0x3000 two_works = Some (2, t)
    \<and> wq_env t = [0x2000, 0x3000] \<and> workqueue_get_pending_count t = 0"
  using flush_work_returns [of two_works "[0x2000]" "0x3000" "[]" "\<lambda>_ w log. log @ [w]"] two_works
  by (auto simp: wq_inv_def workqueue_get_pending_count_def)

theorem workqueue_order_witness:
  "\<exists>u vs. wq_run (\<lambda>_ _. [0x2000]) (\<lambda>_ w log. log @ [w]) two_works [0x2000] [0x2000] u \<and> wq_inv u vs
    \<and> [0x2000, 0x3000, 0x2000] = 0x2000 # vs"
proof -
  let ?c = "\<lambda>_ _. [0x2000 :: ptr]" and ?g = "\<lambda>_ w log. log @ [w :: ptr]"
  obtain t where t: "take_work two_works = (0x2000, t)" "wq_inv t [0x3000]" "w_func (works t 0x2000) = w_func (works two_works 0x2000)"
    "\<not> list_empty (work_queue two_works) (wlinks two_works)"
    using take_work_first [OF two_works(1)] by (cases "take_work two_works") auto
  have "w_func (works t 0x2000) \<noteq> 0" using t(3) two_works(1) by (simp add: wq_inv_def)
  then have "fst (schedule_all (?c (w_func (works t 0x2000)) 0x2000) t) = [0x2000]"
    using schedule_work_cases [OF t(2), of "0x2000"] by (fastforce split: prod.splits)
  moreover obtain y u where yu: "worker_iteration (run_work ?c ?g) two_works = (y, u)"
    by (cases "worker_iteration (run_work ?c ?g) two_works")
  ultimately have "wq_run ?c ?g two_works [0x2000] [0x2000] u"
    using wq_run.execute [OF wq_run.start t(4,1) yu] by simp
  then show ?thesis using workqueue_order [OF _ two_works(1)] by fastforce
qed

end
