(* ===== verification/Vfs.thy ===== *)
theory Vfs
  imports KHeap ListHead CString
begin

text \<open>
  The file descriptor table \<^verbatim>\<open>kernel/vfs.c\<close>. Open files are records at the addresses the kernel
  heap returned. The operations of a file are functions of a file system, code outside this
  component: \<open>rw f file buf count\<close> and \<open>cl f file\<close>, parameters, are the effects of calling the function at
  address \<open>f\<close>; \<open>vfs_env\<close> is what of the machine the component does not know.
\<close>

section \<open>State and operations\<close>

abbreviation MAX_FDS :: nat where "MAX_FDS \<equiv> 16"
abbreviation FILE_SIZE :: u32 where "FILE_SIZE \<equiv> 20"

record file_operations =
  op_open :: ptr
  op_read :: ptr
  op_write :: ptr
  op_close :: ptr

record vfile =
  f_dentry :: ptr
  f_inode :: ptr
  f_pos :: u32
  f_flags :: u32
  f_op :: ptr

record 'e vfs =
  fd_table :: "nat \<Rightarrow> ptr"
  files :: "ptr \<Rightarrow> vfile"
  operations :: "ptr \<Rightarrow> file_operations"
  vheap :: kheap
  vfs_env :: 'e

definition vfs_init :: "'e vfs \<Rightarrow> 'e vfs" where
  "vfs_init s = s\<lparr>fd_table := fold (\<lambda>i t. t(i := 0)) [0..<MAX_FDS] (fd_table s)\<rparr>"

definition fd_alloc :: "'e vfs \<Rightarrow> int" where
  "fd_alloc s = (case find (\<lambda>i. fd_table s i = 0) [0..<MAX_FDS] of Some i \<Rightarrow> int i | None \<Rightarrow> -1)"

definition fd_install :: "int \<Rightarrow> ptr \<Rightarrow> 'e vfs \<Rightarrow> 'e vfs" where
  "fd_install fd f s = (if 0 \<le> fd \<and> fd < int MAX_FDS then s\<lparr>fd_table := (fd_table s)(nat fd := f)\<rparr> else s)"

definition fd_get :: "int \<Rightarrow> 'e vfs \<Rightarrow> ptr" where
  "fd_get fd s = (if fd < 0 \<or> int MAX_FDS \<le> fd then 0 else fd_table s (nat fd))"

definition vfs_open :: "ptr \<Rightarrow> u32 \<Rightarrow> 'e vfs \<Rightarrow> (int \<times> 'e vfs) option" where
  "vfs_open path flags s =
     (if path = 0 then Some (-1, s)
      else let fd = fd_alloc s in
        if fd < 0 then Some (-1, s)
        else Option.bind (kmalloc FILE_SIZE (vheap s)) (\<lambda>(f, h).
          let s1 = s\<lparr>vheap := h\<rparr> in
          if f = 0 then Some (-1, s1)
          else let s2 = s1\<lparr>files := (files s1)(f := \<lparr>f_dentry = 0, f_inode = 0, f_pos = 0, f_flags = flags, f_op = 0\<rparr>)\<rparr>
               in Some (fd, fd_install fd f s2)))"

definition vfs_read :: "(ptr \<Rightarrow> ptr \<Rightarrow> ptr \<Rightarrow> u32 \<Rightarrow> 'e vfs \<Rightarrow> int \<times> 'e vfs) \<Rightarrow> int \<Rightarrow> ptr \<Rightarrow> u32 \<Rightarrow> 'e vfs \<Rightarrow> int \<times> 'e vfs" where
  "vfs_read rw fd buf count s =
     (let f = fd_get fd s in
      if f = 0 \<or> buf = 0 then (-1, s)
      else let op = f_op (files s f) in
        if op \<noteq> 0 \<and> op_read (operations s op) \<noteq> 0 then rw (op_read (operations s op)) f buf count s
        else (-1, s))"

definition vfs_write :: "(ptr \<Rightarrow> ptr \<Rightarrow> ptr \<Rightarrow> u32 \<Rightarrow> 'e vfs \<Rightarrow> int \<times> 'e vfs) \<Rightarrow> int \<Rightarrow> ptr \<Rightarrow> u32 \<Rightarrow> 'e vfs \<Rightarrow> int \<times> 'e vfs" where
  "vfs_write rw fd buf count s =
     (let f = fd_get fd s in
      if f = 0 \<or> buf = 0 then (-1, s)
      else let op = f_op (files s f) in
        if op \<noteq> 0 \<and> op_write (operations s op) \<noteq> 0 then rw (op_write (operations s op)) f buf count s
        else (-1, s))"

definition vfs_close :: "(ptr \<Rightarrow> ptr \<Rightarrow> 'e vfs \<Rightarrow> 'e vfs) \<Rightarrow> int \<Rightarrow> 'e vfs \<Rightarrow> int \<times> 'e vfs" where
  "vfs_close cl fd s =
     (let f = fd_get fd s in
      if f = 0 then (-1, s)
      else let op = f_op (files s f);
               s1 = (if op \<noteq> 0 \<and> op_close (operations s op) \<noteq> 0 then cl (op_close (operations s op)) f s else s);
               s2 = s1\<lparr>vheap := kfree f (vheap s1)\<rparr>
           in (0, s2\<lparr>fd_table := (fd_table s2)(nat fd := 0)\<rparr>))"

section \<open>Descriptors\<close>

definition open_fds :: "'e vfs \<Rightarrow> nat set" where
  "open_fds s = {i. i < MAX_FDS \<and> fd_table s i \<noteq> 0}"

text \<open>Allocating a descriptor and installing a file; clearing one.\<close>

definition fd_take :: "ptr \<Rightarrow> 'e vfs \<Rightarrow> (nat \<times> 'e vfs) option" where
  "fd_take f s = (let fd = fd_alloc s in if fd < 0 then None else Some (nat fd, fd_install fd f s))"

definition fd_clear :: "nat \<Rightarrow> 'e vfs \<Rightarrow> 'e vfs" where
  "fd_clear i s = s\<lparr>fd_table := (fd_table s)(i := 0)\<rparr>"

lemma fd_alloc_cases:
  obtains (full) "fd_alloc s = -1" "{..<MAX_FDS} \<subseteq> open_fds s"
  | (slot) i where "fd_alloc s = int i" "i < MAX_FDS" "i \<notin> open_fds s" "{..<i} \<subseteq> open_fds s"
proof (cases "find (\<lambda>i. fd_table s i = 0) [0..<MAX_FDS]")
  case None
  then have "fd_alloc s = -1" by (simp only: fd_alloc_def option.case)
  then show ?thesis using full None unfolding find_upt_None_iff by (auto simp: open_fds_def)
next
  case (Some i)
  then have "fd_alloc s = int i" by (simp only: fd_alloc_def option.case)
  moreover have "i < MAX_FDS" "i \<notin> open_fds s" "{..<i} \<subseteq> open_fds s"
    using Some unfolding find_upt_Some_iff by (auto simp: open_fds_def)
  ultimately show ?thesis by (rule slot)
qed

interpretation fds: slot_table fd_take fd_clear open_fds "\<lambda>_. True" "\<lambda>f. f \<noteq> 0" MAX_FDS
proof unfold_locales
  fix s :: "'e vfs" and f :: ptr
  assume f: "f \<noteq> 0"
  show "{..<MAX_FDS} \<subseteq> open_fds s" if "fd_take f s = None"
    by (cases rule: fd_alloc_cases [of s]) (use that in \<open>simp_all add: fd_take_def\<close>)
  show "True \<and> open_fds s' = insert i (open_fds s) \<and> i < MAX_FDS \<and> i \<notin> open_fds s \<and> {..<i} \<subseteq> open_fds s"
    if t: "fd_take f s = Some (i, s')" for i s'
  proof (cases rule: fd_alloc_cases [of s])
    case full
    then show ?thesis using t by (simp add: fd_take_def)
  next
    case (slot j)
    then have "i = j" "s' = s\<lparr>fd_table := (fd_table s)(j := f)\<rparr>" using t by (auto simp: fd_take_def fd_install_def)
    then show ?thesis using slot f by (auto simp: open_fds_def)
  qed
next
  fix s :: "'e vfs" and i
  show "True \<and> open_fds (fd_clear i s) = open_fds s - {i}" by (auto simp: fd_clear_def open_fds_def)
qed

section \<open>Invariant\<close>

text \<open>The blocks in use are those of other owners, \<open>A\<close>, and the files of the open descriptors, each its
  own; \<^verbatim>\<open>vfs_open\<close> gives a file no operations.\<close>

definition vfs_inv :: "nat set \<Rightarrow> 'e vfs \<Rightarrow> (nat \<times> bool) list \<Rightarrow> bool" where
  "vfs_inv A s bs \<longleftrightarrow> heap_inv (vheap s) bs \<and> fst ` live ARENA_START bs = A \<union> (\<lambda>i. unat (fd_table s i)) ` open_fds s
     \<and> inj_on (fd_table s) (open_fds s) \<and> (\<forall>i \<in> open_fds s. unat (fd_table s i) \<notin> A \<and> f_op (files s (fd_table s i)) = 0)"

lemma open_fds_lt: "i \<in> open_fds s \<Longrightarrow> i < MAX_FDS"
  by (simp add: open_fds_def)

lemma vfs_open_cases:
  assumes inv: "vfs_inv A s bs"
  obtains (failed) "vfs_open path flags s = Some (-1, s)"
      "path = 0 \<or> {..<MAX_FDS} \<subseteq> open_fds s \<or> (\<exists>h. kmalloc FILE_SIZE (vheap s) = Some (0, h))"
  | (opened) i f s' bs' where "path \<noteq> 0" "vfs_open path flags s = Some (int i, s')" "i < MAX_FDS" "i \<notin> open_fds s" "{..<i} \<subseteq> open_fds s"
      "f \<noteq> 0" "unat f \<notin> fst ` live ARENA_START bs" "fd_table s' = (fd_table s)(i := f)"
      "files s' = (files s)(f := \<lparr>f_dentry = 0, f_inode = 0, f_pos = 0, f_flags = flags, f_op = 0\<rparr>)" "vfs_inv A s' bs'"
      "operations s' = operations s" "vfs_env s' = vfs_env s"
proof (cases "path = 0 \<or> fd_alloc s < 0")
  case True
  then have "vfs_open path flags s = Some (-1, s)" by (auto simp: vfs_open_def)
  moreover have "path = 0 \<or> {..<MAX_FDS} \<subseteq> open_fds s" using True by (cases rule: fd_alloc_cases [of s]) auto
  ultimately show ?thesis using failed by blast
next
  case False
  then obtain i where i: "fd_alloc s = int i" "i < MAX_FDS" "i \<notin> open_fds s" "{..<i} \<subseteq> open_fds s"
    by (cases rule: fd_alloc_cases [of s]) auto
  have hinv: "heap_inv (vheap s) bs" using inv by (simp add: vfs_inv_def)
  obtain f h bs1 where k: "kmalloc FILE_SIZE (vheap s) = Some (f, h)" "heap_inv h bs1"
    "if f = 0 then h = vheap s \<and> bs1 = bs
     else \<exists>n. live ARENA_START bs1 = insert (unat f, n) (live ARENA_START bs)"
    using heap.alloc_total [OF hinv, of FILE_SIZE] by (auto split: if_splits) (metis)+
  show ?thesis
  proof (cases "f = 0")
    case True
    then have "vfs_open path flags s = Some (-1, s)" using False k i(1) by (simp add: vfs_open_def Let_def)
    then show ?thesis using failed k(1) True by blast
  next
    case nz: False
    let ?s = "s\<lparr>vheap := h, files := (files s)(f := \<lparr>f_dentry = 0, f_inode = 0, f_pos = 0, f_flags = flags, f_op = 0\<rparr>), fd_table := (fd_table s)(i := f)\<rparr>"
    have run: "vfs_open path flags s = Some (int i, ?s)"
      using False k(1) nz i(1,2) by (simp add: vfs_open_def fd_install_def Let_def)
    have new: "unat f \<notin> fst ` live ARENA_START bs" using heap.alloc_new_block [OF hinv k(1) nz] by blast
    have fds: "open_fds ?s = insert i (open_fds s)" using nz i(2) by (auto simp: open_fds_def)
    have other: "fd_table s j \<noteq> f" if "j \<in> open_fds s" for j
      using new that inv by (auto simp: vfs_inv_def)
    have keep: "fd_table ?s j = fd_table s j" if "j \<in> open_fds s" for j using that i(3) by auto
    have "(\<lambda>j. unat (fd_table ?s j)) ` open_fds s = (\<lambda>j. unat (fd_table s j)) ` open_fds s" using keep by (intro image_cong) auto
    moreover have "fst ` live ARENA_START bs1 = insert (unat f) (fst ` live ARENA_START bs)" using k(3) nz by auto
    moreover have "fst ` live ARENA_START bs = A \<union> (\<lambda>j. unat (fd_table s j)) ` open_fds s" using inv by (simp add: vfs_inv_def)
    ultimately have "fst ` live ARENA_START bs1 = A \<union> (\<lambda>j. unat (fd_table ?s j)) ` open_fds ?s"
      unfolding fds by simp
    moreover have "inj_on (fd_table ?s) (open_fds ?s)"
      using inv keep other i(3) unfolding fds vfs_inv_def by (auto simp: inj_on_def)
    moreover have "unat f \<notin> A" using new inv by (auto simp: vfs_inv_def)
    ultimately have "vfs_inv A ?s bs1"
      using inv k(2) keep other unfolding vfs_inv_def fds by auto
    then show ?thesis using False nz new i by (intro opened [OF _ run]) simp_all
  qed
qed

lemma vfs_close_cases:
  assumes inv: "vfs_inv A s bs"
  obtains (unknown) "vfs_close cl fd s = (-1, s)" "fd < 0 \<or> nat fd \<notin> open_fds s"
  | (closed) s' bs' where "vfs_close cl fd s = (0, s')" "0 \<le> fd" "nat fd \<in> open_fds s" "open_fds s' = open_fds s - {nat fd}"
      "fd_table s' = (fd_table s)(nat fd := 0)" "files s' = files s" "vfs_inv A s' bs'"
proof (cases "fd_get fd s = 0")
  case True
  then have "fd < 0 \<or> nat fd \<notin> open_fds s" by (auto simp: fd_get_def open_fds_def split: if_splits)
  then show ?thesis using True by (intro unknown) (simp_all add: vfs_close_def)
next
  case False
  then have i: "0 \<le> fd" "nat fd \<in> open_fds s" "fd_get fd s = fd_table s (nat fd)"
    by (auto simp: fd_get_def open_fds_def split: if_splits)
  define f where "f = fd_table s (nat fd)"
  let ?s = "s\<lparr>vheap := kfree f (vheap s), fd_table := (fd_table s)(nat fd := 0)\<rparr>"
  have hinv: "heap_inv (vheap s) bs" using inv by (simp add: vfs_inv_def)
  have op: "f_op (files s f) = 0" "unat f \<notin> A" "unat f \<in> fst ` live ARENA_START bs"
    using inv i(2) by (auto simp: vfs_inv_def f_def)
  then obtain k where "(unat f, k) \<in> live ARENA_START bs" by auto
  then obtain bs' where bs': "heap_inv (kfree f (vheap s)) bs'" "live ARENA_START bs' = {(q, j) \<in> live ARENA_START bs. q \<noteq> unat f}"
    using heap.free_repr [OF hinv] by blast
  have fds: "open_fds ?s = open_fds s - {nat fd}" by (auto simp: open_fds_def)
  have "fst ` live ARENA_START bs' = fst ` live ARENA_START bs - {unat f}" unfolding bs'(2) by force
  also have "\<dots> = A \<union> (\<lambda>j. unat (fd_table s j)) ` (open_fds s - {nat fd})"
    using inv i(2) op(2) unfolding vfs_inv_def f_def inj_on_def by (auto simp: word_unat_eq_iff)
  also have "\<dots> = A \<union> (\<lambda>j. unat (fd_table ?s j)) ` open_fds ?s" unfolding fds by simp
  finally have "fst ` live ARENA_START bs' = A \<union> (\<lambda>j. unat (fd_table ?s j)) ` open_fds ?s" .
  then have "vfs_inv A ?s bs'" using inv bs'(1) unfolding fds vfs_inv_def by (auto simp: inj_on_def)
  moreover have "vfs_close cl fd s = (0, ?s)" using False op(1) by (simp add: vfs_close_def i(3) f_def Let_def)
  ultimately show ?thesis using i(1,2) fds by (intro closed) simp_all
qed

text \<open>A file that \<^verbatim>\<open>vfs_open\<close> made can be neither read nor written.\<close>

lemma vfs_rw_refused:
  assumes "vfs_inv A s bs"
  shows "vfs_read rw fd buf n s = (-1, s)" "vfs_write rw fd buf n s = (-1, s)"
proof -
  have "fd_get fd s = 0 \<or> f_op (files s (fd_get fd s)) = 0"
  proof (cases "fd_get fd s = 0")
    case False
    then have "nat fd \<in> open_fds s" "fd_get fd s = fd_table s (nat fd)" by (auto simp: fd_get_def open_fds_def split: if_splits)
    then show ?thesis using assms by (simp add: vfs_inv_def)
  qed simp
  then show "vfs_read rw fd buf n s = (-1, s)" "vfs_write rw fd buf n s = (-1, s)"
    by (auto simp: vfs_read_def vfs_write_def Let_def)
qed

section \<open>Runs\<close>

datatype vfs_call = Open ptr u32 | Close int | Read int ptr u32 | Write int ptr u32

fun vfs_do :: "(ptr \<Rightarrow> ptr \<Rightarrow> ptr \<Rightarrow> u32 \<Rightarrow> 'e vfs \<Rightarrow> int \<times> 'e vfs) \<Rightarrow> (ptr \<Rightarrow> ptr \<Rightarrow> 'e vfs \<Rightarrow> 'e vfs) \<Rightarrow>
    vfs_call \<Rightarrow> 'e vfs \<Rightarrow> (int \<times> 'e vfs) option" where
  "vfs_do rw cl (Open path flags) s = vfs_open path flags s"
| "vfs_do rw cl (Close fd) s = Some (vfs_close cl fd s)"
| "vfs_do rw cl (Read fd buf n) s = Some (vfs_read rw fd buf n s)"
| "vfs_do rw cl (Write fd buf n) s = Some (vfs_write rw fd buf n s)"

fun vfs_run :: "(ptr \<Rightarrow> ptr \<Rightarrow> ptr \<Rightarrow> u32 \<Rightarrow> 'e vfs \<Rightarrow> int \<times> 'e vfs) \<Rightarrow> (ptr \<Rightarrow> ptr \<Rightarrow> 'e vfs \<Rightarrow> 'e vfs) \<Rightarrow>
    vfs_call list \<Rightarrow> 'e vfs \<Rightarrow> (int list \<times> 'e vfs) option" where
  "vfs_run rw cl [] s = Some ([], s)"
| "vfs_run rw cl (c # cs) s =
     Option.bind (vfs_do rw cl c s) (\<lambda>(r, s1). Option.bind (vfs_run rw cl cs s1) (\<lambda>(rs, s2). Some (r # rs, s2)))"

lemma vfs_do_inv:
  assumes "vfs_inv A s bs"
  shows "\<exists>r s' bs'. vfs_do rw cl c s = Some (r, s') \<and> vfs_inv A s' bs' \<and> -1 \<le> r \<and> r < int MAX_FDS"
proof (cases c)
  case (Open path flags)
  from assms show ?thesis by (cases rule: vfs_open_cases [where path = path and flags = flags]) (use assms Open in auto)
next
  case (Close fd)
  from assms show ?thesis by (cases rule: vfs_close_cases [where cl = cl and fd = fd]) (use assms Close in auto)
qed (use assms vfs_rw_refused [OF assms] in auto)

section \<open>Properties\<close>

text \<open>The descriptor table. \<^verbatim>\<open>vfs_open\<close> always returns: -1 and nothing changed when the path is NULL,
  the sixteen descriptors are taken or the heap has no block; otherwise the lowest free descriptor, with a new
  file of its own at position 0, no other descriptor or file changed; and closing it returns 0 and frees exactly
  it. A descriptor that is not open is refused.\<close>

theorem vfs_open_close:
  assumes "vfs_inv A s bs"
  shows "(vfs_open path flags s = Some (-1, s) \<and> (path = 0 \<or> open_fds s = {..<MAX_FDS} \<or> (\<exists>h. kmalloc FILE_SIZE (vheap s) = Some (0, h))))
    \<or> (\<exists>i f s' bs' s'' bs''. vfs_open path flags s = Some (int i, s') \<and> i \<notin> open_fds s \<and> {..<i} \<subseteq> open_fds s \<and> i < MAX_FDS
        \<and> fd_table s' = (fd_table s)(i := f) \<and> f \<noteq> 0 \<and> f \<notin> fd_table s ` open_fds s
        \<and> files s' = (files s)(f := \<lparr>f_dentry = 0, f_inode = 0, f_pos = 0, f_flags = flags, f_op = 0\<rparr>) \<and> vfs_inv A s' bs'
        \<and> vfs_close cl (int i) s' = (0, s'') \<and> open_fds s'' = open_fds s \<and> vfs_inv A s'' bs''
        \<and> vfs_close cl (int i) s'' = (-1, s''))"
  using assms
proof (cases rule: vfs_open_cases [where path = path and flags = flags])
  case failed
  have "open_fds s \<subseteq> {..<MAX_FDS}" by (auto simp: open_fds_def)
  then show ?thesis using failed by blast
next
  case (opened i f s' bs')
  have "i \<in> open_fds s'" using opened(3,6,8) by (simp add: open_fds_def)
  with opened(10) obtain s'' bs'' where c: "vfs_close cl (int i) s' = (0, s'')" "open_fds s'' = open_fds s' - {i}" "vfs_inv A s'' bs''"
    by (cases rule: vfs_close_cases [where cl = cl and fd = "int i"]) auto
  have fds: "open_fds s'' = open_fds s" using opened(3,4,6,8) c(2) by (auto simp: open_fds_def)
  from c(3) have "vfs_close cl (int i) s'' = (-1, s'')"
    by (cases rule: vfs_close_cases [where cl = cl and fd = "int i"]) (use opened(4) fds in auto)
  moreover have "f \<notin> fd_table s ` open_fds s" using opened(7) assms by (auto simp: vfs_inv_def)
  ultimately show ?thesis using opened c fds by blast
qed

text \<open>C34: Every sequence of opens, closes, reads and writes, with any arguments, returns and keeps the
  invariant: distinct files behind the open descriptors, and the heap blocks in use are those of other owners
  and one for each open descriptor, so nothing leaks. No read or write of it succeeds, since \<^verbatim>\<open>vfs_open\<close>
  gives a file no operations.\<close>

theorem vfs_calls_keep_table:
  assumes "vfs_inv A s bs"
  shows "\<exists>rs s' bs'. vfs_run rw cl cs s = Some (rs, s') \<and> vfs_inv A s' bs' \<and> length rs = length cs
    \<and> (\<forall>(c, r) \<in> set (zip cs rs). (\<exists>fd buf n. c = Read fd buf n \<or> c = Write fd buf n) \<longrightarrow> r = -1)
    \<and> card (fst ` live ARENA_START bs' - A) = card (open_fds s')"
  using assms
proof (induction cs arbitrary: s bs)
  case Nil
  have "fst ` live ARENA_START bs - A = (\<lambda>i. unat (fd_table s i)) ` open_fds s" "inj_on (\<lambda>i. unat (fd_table s i)) (open_fds s)"
    using Nil by (auto simp: vfs_inv_def inj_on_def word_unat_eq_iff)
  then show ?case using Nil by (auto simp: card_image)
next
  case (Cons c cs)
  obtain r s1 bs1 where c: "vfs_do rw cl c s = Some (r, s1)" "vfs_inv A s1 bs1" using vfs_do_inv [OF Cons.prems] by blast
  have "r = -1" if "\<exists>fd buf n. c = Read fd buf n \<or> c = Write fd buf n"
    using that c(1) vfs_rw_refused [OF Cons.prems] by auto
  then show ?case using Cons.IH [OF c(2)] c(1) by fastforce
qed

text \<open>A table with nothing open, on the heap after boot.\<close>

definition boot_vfs :: "unit vfs" where
  "boot_vfs = vfs_init \<lparr>fd_table = (\<lambda>_. 1), files = (\<lambda>_. \<lparr>f_dentry = 0, f_inode = 0, f_pos = 0, f_flags = 0, f_op = 0\<rparr>),
     operations = (\<lambda>_. \<lparr>op_open = 0, op_read = 0, op_write = 0, op_close = 0\<rparr>),
     vheap = boot_kheap (\<lambda>_. \<lparr>hb_size = 0, hb_is_free = True, hb_next = 0\<rparr>), vfs_env = ()\<rparr>"

lemma boot_vfs_inv: "vfs_inv {} boot_vfs [(0xFFFF4, True)]"
proof -
  have "open_fds boot_vfs = {}" by (simp add: boot_vfs_def vfs_init_def open_fds_def fold_fill del: upt_rec_numeral)
  then show ?thesis using boot_kheap_inv by (simp add: vfs_inv_def boot_vfs_def vfs_init_def)
qed

theorem vfs_open_close_witness:
  "\<exists>i s' s''. vfs_open 0x9000 2 boot_vfs = Some (i, s') \<and> -1 \<le> i \<and> (i = -1 \<or> vfs_close (\<lambda>_ _ s. s) i s' = (0, s''))"
  using vfs_open_close [OF boot_vfs_inv, of "0x9000" 2 "\<lambda>_ _ s. s"] by fastforce

theorem vfs_calls_keep_table_witness:
  "\<exists>rs s' bs'. vfs_run (\<lambda>_ _ _ _ s. (0, s)) (\<lambda>_ _ s. s) [Open 0x9000 2, Read 0 0x9100 4, Close 0] boot_vfs = Some (rs, s')
    \<and> vfs_inv {} s' bs' \<and> rs ! 1 = -1"
proof -
  obtain rs s' bs' where r: "vfs_run (\<lambda>_ _ _ _ s. (0, s)) (\<lambda>_ _ s. s) [Open 0x9000 2, Read 0 0x9100 4, Close 0] boot_vfs = Some (rs, s')"
    "vfs_inv {} s' bs'" "length rs = 3"
    "\<forall>(c, r) \<in> set (zip [Open 0x9000 2, Read 0 0x9100 4, Close 0] rs). (\<exists>fd buf n. c = Read fd buf n \<or> c = Write fd buf n) \<longrightarrow> r = -1"
    using vfs_calls_keep_table [OF boot_vfs_inv, of "\<lambda>_ _ _ _ s. (0, s)" "\<lambda>_ _ s. s" "[Open 0x9000 2, Read 0 0x9100 4, Close 0]"] by auto
  obtain a b c where "rs = [a, b, c]" using r(3) by (auto simp: numeral_3_eq_3 length_Suc_conv)
  then show ?thesis using r(1,2,4) by auto
qed

end
