(* ===== verification/Device.thy ===== *)
theory Device
  imports KHeap ListHead CString
begin

text \<open>
  Devices, \<^verbatim>\<open>kernel/device.c\<close>, and block devices, \<^verbatim>\<open>kernel/blkdev.c\<close>. Objects are records at the
  addresses the kernel heap returned; the name of a device is the array of 32 bytes at its
  start, in the byte memory, because \<^verbatim>\<open>strncpy\<close> and \<^verbatim>\<open>strcmp\<close> work on it there. The list node
  of a device is at offset 48, that of a block device at 28, that of a request at 16. The
  submit function of a block device is a function of its driver, code outside this component:
  \<open>submit f bio\<close>, a parameter, is the effect of calling it; \<open>dev_env\<close> is what of the machine the
  component does not know.
\<close>

section \<open>State and operations\<close>

record device =
  dv_type :: int
  dv_major :: int
  dv_minor :: int
  dv_fops :: ptr
  dv_private_data :: ptr

record bio =
  bio_sector :: u32
  bio_size :: u32
  bio_data :: ptr
  bio_rw :: int

record block_device =
  bd_size :: u32
  bd_queue :: ptr
  bd_submit :: ptr

record 'e devs =
  dheap :: kheap
  dmem :: mem
  dlinks :: links
  devices :: "ptr \<Rightarrow> device"
  device_list :: ptr
  next_major :: int
  bios :: "ptr \<Rightarrow> bio"
  blkdevs :: "ptr \<Rightarrow> block_device"
  blkdev_list :: ptr
  dev_env :: 'e

abbreviation DEV_CHAR :: int where "DEV_CHAR \<equiv> 1"
abbreviation DEVICE_SIZE :: u32 where "DEVICE_SIZE \<equiv> 60"
abbreviation BIO_SIZE :: u32 where "BIO_SIZE \<equiv> 24"
abbreviation dev_node :: "ptr \<Rightarrow> ptr" where "dev_node dev \<equiv> dev + 48"
abbreviation blkdev_node :: "ptr \<Rightarrow> ptr" where "blkdev_node bdev \<equiv> bdev + 28"
abbreviation bio_node :: "ptr \<Rightarrow> ptr" where "bio_node b \<equiv> b + 16"

definition device_register :: "ptr \<Rightarrow> 'e devs \<Rightarrow> int \<times> 'e devs" where
  "device_register dev s =
     (if dev = 0 then (-1, s)
      else (0, s\<lparr>dlinks := list_add_tail (dev_node dev) (device_list s) (dlinks s)\<rparr>))"

definition device_unregister :: "ptr \<Rightarrow> 'e devs \<Rightarrow> 'e devs" where
  "device_unregister dev s = (if dev = 0 then s else s\<lparr>dlinks := list_del (dev_node dev) (dlinks s)\<rparr>)"

text \<open>The traversal compares names byte by byte in memory; a comparison that does not end is None.\<close>

partial_function (option) device_search :: "mem \<Rightarrow> ptr \<Rightarrow> ptr \<Rightarrow> ptr \<Rightarrow> links \<Rightarrow> ptr option" where
  "device_search m name head n l =
     (if n = head then Some 0
      else Option.bind (strcmp m (n - 48) name) (\<lambda>c.
        if c = 0 then Some (n - 48) else device_search m name head (lnext l n) l))"

definition device_find :: "ptr \<Rightarrow> 'e devs \<Rightarrow> ptr option" where
  "device_find name s =
     device_search (dmem s) name (device_list s) (lnext (dlinks s) (device_list s)) (dlinks s)"

definition register_chrdev :: "int \<Rightarrow> ptr \<Rightarrow> ptr \<Rightarrow> 'e devs \<Rightarrow> (int \<times> 'e devs) option" where
  "register_chrdev major name fops s =
     Option.bind (kmalloc DEVICE_SIZE (dheap s)) (\<lambda>(dev, h).
       let s1 = s\<lparr>dheap := h\<rparr> in
       if dev = 0 then Some (-1, s1)
       else
         let s2 = (if major = 0 then s1\<lparr>next_major := next_major s1 + 1\<rparr> else s1);
             maj = (if major = 0 then next_major s1 else major);
             s3 = s2\<lparr>dmem := strncpy dev name 31 (dmem s2)\<rparr>;
             s4 = s3\<lparr>dmem := (dmem s3)(dev + 31 := 0)\<rparr>;
             s5 = s4\<lparr>devices := (devices s4)(dev := \<lparr>dv_type = DEV_CHAR, dv_major = maj, dv_minor = 0,
                    dv_fops = fops, dv_private_data = 0\<rparr>)\<rparr>;
             s6 = s5\<lparr>dlinks := init_list_head (dev_node dev) (dlinks s5)\<rparr>
         in Some (maj, snd (device_register dev s6)))"

definition blkdev_register :: "ptr \<Rightarrow> 'e devs \<Rightarrow> int \<times> 'e devs" where
  "blkdev_register bdev s =
     (if bdev = 0 then (-1, s)
      else (0, s\<lparr>dlinks := list_add_tail (blkdev_node bdev) (blkdev_list s) (dlinks s)\<rparr>))"

definition blkdev_alloc_bio :: "u32 \<Rightarrow> u32 \<Rightarrow> int \<Rightarrow> 'e devs \<Rightarrow> (ptr \<times> 'e devs) option" where
  "blkdev_alloc_bio sector sz rw s =
     Option.bind (kmalloc BIO_SIZE (dheap s)) (\<lambda>(b, h1).
       let s1 = s\<lparr>dheap := h1\<rparr> in
       if b = 0 then Some (0, s1)
       else Option.bind (kmalloc sz (dheap s1)) (\<lambda>(data, h2).
         let s2 = s1\<lparr>dheap := h2, bios := (bios s1)(b :=
                    \<lparr>bio_sector = sector, bio_size = sz, bio_data = data, bio_rw = rw\<rparr>)\<rparr>
         in if data = 0 then Some (0, s2\<lparr>dheap := kfree b (dheap s2)\<rparr>)
            else Some (b, s2\<lparr>dlinks := init_list_head (bio_node b) (dlinks s2)\<rparr>)))"

definition blkdev_free_bio :: "ptr \<Rightarrow> 'e devs \<Rightarrow> 'e devs" where
  "blkdev_free_bio b s =
     (if b = 0 then s
      else let s1 = (if bio_data (bios s b) \<noteq> 0 then s\<lparr>dheap := kfree (bio_data (bios s b)) (dheap s)\<rparr> else s)
           in s1\<lparr>dheap := kfree b (dheap s1)\<rparr>)"

definition blkdev_submit_bio :: "(ptr \<Rightarrow> ptr \<Rightarrow> 'e devs \<Rightarrow> int \<times> 'e devs) \<Rightarrow> ptr \<Rightarrow> ptr \<Rightarrow> 'e devs \<Rightarrow> int \<times> 'e devs" where
  "blkdev_submit_bio submit bdev b s =
     (if bdev = 0 \<or> b = 0 then (-1, s)
      else if bd_submit (blkdevs s bdev) \<noteq> 0 then submit (bd_submit (blkdevs s bdev)) b s
      else (-1, s))"

section \<open>Names\<close>

text \<open>The name of a device: the bytes of its array up to the first zero.\<close>

definition name_at :: "mem \<Rightarrow> ptr \<Rightarrow> nat \<Rightarrow> u8 list" where
  "name_at m p n = takeWhile (\<lambda>b. b \<noteq> 0) (map (\<lambda>i. m (p + of_nat i)) [0..<n])"

abbreviation dev_name :: "'e devs \<Rightarrow> ptr \<Rightarrow> u8 list" where
  "dev_name s dev \<equiv> name_at (dmem s) dev 31"

lemma name_at_Suc: "name_at m p (Suc n) = (if m p = 0 then [] else m p # name_at m (p + 1) n)"
proof -
  have "map (\<lambda>i. m (p + of_nat i)) [0..<Suc n] = m p # map (\<lambda>i. m (p + 1 + of_nat i)) [0..<n]"
    by (simp add: upt_conv_Cons map_Suc_upt [symmetric] o_def add.assoc del: upt_Suc)
  then show ?thesis by (simp add: name_at_def del: upt_Suc)
qed

lemma cstr_name_at: "m (p + of_nat n) = 0 \<Longrightarrow> cstr m p (name_at m p n)"
proof (induction n arbitrary: p)
  case 0
  then show ?case by (simp add: name_at_def)
next
  case (Suc n)
  then show ?case by (simp add: name_at_Suc add.assoc)
qed

lemma length_name_at: "length (name_at m p n) \<le> n"
  using length_takeWhile_le [of "\<lambda>b. b \<noteq> 0" "map (\<lambda>i. m (p + of_nat i)) [0..<n]"] by (simp add: name_at_def)

lemma name_at_cong: "(\<And>i. i < n \<Longrightarrow> m (p + of_nat i) = m' (q + of_nat i)) \<Longrightarrow> name_at m p n = name_at m' q n"
  unfolding name_at_def by (intro arg_cong [where f = "takeWhile _"]) simp

text \<open>A copied name is the name cut off at the size of the array.\<close>

lemma name_at_copied:
  assumes "0 \<notin> set nm" and "\<And>i. i < n \<Longrightarrow> m (p + of_nat i) = (if i < length nm then nm ! i else 0)"
  shows "name_at m p n = take n nm"
  using assms
proof (induction n arbitrary: p nm)
  case (Suc n)
  have first: "m p = (if 0 < length nm then nm ! 0 else 0)" using Suc.prems(2) [of 0] by simp
  show ?case
  proof (cases nm)
    case (Cons b bs)
    have "m (p + 1 + of_nat i) = (if i < length bs then bs ! i else 0)" if "i < n" for i
      using Suc.prems(2) [of "Suc i"] that Cons by (simp add: add.assoc)
    then have "name_at m (p + 1) n = take n bs" using Suc.prems(1) Cons by (intro Suc.IH) simp_all
    then show ?thesis using first Cons Suc.prems(1) by (auto simp: name_at_Suc)
  qed (use first in \<open>simp add: name_at_Suc\<close>)
qed (simp add: name_at_def)


section \<open>The list of devices\<close>

definition devs_ok :: "'e devs \<Rightarrow> ptr list \<Rightarrow> bool" where
  "devs_ok s ds \<longleftrightarrow> dlist (dlinks s) (device_list s) (map dev_node ds) \<and> 0 \<notin> set ds
     \<and> (\<forall>d \<in> set ds. dmem s (d + 31) = 0)"

definition can_register :: "ptr \<Rightarrow> 'e devs \<Rightarrow> bool" where
  "can_register d s \<longleftrightarrow> d \<noteq> 0 \<and> dev_node d \<noteq> 0 \<and> dev_node d \<noteq> device_list s \<and> dmem s (d + 31) = 0"

lemma register_sel [simp]:
  "dmem (snd (device_register d s)) = dmem s" "dheap (snd (device_register d s)) = dheap s"
  "device_list (snd (device_register d s)) = device_list s" "dmem (device_unregister d s) = dmem s"
  "device_list (device_unregister d s) = device_list s" "dheap (device_unregister d s) = dheap s"
  by (simp_all add: device_register_def device_unregister_def)

lemma device_search_chain:
  assumes "chain l a (map dev_node ds) h" "h \<notin> set (map dev_node ds)" "cstr m q n" "\<forall>d \<in> set ds. m (d + 31) = 0"
  shows "device_search m q h (lnext l a) l = Some (first_named (\<lambda>d. name_at m d 31) n ds)"
  using assms
proof (induction ds arbitrary: a)
  case Nil
  then show ?case by (subst device_search.simps) (simp add: first_named_def)
next
  case (Cons d ds)
  have nm: "cstr m d (name_at m d 31)" using Cons.prems(4) cstr_name_at [of m d 31] by simp
  have cmp: "strcmp m d q = Some (byte_cmp (name_at m d 31) n)" by (rule strcmp_cstr [OF nm Cons.prems(3)])
  have zero: "byte_cmp (name_at m d 31) n = 0 \<longleftrightarrow> name_at m d 31 = n"
    using byte_cmp_zero cstr_nonzero [OF nm] cstr_nonzero [OF Cons.prems(3)] by blast
  have rest: "lnext l a = dev_node d" "device_search m q h (lnext l (dev_node d)) l = Some (first_named (\<lambda>d. name_at m d 31) n ds)"
    using Cons by auto
  show ?case using Cons.prems(2) rest cmp zero
    by (subst device_search.simps) (auto simp: first_named_def)
qed

interpretation device_reg: registry devs_ok can_register "\<lambda>d s. snd (device_register d s)" device_unregister device_find dev_name
    "\<lambda>s. cstr (dmem s)"
proof unfold_locales
  fix s :: "'e devs" and ds d
  assume ok: "devs_ok s ds"
  show "devs_ok (snd (device_register d s)) (ds @ [d])" if "can_register d s" "d \<notin> set ds"
    using ok that by (auto simp: devs_ok_def can_register_def device_register_def intro!: dlist_add_tail)
  show "devs_ok (device_unregister d s) (remove1 d ds)" if mem: "d \<in> set ds"
  proof -
    obtain xs ys where ab: "ds = xs @ d # ys" "d \<notin> set xs" using split_list_first [OF mem] by blast
    then have "dlist (list_del (dev_node d) (dlinks s)) (device_list s) (map dev_node (xs @ ys))"
      using ok by (auto simp: devs_ok_def intro!: dlist_del)
    then show ?thesis using ok ab mem by (auto simp: devs_ok_def device_unregister_def remove1_append)
  qed
  show "device_find q s = Some (first_named (dev_name s) n ds)" if "cstr (dmem s) q n" for q n
    using ok that device_search_chain [of "dlinks s" "device_list s" ds "device_list s" "dmem s" q n]
    by (auto simp: devs_ok_def device_find_def dlist_def)
  show "0 \<notin> set ds" using ok by (simp add: devs_ok_def)
qed (simp_all add: can_register_def)

section \<open>Registering a character device\<close>

text \<open>Devices in the heap, the list head below it.\<close>

definition dev_inv :: "'e devs \<Rightarrow> ablock list \<Rightarrow> ptr list \<Rightarrow> bool" where
  "dev_inv s bs ds \<longleftrightarrow> devs_ok s ds \<and> heap_inv (dheap s) bs \<and> unat (device_list s) < ARENA_START
     \<and> (\<forall>d \<in> set ds. \<exists>k \<ge> 60. (unat d, k) \<in> live ARENA_START bs)"

text \<open>A string of the kernel image, which lies below the heap.\<close>

definition image_string :: "'e devs \<Rightarrow> ptr \<Rightarrow> u8 list \<Rightarrow> bool" where
  "image_string s p nm \<longleftrightarrow> cstr (dmem s) p nm \<and> unat p + length nm + 32 \<le> ARENA_START"

text \<open>Two objects of the heap do not share a byte.\<close>

lemma device_bytes_apart:
  fixes d dev :: ptr
  assumes "heap_inv h bs" "(unat d, j) \<in> live ARENA_START bs" "60 \<le> j" "60 \<le> k"
    "\<forall>(q, j) \<in> live ARENA_START bs. q + j < unat dev \<or> unat dev + k < q" "unat dev + k \<le> ARENA_END"
    "a \<le> 60" "b \<le> 60"
  shows "d + of_nat a \<noteq> dev + of_nat b"
proof
  assume e: "d + of_nat a = dev + of_nat b"
  have r: "unat d + j \<le> ARENA_END" using heap_live_range [OF assms(1,2)] by simp
  have "unat (d + of_nat a) = unat d + a" by (rule unat_add_of_nat) (use r assms(3,7) in simp)
  moreover have "unat (dev + of_nat b) = unat dev + b" by (rule unat_add_of_nat) (use assms(4,6,8) in simp)
  ultimately have "unat d + a = unat dev + b" using e by simp
  then show False using assms(2-8) by fastforce
qed


text \<open>The state a successful registration reaches.\<close>

definition chrdev_made :: "ptr \<Rightarrow> int \<Rightarrow> ptr \<Rightarrow> ptr \<Rightarrow> kheap \<Rightarrow> 'e devs \<Rightarrow> 'e devs" where
  "chrdev_made dev major name fops h s = s\<lparr>dheap := h,
     next_major := (if major = 0 then next_major s + 1 else next_major s),
     dmem := (strncpy dev name 31 (dmem s))(dev + 31 := 0),
     devices := (devices s)(dev := \<lparr>dv_type = DEV_CHAR, dv_major = (if major = 0 then next_major s else major),
        dv_minor = 0, dv_fops = fops, dv_private_data = 0\<rparr>),
     dlinks := init_list_head (dev_node dev) (dlinks s)\<rparr>"

lemma register_chrdev_made:
  "kmalloc DEVICE_SIZE (dheap s) = Some (dev, h) \<Longrightarrow> dev \<noteq> 0 \<Longrightarrow>
    register_chrdev major name fops s =
      Some (if major = 0 then next_major s else major, snd (device_register dev (chrdev_made dev major name fops h s)))"
  by (simp add: register_chrdev_def chrdev_made_def Let_def)

lemma chrdev_made_mem:
  assumes nm: "image_string s name nm" and dev: "ARENA_START \<le> unat dev" "unat dev + 60 \<le> ARENA_END"
  shows "i < 31 \<Longrightarrow> dmem (chrdev_made dev major name fops h s) (dev + of_nat i) = (if i < length nm then nm ! i else 0)"
    and "dmem (chrdev_made dev major name fops h s) (dev + 31) = 0"
    and "(\<And>i. i < 32 \<Longrightarrow> a \<noteq> dev + of_nat i) \<Longrightarrow> dmem (chrdev_made dev major name fops h s) a = dmem s a"
proof -
  have c: "cstr (dmem s) name nm" "unat name + length nm + 32 \<le> ARENA_START" using nm by (simp_all add: image_string_def)
  have "name \<le> dev" using c(2) dev(1) by (simp add: word_le_nat_alt)
  then have dist: "unat (dev - name) = unat dev - unat name" by (rule unat_diff_u32)
  have copy: "strncpy dev name 31 (dmem s) a = (if unat (a - dev) < 31
      then (if unat (a - dev) < length nm then nm ! unat (a - dev) else 0) else dmem s a)" for a
    using strncpy_apply [OF c(1), of 31 dev a] c(2) dev(1) dist by simp
  show "dmem (chrdev_made dev major name fops h s) (dev + 31) = 0" by (simp add: chrdev_made_def)
  show "dmem (chrdev_made dev major name fops h s) (dev + of_nat i) = (if i < length nm then nm ! i else 0)" if "i < 31"
  proof -
    have u: "unat (of_nat i :: u32) = i" using that by (intro unat_of_nat_u32) simp
    then have "(of_nat i :: u32) \<noteq> 31" using that by auto
    then show ?thesis using copy [of "dev + of_nat i"] that u by (simp add: chrdev_made_def)
  qed
  show "dmem (chrdev_made dev major name fops h s) a = dmem s a" if far: "\<And>i. i < 32 \<Longrightarrow> a \<noteq> dev + of_nat i"
  proof -
    have "\<not> unat (a - dev) < 32" using far [of "unat (a - dev)"] by auto
    moreover have "a \<noteq> dev + 31" using far [of 31] by simp
    ultimately show ?thesis using copy [of a] by (simp add: chrdev_made_def)
  qed
qed


lemma register_chrdev_cases:
  assumes inv: "dev_inv s bs ds" and nm: "image_string s name nm"
  obtains (fail) "\<forall>(n, f) \<in> set bs. f \<longrightarrow> n < 64" "register_chrdev major name fops s = Some (-1, s)"
  | (made) dev s' bs' where "register_chrdev major name fops s = Some (if major = 0 then next_major s else major, s')"
      "dev \<notin> set ds" "dev_inv s' bs' (ds @ [dev])" "dev_name s' dev = take 31 nm" "\<forall>d \<in> set ds. dev_name s' d = dev_name s d"
      "\<And>q n. image_string s q n \<Longrightarrow> image_string s' q n" "next_major s' = (if major = 0 then next_major s + 1 else next_major s)"
      "dv_major (devices s' dev) = (if major = 0 then next_major s else major)" "\<exists>(n, f) \<in> set bs. f \<and> 64 \<le> n"
proof (cases "alloc_abs (unat (align16 DEVICE_SIZE)) ARENA_START bs")
  case None
  then have "kmalloc DEVICE_SIZE (dheap s) = Some (0, dheap s)"
    using inv kmalloc_refines [of "dheap s" bs DEVICE_SIZE] by (simp add: dev_inv_def)
  moreover have "unat (align16 DEVICE_SIZE) = 64" by (simp add: align16_def)
  ultimately show ?thesis using None by (intro fail) (simp_all add: register_chrdev_def alloc_abs_None_iff)
next
  case (Some pb)
  obtain p bs' where pb: "pb = (p, bs')" by (cases pb)
  have "unat (align16 DEVICE_SIZE) = 64" by (simp add: align16_def)
  then have nfull: "\<not> (\<forall>(n, f) \<in> set bs. f \<longrightarrow> n < 64)" using Some alloc_abs_None_iff [of 64 ARENA_START bs] by simp
  have free: "\<exists>(n, f) \<in> set bs. f \<and> 64 \<le> n"
  proof (rule ccontr)
    assume "\<not> ?thesis"
    then show False using nfull by (simp only: Ball_def Bex_def split_paired_all case_prod_conv not_less [symmetric]) blast
  qed
  have heap: "heap_inv (dheap s) bs" using inv by (simp add: dev_inv_def)
  obtain h k where h: "kmalloc DEVICE_SIZE (dheap s) = Some (of_nat p, h)" "heap_inv h bs'" "unat (of_nat p :: u32) = p"
    "p \<noteq> 0" "unat (align16 DEVICE_SIZE) \<le> k" "live ARENA_START bs' = insert (p, k) (live ARENA_START bs)" "p + k \<le> ARENA_END"
    and apart: "\<forall>(q, j) \<in> live ARENA_START bs. q + j + 12 \<le> p \<or> p + k + 12 \<le> q"
    using heap_alloc_new [OF heap Some [unfolded pb]] by blast
  define dev where "dev = (of_nat p :: ptr)"
  have u: "unat dev = p" and k: "60 \<le> k" using h(3,5) align16_ge [of DEVICE_SIZE] by (simp_all add: dev_def)
  have low: "ARENA_START \<le> unat dev" using heap_live_range [OF h(2), of p k] h(6) u by simp
  have nz: "dev \<noteq> 0" using h(4) u by auto
  note [simp] = register_chrdev_made [OF h(1) [folded dev_def] nz]
  define t where "t = chrdev_made dev major name fops h s"
  have dev_range: "unat dev + 60 \<le> ARENA_END" using h(7) k u by simp
  note mem = chrdev_made_mem [OF nm low dev_range, where major = major and fops = fops and h = h, folded t_def]
  have other: "d + of_nat a \<noteq> dev + of_nat b" if mem: "d \<in> set ds" and ab: "a \<le> 60" "b \<le> 60" for d a b
  proof -
    obtain j where "(unat d, j) \<in> live ARENA_START bs" "60 \<le> j" using inv mem by (auto simp: dev_inv_def)
    moreover have "\<forall>(q, j) \<in> live ARENA_START bs. q + j < unat dev \<or> unat dev + k < q" using apart u by fastforce
    ultimately show ?thesis using device_bytes_apart [OF heap _ _ k _ _ ab] h(7) u by blast
  qed
  have same: "dmem t (d + of_nat a) = dmem s (d + of_nat a)" if "d \<in> set ds" "a \<le> 60" for d a
    by (rule mem(3)) (use other [OF that] in simp)
  have outside: "a \<noteq> dev_node dev" if "unat a < ARENA_START" for a
    using that low dev_range unat_add_of_nat [of dev 48] by auto
  have head: "unat (device_list s) < ARENA_START" using inv by (simp add: dev_inv_def)
  have new: "dev \<notin> set ds" using other [of dev 0 0] by auto
  have notin: "dev_node dev \<notin> set (device_list s # map dev_node ds)"
    using outside [OF head] new by auto
  have "dlist (dlinks t) (device_list t) (map dev_node ds)"
    using inv dlist_init_other [OF notin] by (simp add: t_def chrdev_made_def dev_inv_def devs_ok_def)
  then have ok: "devs_ok t ds"
    using inv same [of _ 31] by (auto simp: devs_ok_def dev_inv_def)
  have "can_register dev t"
    using nz mem(2) notin outside [of 0] by (auto simp: can_register_def t_def chrdev_made_def)
  then have "devs_ok (snd (device_register dev t)) (ds @ [dev])" using device_reg.add_repr [OF ok] new by simp
  moreover have "dheap t = h" "device_list t = device_list s" by (simp_all add: t_def chrdev_made_def)
  ultimately have "dev_inv (snd (device_register dev t)) bs' (ds @ [dev])"
    using inv h(2,6) k u by (fastforce simp: dev_inv_def)
  moreover have "dev_name (snd (device_register dev t)) dev = take 31 nm"
    using name_at_copied [of nm 31 "dmem t" dev] mem(1) nm cstr_nonzero [of "dmem s" name nm] by (auto simp: image_string_def)
  moreover have "\<forall>d \<in> set ds. dev_name (snd (device_register dev t)) d = dev_name s d"
    using same by (auto intro!: name_at_cong)
  moreover have "image_string (snd (device_register dev t)) q n" if "image_string s q n" for q n
  proof -
    have q: "cstr (dmem s) q n" "unat q + length n + 32 \<le> ARENA_START" using that by (simp_all add: image_string_def)
    have "dmem t a = dmem s a" if a: "unat (a - q) \<le> length n" for a
    proof (rule mem(3))
      fix i :: nat assume i: "i < 32"
      have "unat (q + of_nat (unat (a - q))) = unat q + unat (a - q)" by (rule unat_add_of_nat) (use q(2) a in simp)
      then have "unat a < ARENA_START" using a q(2) by simp
      moreover have "unat (dev + of_nat i) = unat dev + i" by (rule unat_add_of_nat) (use dev_range i in simp)
      ultimately show "a \<noteq> dev + of_nat i" using low by auto
    qed
    then have "cstr (dmem t) q n" using cstr_cong [of q n "dmem t" "dmem s"] q by simp
    then show ?thesis using q(2) by (simp add: image_string_def)
  qed
  ultimately show ?thesis using new free
    by (intro made [of "snd (device_register dev t)" dev bs']) (simp_all add: t_def chrdev_made_def device_register_def)
qed

section \<open>Properties\<close>

text \<open>C9: Registering character devices and finding them. \<^verbatim>\<open>register_chrdev\<close> always returns: -1 with nothing
  changed exactly when no free block of the heap has the 64 bytes of a device, else the major number asked for or, for 0, the next one of the counter. The new
  device is last in the list under the first 31 characters of its name, the devices before it keep their names,
  and \<^verbatim>\<open>device_find\<close> returns the first device of that list with the name it is asked for, or NULL: so a device whose name is
  taken already, or longer than 31 characters, is not found under it.\<close>

theorem register_chrdev_find:
  assumes "dev_inv s bs ds" and "image_string s name nm"
  shows "if \<forall>(n, f) \<in> set bs. f \<longrightarrow> n < 64 then register_chrdev major name fops s = Some (-1, s)
    else (\<exists>dev s' bs'. register_chrdev major name fops s = Some (if major = 0 then next_major s else major, s')
      \<and> dev_inv s' bs' (ds @ [dev]) \<and> dev \<notin> set ds \<and> map (dev_name s') (ds @ [dev]) = map (dev_name s) ds @ [take 31 nm]
      \<and> dv_major (devices s' dev) = (if major = 0 then next_major s else major)
      \<and> (\<forall>q n. image_string s q n \<longrightarrow> device_find q s' = Some (first_named (dev_name s') n (ds @ [dev])))
      \<and> (31 < length nm \<longrightarrow> device_find name s' \<noteq> Some dev))"
  using assms
proof (cases rule: register_chrdev_cases [where major = major and fops = fops])
  case (made dev s' bs')
  have find: "device_find q s' = Some (first_named (dev_name s') n (ds @ [dev]))" if "image_string s q n" for q n
    using device_reg.lookup_repr [of s' "ds @ [dev]" q n] made(3) made(6) [OF that] by (simp add: dev_inv_def image_string_def)
  moreover have "device_find name s' \<noteq> Some dev" if "31 < length nm"
  proof -
    have "dev_name s' dev \<noteq> nm" using made(4) that by (metis length_take min.absorb2 less_imp_le nat_less_le)
    moreover have "dev \<noteq> 0" using made(3) by (simp add: dev_inv_def devs_ok_def)
    ultimately show ?thesis using find [OF assms(2)]
      by (auto simp: first_named_def find_append find_Some_iff split: option.splits)
  qed
  moreover have "\<not> (\<forall>(n, f) \<in> set bs. f \<longrightarrow> n < 64)" using made(9) by fastforce
  ultimately show ?thesis using made(1-5,8) by auto
qed simp

definition boot_devs :: "unit devs" where
  "boot_devs = \<lparr>dheap = boot_kheap (\<lambda>_. \<lparr>hb_size = 0, hb_is_free = True, hb_next = 0\<rparr>),
     dmem = (\<lambda>_. 0)(0x2000 := 116, 0x2001 := 116, 0x2002 := 121), dlinks = init_list_head 0x1000 \<lparr>lnext = (\<lambda>_. 0), lprev = (\<lambda>_. 0)\<rparr>,
     devices = (\<lambda>_. \<lparr>dv_type = 0, dv_major = 0, dv_minor = 0, dv_fops = 0, dv_private_data = 0\<rparr>), device_list = 0x1000,
     next_major = 1, bios = (\<lambda>_. \<lparr>bio_sector = 0, bio_size = 0, bio_data = 0, bio_rw = 0\<rparr>),
     blkdevs = (\<lambda>_. \<lparr>bd_size = 0, bd_queue = 0, bd_submit = 0\<rparr>), blkdev_list = 0x1010, dev_env = ()\<rparr>"

lemma boot_devs_inv: "dev_inv boot_devs [(0xFFFF4, True)] []" "image_string boot_devs 0x2000 [116, 116, 121]"
  using boot_kheap_inv by (simp_all add: dev_inv_def devs_ok_def boot_devs_def dlist_init image_string_def)

theorem register_chrdev_find_witness:
  "\<exists>dev s'. register_chrdev 0 0x2000 0x9000 boot_devs = Some (1, s') \<and> device_find 0x2000 s' = Some dev
     \<and> dev_name s' dev = [116, 116, 121]"
proof -
  obtain p h where k: "kmalloc DEVICE_SIZE (dheap boot_devs) = Some (p, h)" using boot_devs_inv heap.alloc_total by (fastforce simp: dev_inv_def)
  then have "p \<noteq> 0" by (intro boot_kmalloc [of DEVICE_SIZE]) (simp_all add: boot_devs_def align16_def)
  then obtain s' where "register_chrdev 0 0x2000 0x9000 boot_devs = Some (1, s')"
    using register_chrdev_made [of boot_devs, OF k] by (simp add: boot_devs_def)
  then show ?thesis
    using register_chrdev_find [OF boot_devs_inv, of 0 "0x9000"] boot_devs_inv(2)
    by (auto simp: first_named_def)
qed

text \<open>Requests to block devices. \<^verbatim>\<open>blkdev_alloc_bio\<close> always returns: NULL with the heap blocks in use as before, or a
  request with the sector, size and direction asked for and a buffer of at least that size (for a size up to
  4294967280), both new blocks of the heap; \<^verbatim>\<open>blkdev_free_bio\<close> then gives back exactly these two. Submitting to
  a device without a submit function is refused.\<close>

theorem bio_alloc_free:
  assumes inv: "heap_inv (dheap s) bs"
  shows "\<exists>b s' bs'. blkdev_alloc_bio sector sz rw s = Some (b, s') \<and> heap_inv (dheap s') bs'
    \<and> (if b = 0 then live ARENA_START bs' = live ARENA_START bs
       else \<exists>k j bs''. bios s' b = \<lparr>bio_sector = sector, bio_size = sz, bio_data = bio_data (bios s' b), bio_rw = rw\<rparr>
         \<and> live ARENA_START bs' = live ARENA_START bs \<union> {(unat b, k), (unat (bio_data (bios s' b)), j)}
         \<and> {unat b, unat (bio_data (bios s' b))} \<inter> fst ` live ARENA_START bs = {} \<and> bio_data (bios s' b) \<noteq> b
         \<and> 24 \<le> k \<and> (unat sz < 2 ^ 32 - 15 \<longrightarrow> unat sz \<le> j)
         \<and> heap_inv (dheap (blkdev_free_bio b s')) bs'' \<and> live ARENA_START bs'' = live ARENA_START bs
         \<and> (bd_submit (blkdevs s' bdev) = 0 \<longrightarrow> blkdev_submit_bio submit bdev b s' = (-1, s')))"
proof -
  define made where "made b data h = s\<lparr>dheap := h, bios := (bios s)(b :=
      \<lparr>bio_sector = sector, bio_size = sz, bio_data = data, bio_rw = rw\<rparr>), dlinks := init_list_head (bio_node b) (dlinks s)\<rparr>" for b data h
  have def: "blkdev_alloc_bio sector sz rw s = Option.bind (kmalloc BIO_SIZE (dheap s)) (\<lambda>(b, h1).
      if b = 0 then Some (0, s\<lparr>dheap := h1\<rparr>)
      else Option.bind (kmalloc sz h1) (\<lambda>(data, h2).
        if data = 0 then Some (0, (made b data h2)\<lparr>dheap := kfree b h2, dlinks := dlinks s\<rparr>) else Some (b, made b data h2)))"
    by (simp add: blkdev_alloc_bio_def made_def Let_def cong: if_cong)
  have refused: "\<exists>s'. blkdev_alloc_bio sector sz rw s = Some (0, s') \<and> dheap s' = h" if "heap.alloc_pair BIO_SIZE sz (dheap s) = Some (0, 0, h)" for h
    using that unfolding def by (force split: Option.bind_split_asm if_split_asm)
  have success: "blkdev_alloc_bio sector sz rw s = Some (b, made b data h)"
    if "heap.alloc_pair BIO_SIZE sz (dheap s) = Some (b, data, h)" "b \<noteq> 0" "data \<noteq> 0" for b data h
    using that unfolding def by (force split: Option.bind_split_asm if_split_asm)
  from inv show ?thesis
  proof (cases rule: heap.alloc_pair_cases [where n = BIO_SIZE and m = sz])
    case (fail h bs')
    obtain s' where "blkdev_alloc_bio sector sz rw s = Some (0, s')" "dheap s' = h" using refused [OF fail(1)] by blast
    then show ?thesis using fail(2,3) by (intro exI [of _ 0] exI [of _ s'] exI [of _ bs']) simp
  next
    case (got b data h bs' k j)
    let ?s = "made b data h"
    have l: "(unat b, k) \<in> live ARENA_START bs'" "(unat data, j) \<in> live ARENA_START bs'" using got(5) by simp_all
    have ne: "b \<noteq> data" using got(9) by auto
    obtain bs'' where bs'': "heap_inv (kfree b (kfree data h)) bs''"
      "live ARENA_START bs'' = {(r, i) \<in> live ARENA_START bs'. r \<noteq> unat b \<and> r \<noteq> unat data}"
      by (rule heap.free_pair_blocks [OF got(4) l ne])
    have old: "r \<noteq> unat b \<and> r \<noteq> unat data" if "(r, i) \<in> live ARENA_START bs" for r i using that got(8,9) by (auto simp: image_iff)
    have live'': "live ARENA_START bs'' = live ARENA_START bs" unfolding bs''(2) got(5) using old by auto
    have free: "dheap (blkdev_free_bio b ?s) = kfree b (kfree data h)"
      using got(2,3) by (simp add: blkdev_free_bio_def made_def)
    have sel: "bios ?s b = \<lparr>bio_sector = sector, bio_size = sz, bio_data = data, bio_rw = rw\<rparr>" "dheap ?s = h" by (simp_all add: made_def)
    have un: "live ARENA_START bs' = live ARENA_START bs \<union> {(unat b, k), (unat data, j)}" using got(5) by blast
    have refuse: "bd_submit (blkdevs ?s bdev) = 0 \<longrightarrow> blkdev_submit_bio submit bdev b ?s = (-1, ?s)" by (simp add: blkdev_submit_bio_def)
    show ?thesis
      by (rule exI [of _ b], rule exI [of _ ?s], rule exI [of _ bs'], simp only: sel free bio.simps got(2) if_False)
        (use success [OF got(1-3)] got(4,6-9) un refuse bs''(1) live'' ne in \<open>simp only: simp_thms, auto\<close>)
  qed
qed

theorem bio_alloc_free_witness:
  "\<exists>b s'. blkdev_alloc_bio 7 512 0 boot_devs = Some (b, s') \<and> (b = 0 \<or> bio_sector (bios s' b) = 7)"
proof -
  have "heap_inv (dheap boot_devs) [(0xFFFF4, True)]" using boot_devs_inv by (simp add: dev_inv_def)
  from bio_alloc_free [OF this, of 7 512 0] show ?thesis by (metis bio.select_convs(1))
qed

end
