(* ===== verification/Rtc.thy ===== *)
theory Rtc
  imports Prelude
begin

text \<open>
  The real time clock, \<^verbatim>\<open>drivers/rtc.c\<close>. The chip is a parameter, \<open>cmos\<close>: the value of a register
  at the time of the n-th read of the data port. Writing the address port selects the
  register, reading the data port reads the one selected; \<open>reads\<close> counts the reads. Reading
  the clock waits for the update flag to clear; a wait that does not end is None. The time
  and the date are returned instead of stored through pointers, none of which is NULL in
  the callers.
\<close>

section \<open>Ports\<close>

record rtc =
  selected :: u8
  reads :: nat
  cmos :: "nat \<Rightarrow> u8 \<Rightarrow> u8"

abbreviation RTC_SECONDS :: u8 where "RTC_SECONDS \<equiv> 0x00"
abbreviation RTC_MINUTES :: u8 where "RTC_MINUTES \<equiv> 0x02"
abbreviation RTC_HOURS :: u8 where "RTC_HOURS \<equiv> 0x04"
abbreviation RTC_DAY :: u8 where "RTC_DAY \<equiv> 0x07"
abbreviation RTC_MONTH :: u8 where "RTC_MONTH \<equiv> 0x08"
abbreviation RTC_YEAR :: u8 where "RTC_YEAR \<equiv> 0x09"
abbreviation RTC_STATUS_A :: u8 where "RTC_STATUS_A \<equiv> 0x0A"
abbreviation RTC_STATUS_B :: u8 where "RTC_STATUS_B \<equiv> 0x0B"

definition rtc_inb :: "rtc \<Rightarrow> u8 \<times> rtc" where
  "rtc_inb s = (cmos s (reads s) (selected s), s\<lparr>reads := reads s + 1\<rparr>)"

section \<open>The driver\<close>

definition rtc_read_register :: "u8 \<Rightarrow> rtc \<Rightarrow> u8 \<times> rtc" where
  "rtc_read_register reg s = rtc_inb (s\<lparr>selected := reg\<rparr>)"

definition rtc_is_updating :: "rtc \<Rightarrow> bool \<times> rtc" where
  "rtc_is_updating s =
     (let s1 = s\<lparr>selected := RTC_STATUS_A\<rparr>; (v, s2) = rtc_inb s1 in (v AND 0x80 \<noteq> 0, s2))"

definition bcd_to_binary :: "u8 \<Rightarrow> u8" where
  "bcd_to_binary bcd = (bcd div 16) * 10 + (bcd AND 0x0F)"

definition rtc_init :: "rtc \<Rightarrow> rtc" where
  "rtc_init s = snd (rtc_inb (s\<lparr>selected := RTC_STATUS_B\<rparr>))"

partial_function (option) rtc_wait :: "rtc \<Rightarrow> rtc option" where
  "rtc_wait s = (case rtc_is_updating s of (updating, s1) \<Rightarrow> if updating then rtc_wait s1 else Some s1)"

definition rtc_read_time :: "rtc \<Rightarrow> ((u8 \<times> u8 \<times> u8) \<times> rtc) option" where
  "rtc_read_time s = Option.bind (rtc_wait s) (\<lambda>s0.
     let (sec, s1) = rtc_read_register RTC_SECONDS s0;
         (min, s2) = rtc_read_register RTC_MINUTES s1;
         (hr, s3) = rtc_read_register RTC_HOURS s2;
         (status_b, s4) = rtc_inb (s3\<lparr>selected := RTC_STATUS_B\<rparr>);
         (sec, min, hr) = (if status_b AND 0x04 = 0
                           then (bcd_to_binary sec, bcd_to_binary min, bcd_to_binary hr) else (sec, min, hr));
         hr = (if status_b AND 0x02 = 0 \<and> hr AND 0x80 \<noteq> 0 then ((hr AND 0x7F) + 12) mod 24 else hr)
     in Some ((hr, min, sec), s4))"

definition rtc_read_date :: "rtc \<Rightarrow> ((u16 \<times> u8 \<times> u8) \<times> rtc) option" where
  "rtc_read_date s = Option.bind (rtc_wait s) (\<lambda>s0.
     let (d, s1) = rtc_read_register RTC_DAY s0;
         (m, s2) = rtc_read_register RTC_MONTH s1;
         (y, s3) = rtc_read_register RTC_YEAR s2;
         (status_b, s4) = rtc_inb (s3\<lparr>selected := RTC_STATUS_B\<rparr>);
         (d, m, y) = (if status_b AND 0x04 = 0
                      then (bcd_to_binary d, bcd_to_binary m, bcd_to_binary y) else (d, m, y));
         full_year = 2000 + ucast y
     in Some ((full_year, m, d), s4))"

text \<open>The arithmetic of \<^verbatim>\<open>rtc_get_timestamp\<close> on what it has read.\<close>

definition timestamp :: "u16 \<times> u8 \<times> u8 \<Rightarrow> u8 \<times> u8 \<times> u8 \<Rightarrow> u32" where
  "timestamp date time =
     (case (date, time) of ((year, month, day), (hour, minute, second)) \<Rightarrow>
       let days = (ucast year - 2000) * 365;
           days = days + (ucast month - 1) * 30;
           days = days + ucast day;
           t = days * 86400;
           t = t + ucast hour * 3600;
           t = t + ucast minute * 60
       in t + ucast second)"

definition rtc_get_timestamp :: "rtc \<Rightarrow> (u32 \<times> rtc) option" where
  "rtc_get_timestamp s =
     Option.bind (rtc_read_time s) (\<lambda>(time, s1).
       Option.bind (rtc_read_date s1) (\<lambda>(date, s2). Some (timestamp date time, s2)))"

section \<open>What the chip holds\<close>

text \<open>A number below 100 in a register: two decimal digits in the halves of the byte, or binary.\<close>

definition encoded :: "bool \<Rightarrow> nat \<Rightarrow> u8" where
  "encoded bcd n = of_nat (if bcd then n div 10 * 16 + n mod 10 else n)"

text \<open>The hour: in the 12-hour format 12, 1, ..., 11 with the top bit set after noon.\<close>

definition encoded_hour :: "bool \<Rightarrow> bool \<Rightarrow> nat \<Rightarrow> u8" where
  "encoded_hour bcd h24 h =
     (if h24 then encoded bcd h
      else encoded bcd (if h mod 12 = 0 then 12 else h mod 12) OR (if 12 \<le> h then 0x80 else 0))"

text \<open>A clock that is updating for the next \<open>k\<close> reads and then keeps still.\<close>

definition clock_at :: "rtc \<Rightarrow> nat \<Rightarrow> bool \<Rightarrow> bool \<Rightarrow> nat \<times> nat \<times> nat \<Rightarrow> nat \<times> nat \<times> nat \<Rightarrow> bool" where
  "clock_at s k bcd h24 date time \<longleftrightarrow>
     (case (date, time) of ((year, month, day), (hour, minute, second)) \<Rightarrow>
       (\<forall>n. reads s \<le> n \<and> n < reads s + k \<longrightarrow> cmos s n RTC_STATUS_A AND 0x80 \<noteq> 0)
       \<and> (\<forall>n \<ge> reads s + k. cmos s n RTC_STATUS_A AND 0x80 = 0
           \<and> (cmos s n RTC_STATUS_B AND 0x04 = 0 \<longleftrightarrow> bcd) \<and> (cmos s n RTC_STATUS_B AND 0x02 = 0 \<longleftrightarrow> \<not> h24)
           \<and> cmos s n RTC_SECONDS = encoded bcd second \<and> cmos s n RTC_MINUTES = encoded bcd minute
           \<and> cmos s n RTC_HOURS = encoded_hour bcd h24 hour \<and> cmos s n RTC_DAY = encoded bcd day
           \<and> cmos s n RTC_MONTH = encoded bcd month \<and> cmos s n RTC_YEAR = encoded bcd (year - 2000))
       \<and> hour < 24 \<and> minute < 60 \<and> second < 60 \<and> day < 32 \<and> month < 13 \<and> 2000 \<le> year \<and> year < 2100)"

text \<open>The hour the driver makes of it.\<close>

definition hour_read :: "bool \<Rightarrow> bool \<Rightarrow> nat \<Rightarrow> nat" where
  "hour_read bcd h24 h =
     (if h24 then h
      else if h = 0 then 12
      else if h < 12 then h
      else if bcd then (if h = 12 then 92 else 80 + (h - 12))
      else if h = 12 then 0 else h)"

lemma bcd_encoded: "n < 100 \<Longrightarrow> bcd_to_binary (encoded True n) = of_nat n"
proof -
  have "\<forall>n < 100. bcd_to_binary (encoded True n) = of_nat n"
    unfolding bcd_to_binary_def encoded_def by code_simp
  then show "n < 100 \<Longrightarrow> bcd_to_binary (encoded True n) = of_nat n" by blast
qed


lemma hour_decoded:
  assumes "h < 24"
  shows "(let hr = (if bcd then bcd_to_binary (encoded_hour bcd h24 h) else encoded_hour bcd h24 h)
     in if \<not> h24 \<and> hr AND 0x80 \<noteq> 0 then ((hr AND 0x7F) + 12) mod 24 else hr) = of_nat (hour_read bcd h24 h)"
proof -
  have "\<forall>h < 24. \<forall>bcd \<in> {True, False}. \<forall>h24 \<in> {True, False}.
     (let hr = (if bcd then bcd_to_binary (encoded_hour bcd h24 h) else encoded_hour bcd h24 h)
      in if \<not> h24 \<and> hr AND 0x80 \<noteq> 0 then ((hr AND 0x7F) + 12) mod 24 else hr) = of_nat (hour_read bcd h24 h)"
    unfolding bcd_to_binary_def encoded_def encoded_hour_def hour_read_def by code_simp
  then show ?thesis using assms by (cases bcd; cases h24) blast+
qed

lemma rtc_wait_done:
  assumes "\<forall>n. reads s \<le> n \<and> n < reads s + k \<longrightarrow> cmos s n RTC_STATUS_A AND 0x80 \<noteq> 0"
    and "cmos s (reads s + k) RTC_STATUS_A AND 0x80 = 0"
  shows "rtc_wait s = Some (s\<lparr>selected := RTC_STATUS_A, reads := reads s + k + 1\<rparr>)"
  using assms
proof (induction k arbitrary: s)
  case 0
  then show ?case by (subst rtc_wait.simps) (simp add: rtc_is_updating_def rtc_inb_def)
next
  case (Suc k)
  let ?s = "s\<lparr>selected := RTC_STATUS_A, reads := reads s + 1\<rparr>"
  have "rtc_wait s = rtc_wait ?s"
    using Suc.prems(1) by (subst rtc_wait.simps) (simp add: rtc_is_updating_def rtc_inb_def)
  also have "rtc_wait ?s = Some (?s\<lparr>selected := RTC_STATUS_A, reads := reads ?s + k + 1\<rparr>)"
    by (rule Suc.IH) (use Suc.prems in auto)
  finally show ?case by simp
qed

lemma clock_at_later:
  "clock_at s k bcd h24 date time \<Longrightarrow> clock_at (s\<lparr>selected := x, reads := reads s + k + j\<rparr>) 0 bcd h24 date time"
  by (auto simp: clock_at_def split: prod.splits)

lemma encoded_value: "n < 100 \<Longrightarrow> (if bcd then bcd_to_binary (encoded bcd n) else encoded bcd n) = of_nat n"
  using bcd_encoded [of n] by (simp add: encoded_def)

lemma read_time_clock:
  assumes "clock_at s k bcd h24 date (hour, minute, second)"
  shows "rtc_read_time s = Some ((of_nat (hour_read bcd h24 hour), of_nat minute, of_nat second),
     s\<lparr>selected := RTC_STATUS_B, reads := reads s + k + 5\<rparr>)"
proof -
  have w: "rtc_wait s = Some (s\<lparr>selected := RTC_STATUS_A, reads := reads s + k + 1\<rparr>)"
    by (rule rtc_wait_done) (use assms in \<open>auto simp: clock_at_def split: prod.splits\<close>)
  have c: "\<forall>n \<ge> reads s + k. (cmos s n RTC_STATUS_B AND 0x04 = 0 \<longleftrightarrow> bcd) \<and> (cmos s n RTC_STATUS_B AND 0x02 = 0 \<longleftrightarrow> \<not> h24)
      \<and> cmos s n RTC_SECONDS = encoded bcd second \<and> cmos s n RTC_MINUTES = encoded bcd minute \<and> cmos s n RTC_HOURS = encoded_hour bcd h24 hour"
    and r: "hour < 24" "minute < 60" "second < 60"
    using assms by (auto simp: clock_at_def split: prod.splits)
  have v: "(if bcd then bcd_to_binary (encoded bcd minute) else encoded bcd minute) = of_nat minute"
    "(if bcd then bcd_to_binary (encoded bcd second) else encoded bcd second) = of_nat second"
    using r by (simp_all only: encoded_value [of minute bcd] encoded_value [of second bcd])
  show ?thesis
    using c v hour_decoded [OF r(1), of bcd h24]
    by (auto simp: rtc_read_time_def w rtc_read_register_def rtc_inb_def Let_def)
qed

lemma read_date_clock:
  assumes "clock_at s k bcd h24 (year, month, day) time"
  shows "rtc_read_date s = Some ((of_nat year, of_nat month, of_nat day), s\<lparr>selected := RTC_STATUS_B, reads := reads s + k + 5\<rparr>)"
proof -
  have w: "rtc_wait s = Some (s\<lparr>selected := RTC_STATUS_A, reads := reads s + k + 1\<rparr>)"
    by (rule rtc_wait_done) (use assms in \<open>auto simp: clock_at_def split: prod.splits\<close>)
  have c: "\<forall>n \<ge> reads s + k. (cmos s n RTC_STATUS_B AND 0x04 = 0 \<longleftrightarrow> bcd)
      \<and> cmos s n RTC_DAY = encoded bcd day \<and> cmos s n RTC_MONTH = encoded bcd month \<and> cmos s n RTC_YEAR = encoded bcd (year - 2000)"
    and r: "day < 32" "month < 13" "2000 \<le> year" "year < 2100"
    using assms by (auto simp: clock_at_def split: prod.splits)
  have v: "(if bcd then bcd_to_binary (encoded bcd day) else encoded bcd day) = of_nat day"
    "(if bcd then bcd_to_binary (encoded bcd month) else encoded bcd month) = of_nat month"
    "(if bcd then bcd_to_binary (encoded bcd (year - 2000)) else encoded bcd (year - 2000)) = of_nat (year - 2000)"
    using r by (simp_all only: encoded_value [of day bcd] encoded_value [of month bcd] encoded_value [of "year - 2000" bcd])
  obtain y where y: "year = 2000 + y" "y < 100" using r(3,4) le_Suc_ex [of 2000 year] by auto
  have "unat (of_nat y :: u8) = y" using y(2) by (simp add: unat_of_nat)
  then have "(ucast (of_nat y :: u8) :: u16) = of_nat y" using y(2) by (intro word_unat_eq_iff [THEN iffD2]) (simp add: unat_of_nat unsigned_ucast_eq take_bit_nat_eq_self)
  then have y: "2000 + (ucast (of_nat (year - 2000) :: u8) :: u16) = of_nat year" using y(1) by simp
  show ?thesis
    using c v y by (auto simp: rtc_read_date_def w rtc_read_register_def rtc_inb_def Let_def)
qed

section \<open>Properties\<close>

text \<open>C10: Reading the clock. After the update flag has cleared, for a clock that keeps still from then on, \<^verbatim>\<open>rtc_read_time\<close> and
  \<^verbatim>\<open>rtc_read_date\<close> return, with the minute, second, day, month and year that the chip holds, in decimal or
  binary digits alike. The hour is right in the 24-hour format. In the 12-hour format it is wrong
  at midnight, at noon, and, with decimal digits, all afternoon, because the conversion destroys the flag of the afternoon
  before it is tested.\<close>

theorem rtc_reads_clock:
  assumes "clock_at s k bcd h24 (year, month, day) (hour, minute, second)"
  shows "\<exists>s1 s2. rtc_read_time s = Some ((of_nat (hour_read bcd h24 hour), of_nat minute, of_nat second), s1)
    \<and> rtc_read_date s1 = Some ((of_nat year, of_nat month, of_nat day), s2)
    \<and> (hour_read bcd h24 hour = hour \<longleftrightarrow> h24 \<or> (0 < hour \<and> hour < 12) \<or> (12 < hour \<and> \<not> bcd))"
proof -
  have "hour < 24" using assms by (simp add: clock_at_def)
  then have "hour_read bcd h24 hour = hour \<longleftrightarrow> h24 \<or> (0 < hour \<and> hour < 12) \<or> (12 < hour \<and> \<not> bcd)"
    by (auto simp: hour_read_def)
  then show ?thesis
    using read_time_clock [OF assms] read_date_clock [OF clock_at_later [OF assms, where x = RTC_STATUS_B and j = 5]] by simp
qed

definition sample_clock :: rtc where
  "sample_clock = \<lparr>selected = 0, reads = 0, cmos = (\<lambda>n r. if r = 0x0A then (if n < 2 then 0x80 else 0)
     else if r = 0x0B then 0x02 else if r = 0x00 then 0x59 else if r = 0x02 then 0x34 else if r = 0x04 then 0x23
     else if r = 0x07 then 0x31 else if r = 0x08 then 0x12 else 0x25)\<rparr>"

lemma sample_clock: "clock_at sample_clock 2 True True (2025, 12, 31) (23, 34, 59)"
  by (auto simp: clock_at_def sample_clock_def encoded_def encoded_hour_def)

theorem rtc_reads_clock_witness:
  "\<exists>s1. rtc_read_time sample_clock = Some ((23, 34, 59), s1)"
  using rtc_reads_clock [OF sample_clock] by (auto simp: hour_read_def)


section \<open>The timestamp\<close>

text \<open>Year, month, day, hour, minute and second, compared from the left.\<close>

fun earlier :: "nat list \<Rightarrow> nat list \<Rightarrow> bool" where
  "earlier (x # xs) (y # ys) \<longleftrightarrow> x < y \<or> (x = y \<and> earlier xs ys)"
| "earlier xs ys \<longleftrightarrow> False"

definition seconds_of :: "nat \<times> nat \<times> nat \<Rightarrow> nat \<times> nat \<times> nat \<Rightarrow> nat" where
  "seconds_of date time = (case (date, time) of ((year, month, day), (hour, minute, second)) \<Rightarrow>
     ((year - 2000) * 365 + (month - 1) * 30 + day) * 86400 + (hour * 60 + minute) * 60 + second)"

definition valid_time :: "nat \<times> nat \<times> nat \<Rightarrow> nat \<times> nat \<times> nat \<Rightarrow> bool" where
  "valid_time date time \<longleftrightarrow> (case (date, time) of ((year, month, day), (hour, minute, second)) \<Rightarrow>
     2000 \<le> year \<and> year < 2100 \<and> 1 \<le> month \<and> month \<le> 12 \<and> 1 \<le> day \<and> day \<le> 31 \<and> hour < 24 \<and> minute < 60 \<and> second < 60)"

abbreviation stamp :: "nat \<times> nat \<times> nat \<Rightarrow> nat \<times> nat \<times> nat \<Rightarrow> u32" where
  "stamp date time \<equiv> (case (date, time) of ((year, month, day), (hour, minute, second)) \<Rightarrow>
     timestamp (of_nat year, of_nat month, of_nat day) (of_nat hour, of_nat minute, of_nat second))"

lemma ucast_of_nat_u8: "n < 256 \<Longrightarrow> (ucast (of_nat n :: u8) :: u32) = of_nat n"
  by (intro word_unat_eq_iff [THEN iffD2]) (simp add: unat_of_nat unsigned_ucast_eq take_bit_nat_eq_self)

lemma ucast_of_nat_u16: "n < 65536 \<Longrightarrow> (ucast (of_nat n :: u16) :: u32) = of_nat n"
  by (intro word_unat_eq_iff [THEN iffD2]) (simp add: unat_of_nat unsigned_ucast_eq take_bit_nat_eq_self)

lemma stamp_unat:
  assumes "valid_time date time"
  shows "unat (stamp date time) = seconds_of date time"
proof -
  obtain year month day hour minute second where d: "date = (year, month, day)" "time = (hour, minute, second)"
    by (cases date; cases time)
  have r: "2000 \<le> year" "year < 2100" "1 \<le> month" "month \<le> 12" "1 \<le> day" "day \<le> 31" "hour < 24" "minute < 60" "second < 60"
    using assms by (simp_all add: d valid_time_def)
  have e: "stamp date time = of_nat (seconds_of date time)"
    using r by (simp add: d timestamp_def seconds_of_def ucast_of_nat_u8 ucast_of_nat_u16 of_nat_diff algebra_simps)
  have "(year - 2000) * 365 \<le> 99 * 365" "(month - 1) * 30 \<le> 330" "hour * 60 + minute < 1440" using r by auto
  then have "seconds_of date time < 4294967296" using r by (simp add: d seconds_of_def)
  then show ?thesis unfolding e by (rule unat_of_nat_u32)
qed

lemma digit_order:
  assumes "r < (b :: nat)" "r' < b"
  shows "a * b + r < a' * b + r' \<longleftrightarrow> a < a' \<or> (a = a' \<and> r < r')"
proof -
  have less: "x * b + u < y * b + v" if "x < y" "u < b" for x y u v :: nat
  proof -
    have "x * b + b \<le> y * b" using that(1) by (metis Suc_leI add.commute mult_Suc mult_le_mono1)
    then show ?thesis using that(2) by linarith
  qed
  show ?thesis using less [of a a' r r'] less [of a' a r' r] assms by (cases a a' rule: linorder_cases) auto
qed

lemma digit_equal:
  assumes "r < (b :: nat)" "r' < b"
  shows "a * b + r = a' * b + r' \<longleftrightarrow> a = a' \<and> r = r'"
  using digit_order [OF assms, of a a'] digit_order [OF assms(2,1), of a' a] by auto

text \<open>\<^verbatim>\<open>rtc_get_timestamp\<close> orders time. It never wraps for the years 2000 to 2099, and for dates up to the 30th of the
  month the timestamps of two moments are in the order of the moments, so equal only for the same moment. A 31st has the timestamps of the next month's
  first day.\<close>

theorem timestamp_order:
  assumes "valid_time (y, m, d) (h, mi, s)" and "valid_time (y', m', d') (h', mi', s')"
  shows "unat (stamp (y, m, d) (h, mi, s)) = seconds_of (y, m, d) (h, mi, s)
    \<and> (d \<le> 30 \<and> d' \<le> 30 \<longrightarrow> (stamp (y, m, d) (h, mi, s) < stamp (y', m', d') (h', mi', s') \<longleftrightarrow>
         earlier [y, m, d, h, mi, s] [y', m', d', h', mi', s']))
    \<and> (d = 31 \<and> m < 12 \<longrightarrow> stamp (y, m, d) (h, mi, s) = stamp (y, m + 1, 1) (h, mi, s))"
proof -
  have r: "2000 \<le> y" "1 \<le> m" "m \<le> 12" "1 \<le> d" "d \<le> 31" "h < 24" "mi < 60" "s < 60"
    "2000 \<le> y'" "1 \<le> m'" "m' \<le> 12" "1 \<le> d'" "d' \<le> 31" "h' < 24" "mi' < 60" "s' < 60"
    using assms by (simp_all add: valid_time_def)
  note stamps = stamp_unat [OF assms(1)] stamp_unat [OF assms(2)]
  have "seconds_of (y, m, d) (h, mi, s) < seconds_of (y', m', d') (h', mi', s') \<longleftrightarrow> earlier [y, m, d, h, mi, s] [y', m', d', h', mi', s']"
    if d: "d \<le> 30" "d' \<le> 30"
  proof -
    obtain n e n' e' where ne: "m = n + 1" "d = e + 1" "m' = n' + 1" "d' = e' + 1" "e < 30" "e' < 30" "n < 12" "n' < 12"
      by (rule that [of "m - 1" "d - 1" "m' - 1" "d' - 1"]) (use r d in auto)
    have day: "(y - 2000) * 365 + n * 30 + (e + 1) = (y - 2000) * 365 + (n * 30 + e) + 1"
      "(y' - 2000) * 365 + n' * 30 + (e' + 1) = (y' - 2000) * 365 + (n' * 30 + e') + 1" by simp_all
    have ye: "y - 2000 < y' - 2000 \<longleftrightarrow> y < y'" "y - 2000 = y' - 2000 \<longleftrightarrow> y = y'" using r by auto
    have b: "n * 30 + e < 365" "n' * 30 + e' < 365" "(h * 60 + mi) * 60 + s < 86400" "(h' * 60 + mi') * 60 + s' < 86400"
      using ne r by auto
    show ?thesis
      unfolding seconds_of_def prod.case ne(1-4) diff_add_inverse2 day add.assoc [of _ "(h * 60 + mi) * 60"] add.assoc [of _ "(h' * 60 + mi') * 60"]
        digit_order [OF b(3,4)] add_less_cancel_right add_right_cancel
        digit_order [OF b(1,2)] digit_equal [OF b(1,2)] digit_order [OF ne(5,6)] digit_equal [OF ne(5,6)]
        digit_order [OF r(8,16)] digit_order [OF r(7,15)] digit_equal [OF r(7,15)] ye
      by auto
  qed
  moreover have "stamp (y, m, d) (h, mi, s) = stamp (y, m + 1, 1) (h, mi, s)" if "d = 31" "m < 12"
  proof -
    have "valid_time (y, m + 1, 1) (h, mi, s)" using assms(1) that by (simp add: valid_time_def)
    moreover have "(m - 1) * 30 + 31 = (m + 1 - 1) * 30 + 1" using r(2) by (cases m) simp_all
    then have "seconds_of (y, m, d) (h, mi, s) = seconds_of (y, m + 1, 1) (h, mi, s)" by (simp add: seconds_of_def that(1))
    ultimately show ?thesis using stamps(1) stamp_unat word_unat_eq_iff by metis
  qed
  ultimately show ?thesis using stamps unfolding word_less_nat_alt by auto
qed

theorem timestamp_order_witness:
  "stamp (2024, 1, 30) (23, 59, 59) < stamp (2024, 2, 1) (0, 0, 0) \<and> stamp (2024, 1, 31) (0, 0, 0) = stamp (2024, 2, 1) (0, 0, 0)"
proof -
  have "valid_time (2024, 1, 30) (23, 59, 59)" "valid_time (2024, 2, 1) (0, 0, 0)" "valid_time (2024, 1, 31) (0, 0, 0)"
    by (simp_all add: valid_time_def)
  then show ?thesis
    using timestamp_order [of 2024 1 30 23 59 59 2024 2 1 0 0 0] timestamp_order [of 2024 1 31 0 0 0 2024 2 1 0 0 0] by simp
qed

end
