(* ===== verification/Ports.thy ===== *)
theory Ports
  imports Prelude
begin

text \<open>
  Port input and output, the inline functions of \<^verbatim>\<open>include/idt.h\<close>. The devices are a parameter: \<open>device\<close> gives
  the byte a port reads after a history of accesses. \<open>trace\<close> is that history, the last access
  first.
\<close>

datatype port_event = Out u16 u8 | In u16 u8

record io =
  trace :: "port_event list"
  device :: "port_event list \<Rightarrow> u16 \<Rightarrow> u8"

definition port_out :: "u16 \<Rightarrow> u8 \<Rightarrow> io \<Rightarrow> io" where
  "port_out port v s = s\<lparr>trace := Out port v # trace s\<rparr>"

definition port_in :: "u16 \<Rightarrow> io \<Rightarrow> u8 \<times> io" where
  "port_in port s = (let v = device s (trace s) port in (v, s\<lparr>trace := In port v # trace s\<rparr>))"

lemma port_out_sel [simp]: "device (port_out p v s) = device s" "trace (port_out p v s) = Out p v # trace s"
  by (simp_all add: port_out_def)

lemma port_in_sel [simp]:
  "fst (port_in p s) = device s (trace s) p" "device (snd (port_in p s)) = device s"
  "trace (snd (port_in p s)) = In p (device s (trace s) p) # trace s"
  by (simp_all add: port_in_def Let_def)

text \<open>What an operation adds to the history, in the order it happened.\<close>

definition events :: "io \<Rightarrow> io \<Rightarrow> port_event list" where
  "events s s' = drop (length (trace s)) (rev (trace s'))"

lemma events_eq: "trace s' = rev es @ trace s \<Longrightarrow> events s s' = es"
  by (simp add: events_def)

text \<open>
  A bank of registers behind an index port and a data port: the writes it receives, each as the
  index last written and the value.
\<close>

fun reg_writes :: "u16 \<Rightarrow> u16 \<Rightarrow> u8 \<Rightarrow> port_event list \<Rightarrow> (u8 \<times> u8) list" where
  "reg_writes a b i [] = []"
| "reg_writes a b i (Out p v # es) =
     (if p = a then reg_writes a b v es else if p = b then (i, v) # reg_writes a b i es else reg_writes a b i es)"
| "reg_writes a b i (In p v # es) = reg_writes a b i es"

abbreviation bank :: "u16 \<Rightarrow> u16 \<Rightarrow> (nat \<Rightarrow> u8) \<Rightarrow> nat list \<Rightarrow> port_event list" where
  "bank a b f is \<equiv> concat (map (\<lambda>i. [Out a (of_nat i), Out b (f i)]) is)"

lemma reg_writes_bank:
  "a \<noteq> b \<Longrightarrow> reg_writes a b j (bank a b f is @ es) =
     map (\<lambda>i. (of_nat i, f i)) is @ reg_writes a b (last (j # map of_nat is)) es"
  by (induction "is" arbitrary: j) simp_all

lemma reg_writes_other_bank:
  "{a, b} \<inter> {c, d} = {} \<Longrightarrow> reg_writes a b j (bank c d f is @ es) = reg_writes a b j es"
  by (induction "is") auto

end
