(* ===== verification/Graphics.thy ===== *)
theory Graphics
  imports Ports CString
begin

text \<open>
  The graphics mode driver, \<^verbatim>\<open>drivers/vga_gfx.c\<close>: the register tables written through the ports of the
  card, and pixels, rectangles and the logo in the frame buffer, the 64000 bytes from 0xA0000 on.
\<close>

section \<open>Mode tables\<close>

definition g_320x200x256 :: "u8 list" where
  "g_320x200x256 = [
     0x63,
     0x03, 0x01, 0x0F, 0x00, 0x0E,
     0x5F, 0x4F, 0x50, 0x82, 0x54, 0x80, 0xBF, 0x1F,
     0x00, 0x41, 0x00, 0x00, 0x00, 0x00, 0x00, 0x00,
     0x9C, 0x0E, 0x8F, 0x28, 0x40, 0x96, 0xB9, 0xA3,
     0xFF,
     0x00, 0x00, 0x00, 0x00, 0x00, 0x40, 0x05, 0x0F,
     0xFF,
     0x00, 0x01, 0x02, 0x03, 0x04, 0x05, 0x06, 0x07,
     0x08, 0x09, 0x0A, 0x0B, 0x0C, 0x0D, 0x0E, 0x0F,
     0x41, 0x00, 0x0F, 0x00, 0x00]"

definition g_80x25_text :: "u8 list" where
  "g_80x25_text = [
     0x67,
     0x03, 0x00, 0x03, 0x00, 0x02,
     0x5F, 0x4F, 0x50, 0x82, 0x55, 0x81, 0xBF, 0x1F,
     0x00, 0x4F, 0x0D, 0x0E, 0x00, 0x00, 0x00, 0x00,
     0x9C, 0x0E, 0x8F, 0x28, 0x1F, 0x96, 0xB9, 0xA3,
     0xFF,
     0x00, 0x00, 0x00, 0x00, 0x00, 0x10, 0x0E, 0x00,
     0xFF,
     0x00, 0x01, 0x02, 0x03, 0x04, 0x05, 0x14, 0x07,
     0x38, 0x39, 0x3A, 0x3B, 0x3C, 0x3D, 0x3E, 0x3F,
     0x0C, 0x00, 0x0F, 0x08, 0x00]"

abbreviation VGA_AC_INDEX :: u16 where "VGA_AC_INDEX \<equiv> 0x3C0"
abbreviation VGA_AC_WRITE :: u16 where "VGA_AC_WRITE \<equiv> 0x3C0"
abbreviation VGA_MISC_WRITE :: u16 where "VGA_MISC_WRITE \<equiv> 0x3C2"
abbreviation VGA_SEQ_INDEX :: u16 where "VGA_SEQ_INDEX \<equiv> 0x3C4"
abbreviation VGA_SEQ_DATA :: u16 where "VGA_SEQ_DATA \<equiv> 0x3C5"
abbreviation VGA_GC_INDEX :: u16 where "VGA_GC_INDEX \<equiv> 0x3CE"
abbreviation VGA_GC_DATA :: u16 where "VGA_GC_DATA \<equiv> 0x3CF"
abbreviation VGA_CRTC_INDEX :: u16 where "VGA_CRTC_INDEX \<equiv> 0x3D4"
abbreviation VGA_CRTC_DATA :: u16 where "VGA_CRTC_DATA \<equiv> 0x3D5"
abbreviation VGA_INSTAT_READ :: u16 where "VGA_INSTAT_READ \<equiv> 0x3DA"

section \<open>Programming the card\<close>

definition write_indexed :: "u16 \<Rightarrow> u16 \<Rightarrow> (nat \<Rightarrow> u8) \<Rightarrow> nat \<Rightarrow> io \<Rightarrow> io" where
  "write_indexed a b f i s = port_out b (f i) (port_out a (of_nat i) s)"

definition read_crtc :: "u8 \<Rightarrow> io \<Rightarrow> u8 \<times> io" where
  "read_crtc index s = port_in VGA_CRTC_DATA (port_out VGA_CRTC_INDEX index s)"

definition unlock_crtc :: "io \<Rightarrow> io" where
  "unlock_crtc s =
     (let s1 = port_out VGA_CRTC_INDEX 0x03 s;
          (v, s2) = read_crtc 0x03 s1;
          s3 = port_out VGA_CRTC_DATA (v OR 0x80) s2;
          s4 = port_out VGA_CRTC_INDEX 0x11 s3;
          (w, s5) = read_crtc 0x11 s4
      in port_out VGA_CRTC_DATA (w AND NOT 0x80) s5)"

definition write_attribute :: "(nat \<Rightarrow> u8) \<Rightarrow> nat \<Rightarrow> io \<Rightarrow> io" where
  "write_attribute f i s =
     (let (_, s1) = port_in VGA_INSTAT_READ s
      in port_out VGA_AC_WRITE (f i) (port_out VGA_AC_INDEX (of_nat i) s1))"

definition vga_write_regs_safe :: "u8 list \<Rightarrow> io \<Rightarrow> io" where
  "vga_write_regs_safe regs s =
     (let s1 = port_out VGA_MISC_WRITE (regs ! 0) s;
          s2 = fold (write_indexed VGA_SEQ_INDEX VGA_SEQ_DATA (\<lambda>i. regs ! (1 + i))) [0..<5] s1;
          s3 = unlock_crtc s2;
          s4 = fold (write_indexed VGA_CRTC_INDEX VGA_CRTC_DATA (\<lambda>i. regs ! (6 + i))) [0..<25] s3;
          s5 = fold (write_indexed VGA_GC_INDEX VGA_GC_DATA (\<lambda>i. regs ! (31 + i))) [0..<9] s4;
          s6 = fold (write_attribute (\<lambda>i. regs ! (40 + i))) [0..<21] s5;
          (_, s7) = port_in VGA_INSTAT_READ s6
      in port_out VGA_AC_INDEX 0x20 s7)"

definition vga_mode_13h :: "io \<Rightarrow> io" where
  "vga_mode_13h s = vga_write_regs_safe g_320x200x256 s"

definition vga_text_mode :: "io \<Rightarrow> io" where
  "vga_text_mode s = vga_write_regs_safe g_80x25_text s"

section \<open>Drawing\<close>

abbreviation vga_mem :: ptr where "vga_mem \<equiv> 0xA0000"

definition vga_putpixel :: "int \<Rightarrow> int \<Rightarrow> u8 \<Rightarrow> mem \<Rightarrow> mem" where
  "vga_putpixel x y color m =
     (if 0 \<le> x \<and> x < 320 \<and> 0 \<le> y \<and> y < 200 then m(vga_mem + of_int (y * 320 + x) := color) else m)"

definition vga_fill_screen :: "u8 \<Rightarrow> mem \<Rightarrow> mem" where
  "vga_fill_screen color m = fold (\<lambda>i m. m(vga_mem + of_nat i := color)) [0..<320 * 200] m"

definition vga_rect :: "int \<Rightarrow> int \<Rightarrow> int \<Rightarrow> int \<Rightarrow> u8 \<Rightarrow> mem \<Rightarrow> mem" where
  "vga_rect x y w h color m = fold (\<lambda>j. fold (\<lambda>i. vga_putpixel i j color) [x..x + w - 1]) [y..y + h - 1] m"

definition vga_draw_logo :: "mem \<Rightarrow> mem" where
  "vga_draw_logo m =
     (let m1 = vga_fill_screen 0 m;
          m2 = fold (\<lambda>i. vga_rect (100 + i div 2) (60 + i) 4 1 9) [0..39] m1;
          m3 = fold (\<lambda>i. vga_rect (120 + i div 2) (100 - i) 4 1 9) [0..39] m2;
          m4 = vga_rect 145 80 10 20 15 m3;
          m5 = vga_rect 160 60 5 40 15 m4;
          m6 = vga_rect 175 80 15 4 4 m5;
          m7 = vga_rect 175 80 4 20 4 m6;
          m8 = vga_rect 175 96 15 4 4 m7;
          m9 = vga_rect 200 60 15 40 14 m8;
          m10 = vga_rect 204 64 7 32 0 m9
      in vga_rect 90 110 140 2 8 m10)"

section \<open>The writes the card receives\<close>

lemma write_indexed_fold:
  "trace (fold (write_indexed a b f) is s) = rev (bank a b f is) @ trace s"
  "device (fold (write_indexed a b f) is s) = device s"
  by (induction "is" arbitrary: s) (simp_all add: write_indexed_def)

text \<open>
  The attribute registers have one port for index and data: a read of the status port makes
  the next write an index, and writes alternate from there.
\<close>

fun attr_writes :: "u8 option \<Rightarrow> port_event list \<Rightarrow> (u8 \<times> u8) list" where
  "attr_writes i [] = []"
| "attr_writes i (In p v # es) = attr_writes (if p = VGA_INSTAT_READ then None else i) es"
| "attr_writes i (Out p v # es) =
     (if p = VGA_AC_INDEX then (case i of None \<Rightarrow> attr_writes (Some v) es | Some j \<Rightarrow> (j, v) # attr_writes None es)
      else attr_writes i es)"

definition attributes_of :: "(nat \<Rightarrow> u8) \<Rightarrow> (nat \<Rightarrow> u8) \<Rightarrow> nat list \<Rightarrow> port_event list" where
  "attributes_of g f is = concat (map (\<lambda>i. [In VGA_INSTAT_READ (g i), Out VGA_AC_INDEX (of_nat i), Out VGA_AC_INDEX (f i)]) is)"

lemma write_attribute_trace:
  "trace (write_attribute f i s) = Out VGA_AC_WRITE (f i) # Out VGA_AC_INDEX (of_nat i) # In VGA_INSTAT_READ (device s (trace s) VGA_INSTAT_READ) # trace s"
  by (simp add: write_attribute_def split_def)

lemma write_attribute_fold:
  "distinct is \<Longrightarrow> \<exists>g. trace (fold (write_attribute f) is s) = rev (attributes_of g f is) @ trace s"
proof (induction "is" arbitrary: s)
  case Nil
  then show ?case by (simp add: attributes_of_def)
next
  case (Cons i "is")
  define v where "v = device s (trace s) VGA_INSTAT_READ"
  obtain g where g: "trace (fold (write_attribute f) is (write_attribute f i s)) = rev (attributes_of g f is) @ trace (write_attribute f i s)"
    using Cons by auto
  have "attributes_of (g(i := v)) f is = attributes_of g f is"
    using Cons.prems by (auto simp: attributes_of_def intro!: arg_cong [where f = concat])
  then show ?case
    using g by (intro exI [of _ "g(i := v)"]) (simp add: write_attribute_trace v_def attributes_of_def)
qed

lemma attr_writes_bank: "VGA_AC_INDEX \<notin> {a, b} \<Longrightarrow> attr_writes j (bank a b f is @ es) = attr_writes j es"
  by (induction "is") auto

lemma attr_writes_attributes:
  "attr_writes j (attributes_of g f is @ es) = map (\<lambda>i. (of_nat i, f i)) is @ attr_writes (if is = [] then j else None) es"
  by (induction "is" arbitrary: j) (simp_all add: attributes_of_def)

lemma reg_writes_attributes:
  "VGA_AC_INDEX \<notin> {a, b} \<Longrightarrow> reg_writes a b j (attributes_of g f is @ es) = reg_writes a b j es"
  by (induction "is") (auto simp: attributes_of_def)

lemma unlock_crtc_trace:
  "\<exists>v w. trace (unlock_crtc s) = rev [Out VGA_CRTC_INDEX 0x03, Out VGA_CRTC_INDEX 0x03, In VGA_CRTC_DATA v, Out VGA_CRTC_DATA (v OR 0x80),
     Out VGA_CRTC_INDEX 0x11, Out VGA_CRTC_INDEX 0x11, In VGA_CRTC_DATA w, Out VGA_CRTC_DATA (w AND NOT 0x80)] @ trace s"
  by (simp add: unlock_crtc_def read_crtc_def port_in_def Let_def)

lemma write_regs_events:
  "\<exists>v w g u. events s (vga_write_regs_safe regs s) =
     Out VGA_MISC_WRITE (regs ! 0) # bank VGA_SEQ_INDEX VGA_SEQ_DATA (\<lambda>i. regs ! (1 + i)) [0..<5]
     @ [Out VGA_CRTC_INDEX 0x03, Out VGA_CRTC_INDEX 0x03, In VGA_CRTC_DATA v, Out VGA_CRTC_DATA (v OR 0x80),
        Out VGA_CRTC_INDEX 0x11, Out VGA_CRTC_INDEX 0x11, In VGA_CRTC_DATA w, Out VGA_CRTC_DATA (w AND NOT 0x80)]
     @ bank VGA_CRTC_INDEX VGA_CRTC_DATA (\<lambda>i. regs ! (6 + i)) [0..<25]
     @ bank VGA_GC_INDEX VGA_GC_DATA (\<lambda>i. regs ! (31 + i)) [0..<9]
     @ attributes_of g (\<lambda>i. regs ! (40 + i)) [0..<21] @ [In VGA_INSTAT_READ u, Out VGA_AC_INDEX 0x20]"
proof -
  define s1 where "s1 = port_out VGA_MISC_WRITE (regs ! 0) s"
  define s2 where "s2 = fold (write_indexed VGA_SEQ_INDEX VGA_SEQ_DATA (\<lambda>i. regs ! (1 + i))) [0..<5] s1"
  define s3 where "s3 = unlock_crtc s2"
  define s4 where "s4 = fold (write_indexed VGA_CRTC_INDEX VGA_CRTC_DATA (\<lambda>i. regs ! (6 + i))) [0..<25] s3"
  define s5 where "s5 = fold (write_indexed VGA_GC_INDEX VGA_GC_DATA (\<lambda>i. regs ! (31 + i))) [0..<9] s4"
  define s6 where "s6 = fold (write_attribute (\<lambda>i. regs ! (40 + i))) [0..<21] s5"
  obtain v w where t3: "trace s3 = rev [Out VGA_CRTC_INDEX 0x03, Out VGA_CRTC_INDEX 0x03, In VGA_CRTC_DATA v, Out VGA_CRTC_DATA (v OR 0x80),
     Out VGA_CRTC_INDEX 0x11, Out VGA_CRTC_INDEX 0x11, In VGA_CRTC_DATA w, Out VGA_CRTC_DATA (w AND NOT 0x80)] @ trace s2"
    unfolding s3_def using unlock_crtc_trace by blast
  obtain g where t6: "trace s6 = rev (attributes_of g (\<lambda>i. regs ! (40 + i)) [0..<21]) @ trace s5"
    unfolding s6_def using write_attribute_fold [of "[0..<21]"] by auto
  have r: "vga_write_regs_safe regs s = port_out VGA_AC_INDEX 0x20 (snd (port_in VGA_INSTAT_READ s6))"
    unfolding vga_write_regs_safe_def Let_def s1_def s2_def s3_def s4_def s5_def s6_def by (simp only: split_def)
  show ?thesis
    by (rule exI [of _ v], rule exI [of _ w], rule exI [of _ g], rule exI [of _ "device s6 (trace s6) VGA_INSTAT_READ"], rule events_eq,
        simp only: r port_out_sel port_in_sel t6 s5_def write_indexed_fold s4_def t3 s2_def s1_def
          rev_append rev.simps append_assoc append.simps)
qed

section \<open>Pixels\<close>

abbreviation on_screen :: "int \<Rightarrow> int \<Rightarrow> bool" where
  "on_screen x y \<equiv> 0 \<le> x \<and> x < 320 \<and> 0 \<le> y \<and> y < 200"

definition pixel_addr :: "int \<Rightarrow> int \<Rightarrow> ptr" where
  "pixel_addr x y = vga_mem + of_int (y * 320 + x)"

lemma pixel_offset:
  assumes "on_screen x y"
  shows "uint (of_int (y * 320 + x) :: u32) = y * 320 + x" "y * 320 + x < 64000" "0 \<le> y * 320 + x"
proof -
  have "y * 320 \<le> 199 * 320" using assms by (intro mult_right_mono) auto
  then show b: "y * 320 + x < 64000" "0 \<le> y * 320 + x" using assms by auto
  show "uint (of_int (y * 320 + x) :: u32) = y * 320 + x"
    by (subst uint_word_of_int) (use b in \<open>simp add: mod_pos_pos_trivial\<close>)
qed

lemma pixel_inj:
  assumes "on_screen x y" "on_screen x' y'"
  shows "pixel_addr x y = pixel_addr x' y' \<longleftrightarrow> x = x' \<and> y = y'"
proof
  assume "pixel_addr x y = pixel_addr x' y'"
  then have "uint (of_int (y * 320 + x) :: u32) = uint (of_int (y' * 320 + x') :: u32)" by (simp only: pixel_addr_def add_left_cancel)
  then have "y * 320 + x = y' * 320 + x'" unfolding pixel_offset(1) [OF assms(1)] pixel_offset(1) [OF assms(2)] .
  moreover have "(y * 320 + x) mod 320 = x" "(y' * 320 + x') mod 320 = x'" using assms by simp_all
  ultimately have "x = x'" by metis
  then show "x = x' \<and> y = y'" using \<open>y * 320 + x = y' * 320 + x'\<close> by simp
qed simp

text \<open>The bytes a loop over pixels changes: one step, a row, a rectangle.\<close>

lemma putpixel_apply: "vga_putpixel x y c m a = (if on_screen x y \<and> a = pixel_addr x y then c else m a)"
  by (simp add: vga_putpixel_def pixel_addr_def)

lemma row_apply:
  "fold (\<lambda>i. vga_putpixel i j c) is m a = (if \<exists>i \<in> set is. on_screen i j \<and> a = pixel_addr i j then c else m a)"
  by (induction "is" arbitrary: m) (auto simp: putpixel_apply)

lemma rows_apply:
  "fold (\<lambda>j. fold (\<lambda>i. vga_putpixel i j c) is) js m a =
     (if \<exists>j \<in> set js. \<exists>i \<in> set is. on_screen i j \<and> a = pixel_addr i j then c else m a)"
  by (induction js arbitrary: m) (auto simp: row_apply)

type_synonym rect = "int \<times> int \<times> int \<times> int \<times> u8"

definition covers :: "rect \<Rightarrow> int \<Rightarrow> int \<Rightarrow> bool" where
  "covers r px py = (case r of (x, y, w, h, c) \<Rightarrow> x \<le> px \<and> px < x + w \<and> y \<le> py \<and> py < y + h)"

definition paint :: "rect \<Rightarrow> mem \<Rightarrow> mem" where
  "paint r = (case r of (x, y, w, h, c) \<Rightarrow> vga_rect x y w h c)"

definition colour :: "rect \<Rightarrow> u8" where "colour r = (case r of (x, y, w, h, c) \<Rightarrow> c)"

lemma paint_apply:
  "paint r m a = (if \<exists>px py. on_screen px py \<and> covers r px py \<and> a = pixel_addr px py then colour r else m a)"
proof -
  obtain x y w h c where r: "r = (x, y, w, h, c)" by (cases r)
  have "(\<exists>j \<in> set [y..y + h - 1]. \<exists>i \<in> set [x..x + w - 1]. on_screen i j \<and> a = pixel_addr i j)
      \<longleftrightarrow> (\<exists>px py. on_screen px py \<and> covers r px py \<and> a = pixel_addr px py)"
    by (simp add: r covers_def Bex_def) blast
  then show ?thesis by (simp only: r paint_def colour_def prod.case vga_rect_def rows_apply)
qed

lemma paint_pixel:
  assumes "on_screen px py"
  shows "paint r m (pixel_addr px py) = (if covers r px py then colour r else m (pixel_addr px py))"
  using assms pixel_inj [OF assms] by (auto simp: paint_apply)

text \<open>Painter's algorithm: the last rectangle that covers a pixel gives its colour.\<close>

lemma paint_all:
  assumes "on_screen px py"
  shows "fold paint rs m (pixel_addr px py) =
    (case find (\<lambda>r. covers r px py) (rev rs) of Some r \<Rightarrow> colour r | None \<Rightarrow> m (pixel_addr px py))"
  by (induction rs arbitrary: m) (simp_all add: paint_pixel [OF assms] find_append split: option.split)

lemma paint_all_outside:
  "(\<And>px py. on_screen px py \<Longrightarrow> a \<noteq> pixel_addr px py) \<Longrightarrow> fold paint rs m a = m a"
  by (induction rs arbitrary: m) (auto simp: paint_apply)

definition logo :: "rect list" where
  "logo = map (\<lambda>i. (100 + i div 2, 60 + i, 4, 1, 9)) [0..39] @ map (\<lambda>i. (120 + i div 2, 100 - i, 4, 1, 9)) [0..39]
     @ [(145, 80, 10, 20, 15), (160, 60, 5, 40, 15), (175, 80, 15, 4, 4), (175, 80, 4, 20, 4), (175, 96, 15, 4, 4),
        (200, 60, 15, 40, 14), (204, 64, 7, 32, 0), (90, 110, 140, 2, 8)]"

lemma draw_logo_paints: "vga_draw_logo m = fold paint logo (vga_fill_screen 0 m)"
  by (simp add: vga_draw_logo_def logo_def paint_def Let_def fold_map comp_def del: upto_rec_numeral)

lemma fill_apply: "vga_fill_screen c m a = (if unat (a - vga_mem) < 64000 then c else m a)"
proof -
  have "fold (\<lambda>i m. m(vga_mem + of_nat i := c)) [0..<n] m a = (if unat (a - vga_mem) < n then c else m a)"
    if "n \<le> 64000" for n
    using that
  proof (induction n)
    case (Suc n)
    have "a = vga_mem + of_nat n \<longleftrightarrow> unat (a - vga_mem) = n"
    proof
      show "unat (a - vga_mem) = n" if "a = vga_mem + of_nat n" using that Suc.prems unat_of_nat_u32 [of n] by simp
      show "a = vga_mem + of_nat n" if "unat (a - vga_mem) = n" using that [symmetric] by simp
    qed
    then show ?case using Suc by auto
  qed simp
  from this [of "320 * 200"] show ?thesis unfolding vga_fill_screen_def by (simp only: numeral_times_numeral num.simps semiring_norm order_refl)
qed

section \<open>Properties\<close>

lemma off_screen: "\<not> unat (a - vga_mem) < 64000 \<Longrightarrow> on_screen px py \<Longrightarrow> a \<noteq> pixel_addr px py"
proof
  assume "\<not> unat (a - vga_mem) < 64000" "on_screen px py" "a = pixel_addr px py"
  then show False using pixel_offset(1,2) [of px py] by (simp only: pixel_addr_def add_diff_cancel_left' unat_eq_nat_uint) linarith
qed

text \<open>Setting a mode. Whatever the card answers, \<^verbatim>\<open>vga_write_regs_safe\<close> gives the table's first byte to the
  miscellaneous register and writes each sequencer, controller, graphics and attribute register once, in order,
  with its byte of the table; before the controller registers come just the two writes that set bit 7
  of register 3 and clear bit 7, the write protection, of register 0x11. The palette is enabled last.\<close>

theorem vga_mode_registers:
  "\<exists>v w es. events s (vga_write_regs_safe regs s) = Out VGA_MISC_WRITE (regs ! 0) # es
    \<and> reg_writes VGA_SEQ_INDEX VGA_SEQ_DATA i es = map (\<lambda>n. (of_nat n, regs ! (1 + n))) [0..<5]
    \<and> reg_writes VGA_CRTC_INDEX VGA_CRTC_DATA i es =
        [(0x03, v OR 0x80), (0x11, w AND NOT 0x80)] @ map (\<lambda>n. (of_nat n, regs ! (6 + n))) [0..<25]
    \<and> reg_writes VGA_GC_INDEX VGA_GC_DATA i es = map (\<lambda>n. (of_nat n, regs ! (31 + n))) [0..<9]
    \<and> attr_writes None es = map (\<lambda>n. (of_nat n, regs ! (40 + n))) [0..<21] \<and> last es = Out VGA_AC_INDEX 0x20"
proof -
  obtain v w g u where es: "events s (vga_write_regs_safe regs s) =
     Out VGA_MISC_WRITE (regs ! 0) # bank VGA_SEQ_INDEX VGA_SEQ_DATA (\<lambda>i. regs ! (1 + i)) [0..<5]
     @ [Out VGA_CRTC_INDEX 0x03, Out VGA_CRTC_INDEX 0x03, In VGA_CRTC_DATA v, Out VGA_CRTC_DATA (v OR 0x80),
        Out VGA_CRTC_INDEX 0x11, Out VGA_CRTC_INDEX 0x11, In VGA_CRTC_DATA w, Out VGA_CRTC_DATA (w AND NOT 0x80)]
     @ bank VGA_CRTC_INDEX VGA_CRTC_DATA (\<lambda>i. regs ! (6 + i)) [0..<25]
     @ bank VGA_GC_INDEX VGA_GC_DATA (\<lambda>i. regs ! (31 + i)) [0..<9]
     @ attributes_of g (\<lambda>i. regs ! (40 + i)) [0..<21] @ [In VGA_INSTAT_READ u, Out VGA_AC_INDEX 0x20]"
    using write_regs_events by blast
  show ?thesis
    unfolding es
    by (intro exI conjI, rule refl)
      (simp_all add: reg_writes_bank reg_writes_other_bank reg_writes_attributes attr_writes_bank attr_writes_attributes
        del: upt_rec_numeral concat.simps list.map(2))
qed

text \<open>The logo. \<^verbatim>\<open>vga_draw_logo\<close> writes only the 64000 bytes of the frame buffer, and every pixel of the screen
  gets the colour of the last of the rectangles of the drawing that covers it, black when none does;
  rectangles and parts of them beyond the edges are cut off.\<close>

theorem vga_logo_pixels:
  assumes "on_screen px py" and "64000 \<le> unat (a - vga_mem)"
  shows "vga_draw_logo m (pixel_addr px py) = (case find (\<lambda>r. covers r px py) (rev logo) of Some r \<Rightarrow> colour r | None \<Rightarrow> 0)
    \<and> vga_draw_logo m a = m a
    \<and> vga_rect x y w h c m (pixel_addr px py) = (if covers (x, y, w, h, c) px py then c else m (pixel_addr px py))
    \<and> vga_rect x y w h c m a = m a"
proof -
  have "unat (pixel_addr px py - vga_mem) < 64000"
    using off_screen [of "pixel_addr px py" px py] assms(1) by auto
  then have "vga_draw_logo m (pixel_addr px py) = (case find (\<lambda>r. covers r px py) (rev logo) of Some r \<Rightarrow> colour r | None \<Rightarrow> 0)"
    using paint_all [OF assms(1), of logo] by (simp add: draw_logo_paints fill_apply split: option.split)
  moreover have out: "a \<noteq> pixel_addr qx qy" if "on_screen qx qy" for qx qy using off_screen [OF _ that] assms(2) by simp
  then have "vga_draw_logo m a = m a"
    using paint_all_outside [of a logo] assms(2) by (simp add: draw_logo_paints fill_apply)
  moreover have "vga_rect x y w h c m a = m a"
    using paint_all_outside [of a "[(x, y, w, h, c)]" m] out by (simp add: paint_def)
  ultimately show ?thesis
    using paint_pixel [OF assms(1), of "(x, y, w, h, c)" m] by (simp add: paint_def colour_def)
qed

theorem vga_logo_pixels_witness:
  "vga_draw_logo (\<lambda>_. 7) (pixel_addr 207 70) = 0 \<and> vga_draw_logo (\<lambda>_. 7) (pixel_addr 201 70) = 14
    \<and> vga_draw_logo (\<lambda>_. 7) 0x9FFFF = 7"
proof -
  have f: "find (\<lambda>r. covers r 207 70) (rev logo) = Some (204, 64, 7, 32, 0)"
    "find (\<lambda>r. covers r 201 70) (rev logo) = Some (200, 60, 15, 40, 14)"
    by (simp_all add: logo_def covers_def del: upto_rec_numeral)
  have "(64000 :: nat) \<le> unat ((0x9FFFF :: ptr) - vga_mem)" by simp
  then show ?thesis
    using vga_logo_pixels [of 207 70 "0x9FFFF" "\<lambda>_. 7"] vga_logo_pixels [of 201 70 "0x9FFFF" "\<lambda>_. 7"] f by (simp add: colour_def)
qed

end
