(* ===== verification/AddressSpace.thy ===== *)
theory AddressSpace
  imports Vmm
begin

text \<open>
  What a program's loads and stores do under paging: the processor translates each address
  through the directory in CR3, and an access to a page that is not present is a page fault,
  None here, since the kernel's handler, \<^verbatim>\<open>page_fault_handler\<close> of \<^verbatim>\<open>kernel/vmm.c\<close>, prints it and halts. The
  kernel runs with all rights, so only presence is tested. The lemmas tie this to the tables that
  \<^verbatim>\<open>vmm_map_page\<close> writes, and show that a store outside the tables leaves the translation alone.
\<close>

section \<open>Loads and stores\<close>

definition translate :: "vmm \<Rightarrow> u32 \<Rightarrow> u32 option" where
  "translate s v =
     (if \<not> paging s then Some v
      else let pde = table_word (FRAME (cr3 s)) (pd_index v) (vmem s) in
        if pde AND PTE_PRESENT = 0 then None
        else let pte = table_word (FRAME pde) (pt_index v) (vmem s) in
          if pte AND PTE_PRESENT = 0 then None else Some (FRAME pte OR (v AND 0xFFF)))"

definition vload8 :: "u32 \<Rightarrow> vmm \<Rightarrow> u8 option" where
  "vload8 v s = map_option (vmem s) (translate s v)"

definition vload16 :: "u32 \<Rightarrow> vmm \<Rightarrow> u16 option" where
  "vload16 v s = Option.bind (vload8 v s) (\<lambda>a. Option.bind (vload8 (v + 1) s) (\<lambda>b.
     Some (ucast a OR push_bit 8 (ucast b))))"

definition vload32 :: "u32 \<Rightarrow> vmm \<Rightarrow> u32 option" where
  "vload32 v s = Option.bind (vload8 v s) (\<lambda>a. Option.bind (vload8 (v + 1) s) (\<lambda>b.
     Option.bind (vload8 (v + 2) s) (\<lambda>c. Option.bind (vload8 (v + 3) s) (\<lambda>d.
       Some (ucast a OR push_bit 8 (ucast b) OR push_bit 16 (ucast c) OR push_bit 24 (ucast d))))))"

definition vstore8 :: "u32 \<Rightarrow> u8 \<Rightarrow> vmm \<Rightarrow> vmm option" where
  "vstore8 v b s = map_option (\<lambda>p. s\<lparr>vmem := (vmem s)(p := b)\<rparr>) (translate s v)"

section \<open>Bytes of a frame\<close>

lemma FRAME_offset:
  assumes "is_page t" "unat o' < 4096"
  shows "FRAME (t + o') = t"
proof -
  obtain k where k: "unat t = 4096 * k" using assms(1) by (auto simp: is_page_dvd elim!: dvdE)
  have "4096 * k < 4294967296" using unat_lt_two_power_32 [of t] k by simp
  then have "k < 1048576" by simp
  then have "unat (t + o') = 4096 * k + unat o'" using k assms(2) by (simp add: unat_add_u32)
  then have "unat (FRAME (t + o')) = 4096 * k" unfolding frame_mask unat_and_not_mask using assms(2) by simp
  then show ?thesis using k by (simp add: word_unat_eq_iff)
qed

lemma FRAME_or_offset: "is_page t \<Longrightarrow> FRAME (t OR (v AND 0xFFF)) = t"
  using FRAME_page [of t] unfolding frame_mask page_mask
  by (intro bit_word_eqI) (auto simp: bit_simps bit_eq_iff)

lemma offset_or_frame: "is_page t \<Longrightarrow> (t OR (v AND 0xFFF)) AND 0xFFF = v AND 0xFFF"
  unfolding page_mask by (intro bit_word_eqI) (auto simp: bit_simps bit_eq_iff)

lemma slot_frame:
  assumes "is_page t" "i < 1024" "k < 4"
  shows "FRAME (t + 4 * i + of_nat k) = t"
proof -
  have "unat i < 1024" using assms(2) by (simp add: word_less_nat_alt)
  then have "unat (4 * i + of_nat k) = 4 * unat i + k"
    using assms(3) by (simp add: unat_word_ariths unat_of_nat)
  then have "unat (4 * i + of_nat k) < 4096" using \<open>unat i < 1024\<close> assms(3) by simp
  then show ?thesis using FRAME_offset [OF assms(1)] by (simp add: add.assoc)
qed

lemma in_frame: "is_page t \<Longrightarrow> unat (a - t) < 4096 \<Longrightarrow> FRAME a = t"
  using FRAME_offset [of t "a - t"] by simp

lemma table_word_frame:
  assumes "is_page t" "i < 1024" "\<And>a. FRAME a = t \<Longrightarrow> m' a = m a"
  shows "table_word t i m' = table_word t i m"
  unfolding table_word_def
  using slot_frame [OF assms(1,2), of 0] slot_frame [OF assms(1,2), of 1] slot_frame [OF assms(1,2), of 2]
    slot_frame [OF assms(1,2), of 3] assms(3)
  by (intro load32_cong) simp_all

lemma set_table_word_frame:
  assumes "is_page t" "i < 1024" "FRAME a \<noteq> t"
  shows "set_table_word t i w m a = m a"
  unfolding set_table_word_def store32_def
  using slot_frame [OF assms(1,2), of 0] slot_frame [OF assms(1,2), of 1] slot_frame [OF assms(1,2), of 2]
    slot_frame [OF assms(1,2), of 3] assms(3)
  by (auto simp del: add_small_neq)

lemma memset_frame: "is_page t \<Longrightarrow> FRAME a \<noteq> t \<Longrightarrow> memset t 0 4096 m a = m a"
  using in_frame [of t a] by (auto simp: memset_apply)

section \<open>The memory a mapping changes\<close>

text \<open>\<open>tables s\<close> are the frames the translation reads: the directory and the present tables.\<close>

definition tables :: "vmm \<Rightarrow> u32 set" where
  "tables s = insert (kernel_directory s) {FRAME (pde_of s i) | i. i < 1024 \<and> pde_of s i AND PTE_PRESENT \<noteq> 0}"

lemma vmm_map_page_memory:
  assumes inv: "vmm_inv s" and pr: "pde_of s (pd_index virt) AND PTE_PRESENT \<noteq> 0 \<or> fst (pmm_alloc_block (vpmm s)) \<noteq> 0"
  defines "tb \<equiv> if pde_of s (pd_index virt) AND PTE_PRESENT \<noteq> 0 then FRAME (pde_of s (pd_index virt)) else fst (pmm_alloc_block (vpmm s))"
  shows "tables (vmm_map_page phys virt flags s) = insert tb (tables s)"
    and "FRAME a \<noteq> kernel_directory s \<Longrightarrow> FRAME a \<noteq> tb \<Longrightarrow> vmem (vmm_map_page phys virt flags s) a = vmem s a"
    and "cr3 (vmm_map_page phys virt flags s) = cr3 s" "paging (vmm_map_page phys virt flags s) = paging s"
    and "kernel_directory (vmm_map_page phys virt flags s) = kernel_directory s"
proof -
  let ?t = "vmm_map_page phys virt flags s" and ?d = "kernel_directory s" and ?i = "pd_index virt"
  note dir = vmm_inv_dir [OF inv]
  obtain p q where al: "pmm_alloc_block (vpmm s) = (p, q)" by (cases "pmm_alloc_block (vpmm s)")
  show f: "cr3 ?t = cr3 s" "paging ?t = paging s" "kernel_directory ?t = ?d"
    by (auto simp: vmm_map_page_def Let_def split: prod.splits)
  have "is_page tb \<and> tb \<noteq> ?d \<and> (\<exists>m1 e. vmem ?t = set_table_word tb (pt_index virt) e m1 \<and> FRAME (table_word ?d ?i m1) = tb
      \<and> table_word ?d ?i m1 AND PTE_PRESENT \<noteq> 0 \<and> (\<forall>j < 1024. j \<noteq> ?i \<longrightarrow> table_word ?d j m1 = pde_of s j)
      \<and> (\<forall>a. FRAME a \<noteq> ?d \<and> FRAME a \<noteq> tb \<longrightarrow> m1 a = vmem s a))"
  proof (cases "pde_of s ?i AND PTE_PRESENT = 0")
    case True
    have p: "p \<noteq> 0" "tb = p" using pr True al by (simp_all add: tb_def)
    have pg: "is_page p" "p \<notin> used_pages (vpmm s)" using pmm_alloc_page [OF dir(2) al] p(1) by simp_all
    have ne: "p \<noteq> ?d" using pg(2) dir(3) by auto
    let ?e = "p OR PTE_PRESENT OR PTE_RW OR (flags AND PTE_USER)"
    let ?m = "set_table_word ?d ?i ?e (memset p 0 4096 (vmem s))"
    have "vmem ?t = set_table_word p (pt_index virt) (FRAME phys OR flags) ?m"
      using True al p(1) by (simp add: vmm_map_page_def Let_def)
    moreover have "table_word ?d j ?m = pde_of s j" if "j < 1024" "j \<noteq> ?i" for j
      using that table_word_set_other [OF dir(1,1) pd_index_bound that(1)] table_word_memset [OF pg(1) dir(1) that(1)] ne by simp
    moreover have "?m a = vmem s a" if "FRAME a \<noteq> ?d" "FRAME a \<noteq> p" for a
      using set_table_word_frame [OF dir(1) pd_index_bound that(1)] memset_frame [OF pg(1) that(2)] by simp
    ultimately show ?thesis
      using p ne pg(1) new_table_entry [OF pg(1), of flags] by (intro conjI exI [of _ ?m]) auto
  next
    case False
    have tb: "tb = FRAME (pde_of s ?i)" using False by (simp add: tb_def)
    have ne: "tb \<noteq> ?d" using vmm_inv_table(2) [OF inv pd_index_bound False] tb by simp
    define m1 where "m1 = (if flags AND PTE_USER \<noteq> 0 then set_table_word ?d ?i (pde_of s ?i OR PTE_USER) (vmem s) else vmem s)"
    have "vmem ?t = set_table_word tb (pt_index virt) (FRAME phys OR flags) m1"
      using False by (simp add: vmm_map_page_def Let_def tb m1_def)
    moreover have "table_word ?d j m1 = pde_of s j" if "j < 1024" "j \<noteq> ?i" for j
      using that table_word_set_other [OF dir(1,1) pd_index_bound that(1)] by (simp add: m1_def)
    moreover have "m1 a = vmem s a" if "FRAME a \<noteq> ?d" for a
      using set_table_word_frame [OF dir(1) pd_index_bound that] by (simp add: m1_def)
    moreover have "FRAME (table_word ?d ?i m1) = tb" "table_word ?d ?i m1 AND PTE_PRESENT \<noteq> 0"
      using False or_user_entry [of "pde_of s ?i"] by (simp_all add: m1_def tb)
    ultimately show ?thesis using ne tb by (intro conjI exI [of _ m1]) auto
  qed
  then obtain m1 e where m: "is_page tb" "tb \<noteq> ?d" "vmem ?t = set_table_word tb (pt_index virt) e m1" "FRAME (table_word ?d ?i m1) = tb"
    "table_word ?d ?i m1 AND PTE_PRESENT \<noteq> 0" "\<And>j. j < 1024 \<Longrightarrow> j \<noteq> ?i \<Longrightarrow> table_word ?d j m1 = pde_of s j"
    "\<And>a. FRAME a \<noteq> ?d \<Longrightarrow> FRAME a \<noteq> tb \<Longrightarrow> m1 a = vmem s a" by blast
  show "vmem ?t a = vmem s a" if "FRAME a \<noteq> ?d" "FRAME a \<noteq> tb"
    using m(3) set_table_word_frame [OF m(1) pt_index_bound that(2)] m(7) [OF that] by simp
  have w: "pde_of ?t j = table_word ?d j m1" if "j < 1024" for j
    unfolding f m(3) using that m(2) by (intro table_word_set_other [OF m(1) dir(1) pt_index_bound]) auto
  have "{FRAME (pde_of ?t i) | i. i < 1024 \<and> pde_of ?t i AND PTE_PRESENT \<noteq> 0}
      = insert tb {FRAME (pde_of s i) | i. i < 1024 \<and> pde_of s i AND PTE_PRESENT \<noteq> 0}" (is "?L = ?R")
  proof
    show "?L \<subseteq> ?R" using w m(4,6) by auto metis
    have "tb \<in> ?L" using w m(4,5) pd_index_bound by (auto intro!: exI [of _ ?i])
    moreover have "FRAME (pde_of s i) \<in> ?L" if i: "i < 1024" "pde_of s i AND PTE_PRESENT \<noteq> 0" for i
    proof (cases "i = ?i")
      case True
      then have "tb = FRAME (pde_of s i)" using i(2) by (simp add: tb_def)
      then show ?thesis using \<open>tb \<in> ?L\<close> by simp
    next
      case False
      then show ?thesis using w [OF i(1)] m(6) [OF i(1)] i by (auto intro!: exI [of _ i])
    qed
    ultimately show "?R \<subseteq> ?L" by blast
  qed
  then show "tables ?t = insert tb (tables s)" unfolding tables_def f by (simp add: insert_commute)
qed

section \<open>Changes outside the tables\<close>

lemma translate_iff:
  assumes "vmm_inv s" "paging s" "cr3 s = kernel_directory s" "p \<noteq> 0"
  shows "translate s v = Some p \<longleftrightarrow> vmm_get_physical_address v s = p"
  using assms vmm_inv_dir(1) [OF assms(1)]
  by (auto simp: translate_def vmm_get_physical_address_def Let_def)

lemma tables_used: "vmm_inv s \<Longrightarrow> tables s \<subseteq> used_pages (vpmm s)"
  using vmm_inv_table(3) vmm_inv_dir(3) by (auto simp: tables_def)

lemma change_outside_tables:
  assumes inv: "vmm_inv s" and out: "\<And>a. FRAME a \<in> tables s \<Longrightarrow> m' a = vmem s a"
  defines "t \<equiv> s\<lparr>vmem := m'\<rparr>"
  shows "vmm_inv t" "tables t = tables s" "vmm_get_physical_address v t = vmm_get_physical_address v s"
proof -
  have same: "table_word f i (vmem t) = table_word f i (vmem s)" if "f \<in> tables s" "is_page f" "i < 1024" for f i
    by (rule table_word_frame [OF that(2,3)]) (use out that(1) in \<open>auto simp: t_def\<close>)
  have pde: "pde_of t i = pde_of s i" if "i < 1024" for i
    using same [of "kernel_directory s" i] vmm_inv_dir(1) [OF inv] that by (simp add: t_def tables_def)
  have k: "kernel_directory t = kernel_directory s" "vpmm t = vpmm s" by (simp_all add: t_def)
  show "vmm_inv t" using inv pde unfolding vmm_inv_def k by auto
  show "tables t = tables s" unfolding tables_def k by (intro arg_cong [where f = "insert _"] Collect_cong ex_cong1) (auto simp: pde [unfolded k])
  show "vmm_get_physical_address v t = vmm_get_physical_address v s"
  proof (cases "pde_of s (pd_index v) AND PTE_PRESENT = 0")
    case True
    then show ?thesis using pde [of "pd_index v"] by (simp add: vmm_get_physical_address_def k)
  next
    case False
    then have "FRAME (pde_of s (pd_index v)) \<in> tables s" by (auto simp: tables_def intro!: exI [of _ "pd_index v"])
    then have "table_word (FRAME (pde_of s (pd_index v))) (pt_index v) (vmem t) = table_word (FRAME (pde_of s (pd_index v))) (pt_index v) (vmem s)"
      by (rule same) simp_all
    then show ?thesis using pde [of "pd_index v"] by (simp add: vmm_get_physical_address_def k Let_def)
  qed
qed

lemma store_outside_tables:
  fixes b :: u8
  assumes "vmm_inv s" "FRAME p \<notin> tables s"
  shows "vmm_inv (s\<lparr>vmem := (vmem s)(p := b)\<rparr>)" "tables (s\<lparr>vmem := (vmem s)(p := b)\<rparr>) = tables s"
    "vmm_get_physical_address v (s\<lparr>vmem := (vmem s)(p := b)\<rparr>) = vmm_get_physical_address v s"
proof -
  have out: "\<And>a. FRAME a \<in> tables s \<Longrightarrow> ((vmem s)(p := b)) a = vmem s a" using assms(2) by auto
  show "vmm_inv (s\<lparr>vmem := (vmem s)(p := b)\<rparr>)" "tables (s\<lparr>vmem := (vmem s)(p := b)\<rparr>) = tables s"
    "vmm_get_physical_address v (s\<lparr>vmem := (vmem s)(p := b)\<rparr>) = vmm_get_physical_address v s"
    by (rule change_outside_tables [OF assms(1) out], assumption)+
qed

end
