(* ===== verification/Paging.thy ===== *)
theory Paging
  imports AddressSpace Interfaces "HOL-Library.Monad_Syntax"
begin

text \<open>
  \<^verbatim>\<open>vmm_map_page\<close> of \<^verbatim>\<open>kernel/vmm.c\<close> run with paging on, as the loader and
  \<^verbatim>\<open>process_create_user\<close> call it. Theory Vmm has it on physical memory, as the boot code runs it; here the directory
  and the tables are read and written at their virtual addresses, through the translation, and an access to an
  unmapped page is None. \<open>space\<close> is an address space in which it works: the kernel's first 8 MB and with them all tables are
  mapped to themselves. Pages from 8 MB up are open to programs.
\<close>

section \<open>Operations\<close>

fun v_memcpy :: "nat \<Rightarrow> u32 \<Rightarrow> u32 \<Rightarrow> vmm \<Rightarrow> vmm option" where
  "v_memcpy 0 d src s = Some s"
| "v_memcpy (Suc n) d src s = do { b \<leftarrow> vload8 src s; s1 \<leftarrow> vstore8 d b s; v_memcpy n (d + 1) (src + 1) s1 }"

fun v_memset :: "nat \<Rightarrow> u32 \<Rightarrow> u8 \<Rightarrow> vmm \<Rightarrow> vmm option" where
  "v_memset 0 p b s = Some s"
| "v_memset (Suc n) p b s = do { s1 \<leftarrow> vstore8 p b s; v_memset n (p + 1) b s1 }"

text \<open>An aligned word lies in one page: one translation, one store.\<close>

definition vstore32 :: "u32 \<Rightarrow> u32 \<Rightarrow> vmm \<Rightarrow> vmm option" where
  "vstore32 a w s = map_option (\<lambda>p. s\<lparr>vmem := store32 p w (vmem s)\<rparr>) (translate s a)"

definition v_map_page :: "u32 \<Rightarrow> u32 \<Rightarrow> u32 \<Rightarrow> vmm \<Rightarrow> vmm option" where
  "v_map_page phys virt flags s =
     (let pde_at = kernel_directory s + 4 * pd_index virt in
      do {
        pde \<leftarrow> vload32 pde_at s;
        if pde AND PTE_PRESENT = 0 then
          (case pmm_alloc_block (vpmm s) of (new_table, q) \<Rightarrow>
             let s1 = s\<lparr>vpmm := q\<rparr> in
             if new_table = 0 then Some s1
             else do {
               s2 \<leftarrow> v_memset 4096 new_table 0 s1;
               s3 \<leftarrow> vstore32 pde_at (new_table OR PTE_PRESENT OR PTE_RW OR (flags AND PTE_USER)) s2;
               vstore32 (new_table + 4 * pt_index virt) (FRAME phys OR flags) s3 })
        else do {
          s1 \<leftarrow> (if flags AND PTE_USER \<noteq> 0 then do { e \<leftarrow> vload32 pde_at s; vstore32 pde_at (e OR PTE_USER) s } else Some s);
          vstore32 (FRAME pde + 4 * pt_index virt) (FRAME phys OR flags) s1 } })"

section \<open>The identity map\<close>

text \<open>With the tables mapped to themselves, the processor's accesses are those of theory Vmm.\<close>

definition self_mapped :: "vmm \<Rightarrow> u32 \<Rightarrow> bool" where
  "self_mapped s f \<longleftrightarrow> f \<noteq> 0 \<and> is_page f \<and> (\<forall>a. FRAME a = f \<longrightarrow> vmm_get_physical_address a s = a)"

definition kernel_space :: "vmm \<Rightarrow> bool" where
  "kernel_space s \<longleftrightarrow> vmm_inv s \<and> paging s \<and> cr3 s = kernel_directory s"

lemma self_translate:
  assumes "kernel_space s" "self_mapped s f" "FRAME a = f" shows "translate s a = Some a"
proof -
  have "a \<noteq> 0" using assms(2,3) by (auto simp: self_mapped_def)
  then show ?thesis using translate_iff [of s a a] assms by (simp add: kernel_space_def self_mapped_def)
qed

lemma allocated_frame:
  assumes ks: "kernel_space s" and al: "pmm_alloc_block (vpmm s) = (p, q)"
  shows "kernel_space (s\<lparr>vpmm := q\<rparr>)" "tables (s\<lparr>vpmm := q\<rparr>) = tables s"
    "vmm_get_physical_address v (s\<lparr>vpmm := q\<rparr>) = vmm_get_physical_address v s" "p \<noteq> 0 \<Longrightarrow> p \<notin> tables s"
proof -
  have inv: "vmm_inv s" using ks by (simp add: kernel_space_def)
  have pg: "page_inv q" "p \<noteq> 0 \<Longrightarrow> p \<notin> used_pages (vpmm s)" "used_pages (vpmm s) \<subseteq> used_pages q"
    using pmm_alloc_page [OF vmm_inv_dir(2) [OF inv] al] by auto
  have "vmm_inv (s\<lparr>vpmm := q\<rparr>)" using inv pg(1,3) by (auto simp: vmm_inv_def)
  then show "kernel_space (s\<lparr>vpmm := q\<rparr>)" using ks by (simp add: kernel_space_def)
  show "tables (s\<lparr>vpmm := q\<rparr>) = tables s" by (simp add: tables_def)
  show "vmm_get_physical_address v (s\<lparr>vpmm := q\<rparr>) = vmm_get_physical_address v s" by (simp add: vmm_get_physical_address_def Let_def)
  show "p \<noteq> 0 \<Longrightarrow> p \<notin> tables s" using tables_used [OF inv] pg(2) by auto
qed

lemma self_load:
  assumes s: "kernel_space s" "self_mapped s f" and i: "i < 1024"
  shows "vload32 (f + 4 * i) s = Some (table_word f i (vmem s))"
proof -
  have pg: "is_page f" using s(2) by (simp add: self_mapped_def)
  have "vload8 (f + 4 * i + of_nat k) s = Some (vmem s (f + 4 * i + of_nat k))" if "k < 4" for k
    using self_translate [OF s slot_frame [OF pg i that]] by (simp add: vload8_def)
  from this [of 0] this [of 1] this [of 2] this [of 3] show ?thesis
    by (simp add: vload32_def table_word_def load32_def)
qed

lemma self_store:
  assumes s: "kernel_space s" "self_mapped s f" and i: "i < 1024"
  shows "vstore32 (f + 4 * i) w s = Some (s\<lparr>vmem := set_table_word f i w (vmem s)\<rparr>)"
proof -
  have pg: "is_page f" using s(2) by (simp add: self_mapped_def)
  have "translate s (f + 4 * i) = Some (f + 4 * i)" using self_translate [OF s slot_frame [OF pg i, of 0]] by simp
  then show ?thesis by (simp add: vstore32_def set_table_word_def)
qed

lemma self_memset:
  assumes "kernel_space s" "self_mapped s f" "f \<notin> tables s" "\<forall>k < n. FRAME (p + of_nat k) = f"
  shows "v_memset n p b s = Some (s\<lparr>vmem := memset_loop n p b (vmem s)\<rparr>)
    \<and> kernel_space (s\<lparr>vmem := memset_loop n p b (vmem s)\<rparr>)
    \<and> (\<forall>v. vmm_get_physical_address v (s\<lparr>vmem := memset_loop n p b (vmem s)\<rparr>) = vmm_get_physical_address v s)"
  using assms
proof (induction n arbitrary: p s)
  case (Suc n)
  let ?t = "s\<lparr>vmem := (vmem s)(p := b)\<rparr>"
  have f: "FRAME p = f" using Suc.prems(4) by force
  have st: "vstore8 p b s = Some ?t" using self_translate [OF Suc.prems(1,2) f] by (simp add: vstore8_def)
  have inv: "vmm_inv s" "FRAME p \<notin> tables s" using Suc.prems(1,3) f by (simp_all add: kernel_space_def)
  note out = store_outside_tables [OF inv, where b = b]
  have t: "kernel_space ?t" "self_mapped ?t f" "f \<notin> tables ?t"
    using Suc.prems(1-3) out by (simp_all add: kernel_space_def self_mapped_def)
  have "\<forall>k < n. FRAME (p + 1 + of_nat k) = f"
    using Suc.prems(4) by (auto simp: add.assoc dest: spec [of _ "Suc k" for k])
  from Suc.IH [OF t this] show ?case using st out(3) by (simp add: fun_upd_def)
qed simp

lemma v_map_page_eq:
  assumes ks: "kernel_space s" and dir: "self_mapped s (kernel_directory s)"
    and tab: "pde_of s (pd_index virt) AND PTE_PRESENT \<noteq> 0 \<Longrightarrow> self_mapped s (FRAME (pde_of s (pd_index virt)))"
    and new: "pde_of s (pd_index virt) AND PTE_PRESENT = 0 \<Longrightarrow> fst (pmm_alloc_block (vpmm s)) \<noteq> 0 \<Longrightarrow>
      self_mapped s (fst (pmm_alloc_block (vpmm s)))"
  shows "v_map_page phys virt flags s = Some (vmm_map_page phys virt flags s)"
proof -
  let ?d = "kernel_directory s" and ?i = "pd_index virt"
  have inv: "vmm_inv s" using ks by (simp add: kernel_space_def)
  note pde = self_load [OF ks dir pd_index_bound, of virt]
  show ?thesis
  proof (cases "pde_of s ?i AND PTE_PRESENT = 0")
    case False
    define s1 where "s1 = (if flags AND PTE_USER \<noteq> 0 then s\<lparr>vmem := set_table_word ?d ?i (pde_of s ?i OR PTE_USER) (vmem s)\<rparr> else s)"
    have ph: "vmm_inv s1" "vmm_get_physical_address v s1 = vmm_get_physical_address v s" for v
      using set_user_translation [OF inv pd_index_bound False refl] inv by (simp_all add: s1_def)
    have "kernel_space s1" "self_mapped s1 (FRAME (pde_of s ?i))"
      using ks ph tab [OF False] by (simp_all add: kernel_space_def self_mapped_def s1_def)
    note st = self_store [OF this pt_index_bound]
    have "(if flags AND PTE_USER \<noteq> 0 then Option.bind (vload32 (?d + 4 * ?i) s) (\<lambda>e. vstore32 (?d + 4 * ?i) (e OR PTE_USER) s) else Some s) = Some s1"
      using pde self_store [OF ks dir pd_index_bound, of virt] by (simp add: s1_def)
    then show ?thesis using pde False st [of virt "FRAME phys OR flags"]
      by (simp add: v_map_page_def vmm_map_page_def Let_def) (simp add: s1_def)
  next
    case True
    obtain p q where al: "pmm_alloc_block (vpmm s) = (p, q)" by (cases "pmm_alloc_block (vpmm s)")
    show ?thesis
    proof (cases "p = 0")
      case True
      then show ?thesis using pde \<open>pde_of s ?i AND PTE_PRESENT = 0\<close> al by (simp add: v_map_page_def vmm_map_page_def Let_def)
    next
      case False
      have pg: "is_page p" using pmm_alloc_page [OF vmm_inv_dir(2) [OF inv] al] by simp
      let ?s1 = "s\<lparr>vpmm := q\<rparr>" and ?e = "p OR PTE_PRESENT OR PTE_RW OR (flags AND PTE_USER)"
      note taken = allocated_frame [OF ks al]
      note phys1 = taken(3)
      have s1: "kernel_space ?s1" "self_mapped ?s1 p" "self_mapped ?s1 ?d" "p \<notin> tables ?s1"
        using taken new [OF True] False al dir by (simp_all add: self_mapped_def)
      have frame: "\<forall>k < 4096. FRAME (p + of_nat k) = p" using FRAME_offset [OF pg] by (simp add: unat_of_nat_u32)
      let ?s2 = "s\<lparr>vpmm := q, vmem := memset p 0 4096 (vmem s)\<rparr>"
      have m: "v_memset 4096 p 0 ?s1 = Some ?s2" "kernel_space ?s2"
        "vmm_get_physical_address v ?s2 = vmm_get_physical_address v s" for v
        using self_memset [OF s1(1,2,4) frame, of 0] phys1 by (simp_all add: memset_def)
      have "self_mapped ?s2 ?d" using s1(3) m(3) phys1 by (simp add: self_mapped_def)
      note st2 = self_store [OF m(2), of ?d ?i ?e, OF this pd_index_bound]
      let ?s3 = "s\<lparr>vpmm := q, vmem := set_table_word ?d ?i ?e (memset p 0 4096 (vmem s))\<rparr>"
      note ent = new_table_entry [OF pg, of flags]
      note nt = new_table_translation [OF inv pd_index_bound True al False ent(2,1) refl]
      have "kernel_space ?s3" using nt(1) ks by (simp add: kernel_space_def)
      moreover have "self_mapped ?s3 p" using s1(2) nt(2) phys1 by (simp add: self_mapped_def)
      ultimately have st3: "vstore32 (p + 4 * pt_index virt) w ?s3 = Some (?s3\<lparr>vmem := set_table_word p (pt_index virt) w (vmem ?s3)\<rparr>)" for w
        by (rule self_store) simp
      show ?thesis
        using pde True al False m(1) st2 st3 [of "FRAME phys OR flags"]
        by (simp add: v_map_page_def vmm_map_page_def Let_def)
    qed
  qed
qed

section \<open>The processor's translation\<close>

text \<open>
  \<^verbatim>\<open>vmm_get_physical_address\<close> answers 0 for an unmapped address and for address 0 of the
  first frame alike; asked for an odd address of the page it tells the two apart.
\<close>

lemma translate_odd:
  assumes "kernel_space s"
  shows "translate s v = (let x = vmm_get_physical_address (v OR 1) s in if x = 0 then None else Some (FRAME x OR (v AND 0xFFF)))"
proof -
  have ix: "pd_index (v OR 1) = pd_index v" "pt_index (v OR 1) = pt_index v" "(v OR 1) AND 0xFFF = (v AND 0xFFF) OR 1"
    by (auto simp: pd_index_def pt_index_def drop_bit_or bit.conj_disj_distrib2 intro!: bit_word_eqI simp: bit_simps)
  have fr: "FRAME (FRAME w OR ((v AND 0xFFF) OR 1)) = FRAME w" for w
    using FRAME_or_offset [OF is_page_FRAME [of w], of "v OR 1"] ix(3) by simp
  have nz: "FRAME w OR ((v AND 0xFFF) OR 1) \<noteq> 0" for w
  proof
    assume "FRAME w OR ((v AND 0xFFF) OR 1) = 0"
    then have "bit (FRAME w OR ((v AND 0xFFF) OR 1)) 0 = bit (0 :: u32) 0" by (rule arg_cong)
    then show False by (simp add: bit_simps)
  qed
  have "kernel_space s" "FRAME (kernel_directory s) = kernel_directory s"
    using assms vmm_inv_dir(1) by (auto simp: kernel_space_def)
  then show ?thesis
    using ix fr nz by (auto simp: translate_def vmm_get_physical_address_def kernel_space_def Let_def)
qed

lemma vmm_map_page_entry:
  fixes phys virt flags :: u32
  assumes inv: "vmm_inv s" and pr: "pde_of s (pd_index virt) AND PTE_PRESENT \<noteq> 0 \<or> fst (pmm_alloc_block (vpmm s)) \<noteq> 0"
  defines "t \<equiv> vmm_map_page phys virt flags s"
  shows "table_word (FRAME (pde_of t (pd_index virt))) (pt_index virt) (vmem t) = FRAME phys OR flags"
    and "flags AND PTE_USER \<noteq> 0 \<Longrightarrow> pde_of t (pd_index virt) AND PTE_USER \<noteq> 0"
proof -
  let ?d = "kernel_directory s" and ?i = "pd_index virt" and ?w = "FRAME phys OR flags"
  note dir = vmm_inv_dir [OF inv]
  obtain p q where al: "pmm_alloc_block (vpmm s) = (p, q)" by (cases "pmm_alloc_block (vpmm s)")
  have "\<exists>tb m e. vmem t = set_table_word tb (pt_index virt) ?w m \<and> kernel_directory t = ?d \<and> is_page tb \<and> tb \<noteq> ?d
      \<and> table_word ?d ?i m = e \<and> FRAME e = tb \<and> (flags AND PTE_USER \<noteq> 0 \<longrightarrow> e AND PTE_USER \<noteq> 0)"
  proof (cases "pde_of s ?i AND PTE_PRESENT = 0")
    case True
    have p: "p \<noteq> 0" using pr True al by simp
    have pg: "is_page p" "p \<notin> used_pages (vpmm s)" using pmm_alloc_page [OF dir(2) al] p by simp_all
    let ?e = "p OR PTE_PRESENT OR PTE_RW OR (flags AND PTE_USER)"
    have "vmem t = set_table_word p (pt_index virt) ?w (set_table_word ?d ?i ?e (memset p 0 4096 (vmem s)))" "kernel_directory t = ?d"
      using True al p by (simp_all add: t_def vmm_map_page_def Let_def)
    moreover have "p \<noteq> ?d" using pg(2) dir(3) by auto
    moreover have "?e AND PTE_USER \<noteq> 0" if "flags AND PTE_USER \<noteq> 0"
      using that by (simp add: bit.conj_disj_distrib2 and.assoc word_bw_assocs or_eq_0_iff)
    ultimately show ?thesis using pg(1) new_table_entry(1) [OF pg(1), of flags]
      by (intro exI [of _ p] exI [of _ "set_table_word ?d ?i ?e (memset p 0 4096 (vmem s))"] exI [of _ ?e]) simp
  next
    case False
    let ?m = "if flags AND PTE_USER \<noteq> 0 then set_table_word ?d ?i (pde_of s ?i OR PTE_USER) (vmem s) else vmem s"
    let ?e = "if flags AND PTE_USER \<noteq> 0 then pde_of s ?i OR PTE_USER else pde_of s ?i"
    have "vmem t = set_table_word (FRAME (pde_of s ?i)) (pt_index virt) ?w ?m" "kernel_directory t = ?d"
      using False by (simp_all add: t_def vmm_map_page_def Let_def)
    moreover have "FRAME (pde_of s ?i) \<noteq> ?d" using vmm_inv_table(2) [OF inv pd_index_bound False] .
    moreover have "(w OR PTE_USER) AND PTE_USER \<noteq> 0" for w :: u32 by (simp add: bit.conj_disj_distrib2)
    ultimately show ?thesis using or_user_entry(2) [of "pde_of s ?i"]
      by (intro exI [of _ "FRAME (pde_of s ?i)"] exI [of _ ?m] exI [of _ ?e]) simp
  qed
  then obtain tb m e where m: "vmem t = set_table_word tb (pt_index virt) ?w m" "kernel_directory t = ?d" "is_page tb" "tb \<noteq> ?d"
    "table_word ?d ?i m = e" "FRAME e = tb" "flags AND PTE_USER \<noteq> 0 \<longrightarrow> e AND PTE_USER \<noteq> 0" by blast
  have e: "pde_of t ?i = e"
    unfolding m(1,2) using table_word_set_other [OF m(3) dir(1) pt_index_bound pd_index_bound, of virt virt ?w m] m(4,5) by simp
  show "table_word (FRAME (pde_of t ?i)) (pt_index virt) (vmem t) = ?w"
  proof -
    have "table_word tb (pt_index virt) (vmem t) = ?w" unfolding m(1) by simp
    then show ?thesis using e m(6) by simp
  qed
  show "flags AND PTE_USER \<noteq> 0 \<Longrightarrow> pde_of t ?i AND PTE_USER \<noteq> 0" unfolding e using m(7) by simp
qed

text \<open>C4: \<^verbatim>\<open>vmm_map_page\<close> on a processor with paging on, which translates its own reads and writes of the
  directory and the tables, maps exactly one page as long as the directory, the table of the page and the frame it takes for
  a new one are mapped to themselves: it runs without a fault, the processor then translates the page of \<open>virt\<close> to the frame
  of \<open>phys\<close> (to nothing without the present flag) and every other address as before, the table entry is that frame
  with exactly the flags, and a page for the user opens its directory entry for the user. When a table is needed and no frame is
  left, nothing changes.\<close>

theorem vmm_map_page_under_paging:
  assumes ks: "kernel_space s" and dir: "self_mapped s (kernel_directory s)" and fl: "flags < 4096"
    and tab: "pde_of s (pd_index virt) AND PTE_PRESENT \<noteq> 0 \<Longrightarrow> self_mapped s (FRAME (pde_of s (pd_index virt)))"
    and new: "pde_of s (pd_index virt) AND PTE_PRESENT = 0 \<Longrightarrow> fst (pmm_alloc_block (vpmm s)) \<noteq> 0 \<Longrightarrow>
      self_mapped s (fst (pmm_alloc_block (vpmm s)))"
  shows "\<exists>t. v_map_page phys virt flags s = Some t \<and>
    (if pde_of s (pd_index virt) AND PTE_PRESENT = 0 \<and> fst (pmm_alloc_block (vpmm s)) = 0 then t = s
     else kernel_space t \<and> kernel_directory t = kernel_directory s
       \<and> (\<forall>v. translate t v = (if drop_bit 12 v = drop_bit 12 virt
            then (if flags AND PTE_PRESENT = 0 then None else Some (FRAME phys OR (v AND 0xFFF))) else translate s v))
       \<and> table_word (FRAME (pde_of t (pd_index virt))) (pt_index virt) (vmem t) = FRAME phys OR flags
       \<and> (flags AND PTE_USER \<noteq> 0 \<longrightarrow> pde_of t (pd_index virt) AND PTE_USER \<noteq> 0))"
proof -
  let ?t = "vmm_map_page phys virt flags s"
  have inv: "vmm_inv s" using ks by (simp add: kernel_space_def)
  have run: "v_map_page phys virt flags s = Some ?t" by (rule v_map_page_eq [OF ks dir tab new])
  from inv fl show ?thesis
  proof (cases rule: vmm_map_page_cases [where virt = virt and phys = phys])
    case (oom q)
    then show ?thesis using run by simp
  next
    case mapped
    note mem = vmm_map_page_memory(3-5) [OF inv mapped(1), of phys flags]
    have k: "kernel_space ?t" using mapped(2) mem ks by (simp add: kernel_space_def)
    have odd: "drop_bit 12 (v OR 1) = drop_bit 12 v" "(v OR 1) AND 0xFFF = (v AND 0xFFF) OR 1" for v :: u32
      by (auto simp: bit.conj_disj_distrib2 drop_bit_or)
    have nz: "FRAME phys OR ((v AND 0xFFF) OR 1) \<noteq> 0" for v :: u32
    proof
      assume "FRAME phys OR ((v AND 0xFFF) OR 1) = 0"
      then have "bit (FRAME phys OR ((v AND 0xFFF) OR 1)) 0 = bit (0 :: u32) 0" by (rule arg_cong)
      then show False by (simp add: bit_simps)
    qed
    have fr: "FRAME (FRAME phys OR ((v AND 0xFFF) OR 1)) = FRAME phys" for v :: u32
      using FRAME_or_offset [OF is_page_FRAME [of phys], of "v OR 1"] odd(2) by simp
    have "translate ?t v = (if drop_bit 12 v = drop_bit 12 virt
            then (if flags AND PTE_PRESENT = 0 then None else Some (FRAME phys OR (v AND 0xFFF))) else translate s v)" for v
      unfolding translate_odd [OF k] translate_odd [OF ks] mapped(3) odd Let_def using nz [of v] fr [of v] by simp
    then show ?thesis using run k mem(3) vmm_map_page_entry(1) [OF inv mapped(1), where phys = phys and flags = flags]
        vmm_map_page_entry(2) [OF inv mapped(1), where phys = phys and flags = flags] mapped(1) by auto
  qed
qed

lemma frame_offset_unat: "unat (v :: u32) = unat (FRAME v) + unat (v AND 0xFFF)" "unat (v AND 0xFFF) < 4096"
proof -
  have o: "unat (v AND 0xFFF) = unat v mod 4096" unfolding page_mask unat_and_mask by simp
  moreover have "unat (FRAME v) = unat v div 4096 * 4096" unfolding frame_mask unat_and_not_mask by simp
  ultimately show "unat v = unat (FRAME v) + unat (v AND 0xFFF)" by simp
  show "unat (v AND 0xFFF) < 4096" unfolding o by simp
qed

lemma aligned_word_frame:
  assumes "4 dvd unat (p :: u32)" "i < 4"
  shows "FRAME (p + of_nat i) = FRAME p"
proof -
  obtain k where k: "unat p = 4 * k" using assms(1) by (elim dvdE)
  have "4 * k < 4294967296" using k unat_lt_two_power_32 [of p] by metis
  then have "k < 1073741824" by simp
  then have "unat (p + of_nat i) = 4 * k + i" using k assms(2) by (simp add: unat_add_of_nat)
  moreover have "(4 * k + i) div 4096 = 4 * k div 4096"
    using assms(2) div_mult2_eq [of "4 * k + i" 4 1024] div_mult2_eq [of "4 * k" 4 1024] by simp
  moreover have "unat (FRAME v) = unat v div 4096 * 4096" for v :: u32 unfolding frame_mask unat_and_not_mask by simp
  ultimately show ?thesis using k by (simp only: word_unat_eq_iff)
qed

section \<open>Address spaces\<close>

text \<open>
  \<open>space s V\<close>: paging is on with the kernel's directory, the first 8 MB but page 0 and all tables in them are mapped to themselves,
  and the addresses \<open>V\<close> translate to different bytes of used frames that hold no table.
\<close>

definition space :: "vmm \<Rightarrow> u32 set \<Rightarrow> bool" where
  "space s V \<longleftrightarrow> kernel_space s \<and> (\<forall>a. 0x1000 \<le> a \<and> a < 0x800000 \<longrightarrow> vmm_get_physical_address a s = a)
     \<and> (\<forall>f \<in> tables s. f < 0x800000) \<and> inj_on (translate s) V
     \<and> (\<forall>v \<in> V. \<exists>p. translate s v = Some p \<and> FRAME p \<noteq> 0 \<and> FRAME p \<in> used_pages (vpmm s) \<and> FRAME p \<notin> tables s)"

text \<open>The pages a program may have, and the free frames below 8 MB, which the allocator gives out before all others.\<close>

definition user_page :: "u32 \<Rightarrow> bool" where
  "user_page p \<longleftrightarrow> 0x800000 \<le> p"

definition low_frames :: "pmm \<Rightarrow> nat" where
  "low_frames p = card {b. b < 2048 \<and> is_free b p}"

lemma alloc_low_frame:
  assumes p: "page_inv s" and room: "0 < low_frames s"
  shows "fst (pmm_alloc_block s) \<noteq> 0 \<and> fst (pmm_alloc_block s) < 0x800000 \<and> low_frames (snd (pmm_alloc_block s)) = low_frames s - 1"
proof -
  have inv: "pmm_inv s" and zero: "0 \<in> used_set s" using p by (simp_all add: page_inv_def)
  obtain c where c: "c < 2048" "is_free c s" using room unfolding low_frames_def card_gt_0_iff by blast
  from inv show ?thesis
  proof (cases rule: pmm_alloc_block_cases)
    case full
    then show ?thesis using c(2) by (auto simp: is_free_iff)
  next
    case (got b)
    have b: "b < 2048" "b < unat (total_blocks s)" "b \<notin> used_set s" using got(2) [OF c(2)] c(1) got(1) by (simp_all add: is_free_iff)
    have u: "unat (of_nat b * PMM_BLOCK_SIZE) = 4096 * b" using b(1) by (simp add: unat_block_addr)
    have "b \<noteq> 0" using b(3) zero by metis
    then have "of_nat b * PMM_BLOCK_SIZE \<noteq> 0" using u by (metis mult_eq_0_iff unat_0 zero_neq_numeral)
    moreover have "of_nat b * PMM_BLOCK_SIZE < 0x800000" using u b(1) by (simp add: word_less_nat_alt)
    moreover have "{c. c < 2048 \<and> is_free c (mark_used b s)} = {c. c < 2048 \<and> is_free c s} - {b}"
      using got(1) b(2) mark_used_inv [OF inv got(1)] by (auto simp: is_free_iff used_set_mark)
    ultimately show ?thesis using got(1,4) b(1) by (simp add: low_frames_def)
  qed
qed

text \<open>Taking a frame and mapping it for the user, as the loader does for each of its pages.\<close>

definition back_page :: "u32 \<Rightarrow> vmm \<Rightarrow> (bool \<times> vmm) option" where
  "back_page vaddr s =
     (case pmm_alloc_block (vpmm s) of (paddr, q) \<Rightarrow>
        if paddr = 0 then Some (False, s\<lparr>vpmm := q\<rparr>)
        else map_option (Pair True) (v_map_page paddr vaddr (PTE_PRESENT OR PTE_RW OR PTE_USER) (s\<lparr>vpmm := q\<rparr>)))"

abbreviation page_at :: "u32 \<Rightarrow> u32 set" where "page_at p \<equiv> {v. FRAME v = p}"

lemma low_self_mapped:
  assumes low: "\<forall>a. 0x1000 \<le> a \<and> a < 0x800000 \<longrightarrow> vmm_get_physical_address a s = a" and f: "is_page f" "f \<noteq> 0" "f < 0x800000"
  shows "self_mapped s f"
  unfolding self_mapped_def
proof (intro conjI allI impI)
  fix a assume a: "FRAME a = f"
  have d: "4096 dvd unat f" using f(1) by (simp add: is_page_dvd)
  then obtain k where k: "unat f = 4096 * k" by (elim dvdE)
  have "k \<noteq> 0" using k f(2) by (auto simp: word_unat_eq_iff)
  moreover have "k < 2048" using k f(3) by (simp add: word_less_nat_alt)
  ultimately have "0x1000 \<le> a \<and> a < 0x800000"
    using frame_offset_unat [of a] a k by (simp add: word_less_nat_alt word_le_nat_alt)
  then show "vmm_get_physical_address a s = a" using low by blast
qed (use f in simp_all)

lemma space_kernel:
  assumes "space s V"
  shows "kernel_space s" "vmm_inv s" "paging s" "cr3 s = kernel_directory s"
    "\<forall>a. 0x1000 \<le> a \<and> a < 0x800000 \<longrightarrow> vmm_get_physical_address a s = a" "\<forall>f \<in> tables s. f < 0x800000" "inj_on (translate s) V"
    "f \<in> tables s \<Longrightarrow> self_mapped s f"
proof -
  show *: "kernel_space s" "vmm_inv s" "paging s" "cr3 s = kernel_directory s"
    "\<forall>a. 0x1000 \<le> a \<and> a < 0x800000 \<longrightarrow> vmm_get_physical_address a s = a" "\<forall>f \<in> tables s. f < 0x800000" "inj_on (translate s) V"
    using assms by (simp_all add: space_def kernel_space_def)
  assume f: "f \<in> tables s"
  have "is_page f" using f vmm_inv_dir(1) [OF *(2)] by (auto simp: tables_def)
  moreover have "f \<noteq> 0" using f vmm_inv_dir [OF *(2)] vmm_inv_table(1) [OF *(2)] by (auto simp: tables_def)
  ultimately show "self_mapped s f" using low_self_mapped [OF *(5)] *(6) f by blast
qed

lemma space_translate:
  assumes "space s V" "v \<in> V"
  obtains p where "translate s v = Some p" "p \<noteq> 0" "FRAME p \<noteq> 0" "FRAME p \<in> used_pages (vpmm s)" "FRAME p \<notin> tables s"
    "vmm_get_physical_address v s = p"
proof -
  obtain p where p: "translate s v = Some p" "FRAME p \<noteq> 0" "FRAME p \<in> used_pages (vpmm s)" "FRAME p \<notin> tables s"
    using assms by (auto simp: space_def)
  have nz: "p \<noteq> 0" using p(2) by auto
  show ?thesis using that [OF p(1) nz p(2-4)] translate_iff [of s p v] nz p(1) space_kernel(2-4) [OF assms(1)] by simp
qed

lemma space_store:
  assumes sp: "space s V" and v: "v \<in> V"
  shows "\<exists>t. vstore8 v b s = Some t \<and> space t V \<and> vpmm t = vpmm s
    \<and> (\<forall>w \<in> V. vload8 w t = (if w = v then Some b else vload8 w s))"
proof -
  obtain p where p: "translate s v = Some p" "FRAME p \<notin> tables s" using space_translate [OF sp v] by metis
  define t where "t = s\<lparr>vmem := (vmem s)(p := b)\<rparr>"
  note inv = space_kernel(2-4) [OF sp]
  note st = store_outside_tables [OF inv(1) p(2), where b = b, folded t_def]
  have k: "paging t" "cr3 t = kernel_directory t" "vpmm t = vpmm s" using inv by (simp_all add: t_def)
  have tr: "translate t w = translate s w" if w: "w \<in> V" for w
  proof -
    obtain q where q: "translate s w = Some q" "q \<noteq> 0" "vmm_get_physical_address w s = q" using space_translate [OF sp w] by metis
    then have "translate t w = Some q" using translate_iff [OF st(1) k(1,2) q(2), of w] st(3) by simp
    then show ?thesis using q(1) by simp
  qed
  have "space t V" using sp st k tr by (auto simp: space_def kernel_space_def inj_on_def)
  moreover have "vload8 w t = (if w = v then Some b else vload8 w s)" if w: "w \<in> V" for w
  proof (cases "w = v")
    case False
    obtain q where q: "translate s w = Some q" using space_translate [OF sp w] by metis
    note space_kernel(7) [OF sp]
    then have "translate s w \<noteq> translate s v" using False v w by (metis inj_onD)
    then have "q \<noteq> p" using q p(1) by auto
    then show ?thesis using False q tr [OF w] by (simp add: vload8_def t_def)
  qed (use tr [OF v] p(1) in \<open>simp add: vload8_def t_def\<close>)
  moreover have "vstore8 v b s = Some t" by (simp add: vstore8_def t_def p(1))
  ultimately show ?thesis using k(3) by blast
qed

lemma same_page_frame: "drop_bit 12 v = drop_bit 12 w \<longleftrightarrow> FRAME v = FRAME w"
proof
  have "drop_bit 12 (FRAME x) = drop_bit 12 x" for x
    unfolding frame_mask by (rule bit_word_eqI) (auto simp: bit_simps dest: bit_imp_le_length)
  then show "drop_bit 12 v = drop_bit 12 w" if "FRAME v = FRAME w" using that by metis
qed (rule same_page_FRAME)

lemma space_extend:
  assumes sp: "space s V" and pg: "is_page p" "user_page p" and new: "page_at p \<inter> V = {}" and room: "2 \<le> low_frames (vpmm s)"
  shows "\<exists>t. back_page p s = Some (True, t) \<and> space t (V \<union> page_at p) \<and> low_frames (vpmm s) \<le> low_frames (vpmm t) + 2
    \<and> (\<forall>w \<in> V. vload8 w t = vload8 w s)"
proof -
  note inv = space_kernel(2-4) [OF sp] and low = space_kernel(5,6) [OF sp]
  obtain f q where al: "pmm_alloc_block (vpmm s) = (f, q)" by (cases "pmm_alloc_block (vpmm s)")
  note dir = vmm_inv_dir [OF inv(1)]
  have f: "f \<noteq> 0" "low_frames q = low_frames (vpmm s) - 1"
    using alloc_low_frame [OF dir(2)] room al by auto
  have page: "page_inv q" "is_page f" "f \<notin> used_pages (vpmm s)" "used_pages q = insert f (used_pages (vpmm s))"
    using pmm_alloc_page [OF dir(2) al] f(1) by auto
  define s1 where "s1 = s\<lparr>vpmm := q\<rparr>"
  have s1: "kernel_directory s1 = kernel_directory s" "vmem s1 = vmem s" "vpmm s1 = q" "tables s1 = tables s"
    "paging s1" "cr3 s1 = kernel_directory s1" by (simp_all add: s1_def tables_def inv)
  have inv1: "vmm_inv s1" using inv(1) page(1,4) unfolding vmm_inv_def s1 by auto
  have same1: "vmm_get_physical_address v s1 = vmm_get_physical_address v s" for v by (simp add: s1_def vmm_get_physical_address_def Let_def)
  define t where "t = vmm_map_page f p 7 s1"
  have al2: "fst (pmm_alloc_block q) \<noteq> 0" "fst (pmm_alloc_block q) < 0x800000"
      "low_frames (snd (pmm_alloc_block q)) = low_frames q - 1"
    using alloc_low_frame [OF page(1)] f(2) room by auto
  have mapped: "vmm_inv t \<and> kernel_directory t = kernel_directory s
      \<and> (\<forall>v. vmm_get_physical_address v t = (if FRAME v = p then f OR (v AND 0xFFF) else vmm_get_physical_address v s))
      \<and> vpmm t = (if pde_of s1 (pd_index p) AND PTE_PRESENT \<noteq> 0 then q else snd (pmm_alloc_block q))"
    unfolding t_def
  proof (rule vmm_map_page_cases [OF inv1, of 7 p f], goal_cases fl oom mapped)
    case oom
    have False using oom(2) al2(1) unfolding s1(3) by simp
    then show ?case ..
  next
    case mapped
    show ?case using mapped(2,3,4,6) same1 page(2) FRAME_page [OF pg(1)] FRAME_page [OF page(2)] unfolding same_page_frame by (auto simp: s1)
  qed simp
  define tb where "tb = (if pde_of s1 (pd_index p) AND PTE_PRESENT \<noteq> 0 then FRAME (pde_of s1 (pd_index p)) else fst (pmm_alloc_block q))"
  have "pde_of s1 (pd_index p) AND PTE_PRESENT \<noteq> 0 \<or> fst (pmm_alloc_block (vpmm s1)) \<noteq> 0" using al2(1) s1(3) by simp
  note mem = vmm_map_page_memory [OF inv1 this, where phys = f and flags = 7, folded t_def, unfolded s1(3), folded tb_def]
  have pg2: "fst (pmm_alloc_block q) \<notin> used_pages q" "used_pages q \<subseteq> used_pages (vpmm t)"
    using pages.alloc_fresh [OF page(1) al2(1)] pages.alloc_owned [OF page(1) al2(1)] mapped by auto
  have tb_low: "tb < 0x800000"
  proof (cases "pde_of s1 (pd_index p) AND PTE_PRESENT = 0")
    case False
    then have "tb \<in> tables s" unfolding s1(4) [symmetric] by (auto simp: tb_def tables_def intro!: exI [of _ "pd_index p"])
    then show ?thesis using low(2) by blast
  qed (use al2(2) in \<open>simp add: tb_def\<close>)
  then have low_tables: "\<forall>f \<in> tables t. f < 0x800000" using mem(1) s1(4) low(2) by simp
  have ks1: "kernel_space s1" using inv1 s1 by (simp add: kernel_space_def)
  have self1: "self_mapped s1 g" if "is_page g" "g \<noteq> 0" "g < 0x800000" for g
    by (rule low_self_mapped [OF _ that]) (use low(1) same1 in simp)
  have tab1: "self_mapped s1 g" if g: "g \<in> tables s" for g
    using space_kernel(8) [OF sp g] same1 by (simp add: self_mapped_def)
  have run: "v_map_page f p 7 s1 = Some t"
    unfolding t_def
  proof (rule v_map_page_eq [OF ks1])
    show "self_mapped s1 (kernel_directory s1)" using s1(1) by (intro tab1) (simp add: tables_def)
    show "self_mapped s1 (FRAME (pde_of s1 (pd_index p)))" if "pde_of s1 (pd_index p) AND PTE_PRESENT \<noteq> 0"
    proof (rule tab1)
      have "FRAME (pde_of s1 (pd_index p)) \<in> tables s1" using that by (auto simp: tables_def intro!: exI [of _ "pd_index p"])
      then show "FRAME (pde_of s1 (pd_index p)) \<in> tables s" unfolding s1(4) .
    qed
    show "self_mapped s1 (fst (pmm_alloc_block (vpmm s1)))"
      using pmm_alloc_page [OF page(1) prod.collapse [symmetric]] al2 unfolding s1(3) by (intro self1) simp_all
  qed
  have f_table: "f \<notin> tables t"
  proof -
    have "f \<noteq> tb" using vmm_inv_table(3) [OF inv(1) pd_index_bound, of p] page(3,4) pg2(1) by (auto simp: tb_def s1)
    moreover have "f \<notin> tables s" using tables_used [OF inv(1)] page(3) by auto
    ultimately show ?thesis using mem(1) s1(4) by simp
  qed
  have k: "paging t" "cr3 t = kernel_directory t" using mem(3,4,5) s1(5,6) by simp_all
  have low_map: "vmm_get_physical_address a t = a" if a: "0x1000 \<le> a" "a < 0x800000" for a
  proof -
    have "FRAME a \<noteq> p" using frame_offset_unat(1) [of a] a(2) pg(2) by (auto simp: user_page_def word_less_nat_alt word_le_nat_alt)
    then show ?thesis using mapped low(1) a by simp
  qed
  have old: "translate t v = translate s v \<and> vload8 v t = vload8 v s \<and> (\<exists>x. translate s v = Some x \<and> FRAME x \<noteq> 0
      \<and> FRAME x \<in> used_pages (vpmm t) \<and> FRAME x \<notin> tables t \<and> FRAME x \<noteq> f)" if v: "v \<in> V" for v
  proof -
    obtain x where x: "translate s v = Some x" "x \<noteq> 0" "FRAME x \<noteq> 0" "FRAME x \<in> used_pages (vpmm s)" "FRAME x \<notin> tables s"
      "vmm_get_physical_address v s = x" using space_translate [OF sp v] by metis
    have "FRAME v \<noteq> p" using new v by auto
    then have tr: "translate t v = Some x" using translate_iff [of t x v] mapped k x(2,6) by simp
    have "FRAME x \<noteq> tb" using x(4,5) pg2(1) page(4) by (auto simp: tb_def s1 tables_def)
    then have "FRAME x \<notin> tables t" "vmem t x = vmem s x" using mem(1) mem(2) [of x] x(5) s1 by (auto simp: tables_def)
    then show ?thesis using x tr page(3,4) pg2(2) by (auto simp: vload8_def)
  qed
  have fresh: "translate t v = Some (f OR (v AND 0xFFF))" if "FRAME v = p" for v
  proof -
    have "f OR (v AND 0xFFF) \<noteq> 0" using FRAME_or_offset [OF page(2), of v] f(1) by auto
    then show ?thesis using translate_iff [of t _ v] mapped k that by simp
  qed
  have "space t (V \<union> page_at p)"
    unfolding space_def
  proof (intro conjI ballI)
    show "inj_on (translate t) (V \<union> page_at p)"
    proof (rule inj_onI)
      fix v w assume vw: "v \<in> V \<union> page_at p" "w \<in> V \<union> page_at p" "translate t v = translate t w"
      note i = space_kernel(7) [OF sp]
      have off: "v = w" if "FRAME v = p" "FRAME w = p" "f OR (v AND 0xFFF) = f OR (w AND 0xFFF)"
        using that frame_or_offset offset_or_frame [OF page(2)] by metis
      have mixed: "translate t x \<noteq> translate t y" if "x \<in> V" "FRAME y = p" for x y
        using old [OF that(1)] fresh [OF that(2)] FRAME_or_offset [OF page(2), of y] by auto
      show "v = w"
      proof (cases "FRAME v = p"; cases "FRAME w = p")
        assume a: "FRAME v = p" "FRAME w = p"
        then show ?thesis using off vw(3) fresh [OF a(1)] fresh [OF a(2)] by simp
      next
        assume a: "FRAME v = p" "FRAME w \<noteq> p"
        then have "w \<in> V" using vw(2) by simp
        then show ?thesis using mixed [OF _ a(1), of w] vw(3) by simp
      next
        assume a: "FRAME v \<noteq> p" "FRAME w = p"
        then have "v \<in> V" using vw(1) by simp
        then show ?thesis using mixed [OF _ a(2), of v] vw(3) by simp
      next
        assume a: "FRAME v \<noteq> p" "FRAME w \<noteq> p"
        then have "v \<in> V" "w \<in> V" using vw(1,2) by simp_all
        then show ?thesis using inj_onD [OF i, of v w] vw(3) old [of v] old [of w] by simp
      qed
    qed
  next
    fix v assume "v \<in> V \<union> page_at p"
    then show "\<exists>x. translate t v = Some x \<and> FRAME x \<noteq> 0 \<and> FRAME x \<in> used_pages (vpmm t) \<and> FRAME x \<notin> tables t"
    proof
      assume v: "v \<in> page_at p"
      have "f \<in> used_pages (vpmm t)" using page(4) pg2(2) by auto
      then show ?thesis using fresh [of v] v FRAME_or_offset [OF page(2), of v] f(1) f_table by auto
    qed (use old in auto)
  qed (use mapped k low_map low_tables in \<open>simp_all add: kernel_space_def\<close>)
  moreover have "low_frames (vpmm s) \<le> low_frames (vpmm t) + 2" using mapped f(2) al2(3) by auto
  moreover have "back_page p s = Some (True, t)" using al f(1) run by (simp add: back_page_def s1_def)
  ultimately show ?thesis using old by blast
qed

interpretation vm: address_space space "\<lambda>s v. vload8 v s" vstore8 back_page user_page "\<lambda>s. low_frames (vpmm s)" page_at
proof unfold_locales
  fix s V v assume "space s V" "v \<in> V"
  then show "\<exists>b. vload8 v s = Some b" by (metis space_translate vload8_def option.simps(9))
next
  fix s V v and b :: u8 assume "space s V" "v \<in> V"
  then show "\<exists>t. vstore8 v b s = Some t \<and> space t V \<and> low_frames (vpmm t) = low_frames (vpmm s)
      \<and> (\<forall>w \<in> V. vload8 w t = (if w = v then Some b else vload8 w s))"
    using space_store [of s V v b] by auto
qed (rule space_extend)

section \<open>The tables of the boot\<close>

definition table_frames :: "vmm \<Rightarrow> u32 set" where
  "table_frames s = (\<lambda>i. FRAME (pde_of s i)) ` {i. i < 1024 \<and> pde_of s i AND PTE_PRESENT \<noteq> 0}"

lemma used_pages_alloc: "used_pages p \<subseteq> used_pages (snd (pmm_alloc_block p))"
proof -
  have "used_set p \<subseteq> used_set (snd (pmm_alloc_block p))"
    by (auto simp: used_set_def pmm_alloc_block_def Let_def)
  then show ?thesis by (auto simp: used_pages_def)
qed

lemma used_pages_map: "used_pages (vpmm s) \<subseteq> used_pages (vpmm (vmm_map_page phys virt flags s))"
  using used_pages_alloc [of "vpmm s"] by (auto simp: vmm_map_page_def Let_def split: prod.split)

text \<open>A mapping takes its table, when it needs one, from the free frames.\<close>

lemma map_page_tables:
  assumes inv: "vmm_inv s"
  shows "table_frames (vmm_map_page phys virt flags s) \<subseteq> table_frames s \<union> - used_pages (vpmm s)"
proof -
  let ?d = "kernel_directory s" and ?k = "pd_index virt" and ?t = "vmm_map_page phys virt flags s"
  note D = vmm_inv_dir [OF inv]
  have dir: "kernel_directory ?t = ?d" by (simp add: vmm_map_page_def Let_def split: prod.split)
  show ?thesis
  proof (cases "pde_of s ?k AND PTE_PRESENT = 0")
    case False
    have F: "FRAME (pde_of s ?k) \<noteq> ?d" using vmm_inv_table(2) [OF inv pd_index_bound False] .
    have "FRAME (pde_of ?t i) = FRAME (pde_of s i) \<and> pde_of ?t i AND PTE_PRESENT = pde_of s i AND PTE_PRESENT" if "i < 1024" for i
      using that F D(1) False
      by (cases "i = ?k") (auto simp: vmm_map_page_def Let_def table_word_set_other or_user_entry split: if_splits)
    then show ?thesis unfolding table_frames_def by (auto simp: dir)
  next
    case True
    obtain p q where al: "pmm_alloc_block (vpmm s) = (p, q)" by (cases "pmm_alloc_block (vpmm s)")
    note pg = pmm_alloc_page [OF D(2) al]
    show ?thesis
    proof (cases "p = 0")
      case z: True
      then have "?t = s\<lparr>vpmm := q\<rparr>" using True al by (simp add: vmm_map_page_def Let_def)
      then show ?thesis by (simp add: table_frames_def)
    next
      case nz: False
      have pd: "?d \<noteq> p" "is_page p" using pg nz D(3) by auto
      have "pde_of ?t i = (if i = ?k then p OR PTE_PRESENT OR PTE_RW OR (flags AND PTE_USER) else pde_of s i)" if "i < 1024" for i
        using that pd D(1) True al nz
        by (auto simp: vmm_map_page_def Let_def table_word_set_other table_word_memset)
      then have "FRAME (pde_of ?t i) = (if i = ?k then p else FRAME (pde_of s i))
          \<and> (i \<noteq> ?k \<longrightarrow> pde_of ?t i = pde_of s i)" if "i < 1024" for i
        using that new_table_entry(1) [OF pd(2)] by auto
      then show ?thesis using pg nz unfolding table_frames_def by (fastforce split: if_splits)
    qed
  qed
qed

lemma identity_map_tables:
  assumes "vmm_inv s" "\<And>i. i < 1024 \<Longrightarrow> pde_of s i AND PTE_PRESENT = 0" "2 \<le> free_frames (vpmm s)" "n \<le> 2048"
  shows "table_frames (identity_map n s) \<subseteq> - used_pages (vpmm s) \<and> used_pages (vpmm s) \<subseteq> used_pages (vpmm (identity_map n s))"
  using assms(4)
proof (induction n)
  case 0
  then show ?case using assms(2) by (auto simp: identity_map_def table_frames_def)
next
  case (Suc n)
  let ?t = "identity_map n s" and ?a = "of_nat n * 4096 :: u32"
  have u: "identity_map (Suc n) s = vmm_map_page ?a ?a (PTE_PRESENT OR PTE_RW) ?t" by (simp add: identity_map_def Let_def)
  have "vmm_inv ?t" using identity_map_inv [OF assms(1-3), of n] Suc.prems by simp
  from map_page_tables [OF this] show ?case
    unfolding u using Suc used_pages_map by (meson Suc_leD Un_least compl_le_compl_iff order_trans)
qed

text \<open>The directory and the tables of the boot lie in frames that were free before.\<close>

lemma vmm_init_tables:
  assumes "page_inv (vpmm s)" "3 \<le> free_frames (vpmm s)"
  shows "insert (kernel_directory (vmm_init s)) (table_frames (vmm_init s)) \<inter> used_pages (vpmm s) = {}"
    "used_pages (vpmm s) \<subseteq> used_pages (vpmm (vmm_init s))"
proof -
  obtain d p where al: "pmm_alloc_block (vpmm s) = (d, p)" by (cases "pmm_alloc_block (vpmm s)")
  have d: "d \<noteq> 0" "free_frames p = free_frames (vpmm s) - 1" using alloc_free_frames [OF assms(1)] assms(2) al by auto
  have pg: "page_inv p" "is_page d" "d \<in> used_pages p" "d \<notin> used_pages (vpmm s)" "used_pages (vpmm s) \<subseteq> used_pages p"
    using pmm_alloc_page [OF assms(1) al] d(1) by auto
  let ?s = "s\<lparr>vpmm := p, kernel_directory := d, vmem := memset d 0 4096 (vmem s)\<rparr>"
  have e: "pde_of ?s i AND PTE_PRESENT = 0" if "i < 1024" for i using that pg(2) by (simp add: table_word_memset)
  have i: "vmm_inv ?s" unfolding vmm_inv_def using pg d(1) e by auto
  have "2 \<le> free_frames (vpmm ?s)" using d(2) assms(2) by simp
  note id = identity_map_tables [OF i e this order_refl]
  have k: "kernel_directory (identity_map 2048 ?s) = d" using identity_map_inv [OF i e _ order_refl] \<open>2 \<le> free_frames (vpmm ?s)\<close> by auto
  have init: "kernel_directory (vmm_init s) = d" "vmem (vmm_init s) = vmem (identity_map 2048 ?s)" "vpmm (vmm_init s) = vpmm (identity_map 2048 ?s)"
    using al d(1) k by (simp_all add: vmm_init_def vmm_enable_paging_def vmm_load_directory_def)
  have "table_frames (vmm_init s) = table_frames (identity_map 2048 ?s)" unfolding table_frames_def init k ..
  then show "insert (kernel_directory (vmm_init s)) (table_frames (vmm_init s)) \<inter> used_pages (vpmm s) = {}"
    using id pg(4,5) init(1) by auto
  show "used_pages (vpmm s) \<subseteq> used_pages (vpmm (vmm_init s))" using id pg(5) unfolding init(3) by auto
qed

section \<open>A machine with 5 MB of frames\<close>

definition small_pool :: pmm where
  "small_pool = pmm_init 0x500000 \<lparr>pmm_bitmap = (\<lambda>_. 0), total_blocks = 0, used_blocks = 0\<rparr>"

definition small_boot :: vmm where
  "small_boot = vmm_init (empty_vmm\<lparr>vpmm := small_pool\<rparr>)"

lemma small_pool_state: "page_inv small_pool" "used_set small_pool = {..<1024}" "unat (total_blocks small_pool) = 1280" "free_frames small_pool = 256"
proof -
  have le: "0x400000 \<le> unat (0x500000 :: u32)" by simp
  note st = pmm_init_state [OF le, of "\<lparr>pmm_bitmap = (\<lambda>_. 0), total_blocks = 0, used_blocks = 0\<rparr>", folded small_pool_def]
  show "page_inv small_pool" using st by (simp add: page_inv_def)
  show u: "used_set small_pool = {..<1024}" using st(2) by simp
  show t: "unat (total_blocks small_pool) = 1280" using st(3) by simp
  show "free_frames small_pool = 256" unfolding free_frames_def t u by simp
qed

lemma small_boot_space:
  "kernel_space small_boot" "vmm_get_physical_address v small_boot = (if v < 0x800000 then v else 0)"
  "kernel_directory small_boot = 0x400000" "i < 1024 \<Longrightarrow> pde_of small_boot i AND PTE_PRESENT \<noteq> 0 \<longleftrightarrow> i < 2"
  "253 \<le> free_frames (vpmm small_boot)" "unat (total_blocks (vpmm small_boot)) = 1280"
proof -
  let ?e = "empty_vmm\<lparr>vpmm := small_pool\<rparr>"
  note st = small_pool_state
  have inv: "page_inv (vpmm ?e)" using st(1) by simp
  have pinv: "pmm_inv small_pool" using st(1) by (simp add: page_inv_def)
  then have first: "fst (pmm_alloc_block (vpmm ?e)) = 0x400000"
  proof (cases rule: pmm_alloc_block_cases)
    case full
    then show ?thesis using st(2,3) by auto
  next
    case (got b)
    have iff: "is_free c small_pool \<longleftrightarrow> 1024 \<le> c \<and> c < 1280" for c unfolding is_free_iff st(2,3) by auto
    have "is_free 1024 small_pool" unfolding iff by simp
    then have "b \<le> 1024" by (rule got(2))
    moreover have "1024 \<le> b" using got(1) unfolding iff by blast
    ultimately have "b = 1024" by (rule antisym)
    then show ?thesis using got(4) by simp
  qed
  have room: "3 \<le> free_frames (vpmm ?e)" using st(4) by simp
  note init = vmm_init_space [OF inv room, folded small_boot_def]
  show "kernel_space small_boot" using init by (simp add: kernel_space_def)
  show "vmm_get_physical_address v small_boot = (if v < 0x800000 then v else 0)" using init by blast
  show "kernel_directory small_boot = 0x400000" using init first by simp
  show "pde_of small_boot i AND PTE_PRESENT \<noteq> 0 \<longleftrightarrow> i < 2" if "i < 1024" using init that by blast
  show "253 \<le> free_frames (vpmm small_boot)" using init st(4) by simp
  show "unat (total_blocks (vpmm small_boot)) = 1280" using init st(3) by simp
qed

lemma small_pool_low: "4096 dvd unat p \<Longrightarrow> unat p < 0x400000 \<Longrightarrow> p \<in> used_pages small_pool"
proof -
  assume d: "4096 dvd unat p" "unat p < 0x400000"
  then obtain b where b: "unat p = 4096 * b" by (elim dvdE)
  then have "b \<in> used_set small_pool" unfolding small_pool_state(2) using d(2) by simp
  moreover have "p = of_nat b * 4096" using arg_cong [OF b, of "of_nat :: nat \<Rightarrow> u32"] by (simp add: mult.commute)
  ultimately show "p \<in> used_pages small_pool" by (auto simp: used_pages_def)
qed

lemma small_boot_high:
  "4096 dvd unat p \<Longrightarrow> unat p < 0x400000 \<Longrightarrow> p \<in> used_pages (vpmm small_boot)"
  "f \<in> tables small_boot \<Longrightarrow> 0x400000 \<le> f"
proof -
  have "page_inv (vpmm (empty_vmm\<lparr>vpmm := small_pool\<rparr>))" "3 \<le> free_frames (vpmm (empty_vmm\<lparr>vpmm := small_pool\<rparr>))"
    using small_pool_state(1,4) by simp_all
  note tabs = vmm_init_tables [OF this, folded small_boot_def]
  show "4096 dvd unat p \<Longrightarrow> unat p < 0x400000 \<Longrightarrow> p \<in> used_pages (vpmm small_boot)" using tabs(2) small_pool_low by auto
  assume f: "f \<in> tables small_boot"
  have "vmm_inv small_boot" using small_boot_space(1) by (simp add: kernel_space_def)
  then have "is_page f" using f vmm_inv_dir(1) by (auto simp: tables_def)
  moreover have "f \<notin> used_pages small_pool" using f tabs(1) by (auto simp: tables_def table_frames_def)
  ultimately have "\<not> unat f < 0x400000" using small_pool_low [of f] by (auto simp: is_page_dvd)
  then show "0x400000 \<le> f" by (simp add: word_le_nat_alt)
qed

lemma used_page_low: "p \<in> used_pages q \<Longrightarrow> unat (total_blocks q) = 1280 \<Longrightarrow> unat p < 0x500000"
proof -
  assume p: "p \<in> used_pages q" "unat (total_blocks q) = 1280"
  then obtain b where b: "b < 1280" "p = of_nat b * 4096" by (auto simp: used_pages_def used_set_def)
  then show "unat p < 0x500000" using unat_block_addr [of b] by simp
qed

lemma boot_self_mapped: "is_page f \<Longrightarrow> f \<noteq> 0 \<Longrightarrow> unat f < 0x500000 \<Longrightarrow> self_mapped small_boot f"
  unfolding self_mapped_def small_boot_space(2)
proof (intro conjI allI impI)
  fix a assume f: "unat f < 0x500000" "FRAME a = f"
  then have "unat a < 0x800000" using frame_offset_unat [of a] by simp
  then show "(if a < 0x800000 then a else 0) = a" by (simp add: word_less_nat_alt)
qed

text \<open>The machine has an address space with nothing for a program in it yet, and room for 126 pages.\<close>

lemma small_boot_tables: "f \<in> tables small_boot \<Longrightarrow> f < 0x500000"
proof -
  assume f: "f \<in> tables small_boot"
  have "vmm_inv small_boot" using small_boot_space(1) by (simp add: kernel_space_def)
  then have "f \<in> used_pages (vpmm small_boot)" using tables_used f by blast
  then show ?thesis using used_page_low small_boot_space(6) by (simp add: word_less_nat_alt)
qed

lemma small_boot_room: "space small_boot {}" "253 \<le> low_frames (vpmm small_boot)"
proof -
  have "f < 0x800000" if "f \<in> tables small_boot" for f
    using small_boot_tables [OF that] by (rule less_trans) simp
  then show "space small_boot {}" using small_boot_space(1,2) by (simp add: space_def)
  have inv: "page_inv (vpmm small_boot)" using small_boot_space(1) vmm_inv_dir(2) by (simp add: kernel_space_def)
  have "{b. b < 2048 \<and> is_free b (vpmm small_boot)} = {..<1280} - used_set (vpmm small_boot)"
    by (auto simp: is_free_iff small_boot_space(6))
  moreover have "used_set (vpmm small_boot) \<subseteq> {..<1280}" using small_boot_space(6) by (auto simp: used_set_def)
  then have "card ({..<1280} - used_set (vpmm small_boot)) = 1280 - card (used_set (vpmm small_boot))"
    by (simp add: card_Diff_subset finite_subset)
  ultimately show "253 \<le> low_frames (vpmm small_boot)"
    using small_boot_space(5,6) by (simp add: low_frames_def free_frames_def)
qed

theorem vmm_map_page_under_paging_witness:
  "\<exists>t. v_map_page 0x450000 0xA0000000 7 small_boot = Some t \<and> translate t 0xA0000123 = Some 0x450123 \<and> translate t 0x1234 = Some 0x1234"
proof -
  note ks = small_boot_space(1)
  have inv: "vmm_inv small_boot" using ks by (simp add: kernel_space_def)
  have dir: "self_mapped small_boot (kernel_directory small_boot)" unfolding small_boot_space(3) by (rule boot_self_mapped) simp_all
  have none: "pde_of small_boot (pd_index 0xA0000000) AND PTE_PRESENT = 0"
    using small_boot_space(4) [OF pd_index_bound, of "0xA0000000"] by (simp add: pd_index_def)
  have nz: "fst (pmm_alloc_block (vpmm small_boot)) \<noteq> 0"
    using alloc_free_frames [OF vmm_inv_dir(2) [OF inv]] small_boot_space(5) by simp
  note al = pmm_alloc_page [OF vmm_inv_dir(2) [OF inv] prod.collapse [symmetric]]
  have "unat (fst (pmm_alloc_block (vpmm small_boot))) < 0x500000"
    using used_page_low [of _ "snd (pmm_alloc_block (vpmm small_boot))"] al nz small_boot_space(6) by simp
  then have new: "self_mapped small_boot (fst (pmm_alloc_block (vpmm small_boot)))" using boot_self_mapped nz al by blast
  have fl: "(7 :: u32) < 4096" by simp
  obtain t where t: "v_map_page 0x450000 0xA0000000 7 small_boot = Some t"
    "\<And>v. translate t v = (if drop_bit 12 v = drop_bit 12 (0xA0000000 :: u32) then Some (FRAME 0x450000 OR (v AND 0xFFF)) else translate small_boot v)"
    using vmm_map_page_under_paging [OF ks dir fl, of "0xA0000000" "0x450000"] none new nz by auto
  have "translate small_boot 0x1234 = Some 0x1234"
    unfolding translate_odd [OF ks] small_boot_space(2) by simp
  then show ?thesis using t(1) t(2) [of "0xA0000123"] t(2) [of "0x1234"] by simp
qed

end
