(* ===== verification/Elf.thy ===== *)
theory Elf
  imports Paging
begin

text \<open>
  The program loader, \<^verbatim>\<open>kernel/elf.c\<close>, over the kernel's address space. Every read
  of the image and every byte stored at a segment's address goes through the page tables; None is a
  page fault, at which the kernel halts. The header fields are read where the code reads them, at
  their offsets in the packed structures of \<^verbatim>\<open>include/elf.h\<close>; the loop reads them again in
  every round. The pages are mapped under paging too: \<open>back_page\<close> of theory Paging. The log messages are left out.
\<close>

section \<open>Operations\<close>

text \<open>The magic number, the class and the byte order: read in turn until one differs.\<close>

fun expect_bytes :: "u8 list \<Rightarrow> u32 \<Rightarrow> vmm \<Rightarrow> bool option" where
  "expect_bytes [] v s = Some True"
| "expect_bytes (b # bs) v s = do { c \<leftarrow> vload8 v s; if c \<noteq> b then Some False else expect_bytes bs (v + 1) s }"

definition elf_ident :: "u8 list" where
  "elf_ident = [0x7F, ch CHR ''E'', ch CHR ''L'', ch CHR ''F'', 1, 1]"

definition elf_validate :: "u32 \<Rightarrow> vmm \<Rightarrow> int option" where
  "elf_validate ehdr s =
     (if ehdr = 0 then Some (-1)
      else do {
        ident \<leftarrow> expect_bytes elf_ident ehdr s;
        if \<not> ident then Some (-1) else do {
        e_type \<leftarrow> vload16 (ehdr + 16) s;
        if e_type \<noteq> 2 then Some (-1) else do {
        e_machine \<leftarrow> vload16 (ehdr + 18) s;
        if e_machine \<noteq> 3 then Some (-1) else Some 0 }}})"

text \<open>The pages of a segment: the result tells whether a frame was found for each.\<close>

fun map_segment :: "nat \<Rightarrow> u32 \<Rightarrow> u32 \<Rightarrow> vmm \<Rightarrow> (bool \<times> vmm) option" where
  "map_segment 0 phdr p s = Some (True, s)"
| "map_segment (Suc n) phdr p s = do {
     p_vaddr \<leftarrow> vload32 (phdr + 8) s;
     (ok, s1) \<leftarrow> back_page (p_vaddr + p * 4096) s;
     if ok then map_segment n phdr (p + 1) s1 else Some (False, s1) }"

definition copy_segment :: "u32 \<Rightarrow> u32 \<Rightarrow> vmm \<Rightarrow> vmm option" where
  "copy_segment data phdr s = do {
     p_filesz \<leftarrow> vload32 (phdr + 16) s;
     if 0 < p_filesz then do {
       p_vaddr \<leftarrow> vload32 (phdr + 8) s;
       p_offset \<leftarrow> vload32 (phdr + 4) s;
       v_memcpy (unat p_filesz) p_vaddr (data + p_offset) s }
     else Some s }"

definition zero_segment :: "u32 \<Rightarrow> vmm \<Rightarrow> vmm option" where
  "zero_segment phdr s = do {
     p_memsz \<leftarrow> vload32 (phdr + 20) s;
     p_filesz \<leftarrow> vload32 (phdr + 16) s;
     if p_filesz < p_memsz then do {
       p_vaddr \<leftarrow> vload32 (phdr + 8) s;
       v_memset (unat (p_memsz - p_filesz)) (p_vaddr + p_filesz) 0 s }
     else Some s }"

definition load_segment :: "u32 \<Rightarrow> u32 \<Rightarrow> vmm \<Rightarrow> (bool \<times> vmm) option" where
  "load_segment data phdr s = do {
     p_memsz \<leftarrow> vload32 (phdr + 20) s;
     (ok, s1) \<leftarrow> map_segment (unat ((p_memsz + 4095) div 4096)) phdr 0 s;
     if \<not> ok then Some (False, s1) else do {
       s2 \<leftarrow> copy_segment data phdr s1;
       s3 \<leftarrow> zero_segment phdr s2;
       Some (True, s3) }}"

text \<open>The loop over the program headers; \<^verbatim>\<open>e_phnum\<close> has 16 bits.\<close>

function load_segments :: "u32 \<Rightarrow> u32 \<Rightarrow> nat \<Rightarrow> vmm \<Rightarrow> (bool \<times> vmm) option" where
  "load_segments data phdr i s = do {
     e_phnum \<leftarrow> vload16 (data + 44) s;
     if i < unat e_phnum then do {
       p_type \<leftarrow> vload32 (phdr + 32 * of_nat i) s;
       (ok, s1) \<leftarrow> (if p_type = 1 then load_segment data (phdr + 32 * of_nat i) s else Some (True, s));
       if ok then load_segments data phdr (Suc i) s1 else Some (False, s1) }
     else Some (True, s) }"
  by pat_completeness auto
termination
proof (relation "measure (\<lambda>(data, phdr, i, s). 65536 - i)")
  fix i :: nat and e_phnum :: u16
  assume "i < unat e_phnum"
  moreover have "unat e_phnum < 65536" using unsigned_less [of e_phnum] by simp
  ultimately show "((data, phdr, Suc i, t), data, phdr, i, s) \<in> measure (\<lambda>(data, phdr, i, s). 65536 - i)" for data phdr t s
    by simp
qed simp

declare load_segments.simps [simp del]

definition elf_load :: "u32 \<Rightarrow> u32 \<Rightarrow> vmm \<Rightarrow> (u32 \<times> vmm) option" where
  "elf_load data len s =
     (if data = 0 \<or> len < 52 then Some (0, s)
      else do {
        r \<leftarrow> elf_validate data s;
        if r < 0 then Some (0, s) else do {
        e_phoff \<leftarrow> vload32 (data + 28) s;
        (ok, s1) \<leftarrow> load_segments data (data + e_phoff) 0 s;
        if \<not> ok then Some (0, s1) else do {
        e_entry \<leftarrow> vload32 (data + 24) s1;
        Some (e_entry, s1) }}})"

abbreviation USER_STACK_TOP :: u32 where "USER_STACK_TOP \<equiv> 0xC0000000"
abbreviation USER_STACK_SIZE :: u32 where "USER_STACK_SIZE \<equiv> 4096 * 4"

fun map_stack :: "nat \<Rightarrow> u32 \<Rightarrow> u32 \<Rightarrow> vmm \<Rightarrow> (bool \<times> vmm) option" where
  "map_stack 0 bottom i s = Some (True, s)"
| "map_stack (Suc n) bottom i s = do {
     (ok, s1) \<leftarrow> back_page (bottom + i * 4096) s;
     if ok then map_stack n bottom (i + 1) s1 else Some (False, s1) }"

definition elf_exec :: "ptr \<Rightarrow> vmm \<Rightarrow> (int \<times> vmm) option" where
  "elf_exec path s =
     (if path = 0 then Some (-1, s)
      else do {
        (ok, s1) \<leftarrow> map_stack (unat (USER_STACK_SIZE div 4096)) (USER_STACK_TOP - USER_STACK_SIZE) 0 s;
        Some (if ok then 0 else -1, s1) })"

section \<open>The image as bytes\<close>

text \<open>
  The specification is over plain bytes: \<open>holds s V m\<close> says that the addresses \<open>V\<close> are mapped and
  hold what the memory \<open>m\<close> holds there.
\<close>

definition holds :: "vmm \<Rightarrow> u32 set \<Rightarrow> mem \<Rightarrow> bool" where
  "holds s V m \<longleftrightarrow> (\<forall>v \<in> V. vload8 v s = Some (m v))"

definition field :: "u32 \<Rightarrow> nat \<Rightarrow> u32 set" where
  "field a n = (\<lambda>k. a + of_nat k) ` {..<n}"

lemma field_0 [simp]: "field a 0 = {}" and field_Suc [simp]: "field a (Suc n) = insert a (field (a + 1) n)"
  unfolding field_def lessThan_Suc_eq_insert_0 by (simp_all add: image_image add.assoc)

lemma field_mem: "k < n \<Longrightarrow> a + of_nat k \<in> field a n"
  by (simp add: field_def)

lemma field_sub: "c + n \<le> l \<Longrightarrow> field (a + of_nat c) n \<subseteq> field a l"
  by (force simp: field_def add.assoc simp flip: of_nat_add)

fun bytes_at :: "mem \<Rightarrow> u32 \<Rightarrow> nat \<Rightarrow> u8 list" where
  "bytes_at m v 0 = []"
| "bytes_at m v (Suc n) = m v # bytes_at m (v + 1) n"

lemma bytes_at_length [simp]: "length (bytes_at m v n) = n"
  by (induction n arbitrary: v) auto

lemma bytes_at_nth: "k < n \<Longrightarrow> bytes_at m v n ! k = m (v + of_nat k)"
  by (induction n arbitrary: v k) (auto simp: nth_Cons add.assoc split: nat.splits)

lemma holds_mono: "holds s V m \<Longrightarrow> W \<subseteq> V \<Longrightarrow> holds s W m"
  by (auto simp: holds_def)

lemma holds_same: "holds s V m \<Longrightarrow> \<forall>w \<in> V. vload8 w t = vload8 w s \<Longrightarrow> holds t V m"
  by (simp add: holds_def)

lemma space_mono: "space s V \<Longrightarrow> W \<subseteq> V \<Longrightarrow> space s W"
  by (auto simp: space_def inj_on_subset)

lemma holds_vload16: "holds s (field a 2) m \<Longrightarrow> vload16 a s = Some (load16 m a)"
  by (simp add: holds_def numeral_2_eq_2 vload16_def load16_def)

lemma holds_vload32: "holds s (field a 4) m \<Longrightarrow> vload32 a s = Some (load32 m a)"
  by (simp add: holds_def numeral_eq_Suc vload32_def load32_def add.assoc)

lemma expect_bytes_holds: "holds s (field v (length bs)) m \<Longrightarrow> expect_bytes bs v s = Some (bs = bytes_at m v (length bs))"
  by (induction bs arbitrary: v) (auto simp: holds_def)

lemma bytes_at_6: "bytes_at m v 6 = [m v, m (v + 1), m (v + 2), m (v + 3), m (v + 4), m (v + 5)]"
  by (simp add: numeral_eq_Suc add.assoc)

definition elf_header :: "mem \<Rightarrow> u32 \<Rightarrow> bool" where
  "elf_header m data \<longleftrightarrow> data \<noteq> 0 \<and> bytes_at m data 6 = elf_ident \<and> load16 m (data + 16) = 2 \<and> load16 m (data + 18) = 3"

lemma elf_validate_holds:
  assumes h: "holds s (field data 52) m"
  shows "elf_validate data s = Some (if elf_header m data then 0 else -1)"
proof -
  have len: "length elf_ident = 6" by (simp add: elf_ident_def)
  have "holds s (field data 6) m" using holds_mono [OF h field_sub [of 0 6 52 data]] by simp
  then have "expect_bytes elf_ident data s = Some (bytes_at m data 6 = elf_ident)"
    using expect_bytes_holds [of s data elf_ident m, unfolded len] by auto
  moreover have "vload16 (data + 16) s = Some (load16 m (data + 16))" "vload16 (data + 18) s = Some (load16 m (data + 18))"
    using holds_vload16 [OF holds_mono [OF h field_sub [of 16 2 52 data, simplified]]]
      holds_vload16 [OF holds_mono [OF h field_sub [of 18 2 52 data, simplified]]] by simp_all
  ultimately show ?thesis by (simp add: elf_validate_def elf_header_def)
qed

section \<open>Mapping and filling a segment\<close>

lemma map_stack_extend: "map_stack n bottom i s = vm.extend_all n (bottom + i * 4096) s"
  by (induction n arbitrary: i s) (auto simp: algebra_simps intro!: arg_cong [where f = "Option.bind _"])

lemma map_segment_extend:
  assumes "space s V" "field (phdr + 8) 4 \<subseteq> V" "holds s V m" "is_page (load32 m (phdr + 8) + p * 4096)"
    "\<forall>k < n. user_page (load32 m (phdr + 8) + p * 4096 + of_nat k * 4096)
      \<and> page_at (load32 m (phdr + 8) + p * 4096 + of_nat k * 4096) \<inter> V = {}" "2 * n \<le> low_frames (vpmm s)"
  shows "map_segment n phdr p s = vm.extend_all n (load32 m (phdr + 8) + p * 4096) s"
  using assms
proof (induction n arbitrary: p s)
  case (Suc n)
  let ?q = "load32 m (phdr + 8) + p * 4096"
  have v: "vload32 (phdr + 8) s = Some (load32 m (phdr + 8))" using holds_vload32 [OF holds_mono [OF Suc.prems(3,2)]] .
  obtain t where t: "back_page ?q s = Some (True, t)" "space t (V \<union> page_at ?q)" "low_frames (vpmm s) \<le> low_frames (vpmm t) + 2"
    "\<forall>w \<in> V. vload8 w t = vload8 w s"
    using vm.extend_page [OF Suc.prems(1,4)] Suc.prems(5,6) by force
  have next_page: "load32 m (phdr + 8) + (p + 1) * 4096 = ?q + 4096" by (simp add: algebra_simps)
  have "map_segment n phdr (p + 1) t = vm.extend_all n (load32 m (phdr + 8) + (p + 1) * 4096) t"
  proof (rule Suc.IH [OF space_mono [OF t(2)] Suc.prems(2) holds_same [OF Suc.prems(3) t(4)]])
    show "is_page (load32 m (phdr + 8) + (p + 1) * 4096)"
      unfolding next_page using Suc.prems(4) by (rule vm.page_step)
    have step: "?q + 4096 + of_nat k * 4096 = ?q + of_nat (Suc k) * 4096" for k by (simp add: algebra_simps)
    show "\<forall>k < n. user_page (load32 m (phdr + 8) + (p + 1) * 4096 + of_nat k * 4096)
        \<and> page_at (load32 m (phdr + 8) + (p + 1) * 4096 + of_nat k * 4096) \<inter> V = {}"
      unfolding next_page step using Suc.prems(5) by blast
    show "2 * n \<le> low_frames (vpmm t)" using Suc.prems(6) t(3) by simp
  qed simp
  then show ?case using v t(1) by (simp add: next_page [simplified] add.assoc)
qed simp

lemma v_memset_store_list: "v_memset n p b s = vm.store_list p (replicate n b) s"
  by (induction n arbitrary: p s) (auto intro!: arg_cong [where f = "Option.bind _"])

lemma v_memcpy_store_list:
  assumes "space s V" "holds s (field src n) m" "field src n \<subseteq> V" "field d n \<subseteq> V" "field d n \<inter> field src n = {}"
  shows "v_memcpy n d src s = vm.store_list d (bytes_at m src n) s"
  using assms
proof (induction n arbitrary: d src s)
  case (Suc n)
  have src: "vload8 src s = Some (m src)" "d \<in> V" using Suc.prems(2,4) by (auto simp: holds_def)
  obtain t where t: "vstore8 d (m src) s = Some t" "space t V" "\<forall>w \<in> V. vload8 w t = (if w = d then Some (m src) else vload8 w s)"
    using vm.store_backed [OF Suc.prems(1) src(2), of "m src"] by blast
  have "holds t (field (src + 1) n) m" using Suc.prems(2,3,5) t(3) by (auto simp: holds_def)
  then have "v_memcpy n (d + 1) (src + 1) t = vm.store_list (d + 1) (bytes_at m (src + 1) n) t"
    by (rule Suc.IH [OF t(2)]) (use Suc.prems(3-5) in auto)
  then show ?case using src t(1) by simp
qed simp

text \<open>The pages of a segment, and its bytes among them.\<close>

definition seg_pages :: "mem \<Rightarrow> u32 \<Rightarrow> nat" where
  "seg_pages m phdr = unat ((load32 m (phdr + 20) + 4095) div 4096)"

definition seg_area :: "mem \<Rightarrow> u32 \<Rightarrow> u32 set" where
  "seg_area m phdr = (\<Union>k \<in> {..<seg_pages m phdr}. page_at (load32 m (phdr + 8) + of_nat k * 4096))"

text \<open>A loadable segment the file describes well: page aligned, above the kernel's first 8 MB and within the address
  space, its file bytes among \<open>V\<close>, its pages outside \<open>W\<close>.\<close>

definition segment_ok :: "u32 set \<Rightarrow> u32 set \<Rightarrow> mem \<Rightarrow> u32 \<Rightarrow> u32 \<Rightarrow> bool" where
  "segment_ok V W m data phdr \<longleftrightarrow> field phdr 32 \<subseteq> V
     \<and> load32 m (phdr + 8) AND 0xFFF = 0 \<and> 0x800000 \<le> load32 m (phdr + 8) \<and> load32 m (phdr + 16) \<le> load32 m (phdr + 20)
     \<and> unat (load32 m (phdr + 8)) + unat (load32 m (phdr + 20)) + 4095 < 4294967296
     \<and> field (data + load32 m (phdr + 4)) (unat (load32 m (phdr + 16))) \<subseteq> V
     \<and> seg_area m phdr \<inter> W = {}"

definition segment_bytes :: "mem \<Rightarrow> u32 \<Rightarrow> u32 \<Rightarrow> vmm \<Rightarrow> bool" where
  "segment_bytes m data phdr t \<longleftrightarrow> (\<forall>k < unat (load32 m (phdr + 20)).
     vload8 (load32 m (phdr + 8) + of_nat k) t =
       Some (if k < unat (load32 m (phdr + 16)) then m (data + load32 m (phdr + 4) + of_nat k) else 0))"

lemma is_page_add:
  assumes "is_page v" "unat v + k * 4096 < 4294967296"
  shows "is_page (v + of_nat k * 4096)" "unat (v + of_nat k * 4096) = unat v + k * 4096"
proof -
  show u: "unat (v + of_nat k * 4096) = unat v + k * 4096"
    using unat_add_of_nat [of v "k * 4096"] assms(2) by simp
  show "is_page (v + of_nat k * 4096)" using assms(1) unfolding is_page_dvd u by simp
qed

lemma pages_disjoint:
  assumes "is_page v" "unat v + n * 4096 < 4294967296" "j < n" "k < n" "j \<noteq> k"
  shows "page_at (v + of_nat j * 4096) \<inter> page_at (v + of_nat k * 4096) = {}"
proof -
  have "j * 4096 < n * 4096" "k * 4096 < n * 4096" using assms(3,4) by simp_all
  then have "unat (v + of_nat j * 4096) \<noteq> unat (v + of_nat k * 4096)"
    using is_page_add(2) [OF assms(1), of j] is_page_add(2) [OF assms(1), of k] assms(2,5) by simp
  then have "v + of_nat j * 4096 \<noteq> v + of_nat k * 4096" by metis
  then show ?thesis by auto
qed

lemma page_of_byte:
  assumes "is_page v" "unat v + k < 4294967296"
  shows "FRAME (v + of_nat k) = v + of_nat (k div 4096) * 4096"
proof -
  have "unat v + k div 4096 * 4096 < 4294967296" using assms(2) div_times_less_eq_dividend [of k 4096] by linarith
  note pg = is_page_add [OF assms(1) this]
  have "v + of_nat k = v + of_nat (k div 4096) * 4096 + of_nat (k mod 4096)"
    using arg_cong [OF div_mult_mod_eq [of k 4096], of "of_nat :: nat \<Rightarrow> u32"]
    by (simp only: of_nat_add of_nat_mult of_nat_numeral add.assoc)
  moreover have "unat (of_nat (k mod 4096) :: u32) < 4096" by (subst unat_of_nat_u32) (auto intro: less_trans [of _ 4096])
  ultimately show ?thesis using FRAME_offset [OF pg(1)] by (simp add: add.assoc)
qed

lemma segment_pages:
  assumes ok: "segment_ok V W m data phdr"
  defines "v \<equiv> load32 m (phdr + 8)" and "n \<equiv> seg_pages m phdr"
  shows "n = (unat (load32 m (phdr + 20)) + 4095) div 4096" "unat v + n * 4096 < 4294967296"
    "\<And>k. k < n \<Longrightarrow> is_page (v + of_nat k * 4096) \<and> unat (v + of_nat k * 4096) = unat v + k * 4096"
    "field v (unat (load32 m (phdr + 20))) \<subseteq> seg_area m phdr"
proof -
  let ?l = "unat (load32 m (phdr + 20))"
  have b: "unat v + ?l + 4095 < 4294967296" "is_page v" using ok by (simp_all add: segment_ok_def v_def)
  have "unat (load32 m (phdr + 20) + 4095) = ?l + 4095" using b(1) by (subst unat_add_u32) simp_all
  then show n: "n = (?l + 4095) div 4096" by (simp add: n_def seg_pages_def unat_div)
  have "n * 4096 \<le> ?l + 4095" unfolding n by simp
  then show top: "unat v + n * 4096 < 4294967296" using b(1) by linarith
  show "is_page (v + of_nat k * 4096) \<and> unat (v + of_nat k * 4096) = unat v + k * 4096" if "k < n" for k
    using is_page_add [OF b(2), of k] top that by auto
  show "field v ?l \<subseteq> seg_area m phdr"
  proof
    fix x assume "x \<in> field v ?l"
    then obtain k where k: "k < ?l" "x = v + of_nat k" by (auto simp: field_def)
    have "k div 4096 < n" using k(1) unfolding n by (simp add: less_eq_div_iff_mult_less_eq Suc_le_eq [symmetric] del: Suc_le_eq)
    moreover have "FRAME x = v + of_nat (k div 4096) * 4096"
      unfolding k(2) by (rule page_of_byte [OF b(2)]) (use k(1) b(1) in linarith)
    ultimately show "x \<in> seg_area m phdr" by (auto simp: seg_area_def n_def v_def)
  qed
qed

lemma v_memcpy_space:
  assumes "space s V" "holds s (field src n) m" "field src n \<subseteq> V" "field d n \<subseteq> V" "field d n \<inter> field src n = {}" "n < 4294967296"
  shows "\<exists>t. v_memcpy n d src s = Some t \<and> space t V \<and> low_frames (vpmm t) = low_frames (vpmm s)
    \<and> (\<forall>w \<in> V. vload8 w t = (if unat (w - d) < n then Some (m (src + (w - d))) else vload8 w s))"
  using vm.store_list_backed [OF assms(1), where bs = "bytes_at m src n" and v = d] v_memcpy_store_list [OF assms(1-5)]
    assms(4,6) field_mem [of _ n d]
  by (auto simp: bytes_at_nth subset_iff)

lemma v_memset_space:
  assumes "space s V" "field p n \<subseteq> V" "n < 4294967296"
  shows "\<exists>t. v_memset n p b s = Some t \<and> space t V \<and> low_frames (vpmm t) = low_frames (vpmm s)
    \<and> (\<forall>w \<in> V. vload8 w t = (if unat (w - p) < n then Some b else vload8 w s))"
  using vm.store_list_backed [OF assms(1), where bs = "replicate n b" and v = p] assms(2,3) field_mem [of _ n p]
  by (auto simp: v_memset_store_list subset_iff)

lemma phdr_fields:
  assumes "holds s (field phdr 32) m"
  shows "vload32 phdr s = Some (load32 m phdr)"
    "vload32 (phdr + 4) s = Some (load32 m (phdr + 4))" "vload32 (phdr + 8) s = Some (load32 m (phdr + 8))"
    "vload32 (phdr + 16) s = Some (load32 m (phdr + 16))" "vload32 (phdr + 20) s = Some (load32 m (phdr + 20))"
proof -
  have "vload32 (phdr + of_nat c) s = Some (load32 m (phdr + of_nat c))" if "c + 4 \<le> 32" for c
    by (rule holds_vload32 [OF holds_mono [OF assms field_sub [OF that]]])
  from this [of 0] this [of 4] this [of 8] this [of 16] this [of 20]
  show "vload32 phdr s = Some (load32 m phdr)"
    "vload32 (phdr + 4) s = Some (load32 m (phdr + 4))" "vload32 (phdr + 8) s = Some (load32 m (phdr + 8))"
    "vload32 (phdr + 16) s = Some (load32 m (phdr + 16))" "vload32 (phdr + 20) s = Some (load32 m (phdr + 20))"
    by simp_all
qed

lemma map_segment_space:
  assumes sp: "space s W" "holds s V m" "V \<subseteq> W" and ok: "segment_ok V W m data phdr"
    and room: "2 * seg_pages m phdr \<le> low_frames (vpmm s)"
  shows "\<exists>t. map_segment (seg_pages m phdr) phdr 0 s = Some (True, t) \<and> space t (W \<union> seg_area m phdr)
    \<and> low_frames (vpmm s) \<le> low_frames (vpmm t) + 2 * seg_pages m phdr \<and> (\<forall>w \<in> W. vload8 w t = vload8 w s)"
proof -
  let ?v = "load32 m (phdr + 8)" and ?n = "seg_pages m phdr"
  note pg = segment_pages [OF ok]
  have V: "field (phdr + 8) 4 \<subseteq> V" using ok field_sub [of 8 4 32 phdr] by (auto simp: segment_ok_def simp del: field_Suc)
  have page: "is_page ?v" using ok by (simp add: segment_ok_def)
  have out: "\<forall>k < ?n. user_page (?v + of_nat k * 4096) \<and> page_at (?v + of_nat k * 4096) \<inter> W = {}"
  proof (intro allI impI conjI)
    fix k assume k: "k < ?n"
    have "0x800000 \<le> unat ?v" using ok by (simp add: segment_ok_def word_le_nat_alt)
    then show "user_page (?v + of_nat k * 4096)" using pg(3) [OF k] by (simp add: user_page_def word_le_nat_alt)
    show "page_at (?v + of_nat k * 4096) \<inter> W = {}" using ok k by (auto simp: segment_ok_def seg_area_def)
  qed
  have "map_segment ?n phdr 0 s = vm.extend_all ?n ?v s"
    using map_segment_extend [OF space_mono [OF sp(1,3)] V sp(2), of 0 ?n] page out sp(3) room by auto
  moreover have "page_at (?v + of_nat j * 4096) \<inter> page_at (?v + of_nat k * 4096) = {}" if "j < ?n" "k < ?n" "j \<noteq> k" for j k
    by (rule pages_disjoint [OF page pg(2) that])
  ultimately show ?thesis
    using vm.extend_all_pages [OF sp(1) page out, of ] room by (simp add: seg_area_def)
qed

lemma field_diff: "w = v + of_nat k \<Longrightarrow> k < 4294967296 \<Longrightarrow> unat (w - v :: u32) = k"
  by (simp add: unat_of_nat_u32)

lemma load_segment_space:
  assumes sp: "space s W" "holds s V m" "V \<subseteq> W" and ok: "segment_ok V W m data phdr"
    and room: "2 * seg_pages m phdr \<le> low_frames (vpmm s)"
  shows "\<exists>t. load_segment data phdr s = Some (True, t) \<and> space t (W \<union> seg_area m phdr)
    \<and> low_frames (vpmm s) \<le> low_frames (vpmm t) + 2 * seg_pages m phdr \<and> (\<forall>w \<in> W. vload8 w t = vload8 w s)
    \<and> segment_bytes m data phdr t"
proof -
  let ?v = "load32 m (phdr + 8)" and ?o = "load32 m (phdr + 4)" and ?f = "load32 m (phdr + 16)" and ?l = "load32 m (phdr + 20)"
  let ?A = "W \<union> seg_area m phdr"
  have hdr: "field phdr 32 \<subseteq> V" and src: "field (data + ?o) (unat ?f) \<subseteq> V" and fl: "?f \<le> ?l" "unat ?f \<le> unat ?l"
    and out: "seg_area m phdr \<inter> W = {}" using ok by (auto simp: segment_ok_def word_le_nat_alt)
  have area: "field ?v (unat ?l) \<subseteq> seg_area m phdr" by (rule segment_pages(4) [OF ok])
  obtain t1 where t1: "map_segment (seg_pages m phdr) phdr 0 s = Some (True, t1)" "space t1 ?A"
    "low_frames (vpmm s) \<le> low_frames (vpmm t1) + 2 * seg_pages m phdr" "\<forall>w \<in> W. vload8 w t1 = vload8 w s"
    using map_segment_space [OF sp ok room] by blast
  have h1: "holds t1 V m" using holds_same [OF sp(2)] t1(4) sp(3) by blast
  have dst: "field ?v (unat ?f) \<subseteq> seg_area m phdr" using area fl(2) field_sub [of 0 "unat ?f" "unat ?l" ?v] by auto
  have "\<exists>t2. copy_segment data phdr t1 = Some t2 \<and> space t2 ?A \<and> low_frames (vpmm t2) = low_frames (vpmm t1)
      \<and> (\<forall>w \<in> ?A. vload8 w t2 = (if unat (w - ?v) < unat ?f then Some (m (data + ?o + (w - ?v))) else vload8 w t1))"
  proof (cases "?f = 0")
    case True
    then show ?thesis using t1(2) phdr_fields [OF holds_mono [OF h1 hdr]] by (simp add: copy_segment_def)
  next
    case False
    have "field ?v (unat ?f) \<inter> field (data + ?o) (unat ?f) = {}" "field (data + ?o) (unat ?f) \<subseteq> ?A" "field ?v (unat ?f) \<subseteq> ?A"
      using dst src out sp(3) by blast+
    from v_memcpy_space [OF t1(2) holds_mono [OF h1 src] this(2,3,1)] show ?thesis
      using False phdr_fields [OF holds_mono [OF h1 hdr]] by (simp add: copy_segment_def word_gt_0)
  qed
  then obtain t2 where t2: "copy_segment data phdr t1 = Some t2" "space t2 ?A" "low_frames (vpmm t2) = low_frames (vpmm t1)"
    "\<forall>w \<in> ?A. vload8 w t2 = (if unat (w - ?v) < unat ?f then Some (m (data + ?o + (w - ?v))) else vload8 w t1)" by blast
  have off: "w \<notin> W" if "unat (w - ?v) < unat ?l" for w
  proof -
    have "w \<in> field ?v (unat ?l)" using field_mem [OF that, of ?v] by simp
    then show ?thesis using area out by blast
  qed
  have keep2: "\<forall>w \<in> W. vload8 w t2 = vload8 w s" using t2(4) t1(4) off fl(2) by force
  have h2: "holds t2 V m" using holds_same [OF sp(2)] keep2 sp(3) by blast
  have tail: "field (?v + ?f) (unat (?l - ?f)) \<subseteq> seg_area m phdr"
    using field_sub [of "unat ?f" "unat (?l - ?f)" "unat ?l" ?v] area fl by (simp add: unat_diff_u32)
  have "\<exists>t3. zero_segment phdr t2 = Some t3 \<and> space t3 ?A \<and> low_frames (vpmm t3) = low_frames (vpmm t1)
      \<and> (\<forall>w \<in> ?A. vload8 w t3 = (if unat (w - (?v + ?f)) < unat (?l - ?f) then Some 0 else vload8 w t2))"
  proof (cases "?f < ?l")
    case True
    have "field (?v + ?f) (unat (?l - ?f)) \<subseteq> ?A" using tail by blast
    from v_memset_space [OF t2(2) this, of 0] show ?thesis
      using True t2(3) phdr_fields [OF holds_mono [OF h2 hdr]] by (simp add: zero_segment_def)
  next
    case False
    then have "?f = ?l" using fl(1) by simp
    then show ?thesis using t2(2,3) phdr_fields [OF holds_mono [OF h2 hdr]] by (simp add: zero_segment_def)
  qed
  then obtain t3 where t3: "zero_segment phdr t2 = Some t3" "space t3 ?A" "low_frames (vpmm t3) = low_frames (vpmm t1)"
    "\<forall>w \<in> ?A. vload8 w t3 = (if unat (w - (?v + ?f)) < unat (?l - ?f) then Some 0 else vload8 w t2)" by blast
  have "\<forall>w \<in> W. vload8 w t3 = vload8 w s"
  proof
    fix w assume w: "w \<in> W"
    have "\<not> unat (w - (?v + ?f)) < unat (?l - ?f)"
    proof
      assume "unat (w - (?v + ?f)) < unat (?l - ?f)"
      then have "w \<in> field (?v + ?f) (unat (?l - ?f))" using field_mem [of _ _ "?v + ?f"] by fastforce
      then show False using tail out w by blast
    qed
    then show "vload8 w t3 = vload8 w s" using t3(4) keep2 w by simp
  qed
  moreover have "segment_bytes m data phdr t3"
    unfolding segment_bytes_def
  proof (intro allI impI)
    fix k assume k: "k < unat ?l"
    have mem: "?v + of_nat k \<in> ?A" using area field_mem [OF k, of ?v] by blast
    have u: "unat (of_nat k :: u32) = k" using k by (simp add: unat_of_nat_u32 less_trans [OF _ unat_lt_two_power_32])
    have "unat (of_nat k - ?f) < unat (?l - ?f) \<longleftrightarrow> \<not> k < unat ?f"
    proof (cases "k < unat ?f")
      case True
      then have "of_nat k - ?f = - of_nat (unat ?f - k)" by (simp add: of_nat_diff)
      moreover have "unat (- of_nat (unat ?f - k) :: u32) = 4294967296 - (unat ?f - k)"
        by (rule unat_neg_of_nat_u32) (use True unat_lt_two_power_32 [of ?f] in linarith)+
      ultimately have "unat (of_nat k - ?f) = 4294967296 - (unat ?f - k)" by simp
      then have "\<not> unat (of_nat k - ?f) < unat ?l - unat ?f" using True fl(2) unat_lt_two_power_32 [of ?l] by linarith
      then show ?thesis using True fl by (simp add: unat_diff_u32)
    next
      case False
      then have "?f \<le> of_nat k" using u by (simp add: word_le_nat_alt)
      then show ?thesis using False u k fl by (simp add: unat_diff_u32)
    qed
    then show "vload8 (?v + of_nat k) t3 = Some (if k < unat ?f then m (data + ?o + of_nat k) else 0)"
      using t3(4) [rule_format, OF mem] t2(4) [rule_format, OF mem] u by (simp add: algebra_simps)
  qed
  moreover have "load_segment data phdr s = Some (True, t3)"
    using phdr_fields [OF holds_mono [OF sp(2) hdr]] t1(1) t2(1) t3(1) by (simp add: load_segment_def seg_pages_def)
  ultimately show ?thesis using t3(2,3) t1(3) by auto
qed

section \<open>The program headers\<close>

text \<open>The loadable headers from the \<open>i\<close>-th on, and the addresses they fill.\<close>

definition load_headers :: "mem \<Rightarrow> u32 \<Rightarrow> u32 \<Rightarrow> nat \<Rightarrow> u32 list" where
  "load_headers m data phdr i =
     [h \<leftarrow> map (\<lambda>k. phdr + 32 * of_nat k) [i..<unat (load16 m (data + 44))]. load32 m h = 1]"

definition image_area :: "mem \<Rightarrow> u32 list \<Rightarrow> u32 set" where
  "image_area m hs = (\<Union>h \<in> set hs. seg_area m h)"

definition image_frames :: "mem \<Rightarrow> u32 list \<Rightarrow> nat" where
  "image_frames m hs = sum_list (map (\<lambda>h. 2 * seg_pages m h) hs)"

lemma load_headers_Suc:
  assumes "i < unat (load16 m (data + 44))"
  shows "load_headers m data phdr i = (if load32 m (phdr + 32 * of_nat i) = 1 then [phdr + 32 * of_nat i] else []) @ load_headers m data phdr (Suc i)"
  using assms by (simp add: load_headers_def upt_conv_Cons)

lemma image_area_append [simp]: "image_area m (hs @ gs) = image_area m hs \<union> image_area m gs"
  "image_area m [h] = seg_area m h" "image_area m [] = {}"
  by (auto simp: image_area_def)

lemma segment_bytes_same:
  assumes "segment_bytes m data h s" "segment_ok V X m data h" "seg_area m h \<subseteq> W" "\<forall>w \<in> W. vload8 w t = vload8 w s"
  shows "segment_bytes m data h t"
  unfolding segment_bytes_def
proof (intro allI impI)
  fix k assume k: "k < unat (load32 m (h + 20))"
  then have "load32 m (h + 8) + of_nat k \<in> W" using segment_pages(4) [OF assms(2)] field_mem [OF k] assms(3) by blast
  then show "vload8 (load32 m (h + 8) + of_nat k) t = Some (if k < unat (load32 m (h + 16)) then m (data + load32 m (h + 4) + of_nat k) else 0)"
    using assms(1,4) k by (simp add: segment_bytes_def)
qed

lemma load_segments_space:
  assumes "space s W" "holds s V m" "V \<subseteq> W" "field (data + 44) 2 \<subseteq> V"
    "\<forall>k < unat (load16 m (data + 44)). field (phdr + 32 * of_nat k) 32 \<subseteq> V"
    "\<forall>h \<in> set (load_headers m data phdr i). segment_ok V W m data h"
    "sorted_wrt (\<lambda>h g. seg_area m h \<inter> seg_area m g = {}) (load_headers m data phdr i)"
    "image_frames m (load_headers m data phdr i) \<le> low_frames (vpmm s)"
  shows "\<exists>t. load_segments data phdr i s = Some (True, t) \<and> space t (W \<union> image_area m (load_headers m data phdr i))
    \<and> (\<forall>w \<in> W. vload8 w t = vload8 w s) \<and> (\<forall>h \<in> set (load_headers m data phdr i). segment_bytes m data h t)"
  using assms
proof (induction "65536 - i" arbitrary: i s W rule: less_induct)
  case less
  let ?n = "load16 m (data + 44)" and ?h = "phdr + 32 * of_nat i"
  have num: "vload16 (data + 44) s = Some ?n" by (rule holds_vload16 [OF holds_mono [OF less.prems(2,4)]])
  have n: "unat ?n < 65536" using unsigned_less [of ?n] by simp
  show ?case
  proof (cases "i < unat ?n")
    case False
    then show ?thesis using num less.prems(1) by (simp add: load_segments.simps [of data phdr i] load_headers_def)
  next
    case i: True
    note hs = load_headers_Suc [OF i, of phdr]
    have type: "vload32 ?h s = Some (load32 m ?h)"
      using phdr_fields(1) [OF holds_mono [OF less.prems(2)]] less.prems(5) i by blast
    have smaller: "65536 - Suc i < 65536 - i" using i n by simp
    show ?thesis
    proof (cases "load32 m ?h = 1")
      case False
      then have same: "load_headers m data phdr i = load_headers m data phdr (Suc i)" using hs by simp
      have "load_segments data phdr i s = load_segments data phdr (Suc i) s"
        using num type i False by (simp add: load_segments.simps [of data phdr i])
      then show ?thesis using less.hyps [OF smaller less.prems(1-5) less.prems(6-8) [unfolded same]] unfolding same by simp
    next
      case True
      then have hs: "load_headers m data phdr i = ?h # load_headers m data phdr (Suc i)" using hs by simp
      have ok: "segment_ok V W m data ?h" using less.prems(6) hs by simp
      have room: "2 * seg_pages m ?h \<le> low_frames (vpmm s)" using less.prems(8) hs by (simp add: image_frames_def)
      obtain t where t: "load_segment data ?h s = Some (True, t)" "space t (W \<union> seg_area m ?h)"
        "low_frames (vpmm s) \<le> low_frames (vpmm t) + 2 * seg_pages m ?h" "\<forall>w \<in> W. vload8 w t = vload8 w s" "segment_bytes m data ?h t"
        using load_segment_space [OF less.prems(1-3) ok room] by blast
      have step: "load_segments data phdr i s = load_segments data phdr (Suc i) t"
        using num type i True t(1) by (simp add: load_segments.simps [of data phdr i])
      have ht: "holds t V m" "V \<subseteq> W \<union> seg_area m ?h" using holds_same [OF less.prems(2)] t(4) less.prems(3) by blast+
      have oks: "\<forall>h \<in> set (load_headers m data phdr (Suc i)). segment_ok V (W \<union> seg_area m ?h) m data h"
        using less.prems(6,7) unfolding hs by (auto simp: segment_ok_def)
      have dis: "sorted_wrt (\<lambda>h g. seg_area m h \<inter> seg_area m g = {}) (load_headers m data phdr (Suc i))"
        using less.prems(7) unfolding hs by simp
      have rest: "image_frames m (load_headers m data phdr (Suc i)) \<le> low_frames (vpmm t)"
        using less.prems(8) t(3) unfolding hs by (simp add: image_frames_def)
      obtain u where u: "load_segments data phdr (Suc i) t = Some (True, u)"
        "space u (W \<union> seg_area m ?h \<union> image_area m (load_headers m data phdr (Suc i)))"
        "\<forall>w \<in> W \<union> seg_area m ?h. vload8 w u = vload8 w t" "\<forall>h \<in> set (load_headers m data phdr (Suc i)). segment_bytes m data h u"
        using less.hyps [OF smaller t(2) ht less.prems(4,5) oks dis rest] by blast
      have "segment_bytes m data ?h u" by (rule segment_bytes_same [OF t(5) ok _ u(3)]) simp
      moreover have "image_area m (load_headers m data phdr i) = seg_area m ?h \<union> image_area m (load_headers m data phdr (Suc i))"
        unfolding hs by (simp add: image_area_def)
      ultimately show ?thesis using u t(4) step unfolding hs by (auto simp: Un_assoc)
    qed
  qed
qed

section \<open>Loading a program\<close>

text \<open>What a well-formed image is: mapped, with the header the loader asks for, its program headers and file
  bytes mapped, its loadable segments on pages of their own.\<close>

definition well_formed_image :: "u32 set \<Rightarrow> mem \<Rightarrow> u32 \<Rightarrow> bool" where
  "well_formed_image V m data \<longleftrightarrow>
     (let phdr = data + load32 m (data + 28); hs = load_headers m data phdr 0 in
       elf_header m data \<and> field data 52 \<subseteq> V
       \<and> (\<forall>k < unat (load16 m (data + 44)). field (phdr + 32 * of_nat k) 32 \<subseteq> V)
       \<and> (\<forall>h \<in> set hs. segment_ok V V m data h)
       \<and> sorted_wrt (\<lambda>h g. seg_area m h \<inter> seg_area m g = {}) hs)"

text \<open>C8: \<^verbatim>\<open>elf_load\<close> refuses, changing nothing, a null pointer, a file shorter than the header, and
  any header that does not carry the magic number, the 32-bit class, little endian order, the executable type and
  the 386 machine.\<close>

theorem elf_load_rejects:
  assumes "data = 0 \<or> len < 52 \<or> (\<exists>m. holds s (field data 52) m \<and> \<not> elf_header m data)"
  shows "elf_load data len s = Some (0, s)"
  using assms elf_validate_holds by (auto simp: elf_load_def)

theorem elf_load_rejects_witness: "elf_load 0 100 empty_vmm = Some (0, empty_vmm) \<and> elf_load 0x1000 51 empty_vmm = Some (0, empty_vmm)
    \<and> elf_load 0x1000 52 empty_vmm = Some (0, empty_vmm)"
proof (intro conjI)
  have "vload8 v empty_vmm = Some 0" for v by (simp add: vload8_def translate_def empty_vmm_def)
  then have "holds empty_vmm (field 0x1000 52) (\<lambda>_. 0)" unfolding holds_def by blast
  moreover have "\<not> elf_header (\<lambda>_. 0) 0x1000" by (simp add: elf_header_def load16_def)
  ultimately show "elf_load 0x1000 52 empty_vmm = Some (0, empty_vmm)" using elf_load_rejects by blast
qed (use elf_load_rejects [of 0 100 empty_vmm] elf_load_rejects [of "0x1000" 51 empty_vmm] in simp_all)

text \<open>C7: \<^verbatim>\<open>elf_load\<close>, run with paging on in an address space that maps the kernel's first 8 MB and with them the
  directory and all tables to themselves, of a well-formed image whose segments lie above them, with two free frames below 8 MB for each of its pages (one
  for the page, one for a page table), runs without a page fault and returns the entry point: every loadable segment is then in memory at its
  address, the file's bytes followed by zeros up to its memory size, on pages of its own, and everything that
  was mapped, the image included, holds what it held.\<close>

theorem elf_load_image:
  assumes sp: "space s V" and h: "holds s V m" and wf: "well_formed_image V m data" and len: "52 \<le> len"
    and room: "image_frames m (load_headers m data (data + load32 m (data + 28)) 0) \<le> low_frames (vpmm s)"
  shows "\<exists>t. elf_load data len s = Some (load32 m (data + 24), t)
    \<and> space t (V \<union> image_area m (load_headers m data (data + load32 m (data + 28)) 0)) \<and> holds t V m
    \<and> (\<forall>h \<in> set (load_headers m data (data + load32 m (data + 28)) 0). segment_bytes m data h t)"
proof -
  let ?p = "data + load32 m (data + 28)"
  have w: "elf_header m data" "field data 52 \<subseteq> V" "\<forall>k < unat (load16 m (data + 44)). field (?p + 32 * of_nat k) 32 \<subseteq> V"
    "\<forall>h \<in> set (load_headers m data ?p 0). segment_ok V V m data h"
    "sorted_wrt (\<lambda>h g. seg_area m h \<inter> seg_area m g = {}) (load_headers m data ?p 0)"
    using wf unfolding well_formed_image_def Let_def by auto
  have inside: "field (data + of_nat c) n \<subseteq> V" if "c + n \<le> 52" for c n using field_sub [OF that, of data] w(2) by blast
  obtain t where t: "load_segments data ?p 0 s = Some (True, t)" "space t (V \<union> image_area m (load_headers m data ?p 0))"
    "\<forall>w \<in> V. vload8 w t = vload8 w s" "\<forall>h \<in> set (load_headers m data ?p 0). segment_bytes m data h t"
    using load_segments_space [OF sp h subset_refl inside [of 44 2, simplified of_nat_numeral] w(3-5) room] by auto
  have ht: "holds t V m" using holds_same [OF h t(3)] .
  have "elf_validate data s = Some 0" using elf_validate_holds [OF holds_mono [OF h w(2)]] w(1) by simp
  moreover have "vload32 (data + 28) s = Some (load32 m (data + 28))" "vload32 (data + 24) t = Some (load32 m (data + 24))"
    using holds_vload32 [OF holds_mono [OF h inside [of 28 4, simplified of_nat_numeral]]]
      holds_vload32 [OF holds_mono [OF ht inside [of 24 4, simplified of_nat_numeral]]] by simp_all
  moreover have "data \<noteq> 0" using w(1) by (simp add: elf_header_def)
  ultimately have "elf_load data len s = Some (load32 m (data + 24), t)" using t(1) len by (simp add: elf_load_def linorder_not_less [symmetric])
  then show ?thesis using t ht by blast
qed

text \<open>A small image at 9 MB, in the address space the boot code sets up: one segment of two pages, two of its
  bytes in the file.\<close>

definition small_elf :: "u8 list" where
  "small_elf = [0x7F, 69, 76, 70, 1, 1, 1, 0, 0, 0, 0, 0, 0, 0, 0, 0, 2, 0, 3, 0, 1, 0, 0, 0, 0x34, 0x12, 0xA0, 0, 52, 0, 0, 0,
     0, 0, 0, 0, 0, 0, 0, 0, 52, 0, 32, 0, 1, 0, 0, 0, 0, 0, 0, 0,
     1, 0, 0, 0, 84, 0, 0, 0, 0, 0, 0xA0, 0, 0, 0, 0, 0, 2, 0, 0, 0, 4, 0x10, 0, 0, 7, 0, 0, 0, 0, 0x10, 0, 0, 0xEB, 0xFE]"

lemma small_elf_length: "length small_elf = 86" by (simp add: small_elf_def)

definition small_mem :: mem where
  "small_mem a = (if a - 0x900000 < 86 then small_elf ! unat (a - 0x900000) else 0)"

lemma field_page: "n \<le> 4096 \<Longrightarrow> is_page v \<Longrightarrow> field v n \<subseteq> page_at v"
  using FRAME_offset [of v] by (auto simp: field_def unat_of_nat_u32)

lemma small_elf_loaded: "\<exists>s. space s (field 0x900000 86) \<and> holds s (field 0x900000 86) small_mem \<and> 100 \<le> low_frames (vpmm s)"
proof -
  have up: "user_page 0x900000" "0x900000 AND 0xFFF = (0 :: u32)" "2 \<le> low_frames (vpmm small_boot)" using small_boot_room(2) by (simp_all add: user_page_def)
  obtain s where s: "space s (page_at 0x900000)" "251 \<le> low_frames (vpmm s)"
    using vm.extend_page [OF small_boot_room(1) up(2,1) _ up(3)] small_boot_room(2) by fastforce
  have sub: "field 0x900000 86 \<subseteq> page_at 0x900000" by (rule field_page) simp_all
  have mem: "\<forall>k < length small_elf. 0x900000 + of_nat k \<in> page_at 0x900000"
    using sub field_mem [of _ 86 "0x900000"] unfolding small_elf_length by blast
  obtain t where t: "space t (page_at 0x900000)" "low_frames (vpmm t) = low_frames (vpmm s)"
    "\<forall>w \<in> page_at 0x900000. vload8 w t = (if unat (w - 0x900000) < length small_elf then Some (small_elf ! unat (w - 0x900000)) else vload8 w s)"
    using vm.store_list_backed [OF s(1) mem] by (auto simp: small_elf_length)
  have "vload8 w t = Some (small_mem w)" if w: "w \<in> field 0x900000 86" for w
  proof -
    obtain k where k: "k < 86" "w = 0x900000 + of_nat k" using w by (auto simp: field_def)
    have "unat (w - 0x900000) = k" using k field_diff [of w "0x900000" k] by simp
    then show ?thesis using t(3) sub w k by (auto simp: small_mem_def small_elf_length word_less_nat_alt)
  qed
  then show ?thesis using space_mono [OF t(1) sub] t(2) s(2) by (auto simp: holds_def)
qed

lemma small_elf_segment: "load_headers small_mem 0x900000 0x900034 0 = [0x900034]" "seg_pages small_mem 0x900034 = 2"
  by (simp_all add: load_headers_def load16_def load32_def small_mem_def small_elf_def seg_pages_def)

lemma small_elf_well_formed: "well_formed_image (field 0x900000 86) small_mem 0x900000"
proof -
  let ?V = "field 0x900000 86"
  have off: "load32 small_mem (0x900000 + 28) = 52" by (simp add: load32_def small_mem_def small_elf_def)
  have num: "load16 small_mem (0x900000 + 44) = 1" by (simp add: load16_def small_mem_def small_elf_def)
  have hdr: "elf_header small_mem 0x900000"
    by (simp add: elf_header_def bytes_at_6 load16_def small_mem_def small_elf_def elf_ident_def)
  have sub: "field (0x900000 + of_nat c) n \<subseteq> ?V" if "c + n \<le> 86" for c n by (rule field_sub [OF that])
  have flds: "load32 small_mem (0x900034 + 8) = 0xA00000" "load32 small_mem (0x900034 + 4) = 84"
    "load32 small_mem (0x900034 + 16) = 2" "load32 small_mem (0x900034 + 20) = 4100"
    by (simp_all add: load32_def small_mem_def small_elf_def)
  have "?V \<subseteq> page_at 0x900000" by (rule field_page) simp_all
  moreover have "seg_area small_mem 0x900034 = page_at 0xA00000 \<union> page_at 0xA01000"
    using flds(1) by (auto simp: seg_area_def small_elf_segment(2) numeral_2_eq_2 lessThan_Suc)
  ultimately have out: "seg_area small_mem 0x900034 \<inter> ?V = {}" by auto
  have "segment_ok ?V ?V small_mem 0x900000 0x900034"
    unfolding segment_ok_def flds
    using sub [of 52 32] sub [of 84 2] out by (simp del: field_Suc)
  then show ?thesis
    unfolding well_formed_image_def Let_def off num
    using hdr sub [of 0 52] sub [of 52 32] by (simp add: small_elf_segment(1) del: field_Suc)
qed

theorem elf_load_image_witness:
  "\<exists>s t. elf_load 0x900000 86 s = Some (0xA01234, t) \<and> vload8 0xA00001 t = Some 0xFE \<and> vload8 0xA01003 t = Some 0"
proof -
  obtain s where s: "space s (field 0x900000 86)" "holds s (field 0x900000 86) small_mem" "100 \<le> low_frames (vpmm s)"
    using small_elf_loaded by blast
  have hs: "load_headers small_mem 0x900000 (0x900000 + load32 small_mem (0x900000 + 28)) 0 = [0x900034]"
    using small_elf_segment(1) by (simp add: load32_def small_mem_def small_elf_def)
  have entry: "load32 small_mem (0x900000 + 24) = 0xA01234" by (simp add: load32_def small_mem_def small_elf_def)
  have room: "image_frames small_mem [0x900034] \<le> low_frames (vpmm s)" using s(3) by (simp add: image_frames_def small_elf_segment(2))
  obtain t where t: "elf_load 0x900000 86 s = Some (0xA01234, t)" "segment_bytes small_mem 0x900000 0x900034 t"
    using elf_load_image [OF s(1,2) small_elf_well_formed, of 86, unfolded hs entry] room by auto
  have flds: "load32 small_mem (0x900034 + 8) = 0xA00000" "load32 small_mem (0x900034 + 4) = 84"
    "load32 small_mem (0x900034 + 16) = 2" "load32 small_mem (0x900034 + 20) = 4100"
    by (simp_all add: load32_def small_mem_def small_elf_def)
  have "vload8 (0xA00000 + of_nat k) t = Some (if k < 2 then small_mem (0x900000 + 84 + of_nat k) else 0)" if "k < 4100" for k
    using t(2) that unfolding segment_bytes_def flds by simp
  from this [of 1] this [of 4099] show ?thesis using t(1) by (auto simp: small_mem_def small_elf_def)
qed

lemma FRAME_iff:
  assumes "is_page p" "unat p + 4096 \<le> 4294967296"
  shows "FRAME v = p \<longleftrightarrow> unat p \<le> unat v \<and> unat v < unat p + 4096"
proof
  assume v: "FRAME v = p"
  then show "unat p \<le> unat v \<and> unat v < unat p + 4096" using frame_offset_unat [of v] by simp
next
  assume v: "unat p \<le> unat v \<and> unat v < unat p + 4096"
  then have "unat (v - p) < 4096" by (simp add: unat_diff_u32 word_le_nat_alt less_diff_conv2)
  then show "FRAME v = p" by (rule in_frame [OF assms(1)])
qed

lemma page_range:
  assumes "is_page p" "unat p + n * 4096 < 4294967296"
  shows "(\<Union>k \<in> {..<n}. page_at (p + of_nat k * 4096)) = {v. unat p \<le> unat v \<and> unat v < unat p + n * 4096}"
proof (intro set_eqI)
  fix v :: u32
  have it: "FRAME v = p + of_nat k * 4096 \<longleftrightarrow> unat p + k * 4096 \<le> unat v \<and> unat v < unat p + k * 4096 + 4096" if "k < n" for k
    using FRAME_iff [OF is_page_add(1) [OF assms(1)], of k v] is_page_add(2) [OF assms(1), of k] that assms(2) by simp
  have "v \<in> (\<Union>k \<in> {..<n}. page_at (p + of_nat k * 4096)) \<longleftrightarrow> (\<exists>k < n. unat p + k * 4096 \<le> unat v \<and> unat v < unat p + k * 4096 + 4096)"
    using it by auto
  also have "\<dots> \<longleftrightarrow> unat p \<le> unat v \<and> unat v < unat p + n * 4096"
  proof
    assume "\<exists>k < n. unat p + k * 4096 \<le> unat v \<and> unat v < unat p + k * 4096 + 4096"
    then obtain k where k: "k < n" "unat p + k * 4096 \<le> unat v" "unat v < unat p + k * 4096 + 4096" by blast
    have "Suc k * 4096 \<le> n * 4096" using k(1) by (intro mult_le_mono1) simp
    then show "unat p \<le> unat v \<and> unat v < unat p + n * 4096" using k by simp
  next
    assume v: "unat p \<le> unat v \<and> unat v < unat p + n * 4096"
    let ?k = "(unat v - unat p) div 4096"
    have "?k < n" using v by (intro less_mult_imp_div_less) linarith
    moreover have "unat p + ?k * 4096 \<le> unat v \<and> unat v < unat p + ?k * 4096 + 4096"
      using v div_mult_mod_eq [of "unat v - unat p" 4096] mod_less_divisor [of 4096 "unat v - unat p"] by linarith
    ultimately show "\<exists>k < n. unat p + k * 4096 \<le> unat v \<and> unat v < unat p + k * 4096 + 4096" by blast
  qed
  finally show "v \<in> (\<Union>k \<in> {..<n}. page_at (p + of_nat k * 4096)) \<longleftrightarrow> v \<in> {v. unat p \<le> unat v \<and> unat v < unat p + n * 4096}"
    by simp
qed

text \<open>\<^verbatim>\<open>elf_exec\<close> with a path and eight free frames below 8 MB gives the program its 16 KB of stack
  below 3 GB, mapped on frames of its own, and returns 0 with everything mapped before unchanged; without a path it
  returns -1 and does nothing. It loads no program.\<close>

theorem elf_exec_stack:
  assumes sp: "space s V" and out: "\<forall>v \<in> V. \<not> (0xBFFFC000 \<le> v \<and> v < 0xC0000000)" and room: "8 \<le> low_frames (vpmm s)"
  shows "elf_exec 0 s = Some (-1, s) \<and> (path \<noteq> 0 \<longrightarrow> (\<exists>t. elf_exec path s = Some (0, t)
    \<and> space t (V \<union> {v. 0xBFFFC000 \<le> v \<and> v < 0xC0000000}) \<and> (\<forall>v \<in> V. vload8 v t = vload8 v s)))"
proof -
  let ?P = "\<lambda>k. page_at (0xBFFFC000 + of_nat k * 4096)"
  have area: "(\<Union>k \<in> {..<4}. ?P k) = {v. 0xBFFFC000 \<le> v \<and> v < 0xC0000000}"
    using page_range [of "0xBFFFC000" 4] by (simp add: word_le_nat_alt word_less_nat_alt)
  have "user_page (0xBFFFC000 + of_nat k * 4096)" if "k < 4" for k
    using is_page_add(2) [of "0xBFFFC000" k] that by (simp add: user_page_def word_le_nat_alt)
  then have "\<forall>k < 4. user_page (0xBFFFC000 + of_nat k * 4096) \<and> ?P k \<inter> V = {}" using out area by blast
  moreover have "?P j \<inter> ?P k = {}" if "j < 4" "k < 4" "j \<noteq> k" for j k
    by (rule pages_disjoint [of _ 4]) (use that in simp_all)
  ultimately have "\<exists>t. vm.extend_all 4 0xBFFFC000 s = Some (True, t) \<and> space t (V \<union> (\<Union>k \<in> {..<4}. ?P k))
      \<and> low_frames (vpmm s) \<le> low_frames (vpmm t) + 2 * 4 \<and> (\<forall>w \<in> V. vload8 w t = vload8 w s)"
    using vm.extend_all_pages [OF sp, of "0xBFFFC000" 4] room by simp
  then show ?thesis unfolding area by (auto simp: elf_exec_def map_stack_extend)
qed

theorem elf_exec_stack_witness: "\<exists>t. elf_exec 0x5000 small_boot = Some (0, t) \<and> space t {v. 0xBFFFC000 \<le> v \<and> v < 0xC0000000}"
  using elf_exec_stack [OF small_boot_room(1), of "0x5000"] small_boot_room(2) by simp

end
