(* ===== verification/KernelMemory.thy ===== *)
theory KernelMemory
  imports Slab Paging
begin

text \<open>
  The slab allocator with paging on. The components that keep kernel objects are modelled on physical memory, which is what the
  kernel's addresses name as long as they lie in the first 8 MB, mapped to themselves. Here \<^verbatim>\<open>slab_create\<close> of \<^verbatim>\<open>kernel/slab.c\<close>
  runs once more the way the processor does it after \<^verbatim>\<open>vmm_init\<close>, each store translated and None for a page fault: for objects that fit in a
  page the two agree, for larger ones the loop over the free list leaves the mapped memory.
\<close>

section \<open>Operations\<close>

definition kernel_view :: "u32 \<Rightarrow> kmem \<Rightarrow> vmm" where
  "kernel_view d s = \<lparr>kernel_directory = d, cr3 = d, paging = True, vmem = kmemory s, vpmm = kpmm s\<rparr>"

fun v_thread_freelist :: "nat \<Rightarrow> ptr \<Rightarrow> u32 \<Rightarrow> vmm \<Rightarrow> (ptr \<times> vmm) option" where
  "v_thread_freelist 0 obj osz s = Some (obj, s)"
| "v_thread_freelist (Suc n) obj osz s = do { s1 \<leftarrow> vstore32 obj (obj + osz) s; v_thread_freelist n (obj + osz) osz s1 }"

definition v_slab_create :: "u32 \<Rightarrow> ptr \<Rightarrow> kmem \<Rightarrow> (ptr \<times> kmem) option" where
  "v_slab_create d cache s =
     Option.bind (kmalloc SLAB_SIZE (kheap_of s)) (\<lambda>(slab, h).
       let s1 = s\<lparr>kheap_of := h\<rparr> in
       if slab = 0 then Some (0, s1)
       else case pmm_alloc_block (kpmm s1) of (phys, p) \<Rightarrow>
         let s2 = s1\<lparr>kpmm := p\<rparr> in
         if phys = 0 then Some (0, s2\<lparr>kheap_of := kfree slab h\<rparr>)
         else
           let osz = c_object_size (caches s2 cache);
               n = calculate_objects_per_slab osz
           in Option.bind (v_thread_freelist (unat (n - 1)) phys osz (kernel_view d s2)) (\<lambda>(last, v).
              Option.bind (vstore32 last 0 v) (\<lambda>v1.
                let s3 = put_slab slab \<lparr>sl_mem = phys, sl_inuse = 0, sl_objects = n, sl_freelist = phys\<rparr> (s2\<lparr>kmemory := vmem v1\<rparr>);
                    s4 = s3\<lparr>klinks := init_list_head slab (klinks s3)\<rparr>
                in Some (slab, put_cache cache ((caches s4 cache)\<lparr>c_num_slabs := c_num_slabs (caches s4 cache) + 1\<rparr>) s4))))"

section \<open>A store into a page that is no table\<close>

lemma store32_frame: "4 dvd unat p \<Longrightarrow> FRAME a \<noteq> FRAME p \<Longrightarrow> store32 p w m a = m a"
  using aligned_word_frame [of p 0] aligned_word_frame [of p 1] aligned_word_frame [of p 2] aligned_word_frame [of p 3]
  unfolding store32_def by (auto simp del: add_small_neq)

lemma v_store_word:
  fixes w :: u32
  assumes ks: "kernel_space s" and p: "4 dvd unat p" "vmm_get_physical_address p s = p" "p \<noteq> 0" "FRAME p \<notin> tables s"
  defines "t \<equiv> s\<lparr>vmem := store32 p w (vmem s)\<rparr>"
  shows "vstore32 p w s = Some t" "kernel_space t" "tables t = tables s" "vmm_get_physical_address v t = vmm_get_physical_address v s"
proof -
  have inv: "vmm_inv s" "paging s" "cr3 s = kernel_directory s" using ks by (simp_all add: kernel_space_def)
  have "translate s p = Some p" using translate_iff [OF inv p(3)] p(2) by simp
  then show "vstore32 p w s = Some t" by (simp add: vstore32_def t_def)
  have out: "store32 p w (vmem s) a = vmem s a" if "FRAME a \<in> tables s" for a
    by (rule store32_frame [OF p(1)]) (use that p(4) in auto)
  note c = change_outside_tables [OF inv(1) out, folded t_def]
  show "kernel_space t" using c(1) inv by (simp add: kernel_space_def t_def)
  show "tables t = tables s" by (rule c(2), assumption)
  show "vmm_get_physical_address v t = vmm_get_physical_address v s" by (rule c(3), assumption)
qed

section \<open>The loop inside a page and past it\<close>

lemma v_thread_page:
  assumes "kernel_space s" "self_mapped s f" "f \<notin> tables s" "4 dvd unat osz" "4 dvd unat obj"
    and "\<And>k. k < n \<Longrightarrow> FRAME (obj + of_nat k * osz) = f"
  shows "\<exists>t. v_thread_freelist n obj osz s = Some (fst (thread_freelist n obj osz (vmem s)), t)
    \<and> t = s\<lparr>vmem := snd (thread_freelist n obj osz (vmem s))\<rparr> \<and> kernel_space t \<and> self_mapped t f \<and> tables t = tables s"
  using assms(1-3,5,6)
proof (induction n arbitrary: obj s)
  case 0
  then show ?case by simp
next
  case (Suc n)
  have fr: "FRAME obj = f" using Suc.prems(5) [of 0] by simp
  have ph: "vmm_get_physical_address obj s = obj" "f \<noteq> 0" using Suc.prems(2) fr by (auto simp: self_mapped_def)
  have nz: "obj \<noteq> 0" using fr ph(2) by auto
  have nt: "FRAME obj \<notin> tables s" using Suc.prems(3) fr by simp
  note st = v_store_word [OF Suc.prems(1,4) ph(1) nz nt, where w = "obj + osz"]
  let ?t = "s\<lparr>vmem := store32 obj (obj + osz) (vmem s)\<rparr>"
  have self: "self_mapped ?t f" using Suc.prems(2) st(4) by (simp add: self_mapped_def)
  have al: "4 dvd unat (obj + osz)"
    using Suc.prems(4) assms(4) by (simp add: unat_word_ariths dvd_mod dvd_add)
  have next_frames: "FRAME (obj + osz + of_nat k * osz) = f" if "k < n" for k
    using Suc.prems(5) [of "Suc k"] that by (simp add: algebra_simps)
  have "f \<notin> tables ?t" using Suc.prems(3) st(3) by simp
  from Suc.IH [OF st(2) self this al next_frames] show ?case using st(1,3) by simp
qed

lemma frame_floor: "is_page P \<Longrightarrow> P \<le> a \<Longrightarrow> P \<le> FRAME a"
proof -
  assume P: "is_page P" "P \<le> a"
  then obtain k where k: "unat P = 4096 * k" by (auto simp: is_page_dvd elim!: dvdE)
  have "unat (FRAME a) = unat a div 4096 * 4096" unfolding frame_mask unat_and_not_mask by simp
  moreover have "k \<le> unat a div 4096" using P(2) k by (simp add: word_le_nat_alt less_eq_div_iff_mult_less_eq mult.commute)
  ultimately show "P \<le> FRAME a" using k by (simp add: word_le_nat_alt)
qed

lemma v_thread_fault:
  assumes "kernel_space s" and "\<forall>a. 0x1000 \<le> a \<and> a < 0x800000 \<longrightarrow> vmm_get_physical_address a s = a"
    and "\<forall>a \<ge> 0x800000. vmm_get_physical_address a s = 0" and "\<forall>f \<in> tables s. f < P"
    and "4 dvd unat osz" "osz < 0x80000000" and "is_page P" "0x1000 \<le> P" "P \<le> obj" "4 dvd unat obj"
    and "0 < n" "0x800000 + unat osz \<le> unat obj + n * unat osz"
  shows "v_thread_freelist n obj osz s = None"
  using assms(1-4,9-12)
proof (induction n arbitrary: obj s)
  case (Suc n)
  show ?case
  proof (cases "obj < 0x800000")
    case False
    have "FRAME (obj OR 1) = FRAME obj" by (intro bit_word_eqI) (auto simp: bit_simps)
    then have "0x800000 \<le> FRAME (obj OR 1)" using False frame_floor [of "0x800000" obj] by simp
    then have odd: "0x800000 \<le> obj OR 1" using frame_offset_unat(1) [of "obj OR 1"] by (simp add: word_le_nat_alt)
    then have "translate s obj = None" using translate_odd [OF Suc.prems(1), of obj] Suc.prems(3) by simp
    then show ?thesis by (simp add: vstore32_def)
  next
    case True
    have lo: "0x1000 \<le> obj" using Suc.prems(5) assms(8) by simp
    have "P \<le> FRAME obj" by (rule frame_floor [OF assms(7) Suc.prems(5)])
    then have nt: "FRAME obj \<notin> tables s" using Suc.prems(4) by force
    have ph: "vmm_get_physical_address obj s = obj" "obj \<noteq> 0" using Suc.prems(2) lo True by auto
    note st = v_store_word [OF Suc.prems(1,6) ph nt, where w = "obj + osz"]
    let ?t = "s\<lparr>vmem := store32 obj (obj + osz) (vmem s)\<rparr>"
    have u: "unat (obj + osz) = unat obj + unat osz"
      using True assms(6) by (intro unat_add_u32) (simp add: word_less_nat_alt)
    have al: "4 dvd unat (obj + osz)" using Suc.prems(6) assms(5) unfolding u by simp
    have room: "0x800000 + unat osz \<le> unat (obj + osz) + n * unat osz" using Suc.prems(8) unfolding u by simp
    have n: "0 < n" using Suc.prems(8) True by (cases n) (simp_all add: word_less_nat_alt)
    have "P \<le> obj + osz" using Suc.prems(5) u by (simp add: word_le_nat_alt)
    then have "v_thread_freelist n (obj + osz) osz ?t = None"
      using Suc.prems(2-4) st(3,4) by (intro Suc.IH [OF st(2) _ _ _ _ al n room]) simp_all
    then show ?thesis using st(1) by simp
  qed
qed simp

section \<open>Creating a slab\<close>

text \<open>C28: Creating a slab once paging is on, with the first 8 MB mapped to themselves, nothing above, the tables below the
  page the slab gets and the memory for it there. For objects of at most 4072 bytes \<^verbatim>\<open>slab_create\<close> runs without a page fault and
  does what it does on physical memory: the slab has \<open>4072 div\<close> the object size objects. For larger ones, such as those of the cache
  \<^verbatim>\<open>kmalloc-4096\<close> of \<^verbatim>\<open>slab_init\<close>, no object fits beside the 24 bytes reserved for the header, the loop bound
  \<^verbatim>\<open>objects - 1\<close> wraps to \<open>2 ^ 32 - 1\<close>, and the loop writes on past the page until it faults at the end of the mapped memory.\<close>

theorem slab_create_under_paging:
  assumes "kernel_space (kernel_view d s)"
    and "\<forall>a. vmm_get_physical_address a (kernel_view d s) = (if a < 0x800000 then a else 0)"
    and "kmalloc SLAB_SIZE (kheap_of s) = Some (slab, h)" "slab \<noteq> 0"
    and "pmm_alloc_block (kpmm s) = (P, p)" "P \<noteq> 0" "P < 0x800000" "\<forall>f \<in> tables (kernel_view d s). f < P"
    and "c_object_size (caches s c) = osz" "4 dvd unat osz" "osz \<noteq> 0" "osz < 0x80000000"
  shows "if osz \<le> 4072 then v_slab_create d c s = slab_create c s
      \<and> (\<exists>s'. slab_create c s = Some (slab, s') \<and> sl_objects (slabs s' slab) = 4072 div osz)
    else v_slab_create d c s = None"
proof -
  let ?v = "kernel_view d (s\<lparr>kheap_of := h, kpmm := p\<rparr>)"
  have v: "?v = (kernel_view d s)\<lparr>vpmm := p\<rparr>" by (simp add: kernel_view_def)
  have al: "pmm_alloc_block (vpmm (kernel_view d s)) = (P, p)" using assms(5) by (simp add: kernel_view_def)
  note fr = allocated_frame [OF assms(1) al, folded v]
  have inv: "vmm_inv (kernel_view d s)" using assms(1) by (simp add: kernel_space_def)
  have page: "is_page P" using pmm_alloc_page [OF vmm_inv_dir(2) [OF inv] al] by simp
  have low: "\<forall>a. 0x1000 \<le> a \<and> a < 0x800000 \<longrightarrow> vmm_get_physical_address a ?v = a" using assms(2) fr(3) by simp
  have self: "self_mapped ?v P" by (rule low_self_mapped [OF low page assms(6,7)])
  have mem: "vmem ?v = kmemory s" by (simp add: kernel_view_def)
  have P4: "4096 dvd unat P" using page by (simp add: is_page_dvd)
  then have al4: "4 dvd unat P" by (rule dvd_trans [rotated]) simp
  have n: "calculate_objects_per_slab osz = 4072 div osz" by (simp add: calculate_objects_per_slab_def)
  show ?thesis
  proof (cases "osz \<le> 4072")
    case True
    let ?n = "unat (4072 div osz - 1)"
    have un: "unat (4072 div osz) = 4072 div unat osz" by (simp add: unat_div)
    have pos: "1 \<le> 4072 div unat osz" using True assms(11) by (simp add: word_le_nat_alt less_eq_div_iff_mult_less_eq unat_gt_0)
    have n1: "?n = 4072 div unat osz - 1"
      using pos un by (subst unat_sub) (simp_all add: word_le_nat_alt)
    have in_page: "FRAME (P + of_nat k * osz) = P" if "k \<le> ?n" for k
    proof -
      have "k < 4072 div unat osz" using that n1 pos by linarith
      then have "k * unat osz \<le> 4072"
        by (metis div_times_less_eq_dividend le_trans less_imp_le mult_le_mono1)
      then have "unat (of_nat k * osz) \<le> 4072"
      proof -
        have "of_nat k * osz = of_nat (k * unat osz)" by simp
        moreover assume "k * unat osz \<le> 4072"
        ultimately show ?thesis by (simp only: unat_of_nat_u32)
      qed
      then show ?thesis by (intro FRAME_offset [OF page]) simp
    qed
    obtain t where t: "v_thread_freelist ?n P osz ?v = Some (fst (thread_freelist ?n P osz (kmemory s)), t)"
      "t = ?v\<lparr>vmem := snd (thread_freelist ?n P osz (kmemory s))\<rparr>" "kernel_space t" "self_mapped t P" "tables t = tables ?v"
      using v_thread_page [OF fr(1) self fr(4) [OF assms(6), folded fr(2)] assms(10) al4, of ?n] in_page unfolding mem by auto
    let ?l = "fst (thread_freelist ?n P osz (kmemory s))"
    have l: "?l = P + of_nat ?n * osz" by (rule thread_freelist_words(2) [OF assms(10) al4 al4])
    have lf: "FRAME ?l = P" using in_page [of ?n] l by simp
    have la: "4 dvd unat ?l" unfolding l using assms(10) al4 by (simp add: unat_word_ariths dvd_mod)
    have "vmm_get_physical_address ?l t = ?l" "?l \<noteq> 0" "FRAME ?l \<notin> tables t"
      using t(4,5) lf fr(2,4) assms(6) by (auto simp: self_mapped_def)
    note st = v_store_word [OF t(3) la this, where w = 0]
    show ?thesis
      using True assms(3-6,9) n t(1,2) st(1)
      by (auto simp: v_slab_create_def slab_create_def Let_def put_slab_def put_cache_def split_def)
  next
    case False
    have "4072 div osz = 0" using False by (simp add: word_unat_eq_iff unat_div word_le_nat_alt)
    moreover have "v_thread_freelist (unat (- 1 :: u32)) P osz ?v = None"
    proof (rule v_thread_fault [OF fr(1) low _ _ assms(10,12) page _ order_refl al4])
      show "\<forall>a \<ge> 0x800000. vmm_get_physical_address a ?v = 0" using assms(2) fr(3) by (simp add: not_less [symmetric])
      show "\<forall>f \<in> tables ?v. f < P" using assms(8) fr(2) by simp
      show "0x1000 \<le> P" using P4 assms(6) by (auto simp: word_le_nat_alt unat_gt_0 dvd_imp_le)
      have "4072 < unat osz" using False by (simp add: word_le_nat_alt)
      then have "4072 * 4294967294 \<le> unat osz * 4294967294" by (intro mult_le_mono1) simp
      then have "0x800000 + unat osz \<le> 4294967295 * unat osz" by simp
      then show "0x800000 + unat osz \<le> unat P + unat (- 1 :: u32) * unat osz" by simp
    qed simp
    ultimately show ?thesis using False assms(3-6,9) n by (simp add: v_slab_create_def Let_def)
  qed
qed

text \<open>From the state of the boot on the frames in use are the first ones.\<close>

definition first_frames :: "pmm \<Rightarrow> bool" where
  "first_frames q \<longleftrightarrow> page_inv q \<and> (\<exists>n. used_set q = {..<n})"

lemma first_frames_alloc:
  assumes "first_frames q" "pmm_alloc_block q = (a, r)"
  shows "first_frames r \<and> (a \<noteq> 0 \<longrightarrow> (\<forall>f \<in> used_pages q. f < a))"
proof -
  obtain n where n: "used_set q = {..<n}" and q: "page_inv q" using assms(1) by (auto simp: first_frames_def)
  have r: "page_inv r" using pmm_alloc_page [OF q assms(2)] by simp
  have "pmm_inv q" using q by (simp add: page_inv_def)
  then show ?thesis
  proof (cases rule: pmm_alloc_block_cases)
    case full
    then show ?thesis using assms by simp
  next
    case (got b)
    have b: "b < unat (total_blocks q)" "n \<le> b" using got(1) n by (auto simp: is_free_iff)
    have "is_free n q" using b n by (simp add: is_free_iff)
    then have bn: "b = n" using got(2) b(2) by (simp add: antisym)
    have "used_set r = {..<Suc n}" using got(4) assms(2) used_set_mark [OF b(1)] n bn by (auto simp: lessThan_Suc)
    moreover have "f < a" if f: "f \<in> used_pages q" for f
    proof -
      obtain k where k: "k < n" "f = of_nat k * 4096" using f n by (auto simp: used_pages_def)
      have "unat f = 4096 * k" "unat a = 4096 * n"
        using k got(3,4) assms(2) bn unat_block_addr [of k] unat_block_addr [of n] by auto
      then show ?thesis using k(1) by (simp add: word_less_nat_alt)
    qed
    ultimately show ?thesis using r by (auto simp: first_frames_def)
  qed
qed

lemma first_frames_map: "first_frames (vpmm s) \<Longrightarrow> first_frames (vpmm (vmm_map_page phys virt flags s))"
  using first_frames_alloc [of "vpmm s"] by (auto simp: vmm_map_page_def Let_def split: prod.split)

lemma first_frames_boot: "first_frames (vpmm small_boot)"
proof -
  have map: "first_frames (vpmm (identity_map n s))" if "first_frames (vpmm s)" for n s
    using that by (induction n) (simp_all add: identity_map_def Let_def first_frames_map)
  have pool: "first_frames small_pool" using small_pool_state(1,2) by (auto simp: first_frames_def)
  obtain d p where al: "pmm_alloc_block small_pool = (d, p)" by (cases "pmm_alloc_block small_pool")
  have "first_frames p" using first_frames_alloc [OF pool al] by simp
  then show ?thesis
    using al map by (simp add: small_boot_def vmm_init_def vmm_enable_paging_def vmm_load_directory_def Let_def)
qed

text \<open>The boot with 5 MB of frames, and two caches.\<close>

definition small_kmem :: "u32 \<Rightarrow> kmem" where
  "small_kmem osz = (put_cache 0x16000 \<lparr>c_name = [], c_object_size = osz, c_align = 4, c_flags = 0,
      c_num_objs = 0, c_num_active = 0, c_num_slabs = 0\<rparr> (boot_kmem (vmem small_boot)))\<lparr>kpmm := vpmm small_boot\<rparr>"

theorem slab_create_under_paging_witness:
  "v_slab_create 0x400000 0x16000 (small_kmem 4096) = None
    \<and> (\<exists>slab s'. v_slab_create 0x400000 0x16000 (small_kmem 2048) = Some (slab, s') \<and> sl_objects (slabs s' slab) = 1)"
proof -
  note ks = small_boot_space(1)
  have view: "kernel_view 0x400000 (small_kmem osz) = small_boot" for osz
    using ks small_boot_space(3) by (simp add: kernel_view_def small_kmem_def put_cache_def kernel_space_def)
  have inv: "vmm_inv small_boot" and pool: "page_inv (vpmm small_boot)" using ks vmm_inv_dir(2) by (auto simp: kernel_space_def)
  obtain P p where al: "pmm_alloc_block (vpmm small_boot) = (P, p)" by (cases "pmm_alloc_block (vpmm small_boot)")
  have P0: "P \<noteq> 0" using alloc_free_frames [OF pool] small_boot_space(5) al by simp
  have "P \<in> used_pages p" "unat (total_blocks p) = 1280"
    using pmm_alloc_page [OF pool al] P0 total_blocks_alloc [of "vpmm small_boot"] small_boot_space(6) al by auto
  then have low: "P < 0x800000" using used_page_low [of P p] by (simp add: word_less_nat_alt)
  have tabs: "\<forall>f \<in> tables small_boot. f < P" using first_frames_alloc [OF first_frames_boot al] P0 tables_used [OF inv] by auto
  obtain slab h where k: "kmalloc SLAB_SIZE (kheap_of (boot_kmem (vmem small_boot))) = Some (slab, h)"
    using heap.alloc_total [OF boot_kheap_inv, of SLAB_SIZE] by fastforce
  have "unat (align16 24) = 32" by (simp add: align16_def)
  then have slab: "slab \<noteq> 0" using boot_kmalloc [of 24] k by simp
  have sel: "kheap_of (small_kmem osz) = kheap_of (boot_kmem (vmem small_boot))" "kpmm (small_kmem osz) = vpmm small_boot"
    "c_object_size (caches (small_kmem osz) 0x16000) = osz" for osz
    by (simp_all add: small_kmem_def put_cache_def)
  have use: "if osz \<le> 4072 then v_slab_create 0x400000 0x16000 (small_kmem osz) = slab_create 0x16000 (small_kmem osz)
      \<and> (\<exists>s'. slab_create 0x16000 (small_kmem osz) = Some (slab, s') \<and> sl_objects (slabs s' slab) = 4072 div osz)
    else v_slab_create 0x400000 0x16000 (small_kmem osz) = None"
    if "4 dvd unat osz" "osz \<noteq> 0" "osz < 0x80000000" for osz
    by (rule slab_create_under_paging [where h = h and P = P and p = p])
      (use that ks k slab al P0 low tabs small_boot_space(2) in \<open>simp_all add: view sel\<close>)
  show ?thesis using use [of 4096] use [of 2048] by auto
qed

end
