(* ===== verification/UserProcess.thy ===== *)
theory UserProcess
  imports Process Elf
begin

text \<open>
  User processes: \<^verbatim>\<open>process_create_user\<close> of \<^verbatim>\<open>kernel/process.c\<close>. It remaps pages of the kernel's own
  address space while it runs in it, so its calls of \<^verbatim>\<open>vmm_map_page\<close> and the copy of the program are those of theory Paging,
  translated by the processor. The process record and the kernel stack lie in the kernel's memory, which is mapped to itself.
\<close>

section \<open>Creating a user process\<close>

text \<open>The frame for \<^verbatim>\<open>iret\<close>, and below it the one for \<^verbatim>\<open>switch_to_task\<close>, in the order of the pushes.\<close>

definition user_frame :: "u32 \<Rightarrow> u32 list" where
  "user_frame enter_user_mode = [0x23, 0x402000, 0x202, 0x1B, 0x400000, enter_user_mode, 0, 0, 0, 0, 0, 0, 0, 0, 0x202]"

definition put_vm :: "vmm \<Rightarrow> psys \<Rightarrow> psys" where
  "put_vm v s = s\<lparr>km := (km s)\<lparr>kmemory := vmem v, kpmm := vpmm v\<rparr>\<rparr>"

text \<open>\<open>enter_user_mode\<close> is the address of the assembly routine.\<close>

definition process_create_user :: "u32 \<Rightarrow> ptr \<Rightarrow> psys \<Rightarrow> psys option" where
  "process_create_user enter_user_mode entry_point s = do {
     (p, s1) \<leftarrow> alloc_process s;
     let s2 = (put_process p ((procs s1 p)\<lparr>pid := next_pid s1, pcr3 := vm_directory s1\<rparr>) s1)\<lparr>next_pid := next_pid s1 + 1\<rparr>;
     (kstack, h) \<leftarrow> kmalloc 4096 (kheap_of (km s2));
     let ktop = kstack + 4096;
     let s3 = put_process p ((procs s2 p)\<lparr>kernel_stack_top := ktop\<rparr>) (s2\<lparr>km := (km s2)\<lparr>kheap_of := h\<rparr>\<rparr>);
     let (phys_code, q1) = pmm_alloc_block (kpmm (km s3));
     let (phys_stack, q2) = pmm_alloc_block q1;
     v1 \<leftarrow> v_map_page phys_code 0x400000 7 ((vm_of s3)\<lparr>vpmm := q2\<rparr>);
     v2 \<leftarrow> v_map_page phys_stack 0x401000 7 v1;
     v3 \<leftarrow> v_memcpy 4096 0x400000 entry_point v2;
     let s4 = put_vm v3 s3;
     let (sp, m) = push_words (user_frame enter_user_mode) ktop (pmem s4);
     Some (enqueue p (set_memory (\<lambda>_. store32 p sp m) s4)) }"

section \<open>The user's pages\<close>

lemma or_is_add: "is_page f \<Longrightarrow> o' < 4096 \<Longrightarrow> f OR o' = f + o'"
proof -
  assume f: "is_page f" "o' < 4096"
  have "unat o' < 4096" using f(2) by (simp add: word_less_nat_alt)
  then have "unat (take_bit 12 o') = unat o'" by (simp add: unsigned_take_bit_eq take_bit_nat_eq_self)
  then have "take_bit 12 o' = o'" by (simp only: word_unat_eq_iff)
  then have o: "\<not> bit o' n" if "12 \<le> n" for n using that by (metis bit_take_bit_iff not_le)
  have "\<not> bit f n" if "n < 12" for n
  proof -
    have "bit (f AND mask 12) n \<longleftrightarrow> bit f n" using that by (auto simp: bit_simps dest: bit_imp_le_length)
    then show ?thesis using f(1) unfolding page_mask by simp
  qed
  then have "f + o' = f OR o'" using o by (intro disjunctive_add) (meson not_le)
  then show ?thesis by simp
qed

lemma word_outside_tables:
  fixes w :: u32
  assumes ks: "kernel_space s" and f: "is_page f" "f \<notin> tables s" "i < 1024"
  defines "t \<equiv> s\<lparr>vmem := set_table_word f i w (vmem s)\<rparr>"
  shows "kernel_space t" "vmm_get_physical_address v t = vmm_get_physical_address v s" "tables t = tables s"
proof -
  have out: "set_table_word f i w (vmem s) a = vmem s a" if "FRAME a \<in> tables s" for a
    by (rule set_table_word_frame [OF f(1,3)]) (use that f(2) in auto)
  have inv: "vmm_inv s" using ks by (simp add: kernel_space_def)
  note * = change_outside_tables [OF inv out, folded t_def]
  show "vmm_get_physical_address v t = vmm_get_physical_address v s" "tables t = tables s" by (rule *(3), assumption) (rule *(2), assumption)
  show "kernel_space t" using *(1) ks by (auto simp: kernel_space_def t_def)
qed

lemma user_maps:
  assumes ks: "kernel_space s" "kernel_directory s = 0x400000" "self_mapped s 0x400000"
    and tab: "pde_of s 1 AND PTE_PRESENT \<noteq> 0" "self_mapped s (FRAME (pde_of s 1))"
    and code: "self_mapped s code" "code \<notin> tables s" "load32 (vmem s) (code + 4) AND PTE_PRESENT = 0"
    and new: "pmm_alloc_block (vpmm s) = (h, q)" "h \<noteq> 0" "self_mapped s h" "h \<noteq> code"
  shows "\<exists>t1 t2. v_map_page code 0x400000 7 s = Some t1 \<and> v_map_page stack 0x401000 7 t1 = Some t2
    \<and> kernel_space t2 \<and> kernel_directory t2 = 0x400000 \<and> vpmm t2 = q \<and> tables t2 = tables s
    \<and> (\<forall>v. vmm_get_physical_address v t2 = (if FRAME v = 0x400000 then code OR (v AND 0xFFF) else vmm_get_physical_address v s))
    \<and> load32 (vmem t2) (h + 4) = FRAME stack OR 7
    \<and> (\<forall>a. FRAME a \<noteq> h \<and> FRAME a \<noteq> code \<and> FRAME a \<notin> tables s \<longrightarrow> vmem t2 a = vmem s a)"
proof -
  have inv: "vmm_inv s" using ks by (simp add: kernel_space_def)
  have ix: "pd_index 0x400000 = 1" "pd_index 0x401000 = 1" "pt_index 0x401000 = 1" by (simp_all add: pd_index_def pt_index_def)
  have cpage: "is_page code" "code \<noteq> 0" "is_page h" using code(1) new(3) by (simp_all add: self_mapped_def)
  define t1 where "t1 = vmm_map_page code 0x400000 7 s"
  have m1: "v_map_page code 0x400000 7 s = Some t1"
    unfolding t1_def by (rule v_map_page_eq) (use ks tab in \<open>simp_all add: ix\<close>)
  have pr: "pde_of s (pd_index 0x400000) AND PTE_PRESENT \<noteq> 0 \<or> fst (pmm_alloc_block (vpmm s)) \<noteq> 0" using tab(1) by (simp add: ix)
  note mem = vmm_map_page_memory [OF inv pr, where phys = code and flags = 7, folded t1_def, unfolded ix]
  have tin: "FRAME (pde_of s 1) \<in> tables s" using tab(1) by (auto simp: tables_def intro!: exI [of _ 1])
  have tabs: "tables t1 = tables s" using mem(1) tab(1) tin by auto
  have t1: "vmm_inv t1 \<and> vpmm t1 = vpmm s \<and> (\<forall>v. vmm_get_physical_address v t1 =
      (if FRAME v = 0x400000 then code OR (v AND 0xFFF) else vmm_get_physical_address v s))"
    unfolding t1_def
  proof (rule vmm_map_page_cases [OF inv, of 7 "0x400000" code], goal_cases fl oom mapped)
    case oom
    then show ?case using tab(1) by (simp add: ix)
  next
    case mapped
    then show ?case using tab(1) cpage(1) unfolding same_page_frame by (auto simp: ix)
  qed simp
  have k1: "kernel_space t1" using t1 mem(3,4,5) ks by (simp add: kernel_space_def)
  have tr: "translate t1 a = Some (code OR (a AND 0xFFF))" if "FRAME a = 0x400000" for a
  proof -
    have "code OR (a AND 0xFFF) \<noteq> 0" using FRAME_or_offset [OF cpage(1), of a] cpage(2) by auto
    then show ?thesis using translate_iff [of t1 _ a] k1 t1 that by (simp add: kernel_space_def)
  qed
  have dir: "0x400000 \<in> tables s" using ks(2) by (auto simp: tables_def)
  have out: "vmem t1 a = vmem s a" if "FRAME a \<notin> tables s" for a
  proof -
    have "FRAME a \<noteq> kernel_directory s" "FRAME a \<noteq> FRAME (pde_of s 1)" using that dir tin ks(2) by auto
    then show ?thesis using mem(2) [of a] tab(1) by simp
  qed
  have h: "h \<notin> tables s" "h \<noteq> 0x400000" using allocated_frame(4) [OF ks(1) new(1,2)] dir by auto
  have pde: "vload32 0x400004 t1 = Some (load32 (vmem s) (code + 4))"
  proof -
    have c: "FRAME (code + 4 + of_nat k) = code" if "k < 4" for k using slot_frame [OF cpage(1), of 1 k] that by simp
    have "vload8 (0x400004 + of_nat k) t1 = Some (vmem s (code + 4 + of_nat k))" if k: "k < 4" for k
    proof -
      have "k = 0 \<or> k = 1 \<or> k = 2 \<or> k = 3" using k by auto
      then have f: "FRAME (0x400004 + of_nat k) = 0x400000" "(0x400004 + of_nat k) AND 0xFFF = 4 + (of_nat k :: u32)" "4 + (of_nat k :: u32) < 4096" by auto
      have "code OR (4 + of_nat k) = code + 4 + of_nat k" using or_is_add [OF cpage(1) f(3)] by (simp add: add.assoc)
      then show ?thesis using tr [OF f(1)] out [of "code + 4 + of_nat k"] c [OF k] code(2) by (simp add: vload8_def f(2))
    qed
    from this [of 0] this [of 1] this [of 2] this [of 3] show ?thesis by (simp add: vload32_def load32_def)
  qed
  define s1 where "s1 = t1\<lparr>vpmm := q\<rparr>"
  have al1: "pmm_alloc_block (vpmm t1) = (h, q)" using t1 new(1) by simp
  note s1 = allocated_frame [OF k1 al1, folded s1_def, unfolded tabs]
  have sh: "self_mapped s1 h" using new(3) t1 h(2) by (auto simp: self_mapped_def s1(3))
  have frame: "\<forall>k < 4096. FRAME (h + of_nat k) = h" using FRAME_offset [OF cpage(3)] by (simp add: unat_of_nat_u32)
  define s2 where "s2 = s1\<lparr>vmem := memset_loop 4096 h 0 (vmem s1)\<rparr>"
  have "h \<notin> tables s1" using h(1) s1(2) by simp
  note ms = self_memset [OF s1(1) sh this frame, where b = 0, folded s2_def]
  have ms_out: "memset_loop 4096 h 0 (vmem s1) a = vmem s1 a" if "FRAME a \<in> tables s1" for a
    using that \<open>h \<notin> tables s1\<close> in_frame [OF cpage(3), of a] by (auto simp: memset_loop_apply)
  have "tables s2 = tables s1"
    unfolding s2_def by (rule change_outside_tables(2)) (use s1(1) ms_out in \<open>simp_all add: kernel_space_def\<close>)
  then have s2: "kernel_space s2" "vmm_get_physical_address v s2 = vmm_get_physical_address v t1" "tables s2 = tables s" for v
    using ms s1(2,3) by simp_all
  let ?w = "h OR PTE_PRESENT OR PTE_RW OR (7 AND PTE_USER)"
  define s3 where "s3 = s2\<lparr>vmem := set_table_word code 1 ?w (vmem s2)\<rparr>"
  have "translate s2 0x400004 = Some (code + 4)"
  proof -
    have "code OR 4 = code + 4" using or_is_add [OF cpage(1), of 4] by simp
    moreover have "code OR 4 \<noteq> 0" using FRAME_or_offset [OF cpage(1), of 4] cpage(2) by auto
    ultimately show ?thesis using translate_iff [of s2 "code + 4" "0x400004"] s2 t1 by (simp add: kernel_space_def)
  qed
  then have st3: "vstore32 0x400004 ?w s2 = Some s3" by (simp add: vstore32_def s3_def set_table_word_def)
  have "code \<notin> tables s2" using code(2) s2(3) by simp
  note s3 = word_outside_tables [OF s2(1) cpage(1) this, where i = 1 and w = "?w", folded s3_def, simplified]
  have "self_mapped s3 h" using new(3) t1 h(2) by (auto simp: self_mapped_def s3(2) s2(2))
  note st4 = self_store [OF s3(1) this, of 1 "FRAME stack OR 7"]
  define t2 where "t2 = s3\<lparr>vmem := set_table_word h 1 (FRAME stack OR 7) (vmem s3)\<rparr>"
  have "h \<notin> tables s3" using h(1) s2(3) s3(3) by simp
  note t2 = word_outside_tables [OF s3(1) cpage(3) this, where i = 1 and w = "FRAME stack OR 7", folded t2_def, simplified]
  have kd: "kernel_directory t1 = 0x400000" using mem(5) ks(2) by simp
  have "v_map_page stack 0x401000 7 t1 = Some t2"
    using pde code(3) new(1,2) ms st3 st4 t1 kd
    by (simp add: v_map_page_def ix s1_def [symmetric] t2_def Let_def)
  moreover have "vmm_get_physical_address v t2 = (if FRAME v = 0x400000 then code OR (v AND 0xFFF) else vmm_get_physical_address v s)" for v
    using t2(2) s3(2) s2(2) t1 by simp
  moreover have "kernel_directory t2 = 0x400000" "vpmm t2 = q" using kd by (simp_all add: t2_def s3_def s2_def s1_def)
  moreover have "tables t2 = tables s" using t2(3) s3(3) s2(3) by simp
  moreover have "load32 (vmem t2) (h + 4) = FRAME stack OR 7" by (simp add: t2_def set_table_word_def)
  moreover have "vmem t2 a = vmem s a" if a: "FRAME a \<noteq> h" "FRAME a \<noteq> code" "FRAME a \<notin> tables s" for a
  proof -
    have "vmem t2 a = vmem s2 a"
      unfolding t2_def s3_def using set_table_word_frame [OF cpage(3) _ a(1)] set_table_word_frame [OF cpage(1) _ a(2)] by simp
    also have "\<dots> = vmem t1 a" using in_frame [OF cpage(3), of a] a(1) by (auto simp: s2_def s1_def memset_loop_apply)
    finally show ?thesis using out [OF a(3)] by simp
  qed
  ultimately show ?thesis using m1 t2(1) by blast
qed

text \<open>Copying into the mapped page fills its frame.\<close>

lemma v_memcpy_page:
  assumes ks: "kernel_space t" and f: "is_page f" "f \<noteq> 0" "f \<notin> tables t" and pg: "is_page pg"
    and map: "\<And>a. FRAME a = pg \<Longrightarrow> vmm_get_physical_address a t = f OR (a AND 0xFFF)"
    and src: "\<And>k. k < n \<Longrightarrow> vmm_get_physical_address (src + of_nat k) t = src + of_nat k \<and> src + of_nat k \<noteq> 0 \<and> FRAME (src + of_nat k) \<noteq> f"
    and j: "j + n \<le> 4096"
  shows "\<exists>m. v_memcpy n (pg + of_nat j) src t = Some (t\<lparr>vmem := m\<rparr>) \<and> (\<forall>k < n. m (f + of_nat (j + k)) = vmem t (src + of_nat k))
    \<and> (\<forall>a. (\<forall>k < n. a \<noteq> f + of_nat (j + k)) \<longrightarrow> m a = vmem t a)"
  using ks f(3) map src j
proof (induction n arbitrary: j src t)
  case (Suc n)
  note inv = Suc.prems(1)
  have vi: "vmm_inv t" "paging t" "cr3 t = kernel_directory t" using inv by (simp_all add: kernel_space_def)
  have jb: "unat (of_nat j :: u32) = j" "j < 4096" using Suc.prems(5) by (simp_all add: unat_of_nat_u32)
  have jw: "(of_nat j :: u32) < 4096" using jb by (simp add: word_less_nat_alt)
  have fr: "FRAME (pg + of_nat j) = pg" by (rule FRAME_offset [OF pg]) (use jb in simp)
  have po: "(pg + of_nat j) AND 0xFFF = of_nat j"
  proof -
    have "of_nat j AND (0xFFF :: u32) = of_nat j" unfolding page_mask word_unat_eq_iff unat_and_mask using jb by simp
    then show ?thesis using offset_or_frame [OF pg, of "of_nat j"] or_is_add [OF pg jw] by simp
  qed
  let ?p = "f + of_nat j"
  have fp: "FRAME ?p = f" by (rule FRAME_offset [OF f(1)]) (use jb in simp)
  have "vmm_get_physical_address (pg + of_nat j) t = ?p" using Suc.prems(3) [OF fr] po or_is_add [OF f(1) jw] by simp
  moreover have "?p \<noteq> 0" using fp f(2) by auto
  ultimately have tr: "translate t (pg + of_nat j) = Some ?p" using translate_iff [OF vi] by simp
  have src0: "vmm_get_physical_address src t = src" "src \<noteq> 0" using Suc.prems(4) [of 0] by simp_all
  then have tr0: "translate t src = Some src" using translate_iff [OF vi] by simp
  let ?t = "t\<lparr>vmem := (vmem t)(?p := vmem t src)\<rparr>"
  have "FRAME ?p \<notin> tables t" using fp Suc.prems(2) by simp
  note st = store_outside_tables [OF vi(1) this, where b = "vmem t src"]
  have ks: "kernel_space ?t" using st(1) inv by (simp add: kernel_space_def)
  have sk: "src + 1 + of_nat k = src + of_nat (Suc k)" for k by simp
  have prems: "f \<notin> tables ?t" "\<And>a. FRAME a = pg \<Longrightarrow> vmm_get_physical_address a ?t = f OR (a AND 0xFFF)"
    "\<And>k. k < n \<Longrightarrow> vmm_get_physical_address (src + 1 + of_nat k) ?t = src + 1 + of_nat k \<and> src + 1 + of_nat k \<noteq> 0 \<and> FRAME (src + 1 + of_nat k) \<noteq> f"
    "Suc j + n \<le> 4096"
    using Suc.prems(2,3,5) Suc.prems(4) [of "Suc k" for k] unfolding st(2,3) sk by simp_all
  obtain m where m: "v_memcpy n (pg + of_nat (Suc j)) (src + 1) ?t = Some (?t\<lparr>vmem := m\<rparr>)"
    "\<And>k. k < n \<Longrightarrow> m (f + of_nat (Suc j + k)) = vmem ?t (src + 1 + of_nat k)"
    "\<And>a. (\<forall>k < n. a \<noteq> f + of_nat (Suc j + k)) \<Longrightarrow> m a = vmem ?t a"
    using Suc.IH [OF ks prems] by blast
  have other: "vmem ?t (src + 1 + of_nat k) = vmem t (src + 1 + of_nat k)" if k: "k < n" for k
    using prems(3) [OF k] fp by auto
  have run: "v_memcpy (Suc n) (pg + of_nat j) src t = Some (t\<lparr>vmem := m\<rparr>)"
    using tr0 tr m(1) by (simp add: vload8_def vstore8_def add.assoc add.commute [of 1])
  have ne: "f + of_nat (j + k) \<noteq> f + of_nat (j + k')" if "k < k'" "k' < Suc n" for k k'
  proof
    assume "f + of_nat (j + k) = f + of_nat (j + k')"
    then have "unat (of_nat (j + k) :: u32) = unat (of_nat (j + k') :: u32)" by simp
    then show False using that Suc.prems(5) by (simp add: unat_of_nat_u32 del: of_nat_add)
  qed
  have "m (f + of_nat (j + k)) = vmem t (src + of_nat k)" if k: "k < Suc n" for k
  proof (cases k)
    case 0
    have "m ?p = vmem ?t ?p" by (rule m(3)) (use ne [of 0 "Suc k" for k] in \<open>simp add: add.assoc\<close>)
    then show ?thesis using 0 by simp
  next
    case k': (Suc i)
    then show ?thesis using m(2) [of i] other [of i] k by (simp add: add.assoc)
  qed
  moreover have "m a = vmem t a" if "\<forall>k < Suc n. a \<noteq> f + of_nat (j + k)" for a
  proof -
    have "\<forall>k < n. a \<noteq> f + of_nat (Suc j + k)" using that by (auto dest: spec [of _ "Suc k" for k])
    moreover have "a \<noteq> ?p" using that by force
    ultimately show ?thesis using m(3) by simp
  qed
  ultimately show ?case using run by blast
next
  case 0
  then show ?case by (intro exI [of _ "vmem t"]) simp
qed

text \<open>The pushes fill the words below the stack's top.\<close>

lemma push_words_outside:
  assumes "push_words ws sp m = (sp', m')" and "4 * length ws \<le> unat sp" and "unat sp \<le> unat a \<or> unat a < unat sp - 4 * length ws"
  shows "m' a = m a"
  using assms
proof (induction ws arbitrary: sp m)
  case (Cons w ws)
  have sp: "unat (sp - 4) = unat sp - 4" using Cons.prems(2) by (subst unat_sub) (simp_all add: word_le_nat_alt)
  have "unat (sp - 4 + of_nat k) = unat sp - 4 + k" if "k < 4" for k
  proof -
    have "4 \<le> unat sp" using Cons.prems(2) by simp
    then have "unat (sp - 4) + k < 4294967296" using that sp unat_lt_two_power_32 [of sp] by linarith
    then show ?thesis using sp by (simp add: unat_add_of_nat)
  qed
  from this [of 0] this [of 1] this [of 2] this [of 3]
  have "a \<noteq> sp - 4" "a \<noteq> sp - 4 + 1" "a \<noteq> sp - 4 + 2" "a \<noteq> sp - 4 + 3" using Cons.prems(2,3) by auto
  then have "store32 (sp - 4) w m a = m a" unfolding store32_def by simp
  moreover have "4 * length ws \<le> unat (sp - 4)" "unat (sp - 4) \<le> unat a \<or> unat a < unat (sp - 4) - 4 * length ws"
    using Cons.prems(2,3) sp by auto
  ultimately show ?case using Cons.IH [of "sp - 4" "store32 (sp - 4) w m"] Cons.prems(1) by simp
qed simp

lemma user_stack_room:
  assumes "heap_inv h bs"
  obtains kstack h' where "kmalloc 4096 h = Some (kstack, h')" "4096 \<le> unat (kstack + 4096)" "unat (kstack + 4096) \<le> ARENA_END"
proof -
  obtain p h' bs' where a: "kmalloc 4096 h = Some (p, h')" "heap_inv h' bs'"
    "if p = 0 then h' = h \<and> bs' = bs
     else \<exists>n. live ARENA_START bs' = insert (unat p, n) (live ARENA_START bs)
       \<and> (unat (4096 :: u32) < 2 ^ 32 - 15 \<longrightarrow> unat (4096 :: u32) \<le> n)
       \<and> (\<forall>(q, j) \<in> live ARENA_START bs. q + j < unat p \<or> unat p + n < q)"
    using heap.alloc_total [OF assms, of 4096] by blast
  show ?thesis
  proof (cases "p = 0")
    case False
    then obtain n where "(unat p, n) \<in> live ARENA_START bs'" "4096 \<le> n" using a(3) by auto
    then have "unat p + 4096 \<le> ARENA_END" using heap_live_range [OF a(2)] by fastforce
    then show ?thesis using that [OF a(1)] by (simp add: unat_add_u32)
  qed (use that [OF a(1)] in simp)
qed

text \<open>C36: The boot code gives the page directory the frame at 0x400000. When \<^verbatim>\<open>process_create_user\<close> maps the
  program's page there, the pointer to the directory leads to the program's frame from then on: the mapping of the stack page
  takes a frame for a new table, writes its directory entry into the program's frame, where the copy of the program then replaces
  it, and the entry of the stack into the new table, which no directory holds. So in the address space the processor uses nothing has
  changed but the page 0x400000, and the page 0x401000 of the stack is the kernel's as before. This is for a call in the kernel's
  first 8 MB mapped to themselves with the tables above 4 MB, frames left, a program image below 4 MB, and the second word of the
  frame the program gets, which nobody has cleared, not looking like a present entry.\<close>

theorem user_stack_not_mapped:
  assumes al: "alloc_process s = Some (p, s1)" and heap: "heap_inv (kheap_of (km s1)) bs"
    and frames: "pmm_alloc_block (kpmm (km s1)) = (code, q1)" "pmm_alloc_block q1 = (stack, q2)" "pmm_alloc_block q2 = (tb, q3)"
      "code \<noteq> 0" "tb \<noteq> 0" "code < 0x800000" "tb < 0x800000" "low_used (kpmm (km s1))"
    and sp: "space (vm_of s1) {}" "vm_directory s1 = 0x400000" "\<forall>f \<in> tables (vm_of s1). 0x400000 \<le> f"
    and word: "load32 (pmem s1) (code + 4) AND PTE_PRESENT = 0"
    and p: "FRAME p \<in> used_pages (kpmm (km s1))" "FRAME p \<notin> tables (vm_of s1)" "4 dvd unat p"
    and src: "0x1000 \<le> unat entry_point" "unat entry_point + 4096 \<le> 0x400000"
  shows "\<exists>s'. process_create_user enter_user_mode entry_point s = Some s'
    \<and> (\<forall>v. translate (vm_of s') v = (if FRAME v = 0x400000 then Some (code OR (v AND 0xFFF)) else translate (vm_of s1) v))
    \<and> (\<forall>k < 4096. pmem s' (code + of_nat k) = pmem s1 (entry_point + of_nat k))
    \<and> kpmm (km s') = q3 \<and> load32 (pmem s') (tb + 4) = FRAME stack OR 7 \<and> tb \<notin> tables (vm_of s')"
proof -
  let ?v = "vm_of s1"
  let ?u = "?v\<lparr>vpmm := q2\<rparr>"
  note k = space_kernel [OF sp(1)]
  have pools: "page_inv (kpmm (km s1))" "page_inv q1" "page_inv q2"
    and pages: "is_page code" "is_page tb" "code \<notin> used_pages (kpmm (km s1))" "tb \<notin> used_pages q2" "code \<in> used_pages q2"
      "used_pages (kpmm (km s1)) \<subseteq> used_pages q2"
    using vmm_inv_dir(2) [OF k(2)] pmm_alloc_page [of "kpmm (km s1)" code q1] pmm_alloc_page [of q1 stack q2] pmm_alloc_page [of q2 tb q3] frames
    by (auto simp: vm_of_def)
  have al1: "pmm_alloc_block (vpmm ?v) = (code, q1)" "pmm_alloc_block (vpmm (?v\<lparr>vpmm := q1\<rparr>)) = (stack, q2)"
    using frames(1,2) by (simp_all add: vm_of_def)
  have above: "0x400000 \<le> code" "0x400000 \<le> tb"
    using frames(8) pages(1-4,6) by (auto simp: low_used_def is_page_dvd word_le_nat_alt not_less [symmetric] subset_iff)
  note a1 = allocated_frame [OF k(1) al1(1)]
  note a2 = allocated_frame [OF a1(1) al1(2), unfolded a1(2,3), simplified]
  have ct: "code \<notin> tables ?v" using a1(4) frames(4) by blast
  have self: "self_mapped ?u f" if "is_page f" "f \<noteq> 0" "f < 0x800000" for f
    by (rule low_self_mapped [OF _ that]) (use k(5) a2(3) in simp)
  have dir: "self_mapped ?u 0x400000" by (rule self) simp_all
  have ptab: "pde_of ?v 1 AND PTE_PRESENT \<noteq> 0"
  proof
    assume "pde_of ?v 1 AND PTE_PRESENT = 0"
    then have "vmm_get_physical_address 0x400000 ?v = 0" by (simp add: vmm_get_physical_address_def pd_index_def)
    moreover have "vmm_get_physical_address 0x400000 ?v = 0x400000" using k(5) by simp
    ultimately show False by simp
  qed
  have tin: "FRAME (pde_of ?v 1) \<in> tables ?v" using ptab by (auto simp: tables_def intro!: exI [of _ 1])
  have tself: "self_mapped ?u (FRAME (pde_of ?v 1))" using k(8) [OF tin] a2(3) by (simp add: self_mapped_def)
  have u: "kernel_directory ?u = 0x400000" "vmem ?u = pmem s1" using sp(2) by (simp_all add: vm_of_def)
  have upde: "pde_of ?u 1 = pde_of ?v 1" by (simp add: vm_of_def)
  have uw: "load32 (vmem ?u) (code + 4) AND PTE_PRESENT = 0" using word u(2) by simp
  have ual: "pmm_alloc_block (vpmm ?u) = (tb, q3)" using frames(3) by simp
  have ne: "tb \<noteq> code" using pages(4,5) by auto
  have ucode: "code \<notin> tables ?u" using ct a2(2) by simp
  note maps = user_maps [OF a2(1) u(1) dir ptab [folded upde] tself [folded upde] self [OF pages(1) frames(4,6)] ucode uw
      ual frames(5) self [OF pages(2) frames(5,7)] ne, of stack]
  obtain t1 t2 where t: "v_map_page code 0x400000 7 ?u = Some t1" "v_map_page stack 0x401000 7 t1 = Some t2"
    "kernel_space t2" "kernel_directory t2 = 0x400000" "vpmm t2 = q3" "tables t2 = tables ?v"
    "\<And>v. vmm_get_physical_address v t2 = (if FRAME v = 0x400000 then code OR (v AND 0xFFF) else vmm_get_physical_address v ?v)"
    "load32 (vmem t2) (tb + 4) = FRAME stack OR 7"
    "\<And>a. FRAME a \<noteq> tb \<Longrightarrow> FRAME a \<noteq> code \<Longrightarrow> FRAME a \<notin> tables ?v \<Longrightarrow> vmem t2 a = pmem s1 a"
    using maps unfolding a2(2) a2(3) u(2) by blast
  have code2: "code \<notin> tables t2" using ct t(6) by simp
  have pos: "unat (entry_point + of_nat i) = unat entry_point + i" if "i < 4096" for i
    using src that by (simp add: unat_add_of_nat)
  have low: "FRAME a \<noteq> f" if "unat a < 0x400000" "0x400000 \<le> f" for a f :: u32
    using that frame_offset_unat(1) [of a] by (auto simp: word_le_nat_alt)
  have sframe: "FRAME (entry_point + of_nat i) \<noteq> f" if "i < 4096" "0x400000 \<le> f" for i f
    using low pos [OF that(1)] that src(2) by simp
  have smap: "vmm_get_physical_address (entry_point + of_nat i) t2 = entry_point + of_nat i \<and> entry_point + of_nat i \<noteq> 0
      \<and> FRAME (entry_point + of_nat i) \<noteq> code" if i: "i < 4096" for i
  proof -
    have "0x1000 \<le> entry_point + of_nat i" "entry_point + of_nat i < 0x800000"
      using pos [OF i] src i by (simp_all add: word_le_nat_alt word_less_nat_alt)
    then show ?thesis using k(5) t(7) sframe [OF i] above(1) by (auto simp: word_le_nat_alt)
  qed
  obtain m where m: "v_memcpy 4096 0x400000 entry_point t2 = Some (t2\<lparr>vmem := m\<rparr>)"
    "\<And>i. i < 4096 \<Longrightarrow> m (code + of_nat i) = vmem t2 (entry_point + of_nat i)"
    "\<And>a. (\<forall>i < 4096. a \<noteq> code + of_nat i) \<Longrightarrow> m a = vmem t2 a"
    using v_memcpy_page [OF t(3) pages(1) frames(4) code2 _ _ smap, of "0x400000" 4096 0] t(7) by auto
  obtain kstack h where kst: "kmalloc 4096 (kheap_of (km s1)) = Some (kstack, h)" "4096 \<le> unat (kstack + 4096)" "unat (kstack + 4096) \<le> ARENA_END"
    by (rule user_stack_room [OF heap])
  obtain top m1 where fr: "push_words (user_frame enter_user_mode) (kstack + 4096) m = (top, m1)" by (rule prod.exhaust)
  define M where "M = store32 p top m1"
  have M: "M a = m a" if "0x400000 \<le> unat a" "FRAME a \<noteq> FRAME p" for a
  proof -
    have "FRAME (p + of_nat i) = FRAME p" if "i < 4" for i :: nat
      by (rule aligned_word_frame) (use p(3) that in simp_all)
    from this [of 0] this [of 1] this [of 2] this [of 3] have "M a = m1 a"
      unfolding M_def store32_def using that(2) by (auto simp del: add_small_neq)
    also have "\<dots> = m a" by (rule push_words_outside [OF fr]) (use kst(2,3) that(1) in \<open>simp_all add: user_frame_def\<close>)
    finally show ?thesis .
  qed
  have high: "0x400000 \<le> unat a" if "FRAME a = f" "0x400000 \<le> f" for a f :: u32
    using that frame_offset_unat(1) [of a] by (auto simp: word_le_nat_alt)
  have out: "m a = vmem t2 a" if "FRAME a \<noteq> code" for a
  proof (rule m(3), intro allI impI notI)
    fix i :: nat assume "i < 4096" "a = code + of_nat i"
    then show False using FRAME_offset [OF pages(1), of "of_nat i"] that by (simp add: unat_of_nat_u32)
  qed
  have tabs: "M a = vmem t2 a" if "FRAME a \<in> tables t2" for a
  proof -
    have "FRAME a \<noteq> FRAME p" "FRAME a \<noteq> code" "0x400000 \<le> FRAME a" using that sp(3) p(2) code2 unfolding t(6) by auto
    then show ?thesis using M [of a] high [of a "FRAME a"] out [of a] by simp
  qed
  define w where "w = t2\<lparr>vmem := M\<rparr>"
  have inv2: "vmm_inv t2" using t(3) by (simp add: kernel_space_def)
  note w = change_outside_tables [OF inv2 tabs, folded w_def]
  have kw: "kernel_space w" using w(1) t(3) by (simp add: kernel_space_def w_def)
  obtain s' where s': "process_create_user enter_user_mode entry_point s = Some s'" "vm_of s' = w"
  proof -
    have w_eq: "w = \<lparr>kernel_directory = vm_directory s1, cr3 = vm_cr3 s1, paging = True, vmem = M, vpmm = q3\<rparr>"
      using t(3,4,5) k(4) sp(2) by (simp add: w_def kernel_space_def vm_of_def)
    show ?thesis
      using al kst(1) frames(1,2) t(1,2) m(1) fr
      by (intro that) (auto simp: process_create_user_def put_process_def put_vm_def Let_def enqueue_def set_links_def set_memory_def
          vm_of_def w_eq M_def t(5))
  qed
  have "translate w v = (if FRAME v = 0x400000 then Some (code OR (v AND 0xFFF)) else translate ?v v)" for v
  proof -
    have odd: "FRAME (v OR 1) = FRAME v" "(v OR 1) AND 0xFFF = (v AND 0xFFF) OR 1" by (auto intro!: bit_word_eqI simp: bit_simps)
    have "FRAME (code OR ((v AND 0xFFF) OR 1)) = code" using FRAME_or_offset [OF pages(1), of "v OR 1"] odd(2) by simp
    moreover from this have "code OR ((v AND 0xFFF) OR 1) \<noteq> 0" using frames(4) by auto
    moreover have "vmm_get_physical_address (v OR 1) w
        = (if FRAME v = 0x400000 then code OR ((v AND 0xFFF) OR 1) else vmm_get_physical_address (v OR 1) ?v)"
      using w(3) [of "v OR 1"] t(7) [of "v OR 1"] odd by simp
    ultimately show ?thesis unfolding translate_odd [OF kw] translate_odd [OF k(1)] Let_def by simp
  qed
  moreover have "M (code + of_nat i) = pmem s1 (entry_point + of_nat i)" if i: "i < 4096" for i
  proof -
    have c: "FRAME (code + of_nat i) = code" by (rule FRAME_offset [OF pages(1)]) (use i in \<open>simp add: unat_of_nat_u32\<close>)
    have "code \<noteq> FRAME p" using p(1) pages(3) by auto
    then have "M (code + of_nat i) = m (code + of_nat i)" using M [of "code + of_nat i"] high [OF c above(1)] c by simp
    also have "\<dots> = pmem s1 (entry_point + of_nat i)"
      using m(2) [OF i] t(9) [of "entry_point + of_nat i"] sframe [OF i] above sp(3) by auto
    finally show ?thesis .
  qed
  moreover have "load32 M (tb + 4) = FRAME stack OR 7"
  proof -
    have "M (tb + 4 + of_nat i) = vmem t2 (tb + 4 + of_nat i)" if i: "i < 4" for i
    proof -
      have c: "FRAME (tb + 4 + of_nat i) = tb" using slot_frame [OF pages(2), of 1 i] i by simp
      have "tb \<noteq> FRAME p" using p(1) pages(4,6) by auto
      then have "M (tb + 4 + of_nat i) = m (tb + 4 + of_nat i)" using M [of "tb + 4 + of_nat i"] high [OF c above(2)] c by simp
      then show ?thesis using out [of "tb + 4 + of_nat i"] c ne by simp
    qed
    from this [of 0] this [of 1] this [of 2] this [of 3] have "load32 M (tb + 4) = load32 (vmem t2) (tb + 4)"
      by (simp add: load32_def)
    then show ?thesis using t(8) by simp
  qed
  moreover have "tb \<notin> tables w" using tables_used [OF k(2)] pages(4,6) w(2) t(6) by (auto simp: vm_of_def)
  moreover have "kpmm (km s') = vpmm w" "pmem s' = vmem w" using s'(2) by (auto simp: vm_of_def)
  moreover have "vpmm w = q3" "vmem w = M" using t(5) by (simp_all add: w_def)
  ultimately show ?thesis using s' by auto
qed

text \<open>A machine with 5 MB of frames after the boot, whose slab of processes got the next frame; the frame the program gets is empty.\<close>

theorem user_stack_not_mapped_witness:
  "\<exists>s s' code. process_create_user 0x10100 0x10000 s = Some s' \<and> translate (vm_of s') 0x400123 = Some (code OR 0x123)
     \<and> translate (vm_of s') 0x401000 = Some 0x401000"
proof -
  let ?b = "vpmm small_boot"
  note ks = small_boot_space(1)
  have inv: "vmm_inv small_boot" and pool: "page_inv ?b" using ks vmm_inv_dir(2) by (auto simp: kernel_space_def)
  obtain pg r where al0: "pmm_alloc_block ?b = (pg, r)" by (cases "pmm_alloc_block ?b")
  obtain code q1 where al1: "pmm_alloc_block r = (code, q1)" by (cases "pmm_alloc_block r")
  obtain stack q2 where al2: "pmm_alloc_block q1 = (stack, q2)" by (cases "pmm_alloc_block q1")
  obtain tb q3 where al3: "pmm_alloc_block q2 = (tb, q3)" by (cases "pmm_alloc_block q2")
  have p0: "pg \<noteq> 0" "free_frames r = free_frames ?b - 1" using alloc_free_frames [OF pool] small_boot_space(5) al0 by auto
  have i1: "page_inv r" "is_page pg" "used_pages r = insert pg (used_pages ?b)" using pmm_alloc_page [OF pool al0] p0(1) by auto
  have p1: "code \<noteq> 0" "free_frames q1 = free_frames r - 1" using alloc_free_frames [OF i1(1)] small_boot_space(5) p0(2) al1 by auto
  have i2: "page_inv q1" "is_page code" "code \<notin> used_pages r" "used_pages q1 = insert code (used_pages r)" using pmm_alloc_page [OF i1(1) al1] p1(1) by auto
  have p2: "stack \<noteq> 0" "free_frames q2 = free_frames q1 - 1" using alloc_free_frames [OF i2(1)] small_boot_space(5) p0(2) p1(2) al2 by auto
  have i3: "page_inv q2" using pmm_alloc_page [OF i2(1) al2] by simp
  have p3: "tb \<noteq> 0" using alloc_free_frames [OF i3] small_boot_space(5) p0(2) p1(2) p2(2) al3 by auto
  have tb: "used_pages q3 = insert tb (used_pages q2)" using pmm_alloc_page [OF i3 al3] p3 by simp
  have tot: "unat (total_blocks q1) = 1280" "unat (total_blocks q3) = 1280"
    using total_blocks_alloc [of ?b] total_blocks_alloc [of r] total_blocks_alloc [of q1] total_blocks_alloc [of q2] small_boot_space(6) al0 al1 al2 al3
    by simp_all
  have bound: "code < 0x800000" "tb < 0x800000"
    using used_page_low [OF _ tot(1), of code] used_page_low [OF _ tot(2), of tb] i2(4) tb by (auto simp: word_less_nat_alt)
  note a0 = allocated_frame [OF ks al0]
  have al1': "pmm_alloc_block (vpmm (small_boot\<lparr>vpmm := r\<rparr>)) = (code, q1)" using al1 by simp
  note a1 = allocated_frame [OF a0(1) al1']
  define m where "m = set_table_word code 1 0 (vmem small_boot)"
  define v where "v = small_boot\<lparr>vpmm := r, vmem := m\<rparr>"
  note w = word_outside_tables [OF a0(1) i2(2) a1(4) [OF p1(1)], where i = 1 and w = 0, simplified, folded m_def v_def, unfolded a0(2,3)]
  have "space small_boot {}" by (rule small_boot_room)
  then have sp: "space v {}" using w by (simp add: space_def)
  define K where "K = (km idle_psys)\<lparr>kpmm := r, kmemory := m, slabs := (\<lambda>_. \<lparr>sl_mem = pg, sl_inuse = 1, sl_objects = 19, sl_freelist = pg\<rparr>)\<rparr>"
  define s where "s = idle_psys\<lparr>vm_directory := 0x400000, vm_cr3 := 0x400000, km := K\<rparr>"
  obtain s1 where s1: "alloc_process s = Some (pg, s1)" "kpmm (km s1) = r" "pmem s1 = m" "vm_directory s1 = 0x400000" "vm_cr3 s1 = 0x400000"
    "kheap_of (km s1) = boot_kheap (\<lambda>_. \<lparr>hb_size = 0, hb_is_free = True, hb_next = 0\<rparr>)"
  proof -
    have "\<exists>k. kmem_cache_alloc (process_cache s) (km s) = Some (pg, k) \<and> kpmm k = r \<and> kmemory k = m \<and> kheap_of k = kheap_of K"
      using p0(1) by (simp add: s_def K_def idle_psys_def two_procs_def kmem_cache_alloc_def slab_take_def list_empty_def list_op_defs
          put_slab_def put_cache_def Let_def boot_kmem_def memset_def)
    moreover have "kheap_of K = boot_kheap (\<lambda>_. \<lparr>hb_size = 0, hb_is_free = True, hb_next = 0\<rparr>)" by (simp add: K_def idle_psys_def)
    ultimately obtain k where "kmem_cache_alloc (process_cache s) (km s) = Some (pg, k)" "kpmm k = r" "kmemory k = m"
      "kheap_of k = boot_kheap (\<lambda>_. \<lparr>hb_size = 0, hb_is_free = True, hb_next = 0\<rparr>)" by auto
    then show ?thesis using p0(1)
      by (intro that) (auto simp: alloc_process_def put_process_def set_links_def s_def)
  qed
  have vm: "vm_of s1 = v" using ks small_boot_space(3) by (simp add: vm_of_def s1 v_def kernel_space_def)
  have heap: "heap_inv (kheap_of (km s1)) [(0xFFFF4, True)]" unfolding s1(6) by (rule boot_kheap_inv)
  have low: "low_used r" using small_boot_high(1) i1(3) by (auto simp: low_used_def)
  have tabs: "\<forall>f \<in> tables (vm_of s1). 0x400000 \<le> f" using small_boot_high(2) w(3) vm by simp
  have pgt: "FRAME pg \<notin> tables (vm_of s1)" using a0(4) [OF p0(1)] w(3) vm i1(2) by (simp add: FRAME_page)
  have word: "load32 (pmem s1) (code + 4) AND PTE_PRESENT = 0" by (simp add: s1(3) m_def set_table_word_def)
  have "4096 dvd unat pg" using i1(2) by (simp add: is_page_dvd)
  then have al4: "4 dvd unat pg" by (rule dvd_trans [rotated]) simp
  obtain s' where s': "process_create_user 0x10100 0x10000 s = Some s'"
    "\<And>v. translate (vm_of s') v = (if FRAME v = 0x400000 then Some (code OR (v AND 0xFFF)) else translate (vm_of s1) v)"
    using user_stack_not_mapped [OF s1(1) heap, unfolded s1(2,4), OF al1 al2 al3 p1(1) p3 bound low _ refl tabs word _ pgt al4,
        of "0x10000" "0x10100"] sp vm i1(2,3) by (auto simp: FRAME_page is_page_dvd)
  have "kernel_space v" using sp by (simp add: space_def)
  then have "translate (vm_of s1) 0x401000 = Some 0x401000"
    unfolding vm using w(2) small_boot_space(2) by (simp add: translate_odd)
  then show ?thesis using s' by (intro exI [of _ s] exI [of _ s'] exI [of _ code]) simp
qed

end
