(* ===== verification/Syscall.thy ===== *)
theory Syscall
  imports UserProcess Vfs Console
begin

text \<open>
  The system calls, \<^verbatim>\<open>kernel/syscall.c\<close>, and the C library's stubs that make them,
  \<^verbatim>\<open>userspace/newlib_stubs.c\<close>. The kernel's state joins those of the processes, the file
  descriptors and the log; the heap that the file descriptors use is the one of the slab allocator, and
  the loader works on the memory and the frames of the processes. \<open>rw\<close> and \<open>cl\<close> are the operations of
  files, as in theory Vfs. None is a page fault or a loop that does not end. A call that switches to another process is
  marked \<open>Switched\<close>: the rest of the handler runs when the process is resumed.
\<close>

section \<open>State\<close>

record registers =
  r_edi :: u32
  r_esi :: u32
  r_ebp :: u32
  r_esp :: u32
  r_ebx :: u32
  r_edx :: u32
  r_ecx :: u32
  r_eax :: u32
  r_eip :: u32
  r_cs :: u32
  r_eflags :: u32
  r_user_esp :: u32
  r_user_ss :: u32

record 'e ksys =
  ps :: psys
  fds_of :: "'e vfs"
  heap_end :: u32
  klog_of :: klog

type_synonym 'e file_rw = "ptr \<Rightarrow> ptr \<Rightarrow> ptr \<Rightarrow> u32 \<Rightarrow> 'e vfs \<Rightarrow> int \<times> 'e vfs"
type_synonym 'e file_cl = "ptr \<Rightarrow> ptr \<Rightarrow> 'e vfs \<Rightarrow> 'e vfs"

text \<open>The descriptor table with the kernel's heap in the place of its own, and back.\<close>

definition vfs_view :: "'e ksys \<Rightarrow> 'e vfs" where
  "vfs_view s = (fds_of s)\<lparr>vheap := kheap_of (km (ps s))\<rparr>"

definition put_vfs :: "'e vfs \<Rightarrow> 'e ksys \<Rightarrow> 'e ksys" where
  "put_vfs v s = s\<lparr>fds_of := v\<lparr>vheap := vheap (fds_of s)\<rparr>, ps := (ps s)\<lparr>km := (km (ps s))\<lparr>kheap_of := vheap v\<rparr>\<rparr>\<rparr>"

text \<open>The memory and the frames, for the loader, and back.\<close>

definition put_vmm :: "vmm \<Rightarrow> 'e ksys \<Rightarrow> 'e ksys" where
  "put_vmm v s = s\<lparr>ps := put_vm v (ps s)\<rparr>"

section \<open>The calls\<close>

abbreviation SYS_EXIT :: u32 where "SYS_EXIT \<equiv> 1"
abbreviation SYS_FORK :: u32 where "SYS_FORK \<equiv> 2"
abbreviation SYS_READ :: u32 where "SYS_READ \<equiv> 3"
abbreviation SYS_WRITE :: u32 where "SYS_WRITE \<equiv> 4"
abbreviation SYS_OPEN :: u32 where "SYS_OPEN \<equiv> 5"
abbreviation SYS_CLOSE :: u32 where "SYS_CLOSE \<equiv> 6"
abbreviation SYS_WAITPID :: u32 where "SYS_WAITPID \<equiv> 7"
abbreviation SYS_EXECVE :: u32 where "SYS_EXECVE \<equiv> 11"
abbreviation SYS_GETPID :: u32 where "SYS_GETPID \<equiv> 20"
abbreviation SYS_KILL :: u32 where "SYS_KILL \<equiv> 37"
abbreviation SYS_BRK :: u32 where "SYS_BRK \<equiv> 45"

text \<open>The messages of the handler; they have no strings among their arguments.\<close>

definition sys_log :: "u8 list \<Rightarrow> u32 list \<Rightarrow> 'e ksys \<Rightarrow> 'e ksys option" where
  "sys_log fmt args s = (case vprintk (\<lambda>_. []) fmt args (klog_of s) of Inl e \<Rightarrow> None | Inr l \<Rightarrow> Some (s\<lparr>klog_of := l\<rparr>))"

definition sys_exit :: "int \<Rightarrow> 'e ksys \<Rightarrow> (control \<times> 'e ksys) option" where
  "sys_exit status s =
     (let n = pid (procs (ps s) (current_process (ps s))) in
      Option.bind (sys_log (lit ''<6>Process %d exiting with status %d'' @ [10]) [n, word_of_int status] s) (\<lambda>s1.
      Option.bind (process_kill n (ps s1)) (\<lambda>(_, r, p).
        if r = Switched then Some (Switched, s1\<lparr>ps := p\<rparr>)
        else Option.bind (schedule p) (\<lambda>(r2, p2). Some (r2, s1\<lparr>ps := p2\<rparr>)))))"

definition sys_fork :: "'e ksys \<Rightarrow> (int \<times> 'e ksys) option" where
  "sys_fork s = Option.bind (process_fork (ps s)) (\<lambda>(n, p). Some (n, s\<lparr>ps := p\<rparr>))"

definition sys_read :: "'e file_rw \<Rightarrow> int \<Rightarrow> ptr \<Rightarrow> u32 \<Rightarrow> 'e ksys \<Rightarrow> int \<times> 'e ksys" where
  "sys_read rw fd buf count s = (case vfs_read rw fd buf count (vfs_view s) of (n, v) \<Rightarrow> (n, put_vfs v s))"

text \<open>Standard output goes to the log, a character to a message; a \<^verbatim>\<open>char\<close> is signed.\<close>

definition print_char :: "u8 \<Rightarrow> klog \<Rightarrow> klog option" where
  "print_char c l = (case vprintk (\<lambda>_. []) (lit ''<6>%c'') [scast c] l of Inl e \<Rightarrow> None | Inr l' \<Rightarrow> Some l')"

fun write_console :: "nat \<Rightarrow> ptr \<Rightarrow> 'e ksys \<Rightarrow> 'e ksys option" where
  "write_console 0 buf s = Some s"
| "write_console (Suc n) buf s =
     Option.bind (vload8 buf (vm_of (ps s))) (\<lambda>c. Option.bind (print_char c (klog_of s)) (\<lambda>l.
       write_console n (buf + 1) (s\<lparr>klog_of := l\<rparr>)))"

definition sys_write :: "'e file_rw \<Rightarrow> int \<Rightarrow> ptr \<Rightarrow> u32 \<Rightarrow> 'e ksys \<Rightarrow> (int \<times> 'e ksys) option" where
  "sys_write rw fd buf count s =
     (if fd = 1 then Option.bind (write_console (unat count) buf s) (\<lambda>s1. Some (sint count, s1))
      else case vfs_write rw fd buf count (vfs_view s) of (n, v) \<Rightarrow> Some (n, put_vfs v s))"

definition sys_open :: "ptr \<Rightarrow> u32 \<Rightarrow> 'e ksys \<Rightarrow> (int \<times> 'e ksys) option" where
  "sys_open path flags s = Option.bind (vfs_open path flags (vfs_view s)) (\<lambda>(n, v). Some (n, put_vfs v s))"

definition sys_close :: "'e file_cl \<Rightarrow> int \<Rightarrow> 'e ksys \<Rightarrow> int \<times> 'e ksys" where
  "sys_close cl fd s = (case vfs_close cl fd (vfs_view s) of (n, v) \<Rightarrow> (n, put_vfs v s))"

definition sys_waitpid :: "int \<Rightarrow> ptr \<Rightarrow> int \<Rightarrow> 'e ksys \<Rightarrow> (int \<times> control \<times> 'e ksys) option" where
  "sys_waitpid n status options s = Option.bind (process_wait (ps s)) (\<lambda>(v, r, p). Some (v, r, s\<lparr>ps := p\<rparr>))"

definition sys_execve :: "ptr \<Rightarrow> ptr \<Rightarrow> ptr \<Rightarrow> 'e ksys \<Rightarrow> (int \<times> 'e ksys) option" where
  "sys_execve path argv envp s = Option.bind (elf_exec path (vm_of (ps s))) (\<lambda>(n, v). Some (n, put_vmm v s))"

definition sys_getpid :: "'e ksys \<Rightarrow> int" where
  "sys_getpid s = (let cur = current_process (ps s) in if cur \<noteq> 0 then sint (pid (procs (ps s) cur)) else 0)"

definition sys_brk :: "ptr \<Rightarrow> 'e ksys \<Rightarrow> int \<times> 'e ksys" where
  "sys_brk addr s =
     (if addr = 0 then (sint (heap_end s), s)
      else if addr < 0x80000000 \<or> addr > 0xC0000000 then (-1, s)
      else let s1 = s\<lparr>heap_end := addr\<rparr> in (sint (heap_end s1), s1))"

section \<open>The handler\<close>

definition returns :: "int \<times> 'e ksys \<Rightarrow> (int \<times> control \<times> 'e ksys) option" where
  "returns r = Some (fst r, Returned, snd r)"

text \<open>The call the registers ask for: its result, unless it has switched away.\<close>

definition syscall_dispatch :: "'e file_rw \<Rightarrow> 'e file_cl \<Rightarrow> registers \<Rightarrow> 'e ksys \<Rightarrow> (int \<times> control \<times> 'e ksys) option" where
  "syscall_dispatch rw cl regs s =
     (let num = r_eax regs; arg1 = r_ebx regs; arg2 = r_ecx regs; arg3 = r_edx regs in
      if num = SYS_EXIT then Option.bind (sys_exit (sint arg1) s) (\<lambda>(r, s1). Some (-1, r, s1))
      else if num = SYS_FORK then Option.bind (sys_fork s) returns
      else if num = SYS_READ then returns (sys_read rw (sint arg1) arg2 arg3 s)
      else if num = SYS_WRITE then Option.bind (sys_write rw (sint arg1) arg2 arg3 s) returns
      else if num = SYS_OPEN then Option.bind (sys_open arg1 arg2 s) returns
      else if num = SYS_CLOSE then returns (sys_close cl (sint arg1) s)
      else if num = SYS_WAITPID then sys_waitpid (sint arg1) arg2 (sint arg3) s
      else if num = SYS_EXECVE then Option.bind (sys_execve arg1 arg2 arg3 s) returns
      else if num = SYS_GETPID then returns (sys_getpid s, s)
      else if num = SYS_KILL then Option.bind (sys_kill arg1 (sint arg2) (ps s)) (\<lambda>(n, p). returns (n, s\<lparr>ps := p\<rparr>))
      else if num = SYS_BRK then returns (sys_brk arg1 s)
      else Option.bind (sys_log (lit ''<4>Unknown syscall: %d'' @ [10]) [num] s) (\<lambda>s1. returns (-1, s1)))"

definition syscall_handler :: "'e file_rw \<Rightarrow> 'e file_cl \<Rightarrow> registers \<Rightarrow> 'e ksys \<Rightarrow> (registers \<times> control \<times> 'e ksys) option" where
  "syscall_handler rw cl regs s =
     Option.bind (syscall_dispatch rw cl regs s) (\<lambda>(n, r, s1).
       Some (if r = Returned then regs\<lparr>r_eax := word_of_int n\<rparr> else regs, r, s1))"

section \<open>The library's stubs\<close>

text \<open>A program's state, as far as the stubs have one: \<^verbatim>\<open>errno\<close>, the static variable of \<^verbatim>\<open>_sbrk\<close>,
  and the kernel behind \<^verbatim>\<open>int 0x80\<close>. The error codes and the file type are names of the library's
  headers, whose values do not matter here.\<close>

datatype errno = No_error | ENOMEM | EINVAL | EMLINK | ENOENT | ECHILD

datatype file_mode = S_IFCHR

record 'e program =
  errno_of :: errno
  sbrk_end :: u32
  kernel :: "'e ksys"

text \<open>The instruction: the handler with the four registers loaded, the others as they are.\<close>

definition syscall :: "'e file_rw \<Rightarrow> 'e file_cl \<Rightarrow> registers \<Rightarrow> u32 \<Rightarrow> u32 \<Rightarrow> u32 \<Rightarrow> u32 \<Rightarrow> 'e program \<Rightarrow> (int \<times> control \<times> 'e program) option" where
  "syscall rw cl regs num arg1 arg2 arg3 u =
     Option.bind (syscall_handler rw cl (regs\<lparr>r_eax := num, r_ebx := arg1, r_ecx := arg2, r_edx := arg3\<rparr>) (kernel u))
       (\<lambda>(regs1, r, k). Some (sint (r_eax regs1), r, u\<lparr>kernel := k\<rparr>))"

definition newlib_close :: "'e file_rw \<Rightarrow> 'e file_cl \<Rightarrow> registers \<Rightarrow> u32 \<Rightarrow> 'e program \<Rightarrow> (int \<times> control \<times> 'e program) option" where
  "newlib_close rw cl regs fd = syscall rw cl regs SYS_CLOSE fd 0 0"

definition newlib_fork :: "'e file_rw \<Rightarrow> 'e file_cl \<Rightarrow> registers \<Rightarrow> 'e program \<Rightarrow> (int \<times> control \<times> 'e program) option" where
  "newlib_fork rw cl regs = syscall rw cl regs SYS_FORK 0 0 0"

definition newlib_open :: "'e file_rw \<Rightarrow> 'e file_cl \<Rightarrow> registers \<Rightarrow> ptr \<Rightarrow> u32 \<Rightarrow> u32 \<Rightarrow> 'e program \<Rightarrow> (int \<times> control \<times> 'e program) option" where
  "newlib_open rw cl regs name flags mode = syscall rw cl regs SYS_OPEN name flags mode"

definition newlib_read :: "'e file_rw \<Rightarrow> 'e file_cl \<Rightarrow> registers \<Rightarrow> u32 \<Rightarrow> ptr \<Rightarrow> u32 \<Rightarrow> 'e program \<Rightarrow> (int \<times> control \<times> 'e program) option" where
  "newlib_read rw cl regs fd p len = syscall rw cl regs SYS_READ fd p len"

definition newlib_write :: "'e file_rw \<Rightarrow> 'e file_cl \<Rightarrow> registers \<Rightarrow> u32 \<Rightarrow> ptr \<Rightarrow> u32 \<Rightarrow> 'e program \<Rightarrow> (int \<times> control \<times> 'e program) option" where
  "newlib_write rw cl regs fd p len = syscall rw cl regs SYS_WRITE fd p len"

text \<open>\<^verbatim>\<open>_exit\<close> ends in a loop that does nothing: when the call returns, it never does.\<close>

definition newlib_exit :: "'e file_rw \<Rightarrow> 'e file_cl \<Rightarrow> registers \<Rightarrow> u32 \<Rightarrow> 'e program \<Rightarrow> (control \<times> 'e program) option" where
  "newlib_exit rw cl regs status u =
     Option.bind (syscall rw cl regs SYS_EXIT status 0 0 u) (\<lambda>(_, r, u1). if r = Switched then Some (Switched, u1) else None)"

text \<open>The stubs that make no call.\<close>

definition fails_with :: "errno \<Rightarrow> 'e program \<Rightarrow> int \<times> 'e program" where
  "fails_with e u = (-1, u\<lparr>errno_of := e\<rparr>)"

definition newlib_execve :: "'e program \<Rightarrow> int \<times> 'e program" where "newlib_execve = fails_with ENOMEM"
definition newlib_kill :: "'e program \<Rightarrow> int \<times> 'e program" where "newlib_kill = fails_with EINVAL"
definition newlib_link :: "'e program \<Rightarrow> int \<times> 'e program" where "newlib_link = fails_with EMLINK"
definition newlib_unlink :: "'e program \<Rightarrow> int \<times> 'e program" where "newlib_unlink = fails_with ENOENT"
definition newlib_wait :: "'e program \<Rightarrow> int \<times> 'e program" where "newlib_wait = fails_with ECHILD"
definition newlib_times :: "int" where "newlib_times = -1"
definition newlib_getpid :: "int" where "newlib_getpid = 1"
definition newlib_lseek :: "int" where "newlib_lseek = 0"
definition newlib_isatty :: "int \<Rightarrow> bool" where "newlib_isatty fd = (fd \<le> 2)"
definition newlib_fstat :: "int \<times> file_mode" where "newlib_fstat = (0, S_IFCHR)"
definition newlib_stat :: "int \<times> file_mode" where "newlib_stat = (0, S_IFCHR)"

text \<open>\<^verbatim>\<open>_sbrk\<close>; the break calls never switch.\<close>

definition newlib_sbrk :: "'e file_rw \<Rightarrow> 'e file_cl \<Rightarrow> registers \<Rightarrow> u32 \<Rightarrow> 'e program \<Rightarrow> (u32 \<times> 'e program) option" where
  "newlib_sbrk rw cl regs incr u =
     Option.bind (if sbrk_end u = 0
         then Option.bind (syscall rw cl regs SYS_BRK 0 0 0 u) (\<lambda>(n, _, u1). Some (u1\<lparr>sbrk_end := word_of_int n\<rparr>))
         else Some u) (\<lambda>u1.
       let prev = sbrk_end u1 in
       Option.bind (syscall rw cl regs SYS_BRK (sbrk_end u1 + incr) 0 0 u1) (\<lambda>(n, _, u2).
         if n < 0 then Some (- 1, u2\<lparr>errno_of := ENOMEM\<rparr>)
         else Some (prev, u2\<lparr>sbrk_end := sbrk_end u2 + incr\<rparr>)))"

section \<open>The program break\<close>

definition brk_ok :: "u32 \<Rightarrow> bool" where
  "brk_ok b \<longleftrightarrow> 0x80000000 \<le> b \<and> b \<le> 0xC0000000"

lemma sint_high: "0x80000000 \<le> b \<Longrightarrow> sint (b :: u32) < 0"
  using uint_lt2p [of b] by (simp add: sint_u32 word_le_nat_alt)

lemma sys_brk_cases:
  obtains (keep) "sys_brk addr s = (sint (heap_end s), s)" "addr = 0"
  | (set) "sys_brk addr s = (sint addr, s\<lparr>heap_end := addr\<rparr>)" "brk_ok addr"
  | (refused) "sys_brk addr s = (-1, s)" "addr \<noteq> 0" "\<not> brk_ok addr"
  by (cases "addr = 0"; cases "brk_ok addr") (auto simp: sys_brk_def brk_ok_def linorder_not_less [symmetric])

lemma sys_log_keeps: "sys_log fmt args s = Some t \<Longrightarrow> heap_end t = heap_end s \<and> ps t = ps s \<and> fds_of t = fds_of s"
  by (auto simp: sys_log_def split: sum.splits)

lemma other_calls_keep_break:
  "sys_exit c s = Some (r, t) \<Longrightarrow> heap_end t = heap_end s"
  "sys_fork s = Some (n, t) \<Longrightarrow> heap_end t = heap_end s"
  "sys_read rw fd buf len s = (n, t) \<Longrightarrow> heap_end t = heap_end s"
  "sys_open buf fl s = Some (n, t) \<Longrightarrow> heap_end t = heap_end s"
  "sys_close cl fd s = (n, t) \<Longrightarrow> heap_end t = heap_end s"
  "sys_waitpid fd buf opt s = Some (n, r, t) \<Longrightarrow> heap_end t = heap_end s"
  "sys_execve buf av ev s = Some (n, t) \<Longrightarrow> heap_end t = heap_end s"
  by (auto simp: sys_exit_def sys_fork_def sys_read_def sys_open_def sys_close_def sys_waitpid_def sys_execve_def
      put_vfs_def put_vmm_def bind_eq_Some_conv Let_def dest: sys_log_keeps split: if_splits prod.splits)

lemma write_console_keeps: "write_console n buf s = Some t \<Longrightarrow> heap_end t = heap_end s \<and> ps t = ps s \<and> fds_of t = fds_of s"
  by (induction n arbitrary: buf s) (fastforce simp: bind_eq_Some_conv)+

lemma sys_write_keeps_break: "sys_write rw fd buf len s = Some (n, t) \<Longrightarrow> heap_end t = heap_end s"
  by (auto simp: sys_write_def put_vfs_def bind_eq_Some_conv dest: write_console_keeps split: if_splits prod.splits)

lemma syscall_brk:
  "syscall_handler rw cl regs s = Some (regs\<lparr>r_eax := word_of_int (fst (sys_brk (r_ebx regs) s))\<rparr>, Returned, snd (sys_brk (r_ebx regs) s))"
  if "r_eax regs = SYS_BRK"
  using that by (simp add: syscall_handler_def syscall_dispatch_def returns_def Let_def)

text \<open>C5: The program break stays between 2 GB and 3 GB through every system call. Only the break call changes
  it: to the address asked for when that is in the range, returned in the register, and not at all for address 0, which
  reads it, or for an address out of the range, answered with -1.\<close>

theorem break_stays_in_range:
  assumes "brk_ok (heap_end s)" "syscall_handler rw cl regs s = Some (regs', r, t)"
  shows "brk_ok (heap_end t) \<and> (r_eax regs \<noteq> SYS_BRK \<longrightarrow> heap_end t = heap_end s)
    \<and> (r_eax regs = SYS_BRK \<longrightarrow> r = Returned \<and> t = s\<lparr>heap_end := (if brk_ok (r_ebx regs) then r_ebx regs else heap_end s)\<rparr>
        \<and> regs' = regs\<lparr>r_eax := (if r_ebx regs = 0 then heap_end s else if brk_ok (r_ebx regs) then r_ebx regs else - 1)\<rparr>)"
proof (cases "r_eax regs = SYS_BRK")
  case True
  show ?thesis
    using assms syscall_brk [OF True, of rw cl s] True
    by (cases rule: sys_brk_cases [of "r_ebx regs" s]) (auto simp: brk_ok_def)
next
  case False
  then have "heap_end t = heap_end s"
    using assms(2)
    by (auto simp: syscall_handler_def syscall_dispatch_def Let_def returns_def bind_eq_Some_conv
        dest: other_calls_keep_break(1,2,4,6,7) sys_write_keeps_break sys_log_keeps
        intro!: other_calls_keep_break(3,5) [OF surjective_pairing] split: if_splits)
  then show ?thesis using assms(1) False by simp
qed

section \<open>The stub of the break\<close>

definition break_step :: "u32 \<Rightarrow> 'e program \<Rightarrow> u32 \<times> u32" where
  "break_step incr u = (let old = (if sbrk_end u = 0 then heap_end (kernel u) else sbrk_end u)
     in (old, if brk_ok (old + incr) then old + incr else heap_end (kernel u)))"

lemma stub_brk:
  "\<exists>regs' k. syscall rw cl regs SYS_BRK addr 0 0 u = Some (sint (word_of_int (fst (sys_brk addr (kernel u))) :: u32), Returned,
     u\<lparr>kernel := snd (sys_brk addr (kernel u))\<rparr>)"
  by (simp add: syscall_def syscall_brk)

text \<open>C37: \<^verbatim>\<open>_sbrk\<close> never succeeds: it takes a negative result for a failure, and every break the kernel grants
  is an address from 2 GB up, negative as an int. It returns -1 with \<^verbatim>\<open>ENOMEM\<close> for every increment, even 0, though
  the kernel has moved the break when the new address was in its range.\<close>

theorem newlib_sbrk_fails:
  assumes b: "brk_ok (heap_end (kernel u))"
  shows "newlib_sbrk rw cl regs incr u = Some (- 1, u\<lparr>errno_of := ENOMEM, sbrk_end := fst (break_step incr u),
     kernel := (kernel u)\<lparr>heap_end := snd (break_step incr u)\<rparr>\<rparr>)"
proof -
  let ?old = "if sbrk_end u = 0 then heap_end (kernel u) else sbrk_end u"
  have first: "(if sbrk_end u = 0
         then Option.bind (syscall rw cl regs SYS_BRK 0 0 0 u) (\<lambda>(n, _, u1). Some (u1\<lparr>sbrk_end := word_of_int n\<rparr>))
         else Some u) = Some (u\<lparr>sbrk_end := ?old\<rparr>)"
    by (simp add: syscall_def syscall_brk sys_brk_def)
  have neg: "sint (word_of_int (fst (sys_brk a (kernel u))) :: u32) < 0" for a
    by (cases rule: sys_brk_cases [of a "kernel u"]) (use b in \<open>simp_all add: brk_ok_def sint_high\<close>)
  have set: "snd (sys_brk a (kernel u)) = (kernel u)\<lparr>heap_end := (if brk_ok a then a else heap_end (kernel u))\<rparr>" for a
    by (cases rule: sys_brk_cases [of a "kernel u"]) (auto simp: brk_ok_def)
  show ?thesis
    unfolding newlib_sbrk_def first using neg [of "?old + incr"] set [of "?old + incr"]
    by (simp add: syscall_def syscall_brk break_step_def Let_def)
qed

section \<open>Writing to the console\<close>

lemma vga_putchar_color [simp]: "vga_current_color (vga_putchar c v) = vga_current_color v"
  by (simp add: vga_putchar_def vga_update_cursor_def vga_putchar_at_def Let_def)

lemma vga_print_color [simp]: "vga_current_color (vga_print str v) = vga_current_color v"
  by (induction str arbitrary: v) (simp_all add: vga_print_def)

abbreviation white :: "vga \<Rightarrow> vga" where "white \<equiv> vga_set_color VGA_COLOR_WHITE VGA_COLOR_BLACK"

lemma white_print: "white (vga_print str (white v)) = vga_print str (white v)"
proof -
  have "v\<lparr>vga_current_color := c\<rparr> = v" if "vga_current_color v = c" for v :: vga and c using that by auto
  then show ?thesis by (simp add: vga_set_color_def)
qed

lemma white_putchar: "white (vga_putchar c (white v)) = vga_putchar c (white v)" "white (white v) = white v"
  using white_print [of "[c]" v] by (simp_all add: vga_print_def) (simp add: vga_set_color_def)

lemma char_of_int [simp]: "ucast (scast (c :: u8) :: u32) = c"
proof (rule bit_word_eqI)
  fix n assume "n < LENGTH(8)"
  then have "n < 7 \<or> n = 7" by auto
  then show "bit (ucast (scast c :: u32) :: u8) n = bit c n" by (auto simp: bit_simps)
qed

lemma print_char_screen:
  "print_char c l = Some (if current_log_level l < 6 then l
     else l\<lparr>screen := vga_print (filter (\<lambda>c. c \<noteq> 0) [c]) (white (screen l))\<rparr>)"
  by (simp add: print_char_def vprintk_def extract_log_level_def vprintk_internal_def fmt_spec_def log_colors_def
      white_print)

lemma vm_of_log [simp]: "vm_of (ps (s\<lparr>klog_of := l\<rparr>)) = vm_of (ps s)"
  by simp

definition after_write :: "u8 list \<Rightarrow> klog \<Rightarrow> klog" where
  "after_write bs l = (if current_log_level l < 6 \<or> bs = [] then l
     else l\<lparr>screen := vga_print (filter (\<lambda>c. c \<noteq> 0) bs) (white (screen l))\<rparr>)"

lemma after_write_step:
  "after_write bs (if current_log_level l < 6 then l else l\<lparr>screen := vga_print (filter (\<lambda>c. c \<noteq> 0) [c]) (white (screen l))\<rparr>)
     = after_write (c # bs) l"
  by (auto simp: after_write_def white_putchar vga_print_def)

lemma write_console_screen:
  assumes "holds (vm_of (ps s)) (field buf n) m"
  shows "write_console n buf s = Some (s\<lparr>klog_of := after_write (bytes_at m buf n) (klog_of s)\<rparr>)"
  using assms
proof (induction n arbitrary: buf s)
  case 0
  then show ?case by (simp add: after_write_def)
next
  case (Suc n)
  have b: "vload8 buf (vm_of (ps s)) = Some (m buf)" using Suc.prems by (simp add: holds_def)
  have "holds (vm_of (ps s)) (field (buf + 1) n) m" using holds_mono [OF Suc.prems] by auto
  then show ?case using b Suc.IH [of "s\<lparr>klog_of := l\<rparr>" "buf + 1" for l] by (simp add: print_char_screen after_write_step)
qed

text \<open>C38: Writing to descriptor 1 prints the bytes of the buffer, white on black, as one call of
  \<^verbatim>\<open>vga_print\<close> on all of them but the zero bytes would, and changes nothing else; when the log
  level hides information messages it prints nothing. Either way the program gets the count back.\<close>

theorem write_stdout_prints:
  assumes "r_eax regs = SYS_WRITE" "r_ebx regs = 1" "holds (vm_of (ps s)) (field (r_ecx regs) (unat (r_edx regs))) m"
  shows "syscall_handler rw cl regs s = Some (regs\<lparr>r_eax := r_edx regs\<rparr>, Returned,
    s\<lparr>klog_of := after_write (bytes_at m (r_ecx regs) (unat (r_edx regs))) (klog_of s)\<rparr>)"
  using assms write_console_screen [OF assms(3)]
  by (simp add: syscall_handler_def syscall_dispatch_def sys_write_def returns_def Let_def)

lemma log_number:
  assumes "ch CHR ''%'' \<notin> set pre" "length pre \<le> 500"
  shows "\<exists>l. sys_log (lit ''<4>'' @ pre @ lit ''%d'' @ [10]) [n] s = Some (s\<lparr>klog_of := l\<rparr>)"
proof -
  have "length (put_bounded (int_to_str n 10) pre) \<le> 511" using assms(2) by (intro length_put_bounded) simp
  then have "\<exists>out. fmt_loop (\<lambda>_. []) [10] [] (put_bounded (int_to_str n 10) pre) = Inr out \<and> length out \<le> 511" by (simp add: fmt_loop_plain)
  moreover have "fmt_loop (\<lambda>_. []) (lit ''%d'' @ [10]) [n] pre = fmt_loop (\<lambda>_. []) [10] [] (put_bounded (int_to_str n 10) pre)"
    using assms(2) by (simp add: fmt_spec_def)
  moreover have "fmt_loop (\<lambda>_. []) (pre @ lit ''%d'' @ [10]) [n] [] = fmt_loop (\<lambda>_. []) (lit ''%d'' @ [10]) [n] ([] @ pre)"
    using assms by (intro fmt_loop_prefix) simp_all
  ultimately obtain out where "fmt_loop (\<lambda>_. []) (pre @ lit ''%d'' @ [10]) [n] [] = Inr out" "length out \<le> 511" by auto
  moreover have "extract_log_level (lit ''<4>'' @ cs) = (4, cs)" for cs by (simp add: extract_log_level_def)
  ultimately have "\<exists>l. vprintk (\<lambda>_. []) (lit ''<4>'' @ pre @ lit ''%d'' @ [10]) [n] (klog_of s) = Inr l"
    by (simp only: vprintk_def vprintk_internal_def Let_def prod.case sum.case) simp
  then show ?thesis by (auto simp: sys_log_def)
qed

text \<open>Every register state gets an answer: a number that is no system call is refused with -1 and changes nothing but the
  log, and, when the descriptor tables and the heap are in order, so are reads and writes on any descriptor but standard
  output, because no open file has operations.\<close>

theorem syscall_refused:
  assumes "r_eax regs \<notin> {SYS_EXIT, SYS_FORK, SYS_READ, SYS_WRITE, SYS_OPEN, SYS_CLOSE, SYS_WAITPID, SYS_EXECVE, SYS_GETPID, SYS_KILL, SYS_BRK}
    \<or> (r_eax regs = SYS_READ \<or> r_eax regs = SYS_WRITE \<and> r_ebx regs \<noteq> 1) \<and> (\<exists>A bs. vfs_inv A (vfs_view s) bs)"
  shows "\<exists>l. syscall_handler rw cl regs s = Some (regs\<lparr>r_eax := - 1\<rparr>, Returned, s\<lparr>klog_of := l\<rparr>)
    \<and> (r_eax regs \<in> {SYS_READ, SYS_WRITE} \<longrightarrow> l = klog_of s)"
proof (cases "r_eax regs = SYS_READ \<or> r_eax regs = SYS_WRITE")
  case False
  have "\<exists>l. sys_log (lit ''<4>Unknown syscall: %d'' @ [10]) [r_eax regs] s = Some (s\<lparr>klog_of := l\<rparr>)"
    using log_number [of "lit ''Unknown syscall: ''" "r_eax regs" s] by simp
  then show ?thesis using assms False
    by (auto simp: syscall_handler_def syscall_dispatch_def returns_def Let_def simp del: list.map)
next
  case True
  have same_log: "s\<lparr>klog_of := klog_of s\<rparr> = s" by simp
  from True obtain A bs where inv: "vfs_inv A (vfs_view s) bs" using assms by auto
  have op: "fd_get fd (vfs_view s) = 0 \<or> f_op (files (vfs_view s) (fd_get fd (vfs_view s))) = 0" for fd
    using inv by (auto simp: vfs_inv_def fd_get_def open_fds_def nat_less_iff not_le dest!: spec [of _ "nat fd"])
  have rd: "vfs_read rw fd buf n (vfs_view s) = (-1, vfs_view s)" and wr: "vfs_write rw fd buf n (vfs_view s) = (-1, vfs_view s)"
    for fd buf n using op [of fd] by (auto simp: vfs_read_def vfs_write_def Let_def)
  have same: "put_vfs (vfs_view s) s = s" by (simp add: put_vfs_def vfs_view_def)
  have "r_ebx regs = 1" if "sint (r_ebx regs) = 1"
  proof -
    have "r_ebx regs = word_of_int (sint (r_ebx regs))" by simp
    then show ?thesis unfolding that by simp
  qed
  then have fd: "sint (r_ebx regs) \<noteq> 1" if "r_eax regs = SYS_WRITE" using assms that by auto
  from True show ?thesis
  proof
    assume "r_eax regs = SYS_READ"
    then show ?thesis by (simp add: syscall_handler_def syscall_dispatch_def sys_read_def rd same same_log returns_def Let_def)
  next
    assume "r_eax regs = SYS_WRITE"
    then show ?thesis using fd by (simp add: syscall_handler_def syscall_dispatch_def sys_write_def wr same same_log returns_def Let_def)
  qed
qed

section \<open>Witnesses\<close>

definition boot_ksys :: "mem \<Rightarrow> unit ksys" where
  "boot_ksys m = \<lparr>ps = two_procs\<lparr>km := (km two_procs)\<lparr>kmemory := m, kheap_of := vheap boot_vfs\<rparr>\<rparr>, fds_of = boot_vfs, heap_end = 0x80000000,
     klog_of = \<lparr>current_log_level = 6, screen = blank_screen\<rparr>\<rparr>"

definition some_regs :: registers where
  "some_regs = \<lparr>r_edi = 0, r_esi = 0, r_ebp = 0, r_esp = 0, r_ebx = 0, r_edx = 0, r_ecx = 0, r_eax = 0, r_eip = 0, r_cs = 0x1B,
     r_eflags = 0x202, r_user_esp = 0, r_user_ss = 0x23\<rparr>"

theorem break_stays_in_range_witness:
  "brk_ok (heap_end (snd (snd (the (syscall_handler (\<lambda>_ _ _ _ s. (0, s)) (\<lambda>_ _ s. s)
     (some_regs\<lparr>r_eax := 45, r_ebx := 0x80001000\<rparr>) (boot_ksys (\<lambda>_. 0)))))))"
proof -
  have "brk_ok (heap_end (boot_ksys (\<lambda>_. 0)))" by (simp add: brk_ok_def boot_ksys_def)
  note * = break_stays_in_range [OF this]
  obtain regs' r t where "syscall_handler (\<lambda>_ _ _ _ s. (0, s)) (\<lambda>_ _ s. s) (some_regs\<lparr>r_eax := 45, r_ebx := 0x80001000\<rparr>)
      (boot_ksys (\<lambda>_. 0)) = Some (regs', r, t)"
    by (simp add: syscall_brk)
  with * [OF this] show ?thesis by (simp add: brk_ok_def)
qed

theorem newlib_sbrk_fails_witness:
  "\<exists>u. newlib_sbrk (\<lambda>_ _ _ _ s. (0, s)) (\<lambda>_ _ s. s) some_regs 0x1000 \<lparr>errno_of = No_error, sbrk_end = 0, kernel = boot_ksys (\<lambda>_. 0)\<rparr>
     = Some (- 1, u) \<and> heap_end (kernel u) = 0x80001000 \<and> errno_of u = ENOMEM"
proof -
  have "brk_ok (heap_end (kernel \<lparr>errno_of = No_error, sbrk_end = 0, kernel = boot_ksys (\<lambda>_. 0)\<rparr>))"
    by (simp add: brk_ok_def boot_ksys_def)
  from newlib_sbrk_fails [OF this] show ?thesis by (auto simp: break_step_def boot_ksys_def brk_ok_def)
qed

text \<open>The kernel over the address space of the small image: bytes 1 to 3 of its header are printed.\<close>

definition image_ksys :: "vmm \<Rightarrow> unit ksys" where
  "image_ksys v = (boot_ksys (vmem v))\<lparr>ps := (ps (boot_ksys (vmem v)))\<lparr>vm_directory := kernel_directory v, vm_cr3 := cr3 v,
     km := (km (ps (boot_ksys (vmem v))))\<lparr>kpmm := vpmm v\<rparr>\<rparr>\<rparr>"

theorem write_stdout_prints_witness:
  "\<exists>(s :: unit ksys) t. syscall_handler (\<lambda>_ _ _ _ s. (0, s)) (\<lambda>_ _ s. s) (some_regs\<lparr>r_ebx := 1, r_ecx := 0x900001, r_edx := 3, r_eax := 4\<rparr>) s
     = Some (some_regs\<lparr>r_ebx := 1, r_ecx := 0x900001, r_edx := 3, r_eax := 3\<rparr>, Returned, t)
     \<and> screen (klog_of t) = vga_print (lit ''ELF'') (white blank_screen)"
proof -
  obtain v where v: "space v (field 0x900000 86)" "holds v (field 0x900000 86) small_mem" using small_elf_loaded by blast
  have vm: "vm_of (ps (image_ksys v)) = v" using space_kernel(3) [OF v(1)] by (simp add: vm_of_def image_ksys_def boot_ksys_def)
  have h: "holds (vm_of (ps (image_ksys v))) (field 0x900001 3) small_mem"
    unfolding vm using holds_mono [OF v(2) field_sub [of 1 3 86 "0x900000"]] by simp
  have bytes: "bytes_at small_mem 0x900001 3 = lit ''ELF''"
  proof -
    have "bytes_at m a 3 = [m a, m (a + 1), m (a + 2)]" for m a by (simp add: numeral_3_eq_3 add.assoc)
    then show ?thesis by (simp add: small_mem_def small_elf_def)
  qed
  let ?r = "some_regs\<lparr>r_ebx := 1, r_ecx := 0x900001, r_edx := 3, r_eax := 4\<rparr>"
  have "syscall_handler (\<lambda>_ _ _ _ s. (0, s)) (\<lambda>_ _ s. s) ?r (image_ksys v) = Some (?r\<lparr>r_eax := r_edx ?r\<rparr>, Returned,
      (image_ksys v)\<lparr>klog_of := after_write (bytes_at small_mem (r_ecx ?r) (unat (r_edx ?r))) (klog_of (image_ksys v))\<rparr>)"
    by (rule write_stdout_prints) (use h in simp_all)
  moreover have "screen (after_write (lit ''ELF'') (klog_of (image_ksys v))) = vga_print (lit ''ELF'') (white blank_screen)"
    by (simp add: after_write_def image_ksys_def boot_ksys_def)
  ultimately show ?thesis
    using bytes by (intro exI [of _ "image_ksys v"] exI [of _ "(image_ksys v)\<lparr>klog_of := after_write (lit ''ELF'') (klog_of (image_ksys v))\<rparr>"]) simp
qed

theorem syscall_refused_witness:
  "syscall_handler (\<lambda>_ _ _ _ s. (0, s)) (\<lambda>_ _ s. s) (some_regs\<lparr>r_eax := 3, r_ebx := 5\<rparr>) (boot_ksys (\<lambda>_. 0))
     = Some (some_regs\<lparr>r_ebx := 5, r_eax := - 1\<rparr>, Returned, boot_ksys (\<lambda>_. 0))"
proof -
  have "vfs_view (boot_ksys (\<lambda>_. 0)) = boot_vfs" by (simp add: vfs_view_def boot_ksys_def)
  then show ?thesis
    using syscall_refused [of "some_regs\<lparr>r_eax := 3, r_ebx := 5\<rparr>" "boot_ksys (\<lambda>_. 0)" "\<lambda>_ _ _ _ s. (0, s)" "\<lambda>_ _ s. s"] boot_vfs_inv
    by auto
qed

end
