(* ===== verification/Shell.thy ===== *)
theory Shell
  imports Syscall Timer Workqueue Net Rtc Fat12
begin

text \<open>
  The commands of the shell, \<^verbatim>\<open>shell_execute_command\<close> of \<^verbatim>\<open>kernel/shell.c\<close>, and the two functions of
  other files that only print for it, \<^verbatim>\<open>process_debug_list\<close> and \<^verbatim>\<open>slab_stats\<close>. A command is its bytes before the
  terminator. The machine joins the states of the components; the shell runs on the memory, the heap and
  the frames of the processes. None is a page fault or a loop that does not end; \<open>Switched\<close> is a call that left
  through the scheduler.
\<close>

section \<open>The machine\<close>

record 'e machine = "'e ksys" +
  cwd_of :: cwd
  timer_of :: "'e timer_sys"
  works_of :: "'e wq"
  net_of :: net
  rtc_of :: rtc
  cmd_at :: ptr
  user_mode_at :: u32

abbreviation nl :: "u8 list" where "nl \<equiv> [10]"

definition on_screen :: "(vga \<Rightarrow> vga) \<Rightarrow> 'e machine \<Rightarrow> 'e machine" where
  "on_screen g m = m\<lparr>klog_of := (klog_of m)\<lparr>screen := g (screen (klog_of m))\<rparr>\<rparr>"

abbreviation say :: "u8 list \<Rightarrow> 'e machine \<Rightarrow> 'e machine" where "say str \<equiv> on_screen (vga_print str)"

abbreviation say_color :: "u8 list \<Rightarrow> u8 \<Rightarrow> 'e machine \<Rightarrow> 'e machine" where
  "say_color str color \<equiv> on_screen (vga_print_color str color)"

definition log :: "(ptr \<Rightarrow> u8 list) \<Rightarrow> u8 list \<Rightarrow> u32 list \<Rightarrow> 'e machine \<Rightarrow> 'e machine option" where
  "log str_at fmt args m = (case vprintk str_at fmt args (klog_of m) of Inl e \<Rightarrow> None | Inr l \<Rightarrow> Some (m\<lparr>klog_of := l\<rparr>))"

text \<open>Statements one after the other.\<close>

definition run :: "('e machine \<Rightarrow> 'e machine) list \<Rightarrow> 'e machine \<Rightarrow> 'e machine" where
  "run gs m = fold (\<lambda>g. g) gs m"

text \<open>A message without strings among its arguments, and one whose strings are all the same.\<close>

definition pr :: "string \<Rightarrow> u8 list \<Rightarrow> u32 list \<Rightarrow> 'e machine \<Rightarrow> 'e machine option" where
  "pr level fmt args = log (\<lambda>_. []) (lit level @ fmt) args"

definition pr_str :: "u8 list \<Rightarrow> string \<Rightarrow> u8 list \<Rightarrow> u32 list \<Rightarrow> 'e machine \<Rightarrow> 'e machine option" where
  "pr_str str level fmt args = log (\<lambda>_. str) (lit level @ fmt) args"

abbreviation KERN_ERR :: string where "KERN_ERR \<equiv> ''<3>''"
abbreviation KERN_WARNING :: string where "KERN_WARNING \<equiv> ''<4>''"
abbreviation KERN_INFO :: string where "KERN_INFO \<equiv> ''<6>''"

definition ok :: "'e machine \<Rightarrow> (control \<times> 'e machine) option" where
  "ok m = Some (Returned, m)"

text \<open>The code after a call that may switch runs only when the call returns.\<close>

definition after :: "control \<Rightarrow> ('e machine \<Rightarrow> 'e machine) \<Rightarrow> 'e machine \<Rightarrow> (control \<times> 'e machine) option" where
  "after r g m = Some (r, if r = Returned then g m else m)"

section \<open>Numbers\<close>

text \<open>The loop that writes a number, digit by digit into a temporary buffer, and copies it back to front.\<close>

function dec_loop :: "u32 \<Rightarrow> u8 list \<Rightarrow> u8 list" where
  "dec_loop n t = (if 0 < n then dec_loop (n div 10) (t @ [ch CHR ''0'' + ucast (n mod 10)]) else t)"
  by pat_completeness auto
termination
  by (relation "measure (\<lambda>(n, t). unat n)") (simp_all add: unat_div unat_gt_0 word_gt_0)

declare dec_loop.simps [simp del]

definition dec_string :: "u32 \<Rightarrow> u8 list" where
  "dec_string n = (if n = 0 then lit ''0'' else rev (dec_loop n []))"

text \<open>With a leading zero below ten, for the clock.\<close>

definition dec_two :: "u32 \<Rightarrow> u8 list" where
  "dec_two n = (if n < 10 then lit ''0'' else []) @ dec_string n"

text \<open>The digits at the start of a text, with the arithmetic of the variable they go to, and the rest.\<close>

fun parse_dec :: "'a::len word \<Rightarrow> u8 list \<Rightarrow> 'a word \<times> u8 list" where
  "parse_dec n [] = (n, [])"
| "parse_dec n (c # cs) =
     (if ch CHR ''0'' \<le> c \<and> c \<le> ch CHR ''9'' then parse_dec (n * 10 + (ucast c - 48)) cs else (n, c # cs))"

definition skip_spaces :: "u8 list \<Rightarrow> u8 list" where
  "skip_spaces cs = dropWhile (\<lambda>c. c = ch CHR '' '') cs"

section \<open>Commands about the system\<close>

definition help_lines :: "string list" where
  "help_lines =
     [''help       - Display this help message'', ''clear      - Clear the screen'', ''ls         - List files'',
      ''cat        - Read file content'', ''touch      - Create file'', ''write      - Write to file'',
      ''ps         - List processes'', ''top        - Show processes with CPU usage'',
      ''nice       - Set process priority <pid> <priority>'', ''mem        - Show memory usage'',
      ''kill       - Kill process <pid>'', ''color      - Set text color <fg> <bg>'', ''about      - Show OS information'',
      ''echo       - Print text to screen'', ''timer_info - Display timer statistics'', ''mem_stats  - Enhanced memory statistics'',
      ''slabinfo   - Show slab allocator statistics'', ''loglevel   - Set kernel log level <0-7>'',
      ''test_log   - Test kernel logging'', ''ktimers    - Show active kernel timers'', ''workqueues - Show work queue status'',
      ''kill       - Send signal to process <pid> <signal>'', ''netstat    - Show network device status'',
      ''lsfd       - List open file descriptors'', ''lsblk      - List block devices'', ''lsdev      - List all devices'',
      ''exec       - Execute ELF binary <path>'', ''fs_space   - Show filesystem space'', ''fs_delete  - Delete file <filename>'',
      ''time       - Display current time and date'', ''uptime     - Show system uptime'', ''cd         - Change directory <path>'',
      ''mkdir      - Create directory <name>'', ''pwd        - Print working directory'']"

definition cmd_help :: "'e machine \<Rightarrow> 'e machine" where
  "cmd_help m =
     say nl (fold (\<lambda>l. say (lit ''  '' @ lit l @ nl)) help_lines
       (say_color (nl @ lit ''Available commands:'' @ nl) (vga_color VGA_COLOR_YELLOW VGA_COLOR_BLACK) m))"

definition cmd_color :: "u8 list \<Rightarrow> 'e machine \<Rightarrow> 'e machine" where
  "cmd_color cmd m =
     (if 6 < length cmd
      then say (nl @ lit ''Color changed.'' @ nl @ nl)
             (on_screen (vga_set_color (ucast (fst (parse_dec (0 :: u32) (drop 6 cmd)))) VGA_COLOR_BLACK) m)
      else say (nl @ lit ''Usage: color <number 0-15>'' @ nl @ nl) m)"

definition state_name :: "process_state \<Rightarrow> u8 list" where
  "state_name st = (if st = RUNNING then lit ''RUNNING'' else if st = READY then lit ''READY''
     else if st = BLOCKED then lit ''BLOCKED'' else lit ''UNKNOWN'')"

definition debug_line :: "ptr \<Rightarrow> 'e machine \<Rightarrow> 'e machine option" where
  "debug_line p m =
     (let proc = procs (ps m) p in
      Option.bind (pr_str (state_name (pstate proc)) KERN_INFO (lit ''%d    | %s'') [pid proc, 1] m) (\<lambda>m1.
      Option.bind (if p = current_process (ps m) then pr KERN_INFO (lit '' (*)'') [] m1 else Some m1) (\<lambda>m2.
        pr KERN_INFO nl [] m2)))"

definition nodes_of :: "ptr \<Rightarrow> links \<Rightarrow> ptr list option" where
  "nodes_of q l = list_nodes q (lnext l q) l"

definition each :: "('a \<Rightarrow> 'e machine \<Rightarrow> 'e machine option) \<Rightarrow> 'a list \<Rightarrow> 'e machine \<Rightarrow> 'e machine option" where
  "each g xs m = fold (\<lambda>x r. Option.bind r (g x)) xs (Some m)"

definition process_debug_list :: "'e machine \<Rightarrow> 'e machine option" where
  "process_debug_list m =
     Option.bind (pr KERN_INFO (lit ''PID  | State'' @ nl) [] m) (\<lambda>m1.
     Option.bind (pr KERN_INFO (lit ''---- | -----'' @ nl) [] m1) (\<lambda>m2.
     Option.bind (nodes_of (ready_queue (ps m)) (plinks (ps m))) (\<lambda>ns. each debug_line (map node_process ns) m2)))"

definition cmd_ps :: "'e machine \<Rightarrow> 'e machine option" where
  "cmd_ps m = map_option (say nl) (process_debug_list (say nl m))"

definition cmd_mem :: "'e machine \<Rightarrow> 'e machine" where
  "cmd_mem m =
     (case pmm_get_stats (kpmm (km (ps m))) of (tot, used) \<Rightarrow>
        run [say (nl @ lit ''Memory Stats:'' @ nl), say (lit ''Total Blocks: ''),
          say (dec_string tot), say (nl @ lit ''Used Blocks:  ''), say (dec_string used),
          say (nl @ nl)] m)"

definition cmd_kill_process :: "u8 list \<Rightarrow> 'e machine \<Rightarrow> (control \<times> 'e machine) option" where
  "cmd_kill_process cmd m =
     Option.bind (process_kill (fst (parse_dec 0 (drop 5 cmd))) (ps m)) (\<lambda>(killed, r, p).
       after r (say (if killed then nl @ lit ''Process Killed.'' @ nl @ nl
                     else nl @ lit ''Failed to kill process (Not found or Kernel).'' @ nl @ nl)) (m\<lparr>ps := p\<rparr>))"

definition cmd_about :: "'e machine \<Rightarrow> 'e machine" where
  "cmd_about m =
     run [say nl,
          say_color (lit ''ValcOS v0.1'' @ nl) (vga_color VGA_COLOR_LIGHT_CYAN VGA_COLOR_BLACK),
          say (lit ''A simple operating system built from scratch'' @ nl),
          say (lit ''Created with passion and determination!'' @ nl @ nl)] m"

definition cmd_echo :: "u8 list \<Rightarrow> 'e machine \<Rightarrow> 'e machine" where
  "cmd_echo cmd m = run [say nl, say (drop 5 cmd), say (nl @ nl)] m"

definition cmd_timer_info :: "'e machine \<Rightarrow> 'e machine" where
  "cmd_timer_info m =
     (case timer_get_stats (timer_of m) of (ticks, calls) \<Rightarrow>
        run [say (nl @ lit ''Timer Statistics:'' @ nl), say (lit ''  Total Ticks: ''),
          say (dec_string ticks), say (nl @ lit ''  Uptime (ms): ''),
          say (dec_string (timer_get_uptime_ms (timer_of m))),
          say (nl @ lit ''  Callbacks Executed: ''), say (dec_string calls), say (nl @ nl)] m)"

definition cmd_mem_stats :: "'e machine \<Rightarrow> 'e machine" where
  "cmd_mem_stats m =
     (let q = kpmm (km (ps m)) in
      case pmm_get_stats q of (tot, used) \<Rightarrow>
        run [say (nl @ lit ''Memory Statistics:'' @ nl), say (lit ''  PMM Total Blocks: ''),
          say (dec_string tot), say (nl @ lit ''  PMM Used Blocks:  ''), say (dec_string used),
          say (nl @ lit ''  Free Memory (KB): ''),
          say (dec_string (pmm_get_free_memory q div 1024)),
          say (nl @ lit ''  Total Memory (KB): ''),
          say (dec_string (pmm_get_total_memory q div 1024)), say (nl @ nl)] m)"

definition kmem_cache_info :: "ptr \<Rightarrow> 'e machine \<Rightarrow> 'e machine option" where
  "kmem_cache_info c m =
     (if c = 0 then Some m
      else let cache = caches (km (ps m)) c in
        Option.bind (pr_str (c_name cache) KERN_INFO (lit ''Cache: %s'' @ nl) [c] m) (\<lambda>m1.
        Option.bind (pr KERN_INFO (lit ''  Object size:    %u bytes'' @ nl) [c_object_size cache] m1) (\<lambda>m2.
        Option.bind (pr KERN_INFO (lit ''  Active objects: %u'' @ nl) [c_num_active cache] m2) (\<lambda>m3.
        Option.bind (pr KERN_INFO (lit ''  Total slabs:    %u'' @ nl) [c_num_slabs cache] m3) (pr KERN_INFO nl [])))))"

definition slab_stats :: "'e machine \<Rightarrow> 'e machine option" where
  "slab_stats m =
     Option.bind (pr KERN_INFO (nl @ lit ''=== Slab Allocator Statistics ==='' @ nl) [] m) (\<lambda>m1.
     Option.bind (nodes_of (cache_list (km (ps m))) (klinks (km (ps m)))) (\<lambda>ns.
     Option.bind (each kmem_cache_info (map (\<lambda>n. n - 80) ns) m1) (pr KERN_INFO nl [])))"

definition cmd_loglevel :: "u8 list \<Rightarrow> 'e machine \<Rightarrow> 'e machine" where
  "cmd_loglevel cmd m =
     (if 9 < length cmd then
        let level = sint (cmd ! 9) - 48 in
        if 0 \<le> level \<and> level \<le> 7
        then say (lit ''Log level set.'' @ nl) (m\<lparr>klog_of := printk_set_level level (klog_of m)\<rparr>)
        else say (lit ''Invalid level (0-7).'' @ nl) m
      else run [say (lit ''Usage: loglevel <0-7>'' @ nl), say (lit ''Current level: ''),
          say (takeWhile (\<lambda>c. c \<noteq> 0) [48 + word_of_int (printk_get_level (klog_of m))]),
          say nl] m)"

definition test_messages :: "(string \<times> string) list" where
  "test_messages = [(''<0>'', ''Emergency message''), (''<1>'', ''Alert message''), (''<2>'', ''Critical message''),
     (''<3>'', ''Error message''), (''<4>'', ''Warning message''), (''<5>'', ''Notice message''),
     (''<6>'', ''Info message''), (''<7>'', ''Debug message'')]"

definition cmd_test_log :: "'e machine \<Rightarrow> 'e machine option" where
  "cmd_test_log = each (\<lambda>(level, text). pr level (lit text @ nl) []) test_messages"

definition cmd_ktimers :: "'e machine \<Rightarrow> 'e machine option" where
  "cmd_ktimers m =
     (let t = timer_of m in
      Option.bind (pr KERN_INFO (lit ''Active kernel timers: %d'' @ nl) [word_of_int (ktimer_get_count (ts_ktimers t))] m) (\<lambda>m1.
      Option.bind (pr KERN_INFO (lit ''Current jiffies: %lu'' @ nl) [jiffies (ts_ktimers t)] m1) (\<lambda>m2.
        pr KERN_INFO (lit ''Uptime: %u ms'' @ nl) [timer_get_uptime_ms t] m2)))"

definition cmd_workqueues :: "'e machine \<Rightarrow> 'e machine option" where
  "cmd_workqueues m = pr KERN_INFO (lit ''Pending work items: %d'' @ nl) [word_of_int (workqueue_get_pending_count (works_of m))] m"

text \<open>The second \<^verbatim>\<open>kill\<close>, reached when no blank follows the word: a process and a signal.\<close>

definition cmd_kill_signal :: "u8 list \<Rightarrow> 'e machine \<Rightarrow> 'e machine option" where
  "cmd_kill_signal cmd m =
     (if 5 < length cmd then
        let p0 = skip_spaces (drop 5 cmd);
            (n, p1) = parse_dec (0 :: u32) p0;
            p2 = skip_spaces p1;
            sig = (if p2 \<noteq> [] \<and> ch CHR ''0'' \<le> hd p2 \<and> hd p2 \<le> ch CHR ''9'' then fst (parse_dec (0 :: u32) p2) else 15)
        in if p1 = p0 then Some (say (lit ''Usage: kill <pid> [signal]'' @ nl) m)
           else Option.bind (sys_kill n (sint sig) (ps m)) (\<lambda>(result, q).
             if result = 0 then pr KERN_INFO (lit ''Signal %d sent to process %d'' @ nl) [sig, n] (m\<lparr>ps := q\<rparr>)
             else pr KERN_ERR (lit ''Failed to send signal (process not found)'' @ nl) [] (m\<lparr>ps := q\<rparr>))
      else Some (run [say (lit ''Usage: kill <pid> [signal]'' @ nl), say (lit ''Default signal is SIGTERM (15)'' @ nl)] m))"

definition cmd_netstat :: "'e machine \<Rightarrow> 'e machine option" where
  "cmd_netstat m =
     Option.bind (pr KERN_INFO (lit ''Network Devices:'' @ nl) [] m) (\<lambda>m1.
     Option.bind (netdev_find lo_name (net_of m)) (\<lambda>dev.
       if dev \<noteq> 0 then pr_str (nd_name (netdevs (net_of m) dev)) KERN_INFO (lit ''  %s - Loopback device'' @ nl) [dev] m1
       else pr KERN_WARNING (lit ''No network devices found'' @ nl) [] m1))"

definition cmd_messages :: "string \<Rightarrow> string \<Rightarrow> 'e machine \<Rightarrow> 'e machine option" where
  "cmd_messages a b m = Option.bind (pr KERN_INFO (lit a @ nl) [] m) (pr KERN_INFO (lit b @ nl) [])"

definition cmd_exec_path :: "u8 list \<Rightarrow> 'e machine \<Rightarrow> 'e machine option" where
  "cmd_exec_path cmd m =
     (if 5 < length cmd
      then Option.bind (elf_exec (cmd_at m + 5) (vm_of (ps m))) (\<lambda>(_, v). Some (m\<lparr>ps := put_vm v (ps m)\<rparr>))
      else Some (say (lit ''Usage: exec <path>'' @ nl) m))"

definition cmd_nice :: "u8 list \<Rightarrow> 'e machine \<Rightarrow> 'e machine option" where
  "cmd_nice cmd m =
     (case parse_dec (0 :: u32) (drop 5 cmd) of (n, rest) \<Rightarrow>
        Option.bind (process_set_priority n (fst (parse_dec (0 :: u8) (skip_spaces rest))) (ps m)) (\<lambda>q.
          Some (say (nl @ lit ''Priority updated.'' @ nl @ nl) (m\<lparr>ps := q\<rparr>))))"

definition pad :: "nat \<Rightarrow> u8 list \<Rightarrow> 'e machine \<Rightarrow> 'e machine" where
  "pad width str = run (say str # replicate (width - length str) (say (lit '' '')) @ [say (lit ''| '')])"

definition top_state :: "process_state \<Rightarrow> u8 list" where
  "top_state st = (case st of READY \<Rightarrow> lit ''READY'' | RUNNING \<Rightarrow> lit ''RUNNING'' | BLOCKED \<Rightarrow> lit ''BLOCKED''
     | TERMINATED \<Rightarrow> lit ''TERMINATED'')"

definition top_line :: "ptr \<Rightarrow> 'e machine \<Rightarrow> 'e machine" where
  "top_line p m =
     (let proc = procs (ps m) p in
      run [pad 5 (dec_string (pid proc)), pad 9 (dec_string (ucast (priority proc))), pad 8 (dec_string (total_runtime proc)),
           say (top_state (pstate proc)), if p = current_process (ps m) then say (lit '' (*)'') else id, say nl] m)"

definition cmd_top :: "'e machine \<Rightarrow> 'e machine option" where
  "cmd_top m =
     (let m1 = run [say (nl @ lit ''PID  | Priority | Runtime | State'' @ nl), say (lit ''---- | -------- | ------- | --------'' @ nl)] m in
      if list_empty (ready_queue (ps m)) (plinks (ps m)) then Some (say (lit ''No processes.'' @ nl @ nl) m1)
      else Option.bind (nodes_of (ready_queue (ps m)) (plinks (ps m))) (\<lambda>ns.
        Some (say nl (fold top_line (map node_process ns) m1))))"

definition cmd_time :: "'e machine \<Rightarrow> 'e machine option" where
  "cmd_time m =
     Option.bind (rtc_read_time (rtc_of m)) (\<lambda>((hour, minute, second), r1).
     Option.bind (rtc_read_date r1) (\<lambda>((year, month, day), r2). Some (
       run [say (nl @ lit ''Current Time: ''), say (dec_two (ucast hour)), say (lit '':''), say (dec_two (ucast minute)), say (lit '':''),
            say (dec_two (ucast second)), say (nl @ lit ''Current Date: ''), say (dec_string (ucast year)), say (lit ''-''),
            say (dec_two (ucast month)), say (lit ''-''), say (dec_two (ucast day)), say (nl @ nl)] (m\<lparr>rtc_of := r2\<rparr>))))"

definition cmd_uptime :: "'e machine \<Rightarrow> 'e machine" where
  "cmd_uptime m =
     (let seconds = timer_get_uptime_ms (timer_of m) div 1000; minutes = seconds div 60; hours = minutes div 60 in
      run [say (nl @ lit ''System Uptime: ''), say (dec_string hours), say (lit ''h ''), say (dec_string (minutes mod 60)),
           say (lit ''m ''), say (dec_string (seconds mod 60)), say (lit ''s'' @ nl @ nl)] m)"

section \<open>Commands about files\<close>

definition set_pmem :: "mem \<Rightarrow> 'e machine \<Rightarrow> 'e machine" where
  "set_pmem x m = m\<lparr>ps := set_memory (\<lambda>_. x) (ps m)\<rparr>"

definition set_heap :: "kheap \<Rightarrow> 'e machine \<Rightarrow> 'e machine" where
  "set_heap h m = m\<lparr>ps := (ps m)\<lparr>km := (km (ps m))\<lparr>kheap_of := h\<rparr>\<rparr>\<rparr>"

definition say_result :: "u8 list \<Rightarrow> fat12_error \<times> mem \<Rightarrow> 'e machine \<Rightarrow> 'e machine" where
  "say_result success r m =
     (case r of (e, x) \<Rightarrow>
        if e = FAT12_SUCCESS then say success (set_pmem x m)
        else run [say (nl @ lit ''Error: ''), say (fat12_get_error_string e), say (nl @ nl)] (set_pmem x m))"

definition cmd_ls :: "'e machine \<Rightarrow> 'e machine" where
  "cmd_ls m = run [say nl, say (fat12_list_directory (pmem (ps m))), say nl] m"

definition string_at :: "mem \<Rightarrow> ptr \<Rightarrow> u8 list option" where
  "string_at x p = map_option (\<lambda>n. bytes_at x p (unat n)) (strlen x p)"

definition cmd_cat :: "u8 list \<Rightarrow> 'e machine \<Rightarrow> 'e machine option" where
  "cmd_cat cmd m =
     Option.bind (kmalloc 4096 (kheap_of (km (ps m)))) (\<lambda>(buf, h).
       let m1 = set_heap h m in
       if buf = 0 then Some (say (nl @ lit ''Memory error.'' @ nl @ nl) m1)
       else Option.bind (fat12_read_file (drop 4 cmd) buf (pmem (ps m1))) (\<lambda>(r, x).
         Option.bind
           (case r of
              Inr bytes \<Rightarrow>
                if 0 < bytes then
                  let end_at = (if bytes < 4096 then buf + word_of_int bytes else buf + 4095); y = x(end_at := 0) in
                  Option.bind (string_at y buf) (\<lambda>str. Some (run [say nl, say str, say (nl @ nl)] (set_pmem y m1)))
                else Some (say (nl @ lit ''File not found.'' @ nl @ nl) (set_pmem x m1))
            | Inl e \<Rightarrow> Some (say (nl @ lit ''File not found.'' @ nl @ nl) (set_pmem x m1)))
           (\<lambda>m2. Some (set_heap (kfree buf (kheap_of (km (ps m2)))) m2))))"

text \<open>The buffer of the program stays allocated.\<close>

definition cmd_exec_file :: "u8 list \<Rightarrow> 'e machine \<Rightarrow> 'e machine option" where
  "cmd_exec_file cmd m =
     Option.bind (kmalloc 8192 (kheap_of (km (ps m)))) (\<lambda>(buf, h).
       let m1 = set_heap h m in
       if buf = 0 then Some (say (nl @ lit ''Memory error.'' @ nl @ nl) m1)
       else Option.bind (fat12_read_file (drop 5 cmd) buf (pmem (ps m1))) (\<lambda>(r, x).
         let m2 = set_pmem x m1 in
         case r of
           Inr bytes \<Rightarrow>
             if 0 < bytes then
               let m3 = run [say (nl @ lit ''Executing ''), say (drop 5 cmd), say (lit ''...'' @ nl @ nl)] m2 in
               map_option (\<lambda>q. m3\<lparr>ps := q\<rparr>) (process_create_user (user_mode_at m3) buf (ps m3))
             else Some (say (nl @ lit ''File not found.'' @ nl @ nl) m2)
         | Inl e \<Rightarrow> Some (say (nl @ lit ''File not found.'' @ nl @ nl) m2)))"

definition cmd_touch :: "u8 list \<Rightarrow> 'e machine \<Rightarrow> 'e machine" where
  "cmd_touch cmd m =
     (case fat12_create_file (drop 6 cmd) (pmem (ps m)) of (r, x) \<Rightarrow>
        if r \<noteq> FAT12_SUCCESS then say (nl @ lit ''File created.'' @ nl @ nl) (set_pmem x m)
        else say (nl @ lit ''Failed to create file (Disk full or exists).'' @ nl @ nl) (set_pmem x m))"

text \<open>\<^verbatim>\<open>write\<close> passes the text where it stands in the command buffer, which is \<open>str\<close> with its terminator, and in which the
  blank before the text is a zero byte during the call.\<close>

fun store_bytes :: "ptr \<Rightarrow> u8 list \<Rightarrow> mem \<Rightarrow> mem" where
  "store_bytes p [] x = x"
| "store_bytes p (b # bs) x = store_bytes (p + 1) bs (x(p := b))"

definition cmd_write :: "u8 list \<Rightarrow> 'e machine \<Rightarrow> 'e machine option" where
  "cmd_write cmd m =
     (let args = drop 6 cmd; filename = takeWhile (\<lambda>c. c \<noteq> ch CHR '' '') args; i = length filename in
      if i < length args then
        let text = drop (i + 1) args;
            x = store_bytes (cmd_at m) (cmd[6 + i := 0] @ [0]) (pmem (ps m))
        in Option.bind (fat12_write_file filename (cmd_at m + 6 + of_nat i + 1) (of_nat (length text)) x) (\<lambda>(r, x1).
             Some (say_result (nl @ lit ''File written.'' @ nl @ nl) (r, x1(cmd_at m + 6 + of_nat i := ch CHR '' '')) m))
      else Some (say (nl @ lit ''Usage: write <filename> <text>'' @ nl @ nl) m))"

definition cmd_fs_space :: "'e machine \<Rightarrow> 'e machine" where
  "cmd_fs_space m =
     (let free = fat12_get_free_space (pmem (ps m)); tot = fat12_get_total_space; used = tot - free in
      run [say (nl @ lit ''Filesystem Space:'' @ nl), say (lit ''  Total: ''), say (dec_string tot), say (lit '' bytes'' @ nl),
           say (lit ''  Used:  ''), say (dec_string used), say (lit '' bytes'' @ nl),
           say (lit ''  Free:  ''), say (dec_string free), say (lit '' bytes'' @ nl @ nl)] m)"

definition cmd_fs_delete :: "u8 list \<Rightarrow> 'e machine \<Rightarrow> 'e machine option" where
  "cmd_fs_delete cmd m =
     Option.bind (fat12_delete_file (drop 10 cmd) (pmem (ps m))) (\<lambda>r. Some (say_result (nl @ lit ''File deleted.'' @ nl @ nl) r m))"

definition cmd_cd :: "u8 list \<Rightarrow> 'e machine \<Rightarrow> 'e machine" where
  "cmd_cd cmd m =
     (let path = (if 2 < length cmd then drop 3 cmd else lit ''/'') in
      case fat12_change_directory path (pmem (ps m)) (cwd_of m) of (r, d) \<Rightarrow>
        say_result nl (r, pmem (ps m)) (m\<lparr>cwd_of := d\<rparr>))"

definition cmd_mkdir :: "u8 list \<Rightarrow> 'e machine \<Rightarrow> 'e machine" where
  "cmd_mkdir cmd m =
     say_result (nl @ lit ''Directory created.'' @ nl @ nl) (fat12_create_directory (drop 6 cmd) (cwd_of m) (pmem (ps m))) m"

definition cmd_pwd :: "'e machine \<Rightarrow> 'e machine" where
  "cmd_pwd m = run [say nl, say (fat12_get_current_directory (cwd_of m)), say (nl @ nl)] m"

section \<open>The command\<close>

definition starts :: "u8 list \<Rightarrow> string \<Rightarrow> bool" where
  "starts cmd s \<longleftrightarrow> take (length s) cmd = lit s"

definition ret :: "'e machine option \<Rightarrow> (control \<times> 'e machine) option" where
  "ret r = Option.bind r ok"

definition cmd_unknown :: "u8 list \<Rightarrow> 'e machine \<Rightarrow> 'e machine" where
  "cmd_unknown cmd m =
     (if cmd \<noteq> [] then
        run [say nl, say_color (lit ''Unknown command: '') (vga_color VGA_COLOR_LIGHT_RED VGA_COLOR_BLACK), say cmd,
             say (nl @ lit ''Type '' @ [39] @ lit ''help'' @ [39] @ lit '' for available commands.'' @ nl @ nl)] m
      else say nl m)"

definition shell_execute_command :: "u8 list \<Rightarrow> 'e machine \<Rightarrow> (control \<times> 'e machine) option" where
  "shell_execute_command cmd m =
     (if cmd = lit ''help'' then ok (cmd_help m)
      else if starts cmd ''color'' then ok (cmd_color cmd m)
      else if cmd = lit ''ps'' then ret (cmd_ps m)
      else if cmd = lit ''mem'' then ok (cmd_mem m)
      else if starts cmd ''kill '' then cmd_kill_process cmd m
      else if cmd = lit ''clear'' then ok (on_screen vga_clear m)
      else if cmd = lit ''ls'' then ok (cmd_ls m)
      else if starts cmd ''cat '' then ret (cmd_cat cmd m)
      else if cmd = lit ''about'' then ok (cmd_about m)
      else if starts cmd ''exec '' then ret (cmd_exec_file cmd m)
      else if starts cmd ''echo '' then ok (cmd_echo cmd m)
      else if starts cmd ''touch '' then ok (cmd_touch cmd m)
      else if starts cmd ''write '' then ret (cmd_write cmd m)
      else if cmd = lit ''timer_info'' then ok (cmd_timer_info m)
      else if cmd = lit ''mem_stats'' then ok (cmd_mem_stats m)
      else if cmd = lit ''slabinfo'' then ret (slab_stats m)
      else if starts cmd ''loglevel'' then ok (cmd_loglevel cmd m)
      else if cmd = lit ''test_log'' then ret (cmd_test_log m)
      else if cmd = lit ''ktimers'' then ret (cmd_ktimers m)
      else if cmd = lit ''workqueues'' then ret (cmd_workqueues m)
      else if starts cmd ''kill'' then ret (cmd_kill_signal cmd m)
      else if cmd = lit ''netstat'' then ret (cmd_netstat m)
      else if cmd = lit ''lsfd'' then ret (cmd_messages ''VFS: File descriptor table (simplified)'' ''VFS layer initialized and ready'' m)
      else if cmd = lit ''lsblk'' then ret (cmd_messages ''Block Devices:'' ''Block device subsystem initialized'' m)
      else if cmd = lit ''lsdev'' then ret (cmd_messages ''Devices:'' ''Device subsystem initialized'' m)
      else if starts cmd ''exec'' then ret (cmd_exec_path cmd m)
      else if cmd = lit ''fs_space'' then ok (cmd_fs_space m)
      else if starts cmd ''fs_delete '' then ret (cmd_fs_delete cmd m)
      else if cmd = lit ''time'' then ret (cmd_time m)
      else if cmd = lit ''uptime'' then ok (cmd_uptime m)
      else if cmd = lit ''cd'' \<or> starts cmd ''cd '' then ok (cmd_cd cmd m)
      else if starts cmd ''mkdir '' then ok (cmd_mkdir cmd m)
      else if cmd = lit ''pwd'' then ok (cmd_pwd m)
      else if starts cmd ''nice '' then ret (cmd_nice cmd m)
      else if cmd = lit ''top'' then ret (cmd_top m)
      else ok (cmd_unknown cmd m))"

section \<open>Printing\<close>

text \<open>A machine that differs in nothing but its screen.\<close>

definition only_screen :: "'e machine \<Rightarrow> 'e machine \<Rightarrow> bool" where
  "only_screen m m' \<longleftrightarrow> (\<exists>v. m' = on_screen (\<lambda>_. v) m)"

lemma only_screen_refl: "only_screen m m"
  unfolding only_screen_def on_screen_def by (rule exI [of _ "screen (klog_of m)"]) simp

lemma only_screen_trans: "only_screen a b \<Longrightarrow> only_screen b c \<Longrightarrow> only_screen a c"
  by (auto simp: only_screen_def on_screen_def)

lemma only_screen_on_screen: "only_screen m (on_screen g m)"
  by (auto simp: only_screen_def on_screen_def)

end
