(* ===== verification/ShellEdit.thy ===== *)
theory ShellEdit
  imports Shell
begin

text \<open>
  The line editor of the shell, \<^verbatim>\<open>shell_init\<close>, \<^verbatim>\<open>shell_run\<close> and their helpers in
  \<^verbatim>\<open>kernel/shell.c\<close>: the command buffer of 256 bytes, the history of ten lines, and one round of the endless loop
  as a function of the character read. A row of the history is the string in it. The editor refines an editor on a
  list of characters and a list of lines.
\<close>

section \<open>State and operations\<close>

abbreviation CMD_BUFFER_SIZE :: nat where "CMD_BUFFER_SIZE \<equiv> 256"
abbreviation HISTORY_SIZE :: nat where "HISTORY_SIZE \<equiv> 10"

record 'e shell =
  mach :: "'e machine"
  history :: "nat \<Rightarrow> u8 list"
  history_count :: nat
  history_idx :: nat
  cmd_buffer :: "nat \<Rightarrow> u8"
  cmd_pos :: nat

definition screen_do :: "(vga \<Rightarrow> vga) \<Rightarrow> 'e shell \<Rightarrow> 'e shell" where
  "screen_do g s = s\<lparr>mach := on_screen g (mach s)\<rparr>"

text \<open>The string in the command buffer, and \<^verbatim>\<open>strcpy\<close> into it.\<close>

definition cmd_string :: "'e shell \<Rightarrow> u8 list" where
  "cmd_string s = takeWhile (\<lambda>c. c \<noteq> 0) (map (cmd_buffer s) [0..<CMD_BUFFER_SIZE])"

definition set_command :: "u8 list \<Rightarrow> 'e shell \<Rightarrow> 'e shell" where
  "set_command str s = s\<lparr>cmd_buffer := (\<lambda>i. if i < length str then str ! i else if i = length str then 0 else cmd_buffer s i)\<rparr>"

definition shell_print_prompt :: "'e shell \<Rightarrow> 'e shell" where
  "shell_print_prompt s =
     screen_do (vga_print_color (lit ''> '') (vga_color VGA_COLOR_WHITE VGA_COLOR_BLACK))
       (screen_do (vga_print_color (lit ''ValcOS'') (vga_color VGA_COLOR_LIGHT_CYAN VGA_COLOR_BLACK)) s)"

definition shell_refresh_line :: "'e shell \<Rightarrow> 'e shell" where
  "shell_refresh_line s =
     (let s1 = screen_do (fold vga_putchar ([13] @ replicate 78 32 @ [13])) s;
          s2 = screen_do (vga_print_color (lit ''more> '') (vga_color VGA_COLOR_LIGHT_CYAN VGA_COLOR_BLACK)) s1;
          s3 = shell_print_prompt s2
      in screen_do (vga_print (cmd_string s3)) s3)"

definition shell_add_history :: "u8 list \<Rightarrow> 'e shell \<Rightarrow> 'e shell" where
  "shell_add_history cmd s =
     (if cmd = [] then s
      else let s1 = (if history_count s < HISTORY_SIZE
                     then s\<lparr>history := (history s)(history_count s := cmd), history_count := history_count s + 1\<rparr>
                     else s\<lparr>history := (fold (\<lambda>i h. h(i - 1 := h i)) [1..<HISTORY_SIZE] (history s))(HISTORY_SIZE - 1 := cmd)\<rparr>)
           in s1\<lparr>history_idx := history_count s1\<rparr>)"

definition shell_init :: "'e shell \<Rightarrow> 'e shell" where
  "shell_init s =
     shell_print_prompt
       (screen_do (vga_print (lit ''Type '' @ [39] @ lit ''help'' @ [39] @ lit '' to see available commands.'' @ nl @ nl))
       (screen_do (vga_print_color (lit ''!'' @ nl) (vga_color VGA_COLOR_WHITE VGA_COLOR_BLACK))
       (screen_do (vga_print_color (lit ''ValcOS'') (vga_color VGA_COLOR_LIGHT_CYAN VGA_COLOR_BLACK))
       (screen_do (vga_print_color (lit ''Welcome to '') (vga_color VGA_COLOR_WHITE VGA_COLOR_BLACK)) s))))"

text \<open>One round of \<^verbatim>\<open>shell_run\<close>. A command that switches away is resumed later; what follows it is not run here.\<close>

definition shell_key :: "u8 \<Rightarrow> 'e shell \<Rightarrow> (control \<times> 'e shell) option" where
  "shell_key c s =
     (if c = 10 then
        let s1 = (screen_do (vga_putchar 10) s)\<lparr>cmd_buffer := (cmd_buffer s)(cmd_pos s := 0)\<rparr>;
            s2 = shell_add_history (cmd_string s1) s1
        in Option.bind (shell_execute_command (cmd_string s2) (mach s2)) (\<lambda>(r, m).
             let s3 = s2\<lparr>mach := m\<rparr> in
             Some (r, if r = Returned then shell_print_prompt (s3\<lparr>cmd_pos := 0, history_idx := history_count s3\<rparr>) else s3))
      else if c = 8 then
        Some (Returned, if 0 < cmd_pos s then screen_do (vga_putchar 8) (s\<lparr>cmd_pos := cmd_pos s - 1\<rparr>) else s)
      else if c = 0x11 then
        Some (Returned, if 0 < history_idx s
          then let s1 = set_command (history s (history_idx s - 1)) (s\<lparr>history_idx := history_idx s - 1\<rparr>)
               in shell_refresh_line (s1\<lparr>cmd_pos := length (cmd_string s1)\<rparr>)
          else s)
      else if c = 0x12 then
        Some (Returned, if history_idx s < history_count s
          then let s1 = s\<lparr>history_idx := history_idx s + 1\<rparr>;
                   s2 = (if history_idx s1 = history_count s1
                         then s1\<lparr>cmd_buffer := (cmd_buffer s1)(0 := 0), cmd_pos := 0\<rparr>
                         else let s' = set_command (history s1 (history_idx s1)) s1
                              in s'\<lparr>cmd_pos := length (cmd_string s')\<rparr>)
               in shell_refresh_line s2
          else s)
      else if 0x20 \<le>s c \<and> cmd_pos s < CMD_BUFFER_SIZE - 1 then
        Some (Returned, screen_do (vga_putchar c) (s\<lparr>cmd_buffer := (cmd_buffer s)(cmd_pos s := c), cmd_pos := cmd_pos s + 1\<rparr>))
      else Some (Returned, s))"

text \<open>The loop over the characters read; it ends early when a command switches away.\<close>

fun shell_keys :: "u8 list \<Rightarrow> 'e shell \<Rightarrow> (control \<times> 'e shell) option" where
  "shell_keys [] s = Some (Returned, s)"
| "shell_keys (c # cs) s = Option.bind (shell_key c s) (\<lambda>(r, s1). if r = Returned then shell_keys cs s1 else Some (r, s1))"

section \<open>The editor on lists\<close>

text \<open>The line, the lines kept, and which of them is shown; its length stands for the line being typed.\<close>

record editor =
  line :: "u8 list"
  lines_kept :: "u8 list list"
  view :: nat

definition keep :: "u8 list \<Rightarrow> u8 list list \<Rightarrow> u8 list list" where
  "keep l ls = (if l = [] then ls else drop (length ls + 1 - HISTORY_SIZE) (ls @ [l]))"

definition edit_key :: "u8 \<Rightarrow> editor \<Rightarrow> editor" where
  "edit_key c e =
     (if c = 10 then let ls = keep (line e) (lines_kept e) in \<lparr>line = [], lines_kept = ls, view = length ls\<rparr>
      else if c = 8 then e\<lparr>line := butlast (line e)\<rparr>
      else if c = 0x11 then (if 0 < view e then e\<lparr>view := view e - 1, line := lines_kept e ! (view e - 1)\<rparr> else e)
      else if c = 0x12 then
        (if view e < length (lines_kept e)
         then e\<lparr>view := view e + 1, line := (if view e + 1 = length (lines_kept e) then [] else lines_kept e ! (view e + 1))\<rparr> else e)
      else if 0x20 \<le>s c \<and> length (line e) < 255 then e\<lparr>line := line e @ [c]\<rparr>
      else e)"

definition line_ok :: "u8 list \<Rightarrow> bool" where
  "line_ok l \<longleftrightarrow> length l < CMD_BUFFER_SIZE \<and> 0 \<notin> set l"

definition history_shows :: "'e shell \<Rightarrow> u8 list list \<Rightarrow> bool" where
  "history_shows s ls \<longleftrightarrow> history_count s = length ls \<and> length ls \<le> HISTORY_SIZE
     \<and> (\<forall>i < length ls. history s i = ls ! i) \<and> (\<forall>l \<in> set ls. line_ok l)"

definition line_shows :: "'e shell \<Rightarrow> u8 list \<Rightarrow> bool" where
  "line_shows s l \<longleftrightarrow> cmd_pos s = length l \<and> (\<forall>i < length l. cmd_buffer s i = l ! i) \<and> line_ok l"

definition displays :: "'e shell \<Rightarrow> editor \<Rightarrow> bool" where
  "displays s e \<longleftrightarrow> line_shows s (line e) \<and> history_shows s (lines_kept e) \<and> history_idx s = view e \<and> view e \<le> length (lines_kept e)"

lemma cmd_string_line:
  assumes "\<forall>i < length l. cmd_buffer s i = l ! i" "cmd_buffer s (length l) = 0" "line_ok l"
  shows "cmd_string s = l"
proof -
  have len: "length l < 256" using assms(3) by (simp add: line_ok_def)
  have "map (cmd_buffer s) [0..<256] = map (cmd_buffer s) [0..<length l] @ 0 # map (cmd_buffer s) [Suc (length l)..<256]"
    using len assms(2) upt_add_eq_append [of 0 "length l" "256 - length l"] by (simp add: upt_conv_Cons del: upt_rec_numeral)
  moreover have "map (cmd_buffer s) [0..<length l] = l" using assms(1) by (intro nth_equalityI) auto
  ultimately have "map (cmd_buffer s) [0..<256] = l @ 0 # map (cmd_buffer s) [Suc (length l)..<256]" by simp
  moreover have "\<forall>c \<in> set l. c \<noteq> 0" using assms(3) by (auto simp: line_ok_def)
  ultimately show ?thesis by (simp add: cmd_string_def takeWhile_append2 del: upt_rec_numeral)
qed

lemma set_command_sel [simp]:
  "history (set_command l s) = history s" "history_count (set_command l s) = history_count s"
  "history_idx (set_command l s) = history_idx s" "mach (set_command l s) = mach s" "cmd_pos (set_command l s) = cmd_pos s"
  "i < length l \<Longrightarrow> cmd_buffer (set_command l s) i = l ! i" "cmd_buffer (set_command l s) (length l) = 0"
  by (simp_all add: set_command_def)

lemma set_command_string: "line_ok l \<Longrightarrow> cmd_string (set_command l s) = l"
  by (rule cmd_string_line) simp_all

lemma screen_do_sel [simp]:
  "history (screen_do g s) = history s" "history_count (screen_do g s) = history_count s" "history_idx (screen_do g s) = history_idx s"
  "cmd_buffer (screen_do g s) = cmd_buffer s" "cmd_pos (screen_do g s) = cmd_pos s" "mach (screen_do g s) = on_screen g (mach s)"
  by (simp_all add: screen_do_def)

text \<open>Printing leaves the editor as it is.\<close>

lemma displays_screen [simp]:
  "displays (screen_do g s) e = displays s e" "displays (shell_print_prompt s) e = displays s e"
  "displays (shell_refresh_line s) e = displays s e" "displays (s\<lparr>mach := m\<rparr>) e = displays s e"
  by (simp_all add: shell_print_prompt_def shell_refresh_line_def displays_def line_shows_def history_shows_def Let_def)

lemma only_screen_do: "only_screen a (mach s) \<Longrightarrow> only_screen a (mach (screen_do g s))"
  by (auto simp: only_screen_def on_screen_def)

lemma only_screen_refresh: "only_screen a (mach s) \<Longrightarrow> only_screen a (mach (shell_refresh_line s))"
  unfolding shell_refresh_line_def shell_print_prompt_def Let_def by (intro only_screen_do)

text \<open>Shifting the rows of a full history.\<close>

lemma shift_rows: "fold (\<lambda>i h. h(i - 1 := h i)) [1..<Suc n] h = (\<lambda>j. if j < n then h (Suc j) else (h :: nat \<Rightarrow> 'a) j)"
proof (induction n)
  case (Suc n)
  have "[1..<Suc (Suc n)] = [1..<Suc n] @ [Suc n]" by simp
  then have "fold (\<lambda>i h. h(i - 1 := h i)) [1..<Suc (Suc n)] h =
      (fold (\<lambda>i h. h(i - 1 := h i)) [1..<Suc n] h)(n := fold (\<lambda>i h. h(i - 1 := h i)) [1..<Suc n] h (Suc n))"
    by (simp only: fold_append comp_apply fold.simps id_apply diff_Suc_1)
  then have "fold (\<lambda>i h. h(i - 1 := h i)) [1..<Suc (Suc n)] h = (\<lambda>j. if j < n then h (Suc j) else h j)(n := h (Suc n))"
    unfolding Suc.IH by simp
  also have "\<dots> = (\<lambda>j. if j < Suc n then h (Suc j) else h j)" by (auto simp: fun_eq_iff less_Suc_eq)
  finally show ?case .
qed simp

lemma shell_add_history_keeps:
  assumes "history_shows s ls" "line_ok l" "history_idx s \<le> length ls"
  shows "history_shows (shell_add_history l s) (keep l ls)"
    and "l \<noteq> [] \<Longrightarrow> history_idx (shell_add_history l s) = history_count (shell_add_history l s)"
proof -
  have "history_shows (shell_add_history l s) (keep l ls)" if "l \<noteq> []" "length ls < 10"
    using assms that by (auto simp: history_shows_def shell_add_history_def keep_def Let_def nth_append)
  moreover have "history_shows (shell_add_history l s) (keep l ls)" if ne: "l \<noteq> []" and full: "\<not> length ls < 10"
  proof -
    have n: "length ls = 10" using assms(1) full by (simp add: history_shows_def)
    have ten: "[1..<10] = [1..<Suc 9]" by simp
    have "fold (\<lambda>i h. h(i - 1 := h i)) [1..<10] (history s) = (\<lambda>j. if j < 9 then history s (Suc j) else history s j)"
      unfolding ten by (rule shift_rows)
    then show ?thesis using assms ne n
      by (auto simp: history_shows_def shell_add_history_def keep_def Let_def nth_append dest: in_set_dropD simp del: upt_rec_numeral)
  qed
  moreover have "history_shows (shell_add_history l s) (keep l ls)" if "l = []"
    using assms that by (simp add: shell_add_history_def keep_def)
  ultimately show "history_shows (shell_add_history l s) (keep l ls)" by blast
  show "l \<noteq> [] \<Longrightarrow> history_idx (shell_add_history l s) = history_count (shell_add_history l s)"
    by (simp add: shell_add_history_def Let_def)
qed

text \<open>Every key but Enter.\<close>

lemma printable_nonzero: "0x20 \<le>s c \<Longrightarrow> c \<noteq> (0 :: u8)"
  by (auto simp: word_sle_eq)

lemma displays_recall:
  assumes "history_shows s ls" "i < length ls" "history_idx s = i"
  shows "displays (let s' = set_command (history s i) s in s'\<lparr>cmd_pos := length (cmd_string s')\<rparr>)
    \<lparr>line = ls ! i, lines_kept = ls, view = i\<rparr>"
proof -
  have "line_ok (ls ! i)" "history s i = ls ! i" using assms by (auto simp: history_shows_def)
  then show ?thesis using assms
    by (simp add: set_command_string displays_def line_shows_def history_shows_def Let_def)
qed

lemma shell_key_up:
  assumes "displays s e" "0 < view e"
  shows "\<exists>s'. shell_key 0x11 s = Some (Returned, s') \<and> displays s' (edit_key 0x11 e) \<and> only_screen (mach s) (mach s')"
proof -
  let ?s = "s\<lparr>history_idx := view e - 1\<rparr>"
  have h: "history_shows ?s (lines_kept e)" "view e - 1 < length (lines_kept e)" "history_idx s = view e"
    using assms by (auto simp: displays_def history_shows_def)
  from displays_recall [OF h(1,2)] have d: "displays (let s' = set_command (history s (view e - 1)) ?s in s'\<lparr>cmd_pos := length (cmd_string s')\<rparr>)
    (edit_key 0x11 e)" using assms(2) by (cases e) (simp add: edit_key_def)
  show ?thesis using d h(3) assms(2)
    by (auto simp: shell_key_def Let_def intro!: only_screen_refresh only_screen_refl)
qed

lemma shell_key_down:
  assumes "displays s e" "view e < length (lines_kept e)"
  shows "\<exists>s'. shell_key 0x12 s = Some (Returned, s') \<and> displays s' (edit_key 0x12 e) \<and> only_screen (mach s) (mach s')"
proof -
  let ?s = "s\<lparr>history_idx := view e + 1\<rparr>"
  have h: "history_shows ?s (lines_kept e)" "history_idx s = view e" "history_count s = length (lines_kept e)"
    using assms by (auto simp: displays_def history_shows_def)
  have d: "displays (let s' = set_command (history s (view e + 1)) ?s in s'\<lparr>cmd_pos := length (cmd_string s')\<rparr>) (edit_key 0x12 e)"
    if "view e + 1 < length (lines_kept e)" using displays_recall [OF h(1) that] that by (cases e) (simp add: edit_key_def)
  have "displays (?s\<lparr>cmd_buffer := (cmd_buffer s)(0 := 0), cmd_pos := 0\<rparr>) (edit_key 0x12 e)"
    if "view e + 1 = length (lines_kept e)"
    using h(1) that by (simp add: edit_key_def displays_def line_shows_def line_ok_def history_shows_def)
  with d show ?thesis using h(2,3) assms(2)
    by (cases "view e + 1 = length (lines_kept e)") (auto simp: shell_key_def Let_def intro!: only_screen_refresh only_screen_refl)
qed

lemma shell_key_type:
  assumes "displays s e" "0x20 \<le>s c" "length (line e) < 255" "c \<noteq> 10" "c \<noteq> 8" "c \<noteq> 0x11" "c \<noteq> 0x12"
  shows "\<exists>s'. shell_key c s = Some (Returned, s') \<and> displays s' (edit_key c e) \<and> only_screen (mach s) (mach s')"
  using assms printable_nonzero [OF assms(2)]
  by (auto simp: shell_key_def edit_key_def displays_def line_shows_def line_ok_def history_shows_def nth_append
      intro: only_screen_on_screen)

lemma shell_key_edit:
  assumes "displays s e" "c \<noteq> 10"
  shows "\<exists>s'. shell_key c s = Some (Returned, s') \<and> displays s' (edit_key c e) \<and> only_screen (mach s) (mach s')"
proof -
  have sel: "cmd_pos s = length (line e)" "history_idx s = view e" "history_count s = length (lines_kept e)"
    using assms by (auto simp: displays_def line_shows_def history_shows_def)
  have erase: ?thesis if "c = 8"
    using assms that
    by (auto simp: shell_key_def edit_key_def displays_def line_shows_def line_ok_def history_shows_def nth_butlast
        dest: in_set_butlastD intro: only_screen_on_screen only_screen_refl)
  have stay: ?thesis if "shell_key c s = Some (Returned, s)" "edit_key c e = e"
    using assms(1) that only_screen_refl [of "mach s"] by auto
  let ?acts = "c = 8 \<or> c = 0x11 \<and> 0 < view e \<or> c = 0x12 \<and> view e < length (lines_kept e)
    \<or> c \<noteq> 8 \<and> c \<noteq> 0x11 \<and> c \<noteq> 0x12 \<and> 0x20 \<le>s c \<and> length (line e) < 255"
  have idle: "shell_key c s = Some (Returned, s) \<and> edit_key c e = e" if "\<not> ?acts"
    using that assms(2) sel by (auto simp: shell_key_def edit_key_def)
  consider "c = 8" | "c = 0x11" "0 < view e" | "c = 0x12" "view e < length (lines_kept e)"
    | "c \<noteq> 8" "c \<noteq> 0x11" "c \<noteq> 0x12" "0x20 \<le>s c" "length (line e) < 255" | "\<not> ?acts"
    by satx
  then show ?thesis
    using erase stay idle shell_key_up [OF assms(1)] shell_key_down [OF assms(1)] shell_key_type [OF assms(1)] assms(2) by cases simp_all
qed

lemma shell_add_history_sel [simp]:
  "cmd_buffer (shell_add_history l s) = cmd_buffer s" "mach (shell_add_history l s) = mach s"
  "cmd_string (shell_add_history l s) = cmd_string s"
  by (simp_all add: shell_add_history_def Let_def cmd_string_def)

lemma shell_key_enter:
  assumes "displays s e"
  defines "m \<equiv> on_screen (vga_putchar 10) (mach s)"
  shows "shell_execute_command (line e) m = Some (r, m') \<Longrightarrow> \<exists>s'. shell_key 10 s = Some (r, s') \<and>
      (if r = Returned then displays s' (edit_key 10 e) \<and> only_screen m' (mach s') else mach s' = m')"
    and "shell_execute_command (line e) m = None \<Longrightarrow> shell_key 10 s = None"
proof -
  let ?s = "(screen_do (vga_putchar 10) s)\<lparr>cmd_buffer := (cmd_buffer s)(cmd_pos s := 0)\<rparr>"
  let ?h = "shell_add_history (line e) ?s"
  let ?after = "\<lambda>m. ?h\<lparr>mach := m, cmd_pos := 0, history_idx := history_count ?h\<rparr>"
  have l: "line_shows s (line e)" "line_ok (line e)" "history_shows ?s (lines_kept e)" "history_idx ?s \<le> length (lines_kept e)"
    using assms by (auto simp: displays_def line_shows_def history_shows_def)
  have str: "cmd_string ?s = line e" using l(1) by (intro cmd_string_line) (auto simp: line_shows_def)
  have mach: "mach ?s = m" by (simp add: m_def)
  have key: "shell_key 10 s = Option.bind (shell_execute_command (line e) m) (\<lambda>(r, m).
      Some (r, if r = Returned then shell_print_prompt (?after m) else ?h\<lparr>mach := m\<rparr>))"
    unfolding shell_key_def Let_def shell_add_history_sel str by (simp add: m_def cong: if_cong)
  have kept: "history_shows ?h (keep (line e) (lines_kept e))" by (rule shell_add_history_keeps(1) [OF l(3,2,4)])
  then have disp: "displays (?after m') (edit_key 10 e)" for m'
    by (simp add: displays_def line_shows_def line_ok_def history_shows_def edit_key_def Let_def)
  have scr: "only_screen m' (mach (shell_print_prompt (?after m')))" for m'
    unfolding shell_print_prompt_def by (intro only_screen_do) (simp add: only_screen_refl)
  show "shell_key 10 s = None" if "shell_execute_command (line e) m = None"
    using that by (simp add: key)
  show "\<exists>s'. shell_key 10 s = Some (r, s') \<and>
      (if r = Returned then displays s' (edit_key 10 e) \<and> only_screen m' (mach s') else mach s' = m')"
    if "shell_execute_command (line e) m = Some (r, m')"
    using disp scr that unfolding key by (cases r) simp_all
qed

section \<open>The editor refines the editor on lists\<close>

text \<open>C3: Typing is refined by the editor on lists. Whatever is typed or recalled before Enter, the command buffer, the
  position in it, the history rows and the history index stay those of an editor that keeps the line as a list of
  at most 255 characters and the last lines as a list of at most ten; nothing but the screen of the machine changes, and no
  key blocks or faults. Enter then runs exactly the line of the list editor, whose lines kept it extends.\<close>

theorem shell_refines_line_editor:
  fixes s :: "'e shell"
  assumes "displays s e" "10 \<notin> set keys"
  defines "e' \<equiv> fold edit_key keys e"
  shows "\<exists>s'. shell_keys keys s = Some (Returned, s') \<and> displays s' e' \<and> only_screen (mach s) (mach s') \<and>
    (case shell_execute_command (line e') (on_screen (vga_putchar 10) (mach s')) of
       None \<Rightarrow> shell_key 10 s' = None
     | Some (r, m) \<Rightarrow> (\<exists>s''. shell_key 10 s' = Some (r, s'') \<and>
         (if r = Returned then displays s'' (edit_key 10 e') \<and> only_screen m (mach s'') else mach s'' = m)))"
proof -
  have "\<exists>s'. shell_keys keys s = Some (Returned, s') \<and> displays s' e' \<and> only_screen (mach s) (mach s')"
    using assms(1,2) unfolding e'_def
  proof (induction keys arbitrary: s e)
    case Nil
    then show ?case by (simp add: only_screen_refl)
  next
    case (Cons c keys)
    then obtain s1 where "shell_key c s = Some (Returned, s1)" "displays s1 (edit_key c e)" "only_screen (mach s) (mach s1)"
      using shell_key_edit [of s e c] by auto
    with Cons.IH [of s1 "edit_key c e"] Cons.prems show ?case by (auto intro: only_screen_trans)
  qed
  then obtain s' where s': "shell_keys keys s = Some (Returned, s')" "displays s' e'" "only_screen (mach s) (mach s')" by blast
  with shell_key_enter [OF s'(2)] show ?thesis
    by (intro exI [of _ s']) (cases "shell_execute_command (line e') (on_screen (vga_putchar 10) (mach s'))"; simp add: case_prod_beta)
qed

text \<open>A shell with one line in its history: it is recalled, its last two characters erased, and one typed.\<close>

definition used_shell :: "unit machine \<Rightarrow> unit shell" where
  "used_shell m = \<lparr>mach = m, history = (\<lambda>_. lit ''pwd''), history_count = 1, history_idx = 1, cmd_buffer = (\<lambda>_. 0), cmd_pos = 0\<rparr>"

theorem shell_refines_line_editor_witness:
  "\<forall>m. \<exists>s'. shell_keys [0x11, 8, 8, ch CHR ''s''] (used_shell m) = Some (Returned, s')
     \<and> displays s' \<lparr>line = lit ''ps'', lines_kept = [lit ''pwd''], view = 0\<rparr>"
proof
  fix m
  have "displays (used_shell m) \<lparr>line = [], lines_kept = [lit ''pwd''], view = 1\<rparr>"
    by (simp add: displays_def line_shows_def history_shows_def line_ok_def used_shell_def)
  moreover have "10 \<notin> set [0x11, 8, 8, ch CHR ''s'']" by simp
  moreover have "fold edit_key [0x11, 8, 8, ch CHR ''s''] \<lparr>line = [], lines_kept = [lit ''pwd''], view = 1\<rparr> =
      \<lparr>line = lit ''ps'', lines_kept = [lit ''pwd''], view = 0\<rparr>"
    by (simp add: edit_key_def word_sle_eq)
  ultimately show "\<exists>s'. shell_keys [0x11, 8, 8, ch CHR ''s''] (used_shell m) = Some (Returned, s')
     \<and> displays s' \<lparr>line = lit ''ps'', lines_kept = [lit ''pwd''], view = 0\<rparr>"
    using shell_refines_line_editor [of "used_shell m" "\<lparr>line = [], lines_kept = [lit ''pwd''], view = 1\<rparr>" "[0x11, 8, 8, ch CHR ''s'']"]
    by auto
qed

end
