(* ===== verification/ShellCommands.thy ===== *)
theory ShellCommands
  imports Shell FatFiles
begin

text \<open>
  What the commands of the shell do: the numbers they write and read, the commands that only print, the two meanings of
  \<^verbatim>\<open>kill\<close>, and \<^verbatim>\<open>write\<close> followed by \<^verbatim>\<open>cat\<close>, which composes the shell, the
  heap, the file system and the console.
\<close>

section \<open>Numbers\<close>

lemma unat_div_10: "unat ((n :: u32) div 10) = unat n div 10" "unat (n mod 10) = unat n mod 10"
  by (simp_all add: unat_div unat_mod)

lemma digit_word: "ch CHR ''0'' + ucast ((n :: u32) mod 10) = digit_char (unat n mod 10)"
proof -
  have "(ucast (n mod 10) :: u8) = of_nat (unat (n mod 10))" by simp
  then show ?thesis by (simp only: unat_div_10 digit_char_def) simp
qed

lemma dec_loop_digits: "dec_loop n t = t @ digits_rev 10 (unat n)"
proof (induction n t rule: dec_loop.induct)
  case (1 n t)
  show ?case
  proof (cases "n = 0")
    case True
    then show ?thesis by (simp add: dec_loop.simps digits_rev.simps)
  next
    case False
    then have "0 < n" by (simp add: word_gt_0)
    then have "dec_loop n t = (t @ [digit_char (unat n mod 10)]) @ digits_rev 10 (unat n div 10)"
      using 1 by (subst dec_loop.simps) (simp only: digit_word unat_div_10 if_True)
    moreover have "unat n \<noteq> 0" using False by (simp add: unat_eq_0)
    ultimately show ?thesis by (subst digits_rev.simps) simp
  qed
qed

lemma dec_string_digits: "dec_string n = uint_to_str n 10"
  by (simp add: dec_string_def uint_to_str_def dec_loop_digits)

text \<open>Reading digits back, whatever the width of the variable.\<close>

definition is_digit :: "u8 \<Rightarrow> bool" where
  "is_digit c \<longleftrightarrow> ch CHR ''0'' \<le> c \<and> c \<le> ch CHR ''9''"

lemma parse_dec_fold:
  "\<forall>c \<in> set ds. is_digit c \<Longrightarrow> parse_dec n (ds @ rest) = parse_dec (fold (\<lambda>c n. n * 10 + (ucast c - 48)) ds n) rest"
  by (induction ds arbitrary: n) (simp_all add: is_digit_def)

lemma parse_dec_stop: "rest = [] \<or> \<not> is_digit (hd rest) \<Longrightarrow> parse_dec n rest = (n, rest)"
  by (cases rest) (auto simp: is_digit_def)

lemma digit_char_is: "d < 10 \<Longrightarrow> is_digit (digit_char d) \<and> ucast (digit_char d) - 48 = (of_nat d :: 'a::len word)"
proof -
  assume "d < 10"
  then have "d \<in> set [0..<10]" by simp
  moreover have "\<forall>d \<in> set [0..<10]. is_digit (digit_char d) \<and> ucast (digit_char d) - 48 = (of_nat d :: 'a word)"
    by (simp add: is_digit_def digit_char_def upt_rec)
  ultimately show ?thesis by blast
qed

lemma digits_rev_read:
  "(\<forall>c \<in> set (digits_rev 10 v). is_digit c) \<and>
   fold (\<lambda>c n. n * 10 + (ucast c - 48)) (rev (digits_rev 10 v)) 0 = (of_nat v :: 'a::len word)"
proof (induction "10 :: nat" v rule: digits_rev.induct)
  case (1 v)
  show ?case
  proof (cases "v = 0")
    case True
    then show ?thesis by (simp add: digits_rev.simps)
  next
    case False
    have "v = v div 10 * 10 + v mod 10" by simp
    then have v: "(of_nat v :: 'a word) = of_nat (v div 10) * 10 + of_nat (v mod 10)" by (metis of_nat_add of_nat_mult of_nat_numeral)
    show ?thesis using 1 False digit_char_is [of "v mod 10", where 'a = 'a]
      by (subst (1 2) digits_rev.simps) (simp add: v)
  qed
qed

lemma parse_dec_string:
  assumes "rest = [] \<or> \<not> is_digit (hd rest)"
  shows "parse_dec 0 (dec_string n @ rest) = (ucast n :: 'a::len word, rest)"
proof (cases "n = 0")
  case True
  then show ?thesis using parse_dec_stop [OF assms] by (simp add: dec_string_def)
next
  case False
  have "\<forall>c \<in> set (dec_string n). is_digit c" using digits_rev_read False by (auto simp: dec_string_digits uint_to_str_def)
  then show ?thesis
    using False digits_rev_read [of "unat n", where 'a = 'a] parse_dec_stop [OF assms]
    by (simp add: parse_dec_fold) (simp add: dec_string_digits uint_to_str_def)
qed

text \<open>C39: The loops of the shell that write a number agree with the kernel log: on every 32-bit value they produce what
  \<^verbatim>\<open>uint_to_str\<close> prints in base 10, at most ten digits, so the buffers of sixteen bytes
  suffice. The loops that read a number read it back, up to the width of the variable, and stop behind it.\<close>

theorem shell_numbers_agree:
  assumes "rest = [] \<or> \<not> is_digit (hd rest)"
  shows "dec_string n = uint_to_str n 10 \<and> length (dec_string n) \<le> 10
    \<and> parse_dec (0 :: u32) (dec_string n @ rest) = (n, rest) \<and> parse_dec (0 :: u8) (dec_string n @ rest) = (ucast n, rest)"
proof -
  have "length (dec_string n) \<le> 10"
    using length_digits [of 10 "unat n" 10] unat_lt_two_power_32 [of n]
    by (simp add: dec_string_digits uint_to_str_def del: unat_lt_two_power_32)
  then show ?thesis using parse_dec_string [OF assms, of n, where 'a = 32] parse_dec_string [OF assms, of n, where 'a = 8]
    by (simp add: dec_string_digits)
qed

theorem shell_numbers_agree_witness: "parse_dec (0 :: u8) (dec_string 300 @ lit '' x'') = (44, lit '' x'')"
proof -
  have "lit '' x'' = [] \<or> \<not> is_digit (hd (lit '' x''))" by (simp add: is_digit_def)
  from shell_numbers_agree [OF this, of 300] have "parse_dec (0 :: u8) (dec_string 300 @ lit '' x'') = (ucast (300 :: u32), lit '' x'')"
    by blast
  then show ?thesis by simp
qed

section \<open>Processes by number\<close>

text \<open>C40: The number typed after \<^verbatim>\<open>kill\<close> or \<^verbatim>\<open>nice\<close> is the process that is
  killed or whose priority is set. What follows the number of a \<^verbatim>\<open>kill\<close> is ignored: the help text promises
  that a second number is sent as a signal, but the branch that parses it is shadowed by the first one, and the process
  is killed whatever the signal.\<close>

theorem shell_kill_and_nice_reach_process:
  assumes "rest = [] \<or> \<not> is_digit (hd rest)"
  shows "shell_execute_command (lit ''kill '' @ dec_string n @ rest) m =
      Option.bind (process_kill n (ps m)) (\<lambda>(killed, r, p). after r (say (if killed then nl @ lit ''Process Killed.'' @ nl @ nl
        else nl @ lit ''Failed to kill process (Not found or Kernel).'' @ nl @ nl)) (m\<lparr>ps := p\<rparr>))
    \<and> shell_execute_command (lit ''kill '' @ dec_string n @ lit '' '' @ dec_string sig) m =
      shell_execute_command (lit ''kill '' @ dec_string n) m
    \<and> shell_execute_command (lit ''nice '' @ dec_string n @ lit '' '' @ dec_string k) m =
      Option.bind (process_set_priority n (ucast k) (ps m)) (\<lambda>p.
        Some (Returned, say (nl @ lit ''Priority updated.'' @ nl @ nl) (m\<lparr>ps := p\<rparr>)))"
proof -
  have kill: "shell_execute_command (lit ''kill '' @ cs) m = cmd_kill_process (lit ''kill '' @ cs) m" for cs
    by (simp add: shell_execute_command_def starts_def)
  have nice: "shell_execute_command (lit ''nice '' @ cs) m = ret (cmd_nice (lit ''nice '' @ cs) m)" for cs
    by (simp add: shell_execute_command_def starts_def)
  have blank: "lit '' '' @ cs = [] \<or> \<not> is_digit (hd (lit '' '' @ cs))" for cs by (simp add: is_digit_def)
  have five: "drop 5 (lit ''kill '' @ cs) = cs" "drop 5 (lit ''nice '' @ cs) = cs" for cs by simp_all
  have k: "parse_dec 0 (dec_string n @ rest) = (n, rest)" "parse_dec 0 (dec_string n) = (n, [])"
    "parse_dec 0 (dec_string n @ lit '' '' @ cs) = (n, lit '' '' @ cs)" for cs
    using parse_dec_string [OF assms, of n, where 'a = 32] parse_dec_string [of "[]" n, where 'a = 32]
      parse_dec_string [OF blank, of n, where 'a = 32] by simp_all
  have skip: "skip_spaces (lit '' '' @ dec_string k) = dec_string k"
  proof -
    have "hd (dec_string k) \<noteq> ch CHR '' '' \<and> dec_string k \<noteq> []"
    proof (cases "k = 0")
      case False
      then have ne: "dec_string k \<noteq> []" by (simp add: dec_string_digits uint_to_str_def digits_rev.simps unat_gt_0)
      then have "is_digit (hd (dec_string k))"
        using digits_rev_read [of "unat k", where 'a = 8] False hd_in_set [OF ne] by (simp add: dec_string_digits uint_to_str_def)
      then show ?thesis using ne by (auto simp: is_digit_def)
    qed (simp add: dec_string_def)
    then show ?thesis by (cases "dec_string k") (simp_all add: skip_spaces_def)
  qed
  have p: "fst (parse_dec 0 (skip_spaces (lit '' '' @ dec_string k))) = (ucast k :: u8)"
    unfolding skip using parse_dec_string [of "[]" k, where 'a = 8] by simp
  show ?thesis
    unfolding kill nice cmd_kill_process_def cmd_nice_def five k prod.case p fst_conv ret_def ok_def
    by (cases "process_set_priority n (ucast k) (ps m)") simp_all
qed

section \<open>Commands that only print\<close>

lemma log_only: "log str fmt args m = Some m' \<Longrightarrow> only_screen m m'"
proof -
  assume l: "log str fmt args m = Some m'"
  have "current_log_level l' = current_log_level s" if "vprintk str fmt args s = Inr l'" for s l'
    using that by (auto simp: vprintk_def split: prod.splits if_splits sum.splits)
  then obtain l' where l': "m' = m\<lparr>klog_of := l'\<rparr>" "current_log_level l' = current_log_level (klog_of m)"
    using l by (auto simp: log_def split: sum.splits)
  then have "l' = (klog_of m)\<lparr>screen := screen l'\<rparr>" by simp
  then have "m' = on_screen (\<lambda>_. screen l') m" unfolding on_screen_def l'(1) by (rule arg_cong)
  then show ?thesis unfolding only_screen_def by blast
qed

lemma pr_only: "pr level fmt args m = Some m' \<Longrightarrow> only_screen m m'" "pr_str str level fmt args m = Some m' \<Longrightarrow> only_screen m m'"
  by (simp_all add: pr_def pr_str_def log_only)

lemma bind_only: "Option.bind r g = Some m' \<Longrightarrow> (\<And>x. r = Some x \<Longrightarrow> only_screen m x) \<Longrightarrow> (\<And>x m'. g x = Some m' \<Longrightarrow> only_screen x m')
    \<Longrightarrow> only_screen m m'"
  by (cases r) (auto intro: only_screen_trans)

lemma each_only:
  assumes "each g xs m = Some m'" "\<And>x m m'. g x m = Some m' \<Longrightarrow> only_screen m m'"
  shows "only_screen m m'"
proof -
  have "fold (\<lambda>x r. Option.bind r (g x)) xs r = Some m' \<Longrightarrow> \<exists>m0. r = Some m0 \<and> only_screen m0 m'" for r
  proof (induction xs arbitrary: r)
    case (Cons x xs)
    then obtain m1 where "Option.bind r (g x) = Some m1" "only_screen m1 m'" by (auto dest: Cons.IH)
    then show ?case by (cases r) (auto intro: only_screen_trans dest: assms(2))
  qed (simp add: only_screen_refl)
  then show ?thesis using assms(1) by (auto simp: each_def)
qed

lemma run_only: "\<forall>g \<in> set gs. \<forall>m. only_screen m (g m) \<Longrightarrow> only_screen m (run gs m)"
  unfolding run_def by (induction gs arbitrary: m) (auto intro: only_screen_refl only_screen_trans)

lemma fold_only: "\<forall>x \<in> set xs. \<forall>m. only_screen m (g x m) \<Longrightarrow> only_screen m (fold g xs m)"
  by (induction xs arbitrary: m) (auto intro: only_screen_refl only_screen_trans)

lemmas prints_only = only_screen_on_screen only_screen_refl pr_only

lemma on_screen_only: "only_screen m m1 \<Longrightarrow> only_screen m (on_screen g m1)"
  by (rule only_screen_trans [OF _ only_screen_on_screen])

lemma reports_only:
  "cmd_ps m = Some m' \<Longrightarrow> only_screen m m'" "slab_stats m = Some m' \<Longrightarrow> only_screen m m'"
  "cmd_test_log m = Some m' \<Longrightarrow> only_screen m m'" "cmd_ktimers m = Some m' \<Longrightarrow> only_screen m m'"
  "cmd_workqueues m = Some m' \<Longrightarrow> only_screen m m'" "cmd_netstat m = Some m' \<Longrightarrow> only_screen m m'"
  "cmd_messages a b m = Some m' \<Longrightarrow> only_screen m m'" "cmd_top m = Some m' \<Longrightarrow> only_screen m m'"
proof -
  have line: "debug_line p m = Some m' \<Longrightarrow> only_screen m m'" for p m m'
    unfolding debug_line_def Let_def by (elim bind_only) (auto intro: prints_only split: if_splits)
  have info: "kmem_cache_info c m = Some m' \<Longrightarrow> only_screen m m'" for c m m'
    unfolding kmem_cache_info_def Let_def by (auto elim!: bind_only intro: prints_only split: if_splits)
  have nodes: "Option.bind (nodes_of q l) g = Some m' \<Longrightarrow> (\<And>ns. g ns = Some m' \<Longrightarrow> only_screen m m') \<Longrightarrow> only_screen m m'" for q l g m m'
    by (auto simp: bind_eq_Some_conv)
  have debug: "process_debug_list m = Some m' \<Longrightarrow> only_screen m m'" for m m'
    unfolding process_debug_list_def
    by (elim bind_only nodes) (auto intro: prints_only line elim: each_only)
  show "cmd_ps m = Some m' \<Longrightarrow> only_screen m m'"
    unfolding cmd_ps_def by (auto intro!: on_screen_only dest!: debug intro: only_screen_trans [OF only_screen_on_screen])
  show "slab_stats m = Some m' \<Longrightarrow> only_screen m m'"
    unfolding slab_stats_def
    by (elim bind_only nodes) (auto intro: prints_only info elim: each_only)
  show "cmd_test_log m = Some m' \<Longrightarrow> only_screen m m'"
    unfolding cmd_test_log_def by (erule each_only) (auto intro: prints_only)
  show "cmd_ktimers m = Some m' \<Longrightarrow> only_screen m m'"
    unfolding cmd_ktimers_def Let_def by (elim bind_only) (auto intro: prints_only)
  show "cmd_workqueues m = Some m' \<Longrightarrow> only_screen m m'"
    unfolding cmd_workqueues_def by (rule pr_only)
  show "cmd_netstat m = Some m' \<Longrightarrow> only_screen m m'"
    unfolding cmd_netstat_def by (elim bind_only) (auto simp: bind_eq_Some_conv intro: prints_only split: if_splits)
  show "cmd_messages a b m = Some m' \<Longrightarrow> only_screen m m'"
    unfolding cmd_messages_def by (elim bind_only) (auto intro: prints_only)
  have pad: "only_screen m (pad w str m)" for w str and m :: "'b machine"
    unfolding pad_def by (rule run_only) (auto intro: prints_only)
  have top: "only_screen m (top_line p m)" for p and m :: "'b machine"
    unfolding top_line_def Let_def by (rule run_only) (auto intro: prints_only pad)
  let ?head = "\<lambda>m. run [say (nl @ lit ''PID  | Priority | Runtime | State'' @ nl), say (lit ''---- | -------- | ------- | --------'' @ nl)] m"
  have head: "only_screen m (?head m)" by (rule run_only) (auto intro: prints_only)
  have rows: "only_screen m (fold top_line ns (?head m))" for ns
    by (rule only_screen_trans [OF head fold_only]) (simp add: top)
  show "cmd_top m = Some m' \<Longrightarrow> only_screen m m'"
    unfolding cmd_top_def Let_def bind_eq_Some_conv
    using on_screen_only [OF head] on_screen_only [OF rows] by (auto simp: bind_eq_Some_conv simp del: list.map split: if_splits)
qed

definition printing_commands :: "string list" where
  "printing_commands = [''help'', ''clear'', ''ls'', ''about'', ''timer_info'', ''mem_stats'', ''fs_space'', ''uptime'', ''pwd'', ''mem'']"

definition reporting_commands :: "string list" where
  "reporting_commands = [''ps'', ''top'', ''slabinfo'', ''test_log'', ''ktimers'', ''workqueues'', ''netstat'', ''lsfd'', ''lsblk'', ''lsdev'']"

lemma printing_only:
  "only_screen m (cmd_help m)" "only_screen m (on_screen vga_clear m)" "only_screen m (cmd_ls m)" "only_screen m (cmd_about m)"
  "only_screen m (cmd_timer_info m)" "only_screen m (cmd_mem_stats m)" "only_screen m (cmd_fs_space m)" "only_screen m (cmd_uptime m)"
  "only_screen m (cmd_pwd m)" "only_screen m (cmd_mem m)" "only_screen m (cmd_echo cmd m)" "only_screen m (cmd_color cmd m)"
proof -
  have say: "\<forall>g \<in> set gs. \<exists>f. g = on_screen f \<Longrightarrow> only_screen m (run gs m)" for gs and m :: "'b machine"
    by (rule run_only) (auto intro: prints_only)
  show "only_screen m (cmd_help m)"
    unfolding cmd_help_def by (intro on_screen_only only_screen_trans [OF only_screen_on_screen fold_only]) (auto intro: prints_only)
  show "only_screen m (on_screen vga_clear m)" by (rule only_screen_on_screen)
  show "only_screen m (cmd_ls m)" unfolding cmd_ls_def by (rule say) auto
  show "only_screen m (cmd_about m)" unfolding cmd_about_def by (rule say) auto
  show "only_screen m (cmd_timer_info m)" unfolding cmd_timer_info_def timer_get_stats_def prod.case by (rule say) auto
  show "only_screen m (cmd_mem_stats m)" unfolding cmd_mem_stats_def pmm_get_stats_def prod.case Let_def by (rule say) auto
  show "only_screen m (cmd_fs_space m)" unfolding cmd_fs_space_def Let_def by (rule say) auto
  show "only_screen m (cmd_uptime m)" unfolding cmd_uptime_def Let_def by (rule say) auto
  show "only_screen m (cmd_pwd m)" unfolding cmd_pwd_def by (rule say) auto
  show "only_screen m (cmd_mem m)" unfolding cmd_mem_def pmm_get_stats_def prod.case by (rule say) auto
  show "only_screen m (cmd_echo cmd m)" unfolding cmd_echo_def by (rule say) auto
  show "only_screen m (cmd_color cmd m)"
    unfolding cmd_color_def by (auto intro: on_screen_only prints_only)
qed

text \<open>The commands that report only print. \<^verbatim>\<open>help\<close>, \<^verbatim>\<open>clear\<close>, \<^verbatim>\<open>ls\<close>, \<^verbatim>\<open>about\<close>, \<^verbatim>\<open>timer_info\<close>,
  \<^verbatim>\<open>mem_stats\<close>, \<^verbatim>\<open>fs_space\<close>, \<^verbatim>\<open>uptime\<close>, \<^verbatim>\<open>pwd\<close> and \<^verbatim>\<open>mem\<close> always return, and so do \<^verbatim>\<open>echo\<close> with any text and
  \<^verbatim>\<open>color\<close> with any argument; the reports that walk a kernel list or write to the log return to the caller when they return at
  all. None of them changes anything but the screen: no process, file, timer, work item, device or allocation.\<close>

theorem shell_reports_only_print:
  "(cmd \<in> lit ` set printing_commands \<or> starts cmd ''echo '' \<or> starts cmd ''color'' \<longrightarrow>
      (\<exists>m'. shell_execute_command cmd m = Some (Returned, m') \<and> only_screen m m'))
    \<and> (cmd \<in> lit ` set reporting_commands \<and> shell_execute_command cmd m = Some (r, m') \<longrightarrow> r = Returned \<and> only_screen m m')"
proof (intro conjI impI)
  assume c: "cmd \<in> lit ` set printing_commands \<or> starts cmd ''echo '' \<or> starts cmd ''color''"
  have echo_length: "length ''echo '' = 5" and color_length: "length ''color'' = 5" by simp_all
  have echo: "shell_execute_command (lit ''echo '' @ cs) m = ok (cmd_echo (lit ''echo '' @ cs) m)" for cs
    by (simp add: shell_execute_command_def starts_def)
  have color: "shell_execute_command (lit ''color'' @ cs) m = ok (cmd_color (lit ''color'' @ cs) m)" for cs
    by (simp add: shell_execute_command_def starts_def)
  have "shell_execute_command cmd m \<in> ok ` {cmd_help m, on_screen vga_clear m, cmd_ls m, cmd_about m, cmd_timer_info m,
      cmd_mem_stats m, cmd_fs_space m, cmd_uptime m, cmd_pwd m, cmd_mem m, cmd_echo cmd m, cmd_color cmd m}"
    using c
  proof (elim disjE)
    assume "cmd \<in> lit ` set printing_commands"
    then show ?thesis
      unfolding printing_commands_def list.set image_insert image_empty
      by (elim insertE emptyE) (simp_all add: shell_execute_command_def starts_def)
  next
    assume "starts cmd ''echo ''"
    then have "lit ''echo '' @ drop 5 cmd = cmd" using append_take_drop_id [of 5 cmd] unfolding starts_def by (metis echo_length)
    then show ?thesis using echo [of "drop 5 cmd"] by simp
  next
    assume "starts cmd ''color''"
    then have "lit ''color'' @ drop 5 cmd = cmd" using append_take_drop_id [of 5 cmd] unfolding starts_def by (metis color_length)
    then show ?thesis using color [of "drop 5 cmd"] by simp
  qed
  then show "\<exists>m'. shell_execute_command cmd m = Some (Returned, m') \<and> only_screen m m'"
    unfolding ok_def using printing_only by (elim imageE insertE emptyE) auto
next
  assume c: "cmd \<in> lit ` set reporting_commands \<and> shell_execute_command cmd m = Some (r, m')"
  let ?X = "{cmd_ps m, cmd_top m, slab_stats m, cmd_test_log m, cmd_ktimers m, cmd_workqueues m, cmd_netstat m}
      \<union> range (\<lambda>(a, b). cmd_messages a b m)"
  have "shell_execute_command cmd m \<in> ret ` ?X"
    using c [THEN conjunct1] unfolding reporting_commands_def list.set image_insert image_empty image_Un
    by (elim insertE emptyE) (simp_all add: shell_execute_command_def starts_def image_iff, blast+)
  moreover have "\<forall>x \<in> ?X. \<forall>m'. x = Some m' \<longrightarrow> only_screen m m'" by (auto intro: reports_only)
  ultimately obtain x where x: "shell_execute_command cmd m = ret x" "\<forall>m'. x = Some m' \<longrightarrow> only_screen m m'" by blast
  then show "r = Returned" "only_screen m m'" using c by (cases x; simp add: ret_def ok_def)+
qed

theorem shell_reports_only_print_witness:
  "\<forall>m :: unit machine. \<exists>m1 m2. shell_execute_command (lit ''mem'') m = Some (Returned, m1) \<and> only_screen m m1
     \<and> shell_execute_command (lit ''color 14'') m = Some (Returned, m2) \<and> only_screen m m2"
proof
  fix m :: "unit machine"
  have "lit ''mem'' \<in> lit ` set printing_commands" "starts (lit ''color 14'') ''color''"
    unfolding printing_commands_def by (rule imageI) (simp_all add: starts_def)
  then show "\<exists>m1 m2. shell_execute_command (lit ''mem'') m = Some (Returned, m1) \<and> only_screen m m1
     \<and> shell_execute_command (lit ''color 14'') m = Some (Returned, m2) \<and> only_screen m m2"
    using shell_reports_only_print [of "lit ''mem''" m] shell_reports_only_print [of "lit ''color 14''" m] by blast
qed

theorem shell_kill_and_nice_reach_process_witness:
  "\<forall>m :: unit machine. shell_execute_command (lit ''kill '' @ dec_string 3 @ lit '' '' @ dec_string 9) m =
      shell_execute_command (lit ''kill '' @ dec_string 3) m"
proof
  fix m :: "unit machine"
  show "shell_execute_command (lit ''kill '' @ dec_string 3 @ lit '' '' @ dec_string 9) m =
      shell_execute_command (lit ''kill '' @ dec_string 3) m"
    using shell_kill_and_nice_reach_process [of "[]" 3 m 9] by blast
qed

section \<open>A file written, then shown\<close>

lemma store_bytes_other: "(\<And>k. k < length bs \<Longrightarrow> a \<noteq> p + of_nat k) \<Longrightarrow> store_bytes p bs x a = x a"
proof (induction bs arbitrary: p x)
  case (Cons b bs)
  have "a \<noteq> p + 1 + of_nat k" if "k < length bs" for k using Cons.prems [of "Suc k"] that by (simp add: add.assoc)
  moreover have "a \<noteq> p" using Cons.prems [of 0] by simp
  ultimately show ?case using Cons.IH by simp
qed simp

lemma store_bytes_at: "length bs < 4294967296 \<Longrightarrow> k < length bs \<Longrightarrow> store_bytes p bs x (p + of_nat k) = bs ! k"
proof (induction bs arbitrary: p x k)
  case (Cons b bs)
  show ?case
  proof (cases k)
    case 0
    have "p \<noteq> p + 1 + of_nat j" if "j < length bs" for j
    proof
      assume "p = p + 1 + of_nat j"
      then have "(of_nat (Suc j) :: u32) = 0" by (simp add: add.assoc)
      then show False using that Cons.prems(1) unat_of_nat_u32 [of "Suc j"] by simp
    qed
    then show ?thesis using 0 by (simp add: store_bytes_other)
  next
    case (Suc j)
    then show ?thesis using Cons.IH [of j "p + 1"] Cons.prems by (simp add: add.assoc)
  qed
qed simp

text \<open>What the disk holds depends on the bytes of the disk only.\<close>

lemma same_disk:
  assumes "\<forall>a \<in> disk. x' a = x a"
  shows "fat12_find_file name x' = fat12_find_file name x" "table_ok x \<Longrightarrow> table_ok x'" "file_chain x' c cs = file_chain x c cs"
    "free_clusters x' = free_clusters x" "in_root e \<Longrightarrow> first_cluster_low x' e = first_cluster_low x e"
    "in_root e \<Longrightarrow> attributes x' e = attributes x e"
proof -
  have table: "x' a = x a" if "a \<in> table_area" for a using assms table_disk that by blast
  have get: "fat12_get_fat_entry x' c = fat12_get_fat_entry x c" if "good_cluster c" for c
    by (rule get_cong [OF table good_lt [OF that]])
  have root: "x' (e + of_nat k) = x (e + of_nat k)" if "in_root e" "k < 32" for e k using assms root_disk [OF that] by blast
  have "find_entry x' n root_entries = find_entry x n root_entries" for n
    by (rule find_entry_cong) (simp add: root root_entries_in_root)
  then show "fat12_find_file name x' = fat12_find_file name x" by (simp add: fat12_find_file_def split: option.split)
  show "table_ok x \<Longrightarrow> table_ok x'" by (rule table_ok_cong [OF table])
  show "file_chain x' c cs = file_chain x c cs"
    using get by (induction cs arbitrary: c) auto
  show "free_clusters x' = free_clusters x" using get by (auto simp: free_clusters_def)
  show "in_root e \<Longrightarrow> first_cluster_low x' e = first_cluster_low x e"
    using root [of e 26] root [of e 27] by (simp add: load16_def add.assoc)
  show "in_root e \<Longrightarrow> attributes x' e = attributes x e" using root [of e 11] by simp
qed

lemma cstr_bytes: "(\<And>k. k < length bs \<Longrightarrow> x (p + of_nat k) = bs ! k) \<Longrightarrow> x (p + of_nat (length bs)) = 0 \<Longrightarrow> 0 \<notin> set bs \<Longrightarrow> cstr x p bs"
proof (induction bs arbitrary: p)
  case (Cons b bs)
  have "x (p + 1 + of_nat k) = bs ! k" if "k < length bs" for k using Cons.prems(1) [of "Suc k"] that by (simp add: add.assoc)
  then show ?case using Cons.IH [of "p + 1"] Cons.prems(1) [of 0] Cons.prems(2,3) by (simp add: add.assoc)
qed simp

lemma string_at_bytes:
  assumes "\<And>k. k < length bs \<Longrightarrow> x (p + of_nat k) = bs ! k" "x (p + of_nat (length bs)) = 0" "0 \<notin> set bs" "length bs < 4294967296"
  shows "string_at x p = Some bs"
proof -
  have "strlen x p = Some (of_nat (length bs))"
    using strlen_loop_cstr [of x p 0 bs] cstr_bytes [OF assms(1-3)] by (simp add: strlen_def)
  moreover have "bytes_at x p (length bs) = bs" using assms(1) by (intro nth_equalityI) (simp_all add: bytes_at_nth)
  ultimately show ?thesis using unat_of_nat_u32 [OF assms(4)] by (simp add: string_at_def)
qed

lemma kmalloc_off_disk:
  assumes "heap_inv h bs" "(n, True) \<in> set bs" "4096 \<le> n"
  shows "\<exists>p h'. kmalloc 4096 h = Some (p, h') \<and> p \<noteq> 0 \<and> off_disk p 512"
proof -
  have "unat (align16 4096) = 4096" by (simp add: align16_def)
  moreover have "alloc_abs 4096 ARENA_START bs \<noteq> None"
  proof
    assume "alloc_abs 4096 ARENA_START bs = None"
    then have "n < 4096" using assms(2) by (auto simp: alloc_abs_None_iff)
    then show False using assms(3) by simp
  qed
  ultimately obtain p bs' where "alloc_abs (unat (align16 4096)) ARENA_START bs = Some (p, bs')" by auto
  from heap_alloc_new [OF assms(1) this] obtain h' k where p: "kmalloc 4096 h = Some (of_nat p, h')" "heap_inv h' bs'"
    "unat (of_nat p :: u32) = p" "p \<noteq> 0" "(p, k) \<in> live ARENA_START bs'" "p + k \<le> ARENA_END" by blast
  have "ARENA_START + 12 \<le> p" using heap_live_range [OF p(2,5)] by simp
  then have "off_disk (of_nat p) 512"
    using p(6) by (auto simp: off_disk_def disk_def unat_add_u32 unat_of_nat_u32 p(3))
  moreover have "(of_nat p :: u32) \<noteq> 0" using p(3,4) by (metis unat_0)
  ultimately show ?thesis using p(1) by blast
qed

text \<open>A byte outside the disk is no part of the file.\<close>

lemma written_file_elsewhere:
  assumes w: "written_file e old cs f len m m'" and off: "x \<notin> disk" and e: "in_root e"
  shows "written_file e old cs f len (m(x := b)) (m'(x := b))"
proof -
  define n where "n = m(x := b)"
  define n' where "n' = m'(x := b)"
  have d: "\<forall>a \<in> disk. n a = m a" "\<forall>a \<in> disk. n' a = m' a" using off by (auto simp: n_def n'_def)
  note s = same_disk [OF d(1)] and s' = same_disk [OF d(2)]
  note W = w [unfolded written_file_def]
  have "file_size n' e = file_size m' e"
    using d(2) root_disk [OF e, of 28] root_disk [OF e, of 29] root_disk [OF e, of 30] root_disk [OF e, of 31]
    by (simp add: load32_def add.assoc)
  moreover have "file_byte n' cs i = f i" if i: "i < unat len" for i
  proof -
    have "i div 512 < length cs" using i W by (auto simp: less_mult_imp_div_less)
    then have "good_cluster (cs ! (i div 512))" using file_chain_good W nth_mem by blast
    then have "cluster_ptr (cs ! (i div 512)) + of_nat (i mod 512) \<in> disk" using sector_disk sector_byte(1) by simp
    then show ?thesis using W i d(2) by (simp add: file_byte_def)
  qed
  moreover have "same_but e (set cs) n n'" using W by (simp add: same_but_def n_def n'_def)
  moreover have "fat12_get_fat_entry n c = fat12_get_fat_entry m c" "fat12_get_fat_entry n' c = fat12_get_fat_entry m' c"
    if "good_cluster c" for c
    using get_cong [OF _ good_lt [OF that]] d table_disk by blast+
  ultimately show ?thesis using W s(4) s'(2,3) s'(5) [OF e] unfolding n_def [symmetric] n'_def [symmetric] by (simp add: written_file_def)
qed

text \<open>C1: A file written from the shell is shown by \<^verbatim>\<open>cat\<close>. When the root directory has a file of that name that is no
  directory, the table is sound, the old clusters and the free ones suffice, the command buffer lies outside the disk and the
  heap has a free block of 4096 bytes, \<^verbatim>\<open>write\<close> with a text, not empty, that fits in the command buffer
  succeeds, and the next \<^verbatim>\<open>cat\<close> prints exactly that text between line breaks.\<close>

theorem shell_write_then_cat:
  assumes "fat12_find_file name (pmem (ps m)) = Some e" "attributes (pmem (ps m)) e \<noteq> ATTR_DIRECTORY" "table_ok (pmem (ps m))"
    and "file_chain (pmem (ps m)) (first_cluster_low (pmem (ps m)) e) old" "distinct old"
    and "length text \<le> 512 * card (free_clusters (pmem (ps m)) \<union> set old)"
    and "32 \<notin> set name" "0 \<notin> set text" "text \<noteq> []" "length name + length text \<le> 248" "off_disk (cmd_at m) 256"
    and "heap_inv (kheap_of (km (ps m))) bs" "(n, True) \<in> set bs" "4096 \<le> n"
  shows "\<exists>m1 m2. shell_execute_command (lit ''write '' @ name @ 32 # text) m = Some (Returned, m1)
    \<and> shell_execute_command (lit ''cat '' @ name) m1 = Some (Returned, m2)
    \<and> screen (klog_of m2) = vga_print (nl @ nl) (vga_print text (vga_print nl (screen (klog_of m1))))"
proof -
  let ?x = "pmem (ps m)" and ?cmd = "lit ''write '' @ name @ 32 # text"
  let ?i = "length name" and ?len = "of_nat (length text) :: u32"
  let ?data = "cmd_at m + 6 + of_nat ?i + 1"
  define buf where "buf = ?cmd[6 + ?i := 0] @ [0]"
  define x0 where "x0 = store_bytes (cmd_at m) buf ?x"
  have n: "length buf \<le> 256" using assms(10) by (simp add: buf_def)
  have len: "unat ?len = length text" using assms(10) by (simp add: unat_of_nat_u32)
  have x0: "\<forall>a \<in> disk. x0 a = ?x a"
    unfolding x0_def
  proof (intro ballI store_bytes_other)
    fix a k assume a: "a \<in> disk" and "k < length buf"
    then have "k < 256" using n by linarith
    then show "a \<noteq> cmd_at m + of_nat k" using assms(11) a by (auto simp: off_disk_def)
  qed
  have e: "in_root e" by (rule root_entries_in_root [OF find_file_member [OF assms(1)]])
  note same = same_disk [of x0 ?x, OF x0]
  have data: "x0 (?data + of_nat k) = text ! k" if "k < length text" for k
  proof -
    have at: "?data + of_nat k = cmd_at m + of_nat (7 + ?i + k)" by (simp add: algebra_simps)
    have "buf ! (7 + ?i + k) = text ! k" "7 + ?i + k < length buf" using that by (simp_all add: buf_def nth_append)
    then show ?thesis using store_bytes_at [of buf "7 + ?i + k" "cmd_at m" ?x] n unfolding x0_def at by simp
  qed
  have off: "off_disk ?data (unat ?len)"
    using off_disk_mono [OF assms(11), of "7 + ?i" "unat ?len"] assms(10) len by (simp add: algebra_simps)
  have w: "fat12_find_file name x0 = Some e" "attributes x0 e \<noteq> ATTR_DIRECTORY" "table_ok x0"
    "file_chain x0 (first_cluster_low x0 e) old" "unat ?len \<le> 512 * card (free_clusters x0 \<union> set old)"
    using assms(1-4,6) same(1,3,4) same(2) same(5,6) [OF e] len by simp_all
  obtain x1 cs where x1: "fat12_write_file name ?data ?len x0 = Some (FAT12_SUCCESS, x1)"
    "written_file e old cs (\<lambda>i. x0 (?data + of_nat i)) ?len x0 x1"
    using write_file_spec [OF w(1-4) assms(5) off w(5)] by blast
  let ?at = "cmd_at m + 6 + of_nat ?i"
  define x3 where "x3 = x1(?at := ch CHR '' '')"
  define x4 where "x4 = x0(?at := ch CHR '' '')"
  define m1 where "m1 = say (nl @ lit ''File written.'' @ nl @ nl) (set_pmem x3 m)"
  have written: "shell_execute_command ?cmd m = Some (Returned, m1)"
  proof -
    have "takeWhile (\<lambda>c. c \<noteq> ch CHR '' '') (name @ 32 # text) = name" "drop 6 ?cmd = name @ 32 # text"
      using assms(7) by (auto simp: takeWhile_append)
    then have "cmd_write ?cmd m = Some (say_result (nl @ lit ''File written.'' @ nl @ nl) (FAT12_SUCCESS, x3) m)"
      using x1(1) unfolding x3_def x0_def buf_def by (simp add: cmd_write_def Let_def)
    moreover have "shell_execute_command ?cmd m = ret (cmd_write ?cmd m)" by (simp add: shell_execute_command_def starts_def)
    ultimately show ?thesis by (simp add: ret_def ok_def say_result_def m1_def)
  qed
  have m1: "pmem (ps m1) = x3" "kheap_of (km (ps m1)) = kheap_of (km (ps m))"
    by (simp_all add: m1_def on_screen_def set_pmem_def set_memory_def)
  obtain p h where p: "kmalloc 4096 (kheap_of (km (ps m))) = Some (p, h)" "p \<noteq> 0" "off_disk p 512"
    using kmalloc_off_disk [OF assms(12-14)] by blast
  have l: "0 < length text" "length text \<le> 248" using assms(9,10) by auto
  then have "off_disk p (512 * ((unat ?len + 511) div 512))"
    using p(3) sectors_of [of "unat ?len"] len by simp
  have at: "?at \<notin> disk"
  proof
    assume "?at \<in> disk"
    moreover have "?at = cmd_at m + of_nat (6 + ?i)" "6 + ?i < 256" using assms(10) by (simp_all add: add.assoc)
    ultimately show False using assms(11) unfolding off_disk_def by metis
  qed
  have x4: "\<forall>a \<in> disk. x4 a = x0 a" using at by (auto simp: x4_def)
  note same4 = same_disk [OF x4]
  have w4: "fat12_find_file name x4 = Some e" "attributes x4 e \<noteq> ATTR_DIRECTORY"
    "file_chain x4 (first_cluster_low x4 e) old" "unat ?len \<le> 512 * card (free_clusters x4 \<union> set old)"
    using w same4(1,3,4) same4(5,6) [OF e] by simp_all
  note x34 = written_file_elsewhere [OF x1(2) at e, of "ch CHR '' ''", folded x3_def x4_def]
  from read_written_file [OF w4(1-3) x34 w4(4) \<open>off_disk p (512 * ((unat ?len + 511) div 512))\<close>] obtain x2 where
    x2: "fat12_read_file name p x3 = Some (Inr (int (length text)), x2)" "\<And>k. k < length text \<Longrightarrow> x2 (p + of_nat k) = text ! k"
    unfolding len using data by auto
  define y where "y = x2(p + of_nat (length text) := 0)"
  have "string_at y p = Some text"
  proof (rule string_at_bytes)
    show "y (p + of_nat k) = text ! k" if "k < length text" for k
    proof -
      have "(of_nat k :: u32) \<noteq> of_nat (length text)" 
        using that l(2) unat_of_nat_u32 [of k] unat_of_nat_u32 [of "length text"] by auto
      then show ?thesis using x2(2) [OF that] by (simp add: y_def)
    qed
  qed (use assms(8) l in \<open>simp_all add: y_def\<close>)
  moreover have "drop 4 (lit ''cat '' @ name) = name" by simp
  moreover have "pmem (ps (set_heap h m1)) = x3" using m1(1) by (simp add: set_heap_def)
  moreover have "0 < int (length text)" "int (length text) < 4096" using l by simp_all
  moreover have "p + word_of_int (int (length text)) = p + of_nat (length text)" by simp
  ultimately have "cmd_cat (lit ''cat '' @ name) m1 =
      (let m2 = run [say nl, say text, say (nl @ nl)] (set_pmem y (set_heap h m1)) in Some (set_heap (kfree p (kheap_of (km (ps m2)))) m2))"
    by (simp only: cmd_cat_def m1(2) p(1,2) Option.bind.simps Let_def prod.case x2(1) sum.case if_True if_False simp_thms y_def [symmetric])
  moreover have "shell_execute_command (lit ''cat '' @ name) m1 = ret (cmd_cat (lit ''cat '' @ name) m1)"
    by (simp add: shell_execute_command_def starts_def)
  ultimately show ?thesis
    using written by (simp add: ret_def ok_def Let_def run_def on_screen_def set_heap_def set_pmem_def)
qed

text \<open>The disk with one empty file.\<close>

definition disk_machine :: "unit machine \<Rightarrow> unit machine" where
  "disk_machine m = m\<lparr>ps := two_procs\<lparr>km := (km two_procs)\<lparr>kmemory := small_disk, kheap_of := vheap boot_vfs\<rparr>\<rparr>, cmd_at := 0x300000\<rparr>"

theorem shell_write_then_cat_witness:
  "\<forall>m. \<exists>m1 m2. shell_execute_command (lit ''write a Hello'') (disk_machine m) = Some (Returned, m1)
     \<and> shell_execute_command (lit ''cat a'') m1 = Some (Returned, m2)
     \<and> screen (klog_of m2) = vga_print (nl @ nl) (vga_print (lit ''Hello'') (vga_print nl (screen (klog_of m1))))"
proof
  fix m
  let ?m = "disk_machine m"
  have mem: "pmem (ps ?m) = small_disk" "cmd_at ?m = 0x300000" "kheap_of (km (ps ?m)) = vheap boot_vfs"
    by (simp_all add: disk_machine_def)
  have "attributes small_disk 0x2B200 \<noteq> ATTR_DIRECTORY" "file_chain small_disk (first_cluster_low small_disk 0x2B200) []"
    by (simp_all add: small_disk_def load16_def)
  moreover have "0 < card (free_clusters small_disk)" using small_disk_table(2) by (auto simp: card_gt_0_iff)
  moreover have "off_disk 0x300000 256"
    by (auto simp: off_disk_def disk_def unat_add_u32 unat_of_nat_u32)
  moreover have "heap_inv (vheap boot_vfs) [(0xFFFF4, True)]" using boot_vfs_inv by (simp add: vfs_inv_def)
  ultimately show "\<exists>m1 m2. shell_execute_command (lit ''write a Hello'') ?m = Some (Returned, m1)
     \<and> shell_execute_command (lit ''cat a'') m1 = Some (Returned, m2)
     \<and> screen (klog_of m2) = vga_print (nl @ nl) (vga_print (lit ''Hello'') (vga_print nl (screen (klog_of m1))))"
    using shell_write_then_cat [of "lit ''a''" ?m "0x2B200" "[]" "lit ''Hello''" "[(0xFFFF4, True)]" "0xFFFF4"] small_disk_find small_disk_table(1)
    unfolding mem by simp
qed

end
