(* ===== verification/Creation.thy ===== *)
theory Creation
  imports Process
begin

text \<open>
  Creating a process keeps the queue, the slab cache of the processes and the frames in order. The list nodes of the
  queue lie outside the heap arena and those of the slab lists inside it, so that an allocation does not disturb the queue.
\<close>

section \<open>Allocation and the links outside the arena\<close>

definition in_arena :: "ptr \<Rightarrow> bool" where
  "in_arena x \<longleftrightarrow> ARENA_START \<le> unat x \<and> unat x \<le> ARENA_END"

definition same_links :: "ptr \<Rightarrow> links \<Rightarrow> links \<Rightarrow> bool" where
  "same_links x l l' \<longleftrightarrow> lnext l' x = lnext l x \<and> lprev l' x = lprev l x"

lemma same_links_trans: "same_links x l l' \<Longrightarrow> same_links x l' l'' \<Longrightarrow> same_links x l l''"
  by (simp add: same_links_def)

lemma same_links_init: "p \<noteq> x \<Longrightarrow> same_links x l (init_list_head p l)"
  by (simp add: same_links_def init_list_head_def)

lemma dlist_same_links: "(\<And>x. x \<in> set (h # xs) \<Longrightarrow> same_links x l l') \<Longrightarrow> dlist l' h xs = dlist l h xs"
  by (rule dlist_cong) (simp add: same_links_def)

lemma slab_take_links:
  assumes r: "rings (klinks s) (slab_heads c) f" and h: "h \<in> slab_heads c" and sl: "sl \<in> set (f h)"
    and x: "x \<notin> slab_heads c" "x \<notin> ring_nodes (slab_heads c) f"
  shows "same_links x (klinks s) (klinks (snd (slab_take c sl s)))"
proof (cases "sl_freelist (slabs s sl) = 0")
  case True
  then show ?thesis by (simp add: slab_take_def same_links_def)
next
  case False
  let ?l = "list_del sl (klinks s)" and ?f = "f(h := remove1 sl (f h))"
  have out: "x \<notin> set (g # f g)" if "g \<in> slab_heads c" for g using x that by (auto simp: ring_nodes_def)
  note del = rings_del [OF r h sl]
  obtain ys zs where s: "f h = ys @ sl # zs" using sl by (metis split_list)
  have "same_links x (klinks s) ?l"
    using list_del_frame [of "klinks s" h ys sl zs x] rings_dlist [OF r h] out [OF h] by (simp add: s same_links_def)
  moreover have "same_links x ?l (list_add sl g ?l)" if g: "g \<in> slab_heads c" for g
  proof -
    have "x \<notin> ring_nodes (slab_heads c) ?f" unfolding del(2) using x(2) by simp
    then have "x \<notin> set (g # ?f g)" using x(1) g by (auto simp: ring_nodes_def)
    moreover have "x \<noteq> sl" using out [OF h] sl by auto
    ultimately show ?thesis using list_add_frame [OF rings_dlist [OF del(1) g]] by (simp add: same_links_def)
  qed
  moreover have "\<exists>g \<in> slab_heads c. klinks (snd (slab_take c sl s)) = list_add sl g ?l"
    using False by (auto simp: slab_take_def Let_def intro: bexI [of _ "slabs_full c"] bexI [of _ "slabs_partial c"])
  ultimately show ?thesis using same_links_trans by metis
qed

lemma kmem_cache_alloc_links:
  assumes inv: "cache_inv s c f fl" and st: "store_inv s c (ring_nodes (slab_heads c) f)"
    and al: "kmem_cache_alloc c s = Some (p, s')" and x: "\<not> in_arena x"
  shows "same_links x (klinks s) (klinks s')"
proof -
  let ?H = "slab_heads c"
  note r = cache_invD(3) [OF inv]
  have out: "x \<notin> ?H \<union> sls" if "store_inv t c sls" for t sls
    using arena_nodes [OF that] x by (auto simp: in_arena_def)
  have xs: "x \<notin> ?H" "x \<notin> ring_nodes ?H f" using out [OF st] by auto
  have first: "lnext (klinks s) h \<in> set (f h)" if h: "h \<in> ?H" "\<not> list_empty h (klinks s)" for h
  proof -
    note d = rings_dlist [OF r h(1)]
    obtain y ys where f: "f h = y # ys" using dlist_empty_iff [OF d] h(2) by (cases "f h") auto
    then have "lnext (klinks s) h = y" using d dlist_first by simp
    then show ?thesis using f by simp
  qed
  have c0: "c \<noteq> 0" by (rule cache_invD(1) [OF inv])
  consider h where "h \<in> ?H" "\<not> list_empty h (klinks s)" "s' = snd (slab_take c (lnext (klinks s) h) s)"
    | "slab_create c s = Some (0, s')"
    | sl s1 where "slab_create c s = Some (sl, s1)" "sl \<noteq> 0"
        "s' = snd (slab_take c sl (s1\<lparr>klinks := list_add sl (slabs_empty c) (klinks s1)\<rparr>))"
  proof (cases "list_empty (slabs_partial c) (klinks s) \<and> list_empty (slabs_empty c) (klinks s)")
    case True
    then obtain sl s1 where "slab_create c s = Some (sl, s1)"
      using al c0 by (cases "slab_create c s") (auto simp: kmem_cache_alloc_def)
    then show ?thesis using True al c0 that(2,3) by (cases "sl = 0") (auto simp: kmem_cache_alloc_def dest: arg_cong [where f = snd])
  next
    case False
    then show ?thesis using al c0 that(1) [of "slabs_partial c"] that(1) [of "slabs_empty c"]
      by (auto simp: kmem_cache_alloc_def split: if_splits dest: arg_cong [where f = snd])
  qed
  then show ?thesis
  proof cases
    case 1
    then show ?thesis using slab_take_links [OF r 1(1) first [OF 1(1,2)] xs] by simp
  next
    case 2
    from inv st show ?thesis
      by (cases rule: slab_create_cases) (use 2 in \<open>auto simp: same_links_def\<close>)
  next
    case 3
    from inv st show ?thesis
    proof (cases rule: slab_create_cases)
      case (got sl' s'' P)
      then have e: "sl' = sl" "s'' = s1" using 3(1) by auto
      have nx: "x \<notin> insert sl (ring_nodes ?H f)" using out [OF got(12)] e by auto
      let ?l = "init_list_head sl (klinks s)"
      have r1: "rings ?l ?H f" by (rule rings_init [OF r]) (use got(3,4) e in auto)
      note add = rings_add [OF r1 slab_heads_mem(3), of sl] 
      have "same_links x (klinks s) ?l" using nx by (intro same_links_init) auto
      moreover have "same_links x ?l (list_add sl (slabs_empty c) ?l)"
      proof -
        have "x \<notin> set (slabs_empty c # f (slabs_empty c))" "x \<noteq> sl"
          using xs slab_heads_mem(3) [of c] nx unfolding ring_nodes_def by auto
        from list_add_frame [OF rings_dlist [OF r1 slab_heads_mem(3)] this] show ?thesis by (simp add: same_links_def)
      qed
      moreover have "same_links x (list_add sl (slabs_empty c) ?l) (klinks s')"
        using slab_take_links [of "s1\<lparr>klinks := list_add sl (slabs_empty c) (klinks s1)\<rparr>" c "f(slabs_empty c := sl # f (slabs_empty c))" "slabs_empty c" sl x]
          add got(2-5) e nx xs 3 by (auto simp: slab_heads_mem)
      ultimately show ?thesis by (metis same_links_trans)
    qed (use 3 in auto)
  qed
qed

section \<open>Objects above the kernel's frames\<close>

lemma object_high:
  assumes inv: "cache_inv s c f fl" and st: "store_inv s c (ring_nodes (slab_heads c) f)"
    and sl: "sl \<in> ring_nodes (slab_heads c) f" and x: "x \<in> objs (page_of s sl) (osize s c)"
  shows "0x400000 \<le> unat x \<and> unat x + 16 < 4294967296 \<and> 4 dvd unat x"
proof -
  have P: "good_page (page_of s sl)" "0x400000 \<le> unat (page_of s sl)"
    using cache_invD(5) [OF inv sl] st sl by (simp_all add: slab_ok_def store_inv_def)
  note z = cache_invD(2) [OF inv]
  obtain j where j: "unat (page_of s sl) = 4096 * j" using P(1) by (auto simp: good_page_def elim: dvdE)
  have "unat x + 4 \<le> unat (page_of s sl) + 4096" "unat (page_of s sl) \<le> unat x"
    using obj_in_page [OF P(1) z x] z by (auto simp: good_size_def)
  moreover have "unat (page_of s sl) + 4096 < 4294967296" using P(1) by (simp add: good_page_def)
  ultimately show ?thesis using P(2) j obj_aligned [OF P(1) z x] by auto
qed

lemma allocated_high:
  assumes "cache_inv s c f fl" "store_inv s c (ring_nodes (slab_heads c) f)" "x \<in> allocated s c f fl"
  shows "0x400000 \<le> unat x" "unat (pnode x) = unat x + 16" "4 dvd unat x" "\<not> in_arena (pnode x)"
proof -
  obtain sl where "sl \<in> ring_nodes (slab_heads c) f" "x \<in> objs (page_of s sl) (osize s c)"
    using allocated_obj [OF assms(1,3)] by blast
  note h = object_high [OF assms(1,2) this]
  show "0x400000 \<le> unat x" "4 dvd unat x" using h by simp_all
  show p: "unat (pnode x) = unat x + 16" using h by (subst unat_add_u32) simp_all
  show "\<not> in_arena (pnode x)" using h p by (simp add: in_arena_def)
qed

lemma cache_inv_mem:
  assumes "cache_inv s c f fl" "\<And>sl y. sl \<in> ring_nodes (slab_heads c) f \<Longrightarrow> y \<in> set (fl sl) \<Longrightarrow> load32 m y = load32 (kmemory s) y"
  shows "cache_inv (s\<lparr>kmemory := m\<rparr>) c f fl"
proof -
  have "slab_ok m (slabs s sl) (osize s c) (fl sl)" if "sl \<in> ring_nodes (slab_heads c) f" for sl
    using cache_invD(5) [OF assms(1) that] freechain_cong [of "fl sl" m "kmemory s"] assms(2) [OF that]
    by (simp add: slab_ok_def)
  then show ?thesis using assms(1) by (simp add: cache_inv_def)
qed

lemma load32_store32_below:
  assumes "unat a + 4 \<le> unat y" "unat y + 4 \<le> 4294967296"
  shows "load32 (store32 a w m) y = load32 m y"
proof -
  have a: "unat (a + of_nat j) = unat a + j" if "j < 4" for j
    using assms that by (subst unat_add_u32) (simp_all add: unat_of_nat_u32)
  have y: "unat (y + of_nat k) = unat y + k" if "k < 4" for k
    using assms that by (subst unat_add_u32) (simp_all add: unat_of_nat_u32)
  have ne: "y + of_nat k \<noteq> a + of_nat j" if "k < 4" "j < 4" for k j
  proof
    assume "y + of_nat k = a + of_nat j"
    then have "unat y + k = unat a + j" using a [OF that(2)] y [OF that(1)] by metis
    then show False using assms that by simp
  qed
  have "store32 a w m (y + of_nat k) = m (y + of_nat k)" if k: "k < 4" for k
    using ne [OF k, of 0] ne [OF k, of 1] ne [OF k, of 2] ne [OF k, of 3] by (simp add: store32_def)
  from this [of 0] this [of 1] this [of 2] this [of 3] show ?thesis by (intro load32_cong) simp_all
qed

section \<open>The task's first frame\<close>

lemma push_words_above:
  assumes "push_words ws sp m = (sp', m')" and "4 * length ws \<le> unat sp" "unat sp \<le> unat y" "unat y + 4 \<le> 4294967296"
  shows "load32 m' y = load32 m y"
  using assms
proof (induction ws arbitrary: sp m)
  case Nil
  then show ?case by simp
next
  case (Cons w ws)
  have sp: "unat (sp - 4) = unat sp - 4" using Cons.prems(2) by (subst unat_sub) (simp_all add: word_le_nat_alt)
  have "load32 m' y = load32 (store32 (sp - 4) w m) y" by (rule Cons.IH [where sp = "sp - 4"]) (use Cons.prems sp in simp_all)
  also have "\<dots> = load32 m y" by (rule load32_store32_below) (use Cons.prems sp in simp_all)
  finally show ?case .
qed

text \<open>\<^verbatim>\<open>kmalloc\<close> of the stack: a NULL stack included, its top is far below the objects.\<close>

lemma stack_alloc:
  assumes "store_inv k c sls"
  obtains stack h where "kmalloc 4096 (kheap_of k) = Some (stack, h)" "unat (stack + 4096) \<le> ARENA_END"
    "4096 \<le> unat (stack + 4096)" "store_inv (k\<lparr>kheap_of := h\<rparr>) c sls"
proof -
  obtain bs where bs: "heap_inv (kheap_of k) bs" "\<exists>j \<ge> 88. (unat c, j) \<in> live ARENA_START bs"
    "\<forall>sl \<in> sls. \<exists>j \<ge> 24. (unat sl, j) \<in> live ARENA_START bs" using assms by (auto simp: store_inv_def)
  obtain stack h bs' where a: "kmalloc 4096 (kheap_of k) = Some (stack, h)" "heap_inv h bs'"
    and a': "if stack = 0 then h = kheap_of k \<and> bs' = bs
       else \<exists>n. live ARENA_START bs' = insert (unat stack, n) (live ARENA_START bs)
         \<and> (unat (4096 :: u32) < 2 ^ 32 - 15 \<longrightarrow> unat (4096 :: u32) \<le> n)
         \<and> (\<forall>(q, j) \<in> live ARENA_START bs. q + j < unat stack \<or> unat stack + n < q)"
    using heap.alloc_total [OF bs(1), of 4096] by blast
  have sub: "live ARENA_START bs \<subseteq> live ARENA_START bs'" using a' by (auto split: if_splits)
  have "stack \<noteq> 0 \<Longrightarrow> unat stack + 4096 \<le> ARENA_END"
    using a' heap_live_range [OF a(2), of "unat stack"] by fastforce
  then have "unat stack + 4096 \<le> ARENA_END" by (cases "stack = 0") simp_all
  then have "unat (stack + 4096) = unat stack + 4096" by (subst unat_add_u32) simp_all
  moreover have "store_inv (k\<lparr>kheap_of := h\<rparr>) c sls"
    using assms a(2) bs(2,3) sub unfolding store_inv_def by (simp add: exI [of _ bs']) blast
  ultimately show ?thesis using that [OF a(1)] \<open>unat stack + 4096 \<le> ARENA_END\<close> by simp
qed

section \<open>The state after a creation\<close>

text \<open>The links of the queue and of the slab lists once the new node is at the queue's tail.\<close>

lemma enqueue_links:
  assumes inv: "proc_inv s ps f fl" and q: "unat (ready_queue s) < ARENA_START"
    and k: "kmem_cache_alloc (process_cache s) (km s) = Some (p, k)"
    and ci: "cache_inv k (process_cache s) f' fl'" and st: "store_inv k (process_cache s) (ring_nodes (slab_heads (process_cache s)) f')"
    and p: "p \<notin> allocated (km s) (process_cache s) f fl" "p \<in> allocated k (process_cache s) f' fl'"
  defines "l \<equiv> list_add_tail (pnode p) (ready_queue s)
      (init_list_head (pnode p) (set_prev (pnode p) 0 (set_next (pnode p) 0 (klinks k))))"
  shows "dlist l (ready_queue s) (map pnode (ps @ [p]))" "\<And>h. h \<in> slab_heads (process_cache s) \<Longrightarrow> dlist l h (f' h)"
    "set (ready_queue s # map pnode (ps @ [p])) \<inter> (slab_heads (process_cache s) \<union> ring_nodes (slab_heads (process_cache s)) f') = {}"
proof -
  let ?c = "process_cache s" and ?q = "ready_queue s" and ?H = "slab_heads (process_cache s)"
  note P = inv [unfolded proc_inv_def queue_inv_def]
  have d0: "dlist (plinks s) ?q (map pnode ps)" and al: "set ps \<subseteq> allocated (km s) ?c f fl"
    and ci0: "cache_inv (km s) ?c f fl" and st0: "store_inv (km s) ?c (ring_nodes ?H f)" using P by simp_all
  note hp = allocated_high [OF ci st p(2)]
  have out: "\<not> in_arena x" if "x \<in> set (?q # map pnode (ps @ [p]))" for x
    using that q hp(4) allocated_high(4) [OF ci0 st0] al by (auto simp: in_arena_def)
  show apart: "set (?q # map pnode (ps @ [p])) \<inter> (?H \<union> ring_nodes ?H f') = {}"
    using out arena_nodes [OF st] unfolding in_arena_def by blast
  have nin: "pnode p \<notin> set (?q # map pnode ps)"
  proof -
    have "p \<notin> set ps" using al p(1) by blast
    moreover have "pnode p \<noteq> ?q" using hp(1,2) q by auto
    ultimately show ?thesis by auto
  qed
  have nz: "pnode p \<noteq> 0" using hp(2) by auto
  let ?i = "init_list_head (pnode p) (set_prev (pnode p) 0 (set_next (pnode p) 0 (klinks k)))"
  have init: "dlist ?i h xs = dlist (klinks k) h xs" if "pnode p \<notin> set (h # xs)" for h xs
    using that by (subst dlist_init_other, simp, subst dlist_cong [of _ _ _ "klinks k"]) auto
  have "dlist (klinks k) ?q (map pnode ps)"
    using dlist_same_links [of ?q "map pnode ps" "plinks s" "klinks k"] d0 kmem_cache_alloc_links [OF ci0 st0 k] out by auto
  then have d1: "dlist ?i ?q (map pnode ps)" using init [OF nin] by blast
  show "dlist l ?q (map pnode (ps @ [p]))" using dlist_add_tail [OF d1 nin nz] by (simp add: l_def)
  fix h assume h: "h \<in> ?H"
  have o: "set (?q # map pnode (ps @ [p])) \<inter> set (h # f' h) = {}" by (rule ring_apart [OF apart h])
  then have "pnode p \<notin> set (h # f' h)" by auto
  moreover have "set (?q # map pnode ps) \<inter> set (h # f' h) = {}" using o by auto
  ultimately show "dlist l h (f' h)"
    using dlist_add_tail_other [OF d1] init rings_dlist [OF cache_invD(3) [OF ci] h] unfolding l_def by blast
qed

lemma alloc_object_post:
  assumes "cache_inv s c f fl" "store_inv s c (ring_nodes (slab_heads c) f)" "kmem_cache_alloc c s = Some (p, k)" "p \<noteq> 0"
  shows "alloc_post s c f fl p k"
  using assms(1,2) by (cases rule: kmem_cache_alloc_cases) (use assms(3,4) in auto)

lemma alloc_object_some:
  assumes "cache_inv s c f fl" "store_inv s c (ring_nodes (slab_heads c) f)" "\<not> no_store s"
  shows "\<exists>p k. kmem_cache_alloc c s = Some (p, k) \<and> p \<noteq> 0"
  using assms(3) by (rule contrapos_np) (rule kmem_cache_alloc_cases [OF assms(1,2)], simp, auto simp: alloc_post_def)

text \<open>The pages in use that are not the cache's, and lie above the kernel's frames, keep their words; the pages the cache gets
  were not in use.\<close>

definition pages_kept :: "ptr \<Rightarrow> kmem \<Rightarrow> (ptr \<Rightarrow> ptr list) \<Rightarrow> kmem \<Rightarrow> (ptr \<Rightarrow> ptr list) \<Rightarrow> bool" where
  "pages_kept c s f s' f' \<longleftrightarrow>
     keeps_pages {Q \<in> used_pages (kpmm s) - cache_pages s c f. 0x400000 \<le> unat Q} (kmemory s) (kmemory s')
     \<and> cache_pages s' c f' \<subseteq> cache_pages s c f \<union> - used_pages (kpmm s) \<and> used_pages (kpmm s) \<subseteq> used_pages (kpmm s')"

lemma pages_kept_trans:
  assumes "pages_kept c s f t g" "pages_kept c t g u h"
  shows "pages_kept c s f u h"
proof -
  let ?A = "{Q \<in> used_pages (kpmm s) - cache_pages s c f. 0x400000 \<le> unat Q}"
    and ?B = "{Q \<in> used_pages (kpmm t) - cache_pages t c g. 0x400000 \<le> unat Q}"
  have a: "keeps_pages ?A (kmemory s) (kmemory t)" "cache_pages t c g \<subseteq> cache_pages s c f \<union> - used_pages (kpmm s)"
    "used_pages (kpmm s) \<subseteq> used_pages (kpmm t)" using assms(1) by (simp_all add: pages_kept_def)
  have b: "keeps_pages ?B (kmemory t) (kmemory u)" "cache_pages u c h \<subseteq> cache_pages t c g \<union> - used_pages (kpmm t)"
    "used_pages (kpmm t) \<subseteq> used_pages (kpmm u)" using assms(2) by (simp_all add: pages_kept_def)
  have "?A \<inter> ?B = ?A" using a(2,3) by blast
  then have "keeps_pages ?A (kmemory s) (kmemory u)" using keeps_pages_trans [OF a(1) b(1)] by simp
  moreover have "cache_pages u c h \<subseteq> cache_pages s c f \<union> - used_pages (kpmm s)" using a(2,3) b(2) by blast
  ultimately show ?thesis unfolding pages_kept_def using a(3) b(3) by blast
qed

lemma object_write_pages:
  assumes inv: "cache_inv k c f' fl'" and p: "p \<in> allocated k c f' fl'"
    and st: "\<forall>sl \<in> ring_nodes (slab_heads c) f'. 0x400000 \<le> unat (page_of k sl)"
    and old: "keeps_pages (used_pages (kpmm s) - cache_pages s c f) (kmemory s) (kmemory k)"
      "cache_pages k c f' \<subseteq> cache_pages s c f \<union> - used_pages (kpmm s)" "used_pages (kpmm s) \<subseteq> used_pages (kpmm k)"
    and m: "\<And>y. 0x400000 \<le> unat y \<Longrightarrow> unat y + 4 \<le> 4294967296 \<Longrightarrow> load32 m y = load32 (kmemory k) y"
  shows "pages_kept c s f (k\<lparr>kheap_of := h, kmemory := store32 p w m, klinks := l\<rparr>) f'"
proof -
  obtain sl where sl: "sl \<in> ring_nodes (slab_heads c) f'" "p \<in> objs (page_of k sl) (osize k c)" "good_page (page_of k sl)"
    using allocated_obj [OF inv p] by blast
  note z = cache_invD(2) [OF inv]
  have Pin: "page_of k sl \<in> cache_pages k c f'" using sl(1) by (simp add: cache_pages_def)
  have "load32 (store32 p w m) y = load32 (kmemory s) y"
    if Q: "Q \<in> used_pages (kpmm s) - cache_pages s c f" "0x400000 \<le> unat Q" "good_page Q"
      and y: "4 dvd unat y" "unat Q \<le> unat y" "unat y + 4 \<le> unat Q + 4096" for Q y
  proof -
    have "Q \<noteq> page_of k sl" using Q(1) Pin old(2) by blast
    then have "y \<noteq> p" using word_not_obj [OF sl(3) z Q(3) _ y(2,3) sl(2)] z by (auto simp: good_size_def)
    moreover have "4 dvd unat p" by (rule obj_aligned(1) [OF sl(3) z sl(2)])
    ultimately have "load32 (store32 p w m) y = load32 m y" using y(1) by (intro load32_store32_other) auto
    also have "\<dots> = load32 (kmemory k) y" using Q(2,3) y by (intro m) (auto simp: good_page_def)
    also have "\<dots> = load32 (kmemory s) y" using old(1) Q y by (auto simp: keeps_pages_def)
    finally show ?thesis .
  qed
  then have "keeps_pages {Q \<in> used_pages (kpmm s) - cache_pages s c f. 0x400000 \<le> unat Q} (kmemory s) (store32 p w m)"
    unfolding keeps_pages_def by blast
  then show ?thesis using old(2,3) by (simp add: pages_kept_def cache_pages_def)
qed

text \<open>An object from the cache, written at its first word and queued: the state is in order again, whatever happened to
  the memory below the objects and to the rest of the heap.\<close>

lemma enqueued_inv:
  fixes w :: u32
  assumes inv: "proc_inv s ps f fl" and q: "unat (ready_queue s) < ARENA_START"
    and k: "kmem_cache_alloc (process_cache s) (km s) = Some (p, k)" and p0: "p \<noteq> 0"
    and st: "\<And>sls. store_inv k (process_cache s) sls \<Longrightarrow> store_inv (k\<lparr>kheap_of := h\<rparr>) (process_cache s) sls"
    and m: "\<And>y. 0x400000 \<le> unat y \<Longrightarrow> unat y + 4 \<le> 4294967296 \<Longrightarrow> load32 m y = load32 (kmemory k) y"
  defines "k' \<equiv> k\<lparr>kheap_of := h, kmemory := store32 p w m, klinks := list_add_tail (pnode p) (ready_queue s)
      (init_list_head (pnode p) (set_prev (pnode p) 0 (set_next (pnode p) 0 (klinks k))))\<rparr>"
  obtains f' fl' where "\<And>s' :: psys. km s' = k' \<Longrightarrow> ready_queue s' = ready_queue s \<Longrightarrow> process_cache s' = process_cache s \<Longrightarrow> proc_inv s' (ps @ [p]) f' fl'"
    "p \<notin> set ps" "\<And>x. x \<in> set ps \<Longrightarrow> load32 (kmemory k') x = load32 (pmem s) x" "pages_kept (process_cache s) (km s) f k' f'"
proof -
  let ?c = "process_cache s" and ?H = "slab_heads (process_cache s)"
  have P: "set ps \<subseteq> allocated (km s) ?c f fl" "cache_inv (km s) ?c f fl" "store_inv (km s) ?c (ring_nodes ?H f)" "0 \<notin> set ps"
    using inv by (simp_all add: proc_inv_def queue_inv_def)
  obtain f' fl' where A: "cache_inv k ?c f' fl'" "store_inv k ?c (ring_nodes ?H f')" "p \<notin> allocated (km s) ?c f fl"
    "allocated k ?c f' fl' = insert p (allocated (km s) ?c f fl)"
    "keeps_objects (allocated (km s) ?c f fl) (osize (km s) ?c) (pmem s) (kmemory k)"
    "keeps_pages (used_pages (kpmm (km s)) - cache_pages (km s) ?c f) (pmem s) (kmemory k)"
    "cache_pages k ?c f' \<subseteq> cache_pages (km s) ?c f \<union> - used_pages (kpmm (km s))" "used_pages (kpmm (km s)) \<subseteq> used_pages (kpmm k)"
    using alloc_object_post [OF P(2,3) k p0] unfolding alloc_post_def by blast
  have pk: "p \<in> allocated k ?c f' fl'" using A(4) by simp
  note L = enqueue_links [OF inv q k A(1,2,3) pk]
  have W: "load32 (store32 p w m) y = load32 (kmemory k) y"
    if y: "y \<in> objs (page_of k sl) (osize k ?c)" "sl \<in> ring_nodes ?H f'" "y \<noteq> p" for y sl
  proof -
    note hy = object_high [OF A(1,2) y(2,1)]
    have "load32 (store32 p w m) y = load32 m y"
      by (rule load32_store32_other) (use hy y(3) allocated_high(3) [OF A(1,2) pk] in auto)
    also have "\<dots> = load32 (kmemory k) y" by (rule m) (use hy in auto)
    finally show ?thesis .
  qed
  have ci: "cache_inv k' ?c f' fl'"
  proof -
    have "cache_inv (k\<lparr>kmemory := store32 p w m\<rparr>) ?c f' fl'"
    proof (rule cache_inv_mem [OF A(1)])
      fix sl y
      assume y: "sl \<in> ring_nodes ?H f'" "y \<in> set (fl' sl)"
      have "y \<in> objs (page_of k sl) (osize k ?c)" using cache_invD(5) [OF A(1) y(1)] y(2) by (auto simp: slab_ok_def)
      moreover have "y \<noteq> p" using pk y cache_obj_unique [OF A(1)] calculation by (fastforce simp: allocated_def)
      ultimately show "load32 (store32 p w m) y = load32 (kmemory k) y" using W y(1) by blast
    qed
    then have "cache_inv (k\<lparr>kmemory := store32 p w m, klinks := klinks k'\<rparr>) ?c f' fl'"
      using L(2) by (intro slab_inv_links) (simp_all add: k'_def)
    then show ?thesis by (simp add: cache_inv_def k'_def)
  qed
  have st': "store_inv k' ?c (ring_nodes ?H f')" using st [OF A(2)] by (simp add: store_inv_def k'_def)
  have al: "set (ps @ [p]) \<subseteq> allocated k' ?c f' fl'" using A(4) P(1) by (auto simp: allocated_def k'_def)
  have np: "p \<notin> set ps" using A(3) P(1) by blast
  have "\<forall>sl \<in> ring_nodes ?H f'. 0x400000 \<le> unat (page_of k sl)" using A(2) by (simp add: store_inv_def)
  note pages = object_write_pages [OF A(1) pk this A(6,7,8) m, where w = w and h = h, folded k'_def]
  show ?thesis
  proof (rule that)
    fix s' :: psys assume "km s' = k'" "ready_queue s' = ready_queue s" "process_cache s' = ?c"
    then show "proc_inv s' (ps @ [p]) f' fl'"
      using L(1,3) ci st' al P(4) p0 by (simp add: proc_inv_def queue_inv_def k'_def)
  next
    fix x assume x: "x \<in> set ps"
    have xp: "x \<noteq> p" and xa: "x \<in> allocated (km s) ?c f fl" "x \<in> allocated k ?c f' fl'" using x np P(1) A(4) by auto
    obtain sl where "sl \<in> ring_nodes ?H f'" "x \<in> objs (page_of k sl) (osize k ?c)" using allocated_obj [OF A(1) xa(2)] by blast
    then have "load32 (store32 p w m) x = load32 (kmemory k) x" using W xp by blast
    also have "\<dots> = load32 (pmem s) x"
      using A(5) xa(1) allocated_high(3) [OF P(2,3) xa(1)] cache_invD(2) [OF P(2)] by (simp add: keeps_objects_def good_size_def)
    finally show "load32 (kmemory k') x = load32 (pmem s) x" by (simp add: k'_def)
  next
    show "pages_kept ?c (km s) f k' f'" unfolding k'_def by (rule pages)
  qed (rule np)
qed

text \<open>What \<^verbatim>\<open>process_create\<close> does to the state.\<close>

lemma process_created:
  assumes inv: "proc_inv s ps f fl" and q: "unat (ready_queue s) < ARENA_START"
    and k: "kmem_cache_alloc (process_cache s) (km s) = Some (p, k)" and p0: "p \<noteq> 0"
  obtains s' f' fl' where "process_create e s = Some s'" "proc_inv s' (ps @ [p]) f' fl'" "p \<notin> set ps"
    "ready_queue s' = ready_queue s" "next_pid s' = next_pid s + 1" "pid (procs s' p) = next_pid s" "pstate (procs s' p) = READY"
    "\<And>x. x \<in> set ps \<Longrightarrow> procs s' x = procs s x \<and> load32 (pmem s') x = load32 (pmem s) x"
    "current_process s' = current_process s" "process_cache s' = process_cache s" "vm_directory s' = vm_directory s" "vm_cr3 s' = vm_cr3 s"
    "pages_kept (process_cache s) (km s) f (km s') f'"
proof -
  let ?c = "process_cache s" and ?H = "slab_heads (process_cache s)"
  obtain f1 where A: "store_inv k ?c (ring_nodes ?H f1)"
    using alloc_object_post [OF _ _ k p0, of f fl] inv unfolding proc_inv_def alloc_post_def by blast
  obtain stack h where S: "kmalloc 4096 (kheap_of k) = Some (stack, h)" "unat (stack + 4096) \<le> ARENA_END" "4096 \<le> unat (stack + 4096)"
    using stack_alloc [OF A] .
  obtain sp m where fr: "push_words (task_frame e) (stack + 4096) (kmemory k) = (sp, m)" by (rule prod.exhaust)
  have st: "store_inv (k\<lparr>kheap_of := h\<rparr>) ?c sls" if "store_inv k ?c sls" for sls
    using stack_alloc [OF that] S(1) by (metis Pair_inject option.inject)
  have m: "load32 m y = load32 (kmemory k) y" if "0x400000 \<le> unat y" "unat y + 4 \<le> 4294967296" for y
    by (rule push_words_above [OF fr]) (use that S in \<open>simp_all add: task_frame_def\<close>)
  obtain s' where s': "process_create e s = Some s'" "km s' = k\<lparr>kheap_of := h, kmemory := store32 p sp m, klinks := list_add_tail (pnode p) (ready_queue s)
      (init_list_head (pnode p) (set_prev (pnode p) 0 (set_next (pnode p) 0 (klinks k))))\<rparr>"
    "ready_queue s' = ready_queue s" "process_cache s' = ?c" "next_pid s' = next_pid s + 1" "pid (procs s' p) = next_pid s"
    "pstate (procs s' p) = READY" "\<And>x. x \<noteq> p \<Longrightarrow> procs s' x = procs s x"
    "current_process s' = current_process s" "vm_directory s' = vm_directory s" "vm_cr3 s' = vm_cr3 s"
    using k p0 S(1) fr by (simp add: process_create_def alloc_process_def Let_def set_links_def set_memory_def put_process_def enqueue_def)
  obtain f' fl' where E: "proc_inv s' (ps @ [p]) f' fl'" "p \<notin> set ps" "\<And>x. x \<in> set ps \<Longrightarrow> load32 (pmem s') x = load32 (pmem s) x"
    "pages_kept ?c (km s) f (km s') f'"
    using enqueued_inv [where w = sp, OF inv q k p0 st m] s'(2-4) by metis
  show ?thesis
  proof (rule that [OF s'(1) E(1,2) s'(3,5,6,7)])
    show "procs s' x = procs s x \<and> load32 (pmem s') x = load32 (pmem s) x" if "x \<in> set ps" for x
      using that E(2,3) s'(8) by metis
  qed (use s' E(4) in simp_all)
qed

section \<open>Properties\<close>

text \<open>C11: \<^verbatim>\<open>process_create\<close> keeps the state in order as long as the slab allocator has an object: it
  returns, the new process is a ready process with the next pid at the end of the queue, and the
  ring of the queue, the slab lists and free lists of the process cache, and the frames and heap
  blocks under them, are as the invariant wants them, so that the next creation or kill finds them
  so. Every other process keeps its record and its saved stack pointer, even when the stack could
  not be allocated.\<close>

theorem process_create_keeps_inv:
  assumes "proc_inv s ps f fl" and "unat (ready_queue s) < ARENA_START"
    and "kmem_cache_alloc (process_cache s) (km s) = Some (p, k)" and "p \<noteq> 0"
  shows "\<exists>s' f' fl'. process_create e s = Some s' \<and> proc_inv s' (ps @ [p]) f' fl' \<and> p \<notin> set ps
    \<and> ready_queue s' = ready_queue s \<and> next_pid s' = next_pid s + 1
    \<and> pid (procs s' p) = next_pid s \<and> pstate (procs s' p) = READY
    \<and> (\<forall>x \<in> set ps. procs s' x = procs s x \<and> load32 (pmem s') x = load32 (pmem s) x)"
  by (rule process_created [OF assms, of e]) (metis (no_types))

text \<open>The boot state with a process cache and an empty queue.\<close>

lemma boot_empty_queue:
  obtains s p k where "proc_inv s [] (\<lambda>_. []) (\<lambda>_. [])" "ready_queue s = 0x1000"
    "kmem_cache_alloc (process_cache s) (km s) = Some (p, k)" "p \<noteq> 0"
proof -
  obtain c k where c: "kmem_cache_create (lit ''obj'') 32 0 0 (boot_kmem (\<lambda>_. 0)) = Some (c, k)"
    "cache_inv k c (\<lambda>_. []) (\<lambda>_. [])" "store_inv k c {}" using boot_cache .
  let ?H = "slab_heads c"
  have n: "ring_nodes ?H (\<lambda>_. []) = {}" by (simp add: ring_nodes_def)
  have o: "0x1000 \<notin> ?H" using arena_nodes [OF c(3), of "0x1000"] by auto
  define k1 where "k1 = k\<lparr>klinks := init_list_head 0x1000 (klinks k)\<rparr>"
  have ci: "cache_inv k1 c (\<lambda>_. []) (\<lambda>_. [])"
    unfolding k1_def
  proof (rule slab_inv_links [OF c(2)])
    fix h assume h: "h \<in> ?H"
    then show "dlist (init_list_head 0x1000 (klinks k)) h []"
      using rings_dlist [OF cache_invD(3) [OF c(2)] h] o by (subst dlist_init_other) auto
  qed
  have st: "store_inv k1 c (ring_nodes ?H (\<lambda>_. []))" using c(3) by (simp add: k1_def store_inv_def n)
  have "\<not> no_store k1" using boot_cache_store(1) [OF c(1)] c(2) by (simp add: k1_def no_store_def cache_inv_def)
  then obtain p k2 where al: "kmem_cache_alloc c k1 = Some (p, k2)" "p \<noteq> 0" using alloc_object_some [OF ci st] by blast
  define s where "s = two_procs\<lparr>km := k1, process_cache := c, ready_queue := 0x1000\<rparr>"
  have "dlist (klinks k1) 0x1000 []" by (simp add: k1_def dlist_init)
  then have "proc_inv s [] (\<lambda>_. []) (\<lambda>_. [])" using ci st o n by (simp add: proc_inv_def queue_inv_def s_def)
  then show ?thesis using al by (intro that [of s p k2]) (simp_all add: s_def)
qed

theorem process_create_keeps_inv_witness:
  "\<exists>s s' p f fl. process_create 0x10000 s = Some s' \<and> queue_inv s [] \<and> proc_inv s' [p] f fl"
proof -
  obtain s p k where s: "proc_inv s [] (\<lambda>_. []) (\<lambda>_. [])" "ready_queue s = 0x1000"
    "kmem_cache_alloc (process_cache s) (km s) = Some (p, k)" "p \<noteq> 0" using boot_empty_queue .
  have "queue_inv s []" using s(1) by (simp add: proc_inv_def)
  then show ?thesis using process_create_keeps_inv [OF s(1) _ s(3,4), of "0x10000"] s(2) by fastforce
qed

end
