(* ===== verification/Floppy.thy ===== *)
theory Floppy
  imports Timer Ports "HOL-Library.Signed_Division"
begin

text \<open>
  The floppy driver, \<^verbatim>\<open>drivers/floppy.c\<close>: commands to the controller byte by byte, DMA channel 2, and waiting
  for the interrupt. The controller, the DMA chip and the clock are parameters: \<open>device\<close> of the port accesses, \<open>irq\<close>, whether
  the interrupt of the controller arrives at the n-th look at the flag of one wait, \<open>dma\<close>, the memory the chip
  leaves behind when it does, and \<open>clock_reads\<close>, the values a busy wait finds in the tick counter. An interrupt that comes between two waits
  is taken at the first look of the next one. \<open>messages\<close> are the strings printed.
\<close>

section \<open>State and operations\<close>

abbreviation FDC_DOR :: u16 where "FDC_DOR \<equiv> 0x3F2"
abbreviation FDC_MSR :: u16 where "FDC_MSR \<equiv> 0x3F4"
abbreviation FDC_FIFO :: u16 where "FDC_FIFO \<equiv> 0x3F5"
abbreviation FDC_CCR :: u16 where "FDC_CCR \<equiv> 0x3F7"
abbreviation CMD_SPECIFY :: u8 where "CMD_SPECIFY \<equiv> 0x03"
abbreviation CMD_RECALIBRATE :: u8 where "CMD_RECALIBRATE \<equiv> 0x07"
abbreviation CMD_SENSE_INTERRUPT :: u8 where "CMD_SENSE_INTERRUPT \<equiv> 0x08"
abbreviation CMD_READ_DATA :: u8 where "CMD_READ_DATA \<equiv> 0xE6"
abbreviation CMD_SEEK :: u8 where "CMD_SEEK \<equiv> 0x0F"
abbreviation dma_buffer :: ptr where "dma_buffer \<equiv> 0x1000"

record floppy =
  fl_io :: io
  received_irq :: bool
  fl_mem :: mem
  fl_hw :: hw
  messages :: "u8 list list"
  irq :: "port_event list \<Rightarrow> nat \<Rightarrow> bool"
  dma :: "port_event list \<Rightarrow> mem \<Rightarrow> mem"
  clock_reads :: "port_event list \<Rightarrow> nat \<Rightarrow> u32"

definition fl_out :: "u16 \<Rightarrow> u8 \<Rightarrow> floppy \<Rightarrow> floppy" where
  "fl_out port v s = s\<lparr>fl_io := port_out port v (fl_io s)\<rparr>"

definition fl_in :: "u16 \<Rightarrow> floppy \<Rightarrow> u8 \<times> floppy" where
  "fl_in port s = (case port_in port (fl_io s) of (v, i) \<Rightarrow> (v, s\<lparr>fl_io := i\<rparr>))"

definition fl_print :: "u8 list \<Rightarrow> floppy \<Rightarrow> floppy" where
  "fl_print str s = s\<lparr>messages := messages s @ [str]\<rparr>"

definition floppy_handler_c :: "floppy \<Rightarrow> floppy" where
  "floppy_handler_c s = fl_out 0x20 0x20 (s\<lparr>received_irq := True\<rparr>)"

text \<open>The interrupt, when it comes at look \<open>n\<close>: the transfer is over, and the handler runs.\<close>

definition take_irq :: "nat \<Rightarrow> floppy \<Rightarrow> floppy" where
  "take_irq n s =
     (if irq s (trace (fl_io s)) n then floppy_handler_c (s\<lparr>fl_mem := dma s (trace (fl_io s)) (fl_mem s)\<rparr>) else s)"

text \<open>The polling loop with \<open>t\<close> for \<^verbatim>\<open>timeout\<close>, which is -1 when the loop runs out.\<close>

fun wait_irq_loop :: "nat \<Rightarrow> nat \<Rightarrow> floppy \<Rightarrow> int \<times> floppy" where
  "wait_irq_loop 0 n s = (let s1 = take_irq n s in (if received_irq s1 then 0 else -1, s1))"
| "wait_irq_loop (Suc t) n s =
     (let s1 = take_irq n s in if received_irq s1 then (int (Suc t), s1) else wait_irq_loop t (n + 1) s1)"

definition floppy_wait_irq :: "floppy \<Rightarrow> int \<times> floppy" where
  "floppy_wait_irq s =
     (case wait_irq_loop 10000000 0 s of (timeout, s1) \<Rightarrow>
        if timeout \<le> 0 then (-1, fl_print (lit ''FDC: IRQ TIMEOUT!'' @ [10]) s1)
        else (0, s1\<lparr>received_irq := False\<rparr>))"

fun send_loop :: "nat \<Rightarrow> u8 \<Rightarrow> floppy \<Rightarrow> floppy" where
  "send_loop 0 byte s = fl_print (lit ''FDC: Snd Timeout'' @ [10]) s"
| "send_loop (Suc n) byte s =
     (case fl_in FDC_MSR s of (msr, s1) \<Rightarrow>
        if msr AND 0x80 \<noteq> 0 \<and> msr AND 0x40 = 0 then fl_out FDC_FIFO byte s1 else send_loop n byte s1)"

definition fdc_send_byte :: "u8 \<Rightarrow> floppy \<Rightarrow> floppy" where
  "fdc_send_byte byte s = send_loop 1000 byte s"

fun read_loop :: "nat \<Rightarrow> floppy \<Rightarrow> int \<times> floppy" where
  "read_loop 0 s = (-1, fl_print (lit ''FDC: Rcv Timeout'' @ [10]) s)"
| "read_loop (Suc n) s =
     (case fl_in FDC_MSR s of (msr, s1) \<Rightarrow>
        if msr AND 0x80 \<noteq> 0 \<and> msr AND 0x40 \<noteq> 0
        then (case fl_in FDC_FIFO s1 of (v, s2) \<Rightarrow> (int (unat v), s2)) else read_loop n s1)"

definition fdc_read_byte :: "floppy \<Rightarrow> int \<times> floppy" where
  "fdc_read_byte s = read_loop 1000 s"

definition fdc_check_interrupt :: "floppy \<Rightarrow> int \<times> int \<times> floppy" where
  "fdc_check_interrupt s =
     (case fdc_read_byte (fdc_send_byte CMD_SENSE_INTERRUPT s) of (st0, s1) \<Rightarrow>
        case fdc_read_byte s1 of (cyl, s2) \<Rightarrow> (st0, cyl, s2))"

text \<open>None when the wait for the motor does not end.\<close>

definition fdc_motor_on :: "floppy \<Rightarrow> floppy option" where
  "fdc_motor_on s =
     (let s1 = fl_out FDC_DOR 0x1C s; reads = clock_reads s1 (trace (fl_io s1))
      in Option.bind (wait_until (reads 0 + 20) reads 1) (\<lambda>_. Some s1))"

definition fdc_motor_off :: "floppy \<Rightarrow> floppy" where
  "fdc_motor_off s = fl_out FDC_DOR 0x0C s"

definition check_interrupt_4 :: "floppy \<Rightarrow> floppy" where
  "check_interrupt_4 s = ((\<lambda>s. snd (snd (fdc_check_interrupt s))) ^^ 4) s"

definition floppy_init :: "floppy \<Rightarrow> floppy option" where
  "floppy_init s =
     (let s1 = s\<lparr>fl_hw := idt_set_gate 38 (isr (fl_hw s) 38) 0x08 0x8E (fl_hw s)\<rparr>;
          (m, s2) = fl_in 0x21 s1;
          s3 = fl_out 0x21 (m AND NOT 0x40) s2;
          s4 = fl_out FDC_DOR 0x0C (fl_out FDC_DOR 0x00 s3);
          (r, s5) = floppy_wait_irq s4
      in if r < 0 then Some (fl_print (lit ''Floppy: Reset Timeout'' @ [10]) s5)
         else let s6 = check_interrupt_4 s5;
                  s7 = fl_out FDC_CCR 0x00 s6;
                  s8 = fdc_send_byte 0x02 (fdc_send_byte 0xDF (fdc_send_byte CMD_SPECIFY s7))
              in Option.bind (fdc_motor_on s8) (\<lambda>s9.
                   let s10 = fdc_send_byte 0 (fdc_send_byte CMD_RECALIBRATE s9);
                       (r2, s11) = floppy_wait_irq s10
                   in if r2 < 0 then Some (fdc_motor_off (fl_print (lit ''Floppy: Recal Timeout'' @ [10]) s11))
                      else case fdc_check_interrupt s11 of (_, _, s12) \<Rightarrow> Some (fdc_motor_off s12)))"

definition dma_init :: "ptr \<Rightarrow> u32 \<Rightarrow> floppy \<Rightarrow> floppy" where
  "dma_init address len s =
     (let s1 = fl_out 0x0A 0x06 s;
          s2 = fl_out 0x0C 0xFF s1;
          s3 = fl_out 0x04 (ucast (address AND 0xFF)) s2;
          s4 = fl_out 0x04 (ucast (drop_bit 8 address AND 0xFF)) s3;
          s5 = fl_out 0x81 (ucast (drop_bit 16 address AND 0xFF)) s4;
          s6 = fl_out 0x0C 0xFF s5;
          s7 = fl_out 0x05 (ucast ((len - 1) AND 0xFF)) s6;
          s8 = fl_out 0x05 (ucast (drop_bit 8 (len - 1) AND 0xFF)) s7;
          s9 = fl_out 0x0B 0x46 s8
      in fl_out 0x0A 0x02 s9)"

text \<open>The bytes of the read command: \<^verbatim>\<open>int\<close>s are cut to a byte each.\<close>

definition read_command :: "int \<Rightarrow> int \<Rightarrow> int \<Rightarrow> u8 list" where
  "read_command cylinder head sector =
     [CMD_READ_DATA OR 0x80 OR 0x40, word_of_int (head * 4), word_of_int cylinder, word_of_int head, word_of_int sector,
      2, 18, 0x1B, 0xFF]"

definition fill_buffer :: "floppy \<Rightarrow> floppy" where
  "fill_buffer s = s\<lparr>fl_mem := memset dma_buffer 0xCC 512 (fl_mem s)\<rparr>"

text \<open>The result NULL is 0. C divides towards zero.\<close>

definition floppy_read_sector :: "int \<Rightarrow> floppy \<Rightarrow> (ptr \<times> floppy) option" where
  "floppy_read_sector lba s =
     (let cylinder = lba sdiv 36; head = (lba smod 36) sdiv 18; sector = lba smod 18 + 1
      in Option.bind (fdc_motor_on s) (\<lambda>s1.
        let s2 = dma_init dma_buffer 512 (fill_buffer s1);
            s3 = fdc_send_byte (word_of_int cylinder) (fdc_send_byte 0 (fdc_send_byte CMD_SEEK s2));
            (r, s4) = floppy_wait_irq s3
        in if r < 0 then Some (0, fdc_motor_off s4)
           else case fdc_check_interrupt s4 of (_, _, s5) \<Rightarrow>
             let s6 = fold fdc_send_byte (read_command cylinder head sector) s5;
                 (r2, s7) = floppy_wait_irq s6
             in if r2 < 0 then Some (0, fdc_motor_off (fl_print (lit ''FDC: Read Timeout'' @ [10]) s7))
                else case fdc_read_byte s7 of (st0, s8) \<Rightarrow>
                  let s9 = ((\<lambda>s. snd (fdc_read_byte s)) ^^ 6) s8
                  in if st0 AND 0xC0 \<noteq> 0
                     then Some (0, fdc_motor_off (fl_print [10] (fl_print [word_of_int (48 + drop_bit 6 st0)]
                            (fl_print (lit ''FDC Err: ST0='') s9))))
                     else Some (dma_buffer, fdc_motor_off s9)))"

section \<open>The controller and the DMA chip\<close>

text \<open>
  What the chips make of the history of accesses, as their data sheets have it. The controller collects the
  bytes of a command and then holds its result bytes. It asks for an interrupt when a reset, a seek or a recalibration is done, and
  when a read is, which it only ever is with the motor of drive 0 running; \<open>due\<close> is an interrupt asked for that the processor has
  not acknowledged yet, and \<open>senses\<close> counts the answers it owes to \<^verbatim>\<open>CMD_SENSE_INTERRUPT\<close>: four after a reset, one after a seek; without any
  the command is invalid and has one result byte. In reset it takes no command. The DMA chip latches the address and
  the count of channel 2 low byte first.
\<close>

datatype fdc_phase = is_Command: Command "u8 list" | Results nat

record fdc =
  phase :: fdc_phase
  commands :: "u8 list list"
  dor :: u8
  due :: bool
  senses :: nat

definition command_length :: "u8 \<Rightarrow> nat" where
  "command_length cmd =
     (let c = cmd AND 0x1F in if c = 3 then 3 else if c = 7 then 2 else if c = 8 then 1 else if c = 0x0F then 3 else if c = 6 then 9 else 1)"

definition motor_runs :: "fdc \<Rightarrow> bool" where
  "motor_runs c \<longleftrightarrow> bit (dor c) 4 \<and> dor c AND 3 = 0"

definition fdc_run :: "u8 list \<Rightarrow> fdc \<Rightarrow> fdc" where
  "fdc_run bs c =
     (let k = hd bs AND 0x1F; c1 = c\<lparr>commands := bs # commands c\<rparr> in
      if k = 3 then c1\<lparr>phase := Command []\<rparr>
      else if k = 7 \<or> k = 0x0F then c1\<lparr>phase := Command [], due := True, senses := 1\<rparr>
      else if k = 8 then
        (if senses c = 0 then c1\<lparr>phase := Results 1\<rparr> else c1\<lparr>phase := Results 2, due := False, senses := senses c - 1\<rparr>)
      else if k = 6 then c1\<lparr>phase := Results 7, due := motor_runs c\<rparr>
      else c1\<lparr>phase := Results 1\<rparr>)"

definition fdc_feed :: "u8 \<Rightarrow> fdc \<Rightarrow> fdc" where
  "fdc_feed v c =
     (case phase c of Results n \<Rightarrow> c
      | Command bs \<Rightarrow>
          if \<not> bit (dor c) 2 then c
          else if length bs + 1 < command_length (hd (bs @ [v])) then c\<lparr>phase := Command (bs @ [v])\<rparr>
          else fdc_run (bs @ [v]) c)"

definition fdc_drop :: "fdc \<Rightarrow> fdc" where
  "fdc_drop c =
     (case phase c of Results n \<Rightarrow> c\<lparr>phase := if n \<le> 1 then Command [] else Results (n - 1), due := False\<rparr> | Command _ \<Rightarrow> c)"

definition fdc_control :: "u8 \<Rightarrow> fdc \<Rightarrow> fdc" where
  "fdc_control v c =
     (if \<not> bit v 2 then c\<lparr>dor := v, phase := Command [], due := False, senses := 0\<rparr>
      else if \<not> bit (dor c) 2 then c\<lparr>dor := v, phase := Command [], due := True, senses := 4\<rparr>
      else c\<lparr>dor := v\<rparr>)"

text \<open>The processor acknowledges the interrupt at port \<open>0x20\<close>.\<close>

fun fdc_of :: "port_event list \<Rightarrow> fdc" where
  "fdc_of [] = \<lparr>phase = Command [], commands = [], dor = 0, due = False, senses = 0\<rparr>"
| "fdc_of (Out p v # es) =
     (if p = FDC_FIFO then fdc_feed v (fdc_of es)
      else if p = FDC_DOR then fdc_control v (fdc_of es)
      else if p = 0x20 then (fdc_of es)\<lparr>due := False\<rparr> else fdc_of es)"
| "fdc_of (In p v # es) = (if p = FDC_FIFO then fdc_drop (fdc_of es) else fdc_of es)"

text \<open>Whether the interrupt controller lets line 6 through, and how often the status was read since the last other access.\<close>

fun irq6_open :: "port_event list \<Rightarrow> bool" where
  "irq6_open [] = False"
| "irq6_open (Out p v # es) = (if p = 0x21 then \<not> bit v 6 else irq6_open es)"
| "irq6_open (In p v # es) = irq6_open es"

fun polls :: "port_event list \<Rightarrow> nat" where
  "polls (In p v # es) = (if p = FDC_MSR then Suc (polls es) else 0)"
| "polls _ = 0"

record dma2 =
  flipflop :: bool
  dma_address :: nat
  dma_page :: nat
  dma_count :: nat
  dma_mode :: u8
  dma_masked :: bool

definition latch :: "bool \<Rightarrow> u8 \<Rightarrow> nat \<Rightarrow> nat" where
  "latch high v w = (if high then unat v * 256 + w mod 256 else w div 256 * 256 + unat v)"

fun dma_of :: "port_event list \<Rightarrow> dma2" where
  "dma_of [] = \<lparr>flipflop = False, dma_address = 0, dma_page = 0, dma_count = 0, dma_mode = 0, dma_masked = True\<rparr>"
| "dma_of (Out p v # es) =
     (let d = dma_of es in
      if p = 0x0C then d\<lparr>flipflop := False\<rparr>
      else if p = 0x04 then d\<lparr>dma_address := latch (flipflop d) v (dma_address d), flipflop := \<not> flipflop d\<rparr>
      else if p = 0x05 then d\<lparr>dma_count := latch (flipflop d) v (dma_count d), flipflop := \<not> flipflop d\<rparr>
      else if p = 0x81 then d\<lparr>dma_page := unat v\<rparr>
      else if p = 0x0B \<and> v AND 3 = 2 then d\<lparr>dma_mode := v\<rparr>
      else if p = 0x0A \<and> v AND 3 = 2 then d\<lparr>dma_masked := bit v 2\<rparr>
      else d)"
| "dma_of (In p v # es) = dma_of es"

text \<open>The transfer the chips have been set up for, with the motor running: cylinder, head, sector and address.\<close>

definition read_request :: "port_event list \<Rightarrow> (nat \<times> nat \<times> nat \<times> ptr) option" where
  "read_request es =
     (let d = dma_of es in
      if \<not> motor_runs (fdc_of es) then None
      else case commands (fdc_of es) of
        [cmd, dh, c, h, sec, n, eot, gap, dtl] # [sense] # [seek, drive, c'] # _ \<Rightarrow>
          if cmd AND 0x1F = 6 \<and> dh = h * 4 \<and> h \<le> 1 \<and> n = 2 \<and> 1 \<le> sec \<and> sec \<le> eot \<and> eot = 18
             \<and> sense = CMD_SENSE_INTERRUPT \<and> seek = CMD_SEEK \<and> drive = 0 \<and> c' = c
             \<and> \<not> dma_masked d \<and> dma_mode d = 0x46 \<and> dma_count d = 511
          then Some (unat c, unat h, unat sec, of_nat (dma_page d * 65536 + dma_address d)) else None
      | _ \<Rightarrow> None)"

text \<open>
  A controller in working order, with the disk's sectors in it. It may be busy for a while, but out of reset it is ready within 999 looks
  at its status; it interrupts only when it has reason to and the line is open, and then in the time of one wait; a read it was set up for
  is done without an error, and the DMA chip puts the sector where it was told.
\<close>

definition ready_status :: "port_event list \<Rightarrow> u8" where
  "ready_status es = (case phase (fdc_of es) of Command _ \<Rightarrow> 0x80 | Results _ \<Rightarrow> 0xC0)"

definition status_ok :: "floppy \<Rightarrow> bool" where
  "status_ok s \<longleftrightarrow>
     (\<forall>es. device (fl_io s) es FDC_MSR AND 0x80 = 0 \<or> device (fl_io s) es FDC_MSR AND 0xC0 = ready_status es)
     \<and> (\<forall>es. bit (dor (fdc_of es)) 2 \<longrightarrow> 999 \<le> polls es \<longrightarrow> device (fl_io s) es FDC_MSR AND 0xC0 = ready_status es)"

definition irq_ok :: "floppy \<Rightarrow> bool" where
  "irq_ok s \<longleftrightarrow> (\<forall>es n. irq s es n \<longrightarrow> due (fdc_of es) \<and> irq6_open es)
     \<and> (\<forall>es. due (fdc_of es) \<longrightarrow> irq6_open es \<longrightarrow> (\<exists>n < 10000000. irq s es n))"

definition in_order :: "(nat \<Rightarrow> nat \<Rightarrow> u8) \<Rightarrow> floppy \<Rightarrow> bool" where
  "in_order disk s \<longleftrightarrow> status_ok s \<and> irq_ok s
     \<and> (\<forall>es. phase (fdc_of es) = Results 7 \<longrightarrow> read_request es \<noteq> None \<longrightarrow> device (fl_io s) es FDC_FIFO AND 0xC0 = 0)
     \<and> (\<forall>es. \<exists>n \<ge> 1. clock_reads s es 0 + 20 \<le> clock_reads s es n)
     \<and> (\<forall>es m c h sec a i. read_request es = Some (c, h, sec, a) \<longrightarrow> i < 512 \<longrightarrow>
          dma s es m (a + of_nat i) = disk ((c * 2 + h) * 18 + (sec - 1)) i)"

section \<open>Bytes to and from the controller\<close>

abbreviation fdc_state :: "floppy \<Rightarrow> fdc" where "fdc_state s \<equiv> fdc_of (trace (fl_io s))"
abbreviation dma_state :: "floppy \<Rightarrow> dma2" where "dma_state s \<equiv> dma_of (trace (fl_io s))"

lemma fl_out_sel [simp]:
  "received_irq (fl_out p v s) = received_irq s" "fl_mem (fl_out p v s) = fl_mem s"
  "irq (fl_out p v s) = irq s" "dma (fl_out p v s) = dma s" "clock_reads (fl_out p v s) = clock_reads s"
  "trace (fl_io (fl_out p v s)) = Out p v # trace (fl_io s)" "device (fl_io (fl_out p v s)) = device (fl_io s)"
  "fl_hw (fl_out p v s) = fl_hw s" "messages (fl_out p v s) = messages s"
  by (simp_all add: fl_out_def)

lemma fl_in_eq: "fl_in p s = (device (fl_io s) (trace (fl_io s)) p, s\<lparr>fl_io := snd (port_in p (fl_io s))\<rparr>)"
  by (simp add: fl_in_def port_in_def Let_def)

text \<open>The chips and the clock, which no operation of the driver replaces.\<close>

definition same_env :: "floppy \<Rightarrow> floppy \<Rightarrow> bool" where
  "same_env s s' \<longleftrightarrow> device (fl_io s') = device (fl_io s) \<and> irq s' = irq s \<and> dma s' = dma s \<and> clock_reads s' = clock_reads s"

text \<open>What sending and reading a byte leave alone.\<close>

definition only_fifo :: "floppy \<Rightarrow> floppy \<Rightarrow> bool" where
  "only_fifo s s' \<longleftrightarrow> same_env s s' \<and> received_irq s' = received_irq s \<and> fl_mem s' = fl_mem s \<and> fl_hw s' = fl_hw s
     \<and> dma_state s' = dma_state s \<and> dor (fdc_state s') = dor (fdc_state s)
     \<and> irq6_open (trace (fl_io s')) = irq6_open (trace (fl_io s))"

lemma fdc_dor [simp]: "dor (fdc_run bs c) = dor c" "dor (fdc_feed v c) = dor c" "dor (fdc_drop c) = dor c"
  by (simp_all add: fdc_run_def fdc_feed_def fdc_drop_def Let_def split: fdc_phase.split)

lemma only_fifo_trans: "only_fifo s s' \<Longrightarrow> only_fifo s' s'' \<Longrightarrow> only_fifo s s''"
  by (simp add: only_fifo_def same_env_def)

lemma only_fifo_refl [simp]: "only_fifo s s"
  by (simp add: only_fifo_def same_env_def)

lemma only_fifo_step:
  "only_fifo s (fl_out FDC_FIFO v s)" "only_fifo s (snd (fl_in p s))" "only_fifo s (fl_print m s)"
  by (simp_all add: only_fifo_def same_env_def fl_in_eq fl_print_def)

lemma send_loop_only: "only_fifo s (send_loop n v s)"
proof (induction n arbitrary: s)
  case 0
  then show ?case by (simp add: only_fifo_step)
next
  case (Suc n)
  let ?s = "snd (fl_in FDC_MSR s)"
  have "send_loop (Suc n) v s = fl_out FDC_FIFO v ?s \<or> send_loop (Suc n) v s = send_loop n v ?s" by (simp add: fl_in_eq)
  then have "only_fifo ?s (send_loop (Suc n) v s)" using Suc.IH [of ?s] only_fifo_step(1) [of ?s v] by metis
  then show ?case by (rule only_fifo_trans [OF only_fifo_step(2)])
qed

lemma read_loop_only: "only_fifo s (snd (read_loop n s))"
proof (induction n arbitrary: s)
  case 0
  then show ?case by (simp add: only_fifo_step)
next
  case (Suc n)
  let ?s = "snd (fl_in FDC_MSR s)"
  have "snd (read_loop (Suc n) s) = snd (fl_in FDC_FIFO ?s) \<or> snd (read_loop (Suc n) s) = snd (read_loop n ?s)"
    by (simp add: fl_in_eq)
  then have "only_fifo ?s (snd (read_loop (Suc n) s))" using Suc.IH [of ?s] only_fifo_step(2) [of ?s FDC_FIFO] by metis
  then show ?case by (rule only_fifo_trans [OF only_fifo_step(2)])
qed

lemma send_byte_only: "only_fifo s (fdc_send_byte v s)"
  by (simp add: fdc_send_byte_def send_loop_only)

lemma read_byte_only: "only_fifo s (snd (fdc_read_byte s))"
  by (simp add: fdc_read_byte_def read_loop_only)

lemma send_fold_only: "only_fifo s (fold fdc_send_byte bs s)"
  by (induction bs arbitrary: s) (auto intro: only_fifo_trans send_byte_only)

lemma read_pow_only: "only_fifo s (((\<lambda>s. snd (fdc_read_byte s)) ^^ n) s)"
  by (induction n) (auto intro: only_fifo_trans read_byte_only)

lemma in_order_env: "same_env s s' \<Longrightarrow> in_order disk s' = in_order disk s"
  by (simp add: in_order_def status_ok_def irq_ok_def same_env_def)

lemma only_fifo_in_order: "only_fifo s s' \<Longrightarrow> in_order disk s \<Longrightarrow> in_order disk s'"
  using in_order_env by (auto simp: only_fifo_def)

lemma in_order_out [simp]: "in_order disk (fl_out p v s) = in_order disk s"
  by (rule in_order_env) (simp add: same_env_def)

lemma msr_bits:
  fixes v :: u8
  shows "v AND 0xC0 = 0x80 \<Longrightarrow> v AND 0x80 \<noteq> 0 \<and> v AND 0x40 = 0" "v AND 0xC0 = 0xC0 \<Longrightarrow> v AND 0x80 \<noteq> 0 \<and> v AND 0x40 \<noteq> 0"
proof -
  have a: "v AND 0x80 = (v AND 0xC0) AND 0x80" "v AND 0x40 = (v AND 0xC0) AND 0x40" by (simp_all add: and.assoc)
  show "v AND 0xC0 = 0x80 \<Longrightarrow> v AND 0x80 \<noteq> 0 \<and> v AND 0x40 = 0" unfolding a by simp
  show "v AND 0xC0 = 0xC0 \<Longrightarrow> v AND 0x80 \<noteq> 0 \<and> v AND 0x40 \<noteq> 0" unfolding a by simp
qed

text \<open>A working controller out of reset takes a byte and gives one before the loop runs out.\<close>

lemma send_loop_ok:
  assumes "status_ok s" and "phase (fdc_state s) = Command bs" and "bit (dor (fdc_state s)) 2" and "0 < n" and "1000 \<le> n + polls (trace (fl_io s))"
  shows "fdc_state (send_loop n v s) = fdc_feed v (fdc_state s)"
  using assms
proof (induction n arbitrary: s)
  case (Suc n)
  let ?m = "device (fl_io s) (trace (fl_io s)) FDC_MSR" and ?s = "snd (fl_in FDC_MSR s)"
  have rdy: "ready_status (trace (fl_io s)) = 0x80" using Suc.prems(2) by (simp add: ready_status_def)
  show ?case
  proof (cases "?m AND 0xC0 = 0x80")
    case True
    then show ?thesis using msr_bits(1) by (simp add: fl_in_eq)
  next
    case False
    then have busy: "?m AND 0x80 = 0" using Suc.prems(1) rdy unfolding status_ok_def by metis
    have "\<not> 999 \<le> polls (trace (fl_io s))" using False Suc.prems(1,3) rdy unfolding status_ok_def by metis
    then have n: "0 < n" "1000 \<le> n + polls (trace (fl_io ?s))" using Suc.prems(5) by (simp_all add: fl_in_eq)
    have "send_loop (Suc n) v s = send_loop n v ?s" using busy by (simp add: fl_in_eq)
    moreover have "status_ok ?s" "fdc_state ?s = fdc_state s" using Suc.prems(1) by (simp_all add: status_ok_def fl_in_eq)
    ultimately show ?thesis using Suc.IH [of ?s] Suc.prems(2,3) n by simp
  qed
qed simp

lemma fdc_send_byte_ok:
  assumes "in_order disk s" and "phase (fdc_state s) = Command bs" and "bit (dor (fdc_state s)) 2"
  shows "fdc_state (fdc_send_byte v s) = fdc_feed v (fdc_state s)"
  unfolding fdc_send_byte_def by (rule send_loop_ok [OF _ assms(2,3)]) (use assms(1) in \<open>simp_all add: in_order_def\<close>)

lemma read_loop_ok:
  assumes "status_ok s" and "phase (fdc_state s) = Results k" and "bit (dor (fdc_state s)) 2" and "0 < n" and "1000 \<le> n + polls (trace (fl_io s))"
  shows "\<exists>es. read_loop n s = (int (unat (device (fl_io s) es FDC_FIFO)), snd (read_loop n s))
    \<and> fdc_of es = fdc_state s \<and> dma_of es = dma_state s \<and> fdc_state (snd (read_loop n s)) = fdc_drop (fdc_state s)"
  using assms
proof (induction n arbitrary: s)
  case (Suc n)
  let ?m = "device (fl_io s) (trace (fl_io s)) FDC_MSR" and ?s = "snd (fl_in FDC_MSR s)"
  have rdy: "ready_status (trace (fl_io s)) = 0xC0" using Suc.prems(2) by (simp add: ready_status_def)
  show ?case
  proof (cases "?m AND 0xC0 = 0xC0")
    case True
    from msr_bits(2) [OF this] have "read_loop (Suc n) s = (int (unat (fst (fl_in FDC_FIFO ?s))), snd (fl_in FDC_FIFO ?s))"
      by (simp add: fl_in_eq)
    then show ?thesis by (intro exI [of _ "trace (fl_io ?s)"]) (simp add: fl_in_eq)
  next
    case False
    then have busy: "?m AND 0x80 = 0" using Suc.prems(1) rdy unfolding status_ok_def by metis
    have "\<not> 999 \<le> polls (trace (fl_io s))" using False Suc.prems(1,3) rdy unfolding status_ok_def by metis
    then have n: "0 < n" "1000 \<le> n + polls (trace (fl_io ?s))" using Suc.prems(5) by (simp_all add: fl_in_eq)
    have e: "read_loop (Suc n) s = read_loop n ?s" using busy by (simp add: fl_in_eq)
    have "status_ok ?s" "fdc_state ?s = fdc_state s" "dma_state ?s = dma_state s" "device (fl_io ?s) = device (fl_io s)"
      using Suc.prems(1) by (simp_all add: status_ok_def fl_in_eq)
    then show ?thesis unfolding e using Suc.IH [of ?s] Suc.prems(2,3) n by simp
  qed
qed simp

lemma fdc_read_byte_ok:
  assumes "in_order disk s" and "phase (fdc_state s) = Results n" and "bit (dor (fdc_state s)) 2"
  shows "fdc_state (snd (fdc_read_byte s)) = fdc_drop (fdc_state s)"
    "n = 7 \<Longrightarrow> read_request (trace (fl_io s)) \<noteq> None \<Longrightarrow> fst (fdc_read_byte s) AND 0xC0 = 0"
proof -
  have "status_ok s" using assms(1) by (simp add: in_order_def)
  from read_loop_ok [OF this assms(2,3), of 1000]
  obtain es where r: "fst (fdc_read_byte s) = int (unat (device (fl_io s) es FDC_FIFO))" "fdc_of es = fdc_state s" "dma_of es = dma_state s"
    "fdc_state (snd (fdc_read_byte s)) = fdc_drop (fdc_state s)"
    unfolding fdc_read_byte_def by (metis fst_conv le_add1 zero_less_numeral)
  show "fdc_state (snd (fdc_read_byte s)) = fdc_drop (fdc_state s)" by (rule r(4))
  assume "n = 7" "read_request (trace (fl_io s)) \<noteq> None"
  moreover have "read_request es = read_request (trace (fl_io s))" by (simp only: read_request_def r(2,3))
  ultimately have "phase (fdc_of es) = Results 7" "read_request es \<noteq> None" using assms(2) r(2) by simp_all
  then have "device (fl_io s) es FDC_FIFO AND 0xC0 = 0" using assms(1) unfolding in_order_def by blast
  moreover have "int (unat v) AND 0xC0 = int (unat (v AND 0xC0))" for v :: u8
    using unsigned_and_eq [where 'a = nat, of v "0xC0"] by (simp add: of_nat_and_eq)
  ultimately show "fst (fdc_read_byte s) AND 0xC0 = 0" using r(1) by simp
qed

text \<open>A whole command, and all results of one.\<close>

lemma fdc_run_phase [simp]: "fdc_run bs (c\<lparr>phase := p\<rparr>) = fdc_run bs c"
  by (simp add: fdc_run_def Let_def motor_runs_def)

lemma send_command_rest:
  assumes "in_order disk s" and "phase (fdc_state s) = Command as" and "bit (dor (fdc_state s)) 2"
    and "command_length (hd (as @ bs)) = length as + length bs" and "bs \<noteq> []"
  shows "fdc_state (fold fdc_send_byte bs s) = fdc_run (as @ bs) (fdc_state s)"
  using assms
proof (induction bs arbitrary: as s)
  case Nil
  then show ?case by simp
next
  case (Cons b bs)
  let ?s = "fdc_send_byte b s"
  note st = fdc_send_byte_ok [OF Cons.prems(1-3), of b]
  have ok: "in_order disk ?s" by (rule only_fifo_in_order [OF send_byte_only Cons.prems(1)])
  have hd: "hd (as @ b # bs) = hd (as @ [b])" by (cases as) simp_all
  show ?case
  proof (cases "bs = []")
    case True
    then show ?thesis using st Cons.prems(2-4) by (simp add: fdc_feed_def)
  next
    case False
    have f: "fdc_state ?s = (fdc_state s)\<lparr>phase := Command (as @ [b])\<rparr>"
      using st Cons.prems(2-4) False unfolding hd by (auto simp: fdc_feed_def neq_Nil_conv)
    then show ?thesis using Cons.IH [OF ok, of "as @ [b]"] Cons.prems(3,4) False by simp
  qed
qed

lemma send_command:
  assumes "in_order disk s" and "phase (fdc_state s) = Command []" and "bit (dor (fdc_state s)) 2"
    and "command_length (hd bs) = length bs" and "bs \<noteq> []"
  shows "fdc_state (fold fdc_send_byte bs s) = fdc_run bs (fdc_state s)"
  using send_command_rest [OF assms(1-3), of bs] assms(4,5) by simp

lemma read_results:
  assumes "in_order disk s" and "phase (fdc_state s) = Results n" and "bit (dor (fdc_state s)) 2" and "0 < n"
  shows "fdc_state (((\<lambda>s. snd (fdc_read_byte s)) ^^ n) s) = (fdc_state s)\<lparr>phase := Command [], due := False\<rparr>"
  using assms
proof (induction n arbitrary: s)
  case 0
  then show ?case by simp
next
  case (Suc n)
  let ?s = "snd (fdc_read_byte s)"
  note st = fdc_read_byte_ok(1) [OF Suc.prems(1-3)]
  have ok: "in_order disk ?s" by (rule only_fifo_in_order [OF read_byte_only Suc.prems(1)])
  show ?case
  proof (cases n)
    case 0
    then show ?thesis using st Suc.prems(2) by (simp add: fdc_drop_def)
  next
    case (Suc k)
    have f: "fdc_state ?s = (fdc_state s)\<lparr>phase := Results n, due := False\<rparr>"
      using st Suc \<open>phase (fdc_state s) = Results (Suc n)\<close> by (simp add: fdc_drop_def)
    from Suc.IH [OF ok, unfolded f] \<open>bit (dor (fdc_state s)) 2\<close> Suc
    have "fdc_state (((\<lambda>s. snd (fdc_read_byte s)) ^^ n) ?s) = (fdc_state s)\<lparr>phase := Command [], due := False\<rparr>" by simp
    then show ?thesis by (simp del: funpow.simps add: funpow_Suc_right)
  qed
qed

lemma check_interrupt_ok:
  assumes "in_order disk s" and "phase (fdc_state s) = Command []" and "bit (dor (fdc_state s)) 2" and "senses (fdc_state s) = Suc k"
  shows "fdc_state (snd (snd (fdc_check_interrupt s))) =
      (fdc_state s)\<lparr>phase := Command [], commands := [CMD_SENSE_INTERRUPT] # commands (fdc_state s), due := False, senses := k\<rparr>"
    "only_fifo s (snd (snd (fdc_check_interrupt s)))"
proof -
  let ?s = "fdc_send_byte CMD_SENSE_INTERRUPT s"
  have e: "snd (snd (fdc_check_interrupt s)) = ((\<lambda>s. snd (fdc_read_byte s)) ^^ 2) ?s"
    by (simp add: fdc_check_interrupt_def numeral_2_eq_2 split: prod.split)
  have st: "fdc_state ?s = (fdc_state s)\<lparr>phase := Results 2, commands := [CMD_SENSE_INTERRUPT] # commands (fdc_state s), due := False, senses := k\<rparr>"
    using send_command [OF assms(1-3), of "[CMD_SENSE_INTERRUPT]"] assms(4) by (simp add: command_length_def fdc_run_def Let_def)
  have "in_order disk ?s" by (rule only_fifo_in_order [OF send_byte_only assms(1)])
  from read_results [OF this, of 2] st assms(3)
  show "fdc_state (snd (snd (fdc_check_interrupt s))) =
      (fdc_state s)\<lparr>phase := Command [], commands := [CMD_SENSE_INTERRUPT] # commands (fdc_state s), due := False, senses := k\<rparr>"
    unfolding e by simp
  show "only_fifo s (snd (snd (fdc_check_interrupt s)))"
    unfolding e by (rule only_fifo_trans [OF send_byte_only read_pow_only])
qed

section \<open>The interrupt, the motor and the DMA chip\<close>

lemma take_irq_no: "\<not> irq s (trace (fl_io s)) n \<Longrightarrow> take_irq n s = s"
  by (simp add: take_irq_def)

lemma take_irq_yes:
  assumes "irq s (trace (fl_io s)) n"
  shows "received_irq (take_irq n s)" "fl_mem (take_irq n s) = dma s (trace (fl_io s)) (fl_mem s)"
    "trace (fl_io (take_irq n s)) = Out 0x20 0x20 # trace (fl_io s)" "same_env s (take_irq n s)"
  using assms by (simp_all add: take_irq_def floppy_handler_c_def same_env_def)

text \<open>The loop stops at the first look the interrupt comes at; with its last look it also ends, but with no time left.\<close>

lemma wait_irq_loop_first:
  assumes "\<not> received_irq s" and "irq s (trace (fl_io s)) (n + k)" and "\<forall>j < k. \<not> irq s (trace (fl_io s)) (n + j)" and "k \<le> t"
  shows "wait_irq_loop t n s = (int (t - k), take_irq (n + k) s)"
  using assms
proof (induction k arbitrary: t n)
  case 0
  then show ?case using take_irq_yes(1) by (cases t) (simp_all add: Let_def)
next
  case (Suc k)
  then obtain t' where t: "t = Suc t'" by (cases t) auto
  have no: "take_irq n s = s" using Suc.prems(3) by (intro take_irq_no) auto
  have "wait_irq_loop t' (n + 1) s = (int (t' - k), take_irq (n + 1 + k) s)"
    by (rule Suc.IH) (use Suc.prems t in auto)
  then show ?case using no Suc.prems(1) t by simp
qed

lemma wait_irq_loop_never:
  assumes "\<not> received_irq s" and "\<forall>j \<le> t. \<not> irq s (trace (fl_io s)) (n + j)"
  shows "wait_irq_loop t n s = (-1, s)"
  using assms
proof (induction t arbitrary: n)
  case 0
  then show ?case using take_irq_no [of s n] by simp
next
  case (Suc t)
  have "take_irq n s = s" using Suc.prems(2) by (intro take_irq_no) auto
  moreover have "wait_irq_loop t (n + 1) s = (-1, s)" by (rule Suc.IH) (use Suc.prems in auto)
  ultimately show ?case using Suc.prems(1) by simp
qed

lemma floppy_wait_irq_ok:
  assumes "in_order disk s" and "\<not> received_irq s" and "due (fdc_state s)" and "irq6_open (trace (fl_io s))"
  shows "fst (floppy_wait_irq s) = 0" "\<not> received_irq (snd (floppy_wait_irq s))"
    "fl_mem (snd (floppy_wait_irq s)) = dma s (trace (fl_io s)) (fl_mem s)" "same_env s (snd (floppy_wait_irq s))"
    "fdc_state (snd (floppy_wait_irq s)) = (fdc_state s)\<lparr>due := False\<rparr>" "dma_state (snd (floppy_wait_irq s)) = dma_state s"
    "fl_hw (snd (floppy_wait_irq s)) = fl_hw s" "irq6_open (trace (fl_io (snd (floppy_wait_irq s))))"
proof -
  let ?I = "irq s (trace (fl_io s))"
  define k where "k = (LEAST n. ?I n)"
  obtain n where n: "n < 10000000" "?I n" using assms(1,3,4) unfolding in_order_def irq_ok_def by blast
  have k: "?I k" "k < 10000000" "\<forall>j < k. \<not> ?I j"
  proof -
    show "?I k" unfolding k_def by (rule LeastI [of ?I n, OF n(2)])
    have "k \<le> n" unfolding k_def by (rule Least_le [of ?I n, OF n(2)])
    then show "k < 10000000" using n(1) by simp
    show "\<forall>j < k. \<not> ?I j" unfolding k_def using not_less_Least [of _ ?I] by blast
  qed
  have "wait_irq_loop 10000000 0 s = (int (10000000 - k), take_irq k s)"
    using wait_irq_loop_first [of s 0 k 10000000] assms(2) k by simp
  moreover have "\<not> int (10000000 - k) \<le> 0" using k(2) by simp
  ultimately have e: "floppy_wait_irq s = (0, (take_irq k s)\<lparr>received_irq := False\<rparr>)" by (simp add: floppy_wait_irq_def)
  note t = take_irq_yes [OF k(1)]
  show "fst (floppy_wait_irq s) = 0" "\<not> received_irq (snd (floppy_wait_irq s))" "fl_mem (snd (floppy_wait_irq s)) = dma s (trace (fl_io s)) (fl_mem s)"
    "same_env s (snd (floppy_wait_irq s))" "fdc_state (snd (floppy_wait_irq s)) = (fdc_state s)\<lparr>due := False\<rparr>"
    "dma_state (snd (floppy_wait_irq s)) = dma_state s" "irq6_open (trace (fl_io (snd (floppy_wait_irq s))))"
    using t assms(4) by (simp_all add: e same_env_def)
  show "fl_hw (snd (floppy_wait_irq s)) = fl_hw s" by (simp add: e take_irq_def floppy_handler_c_def)
qed

lemma wait_until_ends:
  assumes "eticks \<le> reads n" "m \<le> n" shows "\<exists>k. wait_until eticks reads m = Some k"
  using assms(2)
proof (induction "n - m" arbitrary: m)
  case 0
  then show ?case using assms(1) by (subst wait_until.simps) (auto simp: not_less)
next
  case (Suc d)
  then have "\<exists>k. wait_until eticks reads (m + 1) = Some k" by simp
  then show ?case by (subst wait_until.simps) simp
qed

lemma motor_on_ok:
  assumes "in_order disk s" shows "fdc_motor_on s = Some (fl_out FDC_DOR 0x1C s)"
proof -
  let ?r = "clock_reads s (trace (fl_io (fl_out FDC_DOR 0x1C s)))"
  obtain n where "1 \<le> n" "?r 0 + 20 \<le> ?r n" using assms unfolding in_order_def by blast
  then obtain k where "wait_until (?r 0 + 20) ?r 1 = Some k" using wait_until_ends [of "?r 0 + 20" ?r n 1] by auto
  then show ?thesis by (simp add: fdc_motor_on_def Let_def)
qed

lemma byte_of:
  fixes w :: u32
  shows "unat (ucast (w AND 0xFF) :: u8) = unat w mod 256" "unat (ucast (drop_bit 8 w AND 0xFF) :: u8) = unat w div 256 mod 256"
    "unat (ucast (drop_bit 16 w AND 0xFF) :: u8) = unat w div 65536 mod 256"
proof -
  have m: "unat (ucast (v AND 0xFF) :: u8) = unat v mod 256" for v :: u32
  proof -
    have "v AND 0xFF = take_bit 8 v" by (simp only: take_bit_eq_mask mask_eq_exp_minus_1) simp
    then show ?thesis by (simp only: unsigned_ucast_eq unsigned_take_bit_eq) (simp add: take_bit_eq_mod)
  qed
  show "unat (ucast (w AND 0xFF) :: u8) = unat w mod 256" "unat (ucast (drop_bit 8 w AND 0xFF) :: u8) = unat w div 256 mod 256"
    "unat (ucast (drop_bit 16 w AND 0xFF) :: u8) = unat w div 65536 mod 256"
    unfolding m by (simp_all only: unat_drop_bit_eq) (simp_all add: drop_bit_eq_div)
qed

lemma latch_word:
  fixes lo hi :: u8
  assumes "unat lo = n mod 256" "unat hi = n div 256 mod 256"
  shows "latch True hi (latch False lo w) = n mod 65536"
proof -
  have "n mod 65536 = n mod 256 + 256 * (n div 256 mod 256)" using mod_mult2_eq [of n 256 256] by simp
  then show ?thesis using assms by (simp add: latch_def)
qed

lemma dma_init_state:
  "dma_state (dma_init address len s) = (dma_state s)\<lparr>flipflop := False, dma_address := unat address mod 65536,
     dma_page := unat address div 65536 mod 256, dma_count := unat (len - 1) mod 65536, dma_mode := 0x46, dma_masked := False\<rparr>"
  "fdc_state (dma_init address len s) = fdc_state s" "same_env s (dma_init address len s)"
  "fl_mem (dma_init address len s) = fl_mem s" "received_irq (dma_init address len s) = received_irq s"
  "fl_hw (dma_init address len s) = fl_hw s" "irq6_open (trace (fl_io (dma_init address len s))) = irq6_open (trace (fl_io s))"
proof -
  show "dma_state (dma_init address len s) = (dma_state s)\<lparr>flipflop := False, dma_address := unat address mod 65536,
     dma_page := unat address div 65536 mod 256, dma_count := unat (len - 1) mod 65536, dma_mode := 0x46, dma_masked := False\<rparr>"
    by (simp add: dma_init_def Let_def latch_word [OF byte_of(1,2)] byte_of(3))
qed (simp_all add: dma_init_def Let_def same_env_def)

section \<open>Cylinder, head and sector\<close>

lemma chs_div:
  fixes lba :: int
  assumes "0 \<le> lba"
  shows "lba sdiv 36 = lba div 36" "(lba smod 36) sdiv 18 = lba mod 36 div 18" "lba smod 18 = lba mod 18"
proof -
  have d: "a sdiv b = a div b \<and> a smod b = a mod b" if "0 \<le> a" "0 < b" for a b :: int
    using that by (cases "a = 0") (simp_all add: signed_divide_int_def signed_modulo_int_def)
  show "lba sdiv 36 = lba div 36" "(lba smod 36) sdiv 18 = lba mod 36 div 18" "lba smod 18 = lba mod 18"
    using assms d [of lba 36] d [of lba 18] d [of "lba mod 36" 18] by simp_all
qed

text \<open>The bytes of a valid address, and the sector they stand for.\<close>

lemma chs_bytes:
  fixes lba :: int
  assumes "0 \<le> lba" "lba < 2880"
  defines "c \<equiv> word_of_int (lba div 36) :: u8" and "h \<equiv> word_of_int (lba mod 36 div 18) :: u8" and "n \<equiv> word_of_int (lba mod 18 + 1) :: u8"
  shows "(unat c * 2 + unat h) * 18 + (unat n - 1) = nat lba" "h \<le> 1" "1 \<le> n" "n \<le> 18"
    "word_of_int (lba mod 36 div 18 * 4) = h * 4"
proof -
  have w: "unat (word_of_int i :: u8) = nat i" if "0 \<le> i" "i < 256" for i
    using that by (simp add: unsigned_of_int take_bit_int_eq_self)
  have c: "unat c = nat (lba div 36)" unfolding c_def by (rule w) (use assms in auto)
  have h: "unat h = nat (lba mod 36 div 18)" unfolding h_def by (rule w) simp_all
  have n: "unat n = nat (lba mod 18 + 1)"
  proof -
    have "lba mod 18 < 18" "0 \<le> lba mod 18" by simp_all
    then show ?thesis unfolding n_def by (intro w) linarith+
  qed
  have "lba mod 18 < 18" "0 \<le> lba mod 18" "lba mod 36 < 36" by simp_all
  then have b: "nat (lba mod 18 + 1) \<le> 18" "1 \<le> nat (lba mod 18 + 1)" "nat (lba mod 36 div 18) \<le> 1" by linarith+
  show "h \<le> 1" using b(3) h by (simp add: word_le_nat_alt)
  show "1 \<le> n" "n \<le> 18" using b(1,2) n by (simp_all add: word_le_nat_alt)
  show "word_of_int (lba mod 36 div 18 * 4) = h * 4" unfolding h_def by simp
  obtain k where k: "lba = int k" using assms(1) nonneg_int_cases by blast
  have "lba div 36 = int (k div 36)" "lba mod 36 div 18 = int (k mod 36 div 18)" "lba mod 18 + 1 = int (k mod 18 + 1)"
    unfolding k by (simp_all add: zdiv_int zmod_int)
  then have "unat c = k div 36" "unat h = k mod 36 div 18" "unat n = k mod 18 + 1" using c h n by (simp_all only: nat_int)
  moreover have "(k div 36 * 2 + k mod 36 div 18) * 18 + k mod 18 = k"
  proof -
    have "k div 36 = k div 18 div 2" "k mod 36 = 18 * (k div 18 mod 2) + k mod 18"
      using div_mult2_eq [of k 18 2] mod_mult2_eq [of k 18 2] by simp_all
    then have "k div 36 * 2 + k mod 36 div 18 = k div 18" by simp
    then show ?thesis by simp
  qed
  ultimately show "(unat c * 2 + unat h) * 18 + (unat n - 1) = nat lba" using k by simp
qed

text \<open>A command and the wait for its interrupt.\<close>

definition usable :: "(nat \<Rightarrow> nat \<Rightarrow> u8) \<Rightarrow> floppy \<Rightarrow> bool" where
  "usable disk s \<longleftrightarrow> in_order disk s \<and> \<not> received_irq s \<and> bit (dor (fdc_state s)) 2 \<and> irq6_open (trace (fl_io s))"

lemma usable_fifo: "only_fifo s s' \<Longrightarrow> usable disk s \<Longrightarrow> usable disk s'"
  using only_fifo_in_order by (auto simp: usable_def only_fifo_def)

lemma command_and_wait:
  assumes "usable disk s" "phase (fdc_state s) = Command []"
    and "command_length (hd bs) = length bs" "bs \<noteq> []" "due (fdc_run bs (fdc_state s))"
  defines "t \<equiv> fold fdc_send_byte bs s" and "u \<equiv> snd (floppy_wait_irq (fold fdc_send_byte bs s))"
  shows "floppy_wait_irq t = (0, u)" "usable disk u" "dma_state u = dma_state s" "dma_state t = dma_state s"
    "fdc_state u = (fdc_run bs (fdc_state s))\<lparr>due := False\<rparr>" "fdc_state t = fdc_run bs (fdc_state s)"
    "fl_mem u = dma t (trace (fl_io t)) (fl_mem t)" "fl_hw u = fl_hw s" "in_order disk t"
proof -
  have o: "only_fifo s t" unfolding t_def by (rule send_fold_only)
  have t: "usable disk t" by (rule usable_fifo [OF o assms(1)])
  have ut: "u = snd (floppy_wait_irq t)" by (simp add: u_def t_def)
  have s: "in_order disk s" "bit (dor (fdc_state s)) 2" using assms(1) by (simp_all add: usable_def)
  show ft: "fdc_state t = fdc_run bs (fdc_state s)" unfolding t_def by (rule send_command [OF s(1) assms(2) s(2) assms(3,4)])
  have d: "due (fdc_state t)" using ft assms(5) by simp
  have t': "in_order disk t" "\<not> received_irq t" "irq6_open (trace (fl_io t))" using t by (simp_all add: usable_def)
  note w = floppy_wait_irq_ok [OF t'(1,2) d t'(3), folded ut]
  show "floppy_wait_irq t = (0, u)" using w(1) unfolding ut by (metis prod.collapse)
  show "fdc_state u = (fdc_run bs (fdc_state s))\<lparr>due := False\<rparr>" unfolding w(5) ft ..
  show "usable disk u" using w(2,5,8) t in_order_env [OF w(4)] by (simp add: usable_def)
  show "dma_state u = dma_state s" "dma_state t = dma_state s"
    "fl_mem u = dma t (trace (fl_io t)) (fl_mem t)" "fl_hw u = fl_hw s" "in_order disk t"
    using w o t' by (simp_all add: only_fifo_def)
qed

section \<open>Initialisation\<close>

lemma check_interrupt_4_ok:
  assumes "usable disk s" and "phase (fdc_state s) = Command []" and "senses (fdc_state s) = 4"
  shows "phase (fdc_state (check_interrupt_4 s)) = Command [] \<and> only_fifo s (check_interrupt_4 s)"
proof -
  have "phase (fdc_state (((\<lambda>s. snd (snd (fdc_check_interrupt s))) ^^ n) s)) = Command []
      \<and> senses (fdc_state (((\<lambda>s. snd (snd (fdc_check_interrupt s))) ^^ n) s)) = 4 - n
      \<and> only_fifo s (((\<lambda>s. snd (snd (fdc_check_interrupt s))) ^^ n) s)" if "n \<le> 4" for n
    using that
  proof (induction n)
    case 0
    then show ?case using assms by simp
  next
    case (Suc n)
    let ?t = "((\<lambda>s. snd (snd (fdc_check_interrupt s))) ^^ n) s"
    have t: "phase (fdc_state ?t) = Command []" "senses (fdc_state ?t) = Suc (3 - n)" "only_fifo s ?t" using Suc by auto
    have "in_order disk ?t" "bit (dor (fdc_state ?t)) 2" using usable_fifo [OF t(3) assms(1)] by (simp_all add: usable_def)
    from check_interrupt_ok [OF this(1) t(1) this(2) t(2)] show ?case using t(3) only_fifo_trans by auto
  qed
  from this [of 4] show ?thesis unfolding check_interrupt_4_def by simp
qed

text \<open>\<^verbatim>\<open>floppy_init\<close> brings a working controller into the state the driver's other calls expect, whatever it
  was doing before: ready for a command, its interrupt line open, the flag clear, the gate of interrupt 38 installed, the motor off.\<close>

lemma floppy_init_ready:
  assumes ok: "in_order disk s" and q: "\<not> received_irq s"
  shows "\<exists>s'. floppy_init s = Some s' \<and> usable disk s' \<and> phase (fdc_state s') = Command []
    \<and> fl_hw s' = idt_set_gate 38 (isr (fl_hw s) 38) 0x08 0x8E (fl_hw s) \<and> hd (trace (fl_io s')) = Out FDC_DOR 0x0C"
proof -
  let ?h = "idt_set_gate 38 (isr (fl_hw s) 38) 0x08 0x8E (fl_hw s)"
  define s1 where "s1 = s\<lparr>fl_hw := ?h\<rparr>"
  define s4 where "s4 = fl_out FDC_DOR 0x0C (fl_out FDC_DOR 0x00 (fl_out 0x21 (fst (fl_in 0x21 s1) AND NOT 0x40) (snd (fl_in 0x21 s1))))"
  define s5 where "s5 = snd (floppy_wait_irq s4)"
  define s7 where "s7 = fl_out FDC_CCR 0x00 (check_interrupt_4 s5)"
  define s8 where "s8 = fold fdc_send_byte [CMD_SPECIFY, 0xDF, 0x02] s7"
  have "same_env s s4" by (simp add: s4_def s1_def same_env_def fl_in_eq)
  then have i4: "in_order disk s4" using in_order_env ok by blast
  have open4: "irq6_open (trace (fl_io s4))" by (simp add: s4_def s1_def fl_in_eq bit_simps)
  have f4: "due (fdc_state s4)" "senses (fdc_state s4) = 4" "phase (fdc_state s4) = Command []" "dor (fdc_state s4) = 0x0C"
    by (simp_all add: s4_def s1_def fl_in_eq fdc_control_def)
  have p4: "\<not> received_irq s4" "fl_hw s4 = ?h" using q by (simp_all add: s4_def s1_def fl_in_eq)
  note w5 = floppy_wait_irq_ok [OF i4 p4(1) f4(1) open4, folded s5_def]
  have i5: "usable disk s5" using in_order_env [OF w5(4)] i4 w5(2,5,8) f4(4) by (simp add: usable_def)
  have c: "phase (fdc_state (check_interrupt_4 s5)) = Command []" "only_fifo s5 (check_interrupt_4 s5)"
    using check_interrupt_4_ok [OF i5] w5(5) f4 by simp_all
  have i7: "usable disk s7" "phase (fdc_state s7) = Command []" "fl_hw s7 = ?h"
    using usable_fifo [OF c(2) i5] c w5(7) p4 by (simp_all add: s7_def only_fifo_def usable_def)
  have o8: "only_fifo s7 s8" unfolding s8_def by (rule send_fold_only)
  have i8: "usable disk s8" "fl_hw s8 = ?h" using usable_fifo [OF o8 i7(1)] o8 i7 by (simp_all add: only_fifo_def)
  have "in_order disk s7" "bit (dor (fdc_state s7)) 2" using i7(1) by (simp_all add: usable_def)
  then have f8: "phase (fdc_state s8) = Command []" 
    using send_command [of disk s7 "[CMD_SPECIFY, 0xDF, 0x02]"] i7(2) by (simp add: s8_def command_length_def fdc_run_def Let_def)
  let ?s9 = "fl_out FDC_DOR 0x1C s8"
  have i9: "usable disk ?s9" "phase (fdc_state ?s9) = Command []"
    using i8 f8 by (simp_all add: usable_def fdc_control_def)
  have "command_length (hd [CMD_RECALIBRATE, 0]) = length [CMD_RECALIBRATE, 0]" by (simp add: command_length_def)
  moreover have r: "fdc_run [CMD_RECALIBRATE, 0] c = c\<lparr>phase := Command [], commands := [CMD_RECALIBRATE, 0] # commands c, due := True, senses := 1\<rparr>" for c
    by (simp add: fdc_run_def Let_def)
  ultimately have "command_length (hd [CMD_RECALIBRATE, 0]) = length [CMD_RECALIBRATE, 0]" "[CMD_RECALIBRATE, 0 :: u8] \<noteq> []"
    "due (fdc_run [CMD_RECALIBRATE, 0] (fdc_state ?s9))" by simp_all
  note w11 = command_and_wait [OF i9 this]
  define s11 where "s11 = snd (floppy_wait_irq (fold fdc_send_byte [CMD_RECALIBRATE, 0] ?s9))"
  note w11 = w11 [folded s11_def, unfolded r]
  have p11: "phase (fdc_state s11) = Command []" "senses (fdc_state s11) = Suc 0" "in_order disk s11" "bit (dor (fdc_state s11)) 2"
    using w11(2,5) by (simp_all add: usable_def)
  define s12 where "s12 = snd (snd (fdc_check_interrupt s11))"
  note c12 = check_interrupt_ok [OF p11(3,1,4,2), folded s12_def]
  have wt: "floppy_wait_irq s4 = (0, s5)" using w5(1) unfolding s5_def by (metis prod.collapse)
  obtain x y where ci: "fdc_check_interrupt s11 = (x, y, s12)" unfolding s12_def by (metis prod.collapse)
  have sends: "fdc_send_byte 0x02 (fdc_send_byte 0xDF (fdc_send_byte CMD_SPECIFY s7)) = s8" by (simp add: s8_def)
  have in8: "in_order disk s8" using i8(1) by (simp add: usable_def)
  have "floppy_init s = Some (fdc_motor_off s12)"
    unfolding floppy_init_def Let_def s1_def [symmetric] case_prod_beta s4_def [symmetric]
    using w11(1) by (simp add: wt s7_def [symmetric] sends motor_on_ok [OF in8] ci)
  then show ?thesis using usable_fifo [OF c12(2) w11(2)] c12 w11(8) i8(2) by (simp add: fdc_motor_off_def only_fifo_def usable_def fdc_control_def)
qed

section \<open>Properties\<close>

text \<open>C12: \<^verbatim>\<open>floppy_read_sector\<close> of a valid sector number, with a controller in working order that waits for a command and whose interrupt
  line is open, as \<^verbatim>\<open>floppy_init\<close> leaves them, returns the
  DMA buffer with exactly that sector in it: the driver starts the motor, without which the read would never end, programs channel 2 for
  512 bytes at \<open>0x1000\<close>, seeks the
  cylinder, senses the interrupt and sends the nine bytes of the read command for the cylinder, head and sector of the number. The motor
  is off at the end and the controller ready for the next command.\<close>

theorem floppy_read_sector_reads:
  assumes ok: "in_order disk s" and q: "\<not> received_irq s" and ph: "phase (fdc_state s) = Command []" and op: "irq6_open (trace (fl_io s))"
    and lba: "0 \<le> lba" "lba < 2880"
  shows "\<exists>s'. floppy_read_sector lba s = Some (0x1000, s') \<and> (\<forall>i < 512. fl_mem s' (0x1000 + of_nat i) = disk (nat lba) i)
    \<and> commands (fdc_state s') = read_command (lba div 36) (lba mod 36 div 18) (lba mod 18 + 1) # [0x08]
        # [0x0F, 0, word_of_int (lba div 36)] # commands (fdc_state s)
    \<and> hd (trace (fl_io s')) = Out FDC_DOR 0x0C
    \<and> in_order disk s' \<and> \<not> received_irq s' \<and> phase (fdc_state s') = Command [] \<and> irq6_open (trace (fl_io s'))"
proof -
  let ?c = "word_of_int (lba div 36) :: u8" and ?rd = "read_command (lba div 36) (lba mod 36 div 18) (lba mod 18 + 1)"
  let ?s1 = "fl_out FDC_DOR 0x1C s"
  define s2 where "s2 = dma_init dma_buffer 512 (fill_buffer ?s1)"
  have "same_env s (fill_buffer ?s1)" "trace (fl_io (fill_buffer ?s1)) = Out FDC_DOR 0x1C # trace (fl_io s)"
    "received_irq (fill_buffer ?s1) = received_irq s" by (simp_all add: fill_buffer_def same_env_def)
  then have i2: "usable disk s2" "phase (fdc_state s2) = Command []" "commands (fdc_state s2) = commands (fdc_state s)"
    "dor (fdc_state s2) = 0x1C"
    using in_order_env [of s "fill_buffer ?s1"] in_order_env [OF dma_init_state(3)] ok q ph op
    by (simp_all add: s2_def dma_init_state usable_def fdc_control_def)
  have seek: "fdc_run [CMD_SEEK, 0, ?c] c = c\<lparr>phase := Command [], commands := [CMD_SEEK, 0, ?c] # commands c, due := True, senses := 1\<rparr>" for c
    by (simp add: fdc_run_def Let_def)
  have "command_length (hd [CMD_SEEK, 0, ?c]) = length [CMD_SEEK, 0, ?c]" "[CMD_SEEK, 0, ?c] \<noteq> []"
    "due (fdc_run [CMD_SEEK, 0, ?c] (fdc_state s2))" by (simp_all add: command_length_def seek)
  note w4 = command_and_wait [OF i2(1,2) this, unfolded seek]
  define s4 where "s4 = snd (floppy_wait_irq (fold fdc_send_byte [CMD_SEEK, 0, ?c] s2))"
  note w4 = w4 [folded s4_def]
  define s5 where "s5 = snd (snd (fdc_check_interrupt s4))"
  have p4: "phase (fdc_state s4) = Command []" "senses (fdc_state s4) = Suc 0" "in_order disk s4" "bit (dor (fdc_state s4)) 2"
    "dor (fdc_state s4) = 0x1C"
    using w4(2,5) i2(4) by (simp_all add: usable_def)
  note c5 = check_interrupt_ok [OF p4(3,1,4,2), folded s5_def]
  have i5: "usable disk s5" "phase (fdc_state s5) = Command []" "dma_state s5 = dma_state s2" "motor_runs (fdc_state s5)"
    using usable_fifo [OF c5(2) w4(2)] c5 w4(3) p4(5) by (simp_all add: only_fifo_def motor_runs_def)
  have rd: "fdc_run ?rd c = c\<lparr>phase := Results 7, commands := ?rd # commands c, due := motor_runs c\<rparr>" for c
    by (simp add: fdc_run_def read_command_def Let_def)
  have l: "command_length (hd ?rd) = length ?rd" "?rd \<noteq> []" by (simp_all add: read_command_def command_length_def)
  have "due (fdc_run ?rd (fdc_state s5))" unfolding rd using i5(4) by simp
  note w7 = command_and_wait [OF i5(1,2) l this, unfolded rd]
  define s6 where "s6 = fold fdc_send_byte ?rd s5"
  define s7 where "s7 = snd (floppy_wait_irq s6)"
  note w7 = w7 [folded s6_def, folded s7_def]
  have cmds: "commands (fdc_state s5) = [0x08] # [0x0F, 0, ?c] # commands (fdc_state s)" using c5(1) w4(5) i2(3) by simp
  have f7: "phase (fdc_state s7) = Results 7" "commands (fdc_state s7) = ?rd # [0x08] # [0x0F, 0, ?c] # commands (fdc_state s)"
    "motor_runs (fdc_state s7)" "bit (dor (fdc_state s7)) 2" "in_order disk s7"
    using w7(2,5) cmds i5(4) by (simp_all add: motor_runs_def usable_def)
  note b = chs_bytes [OF lba]
  have rq: "read_request (trace (fl_io x)) = Some (unat ?c, unat (word_of_int (lba mod 36 div 18) :: u8), unat (word_of_int (lba mod 18 + 1) :: u8), 0x1000)"
    if "motor_runs (fdc_state x)" "commands (fdc_state x) = ?rd # [0x08] # [0x0F, 0, ?c] # commands (fdc_state s)" "dma_state x = dma_state s2" for x
    using b(2-5) that unfolding read_request_def by (simp add: read_command_def Let_def s2_def dma_init_state)
  have rq6: "read_request (trace (fl_io s6)) = Some (unat ?c, unat (word_of_int (lba mod 36 div 18) :: u8), unat (word_of_int (lba mod 18 + 1) :: u8), 0x1000)"
    by (rule rq) (use w7(4,6) cmds i5(3,4) in \<open>simp_all add: motor_runs_def\<close>)
  have rq7: "read_request (trace (fl_io s7)) \<noteq> None" using rq [OF f7(3,2)] w7(3) i5(3) by simp
  define s9 where "s9 = ((\<lambda>s. snd (fdc_read_byte s)) ^^ 6) (snd (fdc_read_byte s7))"
  have r: "fdc_state s9 = (fdc_state s7)\<lparr>phase := Command [], due := False\<rparr>" "only_fifo s7 s9" "fst (fdc_read_byte s7) AND 0xC0 = 0"
  proof -
    have s9: "s9 = ((\<lambda>s. snd (fdc_read_byte s)) ^^ 7) s7"
      using funpow_Suc_right [of 6 "\<lambda>s. snd (fdc_read_byte s)"] by (simp add: s9_def del: funpow.simps)
    show "fdc_state s9 = (fdc_state s7)\<lparr>phase := Command [], due := False\<rparr>" unfolding s9 by (rule read_results [OF f7(5,1,4)]) simp
    show "only_fifo s7 s9" unfolding s9 by (rule read_pow_only)
    show "fst (fdc_read_byte s7) AND 0xC0 = 0" by (rule fdc_read_byte_ok(2) [OF f7(5,1,4) refl rq7])
  qed
  have mem: "fl_mem s9 (0x1000 + of_nat i) = disk (nat lba) i" if "i < 512" for i
    using w7(7,9) rq6 r(2) that unfolding in_order_def only_fifo_def b(1) [symmetric] by metis
  obtain x y where ci: "fdc_check_interrupt s4 = (x, y, s5)" unfolding s5_def by (metis prod.collapse)
  have "floppy_read_sector lba s = Some (0x1000, fdc_motor_off s9)"
    unfolding floppy_read_sector_def Let_def chs_div [OF lba(1)] motor_on_ok [OF ok]
    using w4(1) by (simp add: s2_def [symmetric]) (simp add: s6_def [symmetric] w7(1) ci r(3) s9_def case_prod_beta)
  then show ?thesis
    using usable_fifo [OF r(2) w7(2)] f7(2) mem r(1) by (simp add: fdc_motor_off_def usable_def fdc_control_def)
qed

text \<open>A controller that is busy at the first look at its status, interrupts at the third look of a wait, and a clock that advances by one from
  read to read.\<close>

definition transfer :: "(nat \<Rightarrow> nat \<Rightarrow> u8) \<Rightarrow> port_event list \<Rightarrow> mem \<Rightarrow> mem" where
  "transfer disk es m =
     (case read_request es of None \<Rightarrow> m
      | Some (c, h, sec, a) \<Rightarrow> (\<lambda>x. if unat (x - a) < 512 then disk ((c * 2 + h) * 18 + (sec - 1)) (unat (x - a)) else m x))"

definition sample_floppy :: "(nat \<Rightarrow> nat \<Rightarrow> u8) \<Rightarrow> hw \<Rightarrow> floppy" where
  "sample_floppy disk h = \<lparr>fl_io = \<lparr>trace = [Out 0x21 0xBE],
       device = (\<lambda>es p. if p = FDC_MSR then (if polls es = 0 then 0 else ready_status es) else 0)\<rparr>,
     received_irq = False, fl_mem = (\<lambda>_. 0), fl_hw = h, messages = [], irq = (\<lambda>es n. n = 2 \<and> due (fdc_of es) \<and> irq6_open es),
     dma = transfer disk, clock_reads = (\<lambda>_. of_nat)\<rparr>"

lemma sample_in_order: "in_order disk (sample_floppy disk h)"
proof -
  have "ready_status es AND 0xC0 = ready_status es" for es
    by (simp add: ready_status_def split: fdc_phase.split)
  then have "status_ok (sample_floppy disk h)" by (simp add: status_ok_def sample_floppy_def)
  moreover have "irq_ok (sample_floppy disk h)" by (auto simp: irq_ok_def sample_floppy_def intro: exI [of _ 2])
  moreover have "\<exists>n \<ge> 1. (20 :: u32) \<le> of_nat n" by (rule exI [of _ 20]) simp
  moreover have "transfer disk es m (a + of_nat i) = disk ((c * 2 + n) * 18 + (sec - 1)) i"
    if "read_request es = Some (c, n, sec, a)" "i < 512" for es m c n sec a i
    using that by (simp add: transfer_def unat_of_nat_u32)
  ultimately show ?thesis by (simp add: in_order_def sample_floppy_def)
qed

theorem floppy_read_sector_reads_witness:
  "\<forall>h. \<exists>s'. floppy_read_sector 100 (sample_floppy (\<lambda>n i. of_nat (n + i)) h) = Some (0x1000, s')
    \<and> fl_mem s' 0x1003 = 103 \<and> hd (commands (fdc_state s')) = [0xE6, 4, 2, 1, 11, 2, 18, 0x1B, 0xFF]"
proof
  fix h :: hw
  let ?s = "sample_floppy (\<lambda>n i. of_nat (n + i)) h"
  have "\<not> received_irq ?s" "phase (fdc_state ?s) = Command []" "irq6_open (trace (fl_io ?s))" by (simp_all add: sample_floppy_def bit_simps)
  from floppy_read_sector_reads [OF sample_in_order this, of 100]
  obtain s' where s: "floppy_read_sector 100 ?s = Some (0x1000, s')" "\<forall>i < 512. fl_mem s' (0x1000 + of_nat i) = of_nat (100 + i)"
    "hd (commands (fdc_state s')) = read_command 2 1 11" by auto
  then show "\<exists>s'. floppy_read_sector 100 ?s = Some (0x1000, s') \<and> fl_mem s' 0x1003 = 103
      \<and> hd (commands (fdc_state s')) = [0xE6, 4, 2, 1, 11, 2, 18, 0x1B, 0xFF]"
    using s(2) [rule_format, of 3] by (simp add: read_command_def)
qed

text \<open>The wait in full: with the first interrupt at look \<open>k\<close> it succeeds when \<open>k\<close> is below the limit, and without any it fails. At the
  very last look the interrupt is taken, but the wait reports a timeout all the same and leaves the flag set, so that the
  next wait succeeds at once.\<close>

theorem floppy_wait_irq_outcomes:
  assumes "\<not> received_irq s"
  shows "(\<forall>n \<le> 10000000. \<not> irq s (trace (fl_io s)) n) \<longrightarrow>
      floppy_wait_irq s = (-1, fl_print (lit ''FDC: IRQ TIMEOUT!'' @ [10]) s)"
    and "irq s (trace (fl_io s)) k \<longrightarrow> (\<forall>j < k. \<not> irq s (trace (fl_io s)) j) \<longrightarrow> k \<le> 10000000 \<longrightarrow>
      fst (floppy_wait_irq s) = (if k < 10000000 then 0 else -1) \<and> (received_irq (snd (floppy_wait_irq s)) \<longleftrightarrow> k = 10000000)"
proof -
  show "(\<forall>n \<le> 10000000. \<not> irq s (trace (fl_io s)) n) \<longrightarrow> floppy_wait_irq s = (-1, fl_print (lit ''FDC: IRQ TIMEOUT!'' @ [10]) s)"
    using wait_irq_loop_never [of s 10000000 0] assms by (simp add: floppy_wait_irq_def)
  show "irq s (trace (fl_io s)) k \<longrightarrow> (\<forall>j < k. \<not> irq s (trace (fl_io s)) j) \<longrightarrow> k \<le> 10000000 \<longrightarrow>
      fst (floppy_wait_irq s) = (if k < 10000000 then 0 else -1) \<and> (received_irq (snd (floppy_wait_irq s)) \<longleftrightarrow> k = 10000000)"
    using wait_irq_loop_first [of s 0 k 10000000] assms take_irq_yes(1) [of s k]
    by (auto simp: floppy_wait_irq_def fl_print_def)
qed

end
