(* ===== verification/Boot.thy ===== *)
theory Boot
  imports Creation ShellEdit ShellCommands
begin

text \<open>
  \<^verbatim>\<open>kernel_main\<close> of \<^verbatim>\<open>kernel/kernel.c\<close> up to its call of \<^verbatim>\<open>shell_run\<close>: the initialisations of the components,
  in the order the code calls them, over the joined state of the shell. The functions whose body is one message, such as \<^verbatim>\<open>signal_init\<close> and
  \<^verbatim>\<open>socket_init\<close>, are their message; the messages of the others are left out. None is a page fault, a division
  by zero or a loop that does not end. The address the linker gave the worker's code, that of the loopback
  device and the stack pointer that \<^verbatim>\<open>process_init\<close> reads are parameters.
\<close>

section \<open>The state and its parts\<close>

record 'e system =
  shell_of :: "'e shell"
  paging_on :: bool
  interrupts_on :: bool

abbreviation machine_of :: "'e system \<Rightarrow> 'e machine" where "machine_of s \<equiv> mach (shell_of s)"
abbreviation psys_of :: "'e system \<Rightarrow> psys" where "psys_of s \<equiv> ps (machine_of s)"

definition on_machine :: "('e machine \<Rightarrow> 'e machine) \<Rightarrow> 'e system \<Rightarrow> 'e system" where
  "on_machine g s = s\<lparr>shell_of := (shell_of s)\<lparr>mach := g (machine_of s)\<rparr>\<rparr>"

definition try_machine :: "('e machine \<Rightarrow> 'e machine option) \<Rightarrow> 'e system \<Rightarrow> 'e system option" where
  "try_machine g s = map_option (\<lambda>m. on_machine (\<lambda>_. m) s) (g (machine_of s))"

definition on_hw :: "(hw \<Rightarrow> hw) \<Rightarrow> 'e machine \<Rightarrow> 'e machine" where
  "on_hw g m = m\<lparr>timer_of := (timer_of m)\<lparr>ts_hw := g (ts_hw (timer_of m))\<rparr>\<rparr>"

definition on_kmem :: "(kmem \<Rightarrow> kmem) \<Rightarrow> 'e machine \<Rightarrow> 'e machine" where
  "on_kmem g m = m\<lparr>ps := (ps m)\<lparr>km := g (km (ps m))\<rparr>\<rparr>"

text \<open>The frames, the memory and the control registers, as the virtual memory manager sees them.\<close>

definition boot_vmm :: "'e system \<Rightarrow> vmm" where
  "boot_vmm s = (vm_of (psys_of s))\<lparr>paging := paging_on s\<rparr>"

definition put_vmm :: "vmm \<Rightarrow> 'e system \<Rightarrow> 'e system" where
  "put_vmm v s = (on_machine (\<lambda>m. m\<lparr>ps := (ps m)\<lparr>vm_directory := kernel_directory v, vm_cr3 := cr3 v,
       km := (km (ps m))\<lparr>kmemory := vmem v, kpmm := vpmm v\<rparr>\<rparr>\<rparr>) s)\<lparr>paging_on := paging v\<rparr>"

section \<open>Initialisation\<close>

definition vga_line :: "string \<Rightarrow> 'e system \<Rightarrow> 'e system" where
  "vga_line str = on_machine (say (lit str @ nl))"

definition info_line :: "string \<Rightarrow> 'e system \<Rightarrow> 'e system option" where
  "info_line str = try_machine (pr KERN_INFO (lit str @ nl) [])"

definition init_syscalls :: "'e system \<Rightarrow> 'e system option" where
  "init_syscalls = info_line ''Syscall interface initialized''"

definition signal_init :: "'e system \<Rightarrow> 'e system option" where
  "signal_init = info_line ''Signal subsystem initialized''"

definition netdev_init :: "'e system \<Rightarrow> 'e system option" where
  "netdev_init = info_line ''Network device subsystem initialized''"

definition socket_init :: "'e system \<Rightarrow> 'e system option" where
  "socket_init = info_line ''Socket subsystem initialized''"

definition blkdev_init :: "'e system \<Rightarrow> 'e system option" where
  "blkdev_init = info_line ''Block device subsystem initialized''"

definition device_init :: "'e system \<Rightarrow> 'e system option" where
  "device_init = info_line ''Device subsystem initialized''"

definition fat12_init :: "'e system \<Rightarrow> 'e system" where
  "fat12_init = vga_line ''Initializing Ramdisk FAT12...''"

definition memory_init :: "'e system \<Rightarrow> 'e system option" where
  "memory_init s = info_line ''Memory initialized.'' (on_machine (on_kmem (\<lambda>k. k\<lparr>kheap_of := heap_init (kheap_of k)\<rparr>)) s)"

definition start_timer :: "u32 \<Rightarrow> 'e machine \<Rightarrow> 'e machine option" where
  "start_timer frequency m = map_option (\<lambda>t. m\<lparr>timer_of := t\<rparr>) (init_timer frequency (timer_of m))"

definition start_ktimers :: "'e machine \<Rightarrow> 'e machine" where
  "start_ktimers m = m\<lparr>timer_of := (timer_of m)\<lparr>ts_ktimers := ktimer_subsystem_init (ts_ktimers (timer_of m))\<rparr>\<rparr>"

definition start_slab :: "'e machine \<Rightarrow> 'e machine option" where
  "start_slab m = Option.bind (slab_init (km (ps m))) (\<lambda>(_, k). Some (on_kmem (\<lambda>_. k) m))"

definition start_processes :: "(psys \<Rightarrow> psys option) \<Rightarrow> 'e machine \<Rightarrow> 'e machine option" where
  "start_processes g m = map_option (\<lambda>p. m\<lparr>ps := p\<rparr>) (g (ps m))"

fun steps :: "('a \<Rightarrow> 'a option) list \<Rightarrow> 'a \<Rightarrow> 'a option" where
  "steps [] s = Some s"
| "steps (g # gs) s = Option.bind (g s) (steps gs)"

definition kernel_main :: "u32 \<Rightarrow> u32 \<Rightarrow> ptr \<Rightarrow> 'e system \<Rightarrow> 'e system option" where
  "kernel_main sp worker_thread loopback_dev =
     steps [Some \<circ> on_machine (on_screen vga_init),
       Some \<circ> vga_line ''ValcOS Kernel Starting...'',
       Some \<circ> vga_line ''Initializing GDT...'', Some \<circ> on_machine (on_hw init_gdt),
       Some \<circ> vga_line ''Initializing TSS...'', Some \<circ> on_machine (on_hw init_tss),
       Some \<circ> vga_line ''Initializing IDT...'', Some \<circ> on_machine (on_hw idt_init),
       Some \<circ> vga_line ''Initializing Syscalls...'', init_syscalls,
       Some \<circ> vga_line ''Initializing Timer...'', try_machine (start_timer 100),
       Some \<circ> on_machine start_ktimers,
       signal_init,
       Some \<circ> on_machine (on_kmem (\<lambda>k. k\<lparr>kpmm := pmm_init (128 * 1024 * 1024) (kpmm k)\<rparr>)),
       (\<lambda>s. Some (put_vmm (vmm_init (boot_vmm s)) s)),
       memory_init,
       try_machine start_slab,
       Some \<circ> vga_line ''Initializing FAT12...'', Some \<circ> fat12_init,
       try_machine (start_processes (process_init sp)),
       try_machine (start_processes (workqueue_init worker_thread)),
       netdev_init,
       socket_init,
       Some \<circ> on_machine (\<lambda>m. m\<lparr>net_of := loopback_init loopback_dev (net_of m)\<rparr>),
       Some \<circ> on_machine (\<lambda>m. m\<lparr>fds_of := vfs_init (fds_of m)\<rparr>),
       blkdev_init,
       device_init,
       Some \<circ> vga_line ''Initializing Keyboard...'', Some \<circ> on_machine (on_hw keyboard_init),
       Some \<circ> on_machine (say (nl @ lit ''ValcOS Ready!'' @ nl @ nl)),
       (\<lambda>s. Some (s\<lparr>interrupts_on := True\<rparr>)),
       (\<lambda>s. Some (s\<lparr>shell_of := shell_init (shell_of s)\<rparr>))]"

section \<open>The page tables\<close>

text \<open>The translation depends on the words of these pages only.\<close>

lemma translation_kept:
  assumes inv: "vmm_inv v" and tot: "unat (total_blocks (vpmm v)) < MAX_BLOCKS"
    and high: "\<forall>Q \<in> insert (kernel_directory v) (table_frames v). 0x400000 \<le> unat Q"
    and k: "keeps_pages {Q \<in> used_pages (vpmm v). 0x400000 \<le> unat Q} (vmem v) m"
  shows "vmm_get_physical_address a (v\<lparr>vmem := m\<rparr>) = vmm_get_physical_address a v"
proof -
  note D = vmm_inv_dir [OF inv]
  have w: "table_word Q i m = table_word Q i (vmem v)" if Q: "Q \<in> used_pages (vpmm v)" "Q \<noteq> 0" "0x400000 \<le> unat Q" "is_page Q" "i < 1024" for Q i
  proof -
    have g: "good_page Q" by (rule used_page_good [OF D(2) tot Q(1,2)])
    have "unat (Q + 4 * i) = unat Q + 4 * unat i" "unat i < 1024" using unat_slot [OF Q(4,5)] Q(5) by (simp_all add: word_less_nat_alt)
    then show ?thesis unfolding table_word_def using k g Q slot_aligned [OF Q(4,5)] by (auto simp: keeps_pages_def)
  qed
  have dir: "table_word (kernel_directory v) (pd_index a) m = pde_of v (pd_index a)"
    using D high by (intro w) auto
  show ?thesis
  proof (cases "pde_of v (pd_index a) AND PTE_PRESENT = 0")
    case True
    then show ?thesis using dir by (simp add: vmm_get_physical_address_def Let_def)
  next
    case False
    let ?F = "FRAME (pde_of v (pd_index a))"
    have "?F \<in> table_frames v" using False by (auto simp: table_frames_def)
    then have "table_word ?F (pt_index a) m = table_word ?F (pt_index a) (vmem v)"
      using vmm_inv_table(1,3) [OF inv pd_index_bound False] high by (intro w) auto
    then show ?thesis using dir by (simp add: vmm_get_physical_address_def Let_def)
  qed
qed

section \<open>Room in the heap and in the frames\<close>

text \<open>The arena ends in a free block of at least \<open>n\<close> bytes.\<close>

definition heap_room :: "nat \<Rightarrow> kheap \<Rightarrow> bool" where
  "heap_room n h \<longleftrightarrow> (\<exists>bs m. heap_inv h (bs @ [(m, True)]) \<and> n \<le> m)"

lemma alloc_abs_last:
  assumes "L + 28 < m"
  shows "\<exists>q bs' m'. alloc_abs L a (bs @ [(m, True)]) = Some (q, bs' @ [(m', True)]) \<and> m - L - 12 \<le> m'"
proof (induction bs arbitrary: a)
  case Nil
  have "alloc_abs L a [(m, True)] = Some (a + 12, [(L, False)] @ [(m - L - 12, True)])"
    using assms by (simp add: take_abs_def)
  then show ?case by (intro exI [of _ "a + 12"] exI [of _ "[(L, False)]"] exI [of _ "m - L - 12"]) simp
next
  case (Cons b bs)
  obtain n f where b: "b = (n, f)" by (rule prod.exhaust)
  show ?case
  proof (cases "f \<and> L \<le> n")
    case True
    then have "alloc_abs L a ((b # bs) @ [(m, True)]) = Some (a + 12, (take_abs L n @ bs) @ [(m, True)])" by (simp add: b)
    then show ?thesis by (metis diff_le_self le_trans)
  next
    case False
    obtain q bs' m' where "alloc_abs L (a + 12 + n) (bs @ [(m, True)]) = Some (q, bs' @ [(m', True)])" "m - L - 12 \<le> m'"
      using Cons.IH by blast
    then have "alloc_abs L a ((b # bs) @ [(m, True)]) = Some (q, (b # bs') @ [(m', True)])" using False by (auto simp: b)
    then show ?thesis using \<open>m - L - 12 \<le> m'\<close> by blast
  qed
qed

lemma kmalloc_room:
  assumes "heap_room n h" and "unat (align16 len) + 28 < n"
  obtains q h' where "kmalloc len h = Some (q, h')" "q \<noteq> 0" "heap_room (n - unat (align16 len) - 12) h'"
proof -
  let ?L = "unat (align16 len)"
  obtain bs m where m: "heap_inv h (bs @ [(m, True)])" "n \<le> m" using assms(1) unfolding heap_room_def by blast
  have "?L + 28 < m" using assms(2) m(2) by simp
  from alloc_abs_last [OF this, of ARENA_START bs] obtain q bs' m' where
    a: "alloc_abs ?L ARENA_START (bs @ [(m, True)]) = Some (q, bs' @ [(m', True)])" "m - ?L - 12 \<le> m'" by blast
  obtain h' where "kmalloc len h = Some (of_nat q, h')" "heap_inv h' (bs' @ [(m', True)])" "unat (of_nat q :: u32) = q" "q \<noteq> 0"
    using heap_alloc_new [OF m(1) a(1)] by blast
  moreover have "n - ?L - 12 \<le> m'" using a(2) m(2) by simp
  ultimately show ?thesis using that [of "of_nat q" h'] unfolding heap_room_def by fastforce
qed

lemma heap_init_room:
  assumes "heap_head h = HEAP_START" shows "heap_room 0xFFFF4 (heap_init h)"
proof -
  have "heap_inv (heap_init h) ([] @ [(0xFFFF4, True)])" using assms by (simp add: heap_inv_def heap_init_def put_block_def)
  then show ?thesis unfolding heap_room_def by blast
qed

text \<open>Room for a slab: its descriptor and a page.\<close>

definition slab_room :: "nat \<Rightarrow> nat \<Rightarrow> kmem \<Rightarrow> bool" where
  "slab_room n j k \<longleftrightarrow> heap_room n (kheap_of k) \<and> j \<le> free_frames (kpmm k)"

lemma slab_room_less: "slab_room n j k \<Longrightarrow> n' \<le> n \<Longrightarrow> slab_room n' j k"
  unfolding slab_room_def heap_room_def by (meson le_trans)

lemma slab_room_store:
  assumes "slab_room n j k" "60 < n" "0 < j" "page_inv (kpmm k)" shows "\<not> no_store k"
proof -
  have a: "unat (align16 24) = 32" by (simp add: align16_def)
  obtain q h' where "kmalloc SLAB_SIZE (kheap_of k) = Some (q, h')" "q \<noteq> 0"
    by (rule kmalloc_room [of n "kheap_of k" SLAB_SIZE]) (use assms(1,2) a in \<open>auto simp: slab_room_def\<close>)
  moreover have "fst (pmm_alloc_block (kpmm k)) \<noteq> 0"
    using alloc_free_frames [OF assms(4)] assms(1,3) by (simp add: slab_room_def)
  ultimately show ?thesis by (simp add: no_store_def)
qed

text \<open>An allocation takes at most one descriptor and one page.\<close>

lemma kmem_cache_alloc_store:
  assumes "kmem_cache_alloc c s = Some (p, k)" "p \<noteq> 0"
  shows "kheap_of k = kheap_of s \<and> kpmm k = kpmm s
    \<or> kheap_of k = snd (the (kmalloc SLAB_SIZE (kheap_of s))) \<and> kpmm k = snd (pmm_alloc_block (kpmm s))"
  using assms
  by (auto simp: kmem_cache_alloc_def slab_create_def slab_take_def Let_def put_slab_def put_cache_def
      split: if_splits bind_splits prod.splits)

lemma slab_room_alloc:
  assumes "kmem_cache_alloc c s = Some (p, k)" "p \<noteq> 0" and r: "slab_room n j s" "60 < n" "0 < j" "page_inv (kpmm s)"
  shows "slab_room (n - 44) (j - 1) k"
proof -
  have a: "unat (align16 24) = 32" by (simp add: align16_def)
  have hr: "heap_room n (kheap_of s)" using r(1) by (simp add: slab_room_def)
  obtain q h' where "kmalloc SLAB_SIZE (kheap_of s) = Some (q, h')" "heap_room (n - 44) h'"
    by (rule kmalloc_room [OF hr, of SLAB_SIZE]) (use r(2) a in auto)
  moreover have "heap_room (n - 44) (kheap_of s)" using hr unfolding heap_room_def by (meson diff_le_self le_trans)
  moreover have "j - 1 \<le> free_frames (snd (pmm_alloc_block (kpmm s)))"
    using alloc_free_frames [OF r(4)] r(1,3) by (auto simp: slab_room_def intro: diff_le_mono)
  moreover have "j - 1 \<le> free_frames (kpmm s)" using r(1) by (auto simp: slab_room_def)
  ultimately show ?thesis using kmem_cache_alloc_store [OF assms(1,2)] by (auto simp: slab_room_def)
qed

section \<open>The caches\<close>

lemma dlist_prev_mem: "dlist l h xs \<Longrightarrow> lprev l h \<in> set (h # xs)"
  by (cases xs rule: rev_cases) (auto simp: dlist_def)

lemma kmem_cache_create_made:
  assumes inv: "caches_inv s cs" and r: "slab_room n j s" "124 < n" and x: "\<not> in_arena x" "x \<noteq> cache_list s"
  obtains c s' where "kmem_cache_create name len align flags s = Some (c, s')" "caches_inv s' (cs @ [c])" "slab_room (n - 108) j s'"
    "same_links x (klinks s) (klinks s')" "cache_list s' = cache_list s" "kpmm s' = kpmm s" "kmemory s' = kmemory s" "c \<noteq> 0"
    "good_size (unat (align_object_size len align)) \<longrightarrow> cache_inv s' c (\<lambda>_. []) (\<lambda>_. [])" "store_inv s' c {}"
proof -
  have a: "unat (align16 88) = 96" by (simp add: align16_def)
  have hr: "heap_room n (kheap_of s)" using r(1) by (simp add: slab_room_def)
  obtain c h where k: "kmalloc CACHE_SIZE (kheap_of s) = Some (c, h)" "c \<noteq> 0" "heap_room (n - 108) h"
    by (rule kmalloc_room [OF hr, of CACHE_SIZE]) (use r(2) a in auto)
  let ?l = "init_list_head (cache_node c) (init_list_head (slabs_empty c) (init_list_head (slabs_partial c) (init_list_head (slabs_full c) (klinks s))))"
  obtain s' where e: "kmem_cache_create name len align flags s = Some (c, s')" "kheap_of s' = h" "kpmm s' = kpmm s" "kmemory s' = kmemory s"
    "cache_list s' = cache_list s" "klinks s' = list_add_tail (cache_node c) (cache_list s) ?l"
    using k(1,2) by (simp add: kmem_cache_create_def Let_def put_cache_def)
  have made: "caches_inv s' (cs @ [c])" "good_size (unat (align_object_size len align)) \<longrightarrow> cache_inv s' c (\<lambda>_. []) (\<lambda>_. [])" "store_inv s' c {}"
    using inv by (cases rule: kmem_cache_create_cases [where name = name and len = len and align = align and flags = flags and fl = "\<lambda>_. []"];
      use e(1) k in auto)+
  have st: "dlist (klinks s) (cache_list s) (map cache_node cs)" using inv by (simp add: caches_inv_def)
  obtain bs where bs: "heap_inv (kheap_of s') bs" "\<forall>d \<in> set (cs @ [c]). \<exists>k \<ge> 88. (unat d, k) \<in> live ARENA_START bs"
    using made(1) unfolding caches_inv_def by blast
  have nodes: "in_arena (d + i)" if "d \<in> set (cs @ [c])" "unat i \<le> 80" for d i
  proof -
    obtain k where k: "88 \<le> k" "(unat d, k) \<in> live ARENA_START bs" using bs(2) \<open>d \<in> set (cs @ [c])\<close> by blast
    note lr = heap_live_range [OF bs(1) k(2)]
    have "unat (d + i) = unat d + unat i" using lr k(1) that(2) by (subst unat_add_u32) simp_all
    then show ?thesis using lr k(1) that(2) by (simp add: in_arena_def)
  qed
  have ne: "x \<noteq> c + i" if "unat i \<le> 80" for i using nodes [of c i] that x(1) by auto
  have init: "same_links x (klinks s) ?l"
    by (intro same_links_trans [OF same_links_init same_links_trans [OF same_links_init same_links_trans [OF same_links_init same_links_init]]])
      (use ne in \<open>auto simp: eq_commute [of _ x]\<close>)
  have cl: "unat (cache_list s) < ARENA_START" using inv by (simp add: caches_inv_def)
  have "lprev ?l (cache_list s) = lprev (klinks s) (cache_list s)"
  proof -
    have "\<not> in_arena (cache_list s)" using cl by (simp add: in_arena_def)
    then have "cache_list s \<noteq> c + i" if "unat i \<le> 80" for i using nodes [of c i] that by auto
    then show ?thesis by (simp add: init_list_head_def)
  qed
  then have "lprev ?l (cache_list s) \<in> set (cache_list s # map cache_node cs)" using dlist_prev_mem [OF st] by simp
  then have "x \<noteq> lprev ?l (cache_list s)" using x nodes [where i = 80] by auto
  then have "same_links x ?l (klinks s')"
    using ne [of 80] x(2) unfolding e(6) by (simp add: same_links_def list_op_defs)
  then show ?thesis using that [OF e(1) made(1)] e k(2,3) r(1) made init same_links_trans by (simp add: slab_room_def)
qed

lemma create_caches_made:
  assumes "caches_inv s cs" "slab_room n j s" "108 * length zs + 124 < n + 108" "\<not> in_arena x" "x \<noteq> cache_list s"
  shows "\<exists>qs s'. create_caches zs s = Some (qs, s') \<and> caches_inv s' (cs @ qs) \<and> slab_room (n - 108 * length zs) j s'
    \<and> same_links x (klinks s) (klinks s') \<and> cache_list s' = cache_list s \<and> kpmm s' = kpmm s \<and> kmemory s' = kmemory s"
  using assms
proof (induction zs arbitrary: s cs n)
  case Nil
  then show ?case by (simp add: same_links_def)
next
  case (Cons z zs)
  obtain len name where z: "z = (len, name)" by (rule prod.exhaust)
  have n: "124 < n" using Cons.prems(3) by simp
  obtain c s1 where c: "kmem_cache_create name len 0 0 s = Some (c, s1)" "caches_inv s1 (cs @ [c])" "slab_room (n - 108) j s1"
    "same_links x (klinks s) (klinks s1)" "cache_list s1 = cache_list s" "kpmm s1 = kpmm s" "kmemory s1 = kmemory s"
    using kmem_cache_create_made [OF Cons.prems(1,2) n Cons.prems(4,5), of name len 0 0] by metis
  have "\<exists>qs s'. create_caches zs s1 = Some (qs, s') \<and> caches_inv s' ((cs @ [c]) @ qs) \<and> slab_room (n - 108 - 108 * length zs) j s'
    \<and> same_links x (klinks s1) (klinks s') \<and> cache_list s' = cache_list s1 \<and> kpmm s' = kpmm s1 \<and> kmemory s' = kmemory s1"
    by (rule Cons.IH [OF c(2,3)]) (use Cons.prems(3-5) c(5) in auto)
  then show ?case using c same_links_trans by (fastforce simp: z)
qed

section \<open>The first process\<close>

lemma process_init_ready:
  assumes inv: "caches_inv (km s) cs" and r: "slab_room n j (km s)" "200 < n" "0 < j"
    and q: "dlist (plinks s) (ready_queue s) []" "unat (ready_queue s) < ARENA_START" "ready_queue s \<noteq> cache_list (km s)"
  obtains s' p f fl where "process_init sp s = Some s'" "proc_inv s' [p] f fl" "current_process s' = p" "pid (procs s' p) = 0"
    "pstate (procs s' p) = RUNNING" "ready_queue s' = ready_queue s" "next_pid s' = next_pid s" "vm_directory s' = vm_directory s"
    "vm_cr3 s' = vm_cr3 s" "slab_room (n - 152) (j - 1) (km s')" "pages_kept (process_cache s') (km s) (\<lambda>_. []) (km s') f"
proof -
  have na: "\<not> in_arena (ready_queue s)" using q(2) by (simp add: in_arena_def)
  have n: "124 < n" using r(2) by simp
  obtain c k where c: "kmem_cache_create (lit ''process_cache'') PROCESS_SIZE 0 0 (km s) = Some (c, k)" "slab_room (n - 108) j k"
    "same_links (ready_queue s) (plinks s) (klinks k)" "kpmm k = kpmm (km s)" "kmemory k = pmem s" "c \<noteq> 0"
    "good_size (unat (align_object_size PROCESS_SIZE 0)) \<longrightarrow> cache_inv k c (\<lambda>_. []) (\<lambda>_. [])" "store_inv k c {}"
    using kmem_cache_create_made [OF inv r(1) n na q(3), of "lit ''process_cache''" PROCESS_SIZE 0 0] by metis
  have "align_object_size PROCESS_SIZE 0 = 204" by (simp add: align_object_size_def)
  then have ci: "cache_inv k c (\<lambda>_. []) (\<lambda>_. [])" using c(7) by (simp add: good_size_def)
  have no: "ring_nodes (slab_heads c) (\<lambda>_. []) = {}" by (simp add: ring_nodes_def)
  define s1 where "s1 = s\<lparr>km := k, process_cache := c\<rparr>"
  have d: "dlist (klinks k) (ready_queue s) []" using q(1) dlist_same_links [of "ready_queue s" "[]" "plinks s" "klinks k"] c(3) by auto
  have "ready_queue s \<notin> slab_heads c" using arena_nodes [OF c(8)] na by (auto simp: in_arena_def)
  then have p1: "proc_inv s1 [] (\<lambda>_. []) (\<lambda>_. [])" using ci c(8) d by (simp add: s1_def proc_inv_def Process.queue_inv_def no)
  have pi: "page_inv (kpmm k)" using c(8) by (simp add: store_inv_def)
  have "\<not> no_store k" by (rule slab_room_store [OF c(2) _ r(3) pi]) (use r(2) in simp)
  have st: "store_inv k c (ring_nodes (slab_heads c) (\<lambda>_. []))" using c(8) no by simp
  obtain p k2 where al: "kmem_cache_alloc c k = Some (p, k2)" "p \<noteq> 0" using alloc_object_some [OF ci st \<open>\<not> no_store k\<close>] by blast
  have room: "slab_room (n - 152) (j - 1) k2"
    using slab_room_alloc [OF al c(2) _ r(3) pi] r(2) by simp
  have al1: "kmem_cache_alloc (process_cache s1) (km s1) = Some (p, k2)" using al(1) by (simp add: s1_def)
  have q1: "unat (ready_queue s1) < ARENA_START" using q(2) by (simp add: s1_def)
  have hid: "k2\<lparr>kheap_of := kheap_of k2\<rparr> = k2" by simp
  obtain s' where s': "process_init sp s = Some s'" "km s' = k2\<lparr>kheap_of := kheap_of k2, kmemory := store32 p 0 (kmemory k2),
      klinks := list_add_tail (pnode p) (ready_queue s1) (init_list_head (pnode p) (set_prev (pnode p) 0 (set_next (pnode p) 0 (klinks k2))))\<rparr>"
    "ready_queue s' = ready_queue s1" "process_cache s' = process_cache s1" "current_process s' = p" "pid (procs s' p) = 0" "pstate (procs s' p) = RUNNING"
    "next_pid s' = next_pid s" "vm_directory s' = vm_directory s" "vm_cr3 s' = vm_cr3 s"
    using c(1,6) al by (simp add: process_init_def alloc_process_def Let_def set_links_def set_memory_def put_process_def enqueue_def s1_def)
  obtain f fl where E: "proc_inv s' ([] @ [p]) f fl" "pages_kept (process_cache s1) (km s1) (\<lambda>_. []) (km s') f"
    using enqueued_inv [where w = 0 and h = "kheap_of k2" and m = "kmemory k2", OF p1 q1 al1 al(2)] s'(2-4) unfolding hid by metis
  have "pages_kept c (km s) (\<lambda>_. []) (km s') f"
    using E(2) c(4,5) by (simp add: s1_def pages_kept_def cache_pages_def no)
  then show ?thesis using that [OF s'(1) _ s'(5-7) _ s'(8-10)] E(1) room s' by (simp add: s1_def slab_room_def)
qed

section \<open>The initialisation without its messages\<close>

text \<open>What the steps work on, and the steps over it.\<close>

record 'e core =
  c_ps :: psys
  c_timer :: "'e timer_sys"
  c_fds :: "'e vfs"
  c_net :: net
  c_paging :: bool
  c_interrupts :: bool

definition core :: "'e system \<Rightarrow> 'e core" where
  "core s = \<lparr>c_ps = psys_of s, c_timer = timer_of (machine_of s), c_fds = fds_of (machine_of s), c_net = net_of (machine_of s),
     c_paging = paging_on s, c_interrupts = interrupts_on s\<rparr>"

abbreviation c_hw :: "(hw \<Rightarrow> hw) \<Rightarrow> 'e core \<Rightarrow> 'e core" where
  "c_hw g c \<equiv> c\<lparr>c_timer := (c_timer c)\<lparr>ts_hw := g (ts_hw (c_timer c))\<rparr>\<rparr>"

abbreviation c_km :: "(kmem \<Rightarrow> kmem) \<Rightarrow> 'e core \<Rightarrow> 'e core" where
  "c_km g c \<equiv> c\<lparr>c_ps := (c_ps c)\<lparr>km := g (km (c_ps c))\<rparr>\<rparr>"

definition c_vmm :: "'e core \<Rightarrow> 'e core" where
  "c_vmm c = (let v = vmm_init ((vm_of (c_ps c))\<lparr>paging := c_paging c\<rparr>)
     in c\<lparr>c_ps := (c_ps c)\<lparr>vm_directory := kernel_directory v, vm_cr3 := cr3 v,
            km := (km (c_ps c))\<lparr>kmemory := vmem v, kpmm := vpmm v\<rparr>\<rparr>, c_paging := paging v\<rparr>)"

definition does :: "('e system \<Rightarrow> 'e system option) \<Rightarrow> ('e core \<Rightarrow> 'e core option) \<Rightarrow> bool" where
  "does g h \<longleftrightarrow> (\<forall>s. map_option core (g s) = h (core s))"

lemma steps_core: "list_all2 does gs hs \<Longrightarrow> map_option core (steps gs s) = steps hs (core s)"
proof (induction gs hs arbitrary: s rule: list_all2_induct)
  case Nil
  then show ?case by simp
next
  case (Cons g gs h hs)
  then show ?case by (cases "g s") (simp_all add: does_def, metis option.simps(8) bind.bind_lzero, metis option.simps(9) bind.bind_lunit)
qed

lemma core_screen: "core (on_machine (on_screen g) s) = core s"
  by (simp add: core_def on_machine_def on_screen_def)

lemma does_screen: "does (Some \<circ> on_machine (on_screen g)) Some"
  by (simp add: does_def core_screen)

lemma does_line: "does (Some \<circ> vga_line str) Some"
  unfolding vga_line_def by (rule does_screen)

text \<open>A message without a \<^verbatim>\<open>%\<close> is printed, or suppressed by the level.\<close>

lemma info_some:
  assumes "ch CHR ''%'' \<notin> set (lit str)"
  shows "\<exists>g. pr KERN_INFO (lit str @ nl) [] m = Some (on_screen g m)"
proof -
  have "ch CHR ''%'' \<notin> set (lit str @ nl)" using assms by simp
  note f = fmt_loop_plain [OF this, of "[]"]
  have "pr KERN_INFO (lit str @ nl) [] m \<noteq> None"
    using f by (auto simp: pr_def log_def vprintk_def vprintk_internal_def extract_log_level_def Let_def split: sum.split prod.split)
  then obtain m' where m': "pr KERN_INFO (lit str @ nl) [] m = Some m'" by blast
  then show ?thesis using pr_only(1) [OF m'] unfolding only_screen_def by blast
qed

lemma does_info: "ch CHR ''%'' \<notin> set (lit str) \<Longrightarrow> does (info_line str) Some"
  unfolding does_def info_line_def try_machine_def
  using info_some [of str] core_screen by (fastforce simp: on_machine_def)

definition core_steps :: "u32 \<Rightarrow> u32 \<Rightarrow> ptr \<Rightarrow> ('e core \<Rightarrow> 'e core option) list" where
  "core_steps sp worker_thread loopback_dev =
     [Some, Some, Some, Some \<circ> c_hw init_gdt, Some, Some \<circ> c_hw init_tss, Some, Some \<circ> c_hw idt_init, Some, Some, Some,
      (\<lambda>c. map_option (\<lambda>t. c\<lparr>c_timer := t\<rparr>) (init_timer 100 (c_timer c))),
      Some \<circ> (\<lambda>c. c\<lparr>c_timer := (c_timer c)\<lparr>ts_ktimers := ktimer_subsystem_init (ts_ktimers (c_timer c))\<rparr>\<rparr>), Some,
      Some \<circ> c_km (\<lambda>k. k\<lparr>kpmm := pmm_init 0x8000000 (kpmm k)\<rparr>), Some \<circ> c_vmm,
      Some \<circ> c_km (\<lambda>k. k\<lparr>kheap_of := heap_init (kheap_of k)\<rparr>),
      (\<lambda>c. map_option (\<lambda>(_, k). c_km (\<lambda>_. k) c) (slab_init (km (c_ps c)))), Some, Some,
      (\<lambda>c. map_option (\<lambda>p. c\<lparr>c_ps := p\<rparr>) (process_init sp (c_ps c))),
      (\<lambda>c. map_option (\<lambda>p. c\<lparr>c_ps := p\<rparr>) (process_create worker_thread (c_ps c))), Some, Some,
      Some \<circ> (\<lambda>c. c\<lparr>c_net := loopback_init loopback_dev (c_net c)\<rparr>),
      Some \<circ> (\<lambda>c. c\<lparr>c_fds := vfs_init (c_fds c)\<rparr>), Some, Some, Some, Some \<circ> c_hw keyboard_init, Some,
      Some \<circ> (\<lambda>c. c\<lparr>c_interrupts := True\<rparr>), Some]"

lemma does_machine:
  "does (Some \<circ> on_machine (on_hw g)) (Some \<circ> c_hw g)"
  "does (Some \<circ> on_machine (on_kmem h)) (Some \<circ> c_km h)"
  "does (Some \<circ> on_machine start_ktimers) (Some \<circ> (\<lambda>c. c\<lparr>c_timer := (c_timer c)\<lparr>ts_ktimers := ktimer_subsystem_init (ts_ktimers (c_timer c))\<rparr>\<rparr>))"
  "does (Some \<circ> on_machine (\<lambda>m. m\<lparr>net_of := loopback_init d (net_of m)\<rparr>)) (Some \<circ> (\<lambda>c. c\<lparr>c_net := loopback_init d (c_net c)\<rparr>))"
  "does (Some \<circ> on_machine (\<lambda>m. m\<lparr>fds_of := vfs_init (fds_of m)\<rparr>)) (Some \<circ> (\<lambda>c. c\<lparr>c_fds := vfs_init (c_fds c)\<rparr>))"
  by (simp_all add: does_def core_def on_machine_def on_hw_def on_kmem_def start_ktimers_def)

lemma does_try:
  "does (try_machine (start_timer n)) (\<lambda>c. map_option (\<lambda>t. c\<lparr>c_timer := t\<rparr>) (init_timer n (c_timer c)))"
  "does (try_machine (start_processes p)) (\<lambda>c. map_option (\<lambda>q. c\<lparr>c_ps := q\<rparr>) (p (c_ps c)))"
  by (simp_all add: does_def try_machine_def start_timer_def start_processes_def core_def on_machine_def option.map_comp comp_def)

lemma does_slab: "does (try_machine start_slab) (\<lambda>c. map_option (\<lambda>(_, k). c_km (\<lambda>_. k) c) (slab_init (km (c_ps c))))"
  unfolding does_def
proof
  fix s :: "'a system"
  show "map_option core (try_machine start_slab s) = map_option (\<lambda>(_, k). c_km (\<lambda>_. k) (core s)) (slab_init (km (c_ps (core s))))"
    by (cases "slab_init (km (psys_of s))") (auto simp: try_machine_def start_slab_def core_def on_machine_def on_kmem_def)
qed

lemma does_vmm: "does (\<lambda>s. Some (put_vmm (vmm_init (boot_vmm s)) s)) (Some \<circ> c_vmm)"
  by (simp add: does_def core_def put_vmm_def boot_vmm_def c_vmm_def on_machine_def Let_def)

lemma does_after: "does g h \<Longrightarrow> does (Some \<circ> g') (Some \<circ> h') \<Longrightarrow> does (\<lambda>s. g (g' s)) (\<lambda>c. h (h' c))"
  by (simp add: does_def)

lemma does_memory: "does memory_init (Some \<circ> c_km (\<lambda>k. k\<lparr>kheap_of := heap_init (kheap_of k)\<rparr>))"
proof -
  have "does (info_line ''Memory initialized.'') Some" by (rule does_info) simp
  from does_after [OF this does_machine(2)] show ?thesis by (simp add: memory_init_def [abs_def] comp_def)
qed

lemma does_last:
  "does (\<lambda>s. Some (s\<lparr>interrupts_on := True\<rparr>)) (Some \<circ> (\<lambda>c. c\<lparr>c_interrupts := True\<rparr>))"
  "does (\<lambda>s. Some (s\<lparr>shell_of := shell_init (shell_of s)\<rparr>)) Some"
  by (simp_all add: does_def core_def shell_init_def shell_print_prompt_def screen_do_def on_screen_def)

lemma kernel_main_core: "map_option core (kernel_main sp w d s) = steps (core_steps sp w d) (core s)"
proof -
  have m: "(128 * 1024 * 1024 :: u32) = 0x8000000" by simp
  show ?thesis
    unfolding kernel_main_def core_steps_def m workqueue_init_def [abs_def] init_syscalls_def signal_init_def netdev_init_def socket_init_def
      blkdev_init_def device_init_def fat12_init_def
    by (rule steps_core)
      (intro list.rel_intros does_screen does_line does_machine does_try does_slab does_vmm does_memory does_last; rule does_info; simp)
qed

section \<open>The processes and their memory at the end of the boot\<close>

text \<open>The data the compiler initialises: the empty lists and the addresses of their heads, the head of the heap and the first pid.\<close>

definition static_data :: "ptr \<Rightarrow> 'e core \<Rightarrow> bool" where
  "static_data loopback_dev c \<longleftrightarrow>
     heap_head (kheap_of (km (c_ps c))) = HEAP_START \<and> next_pid (c_ps c) = 1
     \<and> dlist (plinks (c_ps c)) (ready_queue (c_ps c)) [] \<and> unat (ready_queue (c_ps c)) < ARENA_START
     \<and> dlist (plinks (c_ps c)) (cache_list (km (c_ps c))) [] \<and> unat (cache_list (km (c_ps c))) < ARENA_START
     \<and> ready_queue (c_ps c) \<noteq> cache_list (km (c_ps c))
     \<and> netdevs_ok (c_net c) [] \<and> loopback_dev \<noteq> 0 \<and> netdev_node loopback_dev \<notin> {0, netdev_list (c_net c)}"

lemma low_used_used_set: "used_set p = {..<1024} \<Longrightarrow> low_used p"
  unfolding low_used_def
proof (intro allI impI)
  fix P :: u32
  assume u: "used_set p = {..<1024}" and P: "4096 dvd unat P \<and> unat P < 0x400000"
  then obtain b where b: "unat P = 4096 * b" by (auto elim: dvdE)
  then have "b < 1024" using P by simp
  moreover have "P = of_nat b * PMM_BLOCK_SIZE" using b \<open>b < 1024\<close> by (simp add: word_unat_eq_iff unat_block_addr)
  ultimately show "P \<in> used_pages p" using u by (auto simp: used_pages_def)
qed

lemma boot_frames:
  fixes q :: pmm
  defines "p \<equiv> pmm_init 0x8000000 q"
  shows "page_inv p" "low_used p" "free_frames p = 31744" "unat (total_blocks p) = 32768"
proof -
  note i = pmm_init_state [of "0x8000000" q, folded p_def]
  show "unat (total_blocks p) = 32768" using i(3) by simp
  then show "free_frames p = 31744" using i(2) by (simp add: free_frames_def)
  show "page_inv p" "low_used p" using i(1,2) by (simp_all add: page_inv_def low_used_used_set)
qed

lemma vmm_get_eq:
  "kernel_directory v = kernel_directory w \<Longrightarrow> vmem v = vmem w \<Longrightarrow> vmm_get_physical_address a v = vmm_get_physical_address a w"
  by (simp add: vmm_get_physical_address_def Let_def)

lemma boot_processes:
  fixes s :: psys and v :: vmm
  assumes h: "heap_head (kheap_of (km s)) = HEAP_START" and pid: "next_pid s = 1"
    and q: "dlist (plinks s) (ready_queue s) []" "unat (ready_queue s) < ARENA_START" "ready_queue s \<noteq> cache_list (km s)"
    and c: "dlist (plinks s) (cache_list (km s)) []" "unat (cache_list (km s)) < ARENA_START"
    and v: "vpmm v = pmm_init 0x8000000 (kpmm (km s))"
  defines "t \<equiv> s\<lparr>vm_directory := kernel_directory (vmm_init v), vm_cr3 := cr3 (vmm_init v),
     km := (km s)\<lparr>kmemory := vmem (vmm_init v), kpmm := vpmm (vmm_init v), kheap_of := heap_init (kheap_of (km s))\<rparr>\<rparr>"
  obtains cs k s1 s2 kp wp f fl where "slab_init (km t) = Some (cs, k)" "process_init sp (t\<lparr>km := k\<rparr>) = Some s1"
    "process_create worker s1 = Some s2" "proc_inv s2 [kp, wp] f fl" "current_process s2 = kp"
    "pid (procs s2 kp) = 0" "pstate (procs s2 kp) = RUNNING" "pid (procs s2 wp) = 1" "pstate (procs s2 wp) = READY"
    "vm_cr3 s2 = vm_directory s2" "\<And>a. vmm_get_physical_address a (vm_of s2) = (if a < 0x800000 then a else 0)"
proof -
  let ?v = "vmm_init v"
  note F = boot_frames [of "kpmm (km s)", folded v]
  have "3 \<le> free_frames (vpmm v)" using F(3) by simp
  note V = vmm_init_space [OF F(1) this] and T = vmm_init_tables [OF F(1) this]
  have inv: "vmm_inv ?v" and dir: "cr3 ?v = kernel_directory ?v" using V [of 0 0] by auto
  have low: "low_used (vpmm ?v)" using F(2) T(2) by (auto simp: low_used_def)
  have tot: "total_blocks (vpmm ?v) = total_blocks (vpmm v)" "31741 \<le> free_frames (vpmm ?v)" using V [of 0 0] F(3) by auto
  have ci: "caches_inv (km t) []"
  proof -
    have "heap_inv (heap_init (kheap_of (km s))) [(0xFFFF4, True)]" using h by (simp add: heap_inv_def heap_init_def put_block_def)
    then show ?thesis using vmm_inv_dir(2) [OF inv] low tot(1) F(4) c by (auto simp: caches_inv_def t_def)
  qed
  have r0: "slab_room 0xFFFF4 31741 (km t)" using heap_init_room [OF h] tot(2) by (simp add: slab_room_def t_def)
  have na: "\<not> in_arena (ready_queue s)" "ready_queue s \<noteq> cache_list (km t)" using q(2,3) by (simp_all add: in_arena_def t_def)
  have len: "108 * length general_caches + 124 < 0xFFFF4 + 108" by (simp add: general_caches_def)
  obtain cs k where K: "slab_init (km t) = Some (cs, k)" "caches_inv k ([] @ cs)" "slab_room (0xFFFF4 - 108 * length general_caches) 31741 k"
    "same_links (ready_queue s) (klinks (km t)) (klinks k)" "cache_list k = cache_list (km t)" "kpmm k = kpmm (km t)" "kmemory k = kmemory (km t)"
    using create_caches_made [OF ci r0 len na] unfolding slab_init_def by blast
  let ?t = "t\<lparr>km := k\<rparr>"
  have ci1: "caches_inv (km ?t) cs" using K(2) by simp
  have r1: "slab_room 1000000 31741 (km ?t)"
    using slab_room_less [OF K(3), of 1000000] by (simp add: general_caches_def)
  have q1: "dlist (plinks ?t) (ready_queue ?t) []"
    using q(1) K(4) dlist_same_links [of "ready_queue s" "[]" "plinks s" "klinks k"] by (simp add: t_def)
  have q2: "unat (ready_queue ?t) < ARENA_START" "ready_queue ?t \<noteq> cache_list (km ?t)" using q(2,3) K(5) by (simp_all add: t_def)
  have big: "200 < (1000000 :: nat)" "0 < (31741 :: nat)" by simp_all
  obtain s1 kp f1 fl1 where A: "process_init sp ?t = Some s1" "proc_inv s1 [kp] f1 fl1" "current_process s1 = kp" "pid (procs s1 kp) = 0"
    "pstate (procs s1 kp) = RUNNING" "ready_queue s1 = ready_queue ?t" "next_pid s1 = next_pid ?t" "vm_directory s1 = vm_directory ?t"
    "vm_cr3 s1 = vm_cr3 ?t" "slab_room (1000000 - 152) (31741 - 1) (km s1)" "pages_kept (process_cache s1) (km ?t) (\<lambda>_. []) (km s1) f1"
    using process_init_ready [OF ci1 r1 big q1 q2, of sp] by metis
  have ci2: "cache_inv (km s1) (process_cache s1) f1 fl1" "store_inv (km s1) (process_cache s1) (ring_nodes (slab_heads (process_cache s1)) f1)"
    using A(2) by (simp_all add: proc_inv_def)
  have "\<not> no_store (km s1)" by (rule slab_room_store [OF A(10)]) (use ci2(2) in \<open>auto simp: store_inv_def\<close>)
  then obtain wp k2 where al: "kmem_cache_alloc (process_cache s1) (km s1) = Some (wp, k2)" "wp \<noteq> 0"
    using alloc_object_some [OF ci2] by blast
  have q3: "unat (ready_queue s1) < ARENA_START" using A(6) q2(1) by simp
  obtain s2 f2 fl2 where B: "process_create worker s1 = Some s2" "proc_inv s2 ([kp] @ [wp]) f2 fl2" "pid (procs s2 wp) = next_pid s1"
    "pstate (procs s2 wp) = READY" "\<And>x. x \<in> set [kp] \<Longrightarrow> procs s2 x = procs s1 x \<and> load32 (pmem s2) x = load32 (pmem s1) x"
    "current_process s2 = current_process s1" "vm_directory s2 = vm_directory s1" "vm_cr3 s2 = vm_cr3 s1" "pages_kept (process_cache s1) (km s1) f1 (km s2) f2"
    using process_created [OF A(2) q3 al, of worker] by metis
  have nodir: "vm_directory s2 = kernel_directory ?v" "vm_cr3 s2 = kernel_directory ?v"
    using A(8,9) B(7,8) dir by (simp_all add: t_def)
  have "cache_pages (km ?t) (process_cache s1) (\<lambda>_. []) = {}" by (simp add: cache_pages_def ring_nodes_def)
  then have "keeps_pages {Q \<in> used_pages (vpmm ?v). 0x400000 \<le> unat Q} (vmem ?v) (pmem s2)"
    using pages_kept_trans [OF A(11) B(9)] K(6,7) by (simp add: pages_kept_def t_def)
  moreover have "\<forall>Q \<in> insert (kernel_directory ?v) (table_frames ?v). 0x400000 \<le> unat Q"
  proof
    fix Q assume Q: "Q \<in> insert (kernel_directory ?v) (table_frames ?v)"
    then have "is_page Q" using vmm_inv_dir(1) [OF inv] by (auto simp: table_frames_def)
    then have "4096 dvd unat Q" by (simp add: is_page_dvd)
    moreover have "Q \<notin> used_pages (vpmm v)" using Q T(1) by blast
    ultimately show "0x400000 \<le> unat Q" using F(2) unfolding low_used_def by (meson not_le)
  qed
  ultimately have "vmm_get_physical_address a (?v\<lparr>vmem := pmem s2\<rparr>) = vmm_get_physical_address a ?v" for a
    using tot(1) F(4) by (intro translation_kept [OF inv]) simp_all
  then have tr: "vmm_get_physical_address a (vm_of s2) = (if a < 0x800000 then a else 0)" for a
    using V [of a 0] vmm_get_eq [of "vm_of s2" "?v\<lparr>vmem := pmem s2\<rparr>" a] nodir by (simp add: vm_of_def)
  have pids: "pid (procs s2 kp) = 0" "pstate (procs s2 kp) = RUNNING" "pid (procs s2 wp) = 1" "current_process s2 = kp"
    using A(3-5,7) B(3,5,6) pid by (simp_all add: t_def)
  show ?thesis using that [OF K(1) A(1) B(1) _ pids(4,1,2,3) B(4) _ tr] B(2) nodir by simp
qed

lemma loopback_found:
  assumes "netdevs_ok n []" "d \<noteq> 0" "netdev_node d \<notin> {0, netdev_list n}"
  shows "netdev_find lo_name (loopback_init d n) = Some d"
proof -
  let ?n = "n\<lparr>netdevs := (netdevs n)(d := \<lparr>nd_name = lo_name, nd_xmit = LOOPBACK_XMIT, nd_recv = 0, nd_priv = 0\<rparr>),
          nlinks := init_list_head (netdev_node d) (nlinks n)\<rparr>"
  have "netdevs_ok ?n []" using assms(1,3) by (simp add: netdevs_ok_def dlist_init_other)
  moreover have "can_register_netdev d ?n" using assms(2,3) by (simp add: can_register_netdev_def lo_name_def)
  ultimately show ?thesis
    using netdev_reg.lookup_added [of ?n "[]" d lo_name lo_name] by (simp add: loopback_init_def first_named_def lo_name_def)
qed

lemma vfs_init_empty: "i < MAX_FDS \<Longrightarrow> fd_table (vfs_init s) i = 0"
proof -
  have "fold (\<lambda>i t. t(i := 0)) xs t i = (if i \<in> set xs then 0 else t i)" for xs and t :: "nat \<Rightarrow> ptr"
    by (induction xs arbitrary: t) auto
  then show "i < MAX_FDS \<Longrightarrow> fd_table (vfs_init s) i = 0" by (simp add: vfs_init_def del: upt_rec_numeral)
qed

section \<open>Property\<close>

text \<open>C2: The kernel boots. From any state in which the static data are as the compiler laid them out, \<^verbatim>\<open>kernel_main\<close> reaches the shell's loop: no
  allocation on the way fails and no loop runs forever. The queue then holds the kernel's own process, pid 0, which is running, and the
  worker, pid 1, which is ready; queue, process cache, heap and frames satisfy their invariants together. Paging is on and maps exactly the
  first 8 MB to themselves, also after everything the later steps have written; interrupts are on, the loopback device is found under its
  name, and no file is open.\<close>

theorem kernel_main_boots:
  assumes "static_data loopback_dev (core s)"
  shows "\<exists>s' kp wp f fl. kernel_main sp worker_thread loopback_dev s = Some s'
    \<and> proc_inv (psys_of s') [kp, wp] f fl \<and> current_process (psys_of s') = kp
    \<and> pid (procs (psys_of s') kp) = 0 \<and> pstate (procs (psys_of s') kp) = RUNNING
    \<and> pid (procs (psys_of s') wp) = 1 \<and> pstate (procs (psys_of s') wp) = READY
    \<and> paging_on s' \<and> interrupts_on s' \<and> vm_cr3 (psys_of s') = vm_directory (psys_of s')
    \<and> (\<forall>a. vmm_get_physical_address a (vm_of (psys_of s')) = (if a < 0x800000 then a else 0))
    \<and> netdev_find lo_name (net_of (machine_of s')) = Some loopback_dev
    \<and> (\<forall>i < MAX_FDS. fd_table (fds_of (machine_of s')) i = 0)"
proof -
  define p where "p = c_ps (core s)"
  define v where "v = (vm_of (p\<lparr>km := (km p)\<lparr>kpmm := pmm_init 0x8000000 (kpmm (km p))\<rparr>\<rparr>))\<lparr>paging := c_paging (core s)\<rparr>"
  define t where "t = p\<lparr>vm_directory := kernel_directory (vmm_init v), vm_cr3 := cr3 (vmm_init v),
     km := (km p)\<lparr>kmemory := vmem (vmm_init v), kpmm := vpmm (vmm_init v), kheap_of := heap_init (kheap_of (km p))\<rparr>\<rparr>"
  have S: "heap_head (kheap_of (km p)) = HEAP_START" "next_pid p = 1" "dlist (plinks p) (ready_queue p) []" "unat (ready_queue p) < ARENA_START"
    "ready_queue p \<noteq> cache_list (km p)" "dlist (plinks p) (cache_list (km p)) []" "unat (cache_list (km p)) < ARENA_START"
    using assms unfolding static_data_def p_def by simp_all
  have vp: "vpmm v = pmm_init 0x8000000 (kpmm (km p))" by (simp add: vm_of_def v_def)
  obtain cs k s1 s2 kp wp f fl where B: "slab_init (km t) = Some (cs, k)" "process_init sp (t\<lparr>km := k\<rparr>) = Some s1"
    "process_create worker_thread s1 = Some s2" "proc_inv s2 [kp, wp] f fl" "current_process s2 = kp"
    "pid (procs s2 kp) = 0" "pstate (procs s2 kp) = RUNNING" "pid (procs s2 wp) = 1" "pstate (procs s2 wp) = READY"
    "vm_cr3 s2 = vm_directory s2" "\<And>a. vmm_get_physical_address a (vm_of s2) = (if a < 0x800000 then a else 0)"
    by (rule boot_processes [OF S vp, folded t_def, where sp = sp and worker = worker_thread]) (rule that)
  have pg: "paging (vmm_init v)"
    using vmm_init_space [of v 0 0] boot_frames [of "kpmm (km p)", folded vp] by simp
  obtain tm where tm: "init_timer 100 ((c_timer (core s))\<lparr>ts_hw := idt_init (init_tss (init_gdt (ts_hw (c_timer (core s)))))\<rparr>) = Some tm"
    by (simp add: init_timer_def Let_def)
  obtain c where c: "steps (core_steps sp worker_thread loopback_dev) (core s) = Some c" "c_ps c = s2" "c_paging c" "c_interrupts c"
    "c_net c = loopback_init loopback_dev (c_net (core s))" "c_fds c = vfs_init (c_fds (core s))"
  proof -
    have "km t = (km p)\<lparr>kmemory := vmem (vmm_init v), kpmm := vpmm (vmm_init v), kheap_of := heap_init (kheap_of (km p))\<rparr>" by (simp add: t_def)
    then show ?thesis using B(1-3) tm pg that unfolding core_steps_def
      by (simp add: c_vmm_def Let_def t_def v_def p_def)
  qed
  then obtain s' where s': "kernel_main sp worker_thread loopback_dev s = Some s'" "core s' = c"
    using kernel_main_core [of sp worker_thread loopback_dev s] by (cases "kernel_main sp worker_thread loopback_dev s") auto
  have "psys_of s' = s2" "paging_on s'" "interrupts_on s'" "net_of (machine_of s') = loopback_init loopback_dev (c_net (core s))"
    "fds_of (machine_of s') = vfs_init (c_fds (core s))" using s'(2) c by (auto simp: core_def)
  moreover have "netdev_find lo_name (loopback_init loopback_dev (c_net (core s))) = Some loopback_dev"
    using assms by (intro loopback_found) (simp_all add: static_data_def)
  moreover have "\<forall>i < MAX_FDS. fd_table (vfs_init (c_fds (core s))) i = 0" by (simp add: vfs_init_empty)
  ultimately show ?thesis
    using s'(1) B(4-11) by - (rule exI [of _ s'], rule exI [of _ kp], rule exI [of _ wp], rule exI [of _ f], rule exI [of _ fl], simp)
qed

text \<open>A machine as it is switched on: whatever is in the rest of it, the static data are laid out.\<close>

definition power_on :: "'e system \<Rightarrow> 'e system" where
  "power_on = on_machine (\<lambda>m. m\<lparr>ps := two_procs\<lparr>km := (boot_kmem (\<lambda>_. 0))
       \<lparr>klinks := init_list_head 0x1000 (init_list_head 0x15000 (plinks two_procs))\<rparr>, ready_queue := 0x1000, next_pid := 1\<rparr>,
     net_of := empty_net\<lparr>netdev_list := 0x2000, nlinks := init_list_head 0x2000 (nlinks empty_net)\<rparr>\<rparr>)"

lemma power_on_static: "static_data 0x10B000 (core (power_on s))"
  by (simp add: static_data_def core_def power_on_def on_machine_def boot_kheap_def heap_init_def put_block_def netdevs_ok_def
      dlist_init dlist_init_other)

theorem kernel_main_boots_witness:
  "\<forall>s :: unit system. \<exists>s'. kernel_main 0x90000 0x10C000 0x10B000 (power_on s) = Some s' \<and> paging_on s' \<and> interrupts_on s'"
proof
  fix s :: "unit system"
  show "\<exists>s'. kernel_main 0x90000 0x10C000 0x10B000 (power_on s) = Some s' \<and> paging_on s' \<and> interrupts_on s'"
    using kernel_main_boots [OF power_on_static [of s], of "0x90000" "0x10C000"] by blast
qed

end
