(* ===== verification/PageFault.thy ===== *)
theory PageFault
  imports Console
begin

text \<open>
  The handlers of \<^verbatim>\<open>kernel/vmm.c\<close> that halt the system: \<^verbatim>\<open>page_fault_handler\<close>, \<^verbatim>\<open>gpf_handler\<close> and
  \<^verbatim>\<open>double_fault_handler\<close>. None returns, so each is the screen it leaves behind when it halts. The faulting address, which the
  handler reads from CR2, is an argument.
\<close>

section \<open>The handlers\<close>

definition hex_digit :: "u32 \<Rightarrow> u8" where
  "hex_digit n = lit ''0123456789ABCDEF'' ! unat n"

text \<open>The loop over the eight groups of four bits, the highest first: each digit is printed as a string of its own.\<close>

definition print_hex :: "u32 \<Rightarrow> vga \<Rightarrow> vga" where
  "print_hex n s = fold (\<lambda>i. vga_print [hex_digit (drop_bit i n AND 0xF)]) [28, 24, 20, 16, 12, 8, 4, 0] s"

definition page_fault_handler :: "u32 \<Rightarrow> u32 \<Rightarrow> vga \<Rightarrow> vga" where
  "page_fault_handler fault_addr err_code s =
     (let s1 = vga_print_color ([10] @ lit ''========== PAGE FAULT =========='' @ [10]) 0x0C s;
          s2 = vga_print [10] (print_hex fault_addr (vga_print (lit ''Faulting Address: 0x'') s1));
          s3 = vga_print [10] (print_hex err_code (vga_print (lit ''Error Code: 0x'') s2));
          s4 = vga_print (lit ''  '') (vga_print ([10] @ lit ''Error Details:'' @ [10]) s3);
          s5 = (if err_code AND 1 \<noteq> 0 then vga_print (lit ''[PROTECTION VIOLATION] '') s4
                else vga_print (lit ''[NON-PRESENT PAGE] '') s4);
          s6 = (if err_code AND 2 \<noteq> 0 then vga_print (lit ''[WRITE] '') s5 else vga_print (lit ''[READ] '') s5);
          s7 = (if err_code AND 4 \<noteq> 0 then vga_print (lit ''[USER MODE] '') s6 else vga_print (lit ''[KERNEL MODE] '') s6);
          s8 = (if err_code AND 8 \<noteq> 0 then vga_print (lit ''[RESERVED BITS] '') s7 else s7);
          s9 = (if err_code AND 16 \<noteq> 0 then vga_print (lit ''[INSTRUCTION FETCH] '') s8 else s8)
      in vga_print (lit ''System Halted.'' @ [10]) (vga_print ([10] @ lit ''================================'' @ [10]) s9))"

definition gpf_handler :: "vga \<Rightarrow> vga" where
  "gpf_handler s = vga_print (lit ''System Halted.'' @ [10])
     (vga_print_color ([10] @ lit ''[GPF] General Protection Fault!'' @ [10]) 0x0C s)"

definition double_fault_handler :: "vga \<Rightarrow> vga" where
  "double_fault_handler s = vga_print (lit ''System Halted.'' @ [10])
     (vga_print_color ([10] @ lit ''[DOUBLE FAULT] System Panic!'' @ [10]) 0x0C s)"

section \<open>The digits\<close>

text \<open>\<open>n\<close> digits, the lowest first.\<close>

fun low_digits :: "nat \<Rightarrow> nat \<Rightarrow> u8 list" where
  "low_digits 0 v = []"
| "low_digits (Suc n) v = upcase (digit_char (v mod 16)) # low_digits n (v div 16)"

lemma low_digits_zero: "low_digits n 0 = replicate n (ch CHR ''0'')"
  by (induction n) (simp_all add: digit_char_def upcase_def word_sle_eq)

lemma low_digits_padded:
  "v < 16 ^ n \<Longrightarrow> low_digits n v = map upcase (digits_rev 16 v) @ replicate (n - length (digits_rev 16 v)) (ch CHR ''0'')"
proof (induction n arbitrary: v)
  case 0
  then show ?case by (subst (1 2) digits_rev.simps) simp
next
  case (Suc n)
  then have "v div 16 < 16 ^ n" by (simp add: div_less_iff_less_mult mult.commute)
  from Suc.IH [OF this] show ?case
    using digits_rev.simps [of 16 v] by (cases "v = 0") (simp_all add: low_digits_zero digits_rev.simps [of 16 0])
qed

lemma hex_digit_upcase: "hex_digit (drop_bit i w AND 0xF) = upcase (digit_char (unat w div 2 ^ i mod 16))"
proof -
  have "drop_bit i w AND 0xF = take_bit 4 (drop_bit i w)" by (simp add: take_bit_eq_mask mask_eq_exp_minus_1)
  then have "unat (drop_bit i w AND 0xF) = unat (take_bit 4 (drop_bit i w))" by (rule arg_cong)
  also have "unat (take_bit 4 (drop_bit i w)) = take_bit 4 (drop_bit i (unat w))"
    by (simp only: unsigned_take_bit_eq unat_drop_bit_eq)
  finally have "unat (drop_bit i w AND 0xF) = unat w div 2 ^ i mod 16" by (simp add: take_bit_eq_mod drop_bit_eq_div)
  moreover have "\<forall>d \<in> set [0..<16]. lit ''0123456789ABCDEF'' ! d = upcase (digit_char d)"
    by (simp add: upt_rec digit_char_def upcase_def word_sle_eq)
  ultimately show ?thesis by (simp add: hex_digit_def)
qed

text \<open>A word is printed as the log prints it with \<^verbatim>\<open>%X\<close>, filled up with zeros to eight digits.\<close>

definition hex8 :: "u32 \<Rightarrow> u8 list" where
  "hex8 w = replicate (8 - length (uint_to_str w 16)) (ch CHR ''0'') @ map upcase (uint_to_str w 16)"

lemma hex8_low_digits: "hex8 w = rev (low_digits 8 (unat w))"
proof (cases "w = 0")
  case True
  have "upcase (ch CHR ''0'') = ch CHR ''0''" by (simp add: upcase_def word_sle_eq)
  then show ?thesis using True
    by (simp add: hex8_def uint_to_str_def low_digits_zero numeral_eq_Suc)
next
  case False
  have "unat w < 16 ^ 8" using unat_lt_two_power_32 [of w] by simp
  from low_digits_padded [OF this] show ?thesis using False by (simp add: hex8_def uint_to_str_def rev_map)
qed

lemma low_digits_map: "low_digits n v = map (\<lambda>k. upcase (digit_char (v div 16 ^ k mod 16))) [0..<n]"
  by (induction n arbitrary: v) (simp_all add: upt_conv_Cons map_Suc_upt [symmetric] div_mult2_eq del: upt_Suc)

lemma print_hex8: "print_hex w s = vga_print (hex8 w) s"
proof -
  have "fold (\<lambda>i. vga_print [f i]) xs s = vga_print (map f xs) s" for f :: "nat \<Rightarrow> u8" and xs s
    by (induction xs arbitrary: s) (simp_all add: vga_print_def)
  moreover have "hex8 w = map (\<lambda>i. hex_digit (drop_bit i w AND 0xF)) [28, 24, 20, 16, 12, 8, 4, 0]"
    by (simp add: hex8_low_digits low_digits_map hex_digit_upcase upt_rec)
  ultimately show ?thesis by (simp only: print_hex_def)
qed

section \<open>The report\<close>

definition fault_report :: "u32 \<Rightarrow> u32 \<Rightarrow> u8 list" where
  "fault_report fault_addr err_code =
     lit ''Faulting Address: 0x'' @ hex8 fault_addr @ [10] @ lit ''Error Code: 0x'' @ hex8 err_code @ [10]
     @ [10] @ lit ''Error Details:'' @ [10] @ lit ''  ''
     @ lit (if bit err_code 0 then ''[PROTECTION VIOLATION] '' else ''[NON-PRESENT PAGE] '')
     @ lit (if bit err_code 1 then ''[WRITE] '' else ''[READ] '')
     @ lit (if bit err_code 2 then ''[USER MODE] '' else ''[KERNEL MODE] '')
     @ lit (if bit err_code 3 then ''[RESERVED BITS] '' else '''')
     @ lit (if bit err_code 4 then ''[INSTRUCTION FETCH] '' else '''')
     @ [10] @ lit ''================================'' @ [10] @ lit ''System Halted.'' @ [10]"

lemma and_bit: "(w AND 2 ^ k \<noteq> 0) = bit (w :: u32) k"
  by (simp add: bit_iff_and_push_bit_not_eq_0 push_bit_eq_mult)

lemmas err_bits = and_bit [of _ 0, simplified] and_bit [of _ 1, simplified] and_bit [of _ 2, simplified]
  and_bit [of _ 3, simplified] and_bit [of _ 4, simplified]

lemma print_twice: "vga_print b (vga_print a s) = vga_print (a @ b) s"
  by (simp add: vga_print_def)

text \<open>A page fault leaves one report on the screen: the address and the error code in eight digits each, as the log would
  print them, and what the bits of the error code say. The kernel never writes outside the screen while it reports.\<close>

theorem page_fault_reported:
  "page_fault_handler fault_addr err_code s = vga_print (fault_report fault_addr err_code)
      (vga_print_color ([10] @ lit ''========== PAGE FAULT =========='' @ [10]) 0x0C s)
   \<and> (vga_inv s \<longrightarrow> vga_inv (page_fault_handler fault_addr err_code s))"
proof -
  have eq: "page_fault_handler fault_addr err_code s = vga_print (fault_report fault_addr err_code)
      (vga_print_color ([10] @ lit ''========== PAGE FAULT =========='' @ [10]) 0x0C s)"
    unfolding page_fault_handler_def Let_def err_bits print_hex8 if_distrib [where f = "\<lambda>x. vga_print x _", symmetric] print_twice
    by (simp only: fault_report_def if_split append_assoc) (auto simp: print_twice)
  moreover have "vga_inv (vga_print_color str c s)" if "vga_inv s" for str c
  proof -
    have "vga_inv (s\<lparr>vga_current_color := c\<rparr>)" using that by (simp add: vga_inv_def)
    from vga_print_inv [OF this] show ?thesis by (simp add: vga_print_color_def vga_inv_def)
  qed
  ultimately show ?thesis using vga_print_inv by simp
qed

end
