(* ===== verification/Spec2Isabelle.thy ===== *)
theory Spec2Isabelle
  imports Prelude ListHead Interfaces Pmm KHeap CString Vmm Ktimer Net Keyboard Console Slab Process Fat12 FatFiles
    Descriptors Timer Workqueue Vfs Device Rtc Ports Graphics AddressSpace Paging Elf
    KernelMemory UserProcess Syscall Shell ShellEdit ShellCommands Creation Floppy Boot PageFault
begin

text \<open>
  ValcOS is a small 32-bit x86 kernel written in C. This development models its C code:
  memory management, lists, processes and signals, timers, devices and the packet layer, the
  FAT12 ramdisk, the drivers, the loader, the system calls, the shell, and the order in which
  \<^verbatim>\<open>kernel_main\<close> starts them. File names below are relative to \<^verbatim>\<open>src/\<close>.

  \<^bold>\<open>How the parts interact.\<close> The frame allocator serves the page tables and the slabs; the kernel heap
  serves the headers of slabs and caches, stacks, packets, sockets, devices and open files. Processes are
  objects of a slab cache, queued in a ring of list nodes that the scheduler walks; the timer interrupt runs the
  callbacks, the kernel timers and every tenth time the scheduler. User programs reach the kernel through the system
  calls, the user at the keyboard through the shell, whose commands use nearly every component.

  \<^bold>\<open>Conventions.\<close> \<^verbatim>\<open>uint8_t\<close>, \<^verbatim>\<open>uint16_t\<close> and \<^verbatim>\<open>uint32_t\<close> are 8, 16 and 32 bit words, so arithmetic
  wraps as in C. Objects in memory are records in maps from 32-bit addresses; where code
  treats memory as bytes (strings, page tables, free lists of slabs, the ramdisk, stacks) the memory
  is a map from addresses to bytes. A static variable is a field of the component's state, a
  C function is a HOL function from the state to the state, in the order of the statements of
  the source. A loop that may run for ever is a \<open>partial_function (option)\<close> whose None is the
  run that does not end; the theorems about such functions state that the result is Some. C
  errors are the values C returns (0, NULL, -1, an error code). A page fault is None too, since its
  handler halts. Kernel objects are modelled on physical memory: their addresses mean the same with paging on as long as they lie in the first
  8 MB, which \<^verbatim>\<open>vmm_init\<close> maps to themselves. What leaves this range or changes the mapping it runs under is modelled with every
  load and store translated: the loader, user processes, mapping a page, creating a slab. Messages on the console are left out, except in the
  console and the log themselves, the fault handlers, the system calls, the shell, the floppy driver and the lines of
  \<^verbatim>\<open>kernel_main\<close>. Functions reached through a pointer (callbacks, a driver's
  operations, the bodies of works) and what a port reads are parameters. \<^verbatim>\<open>Prelude\<close> holds the types, the theorem
  collections and the generic lemmas.

  \<^bold>\<open>Theories: memory.\<close>
  \<^item> \<^verbatim>\<open>ListHead\<close> models \<^verbatim>\<open>include/list.h\<close>: links as two maps, the operations as the C
    assignments, and the predicate \<open>dlist\<close> that ties a ring to a sequence. The operations
    refine the operations on sequences; traversals visit every node once.
  \<^item> \<^verbatim>\<open>Pmm\<close> models \<^verbatim>\<open>kernel/pmm.c\<close>: a bitmap of frames. Searches are linear searches, runs
    are first fit, and the counters agree with the bitmap after any sequence of calls.
  \<^item> \<^verbatim>\<open>KHeap\<close> models \<^verbatim>\<open>kernel/memory.c\<close>: block headers in a 1 MB arena. The invariant is that
    the arena is partitioned into blocks; allocation is first fit over the partition, and
    every sequence of calls on held pointers returns.
  \<^item> \<^verbatim>\<open>Vmm\<close> models \<^verbatim>\<open>kernel/vmm.c\<close>: page directory and tables as words in memory. Mapping and
    unmapping change the translation of exactly one page. \<^verbatim>\<open>AddressSpace\<close> has the loads and stores of code that runs
    under paging, \<^verbatim>\<open>Paging\<close> the mapping of a page by such code, which reads and writes the directory and the tables through the
    mapping it changes: where the directory and the tables in use are mapped to themselves and new tables come from the first 8 MB, it does not fault, and leaves
    the leaf entry, the user bit and the other pages as on physical memory. \<^verbatim>\<open>PageFault\<close> has the handlers that report a fault and halt.
  \<^item> \<^verbatim>\<open>Slab\<close> models \<^verbatim>\<open>kernel/slab.c\<close>: caches of equal objects, whose free lists run through the
    free objects. The invariant ties lists, counts and free lists to the set of objects
    handed out. \<^verbatim>\<open>KernelMemory\<close> runs the creation of a slab under paging: it is that of \<^verbatim>\<open>Slab\<close> for objects that fit in a
    page, and a page fault for larger ones.
  \<^item> \<^verbatim>\<open>CString\<close> models byte memory and \<^verbatim>\<open>kernel/string.c\<close>.

  \<^bold>\<open>Theories: processes and time.\<close>
  \<^item> \<^verbatim>\<open>Process\<close> models \<^verbatim>\<open>kernel/process.c\<close>, \<^verbatim>\<open>kernel/process.asm\<close> and \<^verbatim>\<open>kernel/signal.c\<close>:
    the queue of processes, the scheduler with the context switch on the stacks in memory,
    and signal delivery. \<^verbatim>\<open>Creation\<close> shows that creating a process keeps the queue, the cache and the frames in
    order; \<^verbatim>\<open>UserProcess\<close> models \<^verbatim>\<open>process_create_user\<close>, which remaps pages of the address space it runs in, among them
    the one of the page directory.
  \<^item> \<^verbatim>\<open>Elf\<close> models \<^verbatim>\<open>kernel/elf.c\<close>: a valid image with segments above 8 MB is found at its virtual addresses after loading, an invalid one changes
    nothing.
  \<^item> \<^verbatim>\<open>Ktimer\<close> models \<^verbatim>\<open>kernel/ktimer.c\<close>, \<^verbatim>\<open>Timer\<close> \<^verbatim>\<open>drivers/timer.c\<close> with its interrupt handler, \<^verbatim>\<open>Workqueue\<close>
    \<^verbatim>\<open>kernel/workqueue.c\<close> (interleavings of whole calls, and the one preemption inside \<^verbatim>\<open>schedule_work\<close> that loses
    submissions), \<^verbatim>\<open>Rtc\<close> \<^verbatim>\<open>drivers/rtc.c\<close>.

  \<^bold>\<open>Theories: devices and files.\<close>
  \<^item> \<^verbatim>\<open>Net\<close> models \<^verbatim>\<open>kernel/skbuff.c\<close>, \<^verbatim>\<open>kernel/netdevice.c\<close>, \<^verbatim>\<open>kernel/socket.c\<close> and
    \<^verbatim>\<open>drivers/net/loopback.c\<close>; \<^verbatim>\<open>Device\<close> \<^verbatim>\<open>kernel/device.c\<close> and \<^verbatim>\<open>kernel/blkdev.c\<close>; \<^verbatim>\<open>Vfs\<close> \<^verbatim>\<open>kernel/vfs.c\<close>.
  \<^item> \<^verbatim>\<open>Fat12\<close> models \<^verbatim>\<open>fs/fat12.c\<close>: the ramdisk is the byte memory from 0x10000 on.
    \<^verbatim>\<open>FatFiles\<close> holds the proofs about its file operations: what writing a file leaves in the
    clusters and what reading it gives back.
  \<^item> \<^verbatim>\<open>Ports\<close> holds port input and output as a history of accesses. \<^verbatim>\<open>Graphics\<close> models \<^verbatim>\<open>drivers/vga_gfx.c\<close> over it, and
    \<^verbatim>\<open>Floppy\<close> \<^verbatim>\<open>drivers/floppy.c\<close>, with the floppy controller and the DMA chip as machines that read the history: commands and
    their results, the drive's motor, the interrupts asked for and acknowledged, the mask of the interrupt line, and a
    controller that may be busy for a while.
  \<^item> \<^verbatim>\<open>Descriptors\<close> models \<^verbatim>\<open>kernel/gdt.c\<close>, \<^verbatim>\<open>kernel/tss.c\<close> and \<^verbatim>\<open>kernel/idt.c\<close>; \<^verbatim>\<open>Keyboard\<close>
    \<^verbatim>\<open>drivers/keyboard.c\<close>; \<^verbatim>\<open>Console\<close> \<^verbatim>\<open>drivers/vga.c\<close> and \<^verbatim>\<open>kernel/printk.c\<close>.

  \<^bold>\<open>Theories: the whole.\<close>
  \<^item> \<^verbatim>\<open>Syscall\<close> models \<^verbatim>\<open>kernel/syscall.c\<close> and the stubs of \<^verbatim>\<open>userspace/newlib_stubs.c\<close> over the joined kernel state.
  \<^item> \<^verbatim>\<open>Shell\<close> has every command of \<^verbatim>\<open>kernel/shell.c\<close>, \<^verbatim>\<open>ShellCommands\<close> the proofs about them (numbers, write
    and cat, kill and nice, commands that only print), \<^verbatim>\<open>ShellEdit\<close> the line editor and its refinement of an
    editor on lists.
  \<^item> \<^verbatim>\<open>Boot\<close> models \<^verbatim>\<open>kernel_main\<close> of \<^verbatim>\<open>kernel/kernel.c\<close> and shows that it reaches the shell with the invariants of
    its components established together.

  \<^bold>\<open>Interfaces.\<close> \<^verbatim>\<open>Interfaces\<close> holds the contracts as locales, interpreted on the models: \<open>page_allocator\<close> on the
  frame allocator, \<open>heap_allocator\<close> on the kernel heap, \<open>fifo\<close> on the packet queues, the keyboard ring and the work
  queue, \<open>slot_table\<close> on the timer's callbacks and the file descriptors, \<open>registry\<close> on the
  network devices and the device list, \<open>address_space\<close> on the loads and stores under paging.

  \<^bold>\<open>Bounds.\<close> No fuel is used. The sizes of the source are kept: 4096-byte frames and slabs, a
  heap of 1 MB at 2 MB, 1024 entries to a directory and to a table, 80 by 25 cells, 256
  characters of keyboard buffer and command line, ten lines of history, 512 bytes of log buffer, 4080 clusters, 16
  callbacks and 16 file descriptors; the floppy driver's 10000000 looks for an interrupt and 1000 for a byte are arguments that
  count down, and a disk has 2880 sectors.

  \<^bold>\<open>Not modelled.\<close> The assembly of \<^verbatim>\<open>boot/boot.asm\<close>, \<^verbatim>\<open>kernel/kernel_entry.asm\<close> and \<^verbatim>\<open>kernel/usermode.asm\<close>: mode
  switches and interrupt stubs, which have no C semantics. Preemption inside a function of the
  kernel, except where a theory says so: the other operations run to their end before the next one begins. \<^verbatim>\<open>kernel/fork.c\<close>, which is not in the build and repeats functions of
  \<^verbatim>\<open>kernel/process.c\<close>. The user programs \<^verbatim>\<open>userspace/hello.c\<close> and \<^verbatim>\<open>apps\<close>, which only make system calls, and
  the build scripts.
\<close>

end
